(* ===== verification/Prelude.thy ===== *)
theory Prelude
  imports Main "HOL-Library.Word" "HOL-Library.Monad_Syntax" "HOL-Library.AList"
begin

text \<open>
  Shared vocabulary of the development.

  \<^item> machine words and byte strings, with Go's \<open>encoding/binary\<close> little and big endian
    conversions (\<open>put_le\<close>, \<open>get_le\<close>, \<open>put_be\<close>);
  \<^item> results: \<open>'e + 'a\<close> for a Go pair (value, error), with \<open>bindE\<close> for the
    early-return idiom; an outer \<open>option\<close> marks a Go panic as \<open>None\<close>;
  \<^item> three-way comparison: Go's \<open>cmp.Compare\<close>, \<open>slices.Compare\<close> and the contract
    \<open>comparator\<close> every comparison of the program satisfies;
  \<^item> \<open>slices.BinarySearchFunc\<close> with its specification;
  \<^item> \<open>io.ReadFull\<close> over a byte string.
\<close>

unbundle bit_operations_syntax

named_theorems wf_defs \<open>definitions of well-formedness predicates\<close>
named_theorems result_simps \<open>elimination of results and early returns\<close>

type_synonym byte = "8 word"
type_synonym bytes = "byte list"
type_synonym u16 = "16 word"
type_synonym u32 = "32 word"
type_synonym u64 = "64 word"

section \<open>Results and early returns\<close>

definition bindE :: "'e + 'a \<Rightarrow> ('a \<Rightarrow> 'e + 'b) \<Rightarrow> 'e + 'b" where
  "bindE m f = (case m of Inl e \<Rightarrow> Inl e | Inr x \<Rightarrow> f x)"

lemma bindE_simps [simp]:
  "bindE (Inl e) f = Inl e"
  "bindE (Inr x) f = f x"
  by (simp_all add: bindE_def)

lemma bindE_eq_Inr [result_simps]:
  "bindE m f = Inr y \<longleftrightarrow> (\<exists>x. m = Inr x \<and> f x = Inr y)"
  by (cases m) simp_all

lemma bindE_eq_Inl [result_simps]:
  "bindE m f = Inl e \<longleftrightarrow> m = Inl e \<or> (\<exists>x. m = Inr x \<and> f x = Inl e)"
  by (cases m) simp_all

lemma bindE_cong [fundef_cong]:
  "m = m' \<Longrightarrow> (\<And>x. m' = Inr x \<Longrightarrow> f x = f' x) \<Longrightarrow> bindE m f = bindE m' f'"
  by (cases m') simp_all

lemma bindE_Inr_right [simp]: "bindE m Inr = m"
  by (cases m) simp_all

lemma bind_eq_Some_conv' [result_simps]:
  "Option.bind m f = Some y \<longleftrightarrow> (\<exists>x. m = Some x \<and> f x = Some y)"
  by (cases m) simp_all

section \<open>Endian conversions\<close>

text \<open>
  \<open>binary.LittleEndian.PutUintN\<close> writes byte \<open>i\<close> of the word as \<open>byte(v >> (8*i))\<close>;
  \<open>UintN\<close> reassembles the word by or-ing the shifted bytes. \<open>put_be\<close> is the big
  endian writer.
\<close>

definition put_le :: "nat \<Rightarrow> 'a::len word \<Rightarrow> bytes" where
  "put_le n w = map (\<lambda>i. ucast (drop_bit (8 * i) w)) [0..<n]"

fun get_le :: "bytes \<Rightarrow> 'a::len word" where
  "get_le [] = 0"
| "get_le (b # bs) = ucast b OR push_bit 8 (get_le bs)"

definition put_be :: "nat \<Rightarrow> 'a::len word \<Rightarrow> bytes" where
  "put_be n w = rev (put_le n w)"

definition get_be :: "bytes \<Rightarrow> 'a::len word" where
  "get_be bs = get_le (rev bs)"

lemma length_put_le [simp]: "length (put_le n w) = n"
  by (simp add: put_le_def)

lemma length_put_be [simp]: "length (put_be n w) = n"
  by (simp add: put_be_def)

lemma put_le_code [code]:
  "put_le n w = (if n = 0 then [] else ucast w # put_le (n - 1) (drop_bit 8 w))"
proof (cases n)
  case (Suc m)
  have "[0..<Suc m] = 0 # map Suc [0..<m]"
    by (simp add: upt_conv_Cons map_Suc_upt)
  with Suc show ?thesis
    by (simp add: put_le_def drop_bit_drop_bit add.commute)
qed (simp add: put_le_def)

lemma put_le_Suc: "put_le (Suc n) w = ucast w # put_le n (drop_bit 8 w)"
  by (subst put_le_code) simp

lemma bit_get_le:
  "bit (get_le bs :: 'a::len word) i \<longleftrightarrow>
     i < LENGTH('a) \<and> i div 8 < length bs \<and> bit (bs ! (i div 8)) (i mod 8)"
proof (induction bs arbitrary: i)
  case Nil
  then show ?case by simp
next
  case (Cons b bs)
  show ?case
  proof (cases "i < 8")
    case True
    then show ?thesis
      by (auto simp: bit_or_iff bit_push_bit_iff bit_unsigned_iff)
  next
    case False
    then obtain j where j: "i = j + 8" by (metis add.commute le_Suc_ex not_less)
    have "\<not> bit b i" using False by (auto dest: bit_imp_le_length)
    moreover have "i div 8 = Suc (j div 8)" and "i mod 8 = j mod 8" using j by auto
    ultimately show ?thesis using Cons.IH [of j] j
      by (auto simp: bit_or_iff bit_push_bit_iff bit_unsigned_iff)
  qed
qed

lemma get_le_put_le:
  fixes w :: "'a::len word"
  assumes "LENGTH('a) \<le> 8 * n"
  shows "get_le (put_le n w) = w"
proof (rule bit_word_eqI)
  fix i assume i: "i < LENGTH('a)"
  then have "i div 8 < n" using assms by (simp add: less_mult_imp_div_less)
  moreover have "8 * (i div 8) + i mod 8 = i" by simp
  ultimately show "bit (get_le (put_le n w) :: 'a word) i = bit w i"
    using i by (simp add: bit_get_le put_le_def bit_unsigned_iff bit_drop_bit_eq)
qed

lemma put_le_get_le:
  assumes "8 * length bs \<le> LENGTH('a)"
  shows "put_le (length bs) (get_le bs :: 'a::len word) = bs"
proof (rule nth_equalityI)
  fix i assume i: "i < length (put_le (length bs) (get_le bs :: 'a word))"
  then have i': "i < length bs" by simp
  show "put_le (length bs) (get_le bs :: 'a word) ! i = bs ! i"
  proof (rule bit_word_eqI)
    fix k assume k: "k < LENGTH(8)"
    have "8 * i + k < LENGTH('a)" using i' k assms by simp
    with i' k show "bit (put_le (length bs) (get_le bs :: 'a word) ! i) k = bit (bs ! i) k"
      by (simp add: put_le_def bit_unsigned_iff bit_drop_bit_eq bit_get_le)
  qed
qed simp

lemma put_le_inj:
  fixes w v :: "'a::len word"
  assumes "LENGTH('a) \<le> 8 * n" and "put_le n w = put_le n v"
  shows "w = v"
  by (metis assms get_le_put_le)

lemma put_be_inj:
  fixes w v :: "'a::len word"
  assumes "LENGTH('a) \<le> 8 * n" and "put_be n w = put_be n v"
  shows "w = v"
  using assms(2) by (auto simp: put_be_def intro: put_le_inj [OF assms(1)])

section \<open>Reading from a byte stream\<close>

text \<open>
  An \<open>io.Reader\<close> over a byte string is the string that is left. \<open>io.ReadFull\<close>
  returns \<open>EOF\<close> when nothing is left and \<open>ErrUnexpectedEOF\<close> when fewer bytes are
  left than asked for.
\<close>

datatype io_error = EOF | UnexpectedEOF

definition readFull :: "nat \<Rightarrow> bytes \<Rightarrow> io_error + (bytes \<times> bytes)" where
  "readFull n r =
     (if n \<le> length r then Inr (take n r, drop n r)
      else if r = [] then Inl EOF else Inl UnexpectedEOF)"

lemma readFull_append [simp]: "length xs = n \<Longrightarrow> readFull n (xs @ r) = Inr (xs, r)"
  by (simp add: readFull_def)

lemma readFull_eq_Inr [result_simps]:
  "readFull n r = Inr (xs, r') \<longleftrightarrow> length xs = n \<and> r = xs @ r'"
  by (auto simp: readFull_def)

section \<open>Three-way comparison\<close>

text \<open>Go's \<open>cmp.Compare\<close> on an ordered type, and \<open>slices.CompareFunc\<close>.\<close>

definition cmpCompare :: "'a::linorder \<Rightarrow> 'a \<Rightarrow> int" where
  "cmpCompare x y = (if x < y then -1 else if x > y then 1 else 0)"

fun lexCompare :: "('a \<Rightarrow> 'a \<Rightarrow> int) \<Rightarrow> 'a list \<Rightarrow> 'a list \<Rightarrow> int" where
  "lexCompare c [] [] = 0"
| "lexCompare c [] (y # ys) = -1"
| "lexCompare c (x # xs) [] = 1"
| "lexCompare c (x # xs) (y # ys) = (if c x y \<noteq> 0 then c x y else lexCompare c xs ys)"

text \<open>
  What a comparison promises on a domain \<open>D\<close>: a result among -1, 0 and 1, that swapping
  the operands negates, and that is transitive. Clients (sorted entry lists, binary search,
  the paged index) use only these laws.
\<close>

locale comparator =
  fixes c :: "'a \<Rightarrow> 'a \<Rightarrow> int" and D :: "'a \<Rightarrow> bool"
  assumes cmp_range: "D x \<Longrightarrow> D y \<Longrightarrow> c x y \<in> {-1, 0, 1}"
    and cmp_anti: "D x \<Longrightarrow> D y \<Longrightarrow> c y x = - c x y"
    and cmp_trans: "D x \<Longrightarrow> D y \<Longrightarrow> D z \<Longrightarrow> c x y \<le> 0 \<Longrightarrow> c y z \<le> 0 \<Longrightarrow> c x z \<le> 0"
begin

lemma cmp_refl: "D x \<Longrightarrow> c x x = 0"
  using cmp_anti [of x x] by simp

lemma cmp_eq_sym: "D x \<Longrightarrow> D y \<Longrightarrow> c x y = 0 \<longleftrightarrow> c y x = 0"
  using cmp_anti [of x y] by simp

lemma cmp_cong_left:
  assumes "D x" "D y" "D z" "c x y = 0"
  shows "c x z = c y z"
proof -
  have yx: "c y x = 0" using cmp_anti [of x y] assms by simp
  have le: "c x z \<le> 0 \<longleftrightarrow> c y z \<le> 0"
    using assms yx cmp_trans [of x y z] cmp_trans [of y x z] by auto
  have ge: "c z x \<le> 0 \<longleftrightarrow> c z y \<le> 0"
    using assms yx cmp_trans [of z x y] cmp_trans [of z y x] by auto
  from le ge show ?thesis
    using cmp_range [of x z] cmp_range [of y z] cmp_anti [of x z] cmp_anti [of y z] assms
    by auto
qed

lemma cmp_cong_right:
  assumes "D x" "D y" "D z" "c x y = 0"
  shows "c z x = c z y"
  using cmp_cong_left [OF assms] cmp_anti [of x z] cmp_anti [of y z] assms by simp

lemma cmp_less_trans:
  assumes "D x" "D y" "D z" "c x y < 0" "c y z \<le> 0"
  shows "c x z < 0"
proof (rule ccontr)
  assume "\<not> c x z < 0"
  moreover have "c x z \<le> 0" using assms cmp_trans [of x y z] by simp
  ultimately have "c x z = 0" by simp
  then have "c x y = c z y" using assms cmp_cong_left [of x z y] by simp
  with assms cmp_anti [of y z] show False by simp
qed

lemma cmp_le_less_trans:
  assumes "D x" "D y" "D z" "c x y \<le> 0" "c y z < 0"
  shows "c x z < 0"
proof (cases "c x y = 0")
  case True
  with assms cmp_cong_left [of x y z] show ?thesis by simp
next
  case False
  with assms cmp_less_trans [of x y z] show ?thesis by simp
qed

lemma lex_range: "list_all D xs \<Longrightarrow> list_all D ys \<Longrightarrow> lexCompare c xs ys \<in> {-1, 0, 1}"
proof (induction xs arbitrary: ys)
  case Nil
  then show ?case by (cases ys) auto
next
  case (Cons x xs)
  then show ?case using cmp_range [of x "hd ys"] by (cases ys) auto
qed

end

text \<open>The lexicographic order of lists over a comparator is a comparator.\<close>

context comparator
begin

lemma lex_anti: "list_all D xs \<Longrightarrow> list_all D ys \<Longrightarrow> lexCompare c ys xs = - lexCompare c xs ys"
proof (induction xs arbitrary: ys)
  case Nil
  then show ?case by (cases ys) auto
next
  case (Cons x xs)
  then show ?case using cmp_anti [of x "hd ys"] by (cases ys) auto
qed

lemma lex_trans:
  "list_all D xs \<Longrightarrow> list_all D ys \<Longrightarrow> list_all D zs \<Longrightarrow>
   lexCompare c xs ys \<le> 0 \<Longrightarrow> lexCompare c ys zs \<le> 0 \<Longrightarrow> lexCompare c xs zs \<le> 0"
proof (induction xs arbitrary: ys zs)
  case Nil
  then show ?case by (cases zs) auto
next
  case (Cons x xs)
  from Cons.prems obtain y ys' where ys: "ys = y # ys'" by (cases ys) auto
  with Cons.prems obtain z zs' where zs: "zs = z # zs'" by (cases zs) auto
  have D: "D x" "D y" "D z" using Cons.prems ys zs by auto
  have xy: "c x y \<le> 0" and yz: "c y z \<le> 0"
    using Cons.prems ys zs by (auto split: if_splits)
  show ?case
  proof (cases "c x y = 0")
    case True
    then have "c x z = c y z" using D cmp_cong_left by blast
    moreover have "lexCompare c xs ys' \<le> 0" using True Cons.prems ys by simp
    moreover have "c y z = 0 \<Longrightarrow> lexCompare c ys' zs' \<le> 0" using Cons.prems ys zs by simp
    ultimately show ?thesis using Cons.IH [of ys' zs'] Cons.prems(1-3) ys zs yz by simp
  next
    case False
    then have "c x z < 0" using D xy yz cmp_less_trans [of x y z] by simp
    with zs show ?thesis by simp
  qed
qed

lemma lex_comparator: "comparator (lexCompare c) (list_all D)"
  by (unfold_locales; (rule lex_range | rule lex_anti | rule lex_trans); assumption)

end

lemma cmpCompare_simps [simp]:
  "cmpCompare x x = 0"
  "cmpCompare x y = 0 \<longleftrightarrow> x = y"
  "cmpCompare x y < 0 \<longleftrightarrow> x < y"
  "cmpCompare x y \<le> 0 \<longleftrightarrow> x \<le> y"
  "0 < cmpCompare x y \<longleftrightarrow> y < x"
  "0 \<le> cmpCompare x y \<longleftrightarrow> y \<le> x"
  by (auto simp: cmpCompare_def)

interpretation ordered: comparator "cmpCompare :: 'a::linorder \<Rightarrow> 'a \<Rightarrow> int" "\<lambda>_. True"
  by unfold_locales (auto simp: cmpCompare_def split: if_splits)

lemma lexCompare_eq_0:
  "(\<And>x y. x \<in> set xs \<Longrightarrow> y \<in> set ys \<Longrightarrow> c x y = 0 \<longleftrightarrow> x = y) \<Longrightarrow>
   lexCompare c xs ys = 0 \<longleftrightarrow> xs = ys"
  by (induction c xs ys rule: lexCompare.induct) auto

section \<open>Binary search\<close>

text \<open>
  Go's \<open>slices.BinarySearchFunc\<close>: the comparison of the probed element with the target
  may panic, which is \<open>None\<close>.
\<close>

function bsearch_loop :: "('e \<Rightarrow> int option) \<Rightarrow> 'e list \<Rightarrow> nat \<Rightarrow> nat \<Rightarrow> nat option" where
  "bsearch_loop f xs i j =
     (if i < j then
        (let h = (i + j) div 2 in
         case f (xs ! h) of
           None \<Rightarrow> None
         | Some r \<Rightarrow> if r < 0 then bsearch_loop f xs (Suc h) j else bsearch_loop f xs i h)
      else Some i)"
  by pat_completeness auto
termination
  by (relation "measure (\<lambda>(f, xs, i, j). j - i)") auto

declare bsearch_loop.simps [simp del]

definition binarySearchFunc :: "('e \<Rightarrow> int option) \<Rightarrow> 'e list \<Rightarrow> (nat \<times> bool) option" where
  "binarySearchFunc f xs = do {
     i \<leftarrow> bsearch_loop f xs 0 (length xs);
     if i < length xs then do { r \<leftarrow> f (xs ! i); Some (i, r = 0) } else Some (i, False)
   }"

text \<open>On a list the comparison partitions, the search finds the partition point.\<close>

lemma bsearch_loop_spec:
  assumes f: "\<And>x. x \<in> set xs \<Longrightarrow> f x = Some (g x)"
    and below: "\<And>k. k < n \<Longrightarrow> g (xs ! k) < 0"
    and above: "\<And>k. n \<le> k \<Longrightarrow> k < length xs \<Longrightarrow> \<not> g (xs ! k) < 0"
  shows "i \<le> n \<Longrightarrow> n \<le> j \<Longrightarrow> j \<le> length xs \<Longrightarrow> bsearch_loop f xs i j = Some n"
proof (induction "j - i" arbitrary: i j rule: less_induct)
  case less
  show ?case
  proof (cases "i < j")
    case False
    with less.prems show ?thesis by (simp add: bsearch_loop.simps [of f xs i j])
  next
    case True
    define h where "h = (i + j) div 2"
    have h: "i \<le> h" "h < j" using True by (auto simp: h_def)
    have fh: "f (xs ! h) = Some (g (xs ! h))" using f h less.prems by simp
    show ?thesis
    proof (cases "g (xs ! h) < 0")
      case True
      then have "h < n" using above [of h] h less.prems by force
      then have "bsearch_loop f xs (Suc h) j = Some n" using h less by simp
      with True fh \<open>i < j\<close> show ?thesis
        by (simp add: bsearch_loop.simps [of f xs i j] h_def [symmetric])
    next
      case False
      then have "n \<le> h" using below [of h] by force
      then have "bsearch_loop f xs i h = Some n" using h less by simp
      with False fh \<open>i < j\<close> show ?thesis
        by (simp add: bsearch_loop.simps [of f xs i j] h_def [symmetric])
    qed
  qed
qed

text \<open>The partition point of a list under a monotone test.\<close>

definition partition_point :: "('e \<Rightarrow> int) \<Rightarrow> 'e list \<Rightarrow> nat" where
  "partition_point g xs = length (takeWhile (\<lambda>x. g x < 0) xs)"

definition partitioned :: "('e \<Rightarrow> int) \<Rightarrow> 'e list \<Rightarrow> bool" where
  "partitioned g xs \<longleftrightarrow> sorted_wrt (\<lambda>x y. g y < 0 \<longrightarrow> g x < 0) xs"

lemma partition_point_le: "partition_point g xs \<le> length xs"
  by (simp add: partition_point_def length_takeWhile_le)

lemma partition_point_below: "k < partition_point g xs \<Longrightarrow> g (xs ! k) < 0"
  unfolding partition_point_def
  by (metis nth_mem set_takeWhileD takeWhile_nth)

lemma partition_point_above:
  assumes "partitioned g xs" "partition_point g xs \<le> k" "k < length xs"
  shows "\<not> g (xs ! k) < 0"
proof
  assume neg: "g (xs ! k) < 0"
  define n where "n = partition_point g xs"
  have n: "n < length xs" "n \<le> k" using assms n_def by auto
  have "\<not> g (xs ! n) < 0"
    using nth_length_takeWhile [of "\<lambda>x. g x < 0" xs] n by (simp add: n_def partition_point_def)
  moreover from this neg have "n \<noteq> k" by auto
  ultimately show False
    using n neg assms sorted_wrt_nth_less [of _ xs n k] unfolding partitioned_def by fastforce
qed

lemma binarySearchFunc_spec:
  assumes f: "\<And>x. x \<in> set xs \<Longrightarrow> f x = Some (g x)" and part: "partitioned g xs"
  shows "binarySearchFunc f xs =
     Some (partition_point g xs,
           partition_point g xs < length xs \<and> g (xs ! partition_point g xs) = 0)"
proof -
  have "bsearch_loop f xs 0 (length xs) = Some (partition_point g xs)"
    using f partition_point_below partition_point_above [OF part] partition_point_le
    by (intro bsearch_loop_spec) auto
  then show ?thesis
    using f by (auto simp: binarySearchFunc_def)
qed

end
