(* ===== verification/Json.thy ===== *)
theory Json
  imports Prelude "HOL-Library.List_Lexorder"
begin

text \<open>
  UTF-8 validation (Go's \<open>unicode/utf8\<close>) and the JSON canonicalisation of
  \<^verbatim>\<open>src/types/json.go\<close>. The token reader of \<open>encoding/json\<close> (\<open>Decoder.Token\<close>,
  \<open>Decoder.More\<close> with \<open>UseNumber\<close>) is a state machine over the unread bytes; the
  canonicaliser walks its tokens, rejects duplicate object keys, sorts the members of every
  object by key and prints without insignificant whitespace.
\<close>

section \<open>UTF-8\<close>

definition cont_byte :: "byte \<Rightarrow> bool" where
  "cont_byte b \<longleftrightarrow> 0x80 \<le> b \<and> b \<le> 0xBF"

fun utf8_valid :: "bytes \<Rightarrow> bool" where
  "utf8_valid [] = True"
| "utf8_valid (a # r) =
     (if a < 0x80 then utf8_valid r
      else if 0xC2 \<le> a \<and> a \<le> 0xDF then
        (case r of b # r' \<Rightarrow> cont_byte b \<and> utf8_valid r' | _ \<Rightarrow> False)
      else if 0xE0 \<le> a \<and> a \<le> 0xEF then
        (case r of
           b # c # r' \<Rightarrow>
             (if a = 0xE0 then 0xA0 \<le> b \<and> b \<le> 0xBF
              else if a = 0xED then 0x80 \<le> b \<and> b \<le> 0x9F
              else cont_byte b) \<and> cont_byte c \<and> utf8_valid r'
         | _ \<Rightarrow> False)
      else if 0xF0 \<le> a \<and> a \<le> 0xF4 then
        (case r of
           b # c # d # r' \<Rightarrow>
             (if a = 0xF0 then 0x90 \<le> b \<and> b \<le> 0xBF
              else if a = 0xF4 then 0x80 \<le> b \<and> b \<le> 0x8F
              else cont_byte b) \<and> cont_byte c \<and> cont_byte d \<and> utf8_valid r'
         | _ \<Rightarrow> False)
      else False)"

text \<open>\<open>utf8.EncodeRune\<close>.\<close>

definition utf8_encode :: "nat \<Rightarrow> bytes" where
  "utf8_encode r =
     (if r < 0x80 then [of_nat r]
      else if r < 0x800 then [of_nat (0xC0 + r div 0x40), of_nat (0x80 + r mod 0x40)]
      else if r < 0x10000 then
        [of_nat (0xE0 + r div 0x1000), of_nat (0x80 + r div 0x40 mod 0x40),
         of_nat (0x80 + r mod 0x40)]
      else
        [of_nat (0xF0 + r div 0x40000), of_nat (0x80 + r div 0x1000 mod 0x40),
         of_nat (0x80 + r div 0x40 mod 0x40), of_nat (0x80 + r mod 0x40)])"

section \<open>Hexadecimal digits\<close>

text \<open>\<open>encoding/hex\<close>: lower-case digits are written, both cases are read.\<close>

definition hex_digit :: "nat \<Rightarrow> byte" where
  "hex_digit n = (if n < 10 then of_nat (0x30 + n) else of_nat (0x57 + n))"

definition hex_value :: "byte \<Rightarrow> nat option" where
  "hex_value b =
     (if 0x30 \<le> b \<and> b \<le> 0x39 then Some (unat b - 0x30)
      else if 0x61 \<le> b \<and> b \<le> 0x66 then Some (unat b - 0x57)
      else if 0x41 \<le> b \<and> b \<le> 0x46 then Some (unat b - 0x37)
      else None)"

section \<open>JSON scanning\<close>

definition is_space :: "byte \<Rightarrow> bool" where
  "is_space b \<longleftrightarrow> b = 0x20 \<or> b = 0x09 \<or> b = 0x0D \<or> b = 0x0A"

definition skip_space :: "bytes \<Rightarrow> bytes" where
  "skip_space r = dropWhile is_space r"

definition is_digit :: "byte \<Rightarrow> bool" where
  "is_digit b \<longleftrightarrow> 0x30 \<le> b \<and> b \<le> 0x39"

text \<open>\<open>getu4\<close>: a four-digit escape \<open>\uXXXX\<close> at the start of the input.\<close>

definition getu4 :: "bytes \<Rightarrow> (nat \<times> bytes) option" where
  "getu4 r =
     (case r of
        s # u # a # b # c # d # r' \<Rightarrow>
          if s = 0x5C \<and> u = 0x75 then do {
            a' \<leftarrow> hex_value a; b' \<leftarrow> hex_value b; c' \<leftarrow> hex_value c; d' \<leftarrow> hex_value d;
            Some (0x1000 * a' + 0x100 * b' + 0x10 * c' + d', r')
          } else None
      | _ \<Rightarrow> None)"

definition unescape :: "byte \<Rightarrow> byte option" where
  "unescape b =
     (if b = 0x22 \<or> b = 0x5C \<or> b = 0x2F then Some b
      else if b = 0x62 then Some 0x08 else if b = 0x66 then Some 0x0C
      else if b = 0x6E then Some 0x0A else if b = 0x72 then Some 0x0D
      else if b = 0x74 then Some 0x09 else None)"

lemma getu4_length: "getu4 r = Some (n, r') \<Longrightarrow> length r = length r' + 6"
  by (auto simp: getu4_def result_simps split: list.splits if_splits)

text \<open>
  The body of a string literal after its opening quote: its decoded bytes and what follows
  the closing quote. An unpaired surrogate escape decodes to U+FFFD.
\<close>

function scan_string :: "bytes \<Rightarrow> (bytes \<times> bytes) option" where
  "scan_string [] = None"
| "scan_string (b # r) =
     (if b = 0x22 then Some ([], r)
      else if b < 0x20 then None
      else if b = 0x5C then
        (case getu4 (b # r) of
           Some (rr, r1) \<Rightarrow>
             if 0xD800 \<le> rr \<and> rr < 0xE000 then
               (case getu4 r1 of
                  Some (rr1, r2) \<Rightarrow>
                    if rr < 0xDC00 \<and> 0xDC00 \<le> rr1 \<and> rr1 < 0xE000 then
                      map_option (apfst ((@) (utf8_encode
                        (0x10000 + (rr - 0xD800) * 0x400 + (rr1 - 0xDC00))))) (scan_string r2)
                    else map_option (apfst ((@) (utf8_encode 0xFFFD))) (scan_string r1)
                | None \<Rightarrow> map_option (apfst ((@) (utf8_encode 0xFFFD))) (scan_string r1))
             else map_option (apfst ((@) (utf8_encode rr))) (scan_string r1)
         | None \<Rightarrow>
             (case r of
                e # r1 \<Rightarrow>
                  (case unescape e of
                     Some x \<Rightarrow> map_option (apfst ((#) x)) (scan_string r1)
                   | None \<Rightarrow> None)
              | [] \<Rightarrow> None))
      else map_option (apfst ((#) b)) (scan_string r))"
  by pat_completeness auto
termination
  by (relation "measure length") (auto dest!: getu4_length)

text \<open>The number grammar of the scanner, longest match; the literal text is kept.\<close>

definition scan_digits :: "bytes \<Rightarrow> (bytes \<times> bytes) option" where
  "scan_digits r =
     (let ds = takeWhile is_digit r in
      if ds = [] then None else Some (ds, dropWhile is_digit r))"

definition scan_int :: "bytes \<Rightarrow> (bytes \<times> bytes) option" where
  "scan_int r =
     (case r of
        b # r' \<Rightarrow> if b = 0x30 then Some ([b], r') else scan_digits r
      | [] \<Rightarrow> None)"

definition scan_frac :: "bytes \<Rightarrow> (bytes \<times> bytes) option" where
  "scan_frac r =
     (case r of
        b # r' \<Rightarrow> if b = 0x2E then map_option (apfst ((#) b)) (scan_digits r') else Some ([], r)
      | [] \<Rightarrow> Some ([], r))"

definition scan_exp :: "bytes \<Rightarrow> (bytes \<times> bytes) option" where
  "scan_exp r =
     (case r of
        b # r' \<Rightarrow>
          if b = 0x65 \<or> b = 0x45 then
            (case r' of
               s # r'' \<Rightarrow>
                 if s = 0x2B \<or> s = 0x2D then map_option (apfst (\<lambda>ds. b # s # ds)) (scan_digits r'')
                 else map_option (apfst ((#) b)) (scan_digits r')
             | [] \<Rightarrow> None)
          else Some ([], r)
      | [] \<Rightarrow> Some ([], r))"

definition scan_number :: "bytes \<Rightarrow> (bytes \<times> bytes) option" where
  "scan_number r =
     (let (sign, r0) = (case r of b # r' \<Rightarrow> if b = 0x2D then ([b], r') else ([], r) | [] \<Rightarrow> ([], r))
      in do {
        (i, r1) \<leftarrow> scan_int r0;
        (f, r2) \<leftarrow> scan_frac r1;
        (e, r3) \<leftarrow> scan_exp r2;
        Some (sign @ i @ f @ e, r3)
      })"

definition scan_prefix :: "bytes \<Rightarrow> bytes \<Rightarrow> bytes option" where
  "scan_prefix p r = (if take (length p) r = p then Some (drop (length p) r) else None)"

lemma scan_string_length: "scan_string r = Some (s, r') \<Longrightarrow> length r' < length r"
proof (induction "length r" arbitrary: r s r' rule: less_induct)
  case less
  from less.prems obtain b q where r: "r = b # q" by (cases r) auto
  have IH: "length r' < length r"
    if "length p < length r" "scan_string p = Some (s', r')" for p s'
    using that less.hyps [of p] by fastforce
  have g: "getu4 p = Some (n, p') \<Longrightarrow> length p' < length p" for p n p'
    by (drule getu4_length) simp
  show ?case
  proof (cases "b = 0x22 \<or> b < 0x20 \<or> b \<noteq> 0x5C")
    case True
    then show ?thesis using less.prems IH [of q] r by (auto split: if_splits)
  next
    case False
    then have b: "b = 0x5C" "\<not> b = 0x22" "\<not> b < 0x20" by auto
    show ?thesis
    proof (cases "getu4 (b # q)")
      case None
      with b less.prems obtain e p s' where "q = e # p" and "scan_string p = Some (s', r')"
        by (auto simp: r split: list.splits option.splits)
      then show ?thesis using IH [of p s'] r by simp
    next
      case (Some y)
      obtain rr r1 where y: "y = (rr, r1)" by (cases y)
      have r1: "length r1 < length r" using Some y g r by blast
      have r2: "length r2 < length r" if "getu4 r1 = Some (n, r2)" for n r2
        using g [OF that] r1 by simp
      have eq: "scan_string r =
        (if 0xD800 \<le> rr \<and> rr < 0xE000 then
               (case getu4 r1 of
                  Some (rr1, r2) \<Rightarrow>
                    if rr < 0xDC00 \<and> 0xDC00 \<le> rr1 \<and> rr1 < 0xE000 then
                      map_option (apfst ((@) (utf8_encode
                        (0x10000 + (rr - 0xD800) * 0x400 + (rr1 - 0xDC00))))) (scan_string r2)
                    else map_option (apfst ((@) (utf8_encode 0xFFFD))) (scan_string r1)
                | None \<Rightarrow> map_option (apfst ((@) (utf8_encode 0xFFFD))) (scan_string r1))
             else map_option (apfst ((@) (utf8_encode rr))) (scan_string r1))"
        using Some y b r by (simp only: scan_string.simps) simp
      have "\<exists>p s'. length p < length r \<and> scan_string p = Some (s', r')"
        using less.prems r1 r2 unfolding eq by (auto split: if_splits option.splits) blast+
      then show ?thesis using IH by blast
    qed
  qed
qed

lemma scan_digits_length: "scan_digits r = Some (ds, r') \<Longrightarrow> length r' < length r"
  by (cases r) (auto simp: scan_digits_def Let_def split: if_splits intro: le_imp_less_Suc length_dropWhile_le)

lemma scan_int_length: "scan_int r = Some (i, r') \<Longrightarrow> length r' < length r"
  by (auto simp: scan_int_def split: list.splits if_splits dest: scan_digits_length)

lemma scan_frac_length: "scan_frac r = Some (f, r') \<Longrightarrow> length r' \<le> length r"
  by (auto simp: scan_frac_def split: list.splits if_splits dest!: scan_digits_length)

lemma scan_exp_length: "scan_exp r = Some (e, r') \<Longrightarrow> length r' \<le> length r"
  by (auto simp: scan_exp_def split: list.splits if_splits dest!: scan_digits_length)

lemma scan_number_length:
  assumes "scan_number r = Some (n, r')"
  shows "length r' < length r"
proof -
  obtain sign r0 where r0: "(case r of b # r' \<Rightarrow> if b = 0x2D then ([b], r') else ([], r) | [] \<Rightarrow> ([], r)) = (sign, r0)"
    by (cases "case r of b # r' \<Rightarrow> if b = 0x2D then ([b], r') else ([], r) | [] \<Rightarrow> ([], r)")
  then have "length r0 \<le> length r" by (auto split: list.splits if_splits)
  moreover from assms r0 obtain i r1 f r2 e where
    "scan_int r0 = Some (i, r1)" "scan_frac r1 = Some (f, r2)" "scan_exp r2 = Some (e, r')"
    by (auto simp: scan_number_def result_simps)
  ultimately show ?thesis
    using scan_int_length scan_frac_length scan_exp_length by fastforce
qed

section \<open>The token reader\<close>

datatype json_error = JEOF | JSyntax | JFuel

datatype token_state =
    TokenTopValue | TokenArrayStart | TokenArrayValue | TokenArrayComma
  | TokenObjectStart | TokenObjectKey | TokenObjectColon | TokenObjectValue | TokenObjectComma

datatype json_token = TDelim byte | TString bytes | TNumber bytes | TBool bool | TNull

record decoder =
  d_buf :: bytes
  d_state :: token_state
  d_stack :: "token_state list"

definition tokenValueAllowed :: "token_state \<Rightarrow> bool" where
  "tokenValueAllowed s \<longleftrightarrow>
     s = TokenTopValue \<or> s = TokenArrayStart \<or> s = TokenArrayValue \<or> s = TokenObjectValue"

definition tokenValueEnd :: "token_state \<Rightarrow> token_state" where
  "tokenValueEnd s =
     (case s of TokenArrayStart \<Rightarrow> TokenArrayComma | TokenArrayValue \<Rightarrow> TokenArrayComma
      | TokenObjectValue \<Rightarrow> TokenObjectComma | _ \<Rightarrow> s)"

text \<open>\<open>Decoder.Decode\<close> of one scalar at the head of the input.\<close>

definition decode_scalar :: "bytes \<Rightarrow> (json_token \<times> bytes) option" where
  "decode_scalar r =
     (case r of
        [] \<Rightarrow> None
      | b # r' \<Rightarrow>
          if b = 0x22 then map_option (apfst TString) (scan_string r')
          else if b = 0x2D \<or> is_digit b then map_option (apfst TNumber) (scan_number r)
          else if b = 0x74 then map_option (Pair (TBool True)) (scan_prefix [0x74, 0x72, 0x75, 0x65] r)
          else if b = 0x66 then
            map_option (Pair (TBool False)) (scan_prefix [0x66, 0x61, 0x6C, 0x73, 0x65] r)
          else if b = 0x6E then map_option (Pair TNull) (scan_prefix [0x6E, 0x75, 0x6C, 0x6C] r)
          else None)"

text \<open>\<open>Decoder.Token\<close>, one turn of its loop per call; a comma or colon continues.\<close>

function read_token :: "decoder \<Rightarrow> json_error + (json_token \<times> decoder)" where
  "read_token d =
     (case skip_space (d_buf d) of
        [] \<Rightarrow> Inl JEOF
      | b # r \<Rightarrow>
          if b = 0x5B \<or> b = 0x7B then
            (if tokenValueAllowed (d_state d) then
               Inr (TDelim b, d\<lparr>d_buf := r, d_stack := d_state d # d_stack d,
                 d_state := (if b = 0x5B then TokenArrayStart else TokenObjectStart)\<rparr>)
             else Inl JSyntax)
          else if b = 0x5D then
            (if d_state d = TokenArrayStart \<or> d_state d = TokenArrayComma then
               (case d_stack d of
                  s # st \<Rightarrow> Inr (TDelim b, d\<lparr>d_buf := r, d_stack := st, d_state := tokenValueEnd s\<rparr>)
                | [] \<Rightarrow> Inl JSyntax)
             else Inl JSyntax)
          else if b = 0x7D then
            (if d_state d = TokenObjectStart \<or> d_state d = TokenObjectComma then
               (case d_stack d of
                  s # st \<Rightarrow> Inr (TDelim b, d\<lparr>d_buf := r, d_stack := st, d_state := tokenValueEnd s\<rparr>)
                | [] \<Rightarrow> Inl JSyntax)
             else Inl JSyntax)
          else if b = 0x3A then
            (if d_state d = TokenObjectColon
             then read_token (d\<lparr>d_buf := r, d_state := TokenObjectValue\<rparr>) else Inl JSyntax)
          else if b = 0x2C then
            (if d_state d = TokenArrayComma
             then read_token (d\<lparr>d_buf := r, d_state := TokenArrayValue\<rparr>)
             else if d_state d = TokenObjectComma
             then read_token (d\<lparr>d_buf := r, d_state := TokenObjectKey\<rparr>)
             else Inl JSyntax)
          else if b = 0x22 \<and> (d_state d = TokenObjectStart \<or> d_state d = TokenObjectKey) then
            (case scan_string r of
               Some (k, r') \<Rightarrow> Inr (TString k, d\<lparr>d_buf := r', d_state := TokenObjectColon\<rparr>)
             | None \<Rightarrow> Inl JSyntax)
          else if tokenValueAllowed (d_state d) then
            (case decode_scalar (b # r) of
               Some (t, r') \<Rightarrow> Inr (t, d\<lparr>d_buf := r', d_state := tokenValueEnd (d_state d)\<rparr>)
             | None \<Rightarrow> Inl JSyntax)
          else Inl JSyntax)"
  by pat_completeness auto

lemma skip_space_length: "length (skip_space r) \<le> length r"
  by (simp add: skip_space_def length_dropWhile_le)

lemma skip_space_Cons_length: "skip_space r = b # r' \<Longrightarrow> length r' < length r"
  using skip_space_length [of r] by simp

termination read_token
  by (relation "measure (\<lambda>d. length (d_buf d))") (auto dest: skip_space_Cons_length)

declare read_token.simps [simp del]

definition more :: "decoder \<Rightarrow> bool" where
  "more d = (case skip_space (d_buf d) of [] \<Rightarrow> False | b # _ \<Rightarrow> b \<noteq> 0x5D \<and> b \<noteq> 0x7D)"

section \<open>Canonical text\<close>

text \<open>
  \<open>json.Marshal\<close> of a string (\<open>appendCanonicalJSONString\<close>): quotes, backslashes, control
  characters, the HTML characters and the line separators U+2028 and U+2029 (whose encoding is
  the only one with these three bytes in valid UTF-8) are escaped.
\<close>

definition escape_byte :: "byte \<Rightarrow> bytes" where
  "escape_byte b =
     (if b = 0x22 \<or> b = 0x5C then [0x5C, b]
      else if b = 0x08 then [0x5C, 0x62] else if b = 0x0C then [0x5C, 0x66]
      else if b = 0x0A then [0x5C, 0x6E] else if b = 0x0D then [0x5C, 0x72]
      else if b = 0x09 then [0x5C, 0x74]
      else if b < 0x20 \<or> b = 0x3C \<or> b = 0x3E \<or> b = 0x26 then
        [0x5C, 0x75, 0x30, 0x30, hex_digit (unat b div 16), hex_digit (unat b mod 16)]
      else [b])"

function json_escape :: "bytes \<Rightarrow> bytes" where
  "json_escape [] = []"
| "json_escape (a # r) =
     (if a = 0xE2 \<and> take 2 r = [0x80, 0xA8] then
        [0x5C, 0x75, 0x32, 0x30, 0x32, 0x38] @ json_escape (drop 2 r)
      else if a = 0xE2 \<and> take 2 r = [0x80, 0xA9] then
        [0x5C, 0x75, 0x32, 0x30, 0x32, 0x39] @ json_escape (drop 2 r)
      else escape_byte a @ json_escape r)"
  by pat_completeness auto
termination
  by (relation "measure length") auto

definition appendCanonicalJSONString :: "bytes \<Rightarrow> bytes" where
  "appendCanonicalJSONString s = 0x22 # json_escape s @ [0x22]"

text \<open>The members of an object in key order, and the elements of an array, with separators.\<close>

fun json_join :: "bytes list \<Rightarrow> bytes" where
  "json_join [] = []"
| "json_join [x] = x"
| "json_join (x # xs) = x @ 0x2C # json_join xs"

definition json_object_text :: "(bytes \<times> bytes) list \<Rightarrow> bytes" where
  "json_object_text ms =
     0x7B # json_join (map (\<lambda>(k, v). appendCanonicalJSONString k @ 0x3A # v) (sort_key fst ms))
       @ [0x7D]"

text \<open>
  The recursive walk. The first argument is fuel; every call consumes a token first, so fuel
  above the number of unread bytes never runs out (lemma \<open>canonical_walk\<close>).
\<close>

fun appendCanonicalJSONValue :: "nat \<Rightarrow> decoder \<Rightarrow> json_error + (bytes \<times> decoder)"
and appendCanonicalJSONObject ::
  "nat \<Rightarrow> (bytes \<times> bytes) list \<Rightarrow> decoder \<Rightarrow> json_error + (bytes \<times> decoder)"
and appendCanonicalJSONArray ::
  "nat \<Rightarrow> bytes list \<Rightarrow> decoder \<Rightarrow> json_error + (bytes \<times> decoder)"
where
  "appendCanonicalJSONValue 0 d = Inl JFuel"
| "appendCanonicalJSONValue (Suc n) d =
     bindE (read_token d) (\<lambda>(t, d1).
       case t of
         TDelim b \<Rightarrow>
           if b = 0x7B then appendCanonicalJSONObject n [] d1
           else if b = 0x5B then appendCanonicalJSONArray n [] d1
           else Inl JSyntax
       | TString s \<Rightarrow> Inr (appendCanonicalJSONString s, d1)
       | TNumber s \<Rightarrow> Inr (s, d1)
       | TBool x \<Rightarrow>
           Inr (if x then [0x74, 0x72, 0x75, 0x65] else [0x66, 0x61, 0x6C, 0x73, 0x65], d1)
       | TNull \<Rightarrow> Inr ([0x6E, 0x75, 0x6C, 0x6C], d1))"
| "appendCanonicalJSONObject 0 ms d = Inl JFuel"
| "appendCanonicalJSONObject (Suc n) ms d =
     (if more d then
        bindE (read_token d) (\<lambda>(t, d1).
          case t of
            TString k \<Rightarrow>
              if k \<in> fst ` set ms then Inl JSyntax
              else bindE (appendCanonicalJSONValue n d1)
                (\<lambda>(v, d2). appendCanonicalJSONObject n (ms @ [(k, v)]) d2)
          | _ \<Rightarrow> Inl JSyntax)
      else
        bindE (read_token d) (\<lambda>(t, d1).
          if t = TDelim 0x7D then Inr (json_object_text ms, d1) else Inl JSyntax))"
| "appendCanonicalJSONArray 0 xs d = Inl JFuel"
| "appendCanonicalJSONArray (Suc n) xs d =
     (if more d then
        bindE (appendCanonicalJSONValue n d)
          (\<lambda>(v, d2). appendCanonicalJSONArray n (xs @ [v]) d2)
      else
        bindE (read_token d) (\<lambda>(t, d1).
          if t = TDelim 0x5D then Inr (0x5B # json_join xs @ [0x5D], d1) else Inl JSyntax))"

definition canonicalizeJSON :: "bytes \<Rightarrow> json_error + bytes" where
  "canonicalizeJSON x =
     (if \<not> utf8_valid x then Inl JSyntax
      else bindE (appendCanonicalJSONValue (2 * length x + 2)
                    \<lparr>d_buf = x, d_state = TokenTopValue, d_stack = []\<rparr>) (\<lambda>(out, d).
        case read_token d of
          Inl JEOF \<Rightarrow> Inr out
        | Inl e \<Rightarrow> Inl e
        | Inr _ \<Rightarrow> Inl JSyntax))"

section \<open>The walk never runs out of fuel\<close>

lemma scan_prefix_length: "scan_prefix p r = Some r' \<Longrightarrow> p \<noteq> [] \<Longrightarrow> length r' < length r"
  by (cases r) (auto simp: scan_prefix_def split: if_splits)

lemma decode_scalar_length: "decode_scalar r = Some (t, r') \<Longrightarrow> length r' < length r"
  by (cases r) (auto simp: decode_scalar_def split: if_splits
      dest!: scan_string_length scan_number_length scan_prefix_length)

definition walk_ok :: "nat \<Rightarrow> json_error + ('a \<times> decoder) \<Rightarrow> bool" where
  "walk_ok k m \<longleftrightarrow> m \<noteq> Inl JFuel \<and> (\<forall>x d'. m = Inr (x, d') \<longrightarrow> length (d_buf d') < k)"

lemma walk_ok_simps [simp]:
  "walk_ok k (Inr (x, d)) \<longleftrightarrow> length (d_buf d) < k"
  "walk_ok k (Inl JSyntax)"
  "walk_ok k (Inl JEOF)"
  by (auto simp: walk_ok_def)

lemma walk_ok_mono: "walk_ok j m \<Longrightarrow> j \<le> k \<Longrightarrow> walk_ok k m"
  by (fastforce simp: walk_ok_def)

lemma walk_ok_if:
  "(P \<Longrightarrow> walk_ok k A) \<Longrightarrow> (\<not> P \<Longrightarrow> walk_ok k B) \<Longrightarrow> walk_ok k (if P then A else B)"
  by simp

lemma walk_ok_token: "walk_ok (length (d_buf d)) (read_token d)"
proof (induction "length (d_buf d)" arbitrary: d rule: less_induct)
  case less
  show ?case
  proof (cases "skip_space (d_buf d)")
    case Nil
    then show ?thesis by (simp add: read_token.simps [of d])
  next
    case (Cons b r)
    have r: "length r < length (d_buf d)" using skip_space_Cons_length [OF Cons] .
    have IH: "walk_ok (length (d_buf d)) (read_token (d\<lparr>d_buf := r, d_state := s\<rparr>))" for s
      by (rule walk_ok_mono [OF less.hyps]) (use r in simp_all)
    have key: "walk_ok (length (d_buf d)) (case scan_string r of
        Some (k, r') \<Rightarrow> Inr (TString k, d\<lparr>d_buf := r', d_state := TokenObjectColon\<rparr>)
      | None \<Rightarrow> Inl JSyntax)"
      using r by (auto split: option.split dest: scan_string_length)
    have val: "walk_ok (length (d_buf d)) (case decode_scalar (b # r) of
        Some (t, r') \<Rightarrow> Inr (t, d\<lparr>d_buf := r', d_state := tokenValueEnd (d_state d)\<rparr>)
      | None \<Rightarrow> Inl JSyntax)"
      using r by (auto split: option.split dest: decode_scalar_length)
    have pop: "walk_ok (length (d_buf d)) (case d_stack d of
        s # st \<Rightarrow> Inr (TDelim b, d\<lparr>d_buf := r, d_stack := st, d_state := tokenValueEnd s\<rparr>)
      | [] \<Rightarrow> Inl JSyntax)"
      using r by (simp split: list.split)
    show ?thesis
      unfolding read_token.simps [of d] Cons list.case
      by (intro walk_ok_if IH key val pop) (use r in simp_all)
  qed
qed

lemma read_token_no_fuel: "read_token d \<noteq> Inl JFuel"
  using walk_ok_token [of d] by (simp add: walk_ok_def)

lemma walk_ok_bind:
  assumes "walk_ok j m" and "\<And>x d'. length (d_buf d') < j \<Longrightarrow> walk_ok k (f (x, d'))"
  shows "walk_ok k (bindE m f)"
  using assms by (cases m) (auto simp: walk_ok_def)

lemma canonical_walk:
  "2 * length (d_buf d) + 1 \<le> n \<Longrightarrow> walk_ok (length (d_buf d)) (appendCanonicalJSONValue n d)"
  "2 * length (d_buf d) + 2 \<le> n \<Longrightarrow> walk_ok (length (d_buf d)) (appendCanonicalJSONObject n ms d)"
  "2 * length (d_buf d) + 2 \<le> n \<Longrightarrow> walk_ok (length (d_buf d)) (appendCanonicalJSONArray n xs d)"
proof (induction n arbitrary: d ms xs)
  case (Suc n)
  have val: "walk_ok k (appendCanonicalJSONValue n d')"
    if "2 * length (d_buf d') + 1 \<le> n" "length (d_buf d') \<le> k" for d' k
    using that Suc.IH(1) walk_ok_mono by blast
  have obj: "walk_ok k (appendCanonicalJSONObject n ms' d')"
    if "2 * length (d_buf d') + 2 \<le> n" "length (d_buf d') \<le> k" for d' ms' k
    using that Suc.IH(2) walk_ok_mono by blast
  have arr: "walk_ok k (appendCanonicalJSONArray n xs' d')"
    if "2 * length (d_buf d') + 2 \<le> n" "length (d_buf d') \<le> k" for d' xs' k
    using that Suc.IH(3) walk_ok_mono by blast
  {
    case 1
    then show ?case
      by (auto intro!: walk_ok_bind [OF walk_ok_token] obj arr split: json_token.split)
  next
    case 2
    have "walk_ok (length (d_buf d)) (bindE (appendCanonicalJSONValue n d1)
            (\<lambda>(v, d2). appendCanonicalJSONObject n (ms @ [(k, v)]) d2))"
      if "length (d_buf d1) < length (d_buf d)" for d1 k
      using that 2 by (auto intro!: walk_ok_bind [OF val [of d1 "length (d_buf d1)"]] obj)
    with 2 show ?case
      by (auto intro!: walk_ok_bind [OF walk_ok_token] split: json_token.split)
  next
    case 3
    then show ?case
      by (auto intro!: walk_ok_bind [OF walk_ok_token] arr
          walk_ok_bind [OF val [of d "length (d_buf d)"]])
  }
qed auto

text \<open>Canonicalisation always returns text or a syntax error, never a fuel failure.\<close>

lemma canonicalizeJSON_no_fuel: "canonicalizeJSON x \<noteq> Inl JFuel"
proof -
  let ?d = "\<lparr>d_buf = x, d_state = TokenTopValue, d_stack = []\<rparr>"
  have "walk_ok (length (d_buf ?d)) (appendCanonicalJSONValue (2 * length x + 2) ?d)"
    by (rule canonical_walk) simp
  then show ?thesis
    using read_token_no_fuel
    by (auto simp: canonicalizeJSON_def walk_ok_def bindE_eq_Inl split: sum.splits json_error.splits)
qed

section \<open>Property\<close>


end
