(* ===== verification/Value.thy ===== *)
theory Value
  imports Json
begin

text \<open>
  Column values: \<^verbatim>\<open>src/types/value.go\<close> and \<^verbatim>\<open>src/types/product_value.go\<close>. A value is
  the Go struct with all its slots; \<open>wf_value\<close> says that a value is one a constructor
  builds. Signed integers are stored as the 64-bit word Go stores; floats are their IEEE bit
  patterns, with Go's \<open>==\<close>, \<open>math.IsNaN\<close> and \<open>cmp.Compare\<close> on them written out.
  An accessor that panics returns \<open>None\<close>.
\<close>

section \<open>Kinds and the value struct\<close>

datatype value_kind =
    KindBool | KindInt8 | KindUint8 | KindInt16 | KindUint16 | KindInt32 | KindUint32
  | KindInt64 | KindUint64 | KindFloat32 | KindFloat64 | KindString | KindBytes
  | KindInt128 | KindUint128 | KindInt256 | KindUint256 | KindTimestamp | KindArrayString
  | KindUUID | KindDuration | KindJSON

text \<open>The numeric value of a kind (Go's iota), as the byte \<open>byte(k)\<close>.\<close>

primrec kindByte :: "value_kind \<Rightarrow> byte" where
  "kindByte KindBool = 0" | "kindByte KindInt8 = 1" | "kindByte KindUint8 = 2"
| "kindByte KindInt16 = 3" | "kindByte KindUint16 = 4" | "kindByte KindInt32 = 5"
| "kindByte KindUint32 = 6" | "kindByte KindInt64 = 7" | "kindByte KindUint64 = 8"
| "kindByte KindFloat32 = 9" | "kindByte KindFloat64 = 10" | "kindByte KindString = 11"
| "kindByte KindBytes = 12" | "kindByte KindInt128 = 13" | "kindByte KindUint128 = 14"
| "kindByte KindInt256 = 15" | "kindByte KindUint256 = 16" | "kindByte KindTimestamp = 17"
| "kindByte KindArrayString = 18" | "kindByte KindUUID = 19" | "kindByte KindDuration = 20"
| "kindByte KindJSON = 21"

record go_value =
  v_kind :: value_kind
  v_isNull :: bool
  v_b :: bool
  v_i64 :: u64
  v_u64 :: u64
  v_f32 :: u32
  v_f64 :: u64
  v_str :: bytes
  v_buf :: bytes
  v_hi128 :: u64
  v_lo128 :: u64
  v_w256 :: "u64 \<times> u64 \<times> u64 \<times> u64"
  v_strArr :: "bytes list"
  v_uuid :: bytes

type_synonym productValue = "go_value list"

datatype value_error =
  ErrInvalidFloat | ErrInvalidUTF8 | ErrInvalidUUID | ErrInvalidJSON | ErrDurationOutOfRange

text \<open>The struct literal \<open>Value{kind: k}\<close>: every other slot is the zero value.\<close>

definition zeroValue :: "value_kind \<Rightarrow> go_value" where
  "zeroValue k = \<lparr>v_kind = k, v_isNull = False, v_b = False, v_i64 = 0, v_u64 = 0, v_f32 = 0,
     v_f64 = 0, v_str = [], v_buf = [], v_hi128 = 0, v_lo128 = 0, v_w256 = (0, 0, 0, 0),
     v_strArr = [], v_uuid = replicate 16 0\<rparr>"

section \<open>IEEE bit patterns\<close>

definition f32_isNaN :: "u32 \<Rightarrow> bool" where
  "f32_isNaN w \<longleftrightarrow> take_bit 31 w > 0x7F800000"

definition f64_isNaN :: "u64 \<Rightarrow> bool" where
  "f64_isNaN w \<longleftrightarrow> take_bit 63 w > 0x7FF0000000000000"

text \<open>The position of a non-NaN pattern in the numeric order; both zeros are 0.\<close>

definition f32_key :: "u32 \<Rightarrow> int" where
  "f32_key w = (if bit w 31 then - uint (take_bit 31 w) else uint (take_bit 31 w))"

definition f64_key :: "u64 \<Rightarrow> int" where
  "f64_key w = (if bit w 63 then - uint (take_bit 63 w) else uint (take_bit 63 w))"

definition f32_eq :: "u32 \<Rightarrow> u32 \<Rightarrow> bool" where
  "f32_eq x y \<longleftrightarrow> \<not> f32_isNaN x \<and> \<not> f32_isNaN y \<and> f32_key x = f32_key y"

definition f64_eq :: "u64 \<Rightarrow> u64 \<Rightarrow> bool" where
  "f64_eq x y \<longleftrightarrow> \<not> f64_isNaN x \<and> \<not> f64_isNaN y \<and> f64_key x = f64_key y"

definition f32_compare :: "u32 \<Rightarrow> u32 \<Rightarrow> int" where
  "f32_compare x y =
     (if f32_isNaN x then (if f32_isNaN y then 0 else -1)
      else if f32_isNaN y then 1 else cmpCompare (f32_key x) (f32_key y))"

definition f64_compare :: "u64 \<Rightarrow> u64 \<Rightarrow> int" where
  "f64_compare x y =
     (if f64_isNaN x then (if f64_isNaN y then 0 else -1)
      else if f64_isNaN y then 1 else cmpCompare (f64_key x) (f64_key y))"

section \<open>Constructors\<close>

definition NewNull :: "value_kind \<Rightarrow> go_value" where
  "NewNull k = (zeroValue k)\<lparr>v_isNull := True\<rparr>"

definition NewBool :: "bool \<Rightarrow> go_value" where
  "NewBool x = (zeroValue KindBool)\<lparr>v_b := x\<rparr>"

definition NewInt8 :: "byte \<Rightarrow> go_value" where
  "NewInt8 x = (zeroValue KindInt8)\<lparr>v_i64 := scast x\<rparr>"

definition NewUint8 :: "byte \<Rightarrow> go_value" where
  "NewUint8 x = (zeroValue KindUint8)\<lparr>v_u64 := ucast x\<rparr>"

definition NewInt16 :: "u16 \<Rightarrow> go_value" where
  "NewInt16 x = (zeroValue KindInt16)\<lparr>v_i64 := scast x\<rparr>"

definition NewUint16 :: "u16 \<Rightarrow> go_value" where
  "NewUint16 x = (zeroValue KindUint16)\<lparr>v_u64 := ucast x\<rparr>"

definition NewInt32 :: "u32 \<Rightarrow> go_value" where
  "NewInt32 x = (zeroValue KindInt32)\<lparr>v_i64 := scast x\<rparr>"

definition NewUint32 :: "u32 \<Rightarrow> go_value" where
  "NewUint32 x = (zeroValue KindUint32)\<lparr>v_u64 := ucast x\<rparr>"

definition NewInt64 :: "u64 \<Rightarrow> go_value" where
  "NewInt64 x = (zeroValue KindInt64)\<lparr>v_i64 := x\<rparr>"

definition NewUint64 :: "u64 \<Rightarrow> go_value" where
  "NewUint64 x = (zeroValue KindUint64)\<lparr>v_u64 := x\<rparr>"

definition NewFloat32 :: "u32 \<Rightarrow> value_error + go_value" where
  "NewFloat32 x =
     (if f32_isNaN x then Inl ErrInvalidFloat else Inr ((zeroValue KindFloat32)\<lparr>v_f32 := x\<rparr>))"

definition NewFloat64 :: "u64 \<Rightarrow> value_error + go_value" where
  "NewFloat64 x =
     (if f64_isNaN x then Inl ErrInvalidFloat else Inr ((zeroValue KindFloat64)\<lparr>v_f64 := x\<rparr>))"

definition NewString :: "bytes \<Rightarrow> go_value" where
  "NewString x = (zeroValue KindString)\<lparr>v_str := x\<rparr>"

definition ValidateUTF8String :: "bytes \<Rightarrow> value_error + unit" where
  "ValidateUTF8String s = (if \<not> utf8_valid s then Inl ErrInvalidUTF8 else Inr ())"

fun ValidateUTF8StringArray :: "bytes list \<Rightarrow> value_error + unit" where
  "ValidateUTF8StringArray [] = Inr ()"
| "ValidateUTF8StringArray (s # xs) =
     bindE (ValidateUTF8String s) (\<lambda>_. ValidateUTF8StringArray xs)"

definition NewBytes :: "bytes \<Rightarrow> go_value" where
  "NewBytes x = (zeroValue KindBytes)\<lparr>v_buf := x\<rparr>"

definition NewInt128 :: "u64 \<Rightarrow> u64 \<Rightarrow> go_value" where
  "NewInt128 hi lo = (zeroValue KindInt128)\<lparr>v_hi128 := hi, v_lo128 := lo\<rparr>"

definition NewInt128FromInt64 :: "u64 \<Rightarrow> go_value" where
  "NewInt128FromInt64 x =
     (zeroValue KindInt128)\<lparr>v_hi128 := (if sint x < 0 then NOT 0 else 0), v_lo128 := x\<rparr>"

definition NewUint128 :: "u64 \<Rightarrow> u64 \<Rightarrow> go_value" where
  "NewUint128 hi lo = (zeroValue KindUint128)\<lparr>v_hi128 := hi, v_lo128 := lo\<rparr>"

definition NewUint128FromUint64 :: "u64 \<Rightarrow> go_value" where
  "NewUint128FromUint64 x = (zeroValue KindUint128)\<lparr>v_hi128 := 0, v_lo128 := x\<rparr>"

definition NewInt256 :: "u64 \<Rightarrow> u64 \<Rightarrow> u64 \<Rightarrow> u64 \<Rightarrow> go_value" where
  "NewInt256 w0 w1 w2 w3 = (zeroValue KindInt256)\<lparr>v_w256 := (w0, w1, w2, w3)\<rparr>"

definition NewInt256FromInt64 :: "u64 \<Rightarrow> go_value" where
  "NewInt256FromInt64 x =
     (let ext = (if sint x < 0 then NOT 0 else 0)
      in (zeroValue KindInt256)\<lparr>v_w256 := (ext, ext, ext, x)\<rparr>)"

definition NewUint256 :: "u64 \<Rightarrow> u64 \<Rightarrow> u64 \<Rightarrow> u64 \<Rightarrow> go_value" where
  "NewUint256 w0 w1 w2 w3 = (zeroValue KindUint256)\<lparr>v_w256 := (w0, w1, w2, w3)\<rparr>"

definition NewUint256FromUint64 :: "u64 \<Rightarrow> go_value" where
  "NewUint256FromUint64 x = (zeroValue KindUint256)\<lparr>v_w256 := (0, 0, 0, x)\<rparr>"

definition NewTimestamp :: "u64 \<Rightarrow> go_value" where
  "NewTimestamp micros = (zeroValue KindTimestamp)\<lparr>v_i64 := micros\<rparr>"

definition NewDuration :: "u64 \<Rightarrow> go_value" where
  "NewDuration micros = (zeroValue KindDuration)\<lparr>v_i64 := micros\<rparr>"

definition NewArrayString :: "bytes list \<Rightarrow> go_value" where
  "NewArrayString xs = (zeroValue KindArrayString)\<lparr>v_strArr := xs\<rparr>"

text \<open>The argument is Go's \<open>[16]byte\<close>; \<open>wf_value\<close> records its length.\<close>

definition NewUUID :: "bytes \<Rightarrow> go_value" where
  "NewUUID x = (zeroValue KindUUID)\<lparr>v_uuid := x\<rparr>"

definition NewJSON :: "bytes \<Rightarrow> value_error + go_value" where
  "NewJSON x =
     (case canonicalizeJSON x of
        Inl _ \<Rightarrow> Inl ErrInvalidJSON
      | Inr canonical \<Rightarrow> Inr ((zeroValue KindJSON)\<lparr>v_buf := canonical\<rparr>))"

lemmas constructor_defs =
  zeroValue_def NewNull_def NewBool_def NewInt8_def NewUint8_def NewInt16_def NewUint16_def
  NewInt32_def NewUint32_def NewInt64_def NewUint64_def NewString_def NewBytes_def
  NewInt128_def NewUint128_def NewInt256_def NewUint256_def NewTimestamp_def NewDuration_def
  NewArrayString_def NewUUID_def

section \<open>UUID text\<close>

fun hexEncode :: "bytes \<Rightarrow> bytes" where
  "hexEncode [] = []"
| "hexEncode (b # r) = hex_digit (unat b div 16) # hex_digit (unat b mod 16) # hexEncode r"

fun hexDecode :: "bytes \<Rightarrow> bytes option" where
  "hexDecode [] = Some []"
| "hexDecode [a] = None"
| "hexDecode (a # b # r) = do {
     x \<leftarrow> hex_value a; y \<leftarrow> hex_value b; rest \<leftarrow> hexDecode r;
     Some (of_nat (16 * x + y) # rest)
   }"

definition ParseUUID :: "bytes \<Rightarrow> value_error + go_value" where
  "ParseUUID s =
     (if length s \<noteq> 36 then Inl ErrInvalidUUID
      else if s ! 8 \<noteq> 0x2D \<or> s ! 13 \<noteq> 0x2D \<or> s ! 18 \<noteq> 0x2D \<or> s ! 23 \<noteq> 0x2D
      then Inl ErrInvalidUUID
      else
        (let compact = map ((!) s) (filter (\<lambda>i. i \<notin> {8, 13, 18, 23}) [0..<36])
         in if list_ex (\<lambda>c. 0x41 \<le> c \<and> c \<le> 0x46) compact then Inl ErrInvalidUUID
            else (case hexDecode compact of
                    None \<Rightarrow> Inl ErrInvalidUUID
                  | Some out \<Rightarrow> Inr (NewUUID out))))"

section \<open>Accessors\<close>

text \<open>\<open>mustKind\<close> panics on a value of another kind and on a null.\<close>

definition mustKind :: "go_value \<Rightarrow> value_kind \<Rightarrow> unit option" where
  "mustKind v want = (if v_kind v \<noteq> want then None else if v_isNull v then None else Some ())"

definition AsBool :: "go_value \<Rightarrow> bool option" where
  "AsBool v = do { mustKind v KindBool; Some (v_b v) }"

definition AsInt8 :: "go_value \<Rightarrow> byte option" where
  "AsInt8 v = do { mustKind v KindInt8; Some (ucast (v_i64 v)) }"

definition AsUint8 :: "go_value \<Rightarrow> byte option" where
  "AsUint8 v = do { mustKind v KindUint8; Some (ucast (v_u64 v)) }"

definition AsInt16 :: "go_value \<Rightarrow> u16 option" where
  "AsInt16 v = do { mustKind v KindInt16; Some (ucast (v_i64 v)) }"

definition AsUint16 :: "go_value \<Rightarrow> u16 option" where
  "AsUint16 v = do { mustKind v KindUint16; Some (ucast (v_u64 v)) }"

definition AsInt32 :: "go_value \<Rightarrow> u32 option" where
  "AsInt32 v = do { mustKind v KindInt32; Some (ucast (v_i64 v)) }"

definition AsUint32 :: "go_value \<Rightarrow> u32 option" where
  "AsUint32 v = do { mustKind v KindUint32; Some (ucast (v_u64 v)) }"

definition AsInt64 :: "go_value \<Rightarrow> u64 option" where
  "AsInt64 v = do { mustKind v KindInt64; Some (v_i64 v) }"

definition AsUint64 :: "go_value \<Rightarrow> u64 option" where
  "AsUint64 v = do { mustKind v KindUint64; Some (v_u64 v) }"

definition AsFloat32 :: "go_value \<Rightarrow> u32 option" where
  "AsFloat32 v = do { mustKind v KindFloat32; Some (v_f32 v) }"

definition AsFloat64 :: "go_value \<Rightarrow> u64 option" where
  "AsFloat64 v = do { mustKind v KindFloat64; Some (v_f64 v) }"

definition AsString :: "go_value \<Rightarrow> bytes option" where
  "AsString v = do { mustKind v KindString; Some (v_str v) }"

definition BytesView :: "go_value \<Rightarrow> bytes option" where
  "BytesView v = do { mustKind v KindBytes; Some (v_buf v) }"

definition AsUUID :: "go_value \<Rightarrow> bytes option" where
  "AsUUID v = do { mustKind v KindUUID; Some (v_uuid v) }"

definition UUIDString :: "go_value \<Rightarrow> bytes option" where
  "UUIDString v = do {
     u \<leftarrow> AsUUID v;
     Some (hexEncode (take 4 u) @ [0x2D] @ hexEncode (take 2 (drop 4 u)) @ [0x2D] @
           hexEncode (take 2 (drop 6 u)) @ [0x2D] @ hexEncode (take 2 (drop 8 u)) @ [0x2D] @
           hexEncode (take 6 (drop 10 u)))
   }"

definition AsInt128 :: "go_value \<Rightarrow> (u64 \<times> u64) option" where
  "AsInt128 v = do { mustKind v KindInt128; Some (v_hi128 v, v_lo128 v) }"

definition AsUint128 :: "go_value \<Rightarrow> (u64 \<times> u64) option" where
  "AsUint128 v = do { mustKind v KindUint128; Some (v_hi128 v, v_lo128 v) }"

definition AsInt256 :: "go_value \<Rightarrow> (u64 \<times> u64 \<times> u64 \<times> u64) option" where
  "AsInt256 v = do { mustKind v KindInt256; Some (v_w256 v) }"

definition AsUint256 :: "go_value \<Rightarrow> (u64 \<times> u64 \<times> u64 \<times> u64) option" where
  "AsUint256 v = do { mustKind v KindUint256; Some (v_w256 v) }"

definition AsTimestamp :: "go_value \<Rightarrow> u64 option" where
  "AsTimestamp v = do { mustKind v KindTimestamp; Some (v_i64 v) }"

definition AsDurationMicros :: "go_value \<Rightarrow> u64 option" where
  "AsDurationMicros v = do { mustKind v KindDuration; Some (v_i64 v) }"

text \<open>
  \<open>math.MinInt64 / int64(time.Microsecond)\<close> and its maximum; Go's division truncates.
\<close>

definition MinTimeDurationMicros :: int where
  "MinTimeDurationMicros = - ((2 ^ 63) div 1000)"

definition MaxTimeDurationMicros :: int where
  "MaxTimeDurationMicros = (2 ^ 63 - 1) div 1000"

definition AsDurationChecked :: "go_value \<Rightarrow> (value_error + u64) option" where
  "AsDurationChecked v = do {
     micros \<leftarrow> AsDurationMicros v;
     Some (if sint micros < MinTimeDurationMicros \<or> MaxTimeDurationMicros < sint micros
           then Inl ErrDurationOutOfRange else Inr (micros * 1000))
   }"

definition ArrayStringView :: "go_value \<Rightarrow> bytes list option" where
  "ArrayStringView v = do { mustKind v KindArrayString; Some (v_strArr v) }"

definition JSONView :: "go_value \<Rightarrow> bytes option" where
  "JSONView v = do { mustKind v KindJSON; Some (v_buf v) }"

lemmas accessor_defs =
  mustKind_def AsBool_def AsInt8_def AsUint8_def AsInt16_def AsUint16_def AsInt32_def
  AsUint32_def AsInt64_def AsUint64_def AsFloat32_def AsFloat64_def AsString_def BytesView_def
  AsUUID_def AsInt128_def AsUint128_def AsInt256_def AsUint256_def AsTimestamp_def
  AsDurationMicros_def ArrayStringView_def JSONView_def

definition Copy :: "go_value \<Rightarrow> go_value" where
  "Copy v =
     (if v_isNull v then v
      else case v_kind v of
        KindBytes \<Rightarrow> NewBytes (v_buf v)
      | KindJSON \<Rightarrow> (zeroValue KindJSON)\<lparr>v_buf := v_buf v\<rparr>
      | KindArrayString \<Rightarrow> NewArrayString (v_strArr v)
      | _ \<Rightarrow> v)"

section \<open>Equality and ordering\<close>

definition EqualValues :: "go_value \<Rightarrow> go_value \<Rightarrow> bool" where
  "EqualValues l r =
     (if v_kind l \<noteq> v_kind r then False
      else if v_isNull l \<or> v_isNull r then v_isNull l \<and> v_isNull r
      else case v_kind l of
        KindBool \<Rightarrow> v_b l = v_b r
      | KindInt8 \<Rightarrow> v_i64 l = v_i64 r | KindInt16 \<Rightarrow> v_i64 l = v_i64 r
      | KindInt32 \<Rightarrow> v_i64 l = v_i64 r | KindInt64 \<Rightarrow> v_i64 l = v_i64 r
      | KindUint8 \<Rightarrow> v_u64 l = v_u64 r | KindUint16 \<Rightarrow> v_u64 l = v_u64 r
      | KindUint32 \<Rightarrow> v_u64 l = v_u64 r | KindUint64 \<Rightarrow> v_u64 l = v_u64 r
      | KindFloat32 \<Rightarrow> f32_eq (v_f32 l) (v_f32 r)
      | KindFloat64 \<Rightarrow> f64_eq (v_f64 l) (v_f64 r)
      | KindString \<Rightarrow> v_str l = v_str r
      | KindBytes \<Rightarrow> v_buf l = v_buf r | KindJSON \<Rightarrow> v_buf l = v_buf r
      | KindInt128 \<Rightarrow> v_hi128 l = v_hi128 r \<and> v_lo128 l = v_lo128 r
      | KindUint128 \<Rightarrow> v_hi128 l = v_hi128 r \<and> v_lo128 l = v_lo128 r
      | KindInt256 \<Rightarrow> v_w256 l = v_w256 r | KindUint256 \<Rightarrow> v_w256 l = v_w256 r
      | KindTimestamp \<Rightarrow> v_i64 l = v_i64 r | KindDuration \<Rightarrow> v_i64 l = v_i64 r
      | KindArrayString \<Rightarrow> v_strArr l = v_strArr r
      | KindUUID \<Rightarrow> v_uuid l = v_uuid r)"

text \<open>\<open>if c := ...; c != 0 { return c }\<close>, then the rest.\<close>

definition cmpThen :: "int \<Rightarrow> int \<Rightarrow> int" where
  "cmpThen c d = (if c \<noteq> 0 then c else d)"

text \<open>The payload comparison of two non-null values of one kind.\<close>

definition comparePayload :: "go_value \<Rightarrow> go_value \<Rightarrow> int" where
  "comparePayload v w =
     (case v_kind v of
        KindBool \<Rightarrow> if v_b v = v_b w then 0 else if \<not> v_b v then -1 else 1
      | KindInt8 \<Rightarrow> cmpCompare (sint (v_i64 v)) (sint (v_i64 w))
      | KindInt16 \<Rightarrow> cmpCompare (sint (v_i64 v)) (sint (v_i64 w))
      | KindInt32 \<Rightarrow> cmpCompare (sint (v_i64 v)) (sint (v_i64 w))
      | KindInt64 \<Rightarrow> cmpCompare (sint (v_i64 v)) (sint (v_i64 w))
      | KindUint8 \<Rightarrow> cmpCompare (v_u64 v) (v_u64 w)
      | KindUint16 \<Rightarrow> cmpCompare (v_u64 v) (v_u64 w)
      | KindUint32 \<Rightarrow> cmpCompare (v_u64 v) (v_u64 w)
      | KindUint64 \<Rightarrow> cmpCompare (v_u64 v) (v_u64 w)
      | KindFloat32 \<Rightarrow> f32_compare (v_f32 v) (v_f32 w)
      | KindFloat64 \<Rightarrow> f64_compare (v_f64 v) (v_f64 w)
      | KindString \<Rightarrow> cmpCompare (v_str v) (v_str w)
      | KindBytes \<Rightarrow> cmpCompare (v_buf v) (v_buf w)
      | KindJSON \<Rightarrow> cmpCompare (v_buf v) (v_buf w)
      | KindInt128 \<Rightarrow>
          cmpThen (cmpCompare (sint (v_hi128 v)) (sint (v_hi128 w)))
            (cmpCompare (v_lo128 v) (v_lo128 w))
      | KindUint128 \<Rightarrow>
          cmpThen (cmpCompare (v_hi128 v) (v_hi128 w)) (cmpCompare (v_lo128 v) (v_lo128 w))
      | KindInt256 \<Rightarrow>
          (let (a0, a1, a2, a3) = v_w256 v; (b0, b1, b2, b3) = v_w256 w in
           cmpThen (cmpCompare (sint a0) (sint b0)) (cmpThen (cmpCompare a1 b1)
             (cmpThen (cmpCompare a2 b2) (cmpCompare a3 b3))))
      | KindUint256 \<Rightarrow>
          (let (a0, a1, a2, a3) = v_w256 v; (b0, b1, b2, b3) = v_w256 w in
           cmpThen (cmpCompare a0 b0) (cmpThen (cmpCompare a1 b1)
             (cmpThen (cmpCompare a2 b2) (cmpCompare a3 b3))))
      | KindTimestamp \<Rightarrow> cmpCompare (sint (v_i64 v)) (sint (v_i64 w))
      | KindDuration \<Rightarrow> cmpCompare (sint (v_i64 v)) (sint (v_i64 w))
      | KindArrayString \<Rightarrow> cmpCompare (v_strArr v) (v_strArr w)
      | KindUUID \<Rightarrow> cmpCompare (v_uuid v) (v_uuid w))"

definition Compare :: "go_value \<Rightarrow> go_value \<Rightarrow> int option" where
  "Compare v w =
     (if v_kind v \<noteq> v_kind w then None
      else if v_isNull v \<or> v_isNull w then
        Some (if v_isNull v \<and> v_isNull w then 0 else if v_isNull v then -1 else 1)
      else Some (comparePayload v w))"

section \<open>Well-formed values\<close>

text \<open>
  A value is well formed when it is what the constructor of its kind builds from its own
  slot: every other slot is zero, narrow integers are in range, a float is not NaN, a UUID has
  16 bytes and JSON text is canonical.
\<close>

definition wf_value :: "go_value \<Rightarrow> bool" where
  [wf_defs]: "wf_value v \<longleftrightarrow>
     (if v_isNull v then v = NewNull (v_kind v)
      else case v_kind v of
        KindBool \<Rightarrow> v = NewBool (v_b v)
      | KindInt8 \<Rightarrow> v = NewInt8 (ucast (v_i64 v))
      | KindUint8 \<Rightarrow> v = NewUint8 (ucast (v_u64 v))
      | KindInt16 \<Rightarrow> v = NewInt16 (ucast (v_i64 v))
      | KindUint16 \<Rightarrow> v = NewUint16 (ucast (v_u64 v))
      | KindInt32 \<Rightarrow> v = NewInt32 (ucast (v_i64 v))
      | KindUint32 \<Rightarrow> v = NewUint32 (ucast (v_u64 v))
      | KindInt64 \<Rightarrow> v = NewInt64 (v_i64 v)
      | KindUint64 \<Rightarrow> v = NewUint64 (v_u64 v)
      | KindFloat32 \<Rightarrow> NewFloat32 (v_f32 v) = Inr v
      | KindFloat64 \<Rightarrow> NewFloat64 (v_f64 v) = Inr v
      | KindString \<Rightarrow> v = NewString (v_str v)
      | KindBytes \<Rightarrow> v = NewBytes (v_buf v)
      | KindInt128 \<Rightarrow> v = NewInt128 (v_hi128 v) (v_lo128 v)
      | KindUint128 \<Rightarrow> v = NewUint128 (v_hi128 v) (v_lo128 v)
      | KindInt256 \<Rightarrow> (case v_w256 v of (w0, w1, w2, w3) \<Rightarrow> v = NewInt256 w0 w1 w2 w3)
      | KindUint256 \<Rightarrow> (case v_w256 v of (w0, w1, w2, w3) \<Rightarrow> v = NewUint256 w0 w1 w2 w3)
      | KindTimestamp \<Rightarrow> v = NewTimestamp (v_i64 v)
      | KindArrayString \<Rightarrow> v = NewArrayString (v_strArr v)
      | KindUUID \<Rightarrow> v = NewUUID (v_uuid v) \<and> length (v_uuid v) = 16
      | KindDuration \<Rightarrow> v = NewDuration (v_i64 v)
      | KindJSON \<Rightarrow> NewJSON (v_buf v) = Inr v)"

lemma ucast_scast_narrow:
  "ucast (scast (x :: byte) :: u64) = x"
  "ucast (scast (y :: u16) :: u64) = y"
  "ucast (scast (z :: u32) :: u64) = z"
  "ucast (ucast (x :: byte) :: u64) = x"
  "ucast (ucast (y :: u16) :: u64) = y"
  "ucast (ucast (z :: u32) :: u64) = z"
  by (rule bit_word_eqI; simp add: bit_unsigned_iff bit_signed_iff; auto simp: min_def)+

lemma wf_value_constructors [simp]:
  "wf_value (NewNull k)" "wf_value (NewBool b)"
  "wf_value (NewInt8 i8)" "wf_value (NewUint8 n8)" "wf_value (NewInt16 i16)"
  "wf_value (NewUint16 n16)" "wf_value (NewInt32 i32)" "wf_value (NewUint32 n32)"
  "wf_value (NewInt64 i64)" "wf_value (NewUint64 n64)" "wf_value (NewString s)"
  "wf_value (NewBytes s)" "wf_value (NewInt128 hi lo)" "wf_value (NewUint128 hi lo)"
  "wf_value (NewInt256 w0 w1 w2 w3)" "wf_value (NewUint256 w0 w1 w2 w3)"
  "wf_value (NewTimestamp i64)" "wf_value (NewDuration i64)" "wf_value (NewArrayString xs)"
  by (simp_all add: wf_value_def constructor_defs ucast_scast_narrow)

lemma wf_value_NewFloat:
  "NewFloat32 x = Inr v \<Longrightarrow> wf_value v" "NewFloat64 y = Inr w \<Longrightarrow> wf_value w"
  by (auto simp: wf_value_def NewFloat32_def NewFloat64_def zeroValue_def split: if_splits)

lemma wf_value_NewUUID: "length u = 16 \<Longrightarrow> wf_value (NewUUID u)"
  by (simp add: wf_value_def constructor_defs)

lemma Copy_wf [simp]: "wf_value v \<Longrightarrow> Copy v = v"
  by (auto simp: Copy_def wf_value_def NewJSON_def split: value_kind.splits sum.splits if_splits)

lemma v_kind_Copy [simp]: "v_kind (Copy v) = v_kind v"
  by (auto simp: Copy_def constructor_defs split: value_kind.splits)

section \<open>Equality is an equivalence\<close>

definition nanFree :: "go_value \<Rightarrow> bool" where
  "nanFree v \<longleftrightarrow>
     \<not> (\<not> v_isNull v \<and> (v_kind v = KindFloat32 \<and> f32_isNaN (v_f32 v)
        \<or> v_kind v = KindFloat64 \<and> f64_isNaN (v_f64 v)))"

lemma wf_value_nanFree: "wf_value v \<Longrightarrow> nanFree v"
  by (auto simp: nanFree_def wf_value_def NewFloat32_def NewFloat64_def split: if_splits)

lemma EqualValues_refl: "nanFree v \<Longrightarrow> EqualValues v v"
  by (auto simp: EqualValues_def nanFree_def f32_eq_def f64_eq_def split: value_kind.split)

lemma EqualValues_sym: "EqualValues v w \<Longrightarrow> EqualValues w v"
  by (auto simp: EqualValues_def f32_eq_def f64_eq_def split: value_kind.splits if_splits)

lemma EqualValues_trans: "EqualValues u v \<Longrightarrow> EqualValues v w \<Longrightarrow> EqualValues u w"
  by (simp add: EqualValues_def f32_eq_def f64_eq_def split: value_kind.splits if_splits)

lemma EqualValues_kind: "EqualValues v w \<Longrightarrow> v_kind v = v_kind w"
  by (simp add: EqualValues_def split: if_splits)

section \<open>Comparison is a total order within a kind\<close>

lemma comparator_key: "comparator (\<lambda>x y. cmpCompare (f x) (f y)) D"
  by unfold_locales (auto simp: cmpCompare_def split: if_splits)

lemma comparator_cong:
  assumes "comparator c' D" and "\<And>x y. D x \<Longrightarrow> D y \<Longrightarrow> c x y = c' x y"
  shows "comparator c D"
proof
  fix x y assume D: "D x" "D y"
  show "c x y \<in> {-1, 0, 1}" using comparator.cmp_range [OF assms(1) D] assms(2) D by simp
  show "c y x = - c x y" using comparator.cmp_anti [OF assms(1) D] assms(2) D by simp
next
  fix x y z assume D: "D x" "D y" "D z" and "c x y \<le> 0" "c y z \<le> 0"
  then show "c x z \<le> 0" using comparator.cmp_trans [OF assms(1) D] assms(2) by simp
qed

lemma comparator_then:
  assumes "comparator c1 D" and "comparator c2 D"
  shows "comparator (\<lambda>x y. cmpThen (c1 x y) (c2 x y)) D"
proof
  fix x y assume D: "D x" "D y"
  show "cmpThen (c1 x y) (c2 x y) \<in> {-1, 0, 1}"
    using comparator.cmp_range [OF assms(1) D] comparator.cmp_range [OF assms(2) D]
    by (auto simp: cmpThen_def)
  show "cmpThen (c1 y x) (c2 y x) = - cmpThen (c1 x y) (c2 x y)"
    using comparator.cmp_anti [OF assms(1) D] comparator.cmp_anti [OF assms(2) D]
    by (simp add: cmpThen_def)
next
  fix x y z assume D: "D x" "D y" "D z"
    and xy: "cmpThen (c1 x y) (c2 x y) \<le> 0" and yz: "cmpThen (c1 y z) (c2 y z) \<le> 0"
  have le: "c1 x y \<le> 0" "c1 y z \<le> 0" using xy yz by (auto simp: cmpThen_def split: if_splits)
  show "cmpThen (c1 x z) (c2 x z) \<le> 0"
  proof (cases "c1 x y = 0 \<and> c1 y z = 0")
    case True
    then have "c1 x z = 0" using comparator.cmp_cong_left [OF assms(1) D] by simp
    with True xy yz show ?thesis
      using comparator.cmp_trans [OF assms(2) D] by (simp add: cmpThen_def)
  next
    case False
    then have "c1 x z < 0"
      using le comparator.cmp_less_trans [OF assms(1) D] comparator.cmp_le_less_trans [OF assms(1) D]
      by fastforce
    then show ?thesis by (simp add: cmpThen_def)
  qed
qed

lemma comparator_f32: "comparator (\<lambda>v w. f32_compare (f v) (f w)) D"
  by (rule comparator_cong [OF comparator_then [OF
        comparator_key [where f = "\<lambda>v. if f32_isNaN (f v) then 0 else (1::int)"]
        comparator_key [where f = "\<lambda>v. if f32_isNaN (f v) then 0 else f32_key (f v)"]]])
    (auto simp: f32_compare_def cmpThen_def cmpCompare_def)

lemma comparator_f64: "comparator (\<lambda>v w. f64_compare (f v) (f w)) D"
  by (rule comparator_cong [OF comparator_then [OF
        comparator_key [where f = "\<lambda>v. if f64_isNaN (f v) then 0 else (1::int)"]
        comparator_key [where f = "\<lambda>v. if f64_isNaN (f v) then 0 else f64_key (f v)"]]])
    (auto simp: f64_compare_def cmpThen_def cmpCompare_def)

lemma comparePayload_comparator: "comparator comparePayload (\<lambda>v. v_kind v = k)"
proof (cases k)
  case KindBool
  show ?thesis
    by (rule comparator_cong [OF comparator_key [where f = v_b]])
      (auto simp: KindBool comparePayload_def cmpCompare_def)
next
  case KindFloat32
  show ?thesis
    by (rule comparator_cong [OF comparator_f32 [where f = v_f32]])
      (auto simp: KindFloat32 comparePayload_def)
next
  case KindFloat64
  show ?thesis
    by (rule comparator_cong [OF comparator_f64 [where f = v_f64]])
      (auto simp: KindFloat64 comparePayload_def)
next
  case KindInt128
  show ?thesis
    by (rule comparator_cong [OF comparator_then [OF
          comparator_key [where f = "\<lambda>v. sint (v_hi128 v)"] comparator_key [where f = v_lo128]]])
      (auto simp: KindInt128 comparePayload_def)
next
  case KindUint128
  show ?thesis
    by (rule comparator_cong [OF comparator_then [OF
          comparator_key [where f = v_hi128] comparator_key [where f = v_lo128]]])
      (auto simp: KindUint128 comparePayload_def)
next
  case KindInt256
  show ?thesis
    by (rule comparator_cong [OF comparator_then [OF
          comparator_key [where f = "\<lambda>v. sint (fst (v_w256 v))"]
          comparator_then [OF comparator_key [where f = "\<lambda>v. fst (snd (v_w256 v))"]
          comparator_then [OF comparator_key [where f = "\<lambda>v. fst (snd (snd (v_w256 v)))"]
          comparator_key [where f = "\<lambda>v. snd (snd (snd (v_w256 v)))"]]]]])
      (auto simp: KindInt256 comparePayload_def split: prod.split)
next
  case KindUint256
  show ?thesis
    by (rule comparator_cong [OF comparator_then [OF
          comparator_key [where f = "\<lambda>v. fst (v_w256 v)"]
          comparator_then [OF comparator_key [where f = "\<lambda>v. fst (snd (v_w256 v))"]
          comparator_then [OF comparator_key [where f = "\<lambda>v. fst (snd (snd (v_w256 v)))"]
          comparator_key [where f = "\<lambda>v. snd (snd (snd (v_w256 v)))"]]]]])
      (auto simp: KindUint256 comparePayload_def split: prod.split)
qed (rule comparator_cong [OF comparator_key [where f = "\<lambda>v. sint (v_i64 v)"]]
      comparator_cong [OF comparator_key [where f = v_u64]]
      comparator_cong [OF comparator_key [where f = v_str]]
      comparator_cong [OF comparator_key [where f = v_buf]]
      comparator_cong [OF comparator_key [where f = v_strArr]]
      comparator_cong [OF comparator_key [where f = v_uuid]],
    simp add: comparePayload_def; fail)+

text \<open>Comparison of two values of one kind, where it does not panic.\<close>

definition compareV :: "go_value \<Rightarrow> go_value \<Rightarrow> int" where
  "compareV v w = the (Compare v w)"

lemma Compare_same_kind: "v_kind v = v_kind w \<Longrightarrow> Compare v w = Some (compareV v w)"
  by (simp add: compareV_def Compare_def)

lemma Compare_eq_None: "Compare v w = None \<longleftrightarrow> v_kind v \<noteq> v_kind w"
  by (simp add: Compare_def)

lemma comparator_nullable:
  assumes "comparator c D"
  shows "comparator (\<lambda>x y. if n x \<or> n y then (if n x \<and> n y then 0 else if n x then -1 else 1)
                            else c x y) D"
proof
  fix x y assume D: "D x" "D y"
  show "(if n x \<or> n y then (if n x \<and> n y then 0 else if n x then -1 else 1) else c x y) \<in> {-1, 0, 1}"
    using comparator.cmp_range [OF assms D] by simp
  show "(if n y \<or> n x then (if n y \<and> n x then 0 else if n y then -1 else 1) else c y x) =
      - (if n x \<or> n y then (if n x \<and> n y then 0 else if n x then -1 else 1) else c x y)"
    using comparator.cmp_anti [OF assms D] by simp
next
  fix x y z assume D: "D x" "D y" "D z"
    and "(if n x \<or> n y then (if n x \<and> n y then 0 else if n x then -1 else 1) else c x y) \<le> 0"
    and "(if n y \<or> n z then (if n y \<and> n z then 0 else if n y then -1 else 1) else c y z) \<le> 0"
  then show "(if n x \<or> n z then (if n x \<and> n z then 0 else if n x then -1 else 1) else c x z) \<le> 0"
    using comparator.cmp_trans [OF assms D] by (auto split: if_splits)
qed

interpretation value_order: comparator compareV "\<lambda>v. v_kind v = k" for k
  by (rule comparator_cong [OF comparator_nullable [OF comparePayload_comparator, where n = v_isNull]])
    (simp add: compareV_def Compare_def)

text \<open>The order identifies exactly the values that are equal.\<close>

lemma sint_eq_iff: "sint (x :: u64) = sint y \<longleftrightarrow> x = y"
  by (auto simp: signed_word_eqI)

lemma Compare_zero_iff_Equal:
  assumes "nanFree v" "nanFree w"
  shows "Compare v w = Some 0 \<longleftrightarrow> EqualValues v w"
  using assms
  by (cases "v_kind v"; cases "v_w256 v"; cases "v_w256 w";
      simp add: Compare_def EqualValues_def comparePayload_def cmpThen_def nanFree_def
        f32_compare_def f64_compare_def f32_eq_def f64_eq_def sint_eq_iff split: if_splits;
      auto)

section \<open>Properties of values\<close>

text \<open>
  C28. Value order. Comparing two values of one kind never panics and yields a three-way
  result that negates when the operands are swapped, is transitive, and is zero exactly when
  the values are equal; comparing values of different kinds panics.
\<close>

theorem compare_total_order:
  assumes "wf_value u" "wf_value v" "wf_value w" "v_kind u = v_kind v" "v_kind v = v_kind w"
  shows "\<exists>c. Compare v w = Some c \<and> c \<in> {-1, 0, 1} \<and> Compare w v = Some (- c) \<and>
    (c = 0 \<longleftrightarrow> EqualValues v w) \<and>
    (\<forall>d. Compare u v = Some d \<and> d \<le> 0 \<and> c \<le> 0 \<longrightarrow> (\<exists>e. Compare u w = Some e \<and> e \<le> 0))"
proof (intro exI conjI)
  note same = assms(4,5)
  show "Compare v w = Some (compareV v w)" by (rule Compare_same_kind [OF same(2)])
  show "compareV v w \<in> {-1, 0, 1}"
    by (rule value_order.cmp_range [where k = "v_kind w"]) (simp_all only: same)
  have "compareV w v = - compareV v w"
    by (rule value_order.cmp_anti [where k = "v_kind w"]) (simp_all only: same)
  then show "Compare w v = Some (- compareV v w)"
    by (simp add: Compare_same_kind [OF same(2) [symmetric]])
  show "compareV v w = 0 \<longleftrightarrow> EqualValues v w"
    using Compare_zero_iff_Equal [of v w] assms(2,3)
    by (simp add: Compare_same_kind [OF same(2)] wf_value_nanFree)
  have "compareV u v \<le> 0 \<Longrightarrow> compareV v w \<le> 0 \<Longrightarrow> compareV u w \<le> 0"
    by (rule value_order.cmp_trans [where k = "v_kind w" and y = v]) (simp_all only: same)
  then show "\<forall>d. Compare u v = Some d \<and> d \<le> 0 \<and> compareV v w \<le> 0 \<longrightarrow> (\<exists>e. Compare u w = Some e \<and> e \<le> 0)"
    by (simp add: Compare_same_kind [OF same(1)] Compare_same_kind [of u w] same)
qed

theorem compare_total_order_witness:
  "wf_value (NewInt8 0xFF) \<and> wf_value (NewInt8 3) \<and> wf_value (NewNull KindInt8) \<and>
   (\<exists>c. Compare (NewInt8 0xFF) (NewInt8 3) = Some c \<and> Compare (NewInt8 3) (NewInt8 0xFF) = Some (- c))"
proof -
  have k: "v_kind (NewNull KindInt8) = v_kind (NewInt8 0xFF)" "v_kind (NewInt8 0xFF) = v_kind (NewInt8 3)"
    by (simp_all add: constructor_defs)
  show ?thesis
    using compare_total_order [OF wf_value_constructors(1) wf_value_constructors(3) wf_value_constructors(3) k]
    by auto
qed

end
