(* ===== verification/ValueText.thy ===== *)
theory ValueText
  imports Value
begin

text \<open>
  The textual and Go-side forms of values: canonical UUID text (\<open>ParseUUID\<close>,
  \<open>UUIDString\<close>) is a bijection with 16-byte payloads, and \<open>AsDurationChecked\<close> converts
  microseconds to nanoseconds without overflow or reports the range error.
\<close>

section \<open>UUID text round trips\<close>

lemma hex_value_digit [simp]:
  assumes "n < 16"
  shows "hex_value (hex_digit n) = Some n"
proof -
  have "list_all (\<lambda>n. hex_value (hex_digit n) = Some n) [0..<16]" by code_simp
  with assms show ?thesis by (simp add: list_all_iff)
qed

lemma hex_digit_lower:
  assumes "n < 16"
  shows "\<not> (0x41 \<le> hex_digit n \<and> hex_digit n \<le> 0x46)"
proof -
  have "list_all (\<lambda>n. \<not> (0x41 \<le> hex_digit n \<and> hex_digit n \<le> 0x46)) [0..<16]"
    by code_simp
  with assms show ?thesis by (simp add: list_all_iff)
qed

lemma hex_digit_value:
  assumes "hex_value c = Some n" "\<not> (0x41 \<le> c \<and> c \<le> 0x46)"
  shows "hex_digit n = c \<and> n < 16"
proof -
  let ?m = "unat c"
  have c: "c = of_nat ?m" by simp
  consider "0x30 \<le> ?m" "?m \<le> 0x39" "n = ?m - 0x30" | "0x61 \<le> ?m" "?m \<le> 0x66" "n = ?m - 0x57"
    using assms by (auto simp: hex_value_def word_le_nat_alt split: if_splits)
  then show ?thesis
  proof cases
    case 1
    then have "n < 10" "0x30 + n = ?m" by simp_all
    then show ?thesis using c by (simp add: hex_digit_def del: of_nat_add)
  next
    case 2
    then have "\<not> n < 10" "n < 16" "0x57 + n = ?m" by simp_all
    then show ?thesis using c by (simp add: hex_digit_def del: of_nat_add)
  qed
qed

lemma hexDecode_hexEncode [simp]: "hexDecode (hexEncode u) = Some u"
proof (induction u)
  case (Cons b u)
  have "unat b < 256" using unsigned_less [of b] by simp
  then have "unat b div 16 < 16" by simp
  moreover have "of_nat (16 * (unat b div 16) + unat b mod 16) = b"
    by (simp only: mult_div_mod_eq of_nat_unat ucast_id)
  ultimately show ?case using Cons by (simp del: of_nat_add of_nat_mult)
qed simp

lemma hexEncode_hexDecode:
  "hexDecode cs = Some u \<Longrightarrow> \<forall>c \<in> set cs. \<not> (0x41 \<le> c \<and> c \<le> 0x46) \<Longrightarrow> hexEncode u = cs"
proof (induction cs arbitrary: u rule: hexDecode.induct)
  case (3 a b r)
  then obtain x y rest where xy: "hex_value a = Some x" "hex_value b = Some y"
    and r: "hexDecode r = Some rest" "u = of_nat (16 * x + y) # rest"
    by (auto simp: result_simps)
  have d: "hex_digit x = a \<and> x < 16" "hex_digit y = b \<and> y < 16"
    using xy 3 by (auto intro!: hex_digit_value)
  then have "unat (of_nat (16 * x + y) :: byte) = 16 * x + y"
    by (simp add: unat_of_nat del: of_nat_add of_nat_mult)
  moreover have "hexEncode rest = r" using 3 xy r by auto
  ultimately show ?case using d r by (simp del: of_nat_add of_nat_mult)
qed auto

lemma length_hexEncode [simp]: "length (hexEncode u) = 2 * length u"
  by (induction u) simp_all

lemma hexDecode_length: "hexDecode cs = Some u \<Longrightarrow> length cs = 2 * length u"
  by (induction cs arbitrary: u rule: hexDecode.induct) (auto simp: result_simps)

lemma hexEncode_lower: "c \<in> set (hexEncode u) \<Longrightarrow> \<not> (0x41 \<le> c \<and> c \<le> 0x46)"
proof (induction u)
  case (Cons b u)
  have "unat b < 256" using unsigned_less [of b] by simp
  then have "unat b div 16 < 16" by simp
  with Cons hex_digit_lower [of "unat b div 16"] hex_digit_lower [of "unat b mod 16"] show ?case by auto
qed simp

lemma hexEncode_append: "hexEncode (u @ w) = hexEncode u @ hexEncode w"
  by (induction u) simp_all

lemma hexEncode_take: "hexEncode (take n u) = take (2 * n) (hexEncode u)"
proof (induction u arbitrary: n)
  case (Cons b u)
  then show ?case by (cases n) simp_all
qed simp

lemma hexEncode_drop: "hexEncode (drop n u) = drop (2 * n) (hexEncode u)"
proof (induction u arbitrary: n)
  case (Cons b u)
  then show ?case by (cases n) simp_all
qed simp

lemma split_length: "length s = n + m \<Longrightarrow> \<exists>a b. s = a @ b \<and> length a = n \<and> length b = m"
  by (intro exI [of _ "take n s"] exI [of _ "drop n s"]) simp

lemma uuid_segments:
  assumes "length (s :: bytes) = 36"
  obtains a b c d e x y z w where "s = a @ [x] @ b @ [y] @ c @ [z] @ d @ [w] @ e"
    "length a = 8" "length b = 4" "length c = 4" "length d = 4" "length e = 12"
proof -
  have one: "length t = Suc 0 \<longleftrightarrow> (\<exists>x. t = [x])" for t :: bytes by (auto simp: length_Suc_conv)
  from assms split_length [of s 8 28] obtain a s1 where a: "s = a @ s1" "length a = 8" "length s1 = 28" by auto
  from split_length [of s1 "Suc 0" 27] a obtain x s2 where x: "s1 = [x] @ s2" "length s2 = 27" by (auto simp: one)
  from split_length [of s2 4 23] x obtain b s3 where b: "s2 = b @ s3" "length b = 4" "length s3 = 23" by auto
  from split_length [of s3 "Suc 0" 22] b obtain y s4 where y: "s3 = [y] @ s4" "length s4 = 22" by (auto simp: one)
  from split_length [of s4 4 18] y obtain c s5 where c: "s4 = c @ s5" "length c = 4" "length s5 = 18" by auto
  from split_length [of s5 "Suc 0" 17] c obtain z s6 where z: "s5 = [z] @ s6" "length s6 = 17" by (auto simp: one)
  from split_length [of s6 4 13] z obtain d s7 where d: "s6 = d @ s7" "length d = 4" "length s7 = 13" by auto
  from split_length [of s7 "Suc 0" 12] d obtain w e where w: "s7 = [w] @ e" "length e = 12" by (auto simp: one)
  show thesis by (rule that [of a x b y c z d w e]) (use a x b y c z d w in simp_all)
qed

lemma uuid_compact:
  assumes "length a = 8" "length b = 4" "length c = 4" "length d = 4" "length e = 12"
  shows "map ((!) (a @ [x] @ b @ [y] @ c @ [z] @ d @ [w] @ e))
           (filter (\<lambda>i. i \<notin> {8, 13, 18, 23}) [0..<36]) = a @ b @ c @ d @ e"
proof -
  have pos: "filter (\<lambda>i. i \<notin> {8, 13, 18, 23}) [0..<36] =
     [0..<8] @ [9..<13] @ [14..<18] @ [19..<23] @ [24..<36::nat]"
    by (simp add: upt_rec)
  have sub: "map ((!) (p @ q @ r)) [i..<j] = q" if "length p = i" "i + length q = j"
    for p q r :: "'a list" and i j
    using that by (intro nth_equalityI) (auto simp: nth_append)
  let ?s = "a @ [x] @ b @ [y] @ c @ [z] @ d @ [w] @ e"
  have "map ((!) ?s) [0..<8] = a" using sub [of "[]" 0 a 8] assms by simp
  moreover have "map ((!) ?s) [9..<13] = b"
    using sub [of "a @ [x]" 9 b 13 "[y] @ c @ [z] @ d @ [w] @ e"] assms by simp
  moreover have "map ((!) ?s) [14..<18] = c"
    using sub [of "a @ [x] @ b @ [y]" 14 c 18 "[z] @ d @ [w] @ e"] assms by simp
  moreover have "map ((!) ?s) [19..<23] = d"
    using sub [of "a @ [x] @ b @ [y] @ c @ [z]" 19 d 23 "[w] @ e"] assms by simp
  moreover have "map ((!) ?s) [24..<36] = e"
    using sub [of "a @ [x] @ b @ [y] @ c @ [z] @ d @ [w]" 24 e 36 "[]"] assms by simp
  ultimately show ?thesis unfolding pos map_append by simp
qed

lemma uuid_hyphens:
  assumes "length a = 8" "length b = 4" "length c = 4" "length d = 4"
  shows "(a @ [x] @ b @ [y] @ c @ [z] @ d @ [w] @ e) ! 8 = x"
    "(a @ [x] @ b @ [y] @ c @ [z] @ d @ [w] @ e) ! 13 = y"
    "(a @ [x] @ b @ [y] @ c @ [z] @ d @ [w] @ e) ! 18 = z"
    "(a @ [x] @ b @ [y] @ c @ [z] @ d @ [w] @ e) ! 23 = w"
  using assms by (simp_all add: nth_append)

lemma ParseUUID_segments:
  assumes "length a = 8" "length b = 4" "length c = 4" "length d = 4" "length e = 12"
  shows "ParseUUID (a @ [0x2D] @ b @ [0x2D] @ c @ [0x2D] @ d @ [0x2D] @ e) =
     (if list_ex (\<lambda>c. 0x41 \<le> c \<and> c \<le> 0x46) (a @ b @ c @ d @ e) then Inl ErrInvalidUUID
      else case hexDecode (a @ b @ c @ d @ e) of None \<Rightarrow> Inl ErrInvalidUUID | Some u \<Rightarrow> Inr (NewUUID u))"
  unfolding ParseUUID_def Let_def uuid_compact [OF assms] uuid_hyphens [OF assms(1-4)]
  using assms by simp

lemma ParseUUID_UUIDString:
  assumes "length u = 16"
  shows "\<exists>s. UUIDString (NewUUID u) = Some s \<and> ParseUUID s = Inr (NewUUID u)"
proof -
  let ?a = "hexEncode (take 4 u)" and ?b = "hexEncode (take 2 (drop 4 u))"
    and ?c = "hexEncode (take 2 (drop 6 u))" and ?d = "hexEncode (take 2 (drop 8 u))"
    and ?e = "hexEncode (take 6 (drop 10 u))"
  have s: "UUIDString (NewUUID u) = Some (?a @ [0x2D] @ ?b @ [0x2D] @ ?c @ [0x2D] @ ?d @ [0x2D] @ ?e)"
    by (simp add: UUIDString_def accessor_defs NewUUID_def zeroValue_def)
  have "take 4 u @ take 2 (drop 4 u) @ take 2 (drop 6 u) @ take 2 (drop 8 u) @ take 6 (drop 10 u) = u"
    using assms take_add [of 4 2 u] take_add [of 6 2 u] take_add [of 8 2 u] take_add [of 10 6 u]
    by simp
  then have cat: "?a @ ?b @ ?c @ ?d @ ?e = hexEncode u"
    by (metis hexEncode_append)
  have low: "\<not> list_ex (\<lambda>c. 0x41 \<le> c \<and> c \<le> 0x46) (hexEncode u)"
    using hexEncode_lower [of _ u] by (auto simp: list_ex_iff)
  have "ParseUUID (?a @ [0x2D] @ ?b @ [0x2D] @ ?c @ [0x2D] @ ?d @ [0x2D] @ ?e) =
      (if list_ex (\<lambda>c. 0x41 \<le> c \<and> c \<le> 0x46) (?a @ ?b @ ?c @ ?d @ ?e) then Inl ErrInvalidUUID
       else case hexDecode (?a @ ?b @ ?c @ ?d @ ?e) of
         None \<Rightarrow> Inl ErrInvalidUUID | Some u \<Rightarrow> Inr (NewUUID u))"
    by (rule ParseUUID_segments) (use assms in simp_all)
  also have "\<dots> = Inr (NewUUID u)" unfolding cat using low by simp
  finally have "ParseUUID (?a @ [0x2D] @ ?b @ [0x2D] @ ?c @ [0x2D] @ ?d @ [0x2D] @ ?e) = Inr (NewUUID u)" .
  with s show ?thesis by blast
qed

lemma ParseUUID_shape:
  "ParseUUID s = Inr v \<Longrightarrow>
   length s = 36 \<and> s ! 8 = 0x2D \<and> s ! 13 = 0x2D \<and> s ! 18 = 0x2D \<and> s ! 23 = 0x2D"
  by (simp only: ParseUUID_def Let_def split: if_splits) simp_all

lemma UUIDString_ParseUUID:
  assumes "ParseUUID s = Inr v"
  shows "UUIDString v = Some s \<and> wf_value v"
proof -
  note shape = ParseUUID_shape [OF assms]
  from uuid_segments [of s] shape obtain a b c d e x y z w
    where s: "s = a @ [x] @ b @ [y] @ c @ [z] @ d @ [w] @ e"
    and len: "length a = 8" "length b = 4" "length c = 4" "length d = 4" "length e = 12"
    by metis
  have hy: "x = 0x2D" "y = 0x2D" "z = 0x2D" "w = 0x2D"
    using shape unfolding s uuid_hyphens [OF len(1-4)] by blast+
  let ?cs = "a @ b @ c @ d @ e"
  from assms hy obtain u where u: "hexDecode ?cs = Some u" "v = NewUUID u"
    and low: "\<forall>c \<in> set ?cs. \<not> (0x41 \<le> c \<and> c \<le> 0x46)"
    unfolding s hy ParseUUID_segments [OF len] by (auto split: if_splits option.splits simp: list_ex_iff)
  have enc: "hexEncode u = ?cs" by (rule hexEncode_hexDecode [OF u(1) low])
  have lu: "length u = 16" using hexDecode_length [OF u(1)] len by simp
  have seg: "hexEncode (take n (drop m u)) = take (2 * n) (drop (2 * m) ?cs)" for n m
    unfolding enc [symmetric] by (simp add: hexEncode_take hexEncode_drop)
  have "UUIDString v = Some s"
    using seg [of 4 0] seg [of 2 4] seg [of 2 6] seg [of 2 8] seg [of 6 10] len hy
    by (simp add: UUIDString_def accessor_defs u(2) NewUUID_def zeroValue_def s)
  then show ?thesis using lu u(2) by (simp add: wf_value_NewUUID)
qed

section \<open>Durations\<close>

lemma micros_to_nanos:
  fixes m :: u64
  assumes "MinTimeDurationMicros \<le> sint m" "sint m \<le> MaxTimeDurationMicros"
  shows "sint (m * 1000) = sint m * 1000"
proof -
  have "signed_take_bit 63 (sint m * 1000) = sint m * 1000"
    using assms by (intro signed_take_bit_int_eq_self)
      (simp_all add: MinTimeDurationMicros_def MaxTimeDurationMicros_def)
  then show ?thesis
    by (simp add: sint_word_ariths)
qed

lemma duration_bounds_exact:
  "MinTimeDurationMicros \<le> x \<and> x \<le> MaxTimeDurationMicros \<longleftrightarrow> - (2 ^ 63) \<le> x * 1000 \<and> x * 1000 < 2 ^ 63"
  by (simp add: MinTimeDurationMicros_def MaxTimeDurationMicros_def; presburger)

section \<open>Properties of text forms\<close>

text \<open>
  C32. UUID text. The strings \<open>ParseUUID\<close> accepts are exactly the texts \<open>UUIDString\<close> prints for
  16-byte UUIDs, and parsing inverts printing.
\<close>

theorem uuid_text_bijection:
  "ParseUUID s = Inr v \<longleftrightarrow> (\<exists>u. length u = 16 \<and> v = NewUUID u \<and> UUIDString v = Some s)"
proof
  assume p: "ParseUUID s = Inr v"
  have "\<exists>u. v = NewUUID u"
    using p by (simp only: ParseUUID_def Let_def split: if_splits option.splits) auto
  moreover have "UUIDString v = Some s \<and> wf_value v" by (rule UUIDString_ParseUUID [OF p])
  ultimately show "\<exists>u. length u = 16 \<and> v = NewUUID u \<and> UUIDString v = Some s"
    by (auto simp: wf_value_def constructor_defs)
next
  assume "\<exists>u. length u = 16 \<and> v = NewUUID u \<and> UUIDString v = Some s"
  then show "ParseUUID s = Inr v" using ParseUUID_UUIDString by fastforce
qed

text \<open>
  Durations. Converting microseconds to Go's nanosecond duration returns the exact product
  without wrap-around, or the range error when and only when the product does not fit an int64.
\<close>

theorem duration_checked_exact:
  "case AsDurationChecked (NewDuration m) of
     Some (Inr n) \<Rightarrow> sint n = sint m * 1000
   | Some (Inl e) \<Rightarrow> e = ErrDurationOutOfRange \<and> (sint m * 1000 < - (2 ^ 63) \<or> 2 ^ 63 \<le> sint m * 1000)
   | None \<Rightarrow> False"
  using micros_to_nanos [of m] duration_bounds_exact [of "sint m"]
  by (simp add: AsDurationChecked_def accessor_defs constructor_defs) linarith

end
