(* ===== verification/Decoders.thy ===== *)
theory Decoders
  imports Prelude
begin

text \<open>
  Decoders over an \<open>io.Reader\<close>. A decoder maps the bytes that are left to an error or to a
  result and the bytes left after it. The contract \<open>reader\<close> is what every decoder of the
  program promises: success depends only on the bytes consumed, and any proper prefix of
  them fails with an I/O error. Decoders compose sequentially under this contract.
\<close>

definition reader_ok :: "(io_error \<Rightarrow> 'e) \<Rightarrow> (bytes \<Rightarrow> 'e + ('a \<times> bytes)) \<Rightarrow> bool" where
  "reader_ok io f \<longleftrightarrow>
     (\<forall>r v r'. f r = Inr (v, r') \<longrightarrow>
        (\<exists>bs. r = bs @ r' \<and> (\<forall>s. f (bs @ s) = Inr (v, s)) \<and>
              (\<forall>k < length bs. \<exists>e. f (take k bs) = Inl (io e))))"

lemma reader_okE:
  assumes "reader_ok io f" "f r = Inr (v, r')"
  obtains bs where "r = bs @ r'" "\<And>s. f (bs @ s) = Inr (v, s)"
    "\<And>k. k < length bs \<Longrightarrow> \<exists>e. f (take k bs) = Inl (io e)"
  using assms unfolding reader_ok_def by blast

text \<open>\<open>io.ReadFull\<close> with its error injected into the decoder's error type.\<close>

definition readN :: "(io_error \<Rightarrow> 'e) \<Rightarrow> nat \<Rightarrow> bytes \<Rightarrow> 'e + (bytes \<times> bytes)" where
  "readN io n r = map_sum io id (readFull n r)"

lemma readN_append [simp]: "length xs = n \<Longrightarrow> readN io n (xs @ r) = Inr (xs, r)"
  by (simp add: readN_def)

lemma readN_eq_Inr [result_simps]:
  "readN io n r = Inr (xs, r') \<longleftrightarrow> length xs = n \<and> r = xs @ r'"
  by (auto simp: readN_def readFull_def)

lemma readN_short: "length r < n \<Longrightarrow> \<exists>e. readN io n r = Inl (io e)"
  by (auto simp: readN_def readFull_def)

lemma readN_zero [simp]: "readN io 0 r = Inr ([], r)"
  by (simp add: readN_def readFull_def)

lemma reader_ok_readN [intro!, simp]: "reader_ok io (readN io n)"
  unfolding reader_ok_def
proof (intro allI impI)
  fix r v r' assume "readN io n r = Inr (v, r')"
  then have "length v = n" "r = v @ r'" by (simp_all add: readN_eq_Inr)
  then show "\<exists>bs. r = bs @ r' \<and> (\<forall>s. readN io n (bs @ s) = Inr (v, s)) \<and>
      (\<forall>k < length bs. \<exists>e. readN io n (take k bs) = Inl (io e))"
    by (intro exI [of _ v]) (auto intro: readN_short)
qed

lemma reader_ok_return [intro!, simp]: "reader_ok io (\<lambda>r. Inr (v, r))"
  by (auto simp: reader_ok_def)

lemma reader_ok_fail [intro!, simp]: "reader_ok io (\<lambda>r. Inl e)"
  by (simp add: reader_ok_def)

lemma reader_ok_if [intro]:
  "(b \<Longrightarrow> reader_ok io f) \<Longrightarrow> (\<not> b \<Longrightarrow> reader_ok io g) \<Longrightarrow> reader_ok io (\<lambda>r. if b then f r else g r)"
  by (cases b) simp_all

lemma reader_ok_bind [intro]:
  assumes f: "reader_ok io f" and g: "\<And>v. reader_ok io (g v)"
  shows "reader_ok io (\<lambda>r. bindE (f r) (\<lambda>(v, r). g v r))"
  unfolding reader_ok_def
proof (intro allI impI)
  fix r w r2 assume "bindE (f r) (\<lambda>(v, r). g v r) = Inr (w, r2)"
  then obtain v r1 where fr: "f r = Inr (v, r1)" and gr: "g v r1 = Inr (w, r2)"
    by (auto simp: result_simps)
  obtain b1 where b1: "r = b1 @ r1" "\<And>s. f (b1 @ s) = Inr (v, s)"
    "\<And>k. k < length b1 \<Longrightarrow> \<exists>e. f (take k b1) = Inl (io e)"
    using reader_okE [OF f fr] by blast
  obtain b2 where b2: "r1 = b2 @ r2" "\<And>s. g v (b2 @ s) = Inr (w, s)"
    "\<And>k. k < length b2 \<Longrightarrow> \<exists>e. g v (take k b2) = Inl (io e)"
    using reader_okE [OF g gr] by blast
  have "\<exists>e. bindE (f (take k (b1 @ b2))) (\<lambda>(v, r). g v r) = Inl (io e)" if "k < length (b1 @ b2)" for k
  proof (cases "k < length b1")
    case True
    then show ?thesis using b1(3) by fastforce
  next
    case False
    then show ?thesis using b2(3) [of "k - length b1"] that b1(2) by simp
  qed
  then show "\<exists>bs. r = bs @ r2 \<and> (\<forall>s. bindE (f (bs @ s)) (\<lambda>(v, r). g v r) = Inr (w, s)) \<and>
      (\<forall>k < length bs. \<exists>e. bindE (f (take k bs)) (\<lambda>(v, r). g v r) = Inl (io e))"
    using b1(1,2) b2(1,2) by (intro exI [of _ "b1 @ b2"]) auto
qed

text \<open>The next record of a stream: the contract as an interface for clients.\<close>

locale reader =
  fixes io :: "io_error \<Rightarrow> 'e" and f :: "bytes \<Rightarrow> 'e + ('a \<times> bytes)"
  assumes reader_law: "reader_ok io f"
begin

lemma consumed: "f r = Inr (v, r') \<Longrightarrow> \<exists>bs. r = bs @ r' \<and> f bs = Inr (v, [])"
  by (metis append_Nil2 reader_okE [OF reader_law])

lemma extend: "f bs = Inr (v, []) \<Longrightarrow> f (bs @ s) = Inr (v, s)"
  by (metis append_Nil2 reader_okE [OF reader_law])

lemma truncated: "f bs = Inr (v, []) \<Longrightarrow> k < length bs \<Longrightarrow> \<exists>e. f (take k bs) = Inl (io e)"
  by (metis append_Nil2 reader_okE [OF reader_law])

end

end
