(* ===== verification/ValueHash.thy ===== *)
theory ValueHash
  imports Value
begin

text \<open>
  Hashing of values and rows (\<^verbatim>\<open>src/types/value.go\<close>, \<^verbatim>\<open>src/types/product_value.go\<close>).
  \<open>Hash\<close> feeds canonical bytes into a \<open>hash.Hash64\<close>: the model returns the bytes fed.
  \<open>Hash64\<close> folds the same bytes into an FNV-1a sum without building them. A payload longer
  than a \<open>uint32\<close> panics, which is \<open>None\<close>.
\<close>

section \<open>FNV-1a\<close>

definition fnv64aOffset :: u64 where "fnv64aOffset = 14695981039346656037"

definition fnv64aPrime :: u64 where "fnv64aPrime = 1099511628211"

definition fnv64aWriteByte :: "u64 \<Rightarrow> byte \<Rightarrow> u64" where
  "fnv64aWriteByte h b = (h XOR ucast b) * fnv64aPrime"

fun fnv64aWriteBytes :: "u64 \<Rightarrow> bytes \<Rightarrow> u64" where
  "fnv64aWriteBytes h [] = h"
| "fnv64aWriteBytes h (b # bs) = fnv64aWriteBytes (fnv64aWriteByte h b) bs"

text \<open>A Go string is its bytes, indexed one by one.\<close>

fun fnv64aWriteString :: "u64 \<Rightarrow> bytes \<Rightarrow> u64" where
  "fnv64aWriteString h [] = h"
| "fnv64aWriteString h (b # bs) = fnv64aWriteString (fnv64aWriteByte h b) bs"

definition fnv64aWriteUint32BE :: "u64 \<Rightarrow> u32 \<Rightarrow> u64" where
  "fnv64aWriteUint32BE h v =
     (let h = fnv64aWriteByte h (ucast (drop_bit 24 v));
          h = fnv64aWriteByte h (ucast (drop_bit 16 v));
          h = fnv64aWriteByte h (ucast (drop_bit 8 v))
      in fnv64aWriteByte h (ucast v))"

definition fnv64aWriteUint64BE :: "u64 \<Rightarrow> u64 \<Rightarrow> u64" where
  "fnv64aWriteUint64BE h v =
     (let h = fnv64aWriteByte h (ucast (drop_bit 56 v));
          h = fnv64aWriteByte h (ucast (drop_bit 48 v));
          h = fnv64aWriteByte h (ucast (drop_bit 40 v));
          h = fnv64aWriteByte h (ucast (drop_bit 32 v));
          h = fnv64aWriteByte h (ucast (drop_bit 24 v));
          h = fnv64aWriteByte h (ucast (drop_bit 16 v));
          h = fnv64aWriteByte h (ucast (drop_bit 8 v))
      in fnv64aWriteByte h (ucast v))"

section \<open>Canonical payload\<close>

definition checkedPayloadLen :: "nat \<Rightarrow> u32 option" where
  "checkedPayloadLen n = (if n > 4294967295 then None else Some (of_nat n))"

text \<open>The bits hashed for a float: those of a zero are 0 for either sign.\<close>

definition f32_hashBits :: "u32 \<Rightarrow> u32" where
  "f32_hashBits x = (if \<not> f32_eq x 0 then x else 0)"

definition f64_hashBits :: "u64 \<Rightarrow> u64" where
  "f64_hashBits x = (if \<not> f64_eq x 0 then x else 0)"

fun writeStrings :: "bytes list \<Rightarrow> bytes option" where
  "writeStrings [] = Some []"
| "writeStrings (s # xs) = do {
     n \<leftarrow> checkedPayloadLen (length s);
     rest \<leftarrow> writeStrings xs;
     Some (put_be 4 n @ s @ rest)
   }"

definition writePayload :: "go_value \<Rightarrow> bytes option" where
  "writePayload v =
     (if v_isNull v then Some []
      else case v_kind v of
        KindBool \<Rightarrow> Some [if v_b v then 1 else 0]
      | KindInt8 \<Rightarrow> Some (put_be 8 (v_i64 v)) | KindInt16 \<Rightarrow> Some (put_be 8 (v_i64 v))
      | KindInt32 \<Rightarrow> Some (put_be 8 (v_i64 v)) | KindInt64 \<Rightarrow> Some (put_be 8 (v_i64 v))
      | KindUint8 \<Rightarrow> Some (put_be 8 (v_u64 v)) | KindUint16 \<Rightarrow> Some (put_be 8 (v_u64 v))
      | KindUint32 \<Rightarrow> Some (put_be 8 (v_u64 v)) | KindUint64 \<Rightarrow> Some (put_be 8 (v_u64 v))
      | KindFloat32 \<Rightarrow> Some (put_be 4 (f32_hashBits (v_f32 v)))
      | KindFloat64 \<Rightarrow> Some (put_be 8 (f64_hashBits (v_f64 v)))
      | KindString \<Rightarrow> Some (v_str v)
      | KindBytes \<Rightarrow> Some (v_buf v) | KindJSON \<Rightarrow> Some (v_buf v)
      | KindInt128 \<Rightarrow> Some (put_be 8 (v_hi128 v) @ put_be 8 (v_lo128 v))
      | KindUint128 \<Rightarrow> Some (put_be 8 (v_hi128 v) @ put_be 8 (v_lo128 v))
      | KindInt256 \<Rightarrow> (case v_w256 v of (w0, w1, w2, w3) \<Rightarrow>
          Some (put_be 8 w0 @ put_be 8 w1 @ put_be 8 w2 @ put_be 8 w3))
      | KindUint256 \<Rightarrow> (case v_w256 v of (w0, w1, w2, w3) \<Rightarrow>
          Some (put_be 8 w0 @ put_be 8 w1 @ put_be 8 w2 @ put_be 8 w3))
      | KindTimestamp \<Rightarrow> Some (put_be 8 (v_i64 v)) | KindDuration \<Rightarrow> Some (put_be 8 (v_i64 v))
      | KindArrayString \<Rightarrow> do {
          n \<leftarrow> checkedPayloadLen (length (v_strArr v));
          rest \<leftarrow> writeStrings (v_strArr v);
          Some (put_be 4 n @ rest)
        }
      | KindUUID \<Rightarrow> Some (v_uuid v))"

fun hashStrings :: "u64 \<Rightarrow> bytes list \<Rightarrow> u64 option" where
  "hashStrings h [] = Some h"
| "hashStrings h (s # xs) = do {
     n \<leftarrow> checkedPayloadLen (length s);
     hashStrings (fnv64aWriteString (fnv64aWriteUint32BE h n) s) xs
   }"

definition hashPayload64Into :: "go_value \<Rightarrow> u64 \<Rightarrow> u64 option" where
  "hashPayload64Into v h =
     (if v_isNull v then Some h
      else case v_kind v of
        KindBool \<Rightarrow> Some (if v_b v then fnv64aWriteByte h 1 else fnv64aWriteByte h 0)
      | KindInt8 \<Rightarrow> Some (fnv64aWriteUint64BE h (v_i64 v))
      | KindInt16 \<Rightarrow> Some (fnv64aWriteUint64BE h (v_i64 v))
      | KindInt32 \<Rightarrow> Some (fnv64aWriteUint64BE h (v_i64 v))
      | KindInt64 \<Rightarrow> Some (fnv64aWriteUint64BE h (v_i64 v))
      | KindUint8 \<Rightarrow> Some (fnv64aWriteUint64BE h (v_u64 v))
      | KindUint16 \<Rightarrow> Some (fnv64aWriteUint64BE h (v_u64 v))
      | KindUint32 \<Rightarrow> Some (fnv64aWriteUint64BE h (v_u64 v))
      | KindUint64 \<Rightarrow> Some (fnv64aWriteUint64BE h (v_u64 v))
      | KindFloat32 \<Rightarrow> Some (fnv64aWriteUint32BE h (f32_hashBits (v_f32 v)))
      | KindFloat64 \<Rightarrow> Some (fnv64aWriteUint64BE h (f64_hashBits (v_f64 v)))
      | KindString \<Rightarrow> Some (fnv64aWriteString h (v_str v))
      | KindBytes \<Rightarrow> Some (fnv64aWriteBytes h (v_buf v))
      | KindJSON \<Rightarrow> Some (fnv64aWriteBytes h (v_buf v))
      | KindInt128 \<Rightarrow>
          Some (fnv64aWriteUint64BE (fnv64aWriteUint64BE h (v_hi128 v)) (v_lo128 v))
      | KindUint128 \<Rightarrow>
          Some (fnv64aWriteUint64BE (fnv64aWriteUint64BE h (v_hi128 v)) (v_lo128 v))
      | KindInt256 \<Rightarrow> (case v_w256 v of (w0, w1, w2, w3) \<Rightarrow>
          Some (fnv64aWriteUint64BE (fnv64aWriteUint64BE (fnv64aWriteUint64BE
            (fnv64aWriteUint64BE h w0) w1) w2) w3))
      | KindUint256 \<Rightarrow> (case v_w256 v of (w0, w1, w2, w3) \<Rightarrow>
          Some (fnv64aWriteUint64BE (fnv64aWriteUint64BE (fnv64aWriteUint64BE
            (fnv64aWriteUint64BE h w0) w1) w2) w3))
      | KindTimestamp \<Rightarrow> Some (fnv64aWriteUint64BE h (v_i64 v))
      | KindDuration \<Rightarrow> Some (fnv64aWriteUint64BE h (v_i64 v))
      | KindArrayString \<Rightarrow> do {
          n \<leftarrow> checkedPayloadLen (length (v_strArr v));
          hashStrings (fnv64aWriteUint32BE h n) (v_strArr v)
        }
      | KindUUID \<Rightarrow> Some (fnv64aWriteBytes h (v_uuid v)))"

text \<open>The loop of \<open>payloadLen\<close> over a string array; \<open>n\<close> is a \<open>uint64\<close> bounded each turn.\<close>

fun stringsPayloadLen :: "nat \<Rightarrow> bytes list \<Rightarrow> u32 option" where
  "stringsPayloadLen n [] = Some (of_nat n)"
| "stringsPayloadLen n (s # xs) = do {
     itemLen \<leftarrow> checkedPayloadLen (length s);
     let n' = n + 4 + unat itemLen;
     if n' > 4294967295 then None else stringsPayloadLen n' xs
   }"

definition payloadLen :: "go_value \<Rightarrow> u32 option" where
  "payloadLen v =
     (if v_isNull v then Some 0
      else case v_kind v of
        KindBool \<Rightarrow> Some 1
      | KindInt8 \<Rightarrow> Some 8 | KindInt16 \<Rightarrow> Some 8 | KindInt32 \<Rightarrow> Some 8 | KindInt64 \<Rightarrow> Some 8
      | KindUint8 \<Rightarrow> Some 8 | KindUint16 \<Rightarrow> Some 8 | KindUint32 \<Rightarrow> Some 8 | KindUint64 \<Rightarrow> Some 8
      | KindFloat32 \<Rightarrow> Some 4 | KindFloat64 \<Rightarrow> Some 8
      | KindString \<Rightarrow> checkedPayloadLen (length (v_str v))
      | KindBytes \<Rightarrow> checkedPayloadLen (length (v_buf v))
      | KindJSON \<Rightarrow> checkedPayloadLen (length (v_buf v))
      | KindInt128 \<Rightarrow> Some 16 | KindUint128 \<Rightarrow> Some 16
      | KindInt256 \<Rightarrow> Some 32 | KindUint256 \<Rightarrow> Some 32
      | KindTimestamp \<Rightarrow> Some 8 | KindDuration \<Rightarrow> Some 8
      | KindArrayString \<Rightarrow> stringsPayloadLen 4 (v_strArr v)
      | KindUUID \<Rightarrow> Some 16)"

section \<open>Hashing a value and a row\<close>

definition valueHash :: "go_value \<Rightarrow> bytes option" where
  "valueHash v =
     (if v_isNull v then Some [kindByte (v_kind v), 0]
      else do { p \<leftarrow> writePayload v; Some (kindByte (v_kind v) # 1 # p) })"

definition hash64Into :: "go_value \<Rightarrow> u64 \<Rightarrow> u64 option" where
  "hash64Into v h =
     (let h = fnv64aWriteByte h (kindByte (v_kind v)) in
      if v_isNull v then Some (fnv64aWriteByte h 0)
      else hashPayload64Into v (fnv64aWriteByte h 1))"

definition valueHash64 :: "go_value \<Rightarrow> u64 option" where
  "valueHash64 v = hash64Into v fnv64aOffset"

definition productEqual :: "productValue \<Rightarrow> productValue \<Rightarrow> bool" where
  "productEqual pv other = list_all2 EqualValues pv other"

fun productHash :: "productValue \<Rightarrow> bytes option" where
  "productHash [] = Some []"
| "productHash (v # pv) =
     (if v_isNull v then do {
        rest \<leftarrow> productHash pv;
        Some (kindByte (v_kind v) # 0 # put_be 4 (0 :: u32) @ rest)
      } else do {
        n \<leftarrow> payloadLen v;
        p \<leftarrow> writePayload v;
        rest \<leftarrow> productHash pv;
        Some (kindByte (v_kind v) # 1 # put_be 4 n @ p @ rest)
      })"

fun productHash64From :: "u64 \<Rightarrow> productValue \<Rightarrow> u64 option" where
  "productHash64From h [] = Some h"
| "productHash64From h (v # pv) =
     (let h = fnv64aWriteByte h (kindByte (v_kind v)) in
      if v_isNull v then productHash64From (fnv64aWriteUint32BE (fnv64aWriteByte h 0) 0) pv
      else do {
        n \<leftarrow> payloadLen v;
        h \<leftarrow> hashPayload64Into v (fnv64aWriteUint32BE (fnv64aWriteByte h 1) n);
        productHash64From h pv
      })"

definition productHash64 :: "productValue \<Rightarrow> u64 option" where
  "productHash64 pv = productHash64From fnv64aOffset pv"

definition productCopy :: "productValue \<Rightarrow> productValue" where
  "productCopy pv = map Copy pv"

definition CopyProductValues :: "productValue list \<Rightarrow> productValue list" where
  "CopyProductValues rows = map productCopy rows"

section \<open>The streamed hash is FNV-1a of the canonical bytes\<close>

lemma fnv64aWriteBytes_append: "fnv64aWriteBytes h (xs @ ys) = fnv64aWriteBytes (fnv64aWriteBytes h xs) ys"
  by (induction xs arbitrary: h) simp_all

lemma fnv64aWriteString_eq [simp]: "fnv64aWriteString h s = fnv64aWriteBytes h s"
  by (induction s arbitrary: h) simp_all

lemma put_be_4: "put_be 4 (w :: u32) =
    [ucast (drop_bit 24 w), ucast (drop_bit 16 w), ucast (drop_bit 8 w), ucast w]"
  by (simp add: put_be_def put_le_def numeral_eq_Suc)

lemma put_be_8: "put_be 8 (w :: u64) =
    [ucast (drop_bit 56 w), ucast (drop_bit 48 w), ucast (drop_bit 40 w), ucast (drop_bit 32 w),
     ucast (drop_bit 24 w), ucast (drop_bit 16 w), ucast (drop_bit 8 w), ucast w]"
  by (simp add: put_be_def put_le_def numeral_eq_Suc)

lemma fnv64aWriteUint_eq:
  "fnv64aWriteUint32BE h v = fnv64aWriteBytes h (put_be 4 v)"
  "fnv64aWriteUint64BE h w = fnv64aWriteBytes h (put_be 8 w)"
  by (simp_all add: fnv64aWriteUint32BE_def fnv64aWriteUint64BE_def put_be_4 put_be_8 Let_def)

lemmas fnv_stream = fnv64aWriteUint_eq fnv64aWriteBytes_append

lemma hashStrings_eq: "hashStrings h xs = map_option (fnv64aWriteBytes h) (writeStrings xs)"
  by (induction h xs rule: hashStrings.induct)
    (auto simp: fnv_stream Option.map_option_bind split: Option.bind_split)

lemma hashPayload64Into_eq: "hashPayload64Into v h = map_option (fnv64aWriteBytes h) (writePayload v)"
  by (cases "v_kind v"; cases "v_w256 v"; cases "checkedPayloadLen (length (v_strArr v))";
      cases "writeStrings (v_strArr v)";
      simp add: hashPayload64Into_def writePayload_def fnv_stream hashStrings_eq)

lemma productHash64From_eq: "productHash64From h pv = map_option (fnv64aWriteBytes h) (productHash pv)"
proof (induction pv arbitrary: h)
  case Nil
  then show ?case by simp
next
  case (Cons v pv)
  then show ?case
    by (cases "payloadLen v"; cases "writePayload v"; cases "productHash pv";
        simp add: hashPayload64Into_eq fnv_stream)
qed

section \<open>Equal rows hash alike\<close>

lemma sign_magnitude_inj:
  fixes x y :: "'a::len word"
  assumes len: "LENGTH('a) = Suc n"
    and eq: "(if bit x n then - uint (take_bit n x) else uint (take_bit n x)) =
             (if bit y n then - uint (take_bit n y) else uint (take_bit n y))"
    and nz: "take_bit n x \<noteq> 0"
  shows "x = y"
proof -
  define a b where "a = uint (take_bit n x)" and "b = uint (take_bit n y)"
  have pos: "0 \<le> a" "0 \<le> b" "a \<noteq> 0" using nz by (simp_all add: a_def b_def unsigned_eq_0_iff del: unsigned_take_bit_eq)
  have sgn: "bit x n = bit y n" and ab: "a = b"
    using eq [folded a_def b_def] pos by (auto split: if_splits)
  then have mag: "take_bit n x = take_bit n y" by (simp add: a_def b_def word_uint_eq_iff)
  show ?thesis
  proof (rule bit_word_eqI)
    fix i assume "i < LENGTH('a)"
    then consider "i < n" | "i = n" using len by linarith
    then show "bit x i = bit y i"
    proof cases
      case 1
      then show ?thesis using arg_cong [OF mag, of "\<lambda>w. bit w i"] by (simp add: bit_take_bit_iff)
    qed (simp add: sgn)
  qed
qed

lemma f32_eq_bits: "f32_eq x y \<Longrightarrow> f32_hashBits x = f32_hashBits y"
proof -
  assume eq: "f32_eq x y"
  show ?thesis
  proof (cases "take_bit 31 x = 0")
    case True
    then have "f32_eq x 0" "f32_eq y 0"
      using eq by (auto simp: f32_eq_def f32_isNaN_def f32_key_def split: if_splits)
    then show ?thesis by (simp add: f32_hashBits_def)
  next
    case False
    then have "x = y"
      using eq sign_magnitude_inj [of 31 x y] by (simp add: f32_eq_def f32_key_def)
    then show ?thesis by simp
  qed
qed

lemma f64_eq_bits: "f64_eq x y \<Longrightarrow> f64_hashBits x = f64_hashBits y"
proof -
  assume eq: "f64_eq x y"
  show ?thesis
  proof (cases "take_bit 63 x = 0")
    case True
    then have "f64_eq x 0" "f64_eq y 0"
      using eq by (auto simp: f64_eq_def f64_isNaN_def f64_key_def split: if_splits)
    then show ?thesis by (simp add: f64_hashBits_def)
  next
    case False
    then have "x = y"
      using eq sign_magnitude_inj [of 63 x y] by (simp add: f64_eq_def f64_key_def)
    then show ?thesis by simp
  qed
qed

lemma f32_hashBits_inj: "\<not> f32_isNaN x \<Longrightarrow> \<not> f32_isNaN y \<Longrightarrow> f32_hashBits x = f32_hashBits y \<Longrightarrow> f32_eq x y"
  by (auto simp: f32_hashBits_def f32_eq_def split: if_splits)

lemma f64_hashBits_inj: "\<not> f64_isNaN x \<Longrightarrow> \<not> f64_isNaN y \<Longrightarrow> f64_hashBits x = f64_hashBits y \<Longrightarrow> f64_eq x y"
  by (auto simp: f64_hashBits_def f64_eq_def split: if_splits)

lemma EqualValues_payload:
  assumes "EqualValues v w"
  shows "writePayload v = writePayload w" "payloadLen v = payloadLen w"
    "v_isNull v = v_isNull w" "v_kind v = v_kind w"
  using assms f32_eq_bits f64_eq_bits
  by (auto simp: EqualValues_def writePayload_def payloadLen_def split: if_splits value_kind.splits)

lemma productHash_Equal: "productEqual pv pw \<Longrightarrow> productHash pv = productHash pw"
  unfolding productEqual_def
  by (induction pv pw rule: list_all2_induct) (simp_all add: EqualValues_payload cong: if_cong)

section \<open>Canonical bytes determine the row\<close>

lemma checkedPayloadLen_Some: "checkedPayloadLen n = Some w \<longleftrightarrow> n \<le> 4294967295 \<and> unat w = n"
proof -
  have "unat (of_nat n :: u32) = n" if "n \<le> 4294967295"
    using that by (simp add: unat_of_nat)
  then show ?thesis
    by (auto simp: checkedPayloadLen_def word_unat_eq_iff)
qed

lemma writeStrings_inj:
  "writeStrings xs = Some p \<Longrightarrow> writeStrings ys = Some q \<Longrightarrow> length xs = length ys \<Longrightarrow>
   p @ r = q @ r' \<Longrightarrow> xs = ys \<and> r = r'"
proof (induction xs arbitrary: ys p q)
  case Nil
  then show ?case by simp
next
  case (Cons s xs)
  then obtain t ys' where ys: "ys = t # ys'" by (cases ys) auto
  from Cons.prems(1) obtain n p' where n: "checkedPayloadLen (length s) = Some n"
    and p': "writeStrings xs = Some p'" "p = put_be 4 n @ s @ p'"
    by (auto simp: result_simps)
  from Cons.prems(2) ys obtain m q' where m: "checkedPayloadLen (length t) = Some m"
    and q': "writeStrings ys' = Some q'" "q = put_be 4 m @ t @ q'"
    by (auto simp: result_simps)
  have "put_be 4 n = put_be 4 m" and rest: "s @ p' @ r = t @ q' @ r'"
    using Cons.prems(4) p' q' by auto
  then have "n = m" by (auto intro: put_be_inj)
  then have "length s = length t" using n m by (auto simp: checkedPayloadLen_Some)
  with rest have "s = t" "p' @ r = q' @ r'" by auto
  with Cons.IH [OF p'(1) q'(1)] Cons.prems(3) ys show ?case by simp
qed


lemma writePayload_inj:
  assumes "writePayload v = Some p" "writePayload w = Some p"
    and "v_kind v = v_kind w" "\<not> v_isNull v" "\<not> v_isNull w" "nanFree v" "nanFree w"
  shows "EqualValues v w"
proof (cases "v_kind v = KindArrayString")
  case True
  from assms True obtain n q where n: "checkedPayloadLen (length (v_strArr v)) = Some n"
    and q: "writeStrings (v_strArr v) = Some q" "p = put_be 4 n @ q"
    by (auto simp: writePayload_def result_simps)
  from assms True obtain m r where m: "checkedPayloadLen (length (v_strArr w)) = Some m"
    and r: "writeStrings (v_strArr w) = Some r" "p = put_be 4 m @ r"
    by (auto simp: writePayload_def result_simps)
  from q r have "put_be 4 n = put_be 4 m" and qr: "q @ [] = r @ []" by auto
  then have "n = m" by (auto intro: put_be_inj)
  then have "length (v_strArr v) = length (v_strArr w)"
    using n m by (auto simp: checkedPayloadLen_Some)
  then have "v_strArr v = v_strArr w"
    using writeStrings_inj [OF q(1) r(1) _ qr] by simp
  with True assms show ?thesis by (simp add: EqualValues_def)
next
  case False
  note inj = put_be_inj [of 8, where 'a = 64, simplified] put_be_inj [of 4, where 'a = 32, simplified]
  show ?thesis
    using assms False
    by (cases "v_kind v"; cases "v_w256 v"; cases "v_w256 w")
      (auto simp: writePayload_def EqualValues_def nanFree_def split: if_splits
         dest!: inj intro: f32_hashBits_inj f64_hashBits_inj)
qed

lemma stringsPayloadLen_length:
  "stringsPayloadLen n xs = Some m \<Longrightarrow> writeStrings xs = Some p \<Longrightarrow> n \<le> 4294967295 \<Longrightarrow>
   unat m = n + length p"
proof (induction n xs arbitrary: p rule: stringsPayloadLen.induct)
  case (1 n)
  then show ?case by (auto simp: unat_of_nat)
next
  case (2 n s xs)
  then show ?case
    by (auto simp: result_simps checkedPayloadLen_Some Let_def split: if_splits)
qed

lemma payloadLen_length:
  assumes "payloadLen v = Some n" "writePayload v = Some p" "wf_value v" "\<not> v_isNull v"
  shows "length p = unat n"
  using assms
  by (cases "v_kind v"; cases "v_w256 v")
    (auto simp: payloadLen_def writePayload_def wf_value_def checkedPayloadLen_Some result_simps
       dest!: stringsPayloadLen_length)

lemma kindByte_inj: "kindByte j = kindByte k \<longleftrightarrow> j = k"
  by (cases j; cases k; simp)

lemma productHash_inj:
  "productHash pv = Some bs \<Longrightarrow> productHash pw = Some bs \<Longrightarrow>
   list_all wf_value pv \<Longrightarrow> list_all wf_value pw \<Longrightarrow> productEqual pv pw"
proof (induction pv arbitrary: pw bs)
  case Nil
  then show ?case by (cases pw) (auto simp: productEqual_def result_simps split: if_splits)
next
  case (Cons v pv)
  then obtain w pw' where pw: "pw = w # pw'"
    by (cases pw) (auto simp: result_simps split: if_splits)
  have null: "v_isNull v = v_isNull w"
    using Cons.prems(1,2) pw by (auto simp: result_simps split: if_splits)
  have kind: "v_kind v = v_kind w"
    using Cons.prems(1,2) pw by (auto simp: result_simps kindByte_inj split: if_splits)
  show ?case
  proof (cases "v_isNull v")
    case True
    then have "productHash pv = productHash pw'" "\<exists>r. productHash pv = Some r"
      using Cons.prems(1,2) pw null by (auto simp: result_simps)
    then have "productEqual pv pw'" using Cons pw by fastforce
    with True null kind pw show ?thesis by (simp add: productEqual_def EqualValues_def)
  next
    case False
    from Cons.prems(1) False obtain n p r where v: "payloadLen v = Some n"
      "writePayload v = Some p" "productHash pv = Some r" "bs = kindByte (v_kind v) # 1 # put_be 4 n @ p @ r"
      by (auto simp: result_simps)
    from Cons.prems(2) False null pw obtain m q s where w: "payloadLen w = Some m"
      "writePayload w = Some q" "productHash pw' = Some s" "bs = kindByte (v_kind w) # 1 # put_be 4 m @ q @ s"
      by (auto simp: result_simps)
    from v(4) w(4) have "put_be 4 n = put_be 4 m" and pq: "p @ r = q @ s" by auto
    then have "n = m" by (auto intro: put_be_inj)
    then have "length p = length q"
      using payloadLen_length [OF v(1,2)] payloadLen_length [OF w(1,2)] Cons.prems(3,4) False null pw
      by simp
    with pq have "p = q" "r = s" by auto
    then have "EqualValues v w"
      using writePayload_inj [OF v(2)] w(2) kind False null Cons.prems(3,4) pw
      by (simp add: wf_value_nanFree)
    moreover have "productEqual pv pw'" using Cons v(3) w(3) \<open>r = s\<close> pw by simp
    ultimately show ?thesis using pw by (simp add: productEqual_def)
  qed
qed

section \<open>Properties of hashing\<close>

text \<open>
  C30. The streaming row hash \<open>Hash64\<close> is FNV-1a over exactly the bytes \<open>Hash\<close> feeds, for every
  row, and panics on the same rows.
\<close>

theorem hash64_is_fnv1a:
  "productHash64 pv = map_option (fnv64aWriteBytes fnv64aOffset) (productHash pv) \<and>
   valueHash64 v = map_option (fnv64aWriteBytes fnv64aOffset) (valueHash v)"
  by (simp add: productHash64_def productHash64From_eq valueHash64_def hash64Into_def
      valueHash_def hashPayload64Into_eq option.map_comp comp_def Let_def split: bind_split)

text \<open>
  C29. Canonical row bytes. Two rows of well-formed values feed the same bytes into the hash
  exactly when they are equal, so equal rows hash alike and the byte stream is unambiguous.
\<close>

theorem canonical_bytes_iff_equal:
  assumes "list_all wf_value pv" "list_all wf_value pw" "productHash pv = Some bs"
  shows "productHash pw = Some bs \<longleftrightarrow> productEqual pv pw"
  using productHash_inj [OF assms(3) _ assms(1,2)] productHash_Equal [of pv pw] assms(3) by auto

theorem canonical_bytes_iff_equal_witness:
  "productHash [NewBool True, NewNull KindString] = Some [0, 1, 0, 0, 0, 1, 1, 11, 0, 0, 0, 0, 0] \<and>
   productHash [NewBool False, NewNull KindString] \<noteq> Some [0, 1, 0, 0, 0, 1, 1, 11, 0, 0, 0, 0, 0]"
proof -
  have h: "productHash [NewBool True, NewNull KindString] = Some [0, 1, 0, 0, 0, 1, 1, 11, 0, 0, 0, 0, 0]"
    by (simp add: payloadLen_def writePayload_def constructor_defs put_be_4)
  have ne: "\<not> productEqual [NewBool True, NewNull KindString] [NewBool False, NewNull KindString]"
    by (simp add: productEqual_def EqualValues_def constructor_defs)
  show ?thesis
    using canonical_bytes_iff_equal [OF _ _ h, of "[NewBool False, NewNull KindString]"] h ne by simp
qed

end
