(* ===== verification/SchemaTypes.thy ===== *)
theory SchemaTypes
  imports ValueHash
begin

text \<open>
  Table schemas (\<^verbatim>\<open>src/schema/types.go\<close>), the export names and auto-increment bounds of kinds
  (\<^verbatim>\<open>src/schema/valuekind_export.go\<close>) and the reading of an auto-increment column
  (\<^verbatim>\<open>src/internal/autoincrement/value.go\<close>). Column positions are natural numbers. Read
  policies and SDK metadata are carried by the source struct but used by none of the
  operations modelled here, and are left out.
\<close>

section \<open>Schema records\<close>

type_synonym tableID = u32
type_synonym indexID = u32

record columnSchema =
  c_index :: nat
  c_name :: string
  c_type :: value_kind
  c_nullable :: bool
  c_autoIncrement :: bool

record indexSchema =
  ix_id :: indexID
  ix_name :: string
  ix_columns :: "nat list"
  ix_unique :: bool
  ix_primary :: bool

record tableSchema =
  ts_id :: tableID
  ts_name :: string
  ts_isEvent :: bool
  ts_columns :: "columnSchema list"
  ts_indexes :: "indexSchema list"

definition NewIndexSchema :: "indexID \<Rightarrow> string \<Rightarrow> nat list \<Rightarrow> bool \<Rightarrow> bool \<Rightarrow> indexSchema" where
  "NewIndexSchema iid name columns unique primary =
     (let unique = (if primary then True else unique)
      in \<lparr>ix_id = iid, ix_name = name, ix_columns = columns, ix_unique = unique,
          ix_primary = primary\<rparr>)"

definition PrimaryIndex :: "tableSchema \<Rightarrow> indexSchema option" where
  "PrimaryIndex ts = List.find ix_primary (ts_indexes ts)"

section \<open>Kinds in exported schemas\<close>

primrec ValueKindExportString :: "value_kind \<Rightarrow> string" where
  "ValueKindExportString KindBool = ''bool''"
| "ValueKindExportString KindInt8 = ''int8''"
| "ValueKindExportString KindUint8 = ''uint8''"
| "ValueKindExportString KindInt16 = ''int16''"
| "ValueKindExportString KindUint16 = ''uint16''"
| "ValueKindExportString KindInt32 = ''int32''"
| "ValueKindExportString KindUint32 = ''uint32''"
| "ValueKindExportString KindInt64 = ''int64''"
| "ValueKindExportString KindUint64 = ''uint64''"
| "ValueKindExportString KindFloat32 = ''float32''"
| "ValueKindExportString KindFloat64 = ''float64''"
| "ValueKindExportString KindString = ''string''"
| "ValueKindExportString KindBytes = ''bytes''"
| "ValueKindExportString KindInt128 = ''int128''"
| "ValueKindExportString KindUint128 = ''uint128''"
| "ValueKindExportString KindInt256 = ''int256''"
| "ValueKindExportString KindUint256 = ''uint256''"
| "ValueKindExportString KindTimestamp = ''timestamp''"
| "ValueKindExportString KindArrayString = ''arrayString''"
| "ValueKindExportString KindUUID = ''uuid''"
| "ValueKindExportString KindDuration = ''duration''"
| "ValueKindExportString KindJSON = ''json''"

definition allKinds :: "value_kind list" where
  "allKinds = [KindBool, KindInt8, KindUint8, KindInt16, KindUint16, KindInt32, KindUint32,
     KindInt64, KindUint64, KindFloat32, KindFloat64, KindString, KindBytes, KindInt128,
     KindUint128, KindInt256, KindUint256, KindTimestamp, KindArrayString, KindUUID,
     KindDuration, KindJSON]"

text \<open>The reverse table, built by ranging over the export strings.\<close>

definition exportKinds :: "string \<rightharpoonup> value_kind" where
  "exportKinds = foldl (\<lambda>out kind. let text = ValueKindExportString kind in
     if text \<noteq> '''' then out(text \<mapsto> kind) else out) Map.empty allKinds"

definition ParseValueKindExportString :: "string \<Rightarrow> value_kind option" where
  "ParseValueKindExportString s = exportKinds s"

definition autoIncrBounds :: "value_kind \<Rightarrow> (int \<times> u64) option" where
  "autoIncrBounds k = (case k of
       KindInt8 \<Rightarrow> Some (-128, 127) | KindUint8 \<Rightarrow> Some (0, 255)
     | KindInt16 \<Rightarrow> Some (-32768, 32767) | KindUint16 \<Rightarrow> Some (0, 65535)
     | KindInt32 \<Rightarrow> Some (-2147483648, 2147483647) | KindUint32 \<Rightarrow> Some (0, 4294967295)
     | KindInt64 \<Rightarrow> Some (-9223372036854775808, 9223372036854775807)
     | KindUint64 \<Rightarrow> Some (0, 18446744073709551615)
     | _ \<Rightarrow> None)"

definition AutoIncrementBounds :: "value_kind \<Rightarrow> (int \<times> u64) option" where
  "AutoIncrementBounds k = (case autoIncrBounds k of None \<Rightarrow> None | Some b \<Rightarrow> Some (fst b, snd b))"

section \<open>Auto-increment values\<close>

definition signedValueAsUint64 :: "u64 \<Rightarrow> u64 option" where
  "signedValueAsUint64 n = (if sint n < 0 then None else Some n)"

text \<open>The outer option is a panic of an accessor, the inner one the \<open>ok\<close> result.\<close>

definition ValueAsUint64 :: "go_value \<Rightarrow> value_kind \<Rightarrow> u64 option option" where
  "ValueAsUint64 v kind =
     (if v_isNull v then Some None
      else case kind of
        KindInt8 \<Rightarrow> do { x \<leftarrow> AsInt8 v; Some (signedValueAsUint64 (scast x)) }
      | KindInt16 \<Rightarrow> do { x \<leftarrow> AsInt16 v; Some (signedValueAsUint64 (scast x)) }
      | KindInt32 \<Rightarrow> do { x \<leftarrow> AsInt32 v; Some (signedValueAsUint64 (scast x)) }
      | KindInt64 \<Rightarrow> do { x \<leftarrow> AsInt64 v; Some (signedValueAsUint64 x) }
      | KindUint8 \<Rightarrow> do { x \<leftarrow> AsUint8 v; Some (Some (ucast x)) }
      | KindUint16 \<Rightarrow> do { x \<leftarrow> AsUint16 v; Some (Some (ucast x)) }
      | KindUint32 \<Rightarrow> do { x \<leftarrow> AsUint32 v; Some (Some (ucast x)) }
      | KindUint64 \<Rightarrow> do { x \<leftarrow> AsUint64 v; Some (Some x) }
      | _ \<Rightarrow> Some None)"

section \<open>Lemmas\<close>

lemma ix_NewIndexSchema [simp]:
  "ix_columns (NewIndexSchema i n cs u p) = cs" "ix_id (NewIndexSchema i n cs u p) = i"
  "ix_primary (NewIndexSchema i n cs u p) = p" "ix_unique (NewIndexSchema i n cs u p) = (p \<or> u)"
  by (simp_all add: NewIndexSchema_def Let_def)

lemma Parse_ValueKindExportString:
  "ParseValueKindExportString (ValueKindExportString k) = Some k"
  by (cases k) (simp_all add: ParseValueKindExportString_def exportKinds_def allKinds_def Let_def)

lemma exportKinds_sound: "exportKinds s = Some k \<Longrightarrow> ValueKindExportString k = s"
  by (simp add: exportKinds_def allKinds_def Let_def split: if_splits)

text \<open>
  A value of an auto-increment column is read as its numeric value when that is not negative.
\<close>

definition intValue :: "go_value \<Rightarrow> int" where
  "intValue v = (if v_kind v \<in> {KindInt8, KindInt16, KindInt32, KindInt64}
     then sint (v_i64 v) else uint (v_u64 v))"

lemma narrow_slots [simp]:
  "v_i64 (NewInt8 i8) = scast i8" "v_i64 (NewInt16 i16) = scast i16"
  "v_i64 (NewInt32 i32) = scast i32" "v_u64 (NewUint8 n8) = ucast n8"
  "v_u64 (NewUint16 n16) = ucast n16" "v_u64 (NewUint32 n32) = ucast n32"
  by (simp_all add: constructor_defs)

lemma wf_narrow_slots:
  assumes "wf_value v" "\<not> v_isNull v"
  shows "v_kind v = KindInt8 \<Longrightarrow> scast (ucast (v_i64 v) :: byte) = v_i64 v"
    "v_kind v = KindInt16 \<Longrightarrow> scast (ucast (v_i64 v) :: u16) = v_i64 v"
    "v_kind v = KindInt32 \<Longrightarrow> scast (ucast (v_i64 v) :: u32) = v_i64 v"
    "v_kind v = KindUint8 \<Longrightarrow> ucast (ucast (v_u64 v) :: byte) = v_u64 v"
    "v_kind v = KindUint16 \<Longrightarrow> ucast (ucast (v_u64 v) :: u16) = v_u64 v"
    "v_kind v = KindUint32 \<Longrightarrow> ucast (ucast (v_u64 v) :: u32) = v_u64 v"
proof -
  note wf = assms(1) [unfolded wf_value_def]
  show "v_kind v = KindInt8 \<Longrightarrow> scast (ucast (v_i64 v) :: byte) = v_i64 v"
    using wf assms(2) by (simp only: if_False value_kind.case) (metis narrow_slots(1))
  show "v_kind v = KindInt16 \<Longrightarrow> scast (ucast (v_i64 v) :: u16) = v_i64 v"
    using wf assms(2) by (simp only: if_False value_kind.case) (metis narrow_slots(2))
  show "v_kind v = KindInt32 \<Longrightarrow> scast (ucast (v_i64 v) :: u32) = v_i64 v"
    using wf assms(2) by (simp only: if_False value_kind.case) (metis narrow_slots(3))
  show "v_kind v = KindUint8 \<Longrightarrow> ucast (ucast (v_u64 v) :: byte) = v_u64 v"
    using wf assms(2) by (simp only: if_False value_kind.case) (metis narrow_slots(4))
  show "v_kind v = KindUint16 \<Longrightarrow> ucast (ucast (v_u64 v) :: u16) = v_u64 v"
    using wf assms(2) by (simp only: if_False value_kind.case) (metis narrow_slots(5))
  show "v_kind v = KindUint32 \<Longrightarrow> ucast (ucast (v_u64 v) :: u32) = v_u64 v"
    using wf assms(2) by (simp only: if_False value_kind.case) (metis narrow_slots(6))
qed

lemma ValueAsUint64_intValue:
  assumes "wf_value v" "v_kind v = kind" "AutoIncrementBounds kind = Some b" "\<not> v_isNull v"
  shows "ValueAsUint64 v kind = Some (if intValue v < 0 then None else Some (of_int (intValue v)))"
  using assms wf_narrow_slots [OF assms(1,4)]
  by (cases kind) (simp_all add: AutoIncrementBounds_def autoIncrBounds_def ValueAsUint64_def
      accessor_defs signedValueAsUint64_def intValue_def)

text \<open>
  Exported kind names. A name parses to a kind exactly when it is the name that kind is
  exported under; the names of different kinds differ.
\<close>

theorem export_kind_names:
  "ParseValueKindExportString s = Some k \<longleftrightarrow> s = ValueKindExportString k"
  using Parse_ValueKindExportString exportKinds_sound by (auto simp: ParseValueKindExportString_def)

end
