(* ===== verification/Bsatn.thy ===== *)
theory Bsatn
  imports Decoders SchemaTypes
begin

text \<open>
  The row codec (\<^verbatim>\<open>src/bsatn/encode.go\<close>, \<^verbatim>\<open>src/bsatn/decode.go\<close>, \<^verbatim>\<open>src/bsatn/limits.go\<close>).
  A value is a tag byte and a little endian payload; a nullable column carries a presence
  byte after its tag. An append function returns the extended buffer or the error; the reader
  of a decoder is the byte string left. In every branch of an append function the kind has
  just been tested and the value is not null, so the accessor there returns its slot.
  A \<open>nil\<close> reader, a \<open>nil\<close> writer and the text of error messages are not modelled.
\<close>

section \<open>Errors and limits\<close>

datatype bsatn_error =
    RowShapeMismatch string nat nat
  | BValue value_error
  | ErrInvalidBool
  | ErrInvalidPresence
  | ErrNullWithoutSchema
  | ErrValueTooLarge
  | UnknownValueTag byte
  | TypeTagMismatch string value_kind byte
  | ErrTableSchemaRequired
  | BIO io_error

definition maxValuePayloadBytes :: nat where "maxValuePayloadBytes = 64 * 2 ^ 20"

definition maxArrayStringItems :: nat where "maxArrayStringItems = 2 ^ 20"

definition liftV :: "value_error + 'a \<Rightarrow> bsatn_error + 'a" where
  "liftV m = map_sum BValue id m"

section \<open>Encoding\<close>

definition checkedValuePayloadLen :: "nat \<Rightarrow> bsatn_error + u32" where
  "checkedValuePayloadLen n =
     (if n > maxValuePayloadBytes then Inl ErrValueTooLarge else Inr (of_nat n))"

definition checkedArrayStringCount :: "nat \<Rightarrow> bsatn_error + u32" where
  "checkedArrayStringCount n =
     (if n > maxArrayStringItems then Inl ErrValueTooLarge else Inr (of_nat n))"

text \<open>The loop of \<open>validateArrayStringPayloadSize\<close>; \<open>used\<close> never passes the maximum.\<close>

fun arrayStringPayloadFrom :: "nat \<Rightarrow> bytes list \<Rightarrow> bsatn_error + unit" where
  "arrayStringPayloadFrom used [] = Inr ()"
| "arrayStringPayloadFrom used (s # xs) =
     (let itemLen = length s in
      if used > maxValuePayloadBytes - 4 \<or> itemLen > maxValuePayloadBytes - used - 4
      then Inl ErrValueTooLarge
      else arrayStringPayloadFrom (used + (4 + itemLen)) xs)"

definition validateArrayStringPayloadSize :: "bytes list \<Rightarrow> bsatn_error + unit" where
  "validateArrayStringPayloadSize xs = arrayStringPayloadFrom 4 xs"

fun appendStrings :: "bytes \<Rightarrow> bytes list \<Rightarrow> bytes" where
  "appendStrings dst [] = dst"
| "appendStrings dst (s # xs) = appendStrings (dst @ put_le 4 (of_nat (length s) :: u32) @ s) xs"

definition appendLengthPrefixed :: "bytes \<Rightarrow> bytes \<Rightarrow> bsatn_error + bytes" where
  "appendLengthPrefixed dst b =
     bindE (checkedValuePayloadLen (length b)) (\<lambda>n. Inr (dst @ put_le 4 n @ b))"

definition AppendValue :: "bytes \<Rightarrow> go_value \<Rightarrow> bsatn_error + bytes" where
  "AppendValue dst v =
     (if v_isNull v then Inl ErrNullWithoutSchema
      else (let dst = dst @ [kindByte (v_kind v)] in
        case v_kind v of
          KindBool \<Rightarrow> Inr (dst @ [if v_b v then 1 else 0])
        | KindInt8 \<Rightarrow> Inr (dst @ [ucast (v_i64 v)])
        | KindUint8 \<Rightarrow> Inr (dst @ [ucast (v_u64 v)])
        | KindInt16 \<Rightarrow> Inr (dst @ put_le 2 (ucast (v_i64 v) :: u16))
        | KindUint16 \<Rightarrow> Inr (dst @ put_le 2 (ucast (v_u64 v) :: u16))
        | KindInt32 \<Rightarrow> Inr (dst @ put_le 4 (ucast (v_i64 v) :: u32))
        | KindUint32 \<Rightarrow> Inr (dst @ put_le 4 (ucast (v_u64 v) :: u32))
        | KindInt64 \<Rightarrow> Inr (dst @ put_le 8 (v_i64 v))
        | KindUint64 \<Rightarrow> Inr (dst @ put_le 8 (v_u64 v))
        | KindFloat32 \<Rightarrow> Inr (dst @ put_le 4 (v_f32 v))
        | KindFloat64 \<Rightarrow> Inr (dst @ put_le 8 (v_f64 v))
        | KindString \<Rightarrow>
            bindE (liftV (ValidateUTF8String (v_str v))) (\<lambda>_. appendLengthPrefixed dst (v_str v))
        | KindBytes \<Rightarrow> appendLengthPrefixed dst (v_buf v)
        | KindInt128 \<Rightarrow> Inr (dst @ put_le 8 (v_lo128 v) @ put_le 8 (v_hi128 v))
        | KindUint128 \<Rightarrow> Inr (dst @ put_le 8 (v_lo128 v) @ put_le 8 (v_hi128 v))
        | KindInt256 \<Rightarrow> (case v_w256 v of (w0, w1, w2, w3) \<Rightarrow>
            Inr (dst @ put_le 8 w3 @ put_le 8 w2 @ put_le 8 w1 @ put_le 8 w0))
        | KindUint256 \<Rightarrow> (case v_w256 v of (w0, w1, w2, w3) \<Rightarrow>
            Inr (dst @ put_le 8 w3 @ put_le 8 w2 @ put_le 8 w1 @ put_le 8 w0))
        | KindTimestamp \<Rightarrow> Inr (dst @ put_le 8 (v_i64 v))
        | KindDuration \<Rightarrow> Inr (dst @ put_le 8 (v_i64 v))
        | KindArrayString \<Rightarrow>
            bindE (checkedArrayStringCount (length (v_strArr v))) (\<lambda>count.
            bindE (liftV (ValidateUTF8StringArray (v_strArr v))) (\<lambda>_.
            bindE (validateArrayStringPayloadSize (v_strArr v)) (\<lambda>_.
            Inr (appendStrings (dst @ put_le 4 count) (v_strArr v)))))
        | KindUUID \<Rightarrow> Inr (dst @ v_uuid v)
        | KindJSON \<Rightarrow> appendLengthPrefixed dst (v_buf v)))"

text \<open>
  \<open>io.Writer\<close>: a state and a write function that returns the bytes written and maybe
  an error. \<open>writeAll\<close> also reports a short write.
\<close>

datatype 'e write_error = WriteError 'e | ErrShortWrite | EncodeError bsatn_error

type_synonym ('w, 'e) writer = "'w \<Rightarrow> bytes \<Rightarrow> 'w \<times> nat \<times> 'e option"

definition writeAll :: "('w, 'e) writer \<Rightarrow> 'w \<Rightarrow> bytes \<Rightarrow> 'w \<times> 'e write_error option" where
  "writeAll write w p =
     (if p = [] then (w, None)
      else case write w p of
        (w', n, Some e) \<Rightarrow> (w', Some (WriteError e))
      | (w', n, None) \<Rightarrow> if n \<noteq> length p then (w', Some ErrShortWrite) else (w', None))"

definition writeEncoded ::
  "('w, 'e) writer \<Rightarrow> 'w \<Rightarrow> bsatn_error + bytes \<Rightarrow> 'w \<times> 'e write_error option" where
  "writeEncoded write w encoded =
     (case encoded of Inl e \<Rightarrow> (w, Some (EncodeError e)) | Inr p \<Rightarrow> writeAll write w p)"

definition EncodeValue :: "('w, 'e) writer \<Rightarrow> 'w \<Rightarrow> go_value \<Rightarrow> 'w \<times> 'e write_error option" where
  "EncodeValue write w v = writeEncoded write w (AppendValue [] v)"

definition EncodedValueSize :: "go_value \<Rightarrow> nat" where
  "EncodedValueSize v =
     (if v_isNull v then 0
      else case v_kind v of
        KindBool \<Rightarrow> 2 | KindInt8 \<Rightarrow> 2 | KindUint8 \<Rightarrow> 2
      | KindInt16 \<Rightarrow> 3 | KindUint16 \<Rightarrow> 3
      | KindInt32 \<Rightarrow> 5 | KindUint32 \<Rightarrow> 5 | KindFloat32 \<Rightarrow> 5
      | KindInt64 \<Rightarrow> 9 | KindUint64 \<Rightarrow> 9 | KindFloat64 \<Rightarrow> 9
      | KindString \<Rightarrow> 1 + 4 + length (v_str v)
      | KindBytes \<Rightarrow> 1 + 4 + length (v_buf v)
      | KindInt128 \<Rightarrow> 17 | KindUint128 \<Rightarrow> 17
      | KindInt256 \<Rightarrow> 33 | KindUint256 \<Rightarrow> 33
      | KindTimestamp \<Rightarrow> 9 | KindDuration \<Rightarrow> 9
      | KindArrayString \<Rightarrow> foldl (\<lambda>n s. n + (4 + length s)) (1 + 4) (v_strArr v)
      | KindUUID \<Rightarrow> 17
      | KindJSON \<Rightarrow> 1 + 4 + length (v_buf v))"

fun AppendProductValue :: "bytes \<Rightarrow> productValue \<Rightarrow> bsatn_error + bytes" where
  "AppendProductValue dst [] = Inr dst"
| "AppendProductValue dst (v # pv) =
     bindE (AppendValue dst v) (\<lambda>dst. AppendProductValue dst pv)"

definition appendColumnValue :: "bytes \<Rightarrow> go_value \<Rightarrow> columnSchema \<Rightarrow> bsatn_error + bytes" where
  "appendColumnValue dst v col =
     (if v_kind v \<noteq> c_type col
      then Inl (TypeTagMismatch (c_name col) (c_type col) (kindByte (v_kind v)))
      else if \<not> c_nullable col then
        (if v_isNull v then Inl ErrNullWithoutSchema else AppendValue dst v)
      else (let dst = dst @ [kindByte (c_type col)] in
        if v_isNull v then Inr (dst @ [0])
        else (let before = length dst in
          bindE (AppendValue dst v) (\<lambda>dst. Inr (dst[before := 1])))))"

fun appendColumns :: "bytes \<Rightarrow> productValue \<Rightarrow> columnSchema list \<Rightarrow> bsatn_error + bytes" where
  "appendColumns dst (v # pv) (col # columns) =
     bindE (appendColumnValue dst v col) (\<lambda>dst. appendColumns dst pv columns)"
| "appendColumns dst _ _ = Inr dst"

definition AppendProductValueForColumns ::
  "bytes \<Rightarrow> productValue \<Rightarrow> columnSchema list \<Rightarrow> bsatn_error + bytes" where
  "AppendProductValueForColumns dst pv columns =
     (if length pv \<noteq> length columns
      then Inl (RowShapeMismatch '''' (length columns) (length pv))
      else appendColumns dst pv columns)"

definition AppendProductValueForSchema ::
  "bytes \<Rightarrow> productValue \<Rightarrow> tableSchema option \<Rightarrow> bsatn_error + bytes" where
  "AppendProductValueForSchema dst pv ts =
     (case ts of None \<Rightarrow> AppendProductValue dst pv
      | Some ts \<Rightarrow> AppendProductValueForColumns dst pv (ts_columns ts))"

definition EncodeProductValue ::
  "('w, 'e) writer \<Rightarrow> 'w \<Rightarrow> productValue \<Rightarrow> 'w \<times> 'e write_error option" where
  "EncodeProductValue write w pv = writeEncoded write w (AppendProductValue [] pv)"

definition EncodeProductValueForSchema ::
  "('w, 'e) writer \<Rightarrow> 'w \<Rightarrow> productValue \<Rightarrow> tableSchema option \<Rightarrow> 'w \<times> 'e write_error option" where
  "EncodeProductValueForSchema write w pv ts =
     writeEncoded write w (AppendProductValueForSchema [] pv ts)"

definition EncodeProductValueForColumns ::
  "('w, 'e) writer \<Rightarrow> 'w \<Rightarrow> productValue \<Rightarrow> columnSchema list \<Rightarrow> 'w \<times> 'e write_error option" where
  "EncodeProductValueForColumns write w pv columns =
     writeEncoded write w (AppendProductValueForColumns [] pv columns)"

definition EncodedProductValueSize :: "productValue \<Rightarrow> nat" where
  "EncodedProductValueSize pv = foldl (\<lambda>n v. n + EncodedValueSize v) 0 pv"

fun sizeColumns :: "nat \<Rightarrow> productValue \<Rightarrow> columnSchema list \<Rightarrow> bsatn_error + nat" where
  "sizeColumns n (v # pv) (col # columns) =
     (if v_kind v \<noteq> c_type col
      then Inl (TypeTagMismatch (c_name col) (c_type col) (kindByte (v_kind v)))
      else if c_nullable col then
        sizeColumns (if v_isNull v then n + 2 else n + (EncodedValueSize v + 1)) pv columns
      else if v_isNull v then Inl ErrNullWithoutSchema
      else sizeColumns (n + EncodedValueSize v) pv columns)"
| "sizeColumns n _ _ = Inr n"

definition EncodedProductValueSizeForColumns ::
  "productValue \<Rightarrow> columnSchema list \<Rightarrow> bsatn_error + nat" where
  "EncodedProductValueSizeForColumns pv columns =
     (if length pv \<noteq> length columns
      then Inl (RowShapeMismatch '''' (length columns) (length pv))
      else sizeColumns 0 pv columns)"

definition EncodedProductValueSizeForSchema ::
  "productValue \<Rightarrow> tableSchema option \<Rightarrow> bsatn_error + nat" where
  "EncodedProductValueSizeForSchema pv ts =
     (case ts of None \<Rightarrow> Inr (EncodedProductValueSize pv)
      | Some ts \<Rightarrow> EncodedProductValueSizeForColumns pv (ts_columns ts))"

section \<open>Decoding\<close>

text \<open>The tag constants, as the kind a tag stands for.\<close>

definition kindOfTag :: "byte \<Rightarrow> value_kind option" where
  "kindOfTag tag =
     (if tag = 0 then Some KindBool else if tag = 1 then Some KindInt8
      else if tag = 2 then Some KindUint8 else if tag = 3 then Some KindInt16
      else if tag = 4 then Some KindUint16 else if tag = 5 then Some KindInt32
      else if tag = 6 then Some KindUint32 else if tag = 7 then Some KindInt64
      else if tag = 8 then Some KindUint64 else if tag = 9 then Some KindFloat32
      else if tag = 10 then Some KindFloat64 else if tag = 11 then Some KindString
      else if tag = 12 then Some KindBytes else if tag = 13 then Some KindInt128
      else if tag = 14 then Some KindUint128 else if tag = 15 then Some KindInt256
      else if tag = 16 then Some KindUint256 else if tag = 17 then Some KindTimestamp
      else if tag = 18 then Some KindArrayString else if tag = 19 then Some KindUUID
      else if tag = 20 then Some KindDuration else if tag = 21 then Some KindJSON
      else None)"

definition decodeBoolByte :: "byte \<Rightarrow> bsatn_error + go_value" where
  "decodeBoolByte b =
     (if b = 0 then Inr (NewBool False) else if b = 1 then Inr (NewBool True)
      else Inl ErrInvalidBool)"

text \<open>A payload of length \<open>n\<close>; the end of input inside it is unexpected.\<close>

definition readLengthPrefixedPayload :: "u32 \<Rightarrow> bytes \<Rightarrow> bsatn_error + (bytes \<times> bytes)" where
  "readLengthPrefixedPayload n r =
     (if n = 0 then Inr ([], r)
      else if unat n > maxValuePayloadBytes then Inl ErrValueTooLarge
      else case readFull (unat n) r of
        Inl EOF \<Rightarrow> Inl (BIO UnexpectedEOF)
      | Inl e \<Rightarrow> Inl (BIO e)
      | Inr p \<Rightarrow> Inr p)"

text \<open>The item loop of an array of strings.\<close>

fun decodeStrings :: "nat \<Rightarrow> nat \<Rightarrow> bytes \<Rightarrow> bsatn_error + (bytes list \<times> bytes)" where
  "decodeStrings 0 remaining r = Inr ([], r)"
| "decodeStrings (Suc count) remaining r =
     (if remaining < 4 then Inl ErrValueTooLarge
      else bindE (readN BIO 4 r) (\<lambda>(buf, r).
        (let remaining = remaining - 4; n = get_le buf :: u32 in
         if unat n > remaining then Inl ErrValueTooLarge
         else bindE (readLengthPrefixedPayload n r) (\<lambda>(data, r).
           if \<not> utf8_valid data then Inl (BValue ErrInvalidUTF8)
           else bindE (decodeStrings count (remaining - unat n) r) (\<lambda>(xs, r).
             Inr (data # xs, r))))))"

definition decodeArrayString :: "bytes \<Rightarrow> bsatn_error + (go_value \<times> bytes)" where
  "decodeArrayString r =
     bindE (readN BIO 4 r) (\<lambda>(buf, r).
       (let count = get_le buf :: u32 in
        if unat count > maxArrayStringItems then Inl ErrValueTooLarge
        else bindE (decodeStrings (unat count) (maxValuePayloadBytes - 4) r) (\<lambda>(xs, r).
          Inr (NewArrayString xs, r))))"

definition readFixed ::
  "nat \<Rightarrow> (bytes \<Rightarrow> bsatn_error + go_value) \<Rightarrow> bytes \<Rightarrow> bsatn_error + (go_value \<times> bytes)" where
  "readFixed n f r = bindE (readN BIO n r) (\<lambda>(buf, r). bindE (f buf) (\<lambda>v. Inr (v, r)))"

definition readPrefixed ::
  "(bytes \<Rightarrow> bsatn_error + go_value) \<Rightarrow> bytes \<Rightarrow> bsatn_error + (go_value \<times> bytes)" where
  "readPrefixed f r =
     bindE (readN BIO 4 r) (\<lambda>(buf, r).
     bindE (readLengthPrefixedPayload (get_le buf) r) (\<lambda>(data, r).
     bindE (f data) (\<lambda>v. Inr (v, r))))"

definition decodePayload :: "byte \<Rightarrow> bytes \<Rightarrow> bsatn_error + (go_value \<times> bytes)" where
  "decodePayload tag r =
     (case kindOfTag tag of
        None \<Rightarrow> Inl (UnknownValueTag tag)
      | Some k \<Rightarrow> (case k of
          KindBool \<Rightarrow> readFixed 1 (\<lambda>buf. decodeBoolByte (get_le buf)) r
        | KindInt8 \<Rightarrow> readFixed 1 (\<lambda>buf. Inr (NewInt8 (get_le buf))) r
        | KindUint8 \<Rightarrow> readFixed 1 (\<lambda>buf. Inr (NewUint8 (get_le buf))) r
        | KindInt16 \<Rightarrow> readFixed 2 (\<lambda>buf. Inr (NewInt16 (get_le buf))) r
        | KindUint16 \<Rightarrow> readFixed 2 (\<lambda>buf. Inr (NewUint16 (get_le buf))) r
        | KindInt32 \<Rightarrow> readFixed 4 (\<lambda>buf. Inr (NewInt32 (get_le buf))) r
        | KindUint32 \<Rightarrow> readFixed 4 (\<lambda>buf. Inr (NewUint32 (get_le buf))) r
        | KindInt64 \<Rightarrow> readFixed 8 (\<lambda>buf. Inr (NewInt64 (get_le buf))) r
        | KindUint64 \<Rightarrow> readFixed 8 (\<lambda>buf. Inr (NewUint64 (get_le buf))) r
        | KindFloat32 \<Rightarrow> readFixed 4 (\<lambda>buf. liftV (NewFloat32 (get_le buf))) r
        | KindFloat64 \<Rightarrow> readFixed 8 (\<lambda>buf. liftV (NewFloat64 (get_le buf))) r
        | KindString \<Rightarrow> readPrefixed (\<lambda>data.
            if \<not> utf8_valid data then Inl (BValue ErrInvalidUTF8) else Inr (NewString data)) r
        | KindBytes \<Rightarrow> readPrefixed (\<lambda>data. Inr (NewBytes data)) r
        | KindInt128 \<Rightarrow> readFixed 16 (\<lambda>wide.
            Inr (NewInt128 (get_le (drop 8 wide)) (get_le (take 8 wide)))) r
        | KindUint128 \<Rightarrow> readFixed 16 (\<lambda>wide.
            Inr (NewUint128 (get_le (drop 8 wide)) (get_le (take 8 wide)))) r
        | KindInt256 \<Rightarrow> readFixed 32 (\<lambda>wide.
            Inr (NewInt256 (get_le (drop 24 wide)) (get_le (take 8 (drop 16 wide)))
              (get_le (take 8 (drop 8 wide))) (get_le (take 8 wide)))) r
        | KindUint256 \<Rightarrow> readFixed 32 (\<lambda>wide.
            Inr (NewUint256 (get_le (drop 24 wide)) (get_le (take 8 (drop 16 wide)))
              (get_le (take 8 (drop 8 wide))) (get_le (take 8 wide)))) r
        | KindTimestamp \<Rightarrow> readFixed 8 (\<lambda>buf. Inr (NewTimestamp (get_le buf))) r
        | KindDuration \<Rightarrow> readFixed 8 (\<lambda>buf. Inr (NewDuration (get_le buf))) r
        | KindArrayString \<Rightarrow> decodeArrayString r
        | KindUUID \<Rightarrow> readFixed 16 (\<lambda>u. Inr (NewUUID u)) r
        | KindJSON \<Rightarrow> readPrefixed (\<lambda>data. liftV (NewJSON data)) r))"

definition readValueTag :: "bytes \<Rightarrow> bsatn_error + (byte \<times> bytes)" where
  "readValueTag r = bindE (readN BIO 1 r) (\<lambda>(tag, r). Inr (hd tag, r))"

definition DecodeValue :: "bytes \<Rightarrow> bsatn_error + (go_value \<times> bytes)" where
  "DecodeValue r = bindE (readValueTag r) (\<lambda>(tag, r). decodePayload tag r)"

definition DecodeValueExpecting ::
  "value_kind \<Rightarrow> string \<Rightarrow> bytes \<Rightarrow> bsatn_error + (go_value \<times> bytes)" where
  "DecodeValueExpecting expected colName r =
     bindE (readValueTag r) (\<lambda>(tag, r).
       if tag \<noteq> kindByte expected then Inl (TypeTagMismatch colName expected tag)
       else decodePayload tag r)"

definition decodeColumnValue :: "columnSchema \<Rightarrow> bytes \<Rightarrow> bsatn_error + (go_value \<times> bytes)" where
  "decodeColumnValue col r =
     bindE (readN BIO 1 r) (\<lambda>(tag, r).
       if hd tag \<noteq> kindByte (c_type col)
       then Inl (TypeTagMismatch (c_name col) (c_type col) (hd tag))
       else if \<not> c_nullable col then decodePayload (hd tag) r
       else bindE (readN BIO 1 r) (\<lambda>(presence, r).
         if hd presence = 0 then Inr (NewNull (c_type col), r)
         else if hd presence = 1 then decodePayload (hd tag) r
         else Inl ErrInvalidPresence))"

text \<open>The column loop; \<open>i\<close> counts the columns read, for the shape error.\<close>

fun decodeColumns ::
  "tableSchema \<Rightarrow> nat \<Rightarrow> columnSchema list \<Rightarrow> bytes \<Rightarrow> bsatn_error + (productValue \<times> bytes)" where
  "decodeColumns ts i [] r = Inr ([], r)"
| "decodeColumns ts i (col # cols) r =
     (case decodeColumnValue col r of
        Inl (BIO e) \<Rightarrow> Inl (RowShapeMismatch (ts_name ts) (length (ts_columns ts)) i)
      | Inl e \<Rightarrow> Inl e
      | Inr (v, r) \<Rightarrow> bindE (decodeColumns ts (Suc i) cols r) (\<lambda>(pv, r). Inr (v # pv, r)))"

definition decodeProductValueColumns ::
  "tableSchema \<Rightarrow> bytes \<Rightarrow> bsatn_error + (productValue \<times> bytes)" where
  "decodeProductValueColumns ts r = decodeColumns ts 0 (ts_columns ts) r"

definition DecodeProductValue :: "bytes \<Rightarrow> tableSchema option \<Rightarrow> bsatn_error + productValue" where
  "DecodeProductValue r ts =
     (case ts of None \<Rightarrow> Inl ErrTableSchemaRequired
      | Some ts \<Rightarrow> bindE (decodeProductValueColumns ts r) (\<lambda>(pv, r).
          case readFull 1 r of
            Inr _ \<Rightarrow> Inl (RowShapeMismatch (ts_name ts) (length (ts_columns ts))
                       (length (ts_columns ts) + 1))
          | Inl EOF \<Rightarrow> Inr pv
          | Inl e \<Rightarrow> Inl (BIO e)))"

definition DecodeProductValueFromBytes ::
  "bytes \<Rightarrow> tableSchema option \<Rightarrow> bsatn_error + productValue" where
  "DecodeProductValueFromBytes data ts =
     (case ts of None \<Rightarrow> Inl ErrTableSchemaRequired
      | Some ts \<Rightarrow> bindE (decodeProductValueColumns ts data) (\<lambda>(pv, r).
          if length r \<noteq> 0
          then Inl (RowShapeMismatch (ts_name ts) (length (ts_columns ts))
                     (length (ts_columns ts) + 1))
          else Inr pv))"

section \<open>Encoding appends to the buffer\<close>

lemma kindOfTag_kindByte [simp]: "kindOfTag (kindByte k) = Some k"
  by (cases k) (simp_all add: kindOfTag_def)

lemma kindOfTag_Some: "kindOfTag t = Some k \<longleftrightarrow> t = kindByte k"
proof
  show "kindOfTag t = Some k \<Longrightarrow> t = kindByte k"
    by (simp only: kindOfTag_def split: if_splits) auto
qed simp

lemma appendStrings_dst: "appendStrings dst xs = dst @ appendStrings [] xs"
proof (induction xs arbitrary: dst)
  case (Cons s xs)
  show ?case
    unfolding appendStrings.simps(2)
    by (subst Cons.IH, subst (2) Cons.IH) simp
qed simp

lemma map_sum_bindE: "map_sum id f (bindE m g) = bindE m (\<lambda>x. map_sum id f (g x))"
  by (cases m) simp_all

lemma AppendValue_dst: "AppendValue dst v = map_sum id ((@) dst) (AppendValue [] v)"
  by (cases "v_kind v"; cases "v_w256 v")
    (simp_all add: AppendValue_def map_sum_bindE Let_def appendLengthPrefixed_def
      appendStrings_dst [of "dst @ x" for x] appendStrings_dst [of "x # y" for x y])

section \<open>Which values have an encoding\<close>

definition stringsSize :: "bytes list \<Rightarrow> nat" where
  "stringsSize xs = sum_list (map (\<lambda>s. 4 + length s) xs)"

lemma stringsSize_simps [simp]:
  "stringsSize [] = 0" "stringsSize (s # xs) = 4 + length s + stringsSize xs"
  by (simp_all add: stringsSize_def)

definition encodable :: "go_value \<Rightarrow> bool" where
  "encodable v \<longleftrightarrow> \<not> v_isNull v \<and>
     (case v_kind v of
        KindString \<Rightarrow> utf8_valid (v_str v) \<and> length (v_str v) \<le> maxValuePayloadBytes
      | KindBytes \<Rightarrow> length (v_buf v) \<le> maxValuePayloadBytes
      | KindJSON \<Rightarrow> length (v_buf v) \<le> maxValuePayloadBytes
      | KindArrayString \<Rightarrow> length (v_strArr v) \<le> maxArrayStringItems
          \<and> list_all utf8_valid (v_strArr v)
          \<and> 4 + stringsSize (v_strArr v) \<le> maxValuePayloadBytes
      | _ \<Rightarrow> True)"

lemma ValidateUTF8StringArray_ok: "ValidateUTF8StringArray xs = Inr u \<longleftrightarrow> list_all utf8_valid xs"
  by (induction xs) (auto simp: ValidateUTF8String_def)

lemma four_le_max: "4 \<le> maxValuePayloadBytes"
  by (simp add: maxValuePayloadBytes_def)

lemma arrayStringPayloadFrom_ok:
  "used \<le> maxValuePayloadBytes \<Longrightarrow>
   arrayStringPayloadFrom used xs = Inr u \<longleftrightarrow> used + stringsSize xs \<le> maxValuePayloadBytes"
proof (induction used xs rule: arrayStringPayloadFrom.induct)
  case (2 used s xs)
  have "used + (4 + length s) \<le> maxValuePayloadBytes \<longleftrightarrow>
      \<not> (maxValuePayloadBytes - 4 < used \<or> maxValuePayloadBytes - used - 4 < length s)"
    using four_le_max by linarith
  with 2 show ?case by (auto simp: Let_def)
qed simp

lemma liftV_eq_Inr [result_simps]: "liftV m = Inr x \<longleftrightarrow> m = Inr x"
  by (cases m) (simp_all add: liftV_def)

lemma liftV_Inr [simp]: "liftV (Inr x) = Inr x"
  by (simp add: liftV_def)

lemma encodable_iff: "encodable v \<longleftrightarrow> (\<exists>bs. AppendValue dst v = Inr bs)"
proof -
  have "4 \<le> maxValuePayloadBytes" by (simp add: maxValuePayloadBytes_def)
  then show ?thesis
    by (cases "v_kind v"; cases "v_w256 v")
      (auto simp: encodable_def AppendValue_def Let_def result_simps ValidateUTF8String_def
        appendLengthPrefixed_def checkedValuePayloadLen_def checkedArrayStringCount_def
        validateArrayStringPayloadSize_def arrayStringPayloadFrom_ok ValidateUTF8StringArray_ok)
qed

section \<open>Decoding an encoding\<close>

lemma max_u32: "n \<le> maxValuePayloadBytes \<Longrightarrow> unat (of_nat n :: u32) = n"
  "n \<le> maxArrayStringItems \<Longrightarrow> unat (of_nat n :: u32) = n"
  by (simp_all add: maxValuePayloadBytes_def maxArrayStringItems_def unat_of_nat)

lemma u32_of_nat_0: "n \<le> maxValuePayloadBytes \<Longrightarrow> (of_nat n :: u32) = 0 \<longleftrightarrow> n = 0"
  using max_u32(1) [of n] by (auto simp del: unsigned_of_nat of_nat_eq_0_iff)

lemma readLengthPrefixedPayload_append:
  "length data \<le> maxValuePayloadBytes \<Longrightarrow>
   readLengthPrefixedPayload (of_nat (length data)) (data @ r) = Inr (data, r)"
  by (auto simp: readLengthPrefixedPayload_def max_u32 u32_of_nat_0)

lemma get_put [simp]:
  "get_le (put_le 2 (a :: u16)) = a" "get_le (put_le 4 (b :: u32)) = b"
  "get_le (put_le 8 (c :: u64)) = c" "get_le [d] = (d :: byte)"
  by (simp_all add: get_le_put_le)

lemma decodeStrings_append:
  "stringsSize xs \<le> remaining \<Longrightarrow> remaining \<le> maxValuePayloadBytes \<Longrightarrow> list_all utf8_valid xs \<Longrightarrow>
   decodeStrings (length xs) remaining (appendStrings [] xs @ r) = Inr (xs, r)"
proof (induction xs arbitrary: remaining)
  case (Cons s xs)
  have s: "appendStrings [] (s # xs) @ r =
      put_le 4 (of_nat (length s) :: u32) @ s @ appendStrings [] xs @ r"
    using appendStrings_dst [of "put_le 4 (of_nat (length s) :: u32) @ s" xs] by simp
  show ?case
    unfolding s using Cons by (simp add: max_u32 readLengthPrefixedPayload_append Let_def)
qed simp

lemma length_appendStrings: "length (appendStrings [] xs) = stringsSize xs"
proof (induction xs)
  case (Cons s xs)
  then show ?case
    using appendStrings_dst [of "put_le 4 (of_nat (length s) :: u32) @ s" xs] by simp
qed simp

lemma foldl_stringsSize: "foldl (\<lambda>n s. n + (4 + length s)) k xs = k + stringsSize xs"
  by (induction xs arbitrary: k) simp_all

text \<open>A well-formed value is rebuilt by the constructor of its kind from its slot.\<close>

lemma wf_rebuild:
  assumes "wf_value v" "\<not> v_isNull v"
  shows "v_kind v = KindBool \<Longrightarrow> NewBool (v_b v) = v"
    "v_kind v = KindInt8 \<Longrightarrow> NewInt8 (ucast (v_i64 v)) = v"
    "v_kind v = KindUint8 \<Longrightarrow> NewUint8 (ucast (v_u64 v)) = v"
    "v_kind v = KindInt16 \<Longrightarrow> NewInt16 (ucast (v_i64 v)) = v"
    "v_kind v = KindUint16 \<Longrightarrow> NewUint16 (ucast (v_u64 v)) = v"
    "v_kind v = KindInt32 \<Longrightarrow> NewInt32 (ucast (v_i64 v)) = v"
    "v_kind v = KindUint32 \<Longrightarrow> NewUint32 (ucast (v_u64 v)) = v"
    "v_kind v = KindInt64 \<Longrightarrow> NewInt64 (v_i64 v) = v"
    "v_kind v = KindUint64 \<Longrightarrow> NewUint64 (v_u64 v) = v"
    "v_kind v = KindFloat32 \<Longrightarrow> NewFloat32 (v_f32 v) = Inr v"
    "v_kind v = KindFloat64 \<Longrightarrow> NewFloat64 (v_f64 v) = Inr v"
    "v_kind v = KindString \<Longrightarrow> NewString (v_str v) = v"
    "v_kind v = KindBytes \<Longrightarrow> NewBytes (v_buf v) = v"
    "v_kind v = KindInt128 \<Longrightarrow> NewInt128 (v_hi128 v) (v_lo128 v) = v"
    "v_kind v = KindUint128 \<Longrightarrow> NewUint128 (v_hi128 v) (v_lo128 v) = v"
    "v_kind v = KindInt256 \<Longrightarrow> v_w256 v = (w0, w1, w2, w3) \<Longrightarrow> NewInt256 w0 w1 w2 w3 = v"
    "v_kind v = KindUint256 \<Longrightarrow> v_w256 v = (w0, w1, w2, w3) \<Longrightarrow> NewUint256 w0 w1 w2 w3 = v"
    "v_kind v = KindTimestamp \<Longrightarrow> NewTimestamp (v_i64 v) = v"
    "v_kind v = KindDuration \<Longrightarrow> NewDuration (v_i64 v) = v"
    "v_kind v = KindArrayString \<Longrightarrow> NewArrayString (v_strArr v) = v"
    "v_kind v = KindUUID \<Longrightarrow> NewUUID (v_uuid v) = v"
    "v_kind v = KindUUID \<Longrightarrow> length (v_uuid v) = 16"
    "v_kind v = KindJSON \<Longrightarrow> NewJSON (v_buf v) = Inr v"
  using assms by (simp_all add: wf_value_def)

lemma readFixed_append [simp]:
  "length p = n \<Longrightarrow> readFixed n f (p @ r) = bindE (f p) (\<lambda>v. Inr (v, r))"
  by (simp add: readFixed_def)

lemma readFixed_singleton [simp]: "readFixed (Suc 0) f (b # r) = bindE (f [b]) (\<lambda>v. Inr (v, r))"
  using readFixed_append [of "[b]" 1 f r] by simp

lemma readFixed_wide [simp]:
  fixes a b c d :: u64
  shows "readFixed 16 f (put_le 8 a @ put_le 8 b @ r) =
      bindE (f (put_le 8 a @ put_le 8 b)) (\<lambda>v. Inr (v, r))"
    "readFixed 32 f (put_le 8 a @ put_le 8 b @ put_le 8 c @ put_le 8 d @ r) =
      bindE (f (put_le 8 a @ put_le 8 b @ put_le 8 c @ put_le 8 d)) (\<lambda>v. Inr (v, r))"
  using readFixed_append [of "put_le 8 a @ put_le 8 b" 16 f r]
    readFixed_append [of "put_le 8 a @ put_le 8 b @ put_le 8 c @ put_le 8 d" 32 f r] by simp_all

lemma readPrefixed_append [simp]:
  "length data \<le> maxValuePayloadBytes \<Longrightarrow>
   readPrefixed f (put_le 4 (of_nat (length data) :: u32) @ data @ r) =
     bindE (f data) (\<lambda>v. Inr (v, r))"
  by (simp add: readPrefixed_def readLengthPrefixedPayload_append)

lemma decodeArrayString_append:
  "length xs \<le> maxArrayStringItems \<Longrightarrow> 4 + stringsSize xs \<le> maxValuePayloadBytes \<Longrightarrow>
   list_all utf8_valid xs \<Longrightarrow>
   decodeArrayString (put_le 4 (of_nat (length xs) :: u32) @ appendStrings [] xs @ r) =
     Inr (NewArrayString xs, r)"
  by (simp add: decodeArrayString_def max_u32 decodeStrings_append)

text \<open>The payload of an encoded value, and that it is read back whole, whatever follows it.\<close>

definition payloadOf :: "go_value \<Rightarrow> bytes" where
  "payloadOf v = (case AppendValue [] v of Inl _ \<Rightarrow> [] | Inr bs \<Rightarrow> tl bs)"

lemmas append_value_simps =
  AppendValue_def encodable_def ValidateUTF8String_def appendLengthPrefixed_def
  checkedValuePayloadLen_def checkedArrayStringCount_def validateArrayStringPayloadSize_def
  arrayStringPayloadFrom_ok ValidateUTF8StringArray_ok

lemma AppendValue_encodable:
  assumes "encodable v"
  shows "AppendValue dst v = Inr (dst @ kindByte (v_kind v) # payloadOf v)"
proof -
  obtain bs where bs: "AppendValue [] v = Inr bs" using assms encodable_iff by blast
  then have "\<exists>p. bs = kindByte (v_kind v) # p"
    by (cases "v_kind v"; cases "v_w256 v")
      (auto simp: AppendValue_def result_simps appendLengthPrefixed_def
        appendStrings_dst [of "x # y" for x y] split: if_splits)
  then show ?thesis using bs by (subst AppendValue_dst) (auto simp: payloadOf_def)
qed

lemma payload_simps:
  assumes "encodable v"
  shows "v_kind v = KindString \<Longrightarrow> payloadOf v = put_le 4 (of_nat (length (v_str v)) :: u32) @ v_str v"
    "v_kind v = KindBytes \<or> v_kind v = KindJSON \<Longrightarrow>
      payloadOf v = put_le 4 (of_nat (length (v_buf v)) :: u32) @ v_buf v"
    "v_kind v = KindArrayString \<Longrightarrow>
      payloadOf v = put_le 4 (of_nat (length (v_strArr v)) :: u32) @ appendStrings [] (v_strArr v)"
  using assms four_le_max
  by (auto simp: payloadOf_def append_value_simps Let_def appendStrings_dst [of "x # y" for x y]
      ValidateUTF8StringArray_ok [of _ "()", THEN iffD2]
      arrayStringPayloadFrom_ok [of _ _ "()", THEN iffD2])

lemma decodePayload_payloadOf:
  assumes wf: "wf_value v" and ok: "encodable v"
  shows "decodePayload (kindByte (v_kind v)) (payloadOf v @ r) = Inr (v, r)"
proof -
  have nn: "\<not> v_isNull v" using ok by (simp add: encodable_def)
  note rb = wf_rebuild [OF wf nn]
  show ?thesis
  proof (cases "v_kind v \<in> {KindString, KindBytes, KindJSON, KindArrayString}")
    case True
    then show ?thesis
      using ok rb payload_simps [OF ok]
      unfolding decodePayload_def kindOfTag_kindByte option.case
      by (auto simp: encodable_def decodeArrayString_append)
  next
    case False
    then show ?thesis
      using rb nn
      unfolding decodePayload_def kindOfTag_kindByte option.case
      by (cases "v_kind v"; cases "v_w256 v";
          simp add: payloadOf_def AppendValue_def decodeBoolByte_def; metis)
  qed
qed

lemma length_payloadOf:
  assumes wf: "wf_value v" and ok: "encodable v"
  shows "EncodedValueSize v = Suc (length (payloadOf v))"
proof -
  have nn: "\<not> v_isNull v" using ok by (simp add: encodable_def)
  show ?thesis
  proof (cases "v_kind v \<in> {KindString, KindBytes, KindJSON, KindArrayString}")
    case True
    then show ?thesis
      using ok nn payload_simps [OF ok]
      by (auto simp: EncodedValueSize_def length_appendStrings foldl_stringsSize)
  next
    case False
    then show ?thesis
      using nn wf_rebuild(22) [OF wf nn]
      by (cases "v_kind v"; cases "v_w256 v")
        (simp_all add: EncodedValueSize_def payloadOf_def AppendValue_def)
  qed
qed

section \<open>Rows\<close>

definition column_ok :: "columnSchema \<Rightarrow> go_value \<Rightarrow> bool" where
  "column_ok col v \<longleftrightarrow> v_kind v = c_type col \<and> (if v_isNull v then c_nullable col else encodable v)"

definition columnBytes :: "columnSchema \<Rightarrow> go_value \<Rightarrow> bytes" where
  "columnBytes col v = kindByte (c_type col) #
     (if \<not> c_nullable col then payloadOf v else if v_isNull v then [0] else 1 # payloadOf v)"

lemma appendColumnValue_eq:
  "column_ok col v \<Longrightarrow> appendColumnValue dst v col = Inr (dst @ columnBytes col v)"
  by (auto simp: column_ok_def appendColumnValue_def columnBytes_def AppendValue_encodable Let_def
      list_update_append split: if_splits)

lemma appendColumnValue_ok: "appendColumnValue dst v col = Inr bs \<Longrightarrow> column_ok col v"
  using encodable_iff [of v "dst @ [kindByte (c_type col)]"] encodable_iff [of v dst]
  by (auto simp: appendColumnValue_def column_ok_def result_simps split: if_splits)

lemma decodeColumnValue_columnBytes:
  assumes "wf_value v" "column_ok col v"
  shows "decodeColumnValue col (columnBytes col v @ r) = Inr (v, r)"
proof -
  have null: "NewNull (v_kind v) = v" if "v_isNull v" using assms(1) that by (simp add: wf_value_def)
  have one: "readN BIO (Suc 0) (x # y) = Inr ([x], y)" for x y
    using readN_append [of "[x]" "Suc 0" BIO y] by simp
  show ?thesis
    using assms null decodePayload_payloadOf [OF assms(1)]
    by (auto simp: decodeColumnValue_def columnBytes_def column_ok_def one split: if_splits)
qed

lemma length_columnBytes:
  assumes "wf_value v" "column_ok col v"
  shows "length (columnBytes col v) =
    (if c_nullable col then if v_isNull v then 2 else EncodedValueSize v + 1 else EncodedValueSize v)"
  using assms length_payloadOf [OF assms(1)]
  by (auto simp: columnBytes_def column_ok_def split: if_splits)

fun rowBytes :: "columnSchema list \<Rightarrow> productValue \<Rightarrow> bytes" where
  "rowBytes (col # cols) (v # pv) = columnBytes col v @ rowBytes cols pv"
| "rowBytes _ _ = []"

lemma appendColumns_eq:
  "list_all2 column_ok cols pv \<Longrightarrow> appendColumns dst pv cols = Inr (dst @ rowBytes cols pv)"
  by (induction cols pv arbitrary: dst rule: list_all2_induct) (simp_all add: appendColumnValue_eq)

lemma appendColumns_ok:
  "length pv = length cols \<Longrightarrow> appendColumns dst pv cols = Inr bs \<Longrightarrow> list_all2 column_ok cols pv"
  by (induction dst pv cols rule: appendColumns.induct)
    (auto simp: result_simps intro: appendColumnValue_ok)

lemma AppendProductValueForColumns_iff:
  "AppendProductValueForColumns dst pv cols = Inr bs \<longleftrightarrow>
   list_all2 column_ok cols pv \<and> bs = dst @ rowBytes cols pv"
  using appendColumns_ok [of pv cols dst bs] appendColumns_eq [of cols pv dst]
  by (auto simp: AppendProductValueForColumns_def list_all2_lengthD)

lemma decodeColumns_rowBytes:
  "list_all2 column_ok cols pv \<Longrightarrow> list_all wf_value pv \<Longrightarrow>
   decodeColumns ts i cols (rowBytes cols pv @ r) = Inr (pv, r)"
  by (induction cols pv arbitrary: i rule: list_all2_induct)
    (simp_all add: decodeColumnValue_columnBytes)

lemma sizeColumns_rowBytes:
  "list_all2 column_ok cols pv \<Longrightarrow> list_all wf_value pv \<Longrightarrow>
   sizeColumns n pv cols = Inr (n + length (rowBytes cols pv))"
proof (induction cols pv arbitrary: n rule: list_all2_induct)
  case (Cons col cols v pv)
  have "v_isNull v \<Longrightarrow> c_nullable col" "v_kind v = c_type col"
    using Cons.hyps by (auto simp: column_ok_def)
  then show ?case
    using Cons by (auto simp: length_columnBytes)
qed simp

section \<open>Decoders are readers\<close>

lemma reader_readLengthPrefixedPayload [simp]: "reader_ok BIO (readLengthPrefixedPayload n)"
proof (cases "n = 0 \<or> unat n > maxValuePayloadBytes")
  case True
  then show ?thesis
    by (auto simp: reader_ok_def readLengthPrefixedPayload_def)
next
  case False
  have short: "\<exists>e. readLengthPrefixedPayload n r = Inl (BIO e)" if "length r < unat n" for r
    using False that by (auto simp: readLengthPrefixedPayload_def readFull_def split: io_error.split)
  show ?thesis
    unfolding reader_ok_def
  proof (intro allI impI)
    fix r v r' assume "readLengthPrefixedPayload n r = Inr (v, r')"
    then have "readFull (unat n) r = Inr (v, r')"
      using False by (auto simp: readLengthPrefixedPayload_def split: sum.splits io_error.splits)
    then have "length v = unat n" "r = v @ r'" by (simp_all add: result_simps)
    then show "\<exists>bs. r = bs @ r' \<and> (\<forall>s. readLengthPrefixedPayload n (bs @ s) = Inr (v, s)) \<and>
        (\<forall>k < length bs. \<exists>e. readLengthPrefixedPayload n (take k bs) = Inl (BIO e))"
      using False short by (intro exI [of _ v]) (auto simp: readLengthPrefixedPayload_def)
  qed
qed

lemma reader_ok_pure: "reader_ok io (\<lambda>r. bindE m (\<lambda>v. Inr (v, r)))"
  by (cases m) simp_all

lemma reader_decodeStrings [simp]: "reader_ok BIO (decodeStrings count remaining)"
proof (induction count arbitrary: remaining)
  case 0
  then show ?case by (simp add: reader_ok_return eta_contract_eq)
next
  case (Suc count)
  show ?case
    unfolding decodeStrings.simps(2) Let_def
    by (intro reader_ok_if reader_ok_bind reader_ok_fail reader_ok_readN reader_readLengthPrefixedPayload
        Suc.IH reader_ok_return)
qed

lemma reader_readFixed [simp]: "reader_ok BIO (readFixed n f)"
  unfolding readFixed_def [abs_def] by (intro reader_ok_bind reader_ok_readN reader_ok_pure)

lemma reader_readPrefixed [simp]: "reader_ok BIO (readPrefixed f)"
  unfolding readPrefixed_def [abs_def]
  by (intro reader_ok_bind reader_ok_readN reader_readLengthPrefixedPayload reader_ok_pure)

lemma reader_decodeArrayString [simp]: "reader_ok BIO decodeArrayString"
  unfolding decodeArrayString_def [abs_def] Let_def
  by (intro reader_ok_bind reader_ok_if reader_ok_readN reader_ok_fail reader_decodeStrings
      reader_ok_return)

lemma reader_decodePayload: "reader_ok BIO (decodePayload tag)"
proof (cases "kindOfTag tag")
  case None
  then show ?thesis by (simp add: decodePayload_def [abs_def])
next
  case (Some k)
  then show ?thesis by (cases k) (simp_all add: decodePayload_def [abs_def])
qed

interpretation value_stream: reader BIO DecodeValue
  unfolding reader_def DecodeValue_def [abs_def] readValueTag_def
  by (intro reader_ok_bind reader_ok_readN reader_ok_return reader_decodePayload)

lemma reader_decodeColumnValue: "reader_ok BIO (decodeColumnValue col)"
  unfolding decodeColumnValue_def [abs_def]
  by (intro reader_ok_bind reader_ok_if reader_ok_readN reader_ok_fail reader_ok_return
      reader_decodePayload)

text \<open>
  A row is read from exactly its bytes; cut anywhere, the shape error names the column whose
  bytes ran out.
\<close>

lemma decodeColumns_reader:
  "decodeColumns ts i cols r = Inr (pv, r') \<Longrightarrow>
   \<exists>bs. r = bs @ r' \<and> (\<forall>s. decodeColumns ts i cols (bs @ s) = Inr (pv, s)) \<and>
     (\<forall>k < length bs. \<exists>j. i \<le> j \<and> j < i + length cols \<and>
        decodeColumns ts i cols (take k bs) =
          Inl (RowShapeMismatch (ts_name ts) (length (ts_columns ts)) j))"
proof (induction cols arbitrary: i r pv)
  case Nil
  then show ?case by simp
next
  case (Cons col cols)
  from Cons.prems obtain v r1 pv' where v: "decodeColumnValue col r = Inr (v, r1)"
    and pv': "decodeColumns ts (Suc i) cols r1 = Inr (pv', r')" "pv = v # pv'"
    by (auto simp: result_simps split: sum.splits bsatn_error.splits)
  obtain b1 where b1: "r = b1 @ r1" "\<And>s. decodeColumnValue col (b1 @ s) = Inr (v, s)"
    "\<And>k. k < length b1 \<Longrightarrow> \<exists>e. decodeColumnValue col (take k b1) = Inl (BIO e)"
    using reader_okE [OF reader_decodeColumnValue v] by blast
  obtain b2 where b2: "r1 = b2 @ r'" "\<And>s. decodeColumns ts (Suc i) cols (b2 @ s) = Inr (pv', s)"
    "\<And>k. k < length b2 \<Longrightarrow> \<exists>j. Suc i \<le> j \<and> j < Suc i + length cols \<and>
       decodeColumns ts (Suc i) cols (take k b2) =
         Inl (RowShapeMismatch (ts_name ts) (length (ts_columns ts)) j)"
    using Cons.IH [OF pv'(1)] by blast
  have cut: "\<exists>j. i \<le> j \<and> j < i + length (col # cols) \<and>
      decodeColumns ts i (col # cols) (take k (b1 @ b2)) =
        Inl (RowShapeMismatch (ts_name ts) (length (ts_columns ts)) j)"
    if "k < length (b1 @ b2)" for k
  proof (cases "k < length b1")
    case True
    then show ?thesis using b1(3) [OF True] by (auto intro!: exI [of _ i])
  next
    case False
    then have "k - length b1 < length b2" using that by simp
    from b2(3) [OF this] False show ?thesis by (auto simp: b1(2) intro: Suc_leD)
  qed
  then show ?case
    using b1(1,2) b2(1,2) pv'(2) by (intro exI [of _ "b1 @ b2"]) auto
qed

section \<open>Decoding is exact\<close>

lemma put_get:
  "length p = 2 \<Longrightarrow> put_le 2 (get_le p :: u16) = p"
  "length p = 4 \<Longrightarrow> put_le 4 (get_le p :: u32) = p"
  "length p = 8 \<Longrightarrow> put_le 8 (get_le p :: u64) = p"
  using put_le_get_le [of p, where 'a = 16] put_le_get_le [of p, where 'a = 32]
    put_le_get_le [of p, where 'a = 64] by auto

lemma readLengthPrefixedPayload_eq:
  "readLengthPrefixedPayload n r = Inr (data, r') \<Longrightarrow>
   r = data @ r' \<and> length data = unat n \<and> length data \<le> maxValuePayloadBytes"
  by (auto simp: readLengthPrefixedPayload_def readFull_def unat_gt_0 split: if_splits sum.splits io_error.splits)

lemma u32_length_eq: "length data = unat (n :: u32) \<Longrightarrow> of_nat (length data) = n"
  by simp

lemma decodeStrings_eq:
  "decodeStrings count remaining r = Inr (xs, r') \<Longrightarrow>
   r = appendStrings [] xs @ r' \<and> length xs = count \<and> list_all utf8_valid xs \<and>
   stringsSize xs \<le> remaining"
proof (induction count arbitrary: remaining r xs)
  case (Suc count)
  from Suc.prems obtain buf r1 data r2 ys where
    buf: "length buf = 4" "r = buf @ r1" "remaining \<ge> 4"
      "unat (get_le buf :: u32) \<le> remaining - 4"
    and data: "readLengthPrefixedPayload (get_le buf) r1 = Inr (data, r2)" "utf8_valid data"
    and ys: "decodeStrings count (remaining - 4 - unat (get_le buf :: u32)) r2 = Inr (ys, r')"
      "xs = data # ys"
    by (auto simp: result_simps Let_def split: if_splits)
  note d = readLengthPrefixedPayload_eq [OF data(1)]
  note IH = Suc.IH [OF ys(1)]
  have n: "put_le 4 (of_nat (length data) :: u32) = buf"
    using d buf(1) by (simp add: put_get)
  have "appendStrings [] xs = buf @ data @ appendStrings [] ys"
    using appendStrings_dst [of "buf @ data" ys] n ys(2) by simp
  with d IH buf data ys show ?case by auto
qed simp

lemma readFixed_eq:
  "readFixed n f r = Inr (v, r') \<longleftrightarrow> (\<exists>p. length p = n \<and> r = p @ r' \<and> f p = Inr v)"
  by (auto simp: readFixed_def result_simps)

lemma readPrefixed_eq:
  assumes "readPrefixed f r = Inr (v, r')"
  obtains data where "length data \<le> maxValuePayloadBytes" "f data = Inr v"
    "r = put_le 4 (of_nat (length data) :: u32) @ data @ r'"
proof -
  from assms obtain buf r1 data where "length buf = 4" "r = buf @ r1"
    and d: "readLengthPrefixedPayload (get_le buf) r1 = Inr (data, r')" "f data = Inr v"
    by (auto simp: readPrefixed_def result_simps)
  with readLengthPrefixedPayload_eq [OF d(1)] show ?thesis
    by (intro that [of data]) (auto simp: put_get)
qed

lemma decodeArrayString_eq:
  assumes "decodeArrayString r = Inr (v, r')"
  obtains xs where "v = NewArrayString xs" "length xs \<le> maxArrayStringItems"
    "list_all utf8_valid xs" "4 + stringsSize xs \<le> maxValuePayloadBytes"
    "r = put_le 4 (of_nat (length xs) :: u32) @ appendStrings [] xs @ r'"
proof -
  from assms obtain buf r1 xs where "length buf = 4" "r = buf @ r1" "v = NewArrayString xs"
    and n: "unat (get_le buf :: u32) \<le> maxArrayStringItems"
    and d: "decodeStrings (unat (get_le buf :: u32)) (maxValuePayloadBytes - 4) r1 = Inr (xs, r')"
    by (auto simp: decodeArrayString_def result_simps Let_def split: if_splits)
  with decodeStrings_eq [OF d] four_le_max show ?thesis
    by (intro that [of xs]) (auto simp: put_get)
qed

lemma split_32: "take 8 p @ take 8 (drop 8 p) @ take 8 (drop 16 p) @ drop 24 p = p"
proof -
  have "take 8 (drop 16 p) @ drop 24 p = drop 16 p"
    using append_take_drop_id [of 8 "drop 16 p"] by simp
  moreover have "take 8 (drop 8 p) @ drop 16 p = drop 8 p"
    using append_take_drop_id [of 8 "drop 8 p"] by simp
  ultimately show ?thesis using append_take_drop_id [of 8 p] by simp
qed

lemma put_get_wide:
  "length p = 16 \<Longrightarrow> put_le 8 (get_le (take 8 p) :: u64) @ put_le 8 (get_le (drop 8 p) :: u64) = p"
  "length p = 32 \<Longrightarrow> put_le 8 (get_le (take 8 p) :: u64) @ put_le 8 (get_le (take 8 (drop 8 p)) :: u64) @
     put_le 8 (get_le (take 8 (drop 16 p)) :: u64) @ put_le 8 (get_le (drop 24 p) :: u64) = p"
  by (simp_all add: put_get split_32)

lemma singleton_list: "length p = Suc 0 \<Longrightarrow> [get_le p] = (p :: bytes)"
  "length p = Suc 0 \<Longrightarrow> get_le p = b \<Longrightarrow> p = [b :: byte]"
  by (cases p; auto)+

text \<open>What a decoder accepts for a kind other than JSON is the encoding of what it returns.\<close>

lemma new_fields [simp]:
  "v_isNull (NewBool b) = False" "v_kind (NewBool b) = KindBool" "v_b (NewBool b) = b"
  "v_isNull (NewInt8 i8) = False" "v_kind (NewInt8 i8) = KindInt8"
  "v_isNull (NewUint8 n8) = False" "v_kind (NewUint8 n8) = KindUint8"
  "v_isNull (NewInt16 i16) = False" "v_kind (NewInt16 i16) = KindInt16"
  "v_isNull (NewUint16 n16) = False" "v_kind (NewUint16 n16) = KindUint16"
  "v_isNull (NewInt32 i32) = False" "v_kind (NewInt32 i32) = KindInt32"
  "v_isNull (NewUint32 n32) = False" "v_kind (NewUint32 n32) = KindUint32"
  "v_isNull (NewInt64 i64) = False" "v_kind (NewInt64 i64) = KindInt64" "v_i64 (NewInt64 i64) = i64"
  "v_isNull (NewUint64 n64) = False" "v_kind (NewUint64 n64) = KindUint64" "v_u64 (NewUint64 n64) = n64"
  "v_isNull (NewString s) = False" "v_kind (NewString s) = KindString" "v_str (NewString s) = s"
  "v_isNull (NewBytes s) = False" "v_kind (NewBytes s) = KindBytes" "v_buf (NewBytes s) = s"
  "v_isNull (NewInt128 hi lo) = False" "v_kind (NewInt128 hi lo) = KindInt128"
  "v_hi128 (NewInt128 hi lo) = hi" "v_lo128 (NewInt128 hi lo) = lo"
  "v_isNull (NewUint128 hi lo) = False" "v_kind (NewUint128 hi lo) = KindUint128"
  "v_hi128 (NewUint128 hi lo) = hi" "v_lo128 (NewUint128 hi lo) = lo"
  "v_isNull (NewInt256 w0 w1 w2 w3) = False" "v_kind (NewInt256 w0 w1 w2 w3) = KindInt256"
  "v_w256 (NewInt256 w0 w1 w2 w3) = (w0, w1, w2, w3)"
  "v_isNull (NewUint256 w0 w1 w2 w3) = False" "v_kind (NewUint256 w0 w1 w2 w3) = KindUint256"
  "v_w256 (NewUint256 w0 w1 w2 w3) = (w0, w1, w2, w3)"
  "v_isNull (NewTimestamp i64) = False" "v_kind (NewTimestamp i64) = KindTimestamp"
  "v_i64 (NewTimestamp i64) = i64"
  "v_isNull (NewDuration i64) = False" "v_kind (NewDuration i64) = KindDuration"
  "v_i64 (NewDuration i64) = i64"
  "v_isNull (NewArrayString xs) = False" "v_kind (NewArrayString xs) = KindArrayString"
  "v_strArr (NewArrayString xs) = xs"
  "v_isNull (NewUUID u) = False" "v_kind (NewUUID u) = KindUUID" "v_uuid (NewUUID u) = u"
  "v_isNull (NewNull k) = True" "v_kind (NewNull k) = k"
  by (simp_all add: constructor_defs)

lemma NewFloat_fields:
  "NewFloat32 x = Inr v \<Longrightarrow> v_kind v = KindFloat32 \<and> \<not> v_isNull v \<and> v_f32 v = x"
  "NewFloat64 y = Inr w \<Longrightarrow> v_kind w = KindFloat64 \<and> \<not> v_isNull w \<and> v_f64 w = y"
  by (auto simp: NewFloat32_def NewFloat64_def zeroValue_def split: if_splits)

lemma decodePayload_exact_prefixed:
  assumes "decodePayload (kindByte k) r = Inr (v, r')" "k \<in> {KindString, KindBytes, KindArrayString}"
  shows "wf_value v \<and> v_kind v = k \<and> encodable v \<and> r = payloadOf v @ r'"
proof -
  have sep: "wf_value v \<and> v_kind v = k \<and> encodable v \<Longrightarrow> (encodable v \<Longrightarrow> v_kind v = k \<Longrightarrow> r = payloadOf v @ r') \<Longrightarrow> ?thesis"
    by blast
  show ?thesis
    using assms
    by (intro sep; elim insertE emptyE; simp add: decodePayload_def kindOfTag_def; elim readPrefixed_eq decodeArrayString_eq)
      (auto simp: encodable_def payload_simps split: if_splits)
qed

lemma decodePayload_exact_fixed:
  assumes "decodePayload (kindByte k) r = Inr (v, r')"
    "k \<notin> {KindString, KindBytes, KindArrayString, KindJSON}"
  shows "wf_value v \<and> v_kind v = k \<and> encodable v \<and> r = payloadOf v @ r'"
  using assms unfolding decodePayload_def kindOfTag_kindByte option.case
  by (cases k; simp add: readFixed_eq result_simps; elim exE conjE)
    (auto simp: encodable_def payloadOf_def AppendValue_def decodeBoolByte_def put_get put_get_wide
       split_32 singleton_list ucast_scast_narrow wf_value_NewFloat wf_value_NewUUID
       dest: NewFloat_fields wf_value_NewFloat split: if_splits)

lemma decodePayload_exact:
  assumes "decodePayload (kindByte k) r = Inr (v, r')" "k \<noteq> KindJSON"
  shows "wf_value v \<and> v_kind v = k \<and> encodable v \<and> r = payloadOf v @ r'"
  using decodePayload_exact_prefixed [OF assms(1)] decodePayload_exact_fixed [OF assms(1)] assms(2)
  by blast

lemma encodable_not_null: "encodable v \<Longrightarrow> \<not> v_isNull v"
  by (simp add: encodable_def)

lemma decodeColumnValue_exact:
  assumes "decodeColumnValue col r = Inr (v, r')" "c_type col \<noteq> KindJSON"
  shows "wf_value v \<and> column_ok col v \<and> r = columnBytes col v @ r'"
proof -
  have one: "length t = Suc 0 \<Longrightarrow> t = [hd t]" for t :: bytes by (cases t) auto
  show ?thesis
    using assms
    by (auto simp: decodeColumnValue_def result_simps columnBytes_def column_ok_def one
        split: if_splits dest!: decodePayload_exact one dest: encodable_not_null)
qed

lemma decodeColumns_exact:
  "decodeColumns ts i cols r = Inr (pv, r') \<Longrightarrow> list_all (\<lambda>c. c_type c \<noteq> KindJSON) cols \<Longrightarrow>
   list_all wf_value pv \<and> list_all2 column_ok cols pv \<and> r = rowBytes cols pv @ r'"
proof (induction cols arbitrary: i r pv)
  case Nil
  then show ?case by simp
next
  case (Cons col cols)
  from Cons.prems obtain v r1 pv' where v: "decodeColumnValue col r = Inr (v, r1)"
    and pv': "decodeColumns ts (Suc i) cols r1 = Inr (pv', r')" "pv = v # pv'"
    by (auto simp: result_simps split: sum.splits bsatn_error.splits)
  show ?case
    using decodeColumnValue_exact [OF v] Cons.IH [OF pv'(1)] Cons.prems(2) pv'(2) by simp
qed

section \<open>Properties of the codec\<close>

text \<open>
  C19. Row codec round trip. A row of well-formed values that the schema-directed encoder
  accepts is appended to the buffer as bytes that both row decoders read back as the same row,
  and whose number is the one the size function predicts.
\<close>

theorem row_roundtrip:
  assumes "list_all wf_value pv" "AppendProductValueForSchema dst pv (Some ts) = Inr bs"
  shows "\<exists>row. bs = dst @ row \<and> DecodeProductValueFromBytes row (Some ts) = Inr pv \<and>
     DecodeProductValue row (Some ts) = Inr pv \<and>
     EncodedProductValueSizeForSchema pv (Some ts) = Inr (length row)"
proof -
  let ?cols = "ts_columns ts"
  have ok: "list_all2 column_ok ?cols pv" and bs: "bs = dst @ rowBytes ?cols pv"
    using assms(2) by (simp_all add: AppendProductValueForSchema_def AppendProductValueForColumns_iff)
  have "decodeProductValueColumns ts (rowBytes ?cols pv) = Inr (pv, [])"
    using decodeColumns_rowBytes [OF ok assms(1), of ts 0 "[]"]
    by (simp add: decodeProductValueColumns_def)
  moreover have "EncodedProductValueSizeForSchema pv (Some ts) = Inr (length (rowBytes ?cols pv))"
    using sizeColumns_rowBytes [OF ok assms(1)] list_all2_lengthD [OF ok]
    by (simp add: EncodedProductValueSizeForSchema_def EncodedProductValueSizeForColumns_def)
  ultimately show ?thesis
    by (intro exI [of _ "rowBytes ?cols pv"])
      (simp add: bs DecodeProductValueFromBytes_def DecodeProductValue_def readFull_def)
qed

definition exampleTable :: tableSchema where
  "exampleTable = \<lparr>ts_id = 1, ts_name = ''users'', ts_isEvent = False, ts_columns =
     [\<lparr>c_index = 0, c_name = ''id'', c_type = KindUint64, c_nullable = False, c_autoIncrement = True\<rparr>,
      \<lparr>c_index = 1, c_name = ''name'', c_type = KindString, c_nullable = True, c_autoIncrement = False\<rparr>],
     ts_indexes = [NewIndexSchema 1 ''pk'' [0] True True]\<rparr>"

definition exampleRow :: productValue where
  "exampleRow = [NewUint64 258, NewString [0x68, 0x69]]"

lemma exampleRow_wf: "list_all wf_value exampleRow"
  by (simp add: exampleRow_def)

lemmas append_eval =
  AppendProductValueForColumns_def appendColumnValue_def AppendValue_def constructor_defs Let_def
  put_le_def upt_rec liftV_def ValidateUTF8String_def utf8_valid.simps appendLengthPrefixed_def
  checkedValuePayloadLen_def maxValuePayloadBytes_def

abbreviation exampleBytes :: bytes where
  "exampleBytes \<equiv> [8, 2, 1, 0, 0, 0, 0, 0, 0, 11, 1, 2, 0, 0, 0, 0x68, 0x69]"

lemma exampleRow_encoded:
  "AppendProductValueForColumns [] exampleRow (ts_columns exampleTable) = Inr exampleBytes"
  by (simp add: exampleRow_def exampleTable_def append_eval)

theorem row_roundtrip_witness:
  "list_all wf_value exampleRow \<and>
   AppendProductValueForSchema [] exampleRow (Some exampleTable) = Inr exampleBytes \<and>
   DecodeProductValueFromBytes exampleBytes (Some exampleTable) = Inr exampleRow"
proof -
  have e: "AppendProductValueForSchema [] exampleRow (Some exampleTable) = Inr exampleBytes"
    by (simp add: AppendProductValueForSchema_def exampleRow_encoded)
  show ?thesis using row_roundtrip [OF exampleRow_wf e] exampleRow_wf e by auto
qed

text \<open>
  C20. Exactness of the row decoder. For a schema with no JSON column the bytes accepted as a
  row are exactly the encoding of that row: no second byte string decodes to it, and every
  value decoded is well formed.
\<close>

theorem row_codec_exact:
  assumes "list_all (\<lambda>c. c_type c \<noteq> KindJSON) (ts_columns ts)"
  shows "DecodeProductValueFromBytes data (Some ts) = Inr pv \<longleftrightarrow>
    list_all wf_value pv \<and> AppendProductValueForColumns [] pv (ts_columns ts) = Inr data"
proof
  assume "DecodeProductValueFromBytes data (Some ts) = Inr pv"
  then have "decodeColumns ts 0 (ts_columns ts) data = Inr (pv, [])"
    by (auto simp: DecodeProductValueFromBytes_def decodeProductValueColumns_def result_simps split: if_splits)
  from decodeColumns_exact [OF this assms]
  show "list_all wf_value pv \<and> AppendProductValueForColumns [] pv (ts_columns ts) = Inr data"
    by (simp add: AppendProductValueForColumns_iff)
next
  assume "list_all wf_value pv \<and> AppendProductValueForColumns [] pv (ts_columns ts) = Inr data"
  then show "DecodeProductValueFromBytes data (Some ts) = Inr pv"
    using decodeColumns_rowBytes [of "ts_columns ts" pv ts 0 "[]"]
    by (simp add: AppendProductValueForColumns_iff DecodeProductValueFromBytes_def decodeProductValueColumns_def)
qed

theorem row_codec_exact_witness:
  "list_all (\<lambda>c. c_type c \<noteq> KindJSON) (ts_columns exampleTable) \<and>
   DecodeProductValueFromBytes exampleBytes (Some exampleTable) = Inr exampleRow"
proof -
  have j: "list_all (\<lambda>c. c_type c \<noteq> KindJSON) (ts_columns exampleTable)"
    by (simp add: exampleTable_def)
  show ?thesis using row_codec_exact [OF j] j exampleRow_wf exampleRow_encoded by blast
qed



text \<open>
  C26. Value codec. Appending succeeds exactly on the values that are not null, hold valid
  UTF-8 and stay within the payload limits; the bytes appended have the predicted length and
  both value decoders read the value back and leave what follows.
\<close>

theorem value_roundtrip:
  assumes "wf_value v"
  shows "if encodable v
    then \<exists>enc. AppendValue dst v = Inr (dst @ enc) \<and> length enc = EncodedValueSize v \<and>
      DecodeValue (enc @ r) = Inr (v, r) \<and> DecodeValueExpecting (v_kind v) colName (enc @ r) = Inr (v, r)
    else \<exists>e. AppendValue dst v = Inl e"
proof (cases "encodable v")
  case True
  have tag: "readValueTag ((kindByte (v_kind v) # payloadOf v) @ r) = Inr (kindByte (v_kind v), payloadOf v @ r)"
    using readN_append [of "[kindByte (v_kind v)]" 1 BIO "payloadOf v @ r"] by (simp add: readValueTag_def)
  have "\<exists>enc. AppendValue dst v = Inr (dst @ enc) \<and> length enc = EncodedValueSize v \<and>
      DecodeValue (enc @ r) = Inr (v, r) \<and> DecodeValueExpecting (v_kind v) colName (enc @ r) = Inr (v, r)"
    using AppendValue_encodable [OF True, of dst]
      decodePayload_payloadOf [OF assms True] length_payloadOf [OF assms True]
    by (intro exI [of _ "kindByte (v_kind v) # payloadOf v"])
      (simp add: DecodeValue_def DecodeValueExpecting_def tag del: append_Cons)
  with True show ?thesis by simp
next
  case False
  then have "\<nexists>bs. AppendValue dst v = Inr bs" using encodable_iff by blast
  with False show ?thesis by (cases "AppendValue dst v") auto
qed

theorem value_roundtrip_witness:
  "wf_value (NewInt16 0xFFFE) \<and> AppendValue [] (NewInt16 0xFFFE) = Inr [3, 0xFE, 0xFF] \<and>
   DecodeValue [3, 0xFE, 0xFF, 9] = Inr (NewInt16 0xFFFE, [9])"
proof -
  have e: "AppendValue [] (NewInt16 0xFFFE) = Inr [3, 0xFE, 0xFF]"
    by (simp add: append_eval)
  have ok: "encodable (NewInt16 0xFFFE)" by (simp add: encodable_def)
  have wf: "wf_value (NewInt16 0xFFFE)" by simp
  show ?thesis
    using value_roundtrip [OF wf, of "[]" "[9]"] e ok wf by auto
qed

end
