(* ===== verification/IndexKeys.thy ===== *)
theory IndexKeys
  imports SchemaTypes
begin

text \<open>
  Index keys and bounds (\<^verbatim>\<open>src/store/index_key.go\<close>). A key is its list of parts. Comparing keys
  compares parts of one kind at each position; parts of different kinds panic (\<open>None\<close>).
  Ordering laws are stated on \<open>compareKey\<close>, the total extension that orders kinds first and agrees
  with the code wherever the code does not panic.
\<close>

type_synonym rowID = u64
type_synonym txID = u64
type_synonym indexKey = "go_value list"

section \<open>Keys\<close>

definition NewIndexKey :: "go_value list \<Rightarrow> indexKey" where
  "NewIndexKey parts = map Copy parts"

fun keyCompare :: "indexKey \<Rightarrow> indexKey \<Rightarrow> int option" where
  "keyCompare (x # k) (y # other) =
     do { c \<leftarrow> Compare x y; if c \<noteq> 0 then Some c else keyCompare k other }"
| "keyCompare [] (y # other) = Some (-1)"
| "keyCompare (x # k) [] = Some 1"
| "keyCompare [] [] = Some 0"

fun comparePrefix :: "indexKey \<Rightarrow> indexKey \<Rightarrow> int option" where
  "comparePrefix (x # k) (y # prefix) =
     do { c \<leftarrow> Compare x y; if c \<noteq> 0 then Some c else comparePrefix k prefix }"
| "comparePrefix [] (y # prefix) = Some (-1)"
| "comparePrefix k [] = Some 0"

definition keyEqual :: "indexKey \<Rightarrow> indexKey \<Rightarrow> bool option" where
  "keyEqual k other = do { c \<leftarrow> keyCompare k other; Some (c = 0) }"

definition keyHash64 :: "indexKey \<Rightarrow> u64 option" where
  "keyHash64 k = productHash64 k"

text \<open>An index out of the row's range panics.\<close>

fun ExtractKey :: "productValue \<Rightarrow> nat list \<Rightarrow> indexKey option" where
  "ExtractKey row [] = Some []"
| "ExtractKey row (col # columns) =
     (if col < length row then do {
        parts \<leftarrow> ExtractKey row columns;
        Some (Copy (row ! col) # parts)
      } else None)"

section \<open>Bounds\<close>

record bound =
  b_values :: productValue
  b_value :: go_value
  b_inclusive :: bool
  b_unbounded :: bool

text \<open>The zero \<open>types.Value\<close> has the first kind.\<close>

definition UnboundedBound :: bound where
  "UnboundedBound = \<lparr>b_values = [], b_value = zeroValue KindBool, b_inclusive = False, b_unbounded = True\<rparr>"

definition bounded :: "go_value list \<Rightarrow> bool \<Rightarrow> bound option" where
  "bounded values inclusive =
     (case values of
        [] \<Rightarrow> None
      | [v] \<Rightarrow> Some \<lparr>b_values = [], b_value = Copy v, b_inclusive = inclusive, b_unbounded = False\<rparr>
      | _ \<Rightarrow> Some \<lparr>b_values = productCopy values, b_value = zeroValue KindBool,
               b_inclusive = inclusive, b_unbounded = False\<rparr>)"

definition Inclusive :: "go_value list \<Rightarrow> bound option" where
  "Inclusive values = bounded values True"

definition Exclusive :: "go_value list \<Rightarrow> bound option" where
  "Exclusive values = bounded values False"

definition indexKeyForBound :: "bound \<Rightarrow> indexKey" where
  "indexKeyForBound b =
     (if length (b_values b) \<noteq> 0 then NewIndexKey (b_values b) else NewIndexKey [b_value b])"

definition matchesLowerBound :: "indexKey \<Rightarrow> bound \<Rightarrow> bool option" where
  "matchesLowerBound key b =
     (if b_unbounded b then Some True
      else do { c \<leftarrow> comparePrefix key (indexKeyForBound b);
                Some (if b_inclusive b then c \<ge> 0 else c > 0) })"

definition matchesUpperBound :: "indexKey \<Rightarrow> bound \<Rightarrow> bool option" where
  "matchesUpperBound key b =
     (if b_unbounded b then Some True
      else do { c \<leftarrow> comparePrefix key (indexKeyForBound b);
                Some (if b_inclusive b then c \<le> 0 else c < 0) })"

definition indexKeyInRange :: "indexKey \<Rightarrow> indexKey option \<Rightarrow> indexKey option \<Rightarrow> bool option" where
  "indexKeyInRange key low high = do {
     lo \<leftarrow> (case low of None \<Rightarrow> Some False
           | Some l \<Rightarrow> do { c \<leftarrow> keyCompare key l; Some (c < 0) });
     if lo then Some False
     else do {
       hi \<leftarrow> (case high of None \<Rightarrow> Some False
             | Some h \<Rightarrow> do { c \<leftarrow> keyCompare key h; Some (c \<ge> 0) });
       Some (\<not> hi)
     }
   }"

section \<open>The order of keys\<close>

definition compareAny :: "go_value \<Rightarrow> go_value \<Rightarrow> int" where
  "compareAny v w =
     cmpThen (cmpCompare (kindByte (v_kind v)) (kindByte (v_kind w))) (compareV v w)"

lemma compareAny_same_kind: "v_kind v = v_kind w \<Longrightarrow> compareAny v w = compareV v w"
  by (simp add: compareAny_def cmpThen_def)

lemma compareAny_other_kind:
  "v_kind v \<noteq> v_kind w \<Longrightarrow> compareAny v w = cmpCompare (kindByte (v_kind v)) (kindByte (v_kind w))"
  by (simp add: compareAny_def cmpThen_def kindByte_inj)

interpretation any_order: comparator compareAny "\<lambda>_. True"
proof
  fix x y :: go_value
  show "compareAny x y \<in> {-1, 0, 1}"
  proof (cases "v_kind x = v_kind y")
    case True
    then show ?thesis
      using value_order.cmp_range [where k = "v_kind y" and x = x and y = y]
      by (simp add: compareAny_same_kind)
  next
    case False
    then show ?thesis by (simp add: compareAny_other_kind cmpCompare_def)
  qed
  show "compareAny y x = - compareAny x y"
  proof (cases "v_kind x = v_kind y")
    case True
    then show ?thesis
      using value_order.cmp_anti [where k = "v_kind y" and x = x and y = y]
      by (simp add: compareAny_same_kind)
  next
    case False
    then show ?thesis by (auto simp: compareAny_other_kind cmpCompare_def)
  qed
next
  fix x y z :: go_value
  assume xy: "compareAny x y \<le> 0" and yz: "compareAny y z \<le> 0"
  have le: "kindByte (v_kind x) \<le> kindByte (v_kind y)" "kindByte (v_kind y) \<le> kindByte (v_kind z)"
    using xy yz by (cases "v_kind x = v_kind y"; cases "v_kind y = v_kind z";
        simp add: compareAny_other_kind)+
  show "compareAny x z \<le> 0"
  proof (cases "v_kind x = v_kind z")
    case True
    then have "v_kind y = v_kind z" using le kindByte_inj by (metis order_antisym)
    then show ?thesis
      using xy yz True value_order.cmp_trans [where k = "v_kind z" and x = x and y = y and z = z]
      by (simp add: compareAny_same_kind)
  next
    case False
    then show ?thesis using le by (simp add: compareAny_other_kind)
  qed
qed

definition compareKey :: "indexKey \<Rightarrow> indexKey \<Rightarrow> int" where
  "compareKey = lexCompare compareAny"

interpretation key_order: comparator compareKey "\<lambda>_. True"
proof -
  have "list_all (\<lambda>_ :: go_value. True) = (\<lambda>_. True)" by (simp add: fun_eq_iff list_all_iff)
  then show "comparator compareKey (\<lambda>_. True)"
    using any_order.lex_comparator by (simp add: compareKey_def)
qed

text \<open>Two keys are comparable when they have the same kinds at their common positions.\<close>

fun comparable :: "indexKey \<Rightarrow> indexKey \<Rightarrow> bool" where
  "comparable (x # k) (y # other) \<longleftrightarrow> v_kind x = v_kind y \<and> comparable k other"
| "comparable _ _ \<longleftrightarrow> True"

lemma keyCompare_eq: "comparable k l \<Longrightarrow> keyCompare k l = Some (compareKey k l)"
  by (induction k l rule: keyCompare.induct)
    (simp_all add: compareKey_def Compare_same_kind compareAny_same_kind)

definition compareKeyPrefix :: "indexKey \<Rightarrow> indexKey \<Rightarrow> int" where
  "compareKeyPrefix k p = compareKey (take (length p) k) p"

lemma comparePrefix_eq: "comparable k p \<Longrightarrow> comparePrefix k p = Some (compareKeyPrefix k p)"
  by (induction k p rule: comparePrefix.induct)
    (simp_all add: compareKeyPrefix_def compareKey_def Compare_same_kind compareAny_same_kind)

lemma comparable_kinds:
  "map v_kind k = sg \<Longrightarrow> map v_kind l = take (length l) sg \<Longrightarrow> comparable k l"
  by (induction k l arbitrary: sg rule: comparable.induct) auto

lemma keyEqual_eq: "comparable k l \<Longrightarrow> keyEqual k l = Some (compareKey k l = 0)"
  by (simp add: keyEqual_def keyCompare_eq)

text \<open>Truncating both keys keeps their order; a key below a bound is below it as a prefix.\<close>

lemma compareKey_take_mono: "compareKey k l \<le> 0 \<Longrightarrow> compareKey (take n k) (take n l) \<le> 0"
proof (induction k l arbitrary: n rule: list_induct2')
  case (4 x k y l)
  then show ?case by (cases n) (auto simp: compareKey_def split: if_splits)
next
  case (3 y l)
  then show ?case by (cases n) (auto simp: compareKey_def)
qed (simp_all add: compareKey_def)

lemma compareKeyPrefix_mono:
  assumes "compareKey k l \<le> 0" "compareKeyPrefix l p \<le> 0"
  shows "compareKeyPrefix k p \<le> 0"
  using key_order.cmp_trans [of "take (length p) k" "take (length p) l" p]
    compareKey_take_mono [OF assms(1)] assms(2)
  by (simp add: compareKeyPrefix_def)

lemma compareKeyPrefix_strict_mono:
  assumes "compareKey k l \<le> 0" "compareKeyPrefix l p < 0"
  shows "compareKeyPrefix k p < 0"
  using key_order.cmp_le_less_trans [of "take (length p) k" "take (length p) l" p]
    compareKey_take_mono [OF assms(1)] assms(2)
  by (simp add: compareKeyPrefix_def)

lemma compareKey_less_prefix: "compareKey k p < 0 \<Longrightarrow> compareKeyPrefix k p < 0"
  by (induction k p rule: list_induct2') (auto simp: compareKey_def compareKeyPrefix_def split: if_splits)

section \<open>Extracted keys\<close>

lemma ExtractKey_eq:
  "ExtractKey row cols = (if list_all (\<lambda>c. c < length row) cols
     then Some (map (\<lambda>c. Copy (row ! c)) cols) else None)"
  by (induction row cols rule: ExtractKey.induct) auto

text \<open>Keys of equal order have equal parts, hence equal hashes.\<close>

lemma compareKey_0_iff:
  "list_all nanFree k \<Longrightarrow> list_all nanFree l \<Longrightarrow> compareKey k l = 0 \<longleftrightarrow> productEqual k l"
proof (induction k l rule: list_induct2')
  case (4 x k y l)
  have "compareAny x y = 0 \<longleftrightarrow> EqualValues x y"
  proof (cases "v_kind x = v_kind y")
    case True
    then show ?thesis
      using Compare_zero_iff_Equal [of x y] 4
      by (simp add: compareAny_same_kind Compare_same_kind)
  next
    case False
    then show ?thesis by (auto simp: compareAny_other_kind kindByte_inj dest: EqualValues_kind)
  qed
  with 4 show ?case by (auto simp: compareKey_def productEqual_def)
qed (simp_all add: compareKey_def productEqual_def)

lemma keyHash64_cong: "productEqual k l \<Longrightarrow> keyHash64 k = keyHash64 l"
  by (simp add: keyHash64_def productHash64_def productHash64From_eq productHash_Equal)

end
