(* ===== verification/BTree.thy ===== *)
theory BTree
  imports IndexKeys
begin

text \<open>
  The paged sorted index (\<^verbatim>\<open>src/store/btree_index.go\<close>). The abstract value of an index is the
  concatenation of its pages, a strictly sorted list of entries; each operation refines a
  reference operation on that list and keeps the page shape. Iterators are the lists they
  yield; a key comparison that panics is \<open>None\<close>.
\<close>

section \<open>State\<close>

definition btreePageMaxEntries :: nat where "btreePageMaxEntries = 64"

record btreeEntry =
  e_key :: indexKey
  e_rowIDs :: "rowID list"

type_synonym btreePage = "btreeEntry list"

record bTreeIndex =
  bt_pages :: "btreePage list"
  bt_mappings :: int

definition NewBTreeIndex :: bTreeIndex where
  "NewBTreeIndex = \<lparr>bt_pages = [], bt_mappings = 0\<rparr>"

text \<open>\<open>slices.Insert\<close>, \<open>slices.Delete\<close> and \<open>slices.BinarySearch\<close>, at positions in range.\<close>

definition slicesInsert :: "'a list \<Rightarrow> nat \<Rightarrow> 'a \<Rightarrow> 'a list" where
  "slicesInsert xs i x = take i xs @ x # drop i xs"

definition slicesDelete :: "'a list \<Rightarrow> nat \<Rightarrow> nat \<Rightarrow> 'a list" where
  "slicesDelete xs i j = take i xs @ drop j xs"

definition slicesBinarySearch :: "'a::linorder list \<Rightarrow> 'a \<Rightarrow> (nat \<times> bool) option" where
  "slicesBinarySearch xs x = binarySearchFunc (\<lambda>y. Some (cmpCompare y x)) xs"

section \<open>Operations\<close>

definition lowerBound :: "bTreeIndex \<Rightarrow> indexKey \<Rightarrow> (nat \<times> nat \<times> bool) option" where
  "lowerBound b key =
     (if bt_pages b = [] then Some (0, 0, False)
      else do {
        (pageIdx, _) \<leftarrow> binarySearchFunc
          (\<lambda>p. if p = [] then None else keyCompare (e_key (last p)) key) (bt_pages b);
        if pageIdx = length (bt_pages b) then Some (pageIdx, 0, False)
        else do {
          (entryIdx, found) \<leftarrow> binarySearchFunc (\<lambda>e. keyCompare (e_key e) key)
            (bt_pages b ! pageIdx);
          Some (pageIdx, entryIdx, found)
        }
      })"

definition splitPage :: "bTreeIndex \<Rightarrow> nat \<Rightarrow> bTreeIndex" where
  "splitPage b pageIdx =
     (let p = bt_pages b ! pageIdx in
      if length p \<le> btreePageMaxEntries then b
      else (let mid = length p div 2; rightEntries = drop mid p in
        b\<lparr>bt_pages := slicesInsert ((bt_pages b)[pageIdx := take mid p]) (pageIdx + 1) rightEntries\<rparr>))"

definition mergeSparsePage :: "bTreeIndex \<Rightarrow> nat \<Rightarrow> bTreeIndex" where
  "mergeSparsePage b pageIdx =
     (let pages = bt_pages b in
      if pageIdx \<ge> length pages \<or> length pages < 2 then b
      else (let p = pages ! pageIdx in
        if length p \<ge> btreePageMaxEntries div 4 then b
        else if pageIdx > 0
          \<and> length (pages ! (pageIdx - 1)) + length p \<le> btreePageMaxEntries
        then b\<lparr>bt_pages := slicesDelete (pages[pageIdx - 1 := pages ! (pageIdx - 1) @ p])
                 pageIdx (pageIdx + 1)\<rparr>
        else if pageIdx + 1 < length pages
          \<and> length p + length (pages ! (pageIdx + 1)) \<le> btreePageMaxEntries
        then b\<lparr>bt_pages := slicesDelete (pages[pageIdx := p @ pages ! (pageIdx + 1)])
                 (pageIdx + 1) (pageIdx + 2)\<rparr>
        else b))"

definition setEntryRowIDs :: "bTreeIndex \<Rightarrow> nat \<Rightarrow> nat \<Rightarrow> rowID list \<Rightarrow> bTreeIndex" where
  "setEntryRowIDs b pageIdx entryIdx ids =
     (let p = bt_pages b ! pageIdx in
      b\<lparr>bt_pages := (bt_pages b)[pageIdx := p[entryIdx := (p ! entryIdx)\<lparr>e_rowIDs := ids\<rparr>]]\<rparr>)"

definition incMappings :: "int \<Rightarrow> bTreeIndex \<Rightarrow> bTreeIndex" where
  "incMappings d b = b\<lparr>bt_mappings := bt_mappings b + d\<rparr>"

definition btInsert :: "bTreeIndex \<Rightarrow> indexKey \<Rightarrow> rowID \<Rightarrow> bTreeIndex option" where
  "btInsert b key rowID =
     (if bt_pages b = []
      then Some (incMappings 1 (b\<lparr>bt_pages := [[\<lparr>e_key = key, e_rowIDs = [rowID]\<rparr>]]\<rparr>))
      else do {
        (pageIdx, entryIdx, found) \<leftarrow> lowerBound b key;
        let (pageIdx, entryIdx) =
          (if pageIdx = length (bt_pages b)
           then (length (bt_pages b) - 1, length (bt_pages b ! (length (bt_pages b) - 1)))
           else (pageIdx, entryIdx));
        let p = bt_pages b ! pageIdx;
        if found then
          (let ids = e_rowIDs (p ! entryIdx) in
           if ids = [] \<or> last ids < rowID
           then Some (incMappings 1 (setEntryRowIDs b pageIdx entryIdx (ids @ [rowID])))
           else do {
             (pos, exists) \<leftarrow> slicesBinarySearch ids rowID;
             if exists then Some b
             else Some (incMappings 1
               (setEntryRowIDs b pageIdx entryIdx (slicesInsert ids pos rowID)))
           })
        else
          (let b = b\<lparr>bt_pages := (bt_pages b)[pageIdx :=
                     slicesInsert p entryIdx \<lparr>e_key = key, e_rowIDs = [rowID]\<rparr>]\<rparr>
           in Some (splitPage (incMappings 1 b) pageIdx))
      })"

definition btRemove :: "bTreeIndex \<Rightarrow> indexKey \<Rightarrow> rowID \<Rightarrow> bTreeIndex option" where
  "btRemove b key rowID = do {
     (pageIdx, entryIdx, found) \<leftarrow> lowerBound b key;
     if \<not> found then Some b
     else (let p = bt_pages b ! pageIdx; ids = e_rowIDs (p ! entryIdx) in do {
       (pos, ok) \<leftarrow> slicesBinarySearch ids rowID;
       if \<not> ok then Some b
       else (let ids = slicesDelete ids pos (pos + 1);
                 b = incMappings (-1) (setEntryRowIDs b pageIdx entryIdx ids) in
         if length ids \<noteq> 0 then Some b
         else (let p = slicesDelete (bt_pages b ! pageIdx) entryIdx (entryIdx + 1);
                   b = b\<lparr>bt_pages := (bt_pages b)[pageIdx := p]\<rparr> in
           if length p = 0
           then Some (b\<lparr>bt_pages := slicesDelete (bt_pages b) pageIdx (pageIdx + 1)\<rparr>)
           else Some (mergeSparsePage b pageIdx)))
     })
   }"

definition btRowIDs :: "bTreeIndex \<Rightarrow> indexKey \<Rightarrow> rowID list option" where
  "btRowIDs b key = do {
     (pageIdx, entryIdx, found) \<leftarrow> lowerBound b key;
     if \<not> found then Some [] else Some (e_rowIDs (bt_pages b ! pageIdx ! entryIdx))
   }"

definition btSeek :: "bTreeIndex \<Rightarrow> indexKey \<Rightarrow> rowID list option" where
  "btSeek b key = btRowIDs b key"

definition btLen :: "bTreeIndex \<Rightarrow> int" where
  "btLen b = bt_mappings b"

text \<open>The entries an iteration visits: page \<open>startPage\<close> from \<open>startEntry\<close>, then every later page.\<close>

definition entriesFrom :: "bTreeIndex \<Rightarrow> nat \<Rightarrow> nat \<Rightarrow> btreeEntry list" where
  "entriesFrom b startPage startEntry =
     (case drop startPage (bt_pages b) of
        [] \<Rightarrow> [] | p # ps \<Rightarrow> drop startEntry p @ concat ps)"

fun rangeLoop :: "indexKey option \<Rightarrow> btreeEntry list \<Rightarrow> rowID list option" where
  "rangeLoop high [] = Some []"
| "rangeLoop high (e # es) = do {
     stop \<leftarrow> (case high of None \<Rightarrow> Some False
             | Some h \<Rightarrow> do { c \<leftarrow> keyCompare (e_key e) h; Some (c \<ge> 0) });
     if stop then Some []
     else do { rest \<leftarrow> rangeLoop high es; Some (e_rowIDs e @ rest) }
   }"

definition btSeekRange :: "bTreeIndex \<Rightarrow> indexKey option \<Rightarrow> indexKey option \<Rightarrow> rowID list option" where
  "btSeekRange b low high = do {
     (startPage, startEntry) \<leftarrow> (case low of None \<Rightarrow> Some (0, 0)
       | Some l \<Rightarrow> do { (p, e, _) \<leftarrow> lowerBound b l; Some (p, e) });
     rangeLoop high (entriesFrom b startPage startEntry)
   }"

definition btScan :: "bTreeIndex \<Rightarrow> rowID list option" where
  "btScan b = btSeekRange b None None"

fun boundsLoop :: "bound \<Rightarrow> bound \<Rightarrow> btreeEntry list \<Rightarrow> rowID list option" where
  "boundsLoop low high [] = Some []"
| "boundsLoop low high (e # es) = do {
     skip \<leftarrow> (if b_unbounded low then Some False
       else do { c \<leftarrow> comparePrefix (e_key e) (indexKeyForBound low);
                 Some (c < 0 \<or> c = 0 \<and> \<not> b_inclusive low) });
     if skip then boundsLoop low high es
     else do {
       stop \<leftarrow> (if b_unbounded high then Some False
         else do { c \<leftarrow> comparePrefix (e_key e) (indexKeyForBound high);
                   Some (if b_inclusive high then c > 0 else c \<ge> 0) });
       if stop then Some []
       else do { rest \<leftarrow> boundsLoop low high es; Some (e_rowIDs e @ rest) }
     }
   }"

definition btSeekBounds :: "bTreeIndex \<Rightarrow> bound \<Rightarrow> bound \<Rightarrow> rowID list option" where
  "btSeekBounds b low high = do {
     (startPage, startEntry) \<leftarrow> (if b_unbounded low then Some (0, 0)
       else do { (p, e, _) \<leftarrow> lowerBound b (indexKeyForBound low); Some (p, e) });
     boundsLoop low high (entriesFrom b startPage startEntry)
   }"

definition btCollectBounds :: "bTreeIndex \<Rightarrow> bound \<Rightarrow> bound \<Rightarrow> rowID list option" where
  "btCollectBounds b low high = btSeekBounds b low high"

section \<open>Reference operations on a sorted entry list\<close>

abbreviation entryCmp :: "indexKey \<Rightarrow> btreeEntry \<Rightarrow> int" where
  "entryCmp k e \<equiv> compareKey (e_key e) k"

definition sorted_entries :: "btreeEntry list \<Rightarrow> bool" where
  "sorted_entries es \<longleftrightarrow> sorted_wrt (\<lambda>a b. compareKey (e_key a) (e_key b) < 0) es"

fun lookup_entries :: "indexKey \<Rightarrow> btreeEntry list \<Rightarrow> rowID list" where
  "lookup_entries k [] = []"
| "lookup_entries k (e # es) = (if entryCmp k e = 0 then e_rowIDs e else lookup_entries k es)"

fun ins_entries :: "indexKey \<Rightarrow> rowID \<Rightarrow> btreeEntry list \<Rightarrow> btreeEntry list" where
  "ins_entries k r [] = [\<lparr>e_key = k, e_rowIDs = [r]\<rparr>]"
| "ins_entries k r (e # es) =
     (if entryCmp k e < 0 then e # ins_entries k r es
      else if entryCmp k e = 0 then e\<lparr>e_rowIDs := insort_insert r (e_rowIDs e)\<rparr> # es
      else \<lparr>e_key = k, e_rowIDs = [r]\<rparr> # e # es)"

fun rem_entries :: "indexKey \<Rightarrow> rowID \<Rightarrow> btreeEntry list \<Rightarrow> btreeEntry list" where
  "rem_entries k r [] = []"
| "rem_entries k r (e # es) =
     (if entryCmp k e < 0 then e # rem_entries k r es
      else if entryCmp k e = 0 \<and> r \<in> set (e_rowIDs e) then
        (if remove1 r (e_rowIDs e) = [] then es
         else e\<lparr>e_rowIDs := remove1 r (e_rowIDs e)\<rparr> # es)
      else e # es)"

definition entry_ok :: "btreeEntry \<Rightarrow> bool" where
  "entry_ok e \<longleftrightarrow> e_rowIDs e \<noteq> [] \<and> sorted_wrt (<) (e_rowIDs e)"

definition entries_size :: "btreeEntry list \<Rightarrow> nat" where
  "entries_size es = sum_list (map (\<lambda>e. length (e_rowIDs e)) es)"

lemma entries_size_simps [simp]:
  "entries_size [] = 0" "entries_size (e # es) = length (e_rowIDs e) + entries_size es"
  "entries_size (xs @ ys) = entries_size xs + entries_size ys"
  by (simp_all add: entries_size_def)

text \<open>Operations pass over the entries below the key.\<close>

lemma below_append:
  assumes "\<forall>x \<in> set xs. entryCmp k x < 0"
  shows "ins_entries k r (xs @ ys) = xs @ ins_entries k r ys"
    "rem_entries k r (xs @ ys) = xs @ rem_entries k r ys"
    "lookup_entries k (xs @ ys) = lookup_entries k ys"
  using assms by (induction xs) auto

lemma lookup_above: "\<forall>x \<in> set es. 0 < entryCmp k x \<Longrightarrow> lookup_entries k es = []"
  by (induction es) auto

lemma sorted_entries_Cons:
  "sorted_entries (e # es) \<longleftrightarrow> (\<forall>x \<in> set es. compareKey (e_key e) (e_key x) < 0) \<and> sorted_entries es"
  by (simp add: sorted_entries_def)

lemma sorted_entries_append:
  "sorted_entries (xs @ ys) \<longleftrightarrow> sorted_entries xs \<and> sorted_entries ys \<and>
   (\<forall>x \<in> set xs. \<forall>y \<in> set ys. compareKey (e_key x) (e_key y) < 0)"
  by (auto simp: sorted_entries_def sorted_wrt_append)

lemma above_head:
  "sorted_entries (e # es) \<Longrightarrow> 0 \<le> entryCmp k e \<Longrightarrow> x \<in> set es \<Longrightarrow> 0 < entryCmp k x"
proof -
  assume s: "sorted_entries (e # es)" and e: "0 \<le> entryCmp k e" and x: "x \<in> set es"
  have "compareKey k (e_key e) \<le> 0" using e key_order.cmp_anti [of "e_key e" k] by simp
  moreover have "compareKey (e_key e) (e_key x) < 0" using s x by (simp add: sorted_entries_Cons)
  ultimately have "compareKey k (e_key x) < 0" using key_order.cmp_le_less_trans by blast
  then show ?thesis using key_order.cmp_anti [of k "e_key x"] by simp
qed

section \<open>The reference operations keep the order and act on one key\<close>

lemma set_ins_entries_keys:
  "x \<in> set (ins_entries k r es) \<Longrightarrow> e_key x = k \<or> (\<exists>y \<in> set es. e_key x = e_key y)"
  by (induction es) (auto split: if_splits)

lemma set_rem_entries_keys: "x \<in> set (rem_entries k r es) \<Longrightarrow> \<exists>y \<in> set es. e_key x = e_key y"
  by (induction es) (auto split: if_splits)

lemma sorted_ins_entries: "sorted_entries es \<Longrightarrow> sorted_entries (ins_entries k r es)"
proof (induction es)
  case (Cons e es)
  have gt: "compareKey k (e_key e) < 0" if "0 < entryCmp k e"
    using that key_order.cmp_anti [of "e_key e" k] by simp
  have tr: "compareKey k (e_key x) < 0" if "0 < entryCmp k e" "x \<in> set es" for x
    using above_head [OF Cons.prems _ that(2), of k] that(1) key_order.cmp_anti [of "e_key x" k] by simp
  show ?case
    using Cons gt tr by (auto simp: sorted_entries_Cons dest!: set_ins_entries_keys)
qed (simp add: sorted_entries_def)

lemma sorted_rem_entries: "sorted_entries es \<Longrightarrow> sorted_entries (rem_entries k r es)"
  by (induction es) (auto simp: sorted_entries_Cons dest!: set_rem_entries_keys)

lemma strict_insort_insert:
  "sorted_wrt (<) (xs :: rowID list) \<Longrightarrow> sorted_wrt (<) (insort_insert r xs)"
  by (simp add: strict_sorted_iff sorted_insort_insert distinct_insort_insert)

lemma strict_remove1: "sorted_wrt (<) (xs :: rowID list) \<Longrightarrow> sorted_wrt (<) (remove1 r xs)"
  by (simp add: strict_sorted_iff sorted_remove1 distinct_remove1)

lemma insort_insert_not_Nil: "insort_insert r xs \<noteq> []"
  by (metis insort_insert_insort_key insert_not_empty set_insort_insert list.set(1))

lemma ok_ins_entries: "list_all entry_ok es \<Longrightarrow> list_all entry_ok (ins_entries k r es)"
  by (induction es) (auto simp: entry_ok_def strict_insort_insert insort_insert_not_Nil)

lemma ok_rem_entries: "list_all entry_ok es \<Longrightarrow> list_all entry_ok (rem_entries k r es)"
  by (induction es) (auto simp: entry_ok_def strict_remove1)

lemma length_insort_insert:
  "length (insort_insert r xs) = (if r \<in> set xs then length xs else Suc (length xs))"
  by (simp add: insort_insert_key_def insort_insert_insort)

lemma size_ins_entries:
  "sorted_entries es \<Longrightarrow>
   entries_size (ins_entries k r es) = entries_size es + (if r \<in> set (lookup_entries k es) then 0 else 1)"
proof (induction es)
  case (Cons e es)
  have "lookup_entries k es = []" if "0 < entryCmp k e"
    using above_head [OF Cons.prems, of k] that by (intro lookup_above) auto
  with Cons show ?case by (auto simp: length_insort_insert sorted_entries_Cons)
qed simp

lemma size_rem_entries:
  "sorted_entries es \<Longrightarrow>
   entries_size es = entries_size (rem_entries k r es) + (if r \<in> set (lookup_entries k es) then 1 else 0)"
proof (induction es)
  case (Cons e es)
  have above: "lookup_entries k es = []" if "0 < entryCmp k e"
    using above_head [OF Cons.prems, of k] that by (intro lookup_above) auto
  have "length (e_rowIDs e) = Suc (length (remove1 r (e_rowIDs e)))" if "r \<in> set (e_rowIDs e)"
    using that by (simp add: length_remove1 Suc_pred [OF length_pos_if_in_set])
  with Cons above show ?case by (fastforce simp: sorted_entries_Cons)
qed simp

lemma entryCmp_cong: "compareKey k k' = 0 \<Longrightarrow> entryCmp k e = entryCmp k' e"
  using key_order.cmp_cong_right [of k k' "e_key e"] by simp

lemma key_cong_left: "compareKey a k = 0 \<Longrightarrow> compareKey a k' = compareKey k k'"
  using key_order.cmp_cong_left [of a k k'] by simp

lemma lookup_ins_entries:
  "sorted_entries es \<Longrightarrow>
   lookup_entries k' (ins_entries k r es) =
     (if compareKey k k' = 0 then insort_insert r (lookup_entries k' es) else lookup_entries k' es)"
proof (induction es)
  case Nil
  then show ?case by (simp add: insort_insert_key_def)
next
  case (Cons e es)
  have s: "sorted_entries es" using Cons.prems by (simp add: sorted_entries_Cons)
  have none: "lookup_entries k' (e # es) = []" if "0 < entryCmp k e" "compareKey k k' = 0"
    using that above_head [OF Cons.prems, of k'] entryCmp_cong [OF that(2), of e]
    by (intro lookup_above) auto
  consider "entryCmp k e < 0" | "entryCmp k e = 0" | "0 < entryCmp k e" by linarith
  then show ?case
  proof cases
    case 1
    then have "compareKey k k' = 0 \<Longrightarrow> entryCmp k' e \<noteq> 0" using entryCmp_cong [of k k' e] by auto
    with 1 Cons.IH [OF s] show ?thesis by auto
  next
    case 2
    then show ?thesis using key_cong_left [OF 2, of k'] by auto
  next
    case 3
    then show ?thesis using none by (auto simp: insort_insert_key_def)
  qed
qed

lemma lookup_rem_entries:
  "sorted_entries es \<Longrightarrow> lookup_entries k' (rem_entries k r es) =
     (if compareKey k k' = 0 then remove1 r (lookup_entries k' es) else lookup_entries k' es)"
proof (induction es)
  case (Cons e es)
  have s: "sorted_entries es" using Cons.prems by (simp add: sorted_entries_Cons)
  have none: "lookup_entries k' es = []" if "0 \<le> entryCmp k' e"
    using that above_head [OF Cons.prems, of k'] by (intro lookup_above) auto
  consider "entryCmp k e < 0" | "entryCmp k e = 0" | "0 < entryCmp k e" by linarith
  then show ?case
  proof cases
    case 1
    then have "compareKey k k' = 0 \<Longrightarrow> entryCmp k' e \<noteq> 0" using entryCmp_cong [of k k' e] by auto
    with 1 Cons.IH [OF s] show ?thesis by auto
  next
    case 2
    then show ?thesis using none key_cong_left [OF 2, of k'] by (auto simp: remove1_idem)
  next
    case 3
    then show ?thesis using none entryCmp_cong [of k k' e] by (auto simp: remove1_idem)
  qed
qed simp

section \<open>Invariant of the paged index\<close>

definition page_ok :: "btreePage \<Rightarrow> bool" where
  "page_ok p \<longleftrightarrow> p \<noteq> [] \<and> length p \<le> btreePageMaxEntries"

text \<open>\<open>sg\<close> lists the kinds of the index columns.\<close>

definition bt_inv :: "value_kind list \<Rightarrow> bTreeIndex \<Rightarrow> bool" where
  [wf_defs]: "bt_inv sg b \<longleftrightarrow> list_all page_ok (bt_pages b) \<and>
     sorted_entries (concat (bt_pages b)) \<and> list_all entry_ok (concat (bt_pages b)) \<and>
     (\<forall>e \<in> set (concat (bt_pages b)). map v_kind (e_key e) = sg) \<and>
     bt_mappings b = int (entries_size (concat (bt_pages b)))"

definition key_for :: "value_kind list \<Rightarrow> indexKey \<Rightarrow> bool" where
  "key_for sg k \<longleftrightarrow> map v_kind k = take (length k) sg"

lemma key_for_full: "map v_kind k = sg \<Longrightarrow> key_for sg k"
  by (metis key_for_def length_map order_refl take_all)

lemma bt_inv_empty: "bt_inv sg NewBTreeIndex"
  by (simp add: bt_inv_def NewBTreeIndex_def sorted_entries_def)

section \<open>Searching the pages\<close>

lemma sorted_wrt_concat:
  "sorted_wrt P (concat ps) \<Longrightarrow> sorted_wrt (\<lambda>p q. \<forall>x \<in> set p. \<forall>y \<in> set q. P x y) ps"
  by (induction ps) (auto simp: sorted_wrt_append)

lemma sorted_partitioned:
  assumes "sorted_entries es"
  shows "partitioned (entryCmp k) es"
  unfolding partitioned_def
  using assms [unfolded sorted_entries_def]
  by (rule sorted_wrt_mono_rel [rotated]) (use key_order.cmp_less_trans in fastforce)

lemma sorted_last: "sorted_entries p \<Longrightarrow> x \<in> set p \<Longrightarrow> compareKey (e_key x) (e_key (last p)) \<le> 0"
proof (induction p)
  case (Cons e p)
  then show ?case
    by (cases "p = []") (auto simp: sorted_entries_Cons key_order.cmp_refl intro: less_imp_le)
qed simp

lemma pages_partitioned:
  assumes "sorted_entries (concat ps)" "\<forall>p \<in> set ps. p \<noteq> []"
  shows "partitioned (\<lambda>p. entryCmp k (last p)) ps"
  unfolding partitioned_def
proof (rule sorted_wrt_mono_rel)
  show "sorted_wrt (\<lambda>p q. \<forall>x \<in> set p. \<forall>y \<in> set q. compareKey (e_key x) (e_key y) < 0) ps"
    using assms(1) sorted_wrt_concat unfolding sorted_entries_def by blast
  fix p q assume "p \<in> set ps" "q \<in> set ps" "\<forall>x \<in> set p. \<forall>y \<in> set q. compareKey (e_key x) (e_key y) < 0"
  then have "compareKey (e_key (last p)) (e_key (last q)) < 0" using assms(2) by simp
  then show "entryCmp k (last q) < 0 \<longrightarrow> entryCmp k (last p) < 0"
    using key_order.cmp_less_trans [of "e_key (last p)" "e_key (last q)" k] by simp
qed

lemma partition_split:
  assumes "partitioned g xs" "partition_point g xs < length xs"
  obtains ys x zs where "xs = ys @ x # zs" "length ys = partition_point g xs"
    "\<forall>y \<in> set ys. g y < 0" "\<not> g x < 0" "\<forall>z \<in> set zs. \<not> g z < 0"
proof -
  let ?n = "partition_point g xs"
  have "xs = take ?n xs @ xs ! ?n # drop (Suc ?n) xs" by (rule id_take_nth_drop [OF assms(2)])
  moreover have "\<forall>y \<in> set (take ?n xs). g y < 0"
    using partition_point_below [of _ g xs] assms(2) by (auto simp: in_set_conv_nth)
  moreover have "\<not> g (xs ! ?n) < 0" by (rule partition_point_above [OF assms(1) order_refl assms(2)])
  moreover have "\<forall>z \<in> set (drop (Suc ?n) xs). \<not> g z < 0"
    using partition_point_above [OF assms(1)] by (auto simp: in_set_conv_nth)
  ultimately show ?thesis using assms(2) by (intro that) auto
qed

lemma partition_point_all:
  assumes "partitioned g xs" "\<not> partition_point g xs < length xs"
  shows "\<forall>x \<in> set xs. g x < 0"
  using partition_point_below [of _ g xs] assms(2) by (auto simp: in_set_conv_nth)

lemma bt_comparable:
  "bt_inv sg b \<Longrightarrow> key_for sg k \<Longrightarrow> e \<in> set p \<Longrightarrow> p \<in> set (bt_pages b) \<Longrightarrow>
   keyCompare (e_key e) k = Some (entryCmp k e)"
  by (rule keyCompare_eq, rule comparable_kinds [of _ sg]) (auto simp: bt_inv_def key_for_def)

lemma bt_pages_nonempty: "bt_inv sg b \<Longrightarrow> p \<in> set (bt_pages b) \<Longrightarrow> p \<noteq> []"
  by (auto simp: bt_inv_def page_ok_def list_all_iff)

lemma page_sorted: "sorted_entries (concat ps) \<Longrightarrow> p \<in> set ps \<Longrightarrow> sorted_entries p"
  by (induction ps) (auto simp: sorted_entries_append)

lemma lowerBound_pages:
  assumes "bt_inv sg b" "key_for sg k" "bt_pages b \<noteq> []"
  shows "\<exists>c. binarySearchFunc (\<lambda>p. if p = [] then None else keyCompare (e_key (last p)) k) (bt_pages b) =
    Some (partition_point (\<lambda>p. entryCmp k (last p)) (bt_pages b), c)"
proof -
  have ne: "\<And>p. p \<in> set (bt_pages b) \<Longrightarrow> p \<noteq> []" using bt_pages_nonempty [OF assms(1)] .
  have "partitioned (\<lambda>p. entryCmp k (last p)) (bt_pages b)"
    using assms(1) ne by (intro pages_partitioned) (auto simp: bt_inv_def)
  moreover have "(if p = [] then None else keyCompare (e_key (last p)) k) = Some (entryCmp k (last p))"
    if "p \<in> set (bt_pages b)" for p
    using bt_comparable [OF assms(1,2) last_in_set [OF ne [OF that]] that] ne [OF that] by simp
  ultimately show ?thesis
    by (subst binarySearchFunc_spec [where g = "\<lambda>p. entryCmp k (last p)"]) auto
qed

text \<open>
  What \<open>lowerBound\<close> returns: either every entry is below the key, or the position of the first
  entry that is not.
\<close>

lemma lowerBound_split:
  assumes inv: "bt_inv sg b" and key: "key_for sg k"
  obtains (beyond) "lowerBound b k = Some (length (bt_pages b), 0, False)"
      "\<forall>x \<in> set (concat (bt_pages b)). entryCmp k x < 0"
  | (at) ps1 es1 e es2 ps2 where "bt_pages b = ps1 @ (es1 @ e # es2) # ps2"
      "lowerBound b k = Some (length ps1, length es1, entryCmp k e = 0)"
      "\<forall>x \<in> set (concat ps1 @ es1). entryCmp k x < 0" "0 \<le> entryCmp k e"
      "\<forall>x \<in> set (es2 @ concat ps2). 0 < entryCmp k x"
proof (cases "bt_pages b = []")
  case True
  then show ?thesis by (intro beyond) (simp_all add: lowerBound_def)
next
  case False
  let ?g = "\<lambda>p. entryCmp k (last p)"
  have sorted: "sorted_entries (concat (bt_pages b))" using inv by (simp add: bt_inv_def)
  have ne: "\<forall>p \<in> set (bt_pages b). p \<noteq> []" using bt_pages_nonempty [OF inv] by blast
  note part = pages_partitioned [OF sorted ne, of k]
  obtain c where search: "binarySearchFunc (\<lambda>p. if p = [] then None else keyCompare (e_key (last p)) k)
      (bt_pages b) = Some (partition_point ?g (bt_pages b), c)"
    using lowerBound_pages [OF inv key False] by blast
  have under: "entryCmp k x < 0" if "p \<in> set (bt_pages b)" "?g p < 0" "x \<in> set p" for p x
    using sorted_last [OF page_sorted [OF sorted that(1)] that(3)] that(2)
      key_order.cmp_le_less_trans [of "e_key x" "e_key (last p)" k] by simp
  show ?thesis
  proof (cases "partition_point ?g (bt_pages b) < length (bt_pages b)")
    case False
    then have "partition_point ?g (bt_pages b) = length (bt_pages b)"
      using partition_point_le [of ?g "bt_pages b"] by simp
    moreover have "\<forall>x \<in> set (concat (bt_pages b)). entryCmp k x < 0"
      using partition_point_all [OF part False] under by auto
    ultimately show ?thesis
      using \<open>bt_pages b \<noteq> []\<close> search by (intro beyond) (simp_all add: lowerBound_def)
  next
    case True
    obtain ps1 p ps2 where ps: "bt_pages b = ps1 @ p # ps2" "length ps1 = partition_point ?g (bt_pages b)"
      "\<forall>q \<in> set ps1. ?g q < 0" "\<not> ?g p < 0" "\<forall>q \<in> set ps2. \<not> ?g q < 0"
      using partition_split [OF part True] by blast
    have p: "p \<in> set (bt_pages b)" "p \<noteq> []" using ps(1) ne by auto
    have sp: "sorted_entries p" by (rule page_sorted [OF sorted p(1)])
    note pp = sorted_partitioned [OF sp, of k]
    have lt: "partition_point (entryCmp k) p < length p"
      using partition_point_all [OF pp] ps(4) last_in_set [OF p(2)] by blast
    obtain es1 e es2 where es: "p = es1 @ e # es2" "length es1 = partition_point (entryCmp k) p"
      "\<forall>x \<in> set es1. entryCmp k x < 0" "\<not> entryCmp k e < 0"
      using partition_split [OF pp lt] by metis
    have "binarySearchFunc (\<lambda>e. keyCompare (e_key e) k) p = Some (length es1, entryCmp k e = 0)"
    proof -
      have "p ! partition_point (entryCmp k) p = e" unfolding es(2) [symmetric] by (simp add: es(1))
      then show ?thesis
        using bt_comparable [OF inv key _ p(1)] lt es(2) by (subst binarySearchFunc_spec [OF _ pp]) auto
    qed
    moreover have "bt_pages b ! length ps1 = p" by (simp add: ps(1))
    ultimately have "lowerBound b k = Some (length ps1, length es1, entryCmp k e = 0)"
      using \<open>bt_pages b \<noteq> []\<close> search [folded ps(2)] True [folded ps(2)] by (simp add: lowerBound_def)
    moreover have "\<forall>x \<in> set (es2 @ concat ps2). 0 < entryCmp k x"
      using above_head [of e "es2 @ concat ps2" k] sorted es(4) unfolding ps(1) es(1)
      by (auto simp: sorted_entries_append sorted_entries_Cons)
    moreover have "\<forall>x \<in> set (concat ps1 @ es1). entryCmp k x < 0"
      using under ps(1,3) es(3) by auto
    ultimately show ?thesis using ps(1) es(1,4) by (intro at) auto
  qed
qed

lemma btRowIDs_spec:
  assumes "bt_inv sg b" "key_for sg k"
  shows "btRowIDs b k = Some (lookup_entries k (concat (bt_pages b)))"
  using assms
proof (cases rule: lowerBound_split)
  case beyond
  then show ?thesis
    using below_append(3) [of "concat (bt_pages b)" k "[]"] by (simp add: btRowIDs_def)
next
  case (at ps1 es1 e es2 ps2)
  have "lookup_entries k (concat (bt_pages b)) = lookup_entries k (e # es2 @ concat ps2)"
    using below_append(3) [OF at(3)] at(1) by simp
  then show ?thesis
    using at lookup_above [of "es2 @ concat ps2" k] by (auto simp: btRowIDs_def nth_append)
qed

section \<open>Row-ID lists\<close>

lemma rowids_partitioned: "sorted_wrt (<) (ids :: rowID list) \<Longrightarrow> partitioned (\<lambda>y. cmpCompare y r) ids"
  unfolding partitioned_def by (erule sorted_wrt_mono_rel [rotated]) auto

lemma slicesBinarySearch_spec:
  fixes ids :: "rowID list"
  assumes "sorted_wrt (<) ids"
  obtains xs ys where "ids = xs @ ys" "\<forall>x \<in> set xs. x < r" "\<forall>y \<in> set ys. r \<le> y"
    "slicesBinarySearch ids r = Some (length xs, r \<in> set ids)"
proof -
  let ?g = "\<lambda>y. cmpCompare y r"
  note part = rowids_partitioned [OF assms, of r]
  let ?n = "partition_point ?g ids"
  have search: "slicesBinarySearch ids r = Some (?n, ?n < length ids \<and> ?g (ids ! ?n) = 0)"
    unfolding slicesBinarySearch_def by (rule binarySearchFunc_spec [OF _ part]) simp
  have lo: "\<forall>x \<in> set (take ?n ids). x < r"
    using partition_point_below [of _ ?g ids] by (auto simp: in_set_conv_nth)
  have hi: "\<forall>y \<in> set (drop ?n ids). r \<le> y"
    using partition_point_above [OF part] by (auto simp: in_set_conv_nth not_less)
  have "(?n < length ids \<and> ?g (ids ! ?n) = 0) \<longleftrightarrow> r \<in> set ids"
  proof
    assume "r \<in> set ids"
    then have "r \<in> set (drop ?n ids)" using lo by (metis append_take_drop_id Un_iff set_append less_irrefl)
    then obtain x xs where d: "drop ?n ids = x # xs" by (cases "drop ?n ids") auto
    have "sorted_wrt (<) (drop ?n ids)" using assms by (rule sorted_wrt_drop)
    then have "x = r" using d hi \<open>r \<in> set (drop ?n ids)\<close> by fastforce
    moreover have "?n < length ids" using d by (metis drop_all list.discI not_less)
    moreover have "ids ! ?n = x" using d \<open>?n < length ids\<close> by (metis Cons_nth_drop_Suc list.inject)
    ultimately show "?n < length ids \<and> ?g (ids ! ?n) = 0" by simp
  qed (metis cmpCompare_simps(2) nth_mem)
  then show ?thesis
    using search lo hi partition_point_le [of ?g ids]
    by (intro that [of "take ?n ids" "drop ?n ids"]) simp_all
qed

lemma insort_insert_split:
  fixes r :: rowID
  assumes "\<forall>x \<in> set xs. x < r" "\<forall>y \<in> set ys. r < y"
  shows "insort_insert r (xs @ ys) = xs @ r # ys"
proof -
  have "insort r ys = r # ys" using assms(2) by (cases ys) auto
  then have "insort r (xs @ ys) = xs @ r # ys" using assms(1) by (induction xs) auto
  then show ?thesis using assms by (auto simp: insort_insert_key_def)
qed

section \<open>Splitting and merging pages\<close>

lemma splitPage_spec:
  assumes "bt_pages b = ps1 @ p # ps2" "p \<noteq> []" "length p \<le> Suc btreePageMaxEntries"
    "list_all page_ok ps1" "list_all page_ok ps2"
  shows "concat (bt_pages (splitPage b (length ps1))) = concat (bt_pages b)"
    "list_all page_ok (bt_pages (splitPage b (length ps1)))"
    "bt_mappings (splitPage b (length ps1)) = bt_mappings b"
proof -
  have sp: "splitPage b (length ps1) = (if length p \<le> btreePageMaxEntries then b
      else b\<lparr>bt_pages := ps1 @ take (length p div 2) p # drop (length p div 2) p # ps2\<rparr>)"
    using assms(1) by (simp add: splitPage_def Let_def slicesInsert_def nth_append list_update_append)
  show "concat (bt_pages (splitPage b (length ps1))) = concat (bt_pages b)"
    "bt_mappings (splitPage b (length ps1)) = bt_mappings b"
    unfolding sp using assms(1) by (simp_all add: append_assoc [symmetric] del: append_assoc)
  show "list_all page_ok (bt_pages (splitPage b (length ps1)))"
    unfolding sp using assms by (auto simp: page_ok_def btreePageMaxEntries_def)
qed

lemma slicesDelete_at: "slicesDelete (xs @ y # zs) (length xs) (Suc (length xs)) = xs @ zs"
  by (simp add: slicesDelete_def)

lemma mergeSparsePage_spec:
  assumes ok: "list_all page_ok (bt_pages b)"
  shows "concat (bt_pages (mergeSparsePage b i)) = concat (bt_pages b) \<and>
    list_all page_ok (bt_pages (mergeSparsePage b i)) \<and>
    bt_mappings (mergeSparsePage b i) = bt_mappings b"
proof -
  have two: "\<exists>xs x y ys. bt_pages b = xs @ x # y # ys \<and> length xs = n" if "Suc n < length (bt_pages b)" for n
  proof -
    have "bt_pages b = take n (bt_pages b) @ bt_pages b ! n # bt_pages b ! Suc n # drop (Suc (Suc n)) (bt_pages b)"
      using that by (metis Cons_nth_drop_Suc Suc_lessD append_take_drop_id)
    then show ?thesis using that by (metis Suc_lessD length_take min.absorb4)
  qed
  let ?prev = "i < length (bt_pages b) \<and> i > 0 \<and>
    length (bt_pages b ! (i - 1)) + length (bt_pages b ! i) \<le> btreePageMaxEntries"
  let ?next = "i + 1 < length (bt_pages b) \<and>
    length (bt_pages b ! i) + length (bt_pages b ! (i + 1)) \<le> btreePageMaxEntries"
  have "mergeSparsePage b i = b \<or>
    ?prev \<and> mergeSparsePage b i = b\<lparr>bt_pages := slicesDelete
         ((bt_pages b)[i - 1 := bt_pages b ! (i - 1) @ bt_pages b ! i]) i (i + 1)\<rparr> \<or>
    ?next \<and> mergeSparsePage b i = b\<lparr>bt_pages := slicesDelete
         ((bt_pages b)[i := bt_pages b ! i @ bt_pages b ! (i + 1)]) (i + 1) (i + 2)\<rparr>"
    by (simp add: mergeSparsePage_def Let_def)
  then consider "mergeSparsePage b i = b"
    | "?prev" "mergeSparsePage b i = b\<lparr>bt_pages := slicesDelete
         ((bt_pages b)[i - 1 := bt_pages b ! (i - 1) @ bt_pages b ! i]) i (i + 1)\<rparr>"
    | "?next" "mergeSparsePage b i = b\<lparr>bt_pages := slicesDelete
         ((bt_pages b)[i := bt_pages b ! i @ bt_pages b ! (i + 1)]) (i + 1) (i + 2)\<rparr>"
    by blast
  then show ?thesis
  proof cases
    case 1
    then show ?thesis using ok by simp
  next
    case 2
    then obtain xs q p ys where ps: "bt_pages b = xs @ q # p # ys" "i = Suc (length xs)"
      using two [of "i - 1"] by (metis Suc_pred')
    have "bt_pages (mergeSparsePage b i) = xs @ (q @ p) # ys"
      using 2(2) ps slicesDelete_at [of "xs @ [q @ p]" p ys] by (simp add: nth_append)
    then show ?thesis using 2 ok ps by (auto simp: page_ok_def nth_append)
  next
    case 3
    then obtain xs p q ys where ps: "bt_pages b = xs @ p # q # ys" "i = length xs"
      using two [of i] by (metis Suc_eq_plus1)
    have "bt_pages (mergeSparsePage b i) = xs @ (p @ q) # ys"
      using 3(2) ps slicesDelete_at [of "xs @ [p @ q]" q ys] by (simp add: nth_append)
    then show ?thesis using 3 ok ps by (auto simp: page_ok_def nth_append)
  qed
qed

section \<open>Insertion refines the reference\<close>

text \<open>The invariant after an operation whose pages hold the reference result.\<close>

lemma bt_inv_ins:
  assumes "bt_inv sg b" "map v_kind k = sg" "list_all page_ok (bt_pages b')"
    "concat (bt_pages b') = ins_entries k r (concat (bt_pages b))"
    "bt_mappings b' = bt_mappings b + (if r \<in> set (lookup_entries k (concat (bt_pages b))) then 0 else 1)"
  shows "bt_inv sg b'"
  using assms by (auto simp: bt_inv_def sorted_ins_entries ok_ins_entries size_ins_entries
      dest!: set_ins_entries_keys)

lemma setEntryRowIDs_at:
  assumes "bt_pages b = ps1 @ (es1 @ e # es2) # ps2"
  shows "setEntryRowIDs b (length ps1) (length es1) ids =
    b\<lparr>bt_pages := ps1 @ (es1 @ e\<lparr>e_rowIDs := ids\<rparr> # es2) # ps2\<rparr>"
  using assms by (simp add: setEntryRowIDs_def Let_def nth_append list_update_append)

lemma btInsert_found:
  assumes inv: "bt_inv sg b" and at: "bt_pages b = ps1 @ (es1 @ e # es2) # ps2"
    and lb: "lowerBound b k = Some (length ps1, length es1, True)"
  shows "\<exists>b'. btInsert b k r = Some b' \<and>
    bt_pages b' = ps1 @ (es1 @ e\<lparr>e_rowIDs := insort_insert r (e_rowIDs e)\<rparr> # es2) # ps2 \<and>
    bt_mappings b' = bt_mappings b + (if r \<in> set (e_rowIDs e) then 0 else 1)"
proof -
  have ids: "sorted_wrt (<) (e_rowIDs e)" "e_rowIDs e \<noteq> []"
    using inv at by (auto simp: bt_inv_def entry_ok_def list_all_iff)
  have e: "bt_pages b ! length ps1 ! length es1 = e" "bt_pages b \<noteq> []" "length ps1 \<noteq> length (bt_pages b)"
    using at by (simp_all add: nth_append)
  show ?thesis
  proof (cases "last (e_rowIDs e) < r")
    case True
    have "x \<le> last (e_rowIDs e)" if "x \<in> set (e_rowIDs e)" for x
      using ids that by (metis in_set_conv_nth last_conv_nth sorted_nth_mono strict_sorted_imp_sorted
          Suc_pred' length_greater_0_conv less_Suc_eq_le diff_less zero_less_one)
    then have all: "\<forall>x \<in> set (e_rowIDs e). x < r" using True by (meson le_less_trans)
    then show ?thesis
      using insort_insert_split [OF all, of "[]"] True e lb setEntryRowIDs_at [OF at]
      by (auto simp: btInsert_def Let_def incMappings_def)
  next
    case False
    obtain xs ys where split: "e_rowIDs e = xs @ ys" "\<forall>x \<in> set xs. x < r" "\<forall>y \<in> set ys. r \<le> y"
      "slicesBinarySearch (e_rowIDs e) r = Some (length xs, r \<in> set (e_rowIDs e))"
      using slicesBinarySearch_spec [OF ids(1)] by metis
    show ?thesis
    proof (cases "r \<in> set (e_rowIDs e)")
      case True
      then have "insort_insert r (e_rowIDs e) = e_rowIDs e" by (simp add: insort_insert_key_def)
      then show ?thesis using False ids(2) True e lb split(4) at by (simp add: btInsert_def Let_def)
    next
      case False': False
      then have "\<forall>y \<in> set ys. r < y" using split(1,3) by (auto simp: order.strict_iff_order)
      then have "insort_insert r (e_rowIDs e) = slicesInsert (e_rowIDs e) (length xs) r"
        using insort_insert_split [OF split(2)] split(1) by (simp add: slicesInsert_def)
      then show ?thesis
        using False ids(2) False' e lb split(4) setEntryRowIDs_at [OF at]
        by (simp add: btInsert_def Let_def incMappings_def)
    qed
  qed
qed

lemma list_last_split: "xs \<noteq> [] \<Longrightarrow> xs = butlast xs @ [last xs]"
  by simp

text \<open>A key that no entry has gets a new entry at its place in a page, which may then split.\<close>

lemma btInsert_new:
  assumes inv: "bt_inv sg b" and at: "bt_pages b = ps1 @ (es1 @ es2) # ps2"
    and lb: "lowerBound b k = Some (length ps1, length es1, False) \<or>
      (lowerBound b k = Some (length (bt_pages b), 0, False) \<and> es2 = [] \<and> ps2 = [])"
  shows "\<exists>b'. btInsert b k r = Some b' \<and> list_all page_ok (bt_pages b') \<and>
    concat (bt_pages b') = concat ps1 @ es1 @ \<lparr>e_key = k, e_rowIDs = [r]\<rparr> # es2 @ concat ps2 \<and>
    bt_mappings b' = bt_mappings b + 1"
proof -
  define p where "p = es1 @ \<lparr>e_key = k, e_rowIDs = [r]\<rparr> # es2"
  define b1 where "b1 = incMappings 1 (b\<lparr>bt_pages := ps1 @ p # ps2\<rparr>)"
  have ok: "list_all page_ok ps1" "list_all page_ok ps2" "page_ok (es1 @ es2)"
    using inv at by (simp_all add: bt_inv_def)
  have ins: "btInsert b k r = Some (splitPage b1 (length ps1))"
    using lb at
    by (auto simp: btInsert_def Let_def nth_append list_update_append slicesInsert_def b1_def p_def)
  have "bt_pages b1 = ps1 @ p # ps2" by (simp add: b1_def incMappings_def)
  moreover have "p \<noteq> []" "length p \<le> Suc btreePageMaxEntries"
    using ok(3) by (simp_all add: p_def page_ok_def)
  ultimately show ?thesis
    using ins splitPage_spec [of b1 ps1 p ps2] ok by (simp add: p_def b1_def incMappings_def)
qed

lemma btInsert_refines:
  assumes inv: "bt_inv sg b" and key: "map v_kind k = sg"
  shows "\<exists>b'. btInsert b k r = Some b' \<and> bt_inv sg b' \<and>
    concat (bt_pages b') = ins_entries k r (concat (bt_pages b))"
proof (cases "bt_pages b = []")
  case True
  let ?b = "incMappings 1 (b\<lparr>bt_pages := [[\<lparr>e_key = k, e_rowIDs = [r]\<rparr>]]\<rparr>)"
  have "bt_inv sg ?b"
    using inv key True
    by (simp add: bt_inv_def incMappings_def page_ok_def btreePageMaxEntries_def sorted_entries_def entry_ok_def)
  then show ?thesis using True by (simp add: btInsert_def incMappings_def)
next
  case False
  show ?thesis
    using inv key_for_full [OF key]
  proof (cases rule: lowerBound_split)
    case beyond
    have "bt_pages b = butlast (bt_pages b) @ (last (bt_pages b) @ []) # []" using False by simp
    from btInsert_new [OF inv this, of k r] beyond(1) obtain b' where
      b': "btInsert b k r = Some b'" "list_all page_ok (bt_pages b')" "bt_mappings b' = bt_mappings b + 1"
      "concat (bt_pages b') = concat (bt_pages b) @ [\<lparr>e_key = k, e_rowIDs = [r]\<rparr>]"
      by (metis (no_types, lifting) append.assoc append_Nil2 append_butlast_last_id concat.simps
          concat_append False)
    have "lookup_entries k (concat (bt_pages b)) = []"
      using below_append(3) [OF beyond(2), of "[]"] by simp
    moreover have "concat (bt_pages b') = ins_entries k r (concat (bt_pages b))"
      using below_append(1) [OF beyond(2), of r "[]"] b'(4) by simp
    ultimately show ?thesis using b' bt_inv_ins [OF inv key b'(2)] by simp
  next
    case (at ps1 es1 e es2 ps2)
    have flat: "concat (bt_pages b) = (concat ps1 @ es1) @ e # es2 @ concat ps2" using at(1) by simp
    show ?thesis
    proof (cases "entryCmp k e = 0")
      case True
      obtain b' where b': "btInsert b k r = Some b'"
        "bt_pages b' = ps1 @ (es1 @ e\<lparr>e_rowIDs := insort_insert r (e_rowIDs e)\<rparr> # es2) # ps2"
        "bt_mappings b' = bt_mappings b + (if r \<in> set (e_rowIDs e) then 0 else 1)"
        using btInsert_found [OF inv at(1), of k r] at(2) True by auto
      have "lookup_entries k (concat (bt_pages b)) = e_rowIDs e"
        unfolding flat below_append(3) [OF at(3)] using True by simp
      moreover have c: "concat (bt_pages b') = ins_entries k r (concat (bt_pages b))"
        unfolding flat below_append(1) [OF at(3)] using True b'(2) by simp
      moreover have "list_all page_ok (bt_pages b')"
        using inv at(1) b'(2) by (simp add: bt_inv_def page_ok_def)
      ultimately show ?thesis using b' bt_inv_ins [OF inv key] by auto
    next
      case False
      then have gt: "0 < entryCmp k e" using at(4) by simp
      obtain b' where b': "btInsert b k r = Some b'" "list_all page_ok (bt_pages b')"
        "concat (bt_pages b') = concat ps1 @ es1 @ \<lparr>e_key = k, e_rowIDs = [r]\<rparr> # (e # es2) @ concat ps2"
        "bt_mappings b' = bt_mappings b + 1"
        using btInsert_new [OF inv at(1), of k r] at(2) False by auto
      have "lookup_entries k (concat (bt_pages b)) = []"
        unfolding flat below_append(3) [OF at(3)] using gt at(5) by (intro lookup_above) auto
      moreover have "concat (bt_pages b') = ins_entries k r (concat (bt_pages b))"
        unfolding flat below_append(1) [OF at(3)] using gt b'(3) by simp
      ultimately show ?thesis using b' bt_inv_ins [OF inv key b'(2)] by simp
    qed
  qed
qed

section \<open>Removal refines the reference\<close>

lemma remove1_split:
  fixes r :: rowID
  assumes "sorted_wrt (<) (xs @ ys)" "\<forall>x \<in> set xs. x < r" "\<forall>y \<in> set ys. r \<le> y" "r \<in> set (xs @ ys)"
  shows "remove1 r (xs @ ys) = slicesDelete (xs @ ys) (length xs) (length xs + 1)"
proof -
  have "r \<notin> set xs" "r \<in> set ys" using assms(2,4) by auto
  then obtain z zs where ys: "ys = z # zs" by (cases ys) auto
  have "z = r" using assms(1,3) \<open>r \<in> set ys\<close> ys by (auto simp: sorted_wrt_append)
  then show ?thesis
    using ys \<open>r \<notin> set xs\<close> by (simp add: remove1_append slicesDelete_def)
qed

lemma bt_inv_rem:
  assumes "bt_inv sg b" "list_all page_ok (bt_pages b')"
    "concat (bt_pages b') = rem_entries k r (concat (bt_pages b))"
    "bt_mappings b' = bt_mappings b - (if r \<in> set (lookup_entries k (concat (bt_pages b))) then 1 else 0)"
  shows "bt_inv sg b'"
  using assms size_rem_entries [of "concat (bt_pages b)" k r]
  by (auto simp: bt_inv_def sorted_rem_entries ok_rem_entries dest!: set_rem_entries_keys)

lemma btRemove_found:
  assumes inv: "bt_inv sg b" and at: "bt_pages b = ps1 @ (es1 @ e # es2) # ps2"
    and lb: "lowerBound b k = Some (length ps1, length es1, True)" and r: "r \<in> set (e_rowIDs e)"
  shows "\<exists>b'. btRemove b k r = Some b' \<and> list_all page_ok (bt_pages b') \<and>
    concat (bt_pages b') = concat ps1 @ es1 @
      (if remove1 r (e_rowIDs e) = [] then [] else [e\<lparr>e_rowIDs := remove1 r (e_rowIDs e)\<rparr>]) @
      es2 @ concat ps2 \<and>
    bt_mappings b' = bt_mappings b - 1"
proof -
  have ids: "sorted_wrt (<) (e_rowIDs e)"
    using inv at by (auto simp: bt_inv_def entry_ok_def list_all_iff)
  obtain xs ys where split: "e_rowIDs e = xs @ ys" "\<forall>x \<in> set xs. x < r" "\<forall>y \<in> set ys. r \<le> y"
    "slicesBinarySearch (e_rowIDs e) r = Some (length xs, True)"
    using slicesBinarySearch_spec [OF ids] r by metis
  have del: "slicesDelete (e_rowIDs e) (length xs) (length xs + 1) = remove1 r (e_rowIDs e)"
    using remove1_split [OF _ split(2,3)] ids r split(1) by simp
  have ok: "list_all page_ok ps1" "list_all page_ok ps2" "page_ok (es1 @ e # es2)"
    using inv at by (simp_all add: bt_inv_def)
  let ?ids = "remove1 r (e_rowIDs e)"
  define b1 where "b1 = incMappings (-1) (setEntryRowIDs b (length ps1) (length es1) ?ids)"
  have b1: "bt_pages b1 = ps1 @ (es1 @ e\<lparr>e_rowIDs := ?ids\<rparr> # es2) # ps2" "bt_mappings b1 = bt_mappings b - 1"
    using at by (simp_all add: b1_def setEntryRowIDs_at incMappings_def)
  have e: "bt_pages b ! length ps1 ! length es1 = e" using at by (simp add: nth_append)
  have del2: "slicesDelete (bt_pages b1 ! length ps1) (length es1) (length es1 + 1) = es1 @ es2"
    using slicesDelete_at [of es1 _ es2] by (simp add: b1(1) nth_append)
  define b2 where "b2 = b1\<lparr>bt_pages := (bt_pages b1)[length ps1 := es1 @ es2]\<rparr>"
  have b2: "bt_pages b2 = ps1 @ (es1 @ es2) # ps2" "bt_mappings b2 = bt_mappings b - 1"
    using b1 by (simp_all add: b2_def list_update_append)
  have rem: "btRemove b k r = (if length ?ids \<noteq> 0 then Some b1
      else if length (es1 @ es2) = 0 then Some (b2\<lparr>bt_pages := slicesDelete (bt_pages b2) (length ps1) (length ps1 + 1)\<rparr>)
      else Some (mergeSparsePage b2 (length ps1)))"
    unfolding btRemove_def lb Option.bind.bind_lunit prod.case Let_def e split(4) del
      b1_def [symmetric] del2 b2_def [symmetric] by (simp only: not_True_eq_False if_False)
  show ?thesis
  proof (cases "?ids = [] \<and> es1 @ es2 \<noteq> []")
    case True
    then have "list_all page_ok (bt_pages b2)" using ok b2(1) by (auto simp: page_ok_def)
    from mergeSparsePage_spec [OF this, of "length ps1"] show ?thesis
      using rem True b2 by auto
  next
    case False
    then show ?thesis
      using rem b1 b2 ok slicesDelete_at [of ps1 "es1 @ es2" ps2] by (auto simp: page_ok_def)
  qed
qed

lemma btRemove_refines:
  assumes inv: "bt_inv sg b" and key: "key_for sg k"
  shows "\<exists>b'. btRemove b k r = Some b' \<and> bt_inv sg b' \<and>
    concat (bt_pages b') = rem_entries k r (concat (bt_pages b))"
  using inv key
proof (cases rule: lowerBound_split)
  case beyond
  then show ?thesis
    using inv below_append(2) [OF beyond(2), of r "[]"] by (simp add: btRemove_def)
next
  case (at ps1 es1 e es2 ps2)
  have flat: "concat (bt_pages b) = (concat ps1 @ es1) @ e # es2 @ concat ps2" using at(1) by simp
  have e: "bt_pages b ! length ps1 ! length es1 = e" using at(1) by (simp add: nth_append)
  show ?thesis
  proof (cases "entryCmp k e = 0 \<and> r \<in> set (e_rowIDs e)")
    case True
    obtain b' where b': "btRemove b k r = Some b'" "list_all page_ok (bt_pages b')"
      "bt_mappings b' = bt_mappings b - 1"
      "concat (bt_pages b') = concat ps1 @ es1 @
        (if remove1 r (e_rowIDs e) = [] then [] else [e\<lparr>e_rowIDs := remove1 r (e_rowIDs e)\<rparr>]) @ es2 @ concat ps2"
      using btRemove_found [OF inv at(1), of k r] at(2) True by auto
    have "lookup_entries k (concat (bt_pages b)) = e_rowIDs e"
      unfolding flat below_append(3) [OF at(3)] using True by simp
    moreover have "concat (bt_pages b') = rem_entries k r (concat (bt_pages b))"
      unfolding flat below_append(2) [OF at(3)] using True b'(4) by simp
    ultimately show ?thesis using b' True bt_inv_rem [OF inv b'(2)] by simp
  next
    case False
    have "sorted_wrt (<) (e_rowIDs e)"
      using inv at(1) by (auto simp: bt_inv_def entry_ok_def list_all_iff)
    from slicesBinarySearch_spec [OF this] obtain n where
      "slicesBinarySearch (e_rowIDs e) r = Some (n, r \<in> set (e_rowIDs e))" by metis
    then have "btRemove b k r = Some b" using False at(2) e by (auto simp: btRemove_def Let_def)
    moreover have "rem_entries k r (concat (bt_pages b)) = concat (bt_pages b)"
      unfolding flat below_append(2) [OF at(3)] using False at(4) by auto
    ultimately show ?thesis using inv by simp
  qed
qed

section \<open>Range scans\<close>

lemma entriesFrom_start: "entriesFrom b 0 0 = concat (bt_pages b)"
  by (cases "bt_pages b") (simp_all add: entriesFrom_def)

lemma lowerBound_entries:
  assumes "bt_inv sg b" "key_for sg k"
  obtains p e f where "lowerBound b k = Some (p, e, f)"
    "entriesFrom b p e = filter (\<lambda>x. 0 \<le> entryCmp k x) (concat (bt_pages b))"
  using assms
proof (cases rule: lowerBound_split)
  case beyond
  then have "filter (\<lambda>x. 0 \<le> entryCmp k x) (concat (bt_pages b)) = []" by (simp add: filter_empty_conv not_le)
  then show ?thesis using beyond(1) by (intro that [of "length (bt_pages b)" 0 False]) (simp_all add: entriesFrom_def)
next
  case (at ps1 es1 e es2 ps2)
  have "filter (\<lambda>x. 0 \<le> entryCmp k x) (concat ps1 @ es1) = []"
    using at(3) by (auto simp: filter_empty_conv not_le)
  moreover have "filter (\<lambda>x. 0 \<le> entryCmp k x) (e # es2 @ concat ps2) = e # es2 @ concat ps2"
    using at(4,5) by (intro filter_True) (auto intro: less_imp_le)
  ultimately have "filter (\<lambda>x. 0 \<le> entryCmp k x) (concat (bt_pages b)) = e # es2 @ concat ps2"
    using at(1) by (simp del: filter.simps)
  then show ?thesis
    using at(1,2) by (intro that [of "length ps1" "length es1"]) (simp_all add: entriesFrom_def)
qed

definition below_high :: "indexKey option \<Rightarrow> btreeEntry \<Rightarrow> bool" where
  "below_high high e \<longleftrightarrow> (case high of None \<Rightarrow> True | Some h \<Rightarrow> entryCmp h e < 0)"

lemma rangeLoop_filter:
  assumes "sorted_entries es" "\<And>e h. e \<in> set es \<Longrightarrow> high = Some h \<Longrightarrow> comparable (e_key e) h"
  shows "rangeLoop high es = Some (concat (map e_rowIDs (filter (below_high high) es)))"
  using assms
proof (induction es)
  case (Cons e es)
  have IH: "rangeLoop high es = Some (concat (map e_rowIDs (filter (below_high high) es)))"
    using Cons by (simp add: sorted_entries_Cons)
  show ?case
  proof (cases high)
    case None
    then show ?thesis using IH by (simp add: below_high_def)
  next
    case (Some h)
    have cmp: "keyCompare (e_key e) h = Some (entryCmp h e)"
      using Cons.prems(2) [of e h] Some keyCompare_eq by simp
    have none: "filter (below_high high) es = []" if "0 \<le> entryCmp h e"
      using above_head [OF Cons.prems(1) that] Some by (force simp: filter_empty_conv below_high_def)
    show ?thesis using cmp IH none Some by (auto simp: below_high_def [of _ e])
  qed
qed simp

lemma bt_entry_comparable:
  "bt_inv sg b \<Longrightarrow> key_for sg k \<Longrightarrow> e \<in> set (concat (bt_pages b)) \<Longrightarrow> comparable (e_key e) k"
  by (rule comparable_kinds [of _ sg]) (auto simp: bt_inv_def key_for_def)

lemma btSeekRange_spec:
  assumes inv: "bt_inv sg b" and low: "\<And>l. low = Some l \<Longrightarrow> key_for sg l"
    and high: "\<And>h. high = Some h \<Longrightarrow> key_for sg h"
  shows "btSeekRange b low high = Some (concat (map e_rowIDs (filter
    (\<lambda>e. (case low of None \<Rightarrow> True | Some l \<Rightarrow> 0 \<le> entryCmp l e) \<and> below_high high e)
    (concat (bt_pages b)))))"
proof -
  have sorted: "sorted_entries (concat (bt_pages b))" using inv by (simp add: bt_inv_def)
  have loop: "rangeLoop high (filter P (concat (bt_pages b))) =
      Some (concat (map e_rowIDs (filter (below_high high) (filter P (concat (bt_pages b))))))" for P
    using sorted high bt_entry_comparable [OF inv]
    by (intro rangeLoop_filter) (auto simp: sorted_entries_def sorted_wrt_filter)
  show ?thesis
  proof (cases low)
    case None
    then show ?thesis
      using loop [of "\<lambda>_. True"] by (simp add: btSeekRange_def entriesFrom_start)
  next
    case (Some l)
    from lowerBound_entries [OF inv low [OF Some]] obtain p e f where
      "lowerBound b l = Some (p, e, f)"
      "entriesFrom b p e = filter (\<lambda>x. 0 \<le> entryCmp l x) (concat (bt_pages b))" .
    then show ?thesis
      using loop [of "\<lambda>x. 0 \<le> entryCmp l x"] Some by (simp add: btSeekRange_def conj_commute)
  qed
qed

section \<open>Bound scans\<close>

definition in_low :: "bound \<Rightarrow> indexKey \<Rightarrow> bool" where
  "in_low low k \<longleftrightarrow> b_unbounded low \<or>
     (if b_inclusive low then 0 \<le> compareKeyPrefix k (indexKeyForBound low)
      else 0 < compareKeyPrefix k (indexKeyForBound low))"

definition in_high :: "bound \<Rightarrow> indexKey \<Rightarrow> bool" where
  "in_high high k \<longleftrightarrow> b_unbounded high \<or>
     (if b_inclusive high then compareKeyPrefix k (indexKeyForBound high) \<le> 0
      else compareKeyPrefix k (indexKeyForBound high) < 0)"

definition bound_for :: "value_kind list \<Rightarrow> bound \<Rightarrow> bool" where
  "bound_for sg b \<longleftrightarrow> b_unbounded b \<or> key_for sg (indexKeyForBound b)"

lemma matches_bounds:
  assumes "map v_kind k = sg"
  shows "bound_for sg low \<Longrightarrow> matchesLowerBound k low = Some (in_low low k)"
    "bound_for sg high \<Longrightarrow> matchesUpperBound k high = Some (in_high high k)"
  using assms comparePrefix_eq [OF comparable_kinds [of k sg]]
  by (auto simp: matchesLowerBound_def matchesUpperBound_def in_low_def in_high_def bound_for_def key_for_def)

lemma in_high_antimono: "compareKey k l \<le> 0 \<Longrightarrow> in_high high l \<Longrightarrow> in_high high k"
  using compareKeyPrefix_mono [of k l] compareKeyPrefix_strict_mono [of k l]
  by (auto simp: in_high_def split: if_splits)

lemma in_low_below: "compareKey k (indexKeyForBound low) < 0 \<Longrightarrow> \<not> b_unbounded low \<Longrightarrow> \<not> in_low low k"
  using compareKey_less_prefix [of k "indexKeyForBound low"] by (auto simp: in_low_def)

lemma boundsLoop_filter:
  assumes "sorted_entries es" "\<forall>e \<in> set es. map v_kind (e_key e) = sg" "bound_for sg low" "bound_for sg high"
  shows "boundsLoop low high es =
    Some (concat (map e_rowIDs (filter (\<lambda>e. in_low low (e_key e) \<and> in_high high (e_key e)) es)))"
  using assms(1,2)
proof (induction es)
  case (Cons e es)
  have kind: "map v_kind (e_key e) = sg" using Cons.prems by simp
  have cmp: "bound_for sg bd \<Longrightarrow> \<not> b_unbounded bd \<Longrightarrow> comparePrefix (e_key e) (indexKeyForBound bd) =
      Some (compareKeyPrefix (e_key e) (indexKeyForBound bd))" for bd
    using comparePrefix_eq [OF comparable_kinds [OF kind]] by (simp add: bound_for_def key_for_def)
  have skip: "(if b_unbounded low then Some False
      else do { c \<leftarrow> comparePrefix (e_key e) (indexKeyForBound low); Some (c < 0 \<or> c = 0 \<and> \<not> b_inclusive low) }) =
      Some (\<not> in_low low (e_key e))"
    using cmp [OF assms(3)] by (auto simp: in_low_def)
  have stop: "(if b_unbounded high then Some False
      else do { c \<leftarrow> comparePrefix (e_key e) (indexKeyForBound high); Some (if b_inclusive high then c > 0 else c \<ge> 0) }) =
      Some (\<not> in_high high (e_key e))"
    using cmp [OF assms(4)] by (auto simp: in_high_def)
  have none: "filter (\<lambda>x. in_low low (e_key x) \<and> in_high high (e_key x)) es = []"
    if "\<not> in_high high (e_key e)"
    using that Cons.prems(1) in_high_antimono [of "e_key e"]
    by (auto simp: filter_empty_conv sorted_entries_Cons dest: less_imp_le)
  show ?case
    unfolding boundsLoop.simps skip stop
    using Cons none by (simp add: sorted_entries_Cons)
qed simp

lemma btCollectBounds_spec:
  assumes inv: "bt_inv sg b" and low: "bound_for sg low" and high: "bound_for sg high"
  shows "btCollectBounds b low high = Some (concat (map e_rowIDs
    (filter (\<lambda>e. in_low low (e_key e) \<and> in_high high (e_key e)) (concat (bt_pages b)))))"
proof -
  have kinds: "\<forall>e \<in> set (concat (bt_pages b)). map v_kind (e_key e) = sg" using inv by (simp add: bt_inv_def)
  have sorted: "sorted_entries (concat (bt_pages b))" using inv by (simp add: bt_inv_def)
  show ?thesis
  proof (cases "b_unbounded low")
    case True
    then show ?thesis
      using boundsLoop_filter [OF sorted kinds low high]
      by (simp add: btCollectBounds_def btSeekBounds_def entriesFrom_start)
  next
    case False
    let ?k = "indexKeyForBound low"
    have "key_for sg ?k" using low False by (simp add: bound_for_def)
    from lowerBound_entries [OF inv this] obtain p e f where lb: "lowerBound b ?k = Some (p, e, f)"
      "entriesFrom b p e = filter (\<lambda>x. 0 \<le> entryCmp ?k x) (concat (bt_pages b))" .
    have "boundsLoop low high (entriesFrom b p e) = Some (concat (map e_rowIDs (filter
        (\<lambda>e. in_low low (e_key e) \<and> in_high high (e_key e)) (entriesFrom b p e))))"
      using sorted kinds unfolding lb(2)
      by (intro boundsLoop_filter [OF _ _ low high]) (auto simp: sorted_entries_def sorted_wrt_filter)
    moreover have "filter (\<lambda>e. in_low low (e_key e) \<and> in_high high (e_key e)) (entriesFrom b p e) =
        filter (\<lambda>e. in_low low (e_key e) \<and> in_high high (e_key e)) (concat (bt_pages b))"
      unfolding lb(2) filter_filter using in_low_below [OF _ False]
      by (intro filter_cong) (auto simp flip: not_less)
    ultimately show ?thesis
      using False lb(1) by (simp add: btCollectBounds_def btSeekBounds_def)
  qed
qed

section \<open>The index as a multimap\<close>

text \<open>
  What the tables rely on: an index maps keys, taken up to the equivalence \<open>same\<close>, to sets of row
  identifiers; inserting and removing act on one key and never panic on keys of the
  index.
\<close>

locale multi_index =
  fixes inv :: "'b \<Rightarrow> bool" and key_ok :: "'k \<Rightarrow> bool" and same :: "'k \<Rightarrow> 'k \<Rightarrow> bool"
    and empty :: 'b and ins :: "'b \<Rightarrow> 'k \<Rightarrow> 'r \<Rightarrow> 'b option" and rem :: "'b \<Rightarrow> 'k \<Rightarrow> 'r \<Rightarrow> 'b option"
    and ids :: "'b \<Rightarrow> 'k \<Rightarrow> 'r list option"
  assumes same_refl: "same k k"
    and same_sym: "same k l \<Longrightarrow> same l k"
    and same_trans: "same k l \<Longrightarrow> same l m \<Longrightarrow> same k m"
    and empty_law: "inv empty" "key_ok k \<Longrightarrow> ids empty k = Some []"
    and ids_law: "inv b \<Longrightarrow> key_ok k \<Longrightarrow> \<exists>xs. ids b k = Some xs \<and> distinct xs"
    and ins_law: "inv b \<Longrightarrow> key_ok k \<Longrightarrow> \<exists>b'. ins b k r = Some b' \<and> inv b' \<and>
      (\<forall>k'. key_ok k' \<longrightarrow> set (the (ids b' k')) = set (the (ids b k')) \<union> (if same k k' then {r} else {}))"
    and rem_law: "inv b \<Longrightarrow> key_ok k \<Longrightarrow> \<exists>b'. rem b k r = Some b' \<and> inv b' \<and>
      (\<forall>k'. key_ok k' \<longrightarrow> set (the (ids b' k')) = set (the (ids b k')) - (if same k k' then {r} else {}))"
begin

text \<open>The index holds exactly the rows of \<open>f\<close>, each under its key.\<close>

definition holds_rows :: "'b \<Rightarrow> ('r \<rightharpoonup> 'k) \<Rightarrow> bool" where
  "holds_rows b f \<longleftrightarrow> inv b \<and> (\<forall>k. key_ok k \<longrightarrow> set (the (ids b k)) = {r. \<exists>l. f r = Some l \<and> same l k})"

lemma holds_empty: "holds_rows empty Map.empty"
  using empty_law by (simp add: holds_rows_def)

lemma holds_ids: "holds_rows b f \<Longrightarrow> key_ok k \<Longrightarrow>
  \<exists>xs. ids b k = Some xs \<and> distinct xs \<and> set xs = {r. \<exists>l. f r = Some l \<and> same l k}"
  using ids_law [of b k] by (auto simp: holds_rows_def)

lemma holds_ins:
  assumes "holds_rows b f" "key_ok k" "f r = None"
  shows "\<exists>b'. ins b k r = Some b' \<and> holds_rows b' (f(r \<mapsto> k))"
proof -
  obtain b' where b': "ins b k r = Some b'" "inv b'"
    "\<And>k'. key_ok k' \<Longrightarrow> set (the (ids b' k')) = set (the (ids b k')) \<union> (if same k k' then {r} else {})"
    using ins_law assms by (meson holds_rows_def)
  have "set (the (ids b' k')) = {x. \<exists>l. (f(r \<mapsto> k)) x = Some l \<and> same l k'}" if "key_ok k'" for k'
    using b'(3) [OF that] that assms(1,3) by (auto simp: holds_rows_def split: if_splits)
  then show ?thesis using b' by (auto simp: holds_rows_def)
qed

lemma holds_rem:
  assumes "holds_rows b f" "key_ok k" "f r = Some l" "same l k"
  shows "\<exists>b'. rem b k r = Some b' \<and> holds_rows b' (f(r := None))"
proof -
  obtain b' where b': "rem b k r = Some b'" "inv b'"
    "\<And>k'. key_ok k' \<Longrightarrow> set (the (ids b' k')) = set (the (ids b k')) - (if same k k' then {r} else {})"
    using rem_law assms by (meson holds_rows_def)
  have "set (the (ids b' k')) = {x. \<exists>l. (f(r := None)) x = Some l \<and> same l k'}" if "key_ok k'" for k'
  proof -
    have "same l k' \<Longrightarrow> same k k'" using assms(4) same_sym same_trans by blast
    then show ?thesis
      using b'(3) [OF that] that assms(1,3) by (auto simp: holds_rows_def split: if_splits)
  qed
  then show ?thesis using b' by (auto simp: holds_rows_def)
qed

end

lemma lookup_distinct: "list_all entry_ok es \<Longrightarrow> distinct (lookup_entries k es)"
  by (induction es) (auto simp: entry_ok_def strict_sorted_iff)

interpretation btree: multi_index "bt_inv sg" "\<lambda>k. map v_kind k = sg" "\<lambda>k l. compareKey k l = 0"
  NewBTreeIndex btInsert btRemove btRowIDs for sg
proof
  fix k l m :: indexKey
  show "compareKey k k = 0" by (simp add: key_order.cmp_refl)
  show "compareKey l k = 0" if "compareKey k l = 0" using that key_order.cmp_eq_sym by blast
  show "compareKey k m = 0" if "compareKey k l = 0" "compareKey l m = 0"
    using that key_cong_left by metis
  show "bt_inv sg NewBTreeIndex" by (rule bt_inv_empty)
  show "btRowIDs NewBTreeIndex k = Some []" if "map v_kind k = sg"
    using btRowIDs_spec [OF bt_inv_empty key_for_full [OF that]] by (simp add: NewBTreeIndex_def)
next
  fix b :: bTreeIndex and k :: indexKey and r :: rowID
  assume b: "bt_inv sg b" and k: "map v_kind k = sg"
  have ids: "btRowIDs b' k' = Some (lookup_entries k' (concat (bt_pages b')))"
    if "bt_inv sg b'" "map v_kind k' = sg" for b' and k' :: indexKey
    by (rule btRowIDs_spec [OF that(1) key_for_full [OF that(2)]])
  have sorted: "sorted_entries (concat (bt_pages b))" "list_all entry_ok (concat (bt_pages b))"
    using b by (simp_all add: bt_inv_def)
  show "\<exists>xs. btRowIDs b k = Some xs \<and> distinct xs"
    using ids [OF b k] lookup_distinct [OF sorted(2)] by blast
  show "\<exists>b'. btInsert b k r = Some b' \<and> bt_inv sg b' \<and> (\<forall>k'. map v_kind k' = sg \<longrightarrow>
      set (the (btRowIDs b' k')) = set (the (btRowIDs b k')) \<union> (if compareKey k k' = 0 then {r} else {}))"
    using btInsert_refines [OF b k, of r] ids b
    by (fastforce simp: lookup_ins_entries [OF sorted(1)] set_insort_insert)
  have "distinct (lookup_entries k' (concat (bt_pages b)))" for k' by (rule lookup_distinct [OF sorted(2)])
  then show "\<exists>b'. btRemove b k r = Some b' \<and> bt_inv sg b' \<and> (\<forall>k'. map v_kind k' = sg \<longrightarrow>
      set (the (btRowIDs b' k')) = set (the (btRowIDs b k')) - (if compareKey k k' = 0 then {r} else {}))"
    using btRemove_refines [OF b key_for_full [OF k], of r] ids b
    by (fastforce simp: lookup_rem_entries [OF sorted(1)])
qed

section \<open>Histories of an index\<close>

datatype bt_op = OpInsert indexKey rowID | OpRemove indexKey rowID

primrec op_key :: "bt_op \<Rightarrow> indexKey" where
  "op_key (OpInsert k r) = k"
| "op_key (OpRemove k r) = k"

fun bt_step :: "bTreeIndex \<Rightarrow> bt_op \<Rightarrow> bTreeIndex option" where
  "bt_step b (OpInsert k r) = btInsert b k r"
| "bt_step b (OpRemove k r) = btRemove b k r"

fun bt_run :: "bTreeIndex \<Rightarrow> bt_op list \<Rightarrow> bTreeIndex option" where
  "bt_run b [] = Some b"
| "bt_run b (x # ops) = do { b' \<leftarrow> bt_step b x; bt_run b' ops }"

text \<open>The row identifiers a history leaves under a key.\<close>

fun history_ids :: "rowID set \<Rightarrow> indexKey \<Rightarrow> bt_op list \<Rightarrow> rowID set" where
  "history_ids s k [] = s"
| "history_ids s k (OpInsert l r # ops) =
     history_ids (if keyEqual l k = Some True then insert r s else s) k ops"
| "history_ids s k (OpRemove l r # ops) =
     history_ids (if keyEqual l k = Some True then s - {r} else s) k ops"

lemma keyEqual_kinds:
  "map v_kind k = sg \<Longrightarrow> map v_kind l = sg \<Longrightarrow> keyEqual k l = Some True \<longleftrightarrow> compareKey k l = 0"
  using keyEqual_eq [OF comparable_kinds [of k sg l]] key_for_full [of l sg] by (simp add: key_for_def)

lemma bt_run_history:
  "bt_inv sg b \<Longrightarrow> list_all (\<lambda>x. map v_kind (op_key x) = sg) ops \<Longrightarrow>
   \<exists>b'. bt_run b ops = Some b' \<and> bt_inv sg b' \<and>
     (\<forall>k. map v_kind k = sg \<longrightarrow>
        set (lookup_entries k (concat (bt_pages b'))) =
        history_ids (set (lookup_entries k (concat (bt_pages b)))) k ops)"
proof (induction ops arbitrary: b)
  case (Cons x ops)
  have k: "map v_kind (op_key x) = sg" using Cons.prems by simp
  have s: "sorted_entries (concat (bt_pages b))" "list_all entry_ok (concat (bt_pages b))"
    using Cons.prems(1) by (simp_all add: bt_inv_def)
  have eq: "keyEqual (op_key x) k' = Some True \<longleftrightarrow> compareKey (op_key x) k' = 0" if "map v_kind k' = sg" for k'
    by (rule keyEqual_kinds [OF k that])
  obtain b1 where b1: "bt_step b x = Some b1" "bt_inv sg b1"
    and ids: "\<And>k'. map v_kind k' = sg \<Longrightarrow> history_ids (set (lookup_entries k' (concat (bt_pages b)))) k' (x # ops) =
      history_ids (set (lookup_entries k' (concat (bt_pages b1)))) k' ops"
  proof (cases x)
    case (OpInsert l r)
    then obtain b1 where b1: "btInsert b l r = Some b1" "bt_inv sg b1"
      "concat (bt_pages b1) = ins_entries l r (concat (bt_pages b))"
      using btInsert_refines [OF Cons.prems(1), of l r] k by auto
    then show ?thesis
      using OpInsert eq lookup_ins_entries [OF s(1)] by (intro that [of b1]) (auto simp: set_insort_insert)
  next
    case (OpRemove l r)
    then obtain b1 where b1: "btRemove b l r = Some b1" "bt_inv sg b1"
      "concat (bt_pages b1) = rem_entries l r (concat (bt_pages b))"
      using btRemove_refines [OF Cons.prems(1) key_for_full, of l r] k by auto
    then show ?thesis
      using OpRemove eq lookup_rem_entries [OF s(1)] lookup_distinct [OF s(2)]
      by (intro that [of b1]) auto
  qed
  show ?case
    using Cons.IH [OF b1(2)] Cons.prems(2) b1(1) ids by auto
qed simp

lemma lookup_sorted: "list_all entry_ok es \<Longrightarrow> sorted_wrt (<) (lookup_entries k es)"
  by (induction es) (auto simp: entry_ok_def)

lemma btScan_eq: "bt_inv sg b \<Longrightarrow> btScan b = Some (concat (map e_rowIDs (concat (bt_pages b))))"
  using btSeekRange_spec [of sg b None None] by (simp add: btScan_def below_high_def)

lemma length_flat_ids: "length (concat (map e_rowIDs es)) = entries_size es"
  by (induction es) simp_all

text \<open>
  C23. The paged index is a multimap. After any sequence of insertions and removals of keys of
  the index's column kinds, none of which panics, \<open>Seek\<close> returns in ascending order exactly
  the row identifiers the history leaves under the key, and \<open>Len\<close> is the number of row identifiers
  a full scan yields.
\<close>

theorem btree_history:
  assumes "list_all (\<lambda>x. map v_kind (op_key x) = sg) ops" "map v_kind k = sg"
  shows "\<exists>b ids all. bt_run NewBTreeIndex ops = Some b \<and> btSeek b k = Some ids \<and>
    sorted_wrt (<) ids \<and> set ids = history_ids {} k ops \<and> btScan b = Some all \<and> btLen b = int (length all)"
proof -
  obtain b where b: "bt_run NewBTreeIndex ops = Some b" "bt_inv sg b"
    "set (lookup_entries k (concat (bt_pages b))) = history_ids {} k ops"
    using bt_run_history [OF bt_inv_empty assms(1)] assms(2) by (auto simp: NewBTreeIndex_def)
  have "list_all entry_ok (concat (bt_pages b))" "bt_mappings b = int (entries_size (concat (bt_pages b)))"
    using b(2) by (simp_all add: bt_inv_def)
  then show ?thesis
    using b btRowIDs_spec [OF b(2) key_for_full [OF assms(2)]] btScan_eq [OF b(2)]
    by (intro exI conjI) (auto simp: btSeek_def lookup_sorted btLen_def length_flat_ids)
qed

theorem btree_history_witness:
  "\<exists>b ids. bt_run NewBTreeIndex [OpInsert [NewUint8 1] 7, OpInsert [NewUint8 1] 5, OpRemove [NewUint8 1] 7] = Some b
     \<and> btSeek b [NewUint8 1] = Some ids \<and> set ids = {5}"
proof -
  have "keyEqual [NewUint8 1] [NewUint8 1] = Some True"
    by (simp add: keyEqual_def Compare_def comparePayload_def constructor_defs)
  then show ?thesis
    using btree_history [of "[KindUint8]" "[OpInsert [NewUint8 1] 7, OpInsert [NewUint8 1] 5, OpRemove [NewUint8 1] 7]"
        "[NewUint8 1]"]
    by (auto simp: constructor_defs)
qed

text \<open>
  C24. Bounded index scans. A scan between two bounds of the index's kinds yields, in key order,
  the row identifiers of exactly the entries whose key satisfies the predicates \<open>matchesLowerBound\<close>
  and \<open>matchesUpperBound\<close> the transaction view applies to its own rows; starting the scan at
  the lower bound's position and stopping at the first key past the upper one skips nothing.
\<close>

theorem btree_bounds_scan:
  assumes "bt_inv sg b" "bound_for sg low" "bound_for sg high"
  shows "btCollectBounds b low high = Some (concat (map e_rowIDs (filter
    (\<lambda>e. matchesLowerBound (e_key e) low = Some True \<and> matchesUpperBound (e_key e) high = Some True)
    (concat (bt_pages b)))))"
proof -
  have "filter (\<lambda>e. matchesLowerBound (e_key e) low = Some True \<and> matchesUpperBound (e_key e) high = Some True)
      (concat (bt_pages b)) =
    filter (\<lambda>e. in_low low (e_key e) \<and> in_high high (e_key e)) (concat (bt_pages b))"
    using assms by (intro filter_cong) (auto simp: bt_inv_def matches_bounds)
  then show ?thesis using btCollectBounds_spec [OF assms] by simp
qed

definition exampleIndex :: bTreeIndex where
  "exampleIndex = \<lparr>bt_pages = [[\<lparr>e_key = [NewUint8 1], e_rowIDs = [4]\<rparr>], [\<lparr>e_key = [NewUint8 2], e_rowIDs = [3, 9]\<rparr>]],
     bt_mappings = 3\<rparr>"

lemma exampleIndex_inv: "bt_inv [KindUint8] exampleIndex"
  by (simp add: bt_inv_def exampleIndex_def page_ok_def btreePageMaxEntries_def sorted_entries_def entry_ok_def
      compareKey_def compareAny_def compareV_def Compare_def comparePayload_def constructor_defs cmpThen_def
      cmpCompare_def)

theorem btree_bounds_scan_witness:
  "\<exists>low. bounded [NewUint8 1] False = Some low \<and> btCollectBounds exampleIndex low UnboundedBound = Some [3, 9]"
proof -
  obtain low where low: "bounded [NewUint8 1] False = Some low" "indexKeyForBound low = [NewUint8 1]"
    "b_unbounded low = False" "b_inclusive low = False"
    by (simp add: bounded_def indexKeyForBound_def NewIndexKey_def)
  have bd: "bound_for [KindUint8] low" "bound_for [KindUint8] UnboundedBound"
    using low by (simp_all add: bound_for_def key_for_def UnboundedBound_def constructor_defs)
  show ?thesis
    using btree_bounds_scan [OF exampleIndex_inv bd] low
    by (simp add: exampleIndex_def matchesLowerBound_def matchesUpperBound_def UnboundedBound_def
        Compare_def comparePayload_def constructor_defs cmpCompare_def)
qed

end
