(* ===== verification/Table.thy ===== *)
theory Table
  imports BTree
begin

text \<open>
  Tables (\<^verbatim>\<open>src/store/table.go\<close>, \<^verbatim>\<open>index.go\<close>, \<^verbatim>\<open>sequence.go\<close>, \<^verbatim>\<open>validate.go\<close>, \<^verbatim>\<open>errors.go\<close>).
  A Go map is an association list with distinct keys, whose order stands for the unspecified
  iteration order. An operation that mutates the table returns the table after it, also when
  it fails; the outer option is a panic.
\<close>

section \<open>Errors\<close>

datatype store_error =
    ErrTableNotFound tableID
  | PrimaryKeyViolation string string indexKey
  | UniqueConstraintViolation string string indexKey
  | ErrDuplicateRow
  | ErrDuplicateRowID rowID
  | ErrRowNotFound rowID
  | ErrReplayRowNotFound string
  | ErrNullNotAllowed string
  | SRowShapeMismatch nat nat
  | TypeMismatch string value_kind value_kind
  | ColumnValue string value_error
  | ErrRowIDOverflow
  | ErrTransactionRolledBack
  | ErrTransactionClosed
  | ErrAutoIncrementType
  | ErrSequenceOverflow
  | ErrRejected
  | ErrRecoveryBatchClosed
  | ErrRecoveryStateNil

section \<open>Sequences\<close>

text \<open>A sequence is its next value; an operation returns its result and the sequence after it.\<close>

definition NewSequence :: u64 where "NewSequence = 1"

definition seqNext :: "u64 \<Rightarrow> u64 \<times> u64" where
  "seqNext s = (s, s + 1)"

definition seqNextNonZero :: "u64 \<Rightarrow> u64 option \<times> u64" where
  "seqNextNonZero s = (if s = 0 then (None, s) else (Some s, s + 1))"

section \<open>Row validation\<close>

fun validateColumns :: "columnSchema list \<Rightarrow> productValue \<Rightarrow> store_error + unit" where
  "validateColumns (col # cols) (value # row) =
     (if v_kind value \<noteq> c_type col
      then Inl (TypeMismatch (c_name col) (c_type col) (v_kind value))
      else if v_isNull value \<and> \<not> c_nullable col then Inl (ErrNullNotAllowed (c_name col))
      else if v_isNull value then validateColumns cols row
      else bindE (map_sum (ColumnValue (c_name col)) id
          (case c_type col of
             KindString \<Rightarrow> ValidateUTF8String (v_str value)
           | KindArrayString \<Rightarrow> ValidateUTF8StringArray (v_strArr value)
           | _ \<Rightarrow> Inr ()))
        (\<lambda>_. validateColumns cols row))"
| "validateColumns _ _ = Inr ()"

definition ValidateRow :: "tableSchema \<Rightarrow> productValue \<Rightarrow> store_error + unit" where
  "ValidateRow ts row =
     (if length row \<noteq> length (ts_columns ts)
      then Inl (SRowShapeMismatch (length (ts_columns ts)) (length row))
      else validateColumns (ts_columns ts) row)"

section \<open>State\<close>

record index =
  idx_schema :: indexSchema
  idx_btree :: bTreeIndex

definition NewIndex :: "indexSchema \<Rightarrow> index" where
  "NewIndex is = \<lparr>idx_schema = is, idx_btree = NewBTreeIndex\<rparr>"

definition idxExtractKey :: "index \<Rightarrow> productValue \<Rightarrow> indexKey option" where
  "idxExtractKey idx row = ExtractKey row (ix_columns (idx_schema idx))"

definition idxSeek :: "index \<Rightarrow> indexKey \<Rightarrow> rowID list option" where
  "idxSeek idx key = btSeek (idx_btree idx) key"

record table =
  t_schema :: tableSchema
  t_rows :: "(rowID \<times> productValue) list"
  t_nextID :: rowID
  t_indexes :: "index list"
  t_rowHashIndex :: "(u64 \<times> rowID list) list option"
  t_sequence :: "u64 option"
  t_sequenceCol :: int

text \<open>The first auto-increment column, from position \<open>i\<close>.\<close>

fun findSequenceCol :: "int \<Rightarrow> columnSchema list \<Rightarrow> int option" where
  "findSequenceCol i [] = None"
| "findSequenceCol i (c # cs) = (if c_autoIncrement c then Some i else findSequenceCol (i + 1) cs)"

definition NewTable :: "tableSchema \<Rightarrow> table" where
  "NewTable ts =
     \<lparr>t_schema = ts, t_rows = [], t_nextID = 1,
      t_indexes = map NewIndex (ts_indexes ts),
      t_rowHashIndex = (case PrimaryIndex ts of None \<Rightarrow> Some [] | Some _ \<Rightarrow> None),
      t_sequence = (case findSequenceCol 0 (ts_columns ts) of None \<Rightarrow> None | Some _ \<Rightarrow> Some NewSequence),
      t_sequenceCol = (case findSequenceCol 0 (ts_columns ts) of None \<Rightarrow> -1 | Some i \<Rightarrow> i)\<rparr>"

definition AllocRowID :: "table \<Rightarrow> rowID \<times> table" where
  "AllocRowID t = (t_nextID t, t\<lparr>t_nextID := t_nextID t + 1\<rparr>)"

definition rowView :: "table \<Rightarrow> rowID \<Rightarrow> productValue option" where
  "rowView t rid = map_of (t_rows t) rid"

definition GetRow :: "table \<Rightarrow> rowID \<Rightarrow> productValue option" where
  "GetRow t rid = map_option productCopy (map_of (t_rows t) rid)"

definition tableScan :: "table \<Rightarrow> (rowID \<times> productValue) list" where
  "tableScan t = map (\<lambda>(rid, row). (rid, productCopy row)) (t_rows t)"

definition RowCount :: "table \<Rightarrow> nat" where
  "RowCount t = length (t_rows t)"

definition NextID :: "table \<Rightarrow> rowID" where
  "NextID t = t_nextID t"

definition SetNextID :: "table \<Rightarrow> rowID \<Rightarrow> table" where
  "SetNextID t rid = t\<lparr>t_nextID := rid\<rparr>"

definition SequenceValue :: "table \<Rightarrow> u64 option" where
  "SequenceValue t = t_sequence t"

definition SetSequenceValue :: "table \<Rightarrow> u64 \<Rightarrow> table" where
  "SetSequenceValue t v = (case t_sequence t of None \<Rightarrow> t | Some _ \<Rightarrow> t\<lparr>t_sequence := Some v\<rparr>)"

definition IndexByID :: "table \<Rightarrow> indexID \<Rightarrow> index option" where
  "IndexByID t iid = List.find (\<lambda>idx. ix_id (idx_schema idx) = iid) (t_indexes t)"

definition tablePrimaryIndex :: "table \<Rightarrow> index option" where
  "tablePrimaryIndex t = List.find (\<lambda>idx. ix_primary (idx_schema idx)) (t_indexes t)"

definition uniqueViolationError :: "table \<Rightarrow> index \<Rightarrow> indexKey \<Rightarrow> store_error" where
  "uniqueViolationError t idx key =
     (if ix_primary (idx_schema idx)
      then PrimaryKeyViolation (ts_name (t_schema t)) (ix_name (idx_schema idx)) key
      else UniqueConstraintViolation (ts_name (t_schema t)) (ix_name (idx_schema idx)) key)"

section \<open>Index maintenance\<close>

fun mapO :: "('a \<Rightarrow> 'b option) \<Rightarrow> 'a list \<Rightarrow> 'b list option" where
  "mapO f [] = Some []"
| "mapO f (x # xs) = do { y \<leftarrow> f x; ys \<leftarrow> mapO f xs; Some (y # ys) }"

definition idxRemove :: "rowID \<Rightarrow> productValue \<Rightarrow> index \<Rightarrow> index option" where
  "idxRemove rid row idx = do {
     key \<leftarrow> idxExtractKey idx row;
     b \<leftarrow> btRemove (idx_btree idx) key rid;
     Some (idx\<lparr>idx_btree := b\<rparr>)
   }"

definition removeFromIndexes :: "rowID \<Rightarrow> productValue \<Rightarrow> index list \<Rightarrow> index list option" where
  "removeFromIndexes rid row idxs = mapO (idxRemove rid row) idxs"

text \<open>
  The insertion loop, after the indexes \<open>before\<close> have received the row: the indexes afterwards, and
  the index and key of a violated unique constraint.
\<close>

fun insertIndexesLoop ::
  "rowID \<Rightarrow> productValue \<Rightarrow> index list \<Rightarrow> index list \<Rightarrow> (index list \<times> (index \<times> indexKey) option) option" where
  "insertIndexesLoop rid row before [] = Some (before, None)"
| "insertIndexesLoop rid row before (idx # rest) = do {
     key \<leftarrow> idxExtractKey idx row;
     taken \<leftarrow> (if ix_unique (idx_schema idx)
              then do { ids \<leftarrow> btRowIDs (idx_btree idx) key; Some (length ids \<noteq> 0) }
              else Some False);
     if taken then do {
       before' \<leftarrow> removeFromIndexes rid row before;
       Some (before' @ idx # rest, Some (idx, key))
     }
     else do {
       b \<leftarrow> btInsert (idx_btree idx) key rid;
       insertIndexesLoop rid row (before @ [idx\<lparr>idx_btree := b\<rparr>]) rest
     }
   }"

definition insertIntoIndexes :: "table \<Rightarrow> rowID \<Rightarrow> productValue \<Rightarrow> (table \<times> store_error option) option" where
  "insertIntoIndexes t rid row = do {
     (idxs, conflict) \<leftarrow> insertIndexesLoop rid row [] (t_indexes t);
     Some (t\<lparr>t_indexes := idxs\<rparr>,
       (case conflict of None \<Rightarrow> None | Some (idx, key) \<Rightarrow> Some (uniqueViolationError t idx key)))
   }"

section \<open>Inserting and deleting rows\<close>

definition bucketOf :: "('k \<times> 'a list) list \<Rightarrow> 'k \<Rightarrow> 'a list" where
  "bucketOf m h = (case map_of m h of None \<Rightarrow> [] | Some b \<Rightarrow> b)"

text \<open>A missing row reads as the nil row.\<close>

definition rowOrNil :: "table \<Rightarrow> rowID \<Rightarrow> productValue" where
  "rowOrNil t rid = (case map_of (t_rows t) rid of None \<Rightarrow> [] | Some r \<Rightarrow> r)"

definition InsertRow :: "table \<Rightarrow> rowID \<Rightarrow> productValue \<Rightarrow> (table \<times> store_error option) option" where
  "InsertRow t rid row =
     (if map_of (t_rows t) rid \<noteq> None then Some (t, Some (ErrDuplicateRowID rid))
      else do {
        (t, err) \<leftarrow> insertIntoIndexes t rid row;
        case err of Some e \<Rightarrow> Some (t, Some e)
        | None \<Rightarrow>
          (case t_rowHashIndex t of
             None \<Rightarrow> Some (t\<lparr>t_rows := AList.update rid (productCopy row) (t_rows t)\<rparr>, None)
           | Some m \<Rightarrow> do {
               h \<leftarrow> productHash64 row;
               let bucket = bucketOf m h;
               if list_ex (\<lambda>existingID. productEqual (rowOrNil t existingID) row) bucket
               then do {
                 idxs \<leftarrow> removeFromIndexes rid row (t_indexes t);
                 Some (t\<lparr>t_indexes := idxs\<rparr>, Some ErrDuplicateRow)
               }
               else Some (t\<lparr>t_rowHashIndex := Some (AList.update h (bucket @ [rid]) m),
                            t_rows := AList.update rid (productCopy row) (t_rows t)\<rparr>, None)
             })
      })"

definition removeFromBucket :: "u64 \<Rightarrow> rowID \<Rightarrow> (u64 \<times> rowID list) list \<Rightarrow> (u64 \<times> rowID list) list" where
  "removeFromBucket h rid m =
     (if rid \<in> set (bucketOf m h)
      then (let bucket = remove1 rid (bucketOf m h) in
            if length bucket = 0 then AList.delete h m else AList.update h bucket m)
      else m)"

definition DeleteRow :: "table \<Rightarrow> rowID \<Rightarrow> (table \<times> productValue option) option" where
  "DeleteRow t rid =
     (case map_of (t_rows t) rid of
        None \<Rightarrow> Some (t, None)
      | Some row \<Rightarrow> do {
          idxs \<leftarrow> removeFromIndexes rid row (t_indexes t);
          let t = t\<lparr>t_indexes := idxs\<rparr>;
          m \<leftarrow> (case t_rowHashIndex t of None \<Rightarrow> Some None
               | Some m \<Rightarrow> do { h \<leftarrow> productHash64 row; Some (Some (removeFromBucket h rid m)) });
          Some (t\<lparr>t_rowHashIndex := m, t_rows := AList.delete rid (t_rows t)\<rparr>, Some (productCopy row))
        })"

section \<open>Well-formed rows and their keys\<close>

text \<open>A null only in a nullable column, text only in valid UTF-8.\<close>

definition column_accepts :: "columnSchema \<Rightarrow> go_value \<Rightarrow> bool" where
  "column_accepts c v \<longleftrightarrow>
     (if v_isNull v then c_nullable c
      else case c_type c of
        KindString \<Rightarrow> ValidateUTF8String (v_str v) = Inr ()
      | KindArrayString \<Rightarrow> ValidateUTF8StringArray (v_strArr v) = Inr ()
      | _ \<Rightarrow> True)"

definition value_fits :: "columnSchema \<Rightarrow> go_value \<Rightarrow> bool" where
  "value_fits c v \<longleftrightarrow> v_kind v = c_type c \<and> wf_value v \<and> payloadLen v \<noteq> None \<and> column_accepts c v"

definition row_wf :: "tableSchema \<Rightarrow> productValue \<Rightarrow> bool" where
  [wf_defs]: "row_wf ts row \<longleftrightarrow> list_all2 value_fits (ts_columns ts) row"

definition schema_wf :: "tableSchema \<Rightarrow> bool" where
  [wf_defs]: "schema_wf ts \<longleftrightarrow>
     (\<forall>ix \<in> set (ts_indexes ts). (\<forall>c \<in> set (ix_columns ix). c < length (ts_columns ts)) \<and>
        (ix_primary ix \<longrightarrow> ix_unique ix))"

definition keyOf :: "indexSchema \<Rightarrow> productValue \<Rightarrow> indexKey" where
  "keyOf ix row = map ((!) row) (ix_columns ix)"

definition keyKinds :: "tableSchema \<Rightarrow> indexSchema \<Rightarrow> value_kind list" where
  "keyKinds ts ix = map (\<lambda>c. c_type (ts_columns ts ! c)) (ix_columns ix)"

lemma row_wf_length: "row_wf ts row \<Longrightarrow> length row = length (ts_columns ts)"
  by (simp add: row_wf_def list_all2_lengthD)

lemma row_wf_nth: "row_wf ts row \<Longrightarrow> c < length row \<Longrightarrow> value_fits (ts_columns ts ! c) (row ! c)"
  by (simp add: row_wf_def list_all2_conv_all_nth)

lemma row_wf_values: "row_wf ts row \<Longrightarrow> v \<in> set row \<Longrightarrow> wf_value v \<and> payloadLen v \<noteq> None"
  by (metis in_set_conv_nth row_wf_nth value_fits_def)

lemma productCopy_wf [simp]: "row_wf ts row \<Longrightarrow> productCopy row = row"
  unfolding productCopy_def by (rule map_idI) (simp add: row_wf_values)

text \<open>Well-formed rows are the ones validation accepts, among rows of well-formed values.\<close>

definition values_ok :: "productValue \<Rightarrow> bool" where
  "values_ok row \<longleftrightarrow> list_all (\<lambda>v. wf_value v \<and> payloadLen v \<noteq> None) row"

lemma validateColumns_Cons:
  assumes "wf_value v" "payloadLen v \<noteq> None"
  shows "validateColumns (col # cols) (v # row) = Inr () \<longleftrightarrow> value_fits col v \<and> validateColumns cols row = Inr ()"
proof -
  have "map_sum f id r = Inr u \<longleftrightarrow> r = Inr u" for f :: "value_error \<Rightarrow> store_error" and r and u :: unit
    by (cases r) simp_all
  then show ?thesis
    using assms by (cases "c_type col") (auto simp: value_fits_def column_accepts_def result_simps)
qed

lemma validateColumns_fits:
  "length row = length cols \<Longrightarrow> values_ok row \<Longrightarrow>
   validateColumns cols row = Inr () \<longleftrightarrow> list_all2 value_fits cols row"
proof (induction cols arbitrary: row)
  case (Cons col cols)
  then obtain v rest where "row = v # rest" by (cases row) auto
  with Cons show ?case by (simp add: validateColumns_Cons values_ok_def del: validateColumns.simps)
qed simp

lemma ValidateRow_iff: "values_ok row \<Longrightarrow> ValidateRow ts row = Inr () \<longleftrightarrow> row_wf ts row"
  using validateColumns_fits [of row "ts_columns ts"] by (auto simp: ValidateRow_def row_wf_def dest: list_all2_lengthD)

lemma row_wf_values_ok: "row_wf ts row \<Longrightarrow> values_ok row"
  using row_wf_values [of ts row] by (auto simp: values_ok_def list_all_iff)

lemma row_wf_Validate: "row_wf ts row \<Longrightarrow> ValidateRow ts row = Inr ()"
  using ValidateRow_iff [OF row_wf_values_ok] by blast

lemma ExtractKey_keyOf:
  assumes "row_wf ts row" "schema_wf ts" "ix \<in> set (ts_indexes ts)"
  shows "ExtractKey row (ix_columns ix) = Some (keyOf ix row)" "map v_kind (keyOf ix row) = keyKinds ts ix"
proof -
  have c: "c < length row" if "c \<in> set (ix_columns ix)" for c
    using assms that row_wf_length by (auto simp: schema_wf_def)
  then show "ExtractKey row (ix_columns ix) = Some (keyOf ix row)"
    using row_wf_values [OF assms(1)] by (auto simp: ExtractKey_eq keyOf_def list_all_iff)
  show "map v_kind (keyOf ix row) = keyKinds ts ix"
    using c row_wf_nth [OF assms(1)] by (simp add: keyOf_def keyKinds_def value_fits_def)
qed

lemma payloadLen_writePayload: "payloadLen v = Some n \<Longrightarrow> \<exists>p. writePayload v = Some p"
proof -
  have strs: "\<exists>p. writeStrings xs = Some p" if "stringsPayloadLen n xs = Some m" for n xs m
    using that by (induction n xs rule: stringsPayloadLen.induct)
      (auto simp: result_simps Let_def split: if_splits)
  have count: "n + 4 * length xs \<le> 4294967295"
    if "stringsPayloadLen n xs = Some m" "n \<le> 4294967295" for n xs m
    using that by (induction n xs rule: stringsPayloadLen.induct)
      (fastforce simp: result_simps Let_def split: if_splits)+
  assume "payloadLen v = Some n"
  then show ?thesis
    using strs [of 4 "v_strArr v"] count [of 4 "v_strArr v"]
    by (cases "v_kind v"; cases "v_w256 v")
      (auto simp: payloadLen_def writePayload_def checkedPayloadLen_def split: if_splits)
qed

lemma productHash_total: "\<forall>v \<in> set pv. payloadLen v \<noteq> None \<Longrightarrow> \<exists>bs. productHash pv = Some bs"
proof (induction pv)
  case (Cons v pv)
  then obtain n bs where "payloadLen v = Some n" "productHash pv = Some bs" by auto
  with payloadLen_writePayload show ?case by fastforce
qed simp

lemma productHash64_total: "\<forall>v \<in> set pv. payloadLen v \<noteq> None \<Longrightarrow> \<exists>h. productHash64 pv = Some h"
  using productHash_total [of pv] by (auto simp: productHash64_def productHash64From_eq)

lemma row_hash: "row_wf ts row \<Longrightarrow> \<exists>h. productHash64 row = Some h"
  using productHash64_total row_wf_values by blast

lemma productHash64_cong: "productEqual pv pw \<Longrightarrow> productHash64 pv = productHash64 pw"
  by (simp add: productHash64_def productHash64From_eq productHash_Equal)

lemma set_keyOf:
  assumes "row_wf ts row" "schema_wf ts" "ix \<in> set (ts_indexes ts)"
  shows "set (keyOf ix row) \<subseteq> set row"
  using assms row_wf_length by (fastforce simp: keyOf_def schema_wf_def)

lemma productEqual_refl: "row_wf ts row \<Longrightarrow> productEqual row row"
  using row_wf_values [of ts row]
  by (simp add: productEqual_def list_all2_same EqualValues_refl wf_value_nanFree)

section \<open>Indexes hold the rows of the table\<close>

text \<open>The index state holds exactly the rows of \<open>f\<close>, each under its key.\<close>

definition idx_holds :: "value_kind list \<Rightarrow> bTreeIndex \<Rightarrow> (rowID \<rightharpoonup> indexKey) \<Rightarrow> bool" where
  "idx_holds sg b f \<longleftrightarrow> bt_inv sg b \<and>
     (\<forall>k. map v_kind k = sg \<longrightarrow> set (the (btRowIDs b k)) = {r. \<exists>l. f r = Some l \<and> compareKey l k = 0})"

lemma idx_holds_empty: "idx_holds sg NewBTreeIndex Map.empty"
  using btree.holds_empty [of sg] by (simp add: idx_holds_def btree.holds_rows_def)

lemma idx_holds_ids:
  "idx_holds sg b f \<Longrightarrow> map v_kind k = sg \<Longrightarrow>
   \<exists>xs. btRowIDs b k = Some xs \<and> distinct xs \<and> set xs = {r. \<exists>l. f r = Some l \<and> compareKey l k = 0}"
  using btree.holds_ids [of sg b f k] by (simp add: idx_holds_def btree.holds_rows_def)

lemma idx_holds_ins:
  "idx_holds sg b f \<Longrightarrow> map v_kind k = sg \<Longrightarrow> f r = None \<Longrightarrow>
   \<exists>b'. btInsert b k r = Some b' \<and> idx_holds sg b' (f(r \<mapsto> k))"
  using btree.holds_ins [of sg b f k r] by (simp add: idx_holds_def btree.holds_rows_def)

lemma idx_holds_rem:
  "idx_holds sg b f \<Longrightarrow> map v_kind k = sg \<Longrightarrow> f r = Some k \<Longrightarrow>
   \<exists>b'. btRemove b k r = Some b' \<and> idx_holds sg b' (f(r := None))"
  using btree.holds_rem [of sg b f k r k] key_order.cmp_refl [of k]
  by (simp add: idx_holds_def btree.holds_rows_def)

type_synonym rowMap = "rowID \<rightharpoonup> productValue"

definition rowKeys :: "indexSchema \<Rightarrow> rowMap \<Rightarrow> rowID \<rightharpoonup> indexKey" where
  "rowKeys ix rows = (\<lambda>r. map_option (keyOf ix) (rows r))"

lemma rowKeys_upd [simp]:
  "rowKeys ix (rows(rid \<mapsto> row)) = (rowKeys ix rows)(rid \<mapsto> keyOf ix row)"
  "rowKeys ix (rows(rid := None)) = (rowKeys ix rows)(rid := None)"
  "rowKeys ix Map.empty = Map.empty"
  by (simp_all add: rowKeys_def fun_eq_iff)

lemma rowKeys_eq [simp]:
  "rowKeys ix rows r = None \<longleftrightarrow> rows r = None"
  "rowKeys ix rows r = Some k \<longleftrightarrow> (\<exists>x. rows r = Some x \<and> k = keyOf ix x)"
  by (auto simp: rowKeys_def)

definition index_ok :: "tableSchema \<Rightarrow> rowMap \<Rightarrow> index \<Rightarrow> bool" where
  "index_ok ts rows idx \<longleftrightarrow>
     idx_holds (keyKinds ts (idx_schema idx)) (idx_btree idx) (rowKeys (idx_schema idx) rows)"

text \<open>A unique index already holds the key of the row.\<close>

definition taken :: "rowMap \<Rightarrow> productValue \<Rightarrow> indexSchema \<Rightarrow> bool" where
  "taken rows row ix \<longleftrightarrow> ix_unique ix \<and>
     (\<exists>r x. rows r = Some x \<and> compareKey (keyOf ix x) (keyOf ix row) = 0)"

lemma mapO_ex:
  "(\<And>x. x \<in> set xs \<Longrightarrow> \<exists>y. f x = Some y \<and> P x y) \<Longrightarrow> \<exists>ys. mapO f xs = Some ys \<and> list_all2 P xs ys"
  by (induction xs) (fastforce)+

lemma list_all2_schemas:
  "list_all2 (\<lambda>x y. idx_schema y = idx_schema x \<and> Q y) xs ys \<Longrightarrow>
   map idx_schema ys = map idx_schema xs \<and> (\<forall>y \<in> set ys. Q y)"
  by (induction rule: list_all2_induct) auto

lemma idxExtractKey_wf:
  "schema_wf ts \<Longrightarrow> row_wf ts row \<Longrightarrow> idx_schema idx \<in> set (ts_indexes ts) \<Longrightarrow>
   idxExtractKey idx row = Some (keyOf (idx_schema idx) row)"
  using ExtractKey_keyOf(1) [of ts row] by (simp add: idxExtractKey_def)

lemma idxRemove_ok:
  assumes "schema_wf ts" "row_wf ts row" "idx_schema idx \<in> set (ts_indexes ts)"
    and "index_ok ts rows idx" "rows rid = Some row"
  shows "\<exists>idx'. idxRemove rid row idx = Some idx' \<and>
    idx_schema idx' = idx_schema idx \<and> index_ok ts (rows(rid := None)) idx'"
proof -
  let ?ix = "idx_schema idx"
  have "map v_kind (keyOf ?ix row) = keyKinds ts ?ix" by (rule ExtractKey_keyOf(2) [OF assms(2,1,3)])
  from idx_holds_rem [OF assms(4) [unfolded index_ok_def] this, of rid] assms(5)
  obtain b where "btRemove (idx_btree idx) (keyOf ?ix row) rid = Some b"
    "idx_holds (keyKinds ts ?ix) b ((rowKeys ?ix rows)(rid := None))" by auto
  then show ?thesis
    using idxExtractKey_wf [OF assms(1-3)] by (simp add: idxRemove_def index_ok_def)
qed

lemma removeFromIndexes_ok:
  assumes "schema_wf ts" "row_wf ts row" "rows rid = Some row"
    and "\<forall>idx \<in> set idxs. idx_schema idx \<in> set (ts_indexes ts) \<and> index_ok ts rows idx"
  shows "\<exists>idxs'. removeFromIndexes rid row idxs = Some idxs' \<and>
    map idx_schema idxs' = map idx_schema idxs \<and> (\<forall>idx \<in> set idxs'. index_ok ts (rows(rid := None)) idx)"
proof -
  have "\<exists>ys. mapO (idxRemove rid row) idxs = Some ys \<and>
      list_all2 (\<lambda>x y. idx_schema y = idx_schema x \<and> index_ok ts (rows(rid := None)) y) idxs ys"
    by (rule mapO_ex) (use idxRemove_ok [OF assms(1,2), of _ rows rid] assms(3,4) in blast)
  then show ?thesis using list_all2_schemas by (fastforce simp: removeFromIndexes_def)
qed

lemma taken_ids:
  assumes "schema_wf ts" "row_wf ts row" "idx_schema idx \<in> set (ts_indexes ts)" "index_ok ts rows idx"
  shows "\<exists>ids. btRowIDs (idx_btree idx) (keyOf (idx_schema idx) row) = Some ids \<and> distinct ids \<and>
    set ids = {r. \<exists>x. rows r = Some x \<and> compareKey (keyOf (idx_schema idx) x) (keyOf (idx_schema idx) row) = 0}"
  using idx_holds_ids [OF assms(4) [unfolded index_ok_def] ExtractKey_keyOf(2) [OF assms(2,1,3)]]
  by auto

lemma insertIndexesLoop_ok:
  assumes wf: "schema_wf ts" "row_wf ts row" and fresh: "rows rid = None"
    and "\<forall>idx \<in> set before. idx_schema idx \<in> set (ts_indexes ts) \<and> index_ok ts (rows(rid \<mapsto> row)) idx"
    and "\<forall>idx \<in> set rest. idx_schema idx \<in> set (ts_indexes ts) \<and> index_ok ts rows idx"
  shows "\<exists>idxs. insertIndexesLoop rid row before rest =
      Some (idxs, map_option (\<lambda>idx. (idx, keyOf (idx_schema idx) row))
        (List.find (\<lambda>idx. taken rows row (idx_schema idx)) rest)) \<and>
    map idx_schema idxs = map idx_schema (before @ rest) \<and>
    (\<forall>idx \<in> set idxs. index_ok ts
      (if List.find (\<lambda>idx. taken rows row (idx_schema idx)) rest = None then rows(rid \<mapsto> row) else rows) idx)"
  using assms(4,5)
proof (induction rest arbitrary: before)
  case Nil
  then show ?case by simp
next
  case (Cons idx rest)
  let ?ix = "idx_schema idx" let ?k = "keyOf ?ix row"
  have ix: "?ix \<in> set (ts_indexes ts)" "index_ok ts rows idx" using Cons.prems(2) by simp_all
  have key: "idxExtractKey idx row = Some ?k" by (rule idxExtractKey_wf [OF wf ix(1)])
  obtain ids where ids: "btRowIDs (idx_btree idx) ?k = Some ids"
    "set ids = {r. \<exists>x. rows r = Some x \<and> compareKey (keyOf ?ix x) ?k = 0}"
    using taken_ids [OF wf ix] by blast
  have tk: "ix_unique ?ix \<and> length ids \<noteq> 0 \<longleftrightarrow> taken rows row ?ix"
  proof -
    have "length ids \<noteq> 0 \<longleftrightarrow> (\<exists>r. r \<in> set ids)" by (cases ids) auto
    then show ?thesis unfolding ids(2) taken_def by auto
  qed
  show ?case
  proof (cases "taken rows row ?ix")
    case True
    have "rows(rid := None) = rows" using fresh by auto
    then obtain before' where "removeFromIndexes rid row before = Some before'"
      "map idx_schema before' = map idx_schema before" "\<forall>i \<in> set before'. index_ok ts rows i"
      using removeFromIndexes_ok [OF wf, of "rows(rid \<mapsto> row)" rid before] Cons.prems(1) by auto
    then show ?thesis using True tk key ids(1) Cons.prems(2) by auto
  next
    case False
    obtain b where b: "btInsert (idx_btree idx) ?k rid = Some b"
      "idx_holds (keyKinds ts ?ix) b ((rowKeys ?ix rows)(rid \<mapsto> ?k))"
      using idx_holds_ins [OF ix(2) [unfolded index_ok_def] ExtractKey_keyOf(2) [OF wf(2,1) ix(1)]] fresh
      by auto
    then have "index_ok ts (rows(rid \<mapsto> row)) (idx\<lparr>idx_btree := b\<rparr>)"
      by (simp add: index_ok_def)
    then have "\<forall>i \<in> set (before @ [idx\<lparr>idx_btree := b\<rparr>]).
        idx_schema i \<in> set (ts_indexes ts) \<and> index_ok ts (rows(rid \<mapsto> row)) i"
      using Cons.prems(1) ix(1) by (auto simp del: fun_upd_apply)
    from Cons.IH [OF this] Cons.prems(2) False tk key ids(1) b(1) show ?thesis
      by (cases "ix_unique ?ix") (auto simp del: fun_upd_apply)
  qed
qed

section \<open>The table invariant\<close>

abbreviation rowsOf :: "table \<Rightarrow> rowMap" where
  "rowsOf t \<equiv> map_of (t_rows t)"

definition unique_ok :: "rowMap \<Rightarrow> indexSchema \<Rightarrow> bool" where
  "unique_ok rows ix \<longleftrightarrow> (ix_unique ix \<longrightarrow>
     (\<forall>r s x y. rows r = Some x \<longrightarrow> rows s = Some y \<longrightarrow> compareKey (keyOf ix x) (keyOf ix y) = 0 \<longrightarrow> r = s))"

definition hash_ok :: "(u64 \<times> rowID list) list \<Rightarrow> rowMap \<Rightarrow> bool" where
  "hash_ok m rows \<longleftrightarrow> distinct (map fst m) \<and>
     (\<forall>h. distinct (bucketOf m h) \<and>
          set (bucketOf m h) = {r. \<exists>x. rows r = Some x \<and> productHash64 x = Some h})"

definition set_ok :: "rowMap \<Rightarrow> bool" where
  "set_ok rows \<longleftrightarrow> (\<forall>r s x y. rows r = Some x \<longrightarrow> rows s = Some y \<longrightarrow> productEqual x y \<longrightarrow> r = s)"

definition hash_inv :: "tableSchema \<Rightarrow> rowMap \<Rightarrow> (u64 \<times> rowID list) list option \<Rightarrow> bool" where
  "hash_inv ts rows m \<longleftrightarrow>
     (case m of None \<Rightarrow> PrimaryIndex ts \<noteq> None
      | Some m \<Rightarrow> PrimaryIndex ts = None \<and> hash_ok m rows \<and> set_ok rows)"

text \<open>
  Rows have distinct identifiers and fit the schema; every index holds exactly the rows, unique
  ones at most one per key; a table without a primary key has the hash index, which holds
  exactly the rows, no two of which are equal.
\<close>

definition tbl_inv :: "table \<Rightarrow> bool" where
  [wf_defs]: "tbl_inv t \<longleftrightarrow>
     schema_wf (t_schema t) \<and> distinct (map fst (t_rows t)) \<and>
     (\<forall>x \<in> ran (rowsOf t). row_wf (t_schema t) x) \<and>
     map idx_schema (t_indexes t) = ts_indexes (t_schema t) \<and>
     (\<forall>idx \<in> set (t_indexes t). index_ok (t_schema t) (rowsOf t) idx \<and> unique_ok (rowsOf t) (idx_schema idx)) \<and>
     hash_inv (t_schema t) (rowsOf t) (t_rowHashIndex t)"

text \<open>The parts of a table no row operation touches.\<close>

definition same_frame :: "table \<Rightarrow> table \<Rightarrow> bool" where
  "same_frame t t' \<longleftrightarrow> t_schema t' = t_schema t \<and> t_nextID t' = t_nextID t \<and>
     t_sequence t' = t_sequence t \<and> t_sequenceCol t' = t_sequenceCol t \<and>
     map idx_schema (t_indexes t') = map idx_schema (t_indexes t) \<and>
     (t_rowHashIndex t' = None \<longleftrightarrow> t_rowHashIndex t = None)"

lemma same_frame_refl [simp]: "same_frame t t"
  by (simp add: same_frame_def)

lemma same_frame_trans: "same_frame t u \<Longrightarrow> same_frame u v \<Longrightarrow> same_frame t v"
  by (simp add: same_frame_def)

lemma tbl_inv_NewTable: "schema_wf ts \<Longrightarrow> tbl_inv (NewTable ts)"
  by (auto simp: tbl_inv_def hash_inv_def NewTable_def NewIndex_def index_ok_def unique_ok_def hash_ok_def set_ok_def
      bucketOf_def idx_holds_empty comp_def split: option.split)

section \<open>Hash buckets\<close>

lemma bucketOf_update:
  "bucketOf (AList.update h b m) h' = (if h' = h then b else bucketOf m h')"
  by (simp add: bucketOf_def update_conv')

lemma bucketOf_delete: "bucketOf (AList.delete h m) h' = (if h' = h then [] else bucketOf m h')"
  by (simp add: bucketOf_def delete_conv')

lemma hash_ok_insert:
  assumes "hash_ok m rows" "rows rid = None" "productHash64 row = Some h"
  shows "hash_ok (AList.update h (bucketOf m h @ [rid]) m) (rows(rid \<mapsto> row))"
  using assms by (auto simp: hash_ok_def bucketOf_update distinct_update)

lemma bucketOf_remove:
  "bucketOf (removeFromBucket h rid m) h' = (if h' = h then remove1 rid (bucketOf m h) else bucketOf m h')"
  by (auto simp: removeFromBucket_def Let_def bucketOf_update bucketOf_delete remove1_idem)

lemma hash_ok_remove:
  assumes "hash_ok m rows" "rows rid = Some row" "productHash64 row = Some h"
  shows "hash_ok (removeFromBucket h rid m) (rows(rid := None))"
proof -
  have "distinct (map fst (removeFromBucket h rid m))"
    using assms(1) by (simp add: hash_ok_def removeFromBucket_def Let_def distinct_update distinct_delete)
  then show ?thesis using assms by (auto simp: hash_ok_def bucketOf_remove)
qed

section \<open>Which insertions succeed\<close>

text \<open>The error an insertion reports, as a function of the rows alone.\<close>

definition insert_error :: "table \<Rightarrow> rowID \<Rightarrow> productValue \<Rightarrow> store_error option" where
  "insert_error t rid row =
     (if rowsOf t rid \<noteq> None then Some (ErrDuplicateRowID rid)
      else case List.find (\<lambda>idx. taken (rowsOf t) row (idx_schema idx)) (t_indexes t) of
        Some idx \<Rightarrow> Some (uniqueViolationError t idx (keyOf (idx_schema idx) row))
      | None \<Rightarrow>
          if t_rowHashIndex t \<noteq> None \<and> (\<exists>x \<in> ran (rowsOf t). productEqual x row)
          then Some ErrDuplicateRow else None)"

lemma ran_del: "ran (m(k := None)) \<subseteq> ran m"
  by (auto simp: ran_def split: if_splits)

lemma bucket_equal_row:
  assumes "hash_ok m (rowsOf t)" "productHash64 row = Some h"
  shows "list_ex (\<lambda>rid. productEqual (rowOrNil t rid) row) (bucketOf m h) \<longleftrightarrow>
    (\<exists>x \<in> ran (rowsOf t). productEqual x row)"
proof
  assume "list_ex (\<lambda>rid. productEqual (rowOrNil t rid) row) (bucketOf m h)"
  then obtain rid where "rid \<in> set (bucketOf m h)" "productEqual (rowOrNil t rid) row"
    by (auto simp: list_ex_iff)
  with assms(1) show "\<exists>x \<in> ran (rowsOf t). productEqual x row"
    by (auto simp: hash_ok_def rowOrNil_def ran_def)
next
  assume "\<exists>x \<in> ran (rowsOf t). productEqual x row"
  then obtain rid x where x: "rowsOf t rid = Some x" "productEqual x row" by (auto simp: ran_def)
  then have "productHash64 x = Some h" using assms(2) productHash64_cong by metis
  then have "rid \<in> set (bucketOf m h)" using assms(1) x(1) by (auto simp: hash_ok_def)
  then show "list_ex (\<lambda>rid. productEqual (rowOrNil t rid) row) (bucketOf m h)"
    using x by (auto simp: list_ex_iff rowOrNil_def intro: bexI [of _ rid])
qed

lemma unique_ok_insert:
  assumes "unique_ok rows ix" "\<not> taken rows row ix" "rows rid = None"
  shows "unique_ok (rows(rid \<mapsto> row)) ix"
proof -
  have "compareKey k l = 0 \<longleftrightarrow> compareKey l k = 0" for k l using key_order.cmp_eq_sym by blast
  then show ?thesis
    using assms unfolding unique_ok_def taken_def by (auto split: if_splits)
qed

lemma productEqual_sym: "productEqual x y \<Longrightarrow> productEqual y x"
  unfolding productEqual_def by (simp add: list_all2_conv_all_nth EqualValues_sym)

lemma set_ok_insert:
  assumes "set_ok rows" "\<not> (\<exists>x \<in> ran rows. productEqual x row)" "rows rid = None"
  shows "set_ok (rows(rid \<mapsto> row))"
  using assms unfolding set_ok_def by (auto simp: ran_def dest: productEqual_sym)

lemma same_schemas:
  assumes "map idx_schema idxs = map idx_schema js" "idx \<in> set idxs"
  obtains j where "j \<in> set js" "idx_schema j = idx_schema idx"
proof -
  have "idx_schema idx \<in> set (map idx_schema js)" unfolding assms(1) [symmetric] using assms(2) by simp
  then show ?thesis using that by auto
qed

lemma tbl_inv_indexes:
  "tbl_inv t \<Longrightarrow> \<forall>idx \<in> set (t_indexes t).
     idx_schema idx \<in> set (ts_indexes (t_schema t)) \<and> index_ok (t_schema t) (rowsOf t) idx"
  unfolding tbl_inv_def by (metis (no_types, lifting) image_eqI list.set_map)

lemma tbl_inv_unique: "tbl_inv t \<Longrightarrow> idx \<in> set (t_indexes t) \<Longrightarrow> unique_ok (rowsOf t) (idx_schema idx)"
  by (simp add: tbl_inv_def)

text \<open>Replacing the indexes by others that hold the same rows keeps the invariant.\<close>

lemma tbl_inv_set_indexes:
  assumes "tbl_inv t" "map idx_schema idxs = map idx_schema (t_indexes t)"
    "\<forall>idx \<in> set idxs. index_ok (t_schema t) (rowsOf t) idx"
  shows "tbl_inv (t\<lparr>t_indexes := idxs\<rparr>)"
proof -
  have "\<forall>i \<in> set idxs. unique_ok (rowsOf t) (idx_schema i)"
    using same_schemas [OF assms(2)] tbl_inv_unique [OF assms(1)] by metis
  then show ?thesis using assms by (simp add: tbl_inv_def)
qed

lemma find_none_taken:
  "List.find (\<lambda>idx. taken rows row (idx_schema idx)) idxs = None \<Longrightarrow> map idx_schema idxs' = map idx_schema idxs \<Longrightarrow>
   idx \<in> set idxs' \<Longrightarrow> \<not> taken rows row (idx_schema idx)"
  unfolding find_None_iff by (metis (no_types, lifting) image_iff list.set_map)

lemma tbl_inv_add_row:
  assumes inv: "tbl_inv t" and row: "row_wf (t_schema t) row" and fresh: "rowsOf t rid = None"
    and idxs: "map idx_schema idxs = map idx_schema (t_indexes t)"
      "\<forall>idx \<in> set idxs. index_ok (t_schema t) ((rowsOf t)(rid \<mapsto> row)) idx"
      "List.find (\<lambda>idx. taken (rowsOf t) row (idx_schema idx)) (t_indexes t) = None"
    and hash: "case t_rowHashIndex t of None \<Rightarrow> m' = None
      | Some m \<Rightarrow> \<not> (\<exists>x \<in> ran (rowsOf t). productEqual x row) \<and>
          (\<exists>h. productHash64 row = Some h \<and> m' = Some (AList.update h (bucketOf m h @ [rid]) m))"
  shows "tbl_inv (t\<lparr>t_indexes := idxs, t_rowHashIndex := m', t_rows := AList.update rid row (t_rows t)\<rparr>)"
proof -
  let ?rows = "(rowsOf t)(rid \<mapsto> row)"
  have rows: "map_of (AList.update rid row (t_rows t)) = ?rows" by (rule update_conv')
  have "unique_ok ?rows (idx_schema idx)" if i: "idx \<in> set idxs" for idx
  proof (rule unique_ok_insert)
    show "rowsOf t rid = None" by (rule fresh)
    obtain j where "j \<in> set (t_indexes t)" "idx_schema j = idx_schema idx"
      using same_schemas [OF idxs(1) i] by blast
    then show "unique_ok (rowsOf t) (idx_schema idx)" using tbl_inv_unique [OF inv] by metis
    show "\<not> taken (rowsOf t) row (idx_schema idx)" by (rule find_none_taken [OF idxs(3,1) i])
  qed
  moreover have "hash_inv (t_schema t) ?rows m'"
    using inv hash fresh hash_ok_insert [of _ "rowsOf t" rid row] set_ok_insert [of "rowsOf t" row rid]
    by (cases "t_rowHashIndex t") (auto simp: tbl_inv_def hash_inv_def)
  ultimately show ?thesis
    using inv row idxs(1,2) fresh by (simp add: tbl_inv_def rows distinct_update)
qed

lemma InsertRow_ok:
  assumes inv: "tbl_inv t" and row: "row_wf (t_schema t) row"
  shows "\<exists>t'. InsertRow t rid row = Some (t', insert_error t rid row) \<and> tbl_inv t' \<and> same_frame t t' \<and>
    (if insert_error t rid row = None then t_rows t' = AList.update rid row (t_rows t) \<and> rowsOf t rid = None
     else t_rows t' = t_rows t)"
proof (cases "rowsOf t rid")
  case (Some x)
  then show ?thesis using inv by (simp add: InsertRow_def insert_error_def)
next
  case None
  let ?rows = "rowsOf t" and ?ts = "t_schema t"
  let ?find = "List.find (\<lambda>idx. taken ?rows row (idx_schema idx)) (t_indexes t)"
  have wf: "schema_wf ?ts" using inv by (simp add: tbl_inv_def)
  obtain idxs where loop: "insertIndexesLoop rid row [] (t_indexes t) =
      Some (idxs, map_option (\<lambda>idx. (idx, keyOf (idx_schema idx) row)) ?find)"
    and sch: "map idx_schema idxs = map idx_schema (t_indexes t)"
    and ok: "\<forall>idx \<in> set idxs. index_ok ?ts (if ?find = None then ?rows(rid \<mapsto> row) else ?rows) idx"
    using insertIndexesLoop_ok [of ?ts row ?rows rid "[]" "t_indexes t"] wf row None tbl_inv_indexes [OF inv] by auto
  show ?thesis
  proof (cases ?find)
    case (Some idx)
    then show ?thesis
      using None loop sch ok tbl_inv_set_indexes [OF inv sch]
      by (simp add: InsertRow_def insertIntoIndexes_def insert_error_def same_frame_def)
  next
    case free: None
    have "set (map idx_schema idxs) = set (ts_indexes ?ts)" using inv sch by (simp add: tbl_inv_def)
    then have ok2: "\<forall>idx \<in> set idxs. idx_schema idx \<in> set (ts_indexes ?ts) \<and> index_ok ?ts (?rows(rid \<mapsto> row)) idx"
      using ok free by (auto simp del: fun_upd_apply)
    show ?thesis
    proof (cases "t_rowHashIndex t")
      case nohash: None
      then have "tbl_inv (t\<lparr>t_indexes := idxs, t_rowHashIndex := None, t_rows := AList.update rid row (t_rows t)\<rparr>)"
        using ok2 by (intro tbl_inv_add_row [OF inv row None sch _ free]) auto
      moreover have "t\<lparr>t_indexes := idxs, t_rowHashIndex := None, t_rows := AList.update rid row (t_rows t)\<rparr> =
          t\<lparr>t_indexes := idxs, t_rows := AList.update rid row (t_rows t)\<rparr>"
        using nohash by (cases t) simp
      ultimately show ?thesis
        using None free loop nohash sch row
        by (simp add: InsertRow_def insertIntoIndexes_def insert_error_def same_frame_def)
    next
      case (Some m)
      obtain h where h: "productHash64 row = Some h" using row_hash [OF row] by blast
      have hok: "hash_ok m ?rows" using inv Some by (simp add: tbl_inv_def hash_inv_def)
      let ?dup = "\<exists>x \<in> ran ?rows. productEqual x row"
      have dup: "list_ex (\<lambda>rid. productEqual (rowOrNil (t\<lparr>t_indexes := idxs\<rparr>) rid) row) (bucketOf m h) \<longleftrightarrow> ?dup"
        using bucket_equal_row [OF hok h] by (simp add: rowOrNil_def)
      show ?thesis
      proof (cases ?dup)
        case True
        have "(?rows(rid \<mapsto> row))(rid := None) = ?rows" using None by auto
        then obtain idxs' where rem: "removeFromIndexes rid row idxs = Some idxs'"
          "map idx_schema idxs' = map idx_schema idxs" "\<forall>idx \<in> set idxs'. index_ok ?ts ?rows idx"
          using removeFromIndexes_ok [of ?ts row "?rows(rid \<mapsto> row)" rid idxs] wf row ok2 map_upd_Some_unfold [of ?rows rid row rid row]
          by (auto simp del: fun_upd_apply)
        then have "tbl_inv (t\<lparr>t_indexes := idxs'\<rparr>)"
          using sch by (intro tbl_inv_set_indexes [OF inv]) auto
        then show ?thesis
          using True None free loop Some h dup rem sch
          by (simp add: InsertRow_def insertIntoIndexes_def insert_error_def same_frame_def)
      next
        case False
        then have "tbl_inv (t\<lparr>t_indexes := idxs, t_rowHashIndex := Some (AList.update h (bucketOf m h @ [rid]) m),
            t_rows := AList.update rid row (t_rows t)\<rparr>)"
          using ok2 Some h by (intro tbl_inv_add_row [OF inv row None sch _ free]) auto
        then show ?thesis
          using False None free loop Some h dup sch row
          by (simp add: InsertRow_def insertIntoIndexes_def insert_error_def same_frame_def)
      qed
    qed
  qed
qed

lemma unique_ok_delete: "unique_ok rows ix \<Longrightarrow> unique_ok (rows(rid := None)) ix"
  by (auto simp: unique_ok_def)

lemma set_ok_delete: "set_ok rows \<Longrightarrow> set_ok (rows(rid := None))"
  by (auto simp: set_ok_def)

lemma DeleteRow_ok:
  assumes inv: "tbl_inv t"
  shows "\<exists>t'. DeleteRow t rid = Some (t', rowsOf t rid) \<and> tbl_inv t' \<and> same_frame t t' \<and>
    t_rows t' = AList.delete rid (t_rows t)"
proof (cases "rowsOf t rid")
  case None
  then have "AList.delete rid (t_rows t) = t_rows t" by (simp add: delete_id map_of_eq_None_iff)
  then show ?thesis using inv None by (simp add: DeleteRow_def)
next
  case (Some row)
  let ?rows = "rowsOf t" and ?ts = "t_schema t"
  have wf: "schema_wf ?ts" and row: "row_wf ?ts row"
    using inv Some by (auto simp: tbl_inv_def ranI)
  obtain idxs where idxs: "removeFromIndexes rid row (t_indexes t) = Some idxs"
    "map idx_schema idxs = map idx_schema (t_indexes t)" "\<forall>idx \<in> set idxs. index_ok ?ts (?rows(rid := None)) idx"
    using removeFromIndexes_ok [of ?ts row ?rows rid "t_indexes t"] wf row Some tbl_inv_indexes [OF inv]
    by (auto simp del: fun_upd_apply)
  obtain h where h: "productHash64 row = Some h" using row_hash [OF row] by blast
  let ?m = "map_option (removeFromBucket h rid) (t_rowHashIndex t)"
  have rows: "map_of (AList.delete rid (t_rows t)) = ?rows(rid := None)" by (rule delete_conv')
  have "\<forall>idx \<in> set idxs. unique_ok (?rows(rid := None)) (idx_schema idx)"
  proof
    fix idx assume "idx \<in> set idxs"
    then obtain j where "j \<in> set (t_indexes t)" "idx_schema j = idx_schema idx"
      using same_schemas [OF idxs(2)] by blast
    then show "unique_ok (?rows(rid := None)) (idx_schema idx)"
      using tbl_inv_unique [OF inv] unique_ok_delete by metis
  qed
  moreover have "hash_inv ?ts (?rows(rid := None)) ?m"
    using inv Some h hash_ok_remove [of _ "rowsOf t" rid row h] set_ok_delete [of "rowsOf t" rid]
    by (auto simp: tbl_inv_def hash_inv_def split: option.splits)
  ultimately have "tbl_inv (t\<lparr>t_indexes := idxs, t_rowHashIndex := ?m, t_rows := AList.delete rid (t_rows t)\<rparr>)"
    using inv idxs ran_del [of ?rows rid] by (auto simp: tbl_inv_def rows distinct_delete)
  then show ?thesis
    using Some idxs h row
    by (cases "t_rowHashIndex t") (simp_all add: DeleteRow_def same_frame_def)
qed

section \<open>The table as a constrained map\<close>

text \<open>
  The error of a row that conflicts with the rows of \<open>rows\<close>: the first unique index that holds its
  key, or, in a table without a primary key, an equal row.
\<close>

definition keyViolation :: "tableSchema \<Rightarrow> indexSchema \<Rightarrow> indexKey \<Rightarrow> store_error" where
  "keyViolation ts ix key = (if ix_primary ix then PrimaryKeyViolation (ts_name ts) (ix_name ix) key
     else UniqueConstraintViolation (ts_name ts) (ix_name ix) key)"

definition rowConflict :: "tableSchema \<Rightarrow> rowMap \<Rightarrow> productValue \<Rightarrow> store_error option" where
  "rowConflict ts rows row =
     (case List.find (taken rows row) (ts_indexes ts) of
        Some ix \<Rightarrow> Some (keyViolation ts ix (keyOf ix row))
      | None \<Rightarrow> if PrimaryIndex ts = None \<and> (\<exists>x \<in> ran rows. productEqual x row)
          then Some ErrDuplicateRow else None)"

lemma uniqueViolationError_eq:
  "uniqueViolationError t idx key = keyViolation (t_schema t) (idx_schema idx) key"
  by (simp add: uniqueViolationError_def keyViolation_def)

lemma find_map: "List.find P (map f xs) = map_option f (List.find (\<lambda>x. P (f x)) xs)"
  by (induction xs) auto

lemma tbl_inv_schemas: "tbl_inv t \<Longrightarrow> ts_indexes (t_schema t) = map idx_schema (t_indexes t)"
  by (simp add: tbl_inv_def)

lemma tbl_inv_hash: "tbl_inv t \<Longrightarrow> t_rowHashIndex t = None \<longleftrightarrow> PrimaryIndex (t_schema t) \<noteq> None"
  by (auto simp: tbl_inv_def hash_inv_def split: option.splits)

lemma insert_error_conflict:
  "tbl_inv t \<Longrightarrow> insert_error t rid row =
     (if rowsOf t rid \<noteq> None then Some (ErrDuplicateRowID rid) else rowConflict (t_schema t) (rowsOf t) row)"
  by (auto simp: insert_error_def rowConflict_def tbl_inv_schemas find_map tbl_inv_hash uniqueViolationError_eq
      split: option.splits)

datatype tbl_op = OpInsertRow rowID productValue | OpDeleteRow rowID

datatype tbl_outcome = Inserted | Refused store_error | Deleted "productValue option"

fun tbl_step :: "table \<Rightarrow> tbl_op \<Rightarrow> (table \<times> tbl_outcome) option" where
  "tbl_step t (OpInsertRow rid row) = do {
     (t, err) \<leftarrow> InsertRow t rid row;
     Some (t, case err of None \<Rightarrow> Inserted | Some e \<Rightarrow> Refused e)
   }"
| "tbl_step t (OpDeleteRow rid) = do { (t, row) \<leftarrow> DeleteRow t rid; Some (t, Deleted row) }"

fun tbl_run :: "table \<Rightarrow> tbl_op list \<Rightarrow> (table \<times> tbl_outcome list) option" where
  "tbl_run t [] = Some (t, [])"
| "tbl_run t (x # ops) = do {
     (t, r) \<leftarrow> tbl_step t x; (t, rs) \<leftarrow> tbl_run t ops; Some (t, r # rs)
   }"

text \<open>The same operations on the map of rows alone.\<close>

fun map_step :: "tableSchema \<Rightarrow> rowMap \<Rightarrow> tbl_op \<Rightarrow> rowMap \<times> tbl_outcome" where
  "map_step ts rows (OpInsertRow rid row) =
     (if rows rid \<noteq> None then (rows, Refused (ErrDuplicateRowID rid))
      else case rowConflict ts rows row of Some e \<Rightarrow> (rows, Refused e) | None \<Rightarrow> (rows(rid \<mapsto> row), Inserted))"
| "map_step ts rows (OpDeleteRow rid) = (rows(rid := None), Deleted (rows rid))"

fun map_run :: "tableSchema \<Rightarrow> rowMap \<Rightarrow> tbl_op list \<Rightarrow> rowMap \<times> tbl_outcome list" where
  "map_run ts rows [] = (rows, [])"
| "map_run ts rows (x # ops) =
     (let (rows, r) = map_step ts rows x; (rows, rs) = map_run ts rows ops in (rows, r # rs))"

primrec op_wf :: "tableSchema \<Rightarrow> tbl_op \<Rightarrow> bool" where
  "op_wf ts (OpInsertRow rid row) \<longleftrightarrow> row_wf ts row"
| "op_wf ts (OpDeleteRow rid) \<longleftrightarrow> True"

lemma tbl_step_refines:
  assumes inv: "tbl_inv t" and wf: "op_wf (t_schema t) x"
  shows "\<exists>t' r. tbl_step t x = Some (t', r) \<and> tbl_inv t' \<and> same_frame t t' \<and>
    map_step (t_schema t) (rowsOf t) x = (rowsOf t', r)"
proof (cases x)
  case (OpInsertRow rid row)
  then have "row_wf (t_schema t) row" using wf by simp
  from InsertRow_ok [OF inv this] obtain t' where t': "InsertRow t rid row = Some (t', insert_error t rid row)" "tbl_inv t'" "same_frame t t'"
    "if insert_error t rid row = None then t_rows t' = AList.update rid row (t_rows t) \<and> rowsOf t rid = None
     else t_rows t' = t_rows t"
    by blast
  show ?thesis
  proof (cases "insert_error t rid row")
    case None
    then have "rowsOf t rid = None" "rowConflict (t_schema t) (rowsOf t) row = None"
      using insert_error_conflict [OF inv, of rid row] by (simp_all split: if_splits)
    then show ?thesis using OpInsertRow None t' by (simp add: update_conv')
  next
    case (Some e)
    then have "map_step (t_schema t) (rowsOf t) x = (rowsOf t, Refused e)"
      using insert_error_conflict [OF inv, of rid row] OpInsertRow by (simp split: if_splits)
    then show ?thesis using OpInsertRow Some t' by simp
  qed
next
  case (OpDeleteRow rid)
  then show ?thesis using DeleteRow_ok [OF inv, of rid] by (auto simp: delete_conv')
qed

lemma tbl_run_refines:
  "tbl_inv t \<Longrightarrow> list_all (op_wf (t_schema t)) ops \<Longrightarrow>
   \<exists>t' rs. tbl_run t ops = Some (t', rs) \<and> tbl_inv t' \<and> same_frame t t' \<and>
     map_run (t_schema t) (rowsOf t) ops = (rowsOf t', rs)"
proof (induction ops arbitrary: t)
  case (Cons x ops)
  obtain t1 r where s: "tbl_step t x = Some (t1, r)" "tbl_inv t1" "same_frame t t1"
    "map_step (t_schema t) (rowsOf t) x = (rowsOf t1, r)"
    using tbl_step_refines [OF Cons.prems(1), of x] Cons.prems(2) by (auto simp del: tbl_step.simps map_step.simps)
  moreover have "t_schema t1 = t_schema t" using s(3) by (simp add: same_frame_def)
  ultimately show ?case
    using Cons.IH [of t1] Cons.prems(2) same_frame_trans [of t t1] by fastforce
qed simp

section \<open>Lookups through an index\<close>

lemma idxSeek_rows:
  assumes "tbl_inv t" "idx \<in> set (t_indexes t)" "map v_kind key = keyKinds (t_schema t) (idx_schema idx)"
  shows "\<exists>ids. idxSeek idx key = Some ids \<and> distinct ids \<and>
    set ids = {rid. \<exists>row. rowsOf t rid = Some row \<and> compareKey (keyOf (idx_schema idx) row) key = 0}"
proof -
  have "index_ok (t_schema t) (rowsOf t) idx" using assms(1,2) by (simp add: tbl_inv_def)
  from idx_holds_ids [OF this [unfolded index_ok_def] assms(3)] show ?thesis
    by (auto simp: idxSeek_def btSeek_def)
qed

lemma tbl_inv_row: "tbl_inv t \<Longrightarrow> rowsOf t rid = Some row \<Longrightarrow> row_wf (t_schema t) row"
  unfolding tbl_inv_def by (blast intro: ranI)

lemma GetRow_eq: "tbl_inv t \<Longrightarrow> GetRow t rid = rowsOf t rid"
  using productCopy_wf [OF tbl_inv_row, of t rid] by (cases "rowsOf t rid") (simp_all add: GetRow_def)

lemma tableScan_eq:
  assumes "tbl_inv t"
  shows "tableScan t = t_rows t"
  unfolding tableScan_def
proof (rule map_idI)
  fix x assume "x \<in> set (t_rows t)"
  then have "rowsOf t (fst x) = Some (snd x)" using assms by (simp add: tbl_inv_def)
  then show "(case x of (rid, row) \<Rightarrow> (rid, productCopy row)) = x"
    using productCopy_wf [OF tbl_inv_row [OF assms]] by (cases x) simp
qed

lemma IndexByID_set: "IndexByID t iid = Some idx \<Longrightarrow> idx \<in> set (t_indexes t)"
  by (auto simp: IndexByID_def find_Some_iff)

section \<open>Properties\<close>

text \<open>
  C13. Tables refine constrained maps. Every sequence of insertions and deletions on a new table
  runs without a panic, reports the same outcomes, in order, as the sequence on a map from row
  identifiers to rows that checks the unique keys and the duplicate rows by search, and leaves
  the same rows; B-tree indexes, hash buckets and the rollback of a refused insertion are
  invisible. The invariant relating indexes and rows holds at the end.
\<close>

theorem table_refines_map:
  assumes "schema_wf ts" "list_all (op_wf ts) ops"
  shows "\<exists>t rs. tbl_run (NewTable ts) ops = Some (t, rs) \<and> tbl_inv t \<and>
    map_run ts Map.empty ops = (rowsOf t, rs)"
proof -
  have "t_schema (NewTable ts) = ts" "rowsOf (NewTable ts) = Map.empty" by (simp_all add: NewTable_def)
  then show ?thesis using tbl_run_refines [OF tbl_inv_NewTable [OF assms(1)]] assms(2) by metis
qed

definition exampleSchema :: tableSchema where
  "exampleSchema = \<lparr>ts_id = 7, ts_name = ''tags'', ts_isEvent = False, ts_columns =
     [\<lparr>c_index = 0, c_name = ''id'', c_type = KindUint64, c_nullable = False, c_autoIncrement = True\<rparr>,
      \<lparr>c_index = 1, c_name = ''rank'', c_type = KindInt16, c_nullable = False, c_autoIncrement = False\<rparr>],
     ts_indexes = [NewIndexSchema 1 ''by_rank'' [1] False False, NewIndexSchema 2 ''by_id'' [0] True False]\<rparr>"

definition tagRow :: "u64 \<Rightarrow> u16 \<Rightarrow> productValue" where
  "tagRow n r = [NewUint64 n, NewInt16 r]"

lemma tagRow_wf [simp]: "row_wf exampleSchema (tagRow n r)"
proof -
  have "payloadLen (NewUint64 n) \<noteq> None" "payloadLen (NewInt16 r) \<noteq> None"
    "v_kind (NewUint64 n) = KindUint64" "v_kind (NewInt16 r) = KindInt16"
    "\<not> v_isNull (NewUint64 n)" "\<not> v_isNull (NewInt16 r)"
    by (simp_all add: payloadLen_def constructor_defs)
  then show ?thesis by (simp add: row_wf_def exampleSchema_def tagRow_def value_fits_def column_accepts_def)
qed

lemma exampleSchema_wf [simp]: "schema_wf exampleSchema"
  by (simp add: schema_wf_def exampleSchema_def)

theorem table_refines_map_witness:
  "\<exists>t rs. tbl_run (NewTable exampleSchema)
      [OpInsertRow 1 (tagRow 5 2), OpInsertRow 2 (tagRow 5 3), OpDeleteRow 1, OpInsertRow 2 (tagRow 5 3)] =
      Some (t, rs) \<and> tbl_inv t \<and>
    map_run exampleSchema Map.empty
      [OpInsertRow 1 (tagRow 5 2), OpInsertRow 2 (tagRow 5 3), OpDeleteRow 1, OpInsertRow 2 (tagRow 5 3)] =
      (rowsOf t, rs)"
  by (rule table_refines_map) simp_all



end
