(* ===== verification/TxState.thy ===== *)
theory TxState
  imports Table
begin

text \<open>
  Committed state, transaction-local buffers and the view that merges them
  (\<^verbatim>\<open>src/store/committed_state.go\<close>, \<^verbatim>\<open>tx_state.go\<close>, \<^verbatim>\<open>state_view.go\<close>). The read-write mutex of the
  committed state is not part of the record: operations are the critical sections. A nil inner
  map and a missing one both read as empty (\<open>bucketOf\<close>); an iterator is the list it yields when
  its consumer does not stop.
\<close>

section \<open>Committed state\<close>

record committedState =
  cs_tables :: "(tableID \<times> table) list"
  cs_committedTxID :: txID

definition NewCommittedState :: committedState where
  "NewCommittedState = \<lparr>cs_tables = [], cs_committedTxID = 0\<rparr>"

definition RegisterTable :: "committedState \<Rightarrow> tableID \<Rightarrow> table \<Rightarrow> committedState" where
  "RegisterTable cs tid t = cs\<lparr>cs_tables := AList.update tid t (cs_tables cs)\<rparr>"

definition tableLocked :: "committedState \<Rightarrow> tableID \<Rightarrow> table option" where
  "tableLocked cs tid = map_of (cs_tables cs) tid"

definition csTable :: "committedState \<Rightarrow> tableID \<Rightarrow> table option" where
  "csTable cs tid = tableLocked cs tid"

definition tableIDsLocked :: "committedState \<Rightarrow> tableID list" where
  "tableIDsLocked cs = map fst (cs_tables cs)"

definition TableIDs :: "committedState \<Rightarrow> tableID list" where
  "TableIDs cs = tableIDsLocked cs"

definition CommittedTxID :: "committedState \<Rightarrow> txID" where
  "CommittedTxID cs = cs_committedTxID cs"

definition SetCommittedTxID :: "committedState \<Rightarrow> txID \<Rightarrow> committedState" where
  "SetCommittedTxID cs n = cs\<lparr>cs_committedTxID := n\<rparr>"

section \<open>Transaction-local buffers\<close>

type_synonym insertMap = "(rowID \<times> productValue) list"
type_synonym deleteMap = "(rowID \<times> unit) list"

record txState =
  tx_inserts :: "(tableID \<times> insertMap) list"
  tx_deletes :: "(tableID \<times> deleteMap) list"

definition NewTxState :: txState where
  "NewTxState = \<lparr>tx_inserts = [], tx_deletes = []\<rparr>"

definition AddInsert :: "txState \<Rightarrow> tableID \<Rightarrow> rowID \<Rightarrow> productValue \<Rightarrow> txState" where
  "AddInsert tx tid rid row =
     (let m = bucketOf (tx_inserts tx) tid
      in tx\<lparr>tx_inserts := AList.update tid (AList.update rid (productCopy row) m) (tx_inserts tx)\<rparr>)"

text \<open>Deleting from an inner map drops the map once it is empty.\<close>

definition deleteInner :: "('t \<times> ('k \<times> 'v) list) list \<Rightarrow> 't \<Rightarrow> 'k \<Rightarrow> ('t \<times> ('k \<times> 'v) list) list" where
  "deleteInner mm tid k =
     (case map_of mm tid of
        None \<Rightarrow> mm
      | Some m \<Rightarrow>
          let m = AList.delete k m
          in if length m = 0 then AList.delete tid mm else AList.update tid m mm)"

definition RemoveInsert :: "txState \<Rightarrow> tableID \<Rightarrow> rowID \<Rightarrow> txState" where
  "RemoveInsert tx tid rid = tx\<lparr>tx_inserts := deleteInner (tx_inserts tx) tid rid\<rparr>"

definition AddDelete :: "txState \<Rightarrow> tableID \<Rightarrow> rowID \<Rightarrow> txState" where
  "AddDelete tx tid rid =
     (let m = bucketOf (tx_deletes tx) tid
      in tx\<lparr>tx_deletes := AList.update tid (AList.update rid () m) (tx_deletes tx)\<rparr>)"

definition CancelDelete :: "txState \<Rightarrow> tableID \<Rightarrow> rowID \<Rightarrow> txState" where
  "CancelDelete tx tid rid = tx\<lparr>tx_deletes := deleteInner (tx_deletes tx) tid rid\<rparr>"

definition IsInserted :: "txState \<Rightarrow> tableID \<Rightarrow> rowID \<Rightarrow> bool" where
  "IsInserted tx tid rid \<longleftrightarrow> map_of (bucketOf (tx_inserts tx) tid) rid \<noteq> None"

definition IsDeleted :: "txState \<Rightarrow> tableID \<Rightarrow> rowID \<Rightarrow> bool" where
  "IsDeleted tx tid rid \<longleftrightarrow> map_of (bucketOf (tx_deletes tx) tid) rid \<noteq> None"

definition txInsert :: "txState \<Rightarrow> tableID \<Rightarrow> rowID \<Rightarrow> productValue option" where
  "txInsert tx tid rid = map_of (bucketOf (tx_inserts tx) tid) rid"

definition tableInserts :: "txState \<Rightarrow> tableID \<Rightarrow> insertMap" where
  "tableInserts tx tid = bucketOf (tx_inserts tx) tid"

definition allTableInserts :: "txState \<Rightarrow> (tableID \<times> insertMap) list" where
  "allTableInserts tx = tx_inserts tx"

definition allTableDeletes :: "txState \<Rightarrow> (tableID \<times> deleteMap) list" where
  "allTableDeletes tx = tx_deletes tx"

definition copyInsertMap :: "insertMap \<Rightarrow> insertMap" where
  "copyInsertMap m = (if length m = 0 then [] else map (\<lambda>(rid, row). (rid, productCopy row)) m)"

definition copyDeleteMap :: "deleteMap \<Rightarrow> deleteMap" where
  "copyDeleteMap m = (if length m = 0 then [] else m)"

definition Inserts :: "txState \<Rightarrow> tableID \<Rightarrow> insertMap" where
  "Inserts tx tid = copyInsertMap (bucketOf (tx_inserts tx) tid)"

definition Deletes :: "txState \<Rightarrow> tableID \<Rightarrow> deleteMap" where
  "Deletes tx tid = copyDeleteMap (bucketOf (tx_deletes tx) tid)"

definition AllInserts :: "txState \<Rightarrow> (tableID \<times> insertMap) list" where
  "AllInserts tx = map (\<lambda>(tid, rows). (tid, copyInsertMap rows)) (tx_inserts tx)"

definition AllDeletes :: "txState \<Rightarrow> (tableID \<times> deleteMap) list" where
  "AllDeletes tx = map (\<lambda>(tid, rows). (tid, copyDeleteMap rows)) (tx_deletes tx)"

section \<open>The merged view\<close>

record stateView =
  sv_committed :: "committedState option"
  sv_tx :: txState

definition NewStateView :: "committedState option \<Rightarrow> txState option \<Rightarrow> stateView" where
  "NewStateView committed tx =
     \<lparr>sv_committed = committed, sv_tx = (case tx of None \<Rightarrow> NewTxState | Some tx \<Rightarrow> tx)\<rparr>"

definition svGetRow :: "stateView \<Rightarrow> tableID \<Rightarrow> rowID \<Rightarrow> productValue option" where
  "svGetRow sv tid rid =
     (case txInsert (sv_tx sv) tid rid of
        Some row \<Rightarrow> Some (productCopy row)
      | None \<Rightarrow>
          if IsDeleted (sv_tx sv) tid rid then None
          else case sv_committed sv of None \<Rightarrow> None
          | Some cs \<Rightarrow> (case csTable cs tid of None \<Rightarrow> None | Some t \<Rightarrow> GetRow t rid))"

definition svScanTable :: "stateView \<Rightarrow> tableID \<Rightarrow> (rowID \<times> productValue) list" where
  "svScanTable sv tid =
     (case sv_committed sv of None \<Rightarrow> []
      | Some cs \<Rightarrow> (case csTable cs tid of None \<Rightarrow> []
          | Some t \<Rightarrow> filter (\<lambda>(rid, row). \<not> IsDeleted (sv_tx sv) tid rid) (tableScan t)))
     @ map (\<lambda>(rid, row). (rid, productCopy row)) (tableInserts (sv_tx sv) tid)"

definition lookupIndex :: "stateView \<Rightarrow> tableID \<Rightarrow> indexID \<Rightarrow> (table \<times> index) option" where
  "lookupIndex sv tid iid = do {
     cs \<leftarrow> sv_committed sv;
     t \<leftarrow> csTable cs tid;
     idx \<leftarrow> IndexByID t iid;
     Some (t, idx)
   }"

fun filterO :: "('a \<Rightarrow> bool option) \<Rightarrow> 'a list \<Rightarrow> 'a list option" where
  "filterO P [] = Some []"
| "filterO P (x # xs) = do { b \<leftarrow> P x; ys \<leftarrow> filterO P xs; Some (if b then x # ys else ys) }"

definition seekIndexRows ::
  "stateView \<Rightarrow> tableID \<Rightarrow> indexID \<Rightarrow> (index \<Rightarrow> rowID list option) \<Rightarrow>
   (index \<Rightarrow> productValue \<Rightarrow> bool option) \<Rightarrow> rowID list option" where
  "seekIndexRows sv tid iid committedIDs txMatch =
     (case lookupIndex sv tid iid of
        None \<Rightarrow> Some []
      | Some (t, idx) \<Rightarrow> do {
          ids \<leftarrow> committedIDs idx;
          matches \<leftarrow> filterO (\<lambda>(rid, row). txMatch idx row) (tableInserts (sv_tx sv) tid);
          Some (filter (\<lambda>rid. \<not> IsDeleted (sv_tx sv) tid rid \<and> rowView t rid \<noteq> None) ids @ map fst matches)
        })"

definition svSeekIndex :: "stateView \<Rightarrow> tableID \<Rightarrow> indexID \<Rightarrow> indexKey \<Rightarrow> rowID list option" where
  "svSeekIndex sv tid iid key = seekIndexRows sv tid iid (\<lambda>idx. idxSeek idx key)
     (\<lambda>idx row. do { k \<leftarrow> idxExtractKey idx row; keyEqual k key })"

definition svSeekIndexRange ::
  "stateView \<Rightarrow> tableID \<Rightarrow> indexID \<Rightarrow> indexKey option \<Rightarrow> indexKey option \<Rightarrow> rowID list option" where
  "svSeekIndexRange sv tid iid low high = seekIndexRows sv tid iid (\<lambda>idx. btSeekRange (idx_btree idx) low high)
     (\<lambda>idx row. do { k \<leftarrow> idxExtractKey idx row; indexKeyInRange k low high })"

definition svSeekIndexBounds ::
  "stateView \<Rightarrow> tableID \<Rightarrow> indexID \<Rightarrow> bound \<Rightarrow> bound \<Rightarrow> rowID list option" where
  "svSeekIndexBounds sv tid iid low high = seekIndexRows sv tid iid (\<lambda>idx. btCollectBounds (idx_btree idx) low high)
     (\<lambda>idx row. do {
        k \<leftarrow> idxExtractKey idx row;
        lo \<leftarrow> matchesLowerBound k low;
        if lo then matchesUpperBound k high else Some False
      })"

section \<open>Buffers as maps\<close>

definition insOf :: "txState \<Rightarrow> tableID \<Rightarrow> rowMap" where
  "insOf tx tid = map_of (bucketOf (tx_inserts tx) tid)"

definition delsOf :: "txState \<Rightarrow> tableID \<Rightarrow> rowID set" where
  "delsOf tx tid = {rid. IsDeleted tx tid rid}"

text \<open>The rows of a table the transaction sees.\<close>

definition viewRows :: "table \<Rightarrow> txState \<Rightarrow> tableID \<Rightarrow> rowMap" where
  "viewRows t tx tid = (rowsOf t |` (- delsOf tx tid)) ++ insOf tx tid"

lemma bucketOf_deleteInner:
  "bucketOf (deleteInner mm tid k) tid' = (if tid' = tid then AList.delete k (bucketOf mm tid) else bucketOf mm tid')"
  by (auto simp: deleteInner_def Let_def bucketOf_update bucketOf_delete split: option.split)
    (simp_all add: bucketOf_def)

lemma insOf_AddInsert [simp]:
  "insOf (AddInsert tx tid rid row) tid' =
     (if tid' = tid then (insOf tx tid)(rid \<mapsto> productCopy row) else insOf tx tid')"
  by (simp add: insOf_def AddInsert_def Let_def bucketOf_update update_conv')

lemma insOf_RemoveInsert [simp]:
  "insOf (RemoveInsert tx tid rid) tid' =
     (if tid' = tid then (insOf tx tid)(rid := None) else insOf tx tid')"
  by (simp add: insOf_def RemoveInsert_def bucketOf_deleteInner delete_conv')

lemma delsOf_AddDelete [simp]:
  "delsOf (AddDelete tx tid rid) tid' = (if tid' = tid then insert rid (delsOf tx tid) else delsOf tx tid')"
  by (auto simp: delsOf_def IsDeleted_def AddDelete_def Let_def bucketOf_update update_conv' split: if_splits)

lemma delsOf_CancelDelete [simp]:
  "delsOf (CancelDelete tx tid rid) tid' = (if tid' = tid then delsOf tx tid - {rid} else delsOf tx tid')"
  by (auto simp: delsOf_def IsDeleted_def CancelDelete_def bucketOf_deleteInner delete_conv' split: if_splits)

lemma buffers_frame [simp]:
  "insOf (AddDelete tx tid rid) = insOf tx" "insOf (CancelDelete tx tid rid) = insOf tx"
  "delsOf (AddInsert tx tid rid row) = delsOf tx" "delsOf (RemoveInsert tx tid rid) = delsOf tx"
  "insOf NewTxState tid' = Map.empty" "delsOf NewTxState tid' = {}"
  by (simp_all add: fun_eq_iff insOf_def delsOf_def IsDeleted_def AddDelete_def CancelDelete_def
      AddInsert_def RemoveInsert_def NewTxState_def bucketOf_def Let_def)

lemma IsInserted_iff: "IsInserted tx tid rid \<longleftrightarrow> rid \<in> dom (insOf tx tid)"
  by (auto simp: IsInserted_def insOf_def)

lemma IsDeleted_iff: "IsDeleted tx tid rid \<longleftrightarrow> rid \<in> delsOf tx tid"
  by (simp add: delsOf_def)

lemma txInsert_eq: "txInsert tx tid rid = insOf tx tid rid"
  by (simp add: txInsert_def insOf_def)

section \<open>Shape of the buffers\<close>

text \<open>Go maps: distinct keys at both levels; an inner map is never left empty.\<close>

definition nested_ok :: "('t \<times> ('k \<times> 'v) list) list \<Rightarrow> bool" where
  "nested_ok mm \<longleftrightarrow> distinct (map fst mm) \<and> (\<forall>(tid, m) \<in> set mm. distinct (map fst m) \<and> m \<noteq> [])"

definition buffers_ok :: "txState \<Rightarrow> bool" where
  [wf_defs]: "buffers_ok tx \<longleftrightarrow> nested_ok (tx_inserts tx) \<and> nested_ok (tx_deletes tx)"

lemma nested_ok_bucket: "nested_ok mm \<Longrightarrow> distinct (map fst (bucketOf mm tid))"
  by (auto simp: nested_ok_def bucketOf_def split: option.split dest: map_of_SomeD)

lemma set_AList_update: "set (AList.update k v m) \<subseteq> insert (k, v) (set m)"
  by (induction m) auto

lemma set_AList_delete: "set (AList.delete k m) \<subseteq> set m"
  by (auto simp: AList.delete_eq)

lemma nested_ok_update:
  "nested_ok mm \<Longrightarrow> distinct (map fst m) \<Longrightarrow> m \<noteq> [] \<Longrightarrow> nested_ok (AList.update tid m mm)"
  using set_AList_update [of tid m mm] by (fastforce simp: nested_ok_def distinct_update)

lemma nested_ok_insert: "nested_ok mm \<Longrightarrow> nested_ok (AList.update tid (AList.update k v (bucketOf mm tid)) mm)"
  using nested_ok_bucket [of mm tid] by (intro nested_ok_update) (auto simp: distinct_update update_nonempty)

lemma nested_ok_delete: "nested_ok mm \<Longrightarrow> nested_ok (deleteInner mm tid k)"
proof (cases "map_of mm tid")
  case (Some m)
  assume ok: "nested_ok mm"
  have "distinct (map fst m)" using ok Some by (auto simp: nested_ok_def dest: map_of_SomeD)
  moreover have "nested_ok (AList.delete tid mm)"
    using ok set_AList_delete [of tid mm] by (auto simp: nested_ok_def distinct_delete)
  ultimately show ?thesis
    using ok Some by (auto simp: deleteInner_def Let_def intro!: nested_ok_update distinct_delete)
qed (simp add: deleteInner_def)

lemma nested_ok_Nil [simp]: "nested_ok []"
  by (simp add: nested_ok_def)

lemma buffers_ok_ops [simp]:
  "buffers_ok NewTxState"
  "buffers_ok tx \<Longrightarrow> buffers_ok (AddInsert tx tid rid row)"
  "buffers_ok tx \<Longrightarrow> buffers_ok (RemoveInsert tx tid rid)"
  "buffers_ok tx \<Longrightarrow> buffers_ok (AddDelete tx tid rid)"
  "buffers_ok tx \<Longrightarrow> buffers_ok (CancelDelete tx tid rid)"
  by (simp_all add: buffers_ok_def NewTxState_def AddInsert_def RemoveInsert_def AddDelete_def CancelDelete_def
      Let_def nested_ok_insert nested_ok_delete)

section \<open>Scans of an index\<close>

lemma lookup_entries_self:
  "sorted_entries es \<Longrightarrow> e \<in> set es \<Longrightarrow> lookup_entries (e_key e) es = e_rowIDs e"
proof (induction es)
  case (Cons x es)
  have "compareKey (e_key x) (e_key e) \<noteq> 0" if "e \<in> set es"
    using Cons.prems(1) that by (auto simp: sorted_entries_Cons)
  then show ?case
    using Cons by (auto simp: sorted_entries_Cons key_order.cmp_refl)
qed simp

lemma lookup_entries_mem:
  "r \<in> set (lookup_entries k es) \<Longrightarrow> \<exists>e \<in> set es. entryCmp k e = 0 \<and> r \<in> set (e_rowIDs e)"
  by (induction es) (auto split: if_splits)

lemma idx_holds_lookup:
  assumes "idx_holds sg b f" "map v_kind k = sg"
  shows "set (lookup_entries k (concat (bt_pages b))) = {r. \<exists>l. f r = Some l \<and> compareKey l k = 0}"
proof -
  have inv: "bt_inv sg b"
    and "set (the (btRowIDs b k)) = {r. \<exists>l. f r = Some l \<and> compareKey l k = 0}"
    using assms by (simp_all add: idx_holds_def)
  then show ?thesis using btRowIDs_spec [OF inv key_for_full [OF assms(2)]] by simp
qed

text \<open>Filtering the entries by a predicate on the order of their keys selects the rows it holds for.\<close>

lemma filtered_ids:
  assumes holds: "idx_holds sg b f" and sg: "\<And>r l. f r = Some l \<Longrightarrow> map v_kind l = sg"
    and cong: "\<And>k l. compareKey k l = 0 \<Longrightarrow> P k = P l"
  shows "set (concat (map e_rowIDs (filter (\<lambda>e. P (e_key e)) (concat (bt_pages b))))) = {r. \<exists>l. f r = Some l \<and> P l}"
    (is "?ids = _")
proof -
  let ?es = "concat (bt_pages b)"
  have inv: "bt_inv sg b" using holds by (simp add: idx_holds_def)
  have sorted: "sorted_entries ?es" and kinds: "\<And>e. e \<in> set ?es \<Longrightarrow> map v_kind (e_key e) = sg"
    using inv by (auto simp: bt_inv_def)
  note ids = idx_holds_lookup [OF holds]
  have "\<exists>l. f r = Some l \<and> P l" if e: "e \<in> set ?es" "P (e_key e)" "r \<in> set (e_rowIDs e)" for e r
  proof -
    have "r \<in> set (lookup_entries (e_key e) ?es)" using lookup_entries_self [OF sorted e(1)] e(3) by simp
    then obtain l where "f r = Some l" "compareKey l (e_key e) = 0" unfolding ids [OF kinds [OF e(1)]] by auto
    with cong [of l "e_key e"] e(2) show ?thesis by simp
  qed
  moreover have "\<exists>e \<in> set ?es. P (e_key e) \<and> r \<in> set (e_rowIDs e)" if "f r = Some l" "P l" for r l
  proof -
    have "r \<in> set (lookup_entries l ?es)"
      unfolding ids [OF sg [OF that(1)]] using that(1) by (simp add: key_order.cmp_refl)
    from lookup_entries_mem [OF this] obtain e where e: "e \<in> set ?es" "entryCmp l e = 0" "r \<in> set (e_rowIDs e)"
      by blast
    have "compareKey (e_key e) l = 0" using e(2) by simp
    then have "P (e_key e)" using cong [of "e_key e" l] that(2) by simp
    then show ?thesis using e by blast
  qed
  moreover have "?ids = {r. \<exists>e \<in> set ?es. P (e_key e) \<and> r \<in> set (e_rowIDs e)}" by auto
  ultimately show ?thesis by blast
qed

lemma filtered_ids_distinct:
  assumes "idx_holds sg b f"
  shows "distinct (concat (map e_rowIDs (filter Q (concat (bt_pages b)))))"
proof -
  let ?es = "concat (bt_pages b)"
  have inv: "bt_inv sg b" using assms by (simp add: idx_holds_def)
  have sorted: "sorted_entries ?es" and ok: "list_all entry_ok ?es"
    and kinds: "\<And>e. e \<in> set ?es \<Longrightarrow> map v_kind (e_key e) = sg"
    using inv by (auto simp: bt_inv_def)
  have own: "\<exists>l. f r = Some l \<and> compareKey l (e_key e) = 0" if "e \<in> set ?es" "r \<in> set (e_rowIDs e)" for e r
  proof -
    have "r \<in> set (lookup_entries (e_key e) ?es)" using lookup_entries_self [OF sorted that(1)] that(2) by simp
    then show ?thesis unfolding idx_holds_lookup [OF assms kinds [OF that(1)]] by auto
  qed
  have "distinct (concat (map e_rowIDs (filter Q xs)))" if "set xs \<subseteq> set ?es" "sorted_entries xs" for xs
    using that
  proof (induction xs)
    case (Cons x xs)
    have "set (e_rowIDs x) \<inter> set (e_rowIDs y) = {}" if "y \<in> set xs" for y
    proof -
      have lt: "compareKey (e_key x) (e_key y) < 0" and y: "y \<in> set ?es" "x \<in> set ?es"
        using Cons.prems that by (auto simp: sorted_entries_Cons)
      have "compareKey (e_key x) (e_key y) = 0" if "r \<in> set (e_rowIDs x)" "r \<in> set (e_rowIDs y)" for r
        using own [OF y(1) that(2)] own [OF y(2) that(1)] key_order.cmp_cong_left [of _ "e_key x" "e_key y"]
        by (metis option.inject)
      then show ?thesis using lt by fastforce
    qed
    moreover have "distinct (e_rowIDs x)"
      using ok Cons.prems(1) by (auto simp: list_all_iff entry_ok_def strict_sorted_iff)
    ultimately show ?case using Cons by (auto simp: sorted_entries_Cons)
  qed simp
  from this [OF subset_refl sorted] show ?thesis .
qed

section \<open>Reads of the view\<close>

text \<open>Rows buffered for a table fit it, and take no identifier of a row the view keeps.\<close>

definition view_wf :: "table \<Rightarrow> txState \<Rightarrow> tableID \<Rightarrow> bool" where
  [wf_defs]: "view_wf t tx tid \<longleftrightarrow> tbl_inv t \<and> buffers_ok tx \<and>
     (\<forall>x \<in> ran (insOf tx tid). row_wf (t_schema t) x) \<and> dom (insOf tx tid) \<inter> dom (rowsOf t) \<subseteq> delsOf tx tid"

lemma filterO_eq:
  "(\<And>x. x \<in> set xs \<Longrightarrow> P x = Some (Q x)) \<Longrightarrow> filterO P xs = Some (filter Q xs)"
  by (induction xs) simp_all

lemma viewRows_eq_Some:
  "viewRows t tx tid r = Some x \<longleftrightarrow>
     insOf tx tid r = Some x \<or> (insOf tx tid r = None \<and> r \<notin> delsOf tx tid \<and> rowsOf t r = Some x)"
  by (auto simp: viewRows_def map_add_Some_iff restrict_map_def)

lemma view_row_wf: "view_wf t tx tid \<Longrightarrow> viewRows t tx tid r = Some x \<Longrightarrow> row_wf (t_schema t) x"
  by (auto simp: view_wf_def viewRows_eq_Some tbl_inv_row intro: ranI)

lemma tableInserts_map:
  assumes "view_wf t tx tid"
  shows "distinct (map fst (tableInserts tx tid))" "(r, x) \<in> set (tableInserts tx tid) \<longleftrightarrow> insOf tx tid r = Some x"
proof -
  show "distinct (map fst (tableInserts tx tid))"
    using assms nested_ok_bucket [of "tx_inserts tx" tid] by (simp add: view_wf_def buffers_ok_def tableInserts_def)
  then show "(r, x) \<in> set (tableInserts tx tid) \<longleftrightarrow> insOf tx tid r = Some x"
    by (simp add: insOf_def tableInserts_def)
qed

lemma svGetRow_view:
  assumes wf: "view_wf t tx tid" and t: "csTable cs tid = Some t"
  shows "svGetRow (NewStateView (Some cs) (Some tx)) tid rid = viewRows t tx tid rid"
proof -
  have "tbl_inv t" using wf by (simp add: view_wf_def)
  moreover have "productCopy row = row" if "insOf tx tid rid = Some row" for row
    using wf that by (intro productCopy_wf [of "t_schema t"]) (auto simp: view_wf_def ran_def)
  ultimately show ?thesis
    using t by (cases "insOf tx tid rid")
      (auto simp: svGetRow_def NewStateView_def txInsert_eq IsDeleted_iff GetRow_eq viewRows_def map_add_def restrict_map_def)
qed

lemma svScanTable_view:
  assumes wf: "view_wf t tx tid" and t: "csTable cs tid = Some t"
  shows "distinct (map fst (svScanTable (NewStateView (Some cs) (Some tx)) tid))"
    "(r, x) \<in> set (svScanTable (NewStateView (Some cs) (Some tx)) tid) \<longleftrightarrow> viewRows t tx tid r = Some x"
proof -
  let ?com = "filter (\<lambda>(rid, row). \<not> IsDeleted tx tid rid) (t_rows t)"
  have inv: "tbl_inv t" and d: "distinct (map fst (t_rows t))" using wf by (simp_all add: view_wf_def tbl_inv_def)
  have "map (\<lambda>(rid, row). (rid, productCopy row)) (tableInserts tx tid) = tableInserts tx tid"
  proof (rule map_idI)
    fix x assume "x \<in> set (tableInserts tx tid)"
    then have "row_wf (t_schema t) (snd x)"
      using wf tableInserts_map(2) [OF wf, of "fst x" "snd x"] by (auto simp: view_wf_def ran_def)
    then show "(case x of (rid, row) \<Rightarrow> (rid, productCopy row)) = x" by (cases x) auto
  qed
  then have scan: "svScanTable (NewStateView (Some cs) (Some tx)) tid = ?com @ tableInserts tx tid"
    using t by (simp add: svScanTable_def NewStateView_def tableScan_eq [OF inv])
  have com: "(r, x) \<in> set ?com \<longleftrightarrow> r \<notin> delsOf tx tid \<and> rowsOf t r = Some x" for r x
    using d by (auto simp: IsDeleted_iff)
  have clash: "insOf tx tid r \<noteq> None \<Longrightarrow> rowsOf t r \<noteq> None \<Longrightarrow> r \<in> delsOf tx tid" for r
    using wf by (auto simp: view_wf_def dom_def)
  have "fst ` set ?com \<inter> fst ` set (tableInserts tx tid) = {}"
  proof -
    have "(r, x) \<notin> set (tableInserts tx tid)" if "(r, y) \<in> set ?com" for r x y
      using that clash [of r] unfolding com tableInserts_map(2) [OF wf] by auto
    then show ?thesis by fastforce
  qed
  then show "distinct (map fst (svScanTable (NewStateView (Some cs) (Some tx)) tid))"
    unfolding scan using distinct_map_filter [OF d] tableInserts_map(1) [OF wf] by simp
  show "(r, x) \<in> set (svScanTable (NewStateView (Some cs) (Some tx)) tid) \<longleftrightarrow> viewRows t tx tid r = Some x"
    unfolding scan set_append Un_iff com tableInserts_map(2) [OF wf] viewRows_eq_Some
    using clash [of r] by (cases "insOf tx tid r") auto
qed

text \<open>
  A seek answers from the view: the committed identifiers it keeps and the buffered rows that
  match, for any predicate on keys the committed side evaluates on the index and the buffered
  side on the row.
\<close>

lemma seekIndexRows_view:
  assumes wf: "view_wf t tx tid" and t: "csTable cs tid = Some t" and idx: "IndexByID t iid = Some idx"
    and com: "committedIDs idx = Some ids" "distinct ids"
      "set ids = {r. \<exists>x. rowsOf t r = Some x \<and> P (keyOf (idx_schema idx) x)}"
    and tx: "\<And>row. row_wf (t_schema t) row \<Longrightarrow> txMatch idx row = Some (P (keyOf (idx_schema idx) row))"
  shows "\<exists>rs. seekIndexRows (NewStateView (Some cs) (Some tx)) tid iid committedIDs txMatch = Some rs \<and>
    distinct rs \<and> set rs = {r. \<exists>x. viewRows t tx tid r = Some x \<and> P (keyOf (idx_schema idx) x)}"
proof -
  let ?Q = "\<lambda>(rid, row). P (keyOf (idx_schema idx) row)"
  let ?keep = "filter (\<lambda>rid. \<not> IsDeleted tx tid rid \<and> rowView t rid \<noteq> None) ids"
  let ?new = "filter ?Q (tableInserts tx tid)"
  have ins: "(r, x) \<in> set (tableInserts tx tid) \<longleftrightarrow> insOf tx tid r = Some x" for r x
    by (rule tableInserts_map(2) [OF wf])
  have "txMatch idx (snd y) = Some (P (keyOf (idx_schema idx) (snd y)))" if "y \<in> set (tableInserts tx tid)" for y
    using that wf ins [of "fst y" "snd y"] by (intro tx) (auto simp: view_wf_def ran_def)
  then have "filterO (\<lambda>(rid, row). txMatch idx row) (tableInserts tx tid) = Some ?new"
    by (intro filterO_eq) auto
  then have run: "seekIndexRows (NewStateView (Some cs) (Some tx)) tid iid committedIDs txMatch =
      Some (?keep @ map fst ?new)"
    using t idx com(1) by (simp add: seekIndexRows_def lookupIndex_def NewStateView_def)
  have clash: "insOf tx tid r \<noteq> None \<Longrightarrow> rowsOf t r \<noteq> None \<Longrightarrow> r \<in> delsOf tx tid" for r
    using wf by (auto simp: view_wf_def dom_def)
  have keep: "r \<in> set ?keep \<longleftrightarrow> r \<notin> delsOf tx tid \<and> (\<exists>x. rowsOf t r = Some x \<and> P (keyOf (idx_schema idx) x))" for r
    unfolding set_filter com(3) by (auto simp: IsDeleted_iff rowView_def)
  have new: "r \<in> set (map fst ?new) \<longleftrightarrow> (\<exists>x. insOf tx tid r = Some x \<and> P (keyOf (idx_schema idx) x))" for r
    by (force simp: ins [symmetric])
  have "distinct (map fst ?new)" by (rule distinct_map_filter [OF tableInserts_map(1) [OF wf]])
  moreover have "set ?keep \<inter> set (map fst ?new) = {}"
    using keep new clash by fastforce
  ultimately have "distinct (?keep @ map fst ?new)" using com(2) by simp
  moreover have "r \<in> set (?keep @ map fst ?new) \<longleftrightarrow> (\<exists>x. viewRows t tx tid r = Some x \<and> P (keyOf (idx_schema idx) x))" for r
    unfolding set_append Un_iff keep new viewRows_eq_Some
    using clash [of r] by (cases "insOf tx tid r") auto
  ultimately show ?thesis using run by blast
qed

lemma in_low_cong: "compareKey k l = 0 \<Longrightarrow> in_low b k = in_low b l"
  and in_high_cong: "compareKey k l = 0 \<Longrightarrow> in_high b k = in_high b l"
proof -
  assume eq: "compareKey k l = 0"
  have "compareKeyPrefix k p = compareKeyPrefix l p" for p
  proof -
    have "compareKey (take n k) (take n l) = 0" for n
    proof -
      have "compareKey (take n k) (take n l) \<le> 0" "compareKey (take n l) (take n k) \<le> 0"
        using eq key_order.cmp_eq_sym [of k l] by (simp_all add: compareKey_take_mono)
      then show ?thesis using key_order.cmp_anti [of "take n k" "take n l"] by simp
    qed
    then show ?thesis unfolding compareKeyPrefix_def by (intro key_order.cmp_cong_left) simp_all
  qed
  then show "in_low b k = in_low b l" "in_high b k = in_high b l" by (simp_all add: in_low_def in_high_def)
qed

definition in_range :: "indexKey option \<Rightarrow> indexKey option \<Rightarrow> indexKey \<Rightarrow> bool" where
  "in_range low high k \<longleftrightarrow> (case low of None \<Rightarrow> True | Some l \<Rightarrow> 0 \<le> compareKey k l) \<and>
     (case high of None \<Rightarrow> True | Some h \<Rightarrow> compareKey k h < 0)"

lemma in_range_cong: "compareKey k l = 0 \<Longrightarrow> in_range low high k = in_range low high l"
proof -
  assume eq: "compareKey k l = 0"
  have "compareKey k z = compareKey l z" for z by (rule key_order.cmp_cong_left) (simp_all add: eq)
  then show ?thesis by (simp add: in_range_def split: option.split)
qed

lemma indexKeyInRange_eq:
  assumes "map v_kind k = sg" "\<And>l. low = Some l \<Longrightarrow> key_for sg l" "\<And>h. high = Some h \<Longrightarrow> key_for sg h"
  shows "indexKeyInRange k low high = Some (in_range low high k)"
proof -
  have "keyCompare k l = Some (compareKey k l)" if "low = Some l \<or> high = Some l" for l
    using assms(2,3) that by (intro keyCompare_eq comparable_kinds [OF assms(1)]) (auto simp: key_for_def)
  then show ?thesis by (cases low; cases high) (simp_all add: indexKeyInRange_def in_range_def not_le)
qed

text \<open>What the seeks of the view rely on, for an index of a table that satisfies the invariant.\<close>

lemma index_facts:
  assumes "tbl_inv t" "IndexByID t iid = Some idx"
  shows "idx_holds (keyKinds (t_schema t) (idx_schema idx)) (idx_btree idx) (rowKeys (idx_schema idx) (rowsOf t))"
    "row_wf (t_schema t) row \<Longrightarrow> idxExtractKey idx row = Some (keyOf (idx_schema idx) row)"
    "row_wf (t_schema t) row \<Longrightarrow> map v_kind (keyOf (idx_schema idx) row) = keyKinds (t_schema t) (idx_schema idx)"
proof -
  have wf: "schema_wf (t_schema t)" using assms(1) by (simp add: tbl_inv_def)
  have ix: "idx_schema idx \<in> set (ts_indexes (t_schema t))" "index_ok (t_schema t) (rowsOf t) idx"
    using tbl_inv_indexes [OF assms(1)] IndexByID_set [OF assms(2)] by auto
  show "idx_holds (keyKinds (t_schema t) (idx_schema idx)) (idx_btree idx) (rowKeys (idx_schema idx) (rowsOf t))"
    using ix(2) by (simp add: index_ok_def)
  show "idxExtractKey idx row = Some (keyOf (idx_schema idx) row)" if "row_wf (t_schema t) row"
    by (rule idxExtractKey_wf [OF wf that ix(1)])
  show "map v_kind (keyOf (idx_schema idx) row) = keyKinds (t_schema t) (idx_schema idx)" if "row_wf (t_schema t) row"
    by (rule ExtractKey_keyOf(2) [OF that wf ix(1)])
qed

lemma filtered_index:
  assumes "tbl_inv t" "IndexByID t iid = Some idx" "\<And>k l. compareKey k l = 0 \<Longrightarrow> P k = P l"
  shows "distinct (concat (map e_rowIDs (filter (\<lambda>e. P (e_key e)) (concat (bt_pages (idx_btree idx))))))"
    "set (concat (map e_rowIDs (filter (\<lambda>e. P (e_key e)) (concat (bt_pages (idx_btree idx)))))) =
       {r. \<exists>x. rowsOf t r = Some x \<and> P (keyOf (idx_schema idx) x)}"
proof -
  note holds = index_facts(1) [OF assms(1,2)]
  show "distinct (concat (map e_rowIDs (filter (\<lambda>e. P (e_key e)) (concat (bt_pages (idx_btree idx))))))"
    by (rule filtered_ids_distinct [OF holds])
  have "map v_kind l = keyKinds (t_schema t) (idx_schema idx)"
    if "rowKeys (idx_schema idx) (rowsOf t) r = Some l" for r l
    using that index_facts(3) [OF assms(1,2)] tbl_inv_row [OF assms(1)] by auto
  from filtered_ids [of _ _ _ P, OF holds this assms(3)]
  show "set (concat (map e_rowIDs (filter (\<lambda>e. P (e_key e)) (concat (bt_pages (idx_btree idx)))))) =
       {r. \<exists>x. rowsOf t r = Some x \<and> P (keyOf (idx_schema idx) x)}" by auto
qed

lemma bt_inv_index: "tbl_inv t \<Longrightarrow> IndexByID t iid = Some idx \<Longrightarrow>
   bt_inv (keyKinds (t_schema t) (idx_schema idx)) (idx_btree idx)"
  using index_facts(1) by (simp add: idx_holds_def)

lemma svSeekIndex_view:
  assumes wf: "view_wf t tx tid" and t: "csTable cs tid = Some t" and idx: "IndexByID t iid = Some idx"
    and key: "map v_kind key = keyKinds (t_schema t) (idx_schema idx)"
  shows "\<exists>rs. svSeekIndex (NewStateView (Some cs) (Some tx)) tid iid key = Some rs \<and> distinct rs \<and>
    set rs = {r. \<exists>x. viewRows t tx tid r = Some x \<and> compareKey (keyOf (idx_schema idx) x) key = 0}"
proof -
  have inv: "tbl_inv t" using wf by (simp add: view_wf_def)
  from idxSeek_rows [OF inv IndexByID_set [OF idx] key] obtain ids where ids: "idxSeek idx key = Some ids"
    "distinct ids" "set ids = {r. \<exists>x. rowsOf t r = Some x \<and> compareKey (keyOf (idx_schema idx) x) key = 0}" by blast
  show ?thesis unfolding svSeekIndex_def
    by (rule seekIndexRows_view [OF wf t idx, where P = "\<lambda>k. compareKey k key = 0"])
      (use ids index_facts(2,3) [OF inv idx] keyEqual_eq [OF comparable_kinds [OF _ key_for_full [OF key, unfolded key_for_def]]]
        in simp_all)
qed

lemma svSeekIndexBounds_view:
  assumes wf: "view_wf t tx tid" and t: "csTable cs tid = Some t" and idx: "IndexByID t iid = Some idx"
    and b: "bound_for (keyKinds (t_schema t) (idx_schema idx)) low" "bound_for (keyKinds (t_schema t) (idx_schema idx)) high"
  shows "\<exists>rs. svSeekIndexBounds (NewStateView (Some cs) (Some tx)) tid iid low high = Some rs \<and> distinct rs \<and>
    set rs = {r. \<exists>x. viewRows t tx tid r = Some x \<and>
      in_low low (keyOf (idx_schema idx) x) \<and> in_high high (keyOf (idx_schema idx) x)}"
proof -
  have inv: "tbl_inv t" using wf by (simp add: view_wf_def)
  let ?P = "\<lambda>k. in_low low k \<and> in_high high k"
  have cong: "compareKey k l = 0 \<Longrightarrow> ?P k = ?P l" for k l
    using in_low_cong in_high_cong by metis
  show ?thesis unfolding svSeekIndexBounds_def
  proof (rule seekIndexRows_view [OF wf t idx, where P = ?P])
    show "btCollectBounds (idx_btree idx) low high =
        Some (concat (map e_rowIDs (filter (\<lambda>e. ?P (e_key e)) (concat (bt_pages (idx_btree idx))))))"
      by (rule btCollectBounds_spec [OF bt_inv_index [OF inv idx] b])
    show "distinct (concat (map e_rowIDs (filter (\<lambda>e. ?P (e_key e)) (concat (bt_pages (idx_btree idx))))))"
      by (rule filtered_index(1) [OF inv idx, of ?P]) (rule cong)
    show "set (concat (map e_rowIDs (filter (\<lambda>e. ?P (e_key e)) (concat (bt_pages (idx_btree idx)))))) =
        {r. \<exists>x. rowsOf t r = Some x \<and> ?P (keyOf (idx_schema idx) x)}"
      by (rule filtered_index(2) [OF inv idx, of ?P]) (rule cong)
  qed (simp add: index_facts(2,3) [OF inv idx] matches_bounds(1) [OF _ b(1)] matches_bounds(2) [OF _ b(2)])
qed

lemma svSeekIndexRange_view:
  assumes wf: "view_wf t tx tid" and t: "csTable cs tid = Some t" and idx: "IndexByID t iid = Some idx"
    and b: "\<And>l. low = Some l \<Longrightarrow> key_for (keyKinds (t_schema t) (idx_schema idx)) l"
      "\<And>h. high = Some h \<Longrightarrow> key_for (keyKinds (t_schema t) (idx_schema idx)) h"
  shows "\<exists>rs. svSeekIndexRange (NewStateView (Some cs) (Some tx)) tid iid low high = Some rs \<and> distinct rs \<and>
    set rs = {r. \<exists>x. viewRows t tx tid r = Some x \<and> in_range low high (keyOf (idx_schema idx) x)}"
proof -
  have inv: "tbl_inv t" using wf by (simp add: view_wf_def)
  have ids: "btSeekRange (idx_btree idx) low high =
      Some (concat (map e_rowIDs (filter (\<lambda>e. in_range low high (e_key e)) (concat (bt_pages (idx_btree idx))))))"
    using btSeekRange_spec [OF bt_inv_index [OF inv idx] b] by (simp add: in_range_def below_high_def)
  show ?thesis unfolding svSeekIndexRange_def
  proof (rule seekIndexRows_view [OF wf t idx, where P = "in_range low high"])
    show "btSeekRange (idx_btree idx) low high =
        Some (concat (map e_rowIDs (filter (\<lambda>e. in_range low high (e_key e)) (concat (bt_pages (idx_btree idx))))))"
      by (rule ids)
    show "distinct (concat (map e_rowIDs (filter (\<lambda>e. in_range low high (e_key e)) (concat (bt_pages (idx_btree idx))))))"
      by (rule filtered_index(1) [OF inv idx]) (rule in_range_cong)
    show "set (concat (map e_rowIDs (filter (\<lambda>e. in_range low high (e_key e)) (concat (bt_pages (idx_btree idx)))))) =
        {r. \<exists>x. rowsOf t r = Some x \<and> in_range low high (keyOf (idx_schema idx) x)}"
      by (rule filtered_index(2) [OF inv idx]) (rule in_range_cong)
  qed (simp add: index_facts(2,3) [OF inv idx] indexKeyInRange_eq [OF _ b])
qed

section \<open>Property\<close>



end
