(* ===== verification/Transaction.thy ===== *)
theory Transaction
  imports TxState
begin

text \<open>
  Transactions (\<^verbatim>\<open>src/store/transaction.go\<close>). The committed state a transaction points to is
  an argument of its operations, none of which changes it; the registry is stored by the
  constructor and read by no operation. Lazily built hash indexes over the transaction's own
  inserts are part of the state, so an operation that fails may still have built some. The outer
  option is a panic.
\<close>

section \<open>State\<close>

datatype txn_state = TransactionActive | TransactionSealed | TransactionCommitted | TransactionRolledBack

type_synonym 'x entries = "(u64 \<times> (rowID \<times> 'x) list) list"

record transaction =
  tr_tx :: txState
  tr_state :: txn_state
  tr_nextRowIDs :: "(tableID \<times> rowID) list"
  tr_sequences :: "(tableID \<times> u64) list"
  tr_uniqueIndexes :: "((tableID \<times> nat) \<times> indexKey entries) list"
  tr_rowIndexes :: "(tableID \<times> productValue entries) list"

definition NewTransaction :: transaction where
  "NewTransaction = \<lparr>tr_tx = NewTxState, tr_state = TransactionActive, tr_nextRowIDs = [],
     tr_sequences = [], tr_uniqueIndexes = [], tr_rowIndexes = []\<rparr>"

definition checkUsable :: "transaction \<Rightarrow> store_error option" where
  "checkUsable tr =
     (case tr_state tr of
        TransactionActive \<Rightarrow> None
      | TransactionRolledBack \<Rightarrow> Some ErrTransactionRolledBack
      | _ \<Rightarrow> Some ErrTransactionClosed)"

definition trTxState :: "transaction \<Rightarrow> txState option" where
  "trTxState tr = (case checkUsable tr of Some _ \<Rightarrow> None | None \<Rightarrow> Some (tr_tx tr))"

definition Seal :: "transaction \<Rightarrow> transaction" where
  "Seal tr = (if tr_state tr = TransactionActive then tr\<lparr>tr_state := TransactionSealed\<rparr> else tr)"

definition finishCommitted :: "transaction \<Rightarrow> transaction" where
  "finishCommitted tr = tr\<lparr>tr_state := TransactionCommitted\<rparr>"

definition Rollback :: "transaction \<Rightarrow> transaction" where
  "Rollback tr = tr\<lparr>tr_state := TransactionRolledBack\<rparr>"

section \<open>Auto-increment\<close>

text \<open>Reading the sequence of a table that has none is a nil dereference.\<close>

definition nextSequenceValue :: "transaction \<Rightarrow> tableID \<Rightarrow> table \<Rightarrow> u64 option" where
  "nextSequenceValue tr tid t =
     (case map_of (tr_sequences tr) tid of Some next \<Rightarrow> Some next | None \<Rightarrow> t_sequence t)"

definition setNextSequenceValue :: "transaction \<Rightarrow> tableID \<Rightarrow> u64 \<Rightarrow> transaction" where
  "setNextSequenceValue tr tid next = tr\<lparr>tr_sequences := AList.update tid next (tr_sequences tr)\<rparr>"

definition nextAutoIncrementSequenceValue :: "u64 \<Rightarrow> u64" where
  "nextAutoIncrementSequenceValue observed = (if observed = -1 then observed else observed + 1)"

definition advanceTxSequencePastValue :: "transaction \<Rightarrow> tableID \<Rightarrow> table \<Rightarrow> u64 \<Rightarrow> transaction option" where
  "advanceTxSequencePastValue tr tid t observed = do {
     current \<leftarrow> nextSequenceValue tr tid t;
     let next = nextAutoIncrementSequenceValue observed;
     Some (if current \<noteq> 0 \<and> next > current then setNextSequenceValue tr tid next else tr)
   }"

definition isZeroAutoIncrementValue :: "go_value \<Rightarrow> value_kind \<Rightarrow> bool option" where
  "isZeroAutoIncrementValue v kind = do { n \<leftarrow> ValueAsUint64 v kind; Some (n = Some 0) }"

definition newAutoIncrementValue :: "u64 \<Rightarrow> value_kind \<Rightarrow> go_value option" where
  "newAutoIncrementValue n kind =
     (case kind of
        KindInt8 \<Rightarrow> Some (NewInt8 (ucast n))
      | KindUint8 \<Rightarrow> Some (NewUint8 (ucast n))
      | KindInt16 \<Rightarrow> Some (NewInt16 (ucast n))
      | KindUint16 \<Rightarrow> Some (NewUint16 (ucast n))
      | KindInt32 \<Rightarrow> Some (NewInt32 (ucast n))
      | KindUint32 \<Rightarrow> Some (NewUint32 (ucast n))
      | KindInt64 \<Rightarrow> Some (NewInt64 n)
      | KindUint64 \<Rightarrow> Some (NewUint64 n)
      | _ \<Rightarrow> None)"

text \<open>The row to insert, the value to advance the sequence past and whether to advance it.\<close>

definition applyAutoIncrement ::
  "transaction \<Rightarrow> tableID \<Rightarrow> table \<Rightarrow> productValue \<Rightarrow> (store_error + productValue \<times> u64 \<times> bool) option" where
  "applyAutoIncrement tr tid t row =
     (if t_sequence t = None \<or> t_sequenceCol t < 0 then Some (Inr (row, 0, False))
      else
        let c = nat (t_sequenceCol t) in
        if length (ts_columns (t_schema t)) \<le> c \<or> length row \<le> c then None
        else
          let kind = c_type (ts_columns (t_schema t) ! c) in do {
            zero \<leftarrow> isZeroAutoIncrementValue (row ! c) kind;
            if \<not> zero then do {
              n \<leftarrow> ValueAsUint64 (row ! c) kind;
              Some (Inr (row, case n of None \<Rightarrow> 0 | Some n \<Rightarrow> n, n \<noteq> None))
            }
            else
              (case AutoIncrementBounds kind of
                 None \<Rightarrow> Some (Inl ErrAutoIncrementType)
               | Some (_, mx) \<Rightarrow> do {
                   next \<leftarrow> nextSequenceValue tr tid t;
                   if next = 0 \<or> next > mx \<or> next = mx \<and> mx = -1 then Some (Inl ErrSequenceOverflow)
                   else do {
                     v \<leftarrow> newAutoIncrementValue next kind;
                     Some (Inr ((productCopy row)[c := v], next, True))
                   }
                 })
          })"

section \<open>Row identifiers\<close>

definition checkRowIDValueAvailable :: "rowID \<Rightarrow> store_error option" where
  "checkRowIDValueAvailable next = (if next = 0 \<or> next = -1 then Some ErrRowIDOverflow else None)"

definition checkRowIDAvailable :: "table \<Rightarrow> store_error option" where
  "checkRowIDAvailable t = checkRowIDValueAvailable (NextID t)"

definition nextRowID :: "transaction \<Rightarrow> tableID \<Rightarrow> table \<Rightarrow> rowID" where
  "nextRowID tr tid t = (case map_of (tr_nextRowIDs tr) tid of Some next \<Rightarrow> next | None \<Rightarrow> NextID t)"

definition setNextRowID :: "transaction \<Rightarrow> tableID \<Rightarrow> rowID \<Rightarrow> transaction" where
  "setNextRowID tr tid next = tr\<lparr>tr_nextRowIDs := AList.update tid next (tr_nextRowIDs tr)\<rparr>"

definition txAllocRowIDForInsert :: "transaction \<Rightarrow> tableID \<Rightarrow> table \<Rightarrow> transaction \<times> (store_error + rowID)" where
  "txAllocRowIDForInsert tr tid t =
     (let next = nextRowID tr tid t in
      case checkRowIDValueAvailable next of
        Some e \<Rightarrow> (tr, Inl e)
      | None \<Rightarrow> (setNextRowID tr tid (next + 1), Inr next))"

section \<open>Hash indexes over the transaction's inserts\<close>

definition addEntry :: "u64 \<Rightarrow> rowID \<times> 'x \<Rightarrow> 'x entries \<Rightarrow> 'x entries" where
  "addEntry h x m = AList.update h (bucketOf m h @ [x]) m"

fun removeFirst :: "rowID \<Rightarrow> (rowID \<times> 'x) list \<Rightarrow> (rowID \<times> 'x) list" where
  "removeFirst rid [] = []"
| "removeFirst rid (e # es) = (if fst e = rid then es else e # removeFirst rid es)"

definition removeEntry :: "u64 \<Rightarrow> rowID \<Rightarrow> 'x entries \<Rightarrow> 'x entries" where
  "removeEntry h rid m =
     (let m = (if rid \<in> fst ` set (bucketOf m h) then AList.update h (removeFirst rid (bucketOf m h)) m else m)
      in if length (bucketOf m h) = 0 then AList.delete h m else m)"

text \<open>The entry of a row in an index, with its hash.\<close>

definition uniqueEntry :: "index \<Rightarrow> productValue \<Rightarrow> (indexKey \<times> u64) option" where
  "uniqueEntry idx row = do { key \<leftarrow> idxExtractKey idx row; h \<leftarrow> keyHash64 key; Some (key, h) }"

definition rowEntry :: "productValue \<Rightarrow> (productValue \<times> u64) option" where
  "rowEntry row = do { h \<leftarrow> productHash64 row; Some (row, h) }"

fun buildEntries :: "(productValue \<Rightarrow> ('x \<times> u64) option) \<Rightarrow> insertMap \<Rightarrow> 'x entries \<Rightarrow> 'x entries option" where
  "buildEntries f [] m = Some m"
| "buildEntries f ((rid, row) # rows) m = do {
     (x, h) \<leftarrow> f row;
     buildEntries f rows (addEntry h (rid, x) m)
   }"

definition ensureTxUniqueIndex ::
  "transaction \<Rightarrow> tableID \<Rightarrow> nat \<Rightarrow> index \<Rightarrow> (transaction \<times> indexKey entries) option" where
  "ensureTxUniqueIndex tr tid i idx =
     (case map_of (tr_uniqueIndexes tr) (tid, i) of
        Some entries \<Rightarrow> Some (tr, entries)
      | None \<Rightarrow> do {
          entries \<leftarrow> buildEntries (uniqueEntry idx) (tableInserts (tr_tx tr) tid) [];
          Some (tr\<lparr>tr_uniqueIndexes := AList.update (tid, i) entries (tr_uniqueIndexes tr)\<rparr>, entries)
        })"

definition ensureTxRowIndex :: "transaction \<Rightarrow> tableID \<Rightarrow> (transaction \<times> productValue entries) option" where
  "ensureTxRowIndex tr tid =
     (case map_of (tr_rowIndexes tr) tid of
        Some entries \<Rightarrow> Some (tr, entries)
      | None \<Rightarrow> do {
          entries \<leftarrow> buildEntries rowEntry (tableInserts (tr_tx tr) tid) [];
          Some (tr\<lparr>tr_rowIndexes := AList.update tid entries (tr_rowIndexes tr)\<rparr>, entries)
        })"

text \<open>
  The loop over the indexes of the table, from ordinal \<open>i\<close>, shared by tracking and untracking a
  row: \<open>g\<close> updates the hash index of each unique index for which one has been built.
\<close>

fun eachTracked ::
  "(indexKey \<Rightarrow> u64 \<Rightarrow> indexKey entries \<Rightarrow> indexKey entries) \<Rightarrow> tableID \<Rightarrow> productValue \<Rightarrow> nat \<Rightarrow> index list \<Rightarrow>
   ((tableID \<times> nat) \<times> indexKey entries) list \<Rightarrow> ((tableID \<times> nat) \<times> indexKey entries) list option" where
  "eachTracked g tid row i [] mm = Some mm"
| "eachTracked g tid row i (idx # idxs) mm =
     (case map_of mm (tid, i) of
        None \<Rightarrow> eachTracked g tid row (Suc i) idxs mm
      | Some entries \<Rightarrow> do {
          (key, h) \<leftarrow> uniqueEntry idx row;
          eachTracked g tid row (Suc i) idxs (AList.update (tid, i) (g key h entries) mm)
        })"

definition trackTxInsert :: "transaction \<Rightarrow> tableID \<Rightarrow> rowID \<Rightarrow> productValue \<Rightarrow> table \<Rightarrow> transaction option" where
  "trackTxInsert tr tid rid row t = do {
     mm \<leftarrow> eachTracked (\<lambda>key h entries. addEntry h (rid, key) entries) tid row 0 (t_indexes t) (tr_uniqueIndexes tr);
     rr \<leftarrow> (case map_of (tr_rowIndexes tr) tid of
             None \<Rightarrow> Some (tr_rowIndexes tr)
           | Some entries \<Rightarrow> do {
               (x, h) \<leftarrow> rowEntry row;
               Some (AList.update tid (addEntry h (rid, x) entries) (tr_rowIndexes tr))
             });
     Some (tr\<lparr>tr_uniqueIndexes := mm, tr_rowIndexes := rr\<rparr>)
   }"

definition untrackTxInsert :: "transaction \<Rightarrow> tableID \<Rightarrow> rowID \<Rightarrow> productValue \<Rightarrow> table \<Rightarrow> transaction option" where
  "untrackTxInsert tr tid rid row t = do {
     mm \<leftarrow> eachTracked (\<lambda>key h entries. removeEntry h rid entries) tid row 0 (t_indexes t) (tr_uniqueIndexes tr);
     rr \<leftarrow> (case map_of (tr_rowIndexes tr) tid of
             None \<Rightarrow> Some (tr_rowIndexes tr)
           | Some entries \<Rightarrow> do {
               (x, h) \<leftarrow> rowEntry row;
               Some (AList.update tid (removeEntry h rid entries) (tr_rowIndexes tr))
             });
     Some (tr\<lparr>tr_uniqueIndexes := mm, tr_rowIndexes := rr\<rparr>)
   }"

definition addInsert :: "transaction \<Rightarrow> tableID \<Rightarrow> rowID \<Rightarrow> productValue \<Rightarrow> table \<Rightarrow> transaction option" where
  "addInsert tr tid rid row t =
     (let tr = tr\<lparr>tr_tx := AddInsert (tr_tx tr) tid rid row\<rparr>;
          stored = (case txInsert (tr_tx tr) tid rid of None \<Rightarrow> [] | Some stored \<Rightarrow> stored)
      in trackTxInsert tr tid rid stored t)"

definition removeInsert :: "transaction \<Rightarrow> tableID \<Rightarrow> rowID \<Rightarrow> table \<Rightarrow> transaction option" where
  "removeInsert tr tid rid t = do {
     tr \<leftarrow> (case txInsert (tr_tx tr) tid rid of None \<Rightarrow> Some tr
           | Some row \<Rightarrow> untrackTxInsert tr tid rid row t);
     Some (tr\<lparr>tr_tx := RemoveInsert (tr_tx tr) tid rid\<rparr>)
   }"

section \<open>Conflict checks\<close>

text \<open>The first element that satisfies the condition decides.\<close>

fun anyO :: "('a \<Rightarrow> bool option) \<Rightarrow> 'a list \<Rightarrow> bool option" where
  "anyO P [] = Some False"
| "anyO P (x # xs) = do { b \<leftarrow> P x; if b then Some True else anyO P xs }"

definition checkCommittedUnique ::
  "transaction \<Rightarrow> tableID \<Rightarrow> table \<Rightarrow> index \<Rightarrow> indexKey \<Rightarrow> store_error option option" where
  "checkCommittedUnique tr tid t idx key = do {
     ids \<leftarrow> btRowIDs (idx_btree idx) key;
     Some (if list_ex (\<lambda>rid. \<not> IsDeleted (tr_tx tr) tid rid) ids then Some (uniqueViolationError t idx key) else None)
   }"

definition checkTxUnique ::
  "transaction \<Rightarrow> tableID \<Rightarrow> table \<Rightarrow> nat \<Rightarrow> index \<Rightarrow> indexKey \<Rightarrow> (transaction \<times> store_error option) option" where
  "checkTxUnique tr tid t i idx key = do {
     (tr, entries) \<leftarrow> ensureTxUniqueIndex tr tid i idx;
     h \<leftarrow> keyHash64 key;
     hit \<leftarrow> anyO (\<lambda>e. keyEqual key (snd e)) (bucketOf entries h);
     Some (tr, if hit then Some (uniqueViolationError t idx key) else None)
   }"

definition hasTxDuplicateRow :: "transaction \<Rightarrow> tableID \<Rightarrow> productValue \<Rightarrow> (transaction \<times> bool) option" where
  "hasTxDuplicateRow tr tid row = do {
     (tr, entries) \<leftarrow> ensureTxRowIndex tr tid;
     h \<leftarrow> productHash64 row;
     Some (tr, list_ex (\<lambda>e. productEqual (snd e) row) (bucketOf entries h))
   }"

text \<open>
  The loop over unique indexes, from ordinal \<open>i\<close>: \<open>committed\<close> says whether committed rows are
  checked before the transaction's own (\<open>Insert\<close>) or not (\<open>checkTxInsertConflicts\<close>).
\<close>

fun uniqueLoop ::
  "bool \<Rightarrow> transaction \<Rightarrow> tableID \<Rightarrow> table \<Rightarrow> productValue \<Rightarrow> nat \<Rightarrow> index list \<Rightarrow>
   (transaction \<times> store_error option) option" where
  "uniqueLoop committed tr tid t row i [] = Some (tr, None)"
| "uniqueLoop committed tr tid t row i (idx # idxs) =
     (if \<not> ix_unique (idx_schema idx) then uniqueLoop committed tr tid t row (Suc i) idxs
      else do {
        key \<leftarrow> idxExtractKey idx row;
        err \<leftarrow> (if committed then checkCommittedUnique tr tid t idx key else Some None);
        case err of Some e \<Rightarrow> Some (tr, Some e)
        | None \<Rightarrow> do {
            (tr, err) \<leftarrow> checkTxUnique tr tid t i idx key;
            case err of Some e \<Rightarrow> Some (tr, Some e)
            | None \<Rightarrow> uniqueLoop committed tr tid t row (Suc i) idxs
          }
      })"

definition checkTxInsertConflicts ::
  "transaction \<Rightarrow> tableID \<Rightarrow> table \<Rightarrow> productValue \<Rightarrow> (transaction \<times> store_error option) option" where
  "checkTxInsertConflicts tr tid t row = do {
     (tr, err) \<leftarrow> uniqueLoop False tr tid t row 0 (t_indexes t);
     case err of Some e \<Rightarrow> Some (tr, Some e)
     | None \<Rightarrow>
         if t_rowHashIndex t = None then Some (tr, None)
         else do {
           (tr, dup) \<leftarrow> hasTxDuplicateRow tr tid row;
           Some (tr, if dup then Some ErrDuplicateRow else None)
         }
   }"

text \<open>The identifier of the row undeleted, if any.\<close>

fun tryUndeleteRowIDs ::
  "transaction \<Rightarrow> tableID \<Rightarrow> table \<Rightarrow> productValue \<Rightarrow> rowID list \<Rightarrow>
   (transaction \<times> (store_error + rowID option)) option" where
  "tryUndeleteRowIDs tr tid t row [] = Some (tr, Inr None)"
| "tryUndeleteRowIDs tr tid t row (rid # rowIDs) =
     (if \<not> IsDeleted (tr_tx tr) tid rid then tryUndeleteRowIDs tr tid t row rowIDs
      else case rowView t rid of
        None \<Rightarrow> tryUndeleteRowIDs tr tid t row rowIDs
      | Some committedRow \<Rightarrow>
          if productEqual committedRow row then do {
            (tr, err) \<leftarrow> checkTxInsertConflicts tr tid t row;
            case err of Some e \<Rightarrow> Some (tr, Inl e)
            | None \<Rightarrow> Some (tr\<lparr>tr_tx := CancelDelete (tr_tx tr) tid rid\<rparr>, Inr (Some rid))
          }
          else tryUndeleteRowIDs tr tid t row rowIDs)"

definition tryUndelete ::
  "transaction \<Rightarrow> tableID \<Rightarrow> table \<Rightarrow> productValue \<Rightarrow> (transaction \<times> (store_error + rowID option)) option" where
  "tryUndelete tr tid t row = do {
     (tr, res) \<leftarrow>
       (case tablePrimaryIndex t of
          None \<Rightarrow> Some (tr, Inr None)
        | Some pk \<Rightarrow> do {
            key \<leftarrow> idxExtractKey pk row;
            ids \<leftarrow> btSeek (idx_btree pk) key;
            tryUndeleteRowIDs tr tid t row ids
          });
     if res \<noteq> Inr None then Some (tr, res)
     else case t_rowHashIndex t of
         None \<Rightarrow> Some (tr, Inr None)
       | Some m \<Rightarrow> do {
           h \<leftarrow> productHash64 row;
           tryUndeleteRowIDs tr tid t row (bucketOf m h)
         }
   }"

section \<open>Insert, delete, update\<close>

text \<open>The duplicate-row check of \<open>Insert\<close>, for tables without a primary key.\<close>

definition checkDuplicateRow ::
  "transaction \<Rightarrow> tableID \<Rightarrow> table \<Rightarrow> productValue \<Rightarrow> (transaction \<times> store_error option) option" where
  "checkDuplicateRow tr tid t row =
     (case t_rowHashIndex t of
        None \<Rightarrow> Some (tr, None)
      | Some m \<Rightarrow> do {
          dup \<leftarrow> (if ts_isEvent (t_schema t) then Some False
                 else do {
                   h \<leftarrow> productHash64 row;
                   Some (list_ex (\<lambda>rid. \<not> IsDeleted (tr_tx tr) tid rid \<and>
                     (case rowView t rid of None \<Rightarrow> False | Some committedRow \<Rightarrow> productEqual committedRow row))
                     (bucketOf m h))
                 });
          if dup then Some (tr, Some ErrDuplicateRow)
          else do {
            (tr, dup) \<leftarrow> hasTxDuplicateRow tr tid row;
            Some (tr, if dup then Some ErrDuplicateRow else None)
          }
        })"

text \<open>The part of \<open>Insert\<close> after the attempt to undelete.\<close>

definition insertFresh ::
  "transaction \<Rightarrow> tableID \<Rightarrow> table \<Rightarrow> productValue \<Rightarrow> u64 \<Rightarrow> bool \<Rightarrow> (transaction \<times> (store_error + rowID)) option" where
  "insertFresh tr tid t row sequenceValue advanceSequence =
     (case checkRowIDAvailable t of Some e \<Rightarrow> Some (tr, Inl e)
      | None \<Rightarrow> do {
          (tr, err) \<leftarrow> uniqueLoop (\<not> ts_isEvent (t_schema t)) tr tid t row 0 (t_indexes t);
          case err of Some e \<Rightarrow> Some (tr, Inl e)
          | None \<Rightarrow> do {
              (tr, err) \<leftarrow> checkDuplicateRow tr tid t row;
              case err of Some e \<Rightarrow> Some (tr, Inl e)
              | None \<Rightarrow>
                  (case txAllocRowIDForInsert tr tid t of
                     (tr, Inl e) \<Rightarrow> Some (tr, Inl e)
                   | (tr, Inr rid) \<Rightarrow> do {
                       tr \<leftarrow> (if advanceSequence then advanceTxSequencePastValue tr tid t sequenceValue else Some tr);
                       tr \<leftarrow> addInsert tr tid rid row t;
                       Some (tr, Inr rid)
                     })
            }
        })"

definition Insert :: "committedState \<Rightarrow> transaction \<Rightarrow> tableID \<Rightarrow> productValue \<Rightarrow>
    (transaction \<times> (store_error + rowID)) option" where
  "Insert cs tr tid row =
     (case checkUsable tr of Some e \<Rightarrow> Some (tr, Inl e)
      | None \<Rightarrow>
     (case csTable cs tid of None \<Rightarrow> Some (tr, Inl (ErrTableNotFound tid))
      | Some t \<Rightarrow>
     (case ValidateRow (t_schema t) row of Inl e \<Rightarrow> Some (tr, Inl e)
      | Inr _ \<Rightarrow> do {
          applied \<leftarrow> applyAutoIncrement tr tid t row;
          case applied of
            Inl e \<Rightarrow> Some (tr, Inl (case checkRowIDAvailable t of Some rowIDErr \<Rightarrow> rowIDErr | None \<Rightarrow> e))
          | Inr (row, sequenceValue, advanceSequence) \<Rightarrow> do {
              (tr, undel) \<leftarrow> (if ts_isEvent (t_schema t) then Some (tr, Inr None) else tryUndelete tr tid t row);
              case undel of
                Inl e \<Rightarrow> Some (tr, Inl e)
              | Inr (Some rid) \<Rightarrow> Some (tr, Inr rid)
              | Inr None \<Rightarrow> insertFresh tr tid t row sequenceValue advanceSequence
            }
        })))"

definition Delete :: "committedState \<Rightarrow> transaction \<Rightarrow> tableID \<Rightarrow> rowID \<Rightarrow>
    (transaction \<times> store_error option) option" where
  "Delete cs tr tid rid =
     (case checkUsable tr of Some e \<Rightarrow> Some (tr, Some e)
      | None \<Rightarrow>
     (case csTable cs tid of None \<Rightarrow> Some (tr, Some (ErrTableNotFound tid))
      | Some t \<Rightarrow>
          if IsInserted (tr_tx tr) tid rid then do { tr \<leftarrow> removeInsert tr tid rid t; Some (tr, None) }
          else if rowView t rid = None then Some (tr, Some (ErrRowNotFound rid))
          else if IsDeleted (tr_tx tr) tid rid then Some (tr, Some (ErrRowNotFound rid))
          else Some (tr\<lparr>tr_tx := AddDelete (tr_tx tr) tid rid\<rparr>, None)))"

text \<open>The old row \<open>Update\<close> remembers: an inserted row is known to be buffered.\<close>

definition updateOldRow :: "committedState \<Rightarrow> transaction \<Rightarrow> tableID \<Rightarrow> rowID \<Rightarrow> store_error + productValue" where
  "updateOldRow cs tr tid rid =
     (if IsInserted (tr_tx tr) tid rid
      then Inr (case txInsert (tr_tx tr) tid rid of None \<Rightarrow> [] | Some row \<Rightarrow> row)
      else case csTable cs tid of
        None \<Rightarrow> Inl (ErrTableNotFound tid)
      | Some t \<Rightarrow> (case GetRow t rid of
            None \<Rightarrow> Inl (ErrRowNotFound rid)
          | Some row \<Rightarrow> if IsDeleted (tr_tx tr) tid rid then Inl (ErrRowNotFound rid) else Inr row))"

definition Update :: "committedState \<Rightarrow> transaction \<Rightarrow> tableID \<Rightarrow> rowID \<Rightarrow> productValue \<Rightarrow>
    (transaction \<times> (store_error + rowID)) option" where
  "Update cs tr tid rid newRow =
     (case checkUsable tr of Some e \<Rightarrow> Some (tr, Inl e)
      | None \<Rightarrow>
     (let wasTxInsert = IsInserted (tr_tx tr) tid rid in
      case updateOldRow cs tr tid rid of Inl e \<Rightarrow> Some (tr, Inl e)
      | Inr oldRow \<Rightarrow> do {
          (tr, err) \<leftarrow> Delete cs tr tid rid;
          case err of Some e \<Rightarrow> Some (tr, Inl e)
          | None \<Rightarrow> do {
              (tr, res) \<leftarrow> Insert cs tr tid newRow;
              case res of
                Inr newID \<Rightarrow> Some (tr, Inr newID)
              | Inl e \<Rightarrow>
                  if wasTxInsert then
                    (case csTable cs tid of
                       Some t \<Rightarrow> do { tr \<leftarrow> addInsert tr tid rid oldRow t; Some (tr, Inl e) }
                     | None \<Rightarrow> Some (tr\<lparr>tr_tx := AddInsert (tr_tx tr) tid rid oldRow\<rparr>, Inl e))
                  else Some (tr\<lparr>tr_tx := CancelDelete (tr_tx tr) tid rid\<rparr>, Inl e)
            }
        }))"

section \<open>Reads\<close>

definition trGetRow :: "committedState \<Rightarrow> transaction \<Rightarrow> tableID \<Rightarrow> rowID \<Rightarrow> productValue option" where
  "trGetRow cs tr tid rid =
     (case checkUsable tr of Some _ \<Rightarrow> None
      | None \<Rightarrow> svGetRow (NewStateView (Some cs) (Some (tr_tx tr))) tid rid)"

definition trScanTable :: "committedState \<Rightarrow> transaction \<Rightarrow> tableID \<Rightarrow> (rowID \<times> productValue) list" where
  "trScanTable cs tr tid =
     (case checkUsable tr of Some _ \<Rightarrow> []
      | None \<Rightarrow> svScanTable (NewStateView (Some cs) (Some (tr_tx tr))) tid)"

text \<open>The rows of the identifiers a seek yields, skipping those not visible.\<close>

definition rowsOfIDs :: "stateView \<Rightarrow> tableID \<Rightarrow> rowID list \<Rightarrow> (rowID \<times> productValue) list" where
  "rowsOfIDs view tid ids =
     List.map_filter (\<lambda>rid. map_option (Pair rid) (svGetRow view tid rid)) ids"

definition trSeekIndex :: "committedState \<Rightarrow> transaction \<Rightarrow> tableID \<Rightarrow> indexID \<Rightarrow> go_value list \<Rightarrow>
    (rowID \<times> productValue) list option" where
  "trSeekIndex cs tr tid iid key =
     (case checkUsable tr of Some _ \<Rightarrow> Some []
      | None \<Rightarrow>
          (let view = NewStateView (Some cs) (Some (tr_tx tr)) in do {
             ids \<leftarrow> svSeekIndex view tid iid (NewIndexKey key);
             Some (rowsOfIDs view tid ids)
           }))"

definition trSeekIndexRange :: "committedState \<Rightarrow> transaction \<Rightarrow> tableID \<Rightarrow> indexID \<Rightarrow> bound \<Rightarrow> bound \<Rightarrow>
    (rowID \<times> productValue) list option" where
  "trSeekIndexRange cs tr tid iid lower upper =
     (case checkUsable tr of Some _ \<Rightarrow> Some []
      | None \<Rightarrow>
          (let view = NewStateView (Some cs) (Some (tr_tx tr)) in do {
             ids \<leftarrow> svSeekIndexBounds view tid iid lower upper;
             Some (rowsOfIDs view tid ids)
           }))"

section \<open>Hash indexes hold the inserts\<close>

text \<open>The buckets hold exactly the entries of \<open>f\<close>, each in the bucket of its hash.\<close>

definition entries_ok :: "('x \<Rightarrow> u64 option) \<Rightarrow> 'x entries \<Rightarrow> (rowID \<rightharpoonup> 'x) \<Rightarrow> bool" where
  "entries_ok hash m f \<longleftrightarrow> distinct (map fst m) \<and>
     (\<forall>h. distinct (map fst (bucketOf m h)) \<and> set (bucketOf m h) = {(r, x). f r = Some x \<and> hash x = Some h})"

lemma entries_ok_empty: "entries_ok hash [] Map.empty"
  by (simp add: entries_ok_def bucketOf_def)

lemma entries_ok_set: "entries_ok hash m f \<Longrightarrow> set (bucketOf m h) = {(r, x). f r = Some x \<and> hash x = Some h}"
  by (simp add: entries_ok_def)

lemma entries_ok_add:
  assumes ok: "entries_ok hash m f" and fresh: "f r = None" and h: "hash x = Some h"
  shows "entries_ok hash (addEntry h (r, x) m) (f(r \<mapsto> x))"
proof -
  have b: "bucketOf (addEntry h (r, x) m) h' = (if h' = h then bucketOf m h @ [(r, x)] else bucketOf m h')" for h'
    by (simp add: addEntry_def bucketOf_update)
  have "r \<notin> fst ` set (bucketOf m h')" for h' using fresh by (auto simp: entries_ok_set [OF ok])
  moreover have "set (bucketOf (addEntry h (r, x) m) h') = {(s, y). (f(r \<mapsto> x)) s = Some y \<and> hash y = Some h'}" for h'
    using fresh h by (auto simp: b entries_ok_set [OF ok] split: if_splits)
  moreover have "distinct (map fst (addEntry h (r, x) m))"
    using ok by (simp add: addEntry_def entries_ok_def distinct_update)
  ultimately show ?thesis
    using ok unfolding entries_ok_def by (simp add: b del: fun_upd_apply)
qed

lemma removeFirst_eq: "distinct (map fst es) \<Longrightarrow> removeFirst r es = filter (\<lambda>e. fst e \<noteq> r) es"
proof (induction es)
  case (Cons e es)
  have "filter (\<lambda>x. fst x \<noteq> fst e) es = es" using Cons.prems by (intro filter_True) (auto dest: sym intro: rev_image_eqI)
  then show ?case using Cons by auto
qed simp

lemma bucketOf_removeEntry:
  assumes "distinct (map fst (bucketOf m h))"
  shows "bucketOf (removeEntry h r m) h' =
    (if h' = h then filter (\<lambda>e. fst e \<noteq> r) (bucketOf m h) else bucketOf m h')"
proof -
  have "filter (\<lambda>e. fst e \<noteq> r) (bucketOf m h) = bucketOf m h" if "r \<notin> fst ` set (bucketOf m h)"
    using that by (intro filter_True) (auto dest: sym intro: rev_image_eqI)
  then show ?thesis
    by (auto simp: removeEntry_def Let_def bucketOf_update bucketOf_delete removeFirst_eq [OF assms])
qed

lemma entries_ok_remove:
  assumes ok: "entries_ok hash m f" and r: "f r = Some x" and h: "hash x = Some h"
  shows "entries_ok hash (removeEntry h r m) (f(r := None))"
proof -
  have b: "bucketOf (removeEntry h r m) h' =
      (if h' = h then filter (\<lambda>e. fst e \<noteq> r) (bucketOf m h) else bucketOf m h')" for h'
    using ok by (intro bucketOf_removeEntry) (simp add: entries_ok_def)
  have "set (bucketOf (removeEntry h r m) h') = {(s, y). (f(r := None)) s = Some y \<and> hash y = Some h'}" for h'
    using r h by (auto simp: b entries_ok_set [OF ok] split: if_splits)
  moreover have "distinct (map fst (removeEntry h r m))"
    using ok by (simp add: removeEntry_def Let_def entries_ok_def distinct_update distinct_delete)
  moreover have "distinct (map fst (bucketOf (removeEntry h r m) h'))" for h'
    using ok by (simp add: b entries_ok_def distinct_map_filter)
  ultimately show ?thesis by (simp add: entries_ok_def)
qed

lemma entries_ok_build_from:
  assumes "entries_ok hash m f" "distinct (map fst rows)" "\<forall>r \<in> fst ` set rows. f r = None"
    and "\<forall>row \<in> snd ` set rows. \<exists>h. g row = Some (k row, h) \<and> hash (k row) = Some h"
  shows "\<exists>m'. buildEntries g rows m = Some m' \<and> entries_ok hash m' (f ++ (map_option k \<circ> map_of rows))"
  using assms
proof (induction rows arbitrary: m f)
  case Nil
  then show ?case by (simp add: comp_def map_add_def)
next
  case (Cons e rows)
  obtain r row where e: "e = (r, row)" by (cases e)
  obtain h where h: "g row = Some (k row, h)" "hash (k row) = Some h" using Cons.prems(4) e by auto
  have fresh: "map_of rows r = None" using Cons.prems(2) e by (auto simp: map_of_eq_None_iff)
  have ok: "entries_ok hash (addEntry h (r, k row) m) (f(r \<mapsto> k row))"
    using entries_ok_add [OF Cons.prems(1) _ h(2)] Cons.prems(3) e by simp
  have none: "\<forall>s \<in> fst ` set rows. (f(r \<mapsto> k row)) s = None"
    using Cons.prems(2,3) e by (auto simp del: fun_upd_apply simp: fun_upd_def)
  have eq: "(f(r \<mapsto> k row)) ++ (map_option k \<circ> map_of rows) = f ++ (map_option k \<circ> map_of (e # rows))"
    using fresh e by (auto simp: fun_eq_iff map_add_def split: option.split)
  have "distinct (map fst rows)" "\<forall>row \<in> snd ` set rows. \<exists>h. g row = Some (k row, h) \<and> hash (k row) = Some h"
    using Cons.prems(2,4) by simp_all
  from Cons.IH [OF ok this(1) none this(2)] show ?case
    unfolding eq using e h(1) by (simp add: comp_def del: map_of.simps)
qed

lemma entries_ok_build:
  assumes "distinct (map fst rows)" "\<And>row. row \<in> snd ` set rows \<Longrightarrow> \<exists>h. g row = Some (k row, h) \<and> hash (k row) = Some h"
  shows "\<exists>m. buildEntries g rows [] = Some m \<and> entries_ok hash m (\<lambda>r. map_option k (map_of rows r))"
  using entries_ok_build_from [OF entries_ok_empty assms(1), of g k hash] assms(2) by (simp add: comp_def)

text \<open>
  What a hash index promises: searching one bucket finds an equal entry exactly when the map
  holds one, for every equality that the hash respects.
\<close>

locale hash_search =
  fixes hash :: "'x \<Rightarrow> u64 option" and eq :: "'x \<Rightarrow> 'x \<Rightarrow> bool" and D :: "'x \<Rightarrow> bool"
  assumes hash_cong: "D x \<Longrightarrow> D y \<Longrightarrow> eq x y \<Longrightarrow> hash x = hash y"
begin

lemma search_bucket:
  assumes "entries_ok hash m f" "D y" "hash y = Some h" "\<And>x. x \<in> ran f \<Longrightarrow> D x"
  shows "(\<exists>e \<in> set (bucketOf m h). eq (snd e) y) \<longleftrightarrow> (\<exists>x \<in> ran f. eq x y)"
  unfolding entries_ok_set [OF assms(1)] using assms(2-4) hash_cong [of _ y] by (fastforce simp: ran_def)

end

interpretation key_search: hash_search keyHash64 "\<lambda>k l. compareKey k l = 0" "list_all nanFree"
  by unfold_locales (simp add: compareKey_0_iff keyHash64_cong)

interpretation row_search: hash_search productHash64 productEqual "\<lambda>_. True"
  by unfold_locales (simp add: productHash64_cong)

lemma anyO_eq: "(\<And>x. x \<in> set xs \<Longrightarrow> P x = Some (Q x)) \<Longrightarrow> anyO P xs = Some (list_ex Q xs)"
  by (induction xs) auto

section \<open>Invariants\<close>

text \<open>Row identifiers in use are below the allocator; the sequence belongs to an existing column.\<close>

definition alloc_ok :: "table \<Rightarrow> bool" where
  "alloc_ok t \<longleftrightarrow> 0 < t_nextID t \<and> (\<forall>r \<in> dom (rowsOf t). r < t_nextID t)"

definition seq_wf :: "table \<Rightarrow> bool" where
  "seq_wf t \<longleftrightarrow> (t_sequence t = None \<longleftrightarrow> t_sequenceCol t < 0) \<and>
     t_sequenceCol t < int (length (ts_columns (t_schema t))) \<and> t_sequenceCol t = t_sequenceCol (NewTable (t_schema t))"

definition cs_inv :: "committedState \<Rightarrow> bool" where
  [wf_defs]: "cs_inv cs \<longleftrightarrow> distinct (map fst (cs_tables cs)) \<and>
     (\<forall>tid t. csTable cs tid = Some t \<longrightarrow>
        tbl_inv t \<and> alloc_ok t \<and> seq_wf t \<and> (ts_isEvent (t_schema t) \<longrightarrow> t_rows t = []))"

text \<open>Rows that satisfy the constraints of a schema.\<close>

definition rows_ok :: "tableSchema \<Rightarrow> rowMap \<Rightarrow> bool" where
  "rows_ok ts rows \<longleftrightarrow> (\<forall>ix \<in> set (ts_indexes ts). unique_ok rows ix) \<and> (PrimaryIndex ts = None \<longrightarrow> set_ok rows)"

definition cache_inv :: "committedState \<Rightarrow> transaction \<Rightarrow> bool" where
  "cache_inv cs tr \<longleftrightarrow>
     (\<forall>tid i e. map_of (tr_uniqueIndexes tr) (tid, i) = Some e \<longrightarrow>
        (\<exists>t. csTable cs tid = Some t \<and> i < length (t_indexes t) \<and>
          entries_ok keyHash64 e (rowKeys (idx_schema (t_indexes t ! i)) (insOf (tr_tx tr) tid)))) \<and>
     (\<forall>tid e. map_of (tr_rowIndexes tr) tid = Some e \<longrightarrow> entries_ok productHash64 e (insOf (tr_tx tr) tid))"

text \<open>
  The transaction's buffers for one table: inserted rows fit the schema and have fresh
  identifiers, deleted rows are committed, and the rows of the view satisfy the constraints.
\<close>

definition tx_table_ok :: "table \<Rightarrow> transaction \<Rightarrow> tableID \<Rightarrow> bool" where
  "tx_table_ok t tr tid \<longleftrightarrow>
     (\<forall>x \<in> ran (insOf (tr_tx tr) tid). row_wf (t_schema t) x) \<and>
     delsOf (tr_tx tr) tid \<subseteq> dom (rowsOf t) \<and>
     dom (insOf (tr_tx tr) tid) \<inter> dom (rowsOf t) = {} \<and>
     (\<forall>r \<in> dom (insOf (tr_tx tr) tid). t_nextID t \<le> r \<and> r < nextRowID tr tid t) \<and> t_nextID t \<le> nextRowID tr tid t \<and>
     rows_ok (t_schema t) (viewRows t (tr_tx tr) tid)"

text \<open>The counters are Go maps over existing tables.\<close>

definition counters_ok :: "committedState \<Rightarrow> (tableID \<times> u64) list \<Rightarrow> bool" where
  "counters_ok cs m \<longleftrightarrow> distinct (map fst m) \<and> fst ` set m \<subseteq> dom (csTable cs)"

lemma counters_ok_update:
  assumes "counters_ok cs m" "csTable cs tid = Some t"
  shows "counters_ok cs (AList.update tid n m)"
proof -
  have "fst ` set (AList.update tid n m) \<subseteq> insert tid (fst ` set m)" using set_AList_update [of tid n m] by fastforce
  then show ?thesis using assms by (auto simp: counters_ok_def distinct_update)
qed

definition tx_inv :: "committedState \<Rightarrow> transaction \<Rightarrow> bool" where
  [wf_defs]: "tx_inv cs tr \<longleftrightarrow> cs_inv cs \<and> buffers_ok (tr_tx tr) \<and> cache_inv cs tr \<and>
     (\<forall>tid. csTable cs tid = None \<longrightarrow> insOf (tr_tx tr) tid = Map.empty \<and> delsOf (tr_tx tr) tid = {}) \<and>
     (\<forall>tid t. csTable cs tid = Some t \<longrightarrow> tx_table_ok t tr tid) \<and>
     counters_ok cs (tr_nextRowIDs tr) \<and> counters_ok cs (tr_sequences tr)"

lemma rows_ok_committed: "tbl_inv t \<Longrightarrow> rows_ok (t_schema t) (rowsOf t)"
proof -
  assume inv: "tbl_inv t"
  have "unique_ok (rowsOf t) ix" if ix: "ix \<in> set (ts_indexes (t_schema t))" for ix
  proof -
    obtain idx where "idx \<in> set (t_indexes t)" "ix = idx_schema idx"
      using ix unfolding tbl_inv_schemas [OF inv] by auto
    then show ?thesis using tbl_inv_unique [OF inv] by simp
  qed
  moreover have "PrimaryIndex (t_schema t) = None \<longrightarrow> set_ok (rowsOf t)"
    using inv by (auto simp: tbl_inv_def hash_inv_def split: option.splits)
  ultimately show ?thesis by (simp add: rows_ok_def)
qed

lemma tx_inv_New: "cs_inv cs \<Longrightarrow> tx_inv cs NewTransaction"
proof -
  assume cs: "cs_inv cs"
  have "rows_ok (t_schema t) (viewRows t NewTxState tid)" if "csTable cs tid = Some t" for tid t
    using rows_ok_committed [of t] cs that by (simp add: viewRows_def cs_inv_def restrict_map_def)
  then show ?thesis
    using cs by (auto simp: tx_inv_def NewTransaction_def cache_inv_def tx_table_ok_def nextRowID_def NextID_def
        counters_ok_def)
qed

lemma tx_inv_table:
  assumes "tx_inv cs tr" "csTable cs tid = Some t"
  shows "tbl_inv t" "alloc_ok t" "seq_wf t" "ts_isEvent (t_schema t) \<Longrightarrow> t_rows t = []" "tx_table_ok t tr tid"
    "view_wf t (tr_tx tr) tid"
  using assms by (auto simp: tx_inv_def cs_inv_def tx_table_ok_def view_wf_def)

text \<open>What the checks may change: the lazily built indexes.\<close>

definition same_core :: "transaction \<Rightarrow> transaction \<Rightarrow> bool" where
  "same_core tr tr' \<longleftrightarrow> tr_tx tr' = tr_tx tr \<and> tr_state tr' = tr_state tr \<and>
     tr_nextRowIDs tr' = tr_nextRowIDs tr \<and> tr_sequences tr' = tr_sequences tr"

lemma same_core_refl [simp]: "same_core tr tr"
  by (simp add: same_core_def)

lemma same_core_trans: "same_core a b \<Longrightarrow> same_core b c \<Longrightarrow> same_core a c"
  by (simp add: same_core_def)

lemma tx_inv_core: "tx_inv cs tr \<Longrightarrow> same_core tr tr' \<Longrightarrow> cache_inv cs tr' \<Longrightarrow> tx_inv cs tr'"
  by (simp add: tx_inv_def same_core_def tx_table_ok_def nextRowID_def)

section \<open>The conflict checks\<close>

lemma key_nanFree:
  assumes "row_wf ts row" "schema_wf ts" "ix \<in> set (ts_indexes ts)"
  shows "list_all nanFree (keyOf ix row)"
  using set_keyOf [OF assms] row_wf_values [OF assms(1)] wf_value_nanFree by (auto simp: list_all_iff)

lemma key_hash:
  assumes "row_wf ts row" "schema_wf ts" "ix \<in> set (ts_indexes ts)"
  shows "\<exists>h. keyHash64 (keyOf ix row) = Some h"
  unfolding keyHash64_def
  using set_keyOf [OF assms] row_wf_values [OF assms(1)] by (intro productHash64_total) auto

text \<open>The table, the row and the index ordinal a check works on.\<close>

definition at_index :: "committedState \<Rightarrow> transaction \<Rightarrow> tableID \<Rightarrow> table \<Rightarrow> productValue \<Rightarrow> nat \<Rightarrow> bool" where
  "at_index cs tr tid t row i \<longleftrightarrow> tx_inv cs tr \<and> csTable cs tid = Some t \<and> row_wf (t_schema t) row \<and> i < length (t_indexes t)"

lemma at_indexD:
  assumes "at_index cs tr tid t row i"
  shows "schema_wf (t_schema t)" "idx_schema (t_indexes t ! i) \<in> set (ts_indexes (t_schema t))"
    "index_ok (t_schema t) (rowsOf t) (t_indexes t ! i)" "row_wf (t_schema t) row"
    "x \<in> ran (insOf (tr_tx tr) tid) \<Longrightarrow> row_wf (t_schema t) x"
proof -
  have inv: "tbl_inv t" "tx_table_ok t tr tid"
    using assms tx_inv_table [of cs tr tid t] by (simp_all add: at_index_def)
  have "t_indexes t ! i \<in> set (t_indexes t)" using assms by (simp add: at_index_def)
  then show "idx_schema (t_indexes t ! i) \<in> set (ts_indexes (t_schema t))"
    "index_ok (t_schema t) (rowsOf t) (t_indexes t ! i)"
    using tbl_inv_indexes [OF inv(1)] by blast+
  show "schema_wf (t_schema t)" using inv by (simp add: tbl_inv_def)
  show "row_wf (t_schema t) row" using assms by (simp add: at_index_def)
  show "x \<in> ran (insOf (tr_tx tr) tid) \<Longrightarrow> row_wf (t_schema t) x" using inv(2) by (simp add: tx_table_ok_def)
qed

lemma cache_unique:
  assumes "cache_inv cs tr" "map_of (tr_uniqueIndexes tr) (tid, i) = Some e" "csTable cs tid = Some t"
  shows "i < length (t_indexes t)" "entries_ok keyHash64 e (rowKeys (idx_schema (t_indexes t ! i)) (insOf (tr_tx tr) tid))"
proof -
  have "\<exists>t. csTable cs tid = Some t \<and> i < length (t_indexes t) \<and>
      entries_ok keyHash64 e (rowKeys (idx_schema (t_indexes t ! i)) (insOf (tr_tx tr) tid))"
    using assms(1,2) unfolding cache_inv_def by blast
  with assms(3) show "i < length (t_indexes t)"
    "entries_ok keyHash64 e (rowKeys (idx_schema (t_indexes t ! i)) (insOf (tr_tx tr) tid))" by auto
qed

lemma cache_row: "cache_inv cs tr \<Longrightarrow> map_of (tr_rowIndexes tr) tid = Some e \<Longrightarrow> entries_ok productHash64 e (insOf (tr_tx tr) tid)"
  by (simp add: cache_inv_def)

lemma tx_inv_cache: "tx_inv cs tr \<Longrightarrow> cache_inv cs tr"
  by (simp add: tx_inv_def)

lemma ensureTxUniqueIndex_ok:
  assumes at: "at_index cs tr tid t row i"
  shows "\<exists>tr' e. ensureTxUniqueIndex tr tid i (t_indexes t ! i) = Some (tr', e) \<and> tx_inv cs tr' \<and> same_core tr tr' \<and>
    entries_ok keyHash64 e (rowKeys (idx_schema (t_indexes t ! i)) (insOf (tr_tx tr) tid))"
proof -
  have inv: "tx_inv cs tr" and t: "csTable cs tid = Some t" using at by (simp_all add: at_index_def)
  let ?idx = "t_indexes t ! i"
  show ?thesis
  proof (cases "map_of (tr_uniqueIndexes tr) (tid, i)")
    case (Some e)
    then show ?thesis
      using inv cache_unique(2) [OF tx_inv_cache [OF inv] Some t] by (simp add: ensureTxUniqueIndex_def)
  next
    case None
    note wf = tx_inv_table(6) [OF inv t]
    have "\<exists>h. uniqueEntry ?idx x = Some (keyOf (idx_schema ?idx) x, h) \<and> keyHash64 (keyOf (idx_schema ?idx) x) = Some h"
      if "x \<in> snd ` set (tableInserts (tr_tx tr) tid)" for x
    proof -
      have "x \<in> ran (insOf (tr_tx tr) tid)" using that tableInserts_map(2) [OF wf] by (auto simp: ran_def)
      then have x: "row_wf (t_schema t) x" by (rule at_indexD(5) [OF at])
      show ?thesis
        using key_hash [OF x at_indexD(1,2) [OF at]] idxExtractKey_wf [OF at_indexD(1) [OF at] x at_indexD(2) [OF at]]
        by (auto simp: uniqueEntry_def)
    qed
    from entries_ok_build [OF tableInserts_map(1) [OF wf], of "uniqueEntry ?idx" "keyOf (idx_schema ?idx)" keyHash64, OF this]
    obtain e where e: "buildEntries (uniqueEntry ?idx) (tableInserts (tr_tx tr) tid) [] = Some e"
      "entries_ok keyHash64 e (rowKeys (idx_schema ?idx) (insOf (tr_tx tr) tid))"
      by (auto simp: rowKeys_def insOf_def tableInserts_def)
    let ?tr = "tr\<lparr>tr_uniqueIndexes := AList.update (tid, i) e (tr_uniqueIndexes tr)\<rparr>"
    have core: "same_core tr ?tr" by (simp add: same_core_def)
    have "cache_inv cs ?tr"
      using inv t e(2) at by (auto simp: cache_inv_def tx_inv_def at_index_def update_conv')
    then show ?thesis using None e core tx_inv_core [OF inv core] by (simp add: ensureTxUniqueIndex_def)
  qed
qed

lemma ensureTxRowIndex_ok:
  assumes inv: "tx_inv cs tr" and t: "csTable cs tid = Some t"
  shows "\<exists>tr' e. ensureTxRowIndex tr tid = Some (tr', e) \<and> tx_inv cs tr' \<and> same_core tr tr' \<and>
    entries_ok productHash64 e (insOf (tr_tx tr) tid)"
proof (cases "map_of (tr_rowIndexes tr) tid")
  case (Some e)
  then show ?thesis using inv by (simp add: ensureTxRowIndex_def tx_inv_def cache_inv_def)
next
  case None
  note wf = tx_inv_table(6) [OF inv t]
  have "\<exists>h. rowEntry x = Some (x, h) \<and> productHash64 x = Some h" if "x \<in> snd ` set (tableInserts (tr_tx tr) tid)" for x
  proof -
    have "x \<in> ran (insOf (tr_tx tr) tid)" using that tableInserts_map(2) [OF wf] by (auto simp: ran_def)
    then have "row_wf (t_schema t) x" using wf by (simp add: view_wf_def)
    from row_hash [OF this] show ?thesis by (auto simp: rowEntry_def)
  qed
  from entries_ok_build [OF tableInserts_map(1) [OF wf], of rowEntry "\<lambda>x. x" productHash64, OF this]
  obtain e where e: "buildEntries rowEntry (tableInserts (tr_tx tr) tid) [] = Some e"
    "entries_ok productHash64 e (insOf (tr_tx tr) tid)"
    by (auto simp: insOf_def tableInserts_def option.map_ident)
  let ?tr = "tr\<lparr>tr_rowIndexes := AList.update tid e (tr_rowIndexes tr)\<rparr>"
  have core: "same_core tr ?tr" by (simp add: same_core_def)
  have "cache_inv cs ?tr" using inv e(2) by (auto simp: cache_inv_def tx_inv_def update_conv')
  then show ?thesis using None e core tx_inv_core [OF inv core] by (simp add: ensureTxRowIndex_def)
qed

text \<open>A row of \<open>rows\<close> has the key of \<open>row\<close>.\<close>

definition has_key :: "rowMap \<Rightarrow> indexSchema \<Rightarrow> productValue \<Rightarrow> bool" where
  "has_key rows ix row \<longleftrightarrow> (\<exists>x \<in> ran rows. compareKey (keyOf ix x) (keyOf ix row) = 0)"

lemma taken_has_key: "taken rows row ix \<longleftrightarrow> ix_unique ix \<and> has_key rows ix row"
  by (auto simp: taken_def has_key_def ran_def)

lemma checkTxUnique_ok:
  assumes at: "at_index cs tr tid t row i"
  shows "\<exists>tr'. checkTxUnique tr tid t i (t_indexes t ! i) (keyOf (idx_schema (t_indexes t ! i)) row) =
      Some (tr', if has_key (insOf (tr_tx tr) tid) (idx_schema (t_indexes t ! i)) row
        then Some (keyViolation (t_schema t) (idx_schema (t_indexes t ! i)) (keyOf (idx_schema (t_indexes t ! i)) row)) else None) \<and>
    tx_inv cs tr' \<and> same_core tr tr'"
proof -
  let ?ix = "idx_schema (t_indexes t ! i)"
  let ?k = "keyOf ?ix row" and ?f = "rowKeys ?ix (insOf (tr_tx tr) tid)"
  obtain tr' e where e: "ensureTxUniqueIndex tr tid i (t_indexes t ! i) = Some (tr', e)" "tx_inv cs tr'" "same_core tr tr'"
    "entries_ok keyHash64 e ?f"
    using ensureTxUniqueIndex_ok [OF at] by blast
  note wf = at_indexD(4,1,2) [OF at]
  obtain h where h: "keyHash64 ?k = Some h" using key_hash [OF wf] by blast
  have f: "list_all nanFree l \<and> map v_kind l = keyKinds (t_schema t) ?ix" if l: "l \<in> ran ?f" for l
  proof -
    obtain x where x: "x \<in> ran (insOf (tr_tx tr) tid)" "l = keyOf ?ix x" using l by (auto simp: ran_def)
    note xwf = at_indexD(5) [OF at x(1)]
    show ?thesis using key_nanFree [OF xwf wf(2,3)] ExtractKey_keyOf(2) [OF xwf wf(2,3)] x(2) by simp
  qed
  have "keyEqual ?k (snd b) = Some (compareKey (snd b) ?k = 0)" if "b \<in> set (bucketOf e h)" for b
  proof -
    have "snd b \<in> ran ?f" using that unfolding entries_ok_set [OF e(4)] by (auto simp del: rowKeys_eq intro: ranI)
    then have "map v_kind (snd b) = map v_kind ?k" using f ExtractKey_keyOf(2) [OF wf] by simp
    then have "comparable ?k (snd b)" by (intro comparable_kinds [of ?k "map v_kind ?k"]) (simp_all, metis length_map take_all order_refl)
    then show ?thesis using keyEqual_eq [of ?k "snd b"] key_order.cmp_eq_sym [of ?k "snd b"] by simp
  qed
  then have "anyO (\<lambda>b. keyEqual ?k (snd b)) (bucketOf e h) = Some (list_ex (\<lambda>b. compareKey (snd b) ?k = 0) (bucketOf e h))"
    by (rule anyO_eq)
  moreover have "list_ex (\<lambda>b. compareKey (snd b) ?k = 0) (bucketOf e h) \<longleftrightarrow> has_key (insOf (tr_tx tr) tid) ?ix row"
  proof -
    have "(\<exists>l \<in> ran ?f. compareKey l ?k = 0) \<longleftrightarrow> has_key (insOf (tr_tx tr) tid) ?ix row"
      by (auto simp: has_key_def ran_def)
    then show ?thesis
      using key_search.search_bucket [OF e(4) key_nanFree [OF wf] h] f by (simp add: list_ex_iff)
  qed
  ultimately show ?thesis using e h by (simp add: checkTxUnique_def uniqueViolationError_eq)
qed

lemma checkCommittedUnique_ok:
  assumes at: "at_index cs tr tid t row i"
  shows "checkCommittedUnique tr tid t (t_indexes t ! i) (keyOf (idx_schema (t_indexes t ! i)) row) =
    Some (if has_key (rowsOf t |` (- delsOf (tr_tx tr) tid)) (idx_schema (t_indexes t ! i)) row
      then Some (keyViolation (t_schema t) (idx_schema (t_indexes t ! i)) (keyOf (idx_schema (t_indexes t ! i)) row)) else None)"
proof -
  let ?ix = "idx_schema (t_indexes t ! i)"
  obtain ids where ids: "btRowIDs (idx_btree (t_indexes t ! i)) (keyOf ?ix row) = Some ids"
    "set ids = {r. \<exists>x. rowsOf t r = Some x \<and> compareKey (keyOf ?ix x) (keyOf ?ix row) = 0}"
    using taken_ids [OF at_indexD(1,4,2,3) [OF at]] by blast
  have "list_ex (\<lambda>r. \<not> IsDeleted (tr_tx tr) tid r) ids \<longleftrightarrow> has_key (rowsOf t |` (- delsOf (tr_tx tr) tid)) ?ix row"
    unfolding list_ex_iff ids(2) has_key_def by (auto simp: IsDeleted_iff ran_def restrict_map_def split: if_splits)
  then show ?thesis using ids(1) by (simp add: checkCommittedUnique_def uniqueViolationError_eq)
qed

lemma at_index_core:
  "at_index cs tr tid t row i \<Longrightarrow> tx_inv cs tr' \<Longrightarrow> i' < length (t_indexes t) \<Longrightarrow> at_index cs tr' tid t row i'"
  by (simp add: at_index_def)

text \<open>A unique index is violated by a kept committed row, if those are checked, or a buffered one.\<close>

definition blocked :: "bool \<Rightarrow> table \<Rightarrow> txState \<Rightarrow> tableID \<Rightarrow> productValue \<Rightarrow> indexSchema \<Rightarrow> bool" where
  "blocked committed t tx tid row ix \<longleftrightarrow> ix_unique ix \<and>
     (committed \<and> has_key (rowsOf t |` (- delsOf tx tid)) ix row \<or> has_key (insOf tx tid) ix row)"

lemma uniqueLoop_ok:
  assumes "tx_inv cs tr" "csTable cs tid = Some t" "row_wf (t_schema t) row" "idxs = drop i (t_indexes t)"
  shows "\<exists>tr'. uniqueLoop c tr tid t row i idxs =
      Some (tr', map_option (\<lambda>ix. keyViolation (t_schema t) ix (keyOf ix row))
        (List.find (blocked c t (tr_tx tr) tid row) (map idx_schema idxs))) \<and>
    tx_inv cs tr' \<and> same_core tr tr'"
  using assms
proof (induction idxs arbitrary: i tr)
  case Nil
  then show ?case by simp
next
  case (Cons idx idxs)
  let ?ix = "idx_schema idx" and ?k = "keyOf (idx_schema idx) row"
  have i: "i < length (t_indexes t)" "idx = t_indexes t ! i" "idxs = drop (Suc i) (t_indexes t)"
    using Cons.prems(4) by (metis drop_eq_Nil list.distinct(1) not_le, metis nth_via_drop, metis drop_Suc list.sel(3) tl_drop)
  have at: "at_index cs tr tid t row i" using Cons.prems i by (simp add: at_index_def)
  show ?case
  proof (cases "ix_unique ?ix")
    case False
    then have "\<not> blocked c t (tr_tx tr) tid row ?ix" by (simp add: blocked_def)
    with Cons.IH [OF Cons.prems(1-3) i(3)] False show ?thesis by simp
  next
    case True
    have key: "idxExtractKey idx row = Some ?k"
      using idxExtractKey_wf [OF at_indexD(1,4,2) [OF at]] i(2) by simp
    let ?com = "has_key (rowsOf t |` (- delsOf (tr_tx tr) tid)) ?ix row" and ?tx = "has_key (insOf (tr_tx tr) tid) ?ix row"
    have com: "checkCommittedUnique tr tid t idx ?k = Some (if ?com then Some (keyViolation (t_schema t) ?ix ?k) else None)"
      using checkCommittedUnique_ok [OF at] i(2) by simp
    show ?thesis
    proof (cases "c \<and> ?com")
      case hit: True
      then have "blocked c t (tr_tx tr) tid row ?ix" using True by (simp add: blocked_def)
      then show ?thesis using True hit key com Cons.prems(1) by simp
    next
      case miss: False
      have err: "(if c then checkCommittedUnique tr tid t idx ?k else Some None) = Some None" using miss com by simp
      obtain tr1 where tr1: "checkTxUnique tr tid t i idx ?k =
          Some (tr1, if ?tx then Some (keyViolation (t_schema t) ?ix ?k) else None)" "tx_inv cs tr1" "same_core tr tr1"
        using checkTxUnique_ok [OF at] i(2) by auto
      have b: "blocked c t (tr_tx tr) tid row ?ix \<longleftrightarrow> ?tx" using True miss by (auto simp: blocked_def)
      have tx1: "tr_tx tr1 = tr_tx tr" using tr1(3) by (simp add: same_core_def)
      show ?thesis
      proof (cases ?tx)
        case True
        then show ?thesis using \<open>ix_unique ?ix\<close> key err tr1 b by simp
      next
        case False
        from Cons.IH [OF tr1(2) Cons.prems(2,3) i(3)] obtain tr2 where
          "uniqueLoop c tr1 tid t row (Suc i) idxs = Some (tr2, map_option (\<lambda>ix. keyViolation (t_schema t) ix (keyOf ix row))
            (List.find (blocked c t (tr_tx tr) tid row) (map idx_schema idxs)))" "tx_inv cs tr2" "same_core tr1 tr2"
          unfolding tx1 by blast
        then show ?thesis using \<open>ix_unique ?ix\<close> False key err tr1 b same_core_trans [OF tr1(3)] by simp
      qed
    qed
  qed
qed

lemma hasTxDuplicateRow_ok:
  assumes "tx_inv cs tr" "csTable cs tid = Some t" "row_wf (t_schema t) row"
  shows "\<exists>tr'. hasTxDuplicateRow tr tid row = Some (tr', \<exists>x \<in> ran (insOf (tr_tx tr) tid). productEqual x row) \<and>
    tx_inv cs tr' \<and> same_core tr tr'"
proof -
  obtain tr' e where e: "ensureTxRowIndex tr tid = Some (tr', e)" "tx_inv cs tr'" "same_core tr tr'"
    "entries_ok productHash64 e (insOf (tr_tx tr) tid)"
    using ensureTxRowIndex_ok [OF assms(1,2)] by blast
  obtain h where h: "productHash64 row = Some h" using row_hash [OF assms(3)] by blast
  have "list_ex (\<lambda>b. productEqual (snd b) row) (bucketOf e h) \<longleftrightarrow> (\<exists>x \<in> ran (insOf (tr_tx tr) tid). productEqual x row)"
    using row_search.search_bucket [OF e(4) _ h] by (simp add: list_ex_iff)
  then show ?thesis using e h by (simp add: hasTxDuplicateRow_def)
qed

section \<open>Equal rows\<close>

lemma row_wf_nanFree: "row_wf ts row \<Longrightarrow> list_all nanFree row"
  using row_wf_values [of ts row] wf_value_nanFree by (auto simp: list_all_iff)

lemma productEqual_trans:
  assumes "row_wf ts x" "row_wf ts y" "row_wf ts z" "productEqual x y" "productEqual y z"
  shows "productEqual x z"
proof -
  have "compareKey x y = 0" "compareKey y z = 0"
    using assms row_wf_nanFree compareKey_0_iff by blast+
  then have "compareKey x z = 0" using key_order.cmp_cong_left [of x y z] by simp
  then show ?thesis using assms row_wf_nanFree compareKey_0_iff by blast
qed

lemma keyOf_Equal:
  assumes "row_wf ts x" "row_wf ts y" "productEqual x y" "schema_wf ts" "ix \<in> set (ts_indexes ts)"
  shows "compareKey (keyOf ix x) (keyOf ix y) = 0"
proof -
  have len: "length x = length (ts_columns ts)" "length y = length x"
    using row_wf_length assms(1,2) by auto
  have "\<forall>c \<in> set (ix_columns ix). c < length x" using assms(4,5) len by (auto simp: schema_wf_def)
  then have "productEqual (keyOf ix x) (keyOf ix y)"
    using assms(3) by (auto simp: productEqual_def keyOf_def list_all2_map1 list_all2_map2 list_all2_same dest: list_all2_nthD)
  then show ?thesis
    using compareKey_0_iff [OF key_nanFree [OF assms(1,4,5)] key_nanFree [OF assms(2,4,5)]] by simp
qed

lemma has_key_cong:
  assumes "compareKey (keyOf ix x) (keyOf ix y) = 0"
  shows "has_key rows ix x \<longleftrightarrow> has_key rows ix y"
proof -
  have "compareKey z (keyOf ix x) = compareKey z (keyOf ix y)" for z
    by (rule key_order.cmp_cong_right) (simp_all add: assms)
  then show ?thesis by (simp add: has_key_def)
qed

section \<open>Constraints of a set of rows\<close>

lemma rowConflict_None:
  "rowConflict ts rows row = None \<longleftrightarrow>
     (\<forall>ix \<in> set (ts_indexes ts). \<not> taken rows row ix) \<and> (PrimaryIndex ts = None \<longrightarrow> \<not> (\<exists>x \<in> ran rows. productEqual x row))"
proof (cases "List.find (taken rows row) (ts_indexes ts)")
  case None
  then have "\<not> (\<exists>ix \<in> set (ts_indexes ts). taken rows row ix)" by (auto simp: find_None_iff)
  then show ?thesis unfolding rowConflict_def None by (cases "PrimaryIndex ts") simp_all
next
  case (Some ix)
  then have "ix \<in> set (ts_indexes ts)" "taken rows row ix" by (auto simp: find_Some_iff)
  with Some show ?thesis by (auto simp: rowConflict_def)
qed

lemma rows_ok_insert:
  "rows_ok ts rows \<Longrightarrow> rowConflict ts rows row = None \<Longrightarrow> rows rid = None \<Longrightarrow> rows_ok ts (rows(rid \<mapsto> row))"
  unfolding rows_ok_def rowConflict_None using unique_ok_insert set_ok_insert by blast

lemma rows_ok_delete: "rows_ok ts rows \<Longrightarrow> rows_ok ts (rows(rid := None))"
  unfolding rows_ok_def using unique_ok_delete set_ok_delete by blast

lemma rowConflict_None_cong:
  assumes wf: "row_wf ts x" "row_wf ts row" "schema_wf ts" "\<forall>y \<in> ran rows. row_wf ts y"
    and eq: "productEqual x row" and none: "rowConflict ts rows row = None"
  shows "rowConflict ts rows x = None"
proof -
  have "taken rows x ix \<longleftrightarrow> taken rows row ix" if "ix \<in> set (ts_indexes ts)" for ix
    using has_key_cong [OF keyOf_Equal [OF wf(1,2) eq wf(3) that]] by (simp add: taken_has_key)
  moreover have "productEqual y row" if "y \<in> ran rows" "productEqual y x" for y
    using productEqual_trans [OF _ wf(1,2) that(2) eq] wf(4) that(1) by blast
  ultimately show ?thesis using none unfolding rowConflict_None by blast
qed

lemma has_key_view:
  assumes "view_wf t tx tid"
  shows "has_key (viewRows t tx tid) ix row \<longleftrightarrow>
    has_key (rowsOf t |` (- delsOf tx tid)) ix row \<or> has_key (insOf tx tid) ix row"
    and ran_view: "ran (viewRows t tx tid) = ran (rowsOf t |` (- delsOf tx tid)) \<union> ran (insOf tx tid)"
proof -
  have "dom (rowsOf t |` (- delsOf tx tid)) \<inter> dom (insOf tx tid) = {}"
    using assms by (auto simp: view_wf_def restrict_map_def split: if_splits)
  then show "ran (viewRows t tx tid) = ran (rowsOf t |` (- delsOf tx tid)) \<union> ran (insOf tx tid)"
    unfolding viewRows_def by (rule ran_map_add)
  then show "has_key (viewRows t tx tid) ix row \<longleftrightarrow>
      has_key (rowsOf t |` (- delsOf tx tid)) ix row \<or> has_key (insOf tx tid) ix row"
    by (auto simp: has_key_def)
qed

section \<open>Buffer changes keep the invariant\<close>

lemma tx_inv_change:
  assumes inv: "tx_inv cs tr" and t: "csTable cs tid = Some t"
    and buf: "buffers_ok (tr_tx tr')" and cache: "cache_inv cs tr'" and ok: "tx_table_ok t tr' tid"
    and other: "\<And>u. u \<noteq> tid \<Longrightarrow> insOf (tr_tx tr') u = insOf (tr_tx tr) u \<and> delsOf (tr_tx tr') u = delsOf (tr_tx tr) u \<and>
      map_of (tr_nextRowIDs tr') u = map_of (tr_nextRowIDs tr) u"
    and doms: "counters_ok cs (tr_nextRowIDs tr')" "counters_ok cs (tr_sequences tr')"
  shows "tx_inv cs tr'"
proof -
  have "tx_table_ok u tr' uid" if "csTable cs uid = Some u" for uid u
  proof (cases "uid = tid")
    case True
    then show ?thesis using ok t that by simp
  next
    case False
    have "tx_table_ok u tr uid" using inv that by (simp add: tx_inv_def)
    with other [OF False] show ?thesis by (simp add: tx_table_ok_def viewRows_def nextRowID_def)
  qed
  moreover have "insOf (tr_tx tr') uid = Map.empty \<and> delsOf (tr_tx tr') uid = {}" if "csTable cs uid = None" for uid
  proof -
    have "uid \<noteq> tid" using that t by auto
    from other [OF this] show ?thesis using inv that by (simp add: tx_inv_def)
  qed
  ultimately show ?thesis using inv buf cache doms by (simp add: tx_inv_def)
qed

lemma uniqueEntry_ok:
  assumes "schema_wf (t_schema t)" "row_wf (t_schema t) row" "idx_schema idx \<in> set (ts_indexes (t_schema t))"
  shows "uniqueEntry idx row = Some (keyOf (idx_schema idx) row, the (keyHash64 (keyOf (idx_schema idx) row)))"
    "keyHash64 (keyOf (idx_schema idx) row) = Some (the (keyHash64 (keyOf (idx_schema idx) row)))"
  using key_hash [OF assms(2,1,3)] idxExtractKey_wf [OF assms] by (auto simp: uniqueEntry_def)

lemma eachTracked_ok:
  assumes inv: "tbl_inv t" and row: "row_wf (t_schema t) row"
  shows "idxs = drop i (t_indexes t) \<Longrightarrow> \<exists>mm'. eachTracked g tid row i idxs mm = Some mm' \<and>
    (\<forall>u j. map_of mm' (u, j) =
      (if u = tid \<and> i \<le> j \<and> j < length (t_indexes t)
       then map_option (g (keyOf (idx_schema (t_indexes t ! j)) row) (the (keyHash64 (keyOf (idx_schema (t_indexes t ! j)) row))))
         (map_of mm (u, j))
       else map_of mm (u, j)))"
proof (induction idxs arbitrary: i mm)
  case Nil
  then show ?case by auto
next
  case (Cons idx idxs)
  have i: "i < length (t_indexes t)" "idx = t_indexes t ! i" "idxs = drop (Suc i) (t_indexes t)"
    using Cons.prems by (metis drop_eq_Nil list.distinct(1) not_le, metis nth_via_drop, metis drop_Suc list.sel(3) tl_drop)
  have wf: "schema_wf (t_schema t)" using inv by (simp add: tbl_inv_def)
  have mem: "idx_schema idx \<in> set (ts_indexes (t_schema t))" using tbl_inv_indexes [OF inv] i(1,2) by simp
  have split: "(i \<le> j \<and> j < length (t_indexes t)) \<longleftrightarrow> j = i \<or> (Suc i \<le> j \<and> j < length (t_indexes t))" for j
    using i(1) by auto
  show ?case
  proof (cases "map_of mm (tid, i)")
    case None
    then show ?thesis using Cons.IH [OF i(3), of mm] unfolding split by fastforce
  next
    case (Some e)
    let ?mm = "AList.update (tid, i) (g (keyOf (idx_schema idx) row) (the (keyHash64 (keyOf (idx_schema idx) row))) e) mm"
    obtain mm' where mm': "eachTracked g tid row (Suc i) idxs ?mm = Some mm'"
      "\<forall>u j. map_of mm' (u, j) =
        (if u = tid \<and> Suc i \<le> j \<and> j < length (t_indexes t)
         then map_option (g (keyOf (idx_schema (t_indexes t ! j)) row) (the (keyHash64 (keyOf (idx_schema (t_indexes t ! j)) row))))
           (map_of ?mm (u, j))
         else map_of ?mm (u, j))"
      using Cons.IH [OF i(3), of ?mm] by blast
    have "eachTracked g tid row i (idx # idxs) mm = Some mm'"
      using Some mm'(1) uniqueEntry_ok(1) [OF wf row mem] by simp
    moreover have "map_of mm' (u, j) =
      (if u = tid \<and> i \<le> j \<and> j < length (t_indexes t)
       then map_option (g (keyOf (idx_schema (t_indexes t ! j)) row) (the (keyHash64 (keyOf (idx_schema (t_indexes t ! j)) row))))
         (map_of mm (u, j))
       else map_of mm (u, j))" for u j
      unfolding split using mm'(2) Some i(1,2) by (auto simp: update_conv')
    ultimately show ?thesis by blast
  qed
qed

lemma cache_inv_tracked:
  assumes cache: "cache_inv cs tr" and t: "csTable cs tid = Some t"
    and mm: "\<And>u j. map_of mm (u, j) = (if u = tid \<and> 0 \<le> j \<and> j < length (t_indexes t)
      then map_option (g j) (map_of (tr_uniqueIndexes tr) (u, j)) else map_of (tr_uniqueIndexes tr) (u, j))"
    and rr: "\<And>u. map_of rr u = (if u = tid then map_option f (map_of (tr_rowIndexes tr) u) else map_of (tr_rowIndexes tr) u)"
    and other: "\<And>u. u \<noteq> tid \<Longrightarrow> insOf tx u = insOf (tr_tx tr) u"
    and g: "\<And>j e. j < length (t_indexes t) \<Longrightarrow> entries_ok keyHash64 e (rowKeys (idx_schema (t_indexes t ! j)) (insOf (tr_tx tr) tid)) \<Longrightarrow>
      entries_ok keyHash64 (g j e) (rowKeys (idx_schema (t_indexes t ! j)) (insOf tx tid))"
    and f: "\<And>e. entries_ok productHash64 e (insOf (tr_tx tr) tid) \<Longrightarrow> entries_ok productHash64 (f e) (insOf tx tid)"
  shows "cache_inv cs (tr\<lparr>tr_uniqueIndexes := mm, tr_rowIndexes := rr, tr_tx := tx\<rparr>)"
proof -
  have "\<exists>w. csTable cs u = Some w \<and> j < length (t_indexes w) \<and>
      entries_ok keyHash64 e (rowKeys (idx_schema (t_indexes w ! j)) (insOf tx u))" if e: "map_of mm (u, j) = Some e" for u j e
  proof (cases "u = tid")
    case True
    show ?thesis
    proof (cases "map_of (tr_uniqueIndexes tr) (tid, j)")
      case None
      then show ?thesis using e True mm [of u j] by (simp split: if_splits)
    next
      case (Some e0)
      note c = cache_unique [OF cache Some t]
      have "e = g j e0" using e True Some c(1) mm [of u j] by simp
      then show ?thesis using g [OF c] c(1) True t by simp
    qed
  next
    case False
    then have "map_of (tr_uniqueIndexes tr) (u, j) = Some e" using mm [of u j] e by simp
    then show ?thesis using cache other [OF False] unfolding cache_inv_def by simp
  qed
  moreover have "entries_ok productHash64 e (insOf tx u)" if e: "map_of rr u = Some e" for u e
  proof (cases "u = tid")
    case True
    then obtain e0 where "map_of (tr_rowIndexes tr) tid = Some e0" "e = f e0" using e rr [of u]
      by (cases "map_of (tr_rowIndexes tr) tid") auto
    then show ?thesis using f cache_row [OF cache] True by simp
  next
    case False
    then show ?thesis using cache_row [OF cache, of u e] e rr [of u] other [OF False] by simp
  qed
  ultimately show ?thesis by (simp add: cache_inv_def)
qed

lemma addInsert_ok:
  assumes inv: "tx_inv cs tr" and t: "csTable cs tid = Some t" and row: "row_wf (t_schema t) row"
    and fresh: "insOf (tr_tx tr) tid rid = None" "rowsOf t rid = None" "rid < nextRowID tr tid t" "t_nextID t \<le> rid"
    and ok: "rows_ok (t_schema t) ((viewRows t (tr_tx tr) tid)(rid \<mapsto> row))"
  shows "\<exists>tr'. addInsert tr tid rid row t = Some tr' \<and> tx_inv cs tr' \<and> tr_tx tr' = AddInsert (tr_tx tr) tid rid row \<and>
    tr_state tr' = tr_state tr \<and> tr_nextRowIDs tr' = tr_nextRowIDs tr \<and> tr_sequences tr' = tr_sequences tr"
proof -
  note tbl = tx_inv_table [OF inv t]
  let ?tx = "AddInsert (tr_tx tr) tid rid row" and ?ins = "insOf (tr_tx tr) tid"
  have copy: "productCopy row = row" by (rule productCopy_wf [OF row])
  obtain h where h: "productHash64 row = Some h" using row_hash [OF row] by blast
  obtain mm where mm: "eachTracked (\<lambda>key h entries. addEntry h (rid, key) entries) tid row 0 (t_indexes t) (tr_uniqueIndexes tr) = Some mm"
    "\<And>u j. map_of mm (u, j) = (if u = tid \<and> 0 \<le> j \<and> j < length (t_indexes t)
      then map_option (\<lambda>e. addEntry (the (keyHash64 (keyOf (idx_schema (t_indexes t ! j)) row)))
        (rid, keyOf (idx_schema (t_indexes t ! j)) row) e) (map_of (tr_uniqueIndexes tr) (u, j)) else map_of (tr_uniqueIndexes tr) (u, j))"
    using eachTracked_ok [OF tbl(1) row drop_0 [symmetric], where g = "\<lambda>key h entries. addEntry h (rid, key) entries"
        and tid = tid and mm = "tr_uniqueIndexes tr"] by blast
  define rr where "rr = (case map_of (tr_rowIndexes tr) tid of None \<Rightarrow> tr_rowIndexes tr
    | Some e \<Rightarrow> AList.update tid (addEntry h (rid, row) e) (tr_rowIndexes tr))"
  have rr: "map_of rr u = (if u = tid then map_option (addEntry h (rid, row)) (map_of (tr_rowIndexes tr) u)
      else map_of (tr_rowIndexes tr) u)" for u
    by (auto simp: rr_def update_conv' split: option.split)
  let ?tr = "tr\<lparr>tr_uniqueIndexes := mm, tr_rowIndexes := rr, tr_tx := ?tx\<rparr>"
  have run: "addInsert tr tid rid row t = Some ?tr"
    using mm(1) h copy by (simp add: addInsert_def trackTxInsert_def txInsert_eq rowEntry_def rr_def split: option.split)
  have cache: "cache_inv cs ?tr"
  proof (rule cache_inv_tracked [OF tx_inv_cache [OF inv] t mm(2) rr])
    fix j e assume j: "j < length (t_indexes t)"
      and e: "entries_ok keyHash64 e (rowKeys (idx_schema (t_indexes t ! j)) ?ins)"
    have "idx_schema (t_indexes t ! j) \<in> set (ts_indexes (t_schema t))" "schema_wf (t_schema t)"
      using tbl_inv_indexes [OF tbl(1)] j tbl(1) by (auto simp: tbl_inv_def)
    from entries_ok_add [OF e _ uniqueEntry_ok(2) [OF this(2) row this(1)], of rid] fresh(1)
    show "entries_ok keyHash64 (addEntry (the (keyHash64 (keyOf (idx_schema (t_indexes t ! j)) row)))
        (rid, keyOf (idx_schema (t_indexes t ! j)) row) e) (rowKeys (idx_schema (t_indexes t ! j)) (insOf ?tx tid))"
      by (simp add: copy del: fun_upd_apply)
  next
    fix e assume "entries_ok productHash64 e ?ins"
    from entries_ok_add [OF this fresh(1) h] show "entries_ok productHash64 (addEntry h (rid, row) e) (insOf ?tx tid)"
      by (simp add: copy del: fun_upd_apply)
  qed simp
  have view: "viewRows t ?tx tid = (viewRows t (tr_tx tr) tid)(rid \<mapsto> row)" by (simp add: viewRows_def copy)
  have "tx_table_ok t tr tid" by (rule tbl(5))
  then have "tx_table_ok t ?tr tid"
    using row fresh ok unfolding tx_table_ok_def
    by (auto simp: view copy nextRowID_def ran_map_upd simp del: fun_upd_apply)
  then have "tx_inv cs ?tr"
    using inv by (intro tx_inv_change [OF inv t _ cache]) (auto simp: tx_inv_def)
  then show ?thesis using run by simp
qed

lemma removeInsert_ok:
  assumes inv: "tx_inv cs tr" and t: "csTable cs tid = Some t" and row: "insOf (tr_tx tr) tid rid = Some row"
  shows "\<exists>tr'. removeInsert tr tid rid t = Some tr' \<and> tx_inv cs tr' \<and> tr_tx tr' = RemoveInsert (tr_tx tr) tid rid \<and>
    tr_state tr' = tr_state tr \<and> tr_nextRowIDs tr' = tr_nextRowIDs tr \<and> tr_sequences tr' = tr_sequences tr"
proof -
  note tbl = tx_inv_table [OF inv t]
  let ?tx = "RemoveInsert (tr_tx tr) tid rid" and ?ins = "insOf (tr_tx tr) tid"
  have wf: "row_wf (t_schema t) row" using tbl(5) row by (auto simp: tx_table_ok_def intro: ranI)
  obtain h where h: "productHash64 row = Some h" using row_hash [OF wf] by blast
  obtain mm where mm: "eachTracked (\<lambda>key h entries. removeEntry h rid entries) tid row 0 (t_indexes t) (tr_uniqueIndexes tr) = Some mm"
    "\<And>u j. map_of mm (u, j) = (if u = tid \<and> 0 \<le> j \<and> j < length (t_indexes t)
      then map_option (\<lambda>e. removeEntry (the (keyHash64 (keyOf (idx_schema (t_indexes t ! j)) row))) rid e)
        (map_of (tr_uniqueIndexes tr) (u, j)) else map_of (tr_uniqueIndexes tr) (u, j))"
    using eachTracked_ok [OF tbl(1) wf drop_0 [symmetric], where g = "\<lambda>key h entries. removeEntry h rid entries"
        and tid = tid and mm = "tr_uniqueIndexes tr"] by blast
  define rr where "rr = (case map_of (tr_rowIndexes tr) tid of None \<Rightarrow> tr_rowIndexes tr
    | Some e \<Rightarrow> AList.update tid (removeEntry h rid e) (tr_rowIndexes tr))"
  have rr: "map_of rr u = (if u = tid then map_option (removeEntry h rid) (map_of (tr_rowIndexes tr) u)
      else map_of (tr_rowIndexes tr) u)" for u
    by (auto simp: rr_def update_conv' split: option.split)
  let ?tr = "tr\<lparr>tr_uniqueIndexes := mm, tr_rowIndexes := rr, tr_tx := ?tx\<rparr>"
  have run: "removeInsert tr tid rid t = Some ?tr"
    using mm(1) h row by (simp add: removeInsert_def untrackTxInsert_def txInsert_eq rowEntry_def rr_def split: option.split)
  have cache: "cache_inv cs ?tr"
  proof (rule cache_inv_tracked [OF tx_inv_cache [OF inv] t mm(2) rr])
    fix j e assume j: "j < length (t_indexes t)"
      and e: "entries_ok keyHash64 e (rowKeys (idx_schema (t_indexes t ! j)) ?ins)"
    have "idx_schema (t_indexes t ! j) \<in> set (ts_indexes (t_schema t))" "schema_wf (t_schema t)"
      using tbl_inv_indexes [OF tbl(1)] j tbl(1) by (auto simp: tbl_inv_def)
    from entries_ok_remove [OF e _ uniqueEntry_ok(2) [OF this(2) wf this(1)], of rid] row
    show "entries_ok keyHash64 (removeEntry (the (keyHash64 (keyOf (idx_schema (t_indexes t ! j)) row))) rid e)
        (rowKeys (idx_schema (t_indexes t ! j)) (insOf ?tx tid))"
      by (simp del: fun_upd_apply)
  next
    fix e assume "entries_ok productHash64 e ?ins"
    from entries_ok_remove [OF this row h] show "entries_ok productHash64 (removeEntry h rid e) (insOf ?tx tid)"
      by (simp del: fun_upd_apply)
  qed simp
  have "rowsOf t rid = None" using tbl(5) row by (auto simp: tx_table_ok_def)
  then have view: "viewRows t ?tx tid = (viewRows t (tr_tx tr) tid)(rid := None)"
    by (auto simp: viewRows_def map_add_def restrict_map_def fun_eq_iff split: option.split)
  have "tx_table_ok t tr tid" by (rule tbl(5))
  then have "tx_table_ok t ?tr tid"
    using rows_ok_delete ran_del [of ?ins rid] unfolding tx_table_ok_def
    by (auto simp: view nextRowID_def simp del: fun_upd_apply)
  then have "tx_inv cs ?tr"
    using inv by (intro tx_inv_change [OF inv t _ cache]) (auto simp: tx_inv_def)
  then show ?thesis using run by simp
qed

lemma addDelete_inv:
  assumes inv: "tx_inv cs tr" and t: "csTable cs tid = Some t" and row: "rid \<in> dom (rowsOf t)"
  shows "tx_inv cs (tr\<lparr>tr_tx := AddDelete (tr_tx tr) tid rid\<rparr>)"
    "viewRows t (AddDelete (tr_tx tr) tid rid) tid = (viewRows t (tr_tx tr) tid)(rid := None)"
proof -
  note tbl = tx_inv_table(5) [OF inv t]
  have "insOf (tr_tx tr) tid rid = None" using tbl row by (auto simp: tx_table_ok_def)
  then show view: "viewRows t (AddDelete (tr_tx tr) tid rid) tid = (viewRows t (tr_tx tr) tid)(rid := None)"
    by (auto simp: viewRows_def map_add_def restrict_map_def fun_eq_iff split: option.split)
  have "tx_table_ok t (tr\<lparr>tr_tx := AddDelete (tr_tx tr) tid rid\<rparr>) tid"
    using tbl row rows_ok_delete by (simp add: tx_table_ok_def view nextRowID_def)
  moreover have "cache_inv cs (tr\<lparr>tr_tx := AddDelete (tr_tx tr) tid rid\<rparr>)"
    using tx_inv_cache [OF inv] by (simp add: cache_inv_def)
  ultimately show "tx_inv cs (tr\<lparr>tr_tx := AddDelete (tr_tx tr) tid rid\<rparr>)"
    using inv by (intro tx_inv_change [OF inv t]) (auto simp: tx_inv_def)
qed

lemma cancelDelete_inv:
  assumes inv: "tx_inv cs tr" and t: "csTable cs tid = Some t" and row: "rowsOf t rid = Some x" "rid \<in> delsOf (tr_tx tr) tid"
    and ok: "rows_ok (t_schema t) ((viewRows t (tr_tx tr) tid)(rid \<mapsto> x))"
  shows "tx_inv cs (tr\<lparr>tr_tx := CancelDelete (tr_tx tr) tid rid\<rparr>)"
    "viewRows t (CancelDelete (tr_tx tr) tid rid) tid = (viewRows t (tr_tx tr) tid)(rid \<mapsto> x)"
proof -
  note tbl = tx_inv_table(5) [OF inv t]
  have "insOf (tr_tx tr) tid rid = None" using tbl row by (auto simp: tx_table_ok_def)
  then show view: "viewRows t (CancelDelete (tr_tx tr) tid rid) tid = (viewRows t (tr_tx tr) tid)(rid \<mapsto> x)"
    using row by (auto simp: viewRows_def map_add_def restrict_map_def fun_eq_iff split: option.split)
  have "tx_table_ok t (tr\<lparr>tr_tx := CancelDelete (tr_tx tr) tid rid\<rparr>) tid"
    using tbl row ok by (auto simp: tx_table_ok_def view nextRowID_def)
  moreover have "cache_inv cs (tr\<lparr>tr_tx := CancelDelete (tr_tx tr) tid rid\<rparr>)"
    using tx_inv_cache [OF inv] by (simp add: cache_inv_def)
  ultimately show "tx_inv cs (tr\<lparr>tr_tx := CancelDelete (tr_tx tr) tid rid\<rparr>)"
    using inv by (intro tx_inv_change [OF inv t]) (auto simp: tx_inv_def)
qed

section \<open>Conflicts with the view\<close>

lemma blocked_view: "view_wf t tx tid \<Longrightarrow> blocked True t tx tid row = taken (viewRows t tx tid) row"
  by (auto simp: fun_eq_iff blocked_def taken_has_key has_key_view)

lemma blocked_event:
  "t_rows t = [] \<Longrightarrow> blocked False t tx tid row = blocked True t tx tid row"
  by (auto simp: fun_eq_iff blocked_def has_key_def restrict_map_def)

text \<open>A deleted row equal to \<open>row\<close>: no kept committed row has one of its unique keys or equals it.\<close>

definition undeletable :: "table \<Rightarrow> txState \<Rightarrow> tableID \<Rightarrow> productValue \<Rightarrow> rowID \<Rightarrow> bool" where
  "undeletable t tx tid row rid \<longleftrightarrow> rid \<in> delsOf tx tid \<and> (\<exists>x. rowsOf t rid = Some x \<and> productEqual x row)"

lemma undeletable_free:
  assumes inv: "tbl_inv t" and row: "row_wf (t_schema t) row" and u: "undeletable t tx tid row rid"
  shows "ix \<in> set (ts_indexes (t_schema t)) \<Longrightarrow> blocked False t tx tid row ix \<longleftrightarrow> blocked True t tx tid row ix"
    and "PrimaryIndex (t_schema t) = None \<Longrightarrow> \<not> (\<exists>y \<in> ran (rowsOf t |` (- delsOf tx tid)). productEqual y row)"
proof -
  obtain x where x: "rowsOf t rid = Some x" "productEqual x row" "rid \<in> delsOf tx tid"
    using u by (auto simp: undeletable_def)
  have wf: "schema_wf (t_schema t)" "row_wf (t_schema t) x" using inv tbl_inv_row [OF inv x(1)] by (simp_all add: tbl_inv_def)
  have ok: "rows_ok (t_schema t) (rowsOf t)" by (rule rows_ok_committed [OF inv])
  show "blocked False t tx tid row ix \<longleftrightarrow> blocked True t tx tid row ix" if ix: "ix \<in> set (ts_indexes (t_schema t))"
  proof -
    have "\<not> has_key (rowsOf t |` (- delsOf tx tid)) ix row" if "ix_unique ix"
    proof
      assume "has_key (rowsOf t |` (- delsOf tx tid)) ix row"
      then have "has_key (rowsOf t |` (- delsOf tx tid)) ix x"
        using has_key_cong [OF keyOf_Equal [OF wf(2) row x(2) wf(1) ix]] by blast
      then obtain s y where y: "rowsOf t s = Some y" "s \<notin> delsOf tx tid" "compareKey (keyOf ix y) (keyOf ix x) = 0"
        by (auto simp: has_key_def ran_def restrict_map_def split: if_splits)
      then have "s = rid" using ok ix x(1) that unfolding rows_ok_def unique_ok_def by blast
      then show False using y(2) x(3) by simp
    qed
    then show ?thesis by (auto simp: blocked_def)
  qed
  show "\<not> (\<exists>y \<in> ran (rowsOf t |` (- delsOf tx tid)). productEqual y row)" if "PrimaryIndex (t_schema t) = None"
  proof
    assume "\<exists>y \<in> ran (rowsOf t |` (- delsOf tx tid)). productEqual y row"
    then obtain s y where y: "rowsOf t s = Some y" "s \<notin> delsOf tx tid" "productEqual y row"
      by (auto simp: ran_def restrict_map_def split: if_splits)
    have "productEqual y x"
      using productEqual_trans [OF tbl_inv_row [OF inv y(1)] row wf(2) y(3) productEqual_sym [OF x(2)]] .
    then have "s = rid" using ok that x(1) y(1) unfolding rows_ok_def set_ok_def by blast
    then show False using y(2) x(3) by simp
  qed
qed

lemma find_cong': "(\<And>x. x \<in> set xs \<Longrightarrow> P x = Q x) \<Longrightarrow> List.find P xs = List.find Q xs"
  by (induction xs) auto

lemma rowConflict_eq:
  assumes "List.find B (ts_indexes ts) = List.find (taken rows row) (ts_indexes ts)"
    and "PrimaryIndex ts = None \<Longrightarrow> dup \<longleftrightarrow> (\<exists>x \<in> ran rows. productEqual x row)"
  shows "rowConflict ts rows row =
    (case List.find B (ts_indexes ts) of Some ix \<Rightarrow> Some (keyViolation ts ix (keyOf ix row))
     | None \<Rightarrow> if PrimaryIndex ts = None \<and> dup then Some ErrDuplicateRow else None)"
  using assms by (cases "PrimaryIndex ts") (auto simp: rowConflict_def split: option.split)

lemma checkTxInsertConflicts_ok:
  assumes inv: "tx_inv cs tr" and t: "csTable cs tid = Some t" and row: "row_wf (t_schema t) row"
    and u: "undeletable t (tr_tx tr) tid row rid"
  shows "\<exists>tr'. checkTxInsertConflicts tr tid t row =
      Some (tr', rowConflict (t_schema t) (viewRows t (tr_tx tr) tid) row) \<and> tx_inv cs tr' \<and> same_core tr tr'"
proof -
  note tbl = tx_inv_table [OF inv t]
  let ?tx = "tr_tx tr" let ?view = "viewRows t ?tx tid" and ?dup = "\<exists>x \<in> ran (insOf ?tx tid). productEqual x row"
  have B: "List.find (blocked False t ?tx tid row) (ts_indexes (t_schema t)) =
      List.find (taken ?view row) (ts_indexes (t_schema t))"
    by (rule find_cong') (simp add: undeletable_free(1) [OF tbl(1) row u] blocked_view [OF tbl(6)])
  have D: "?dup \<longleftrightarrow> (\<exists>x \<in> ran ?view. productEqual x row)" if "PrimaryIndex (t_schema t) = None"
    using undeletable_free(2) [OF tbl(1) row u that] unfolding ran_view [OF tbl(6)] by blast
  note eq = rowConflict_eq [OF B D]
  obtain tr1 where tr1: "uniqueLoop False tr tid t row 0 (t_indexes t) =
      Some (tr1, map_option (\<lambda>ix. keyViolation (t_schema t) ix (keyOf ix row))
        (List.find (blocked False t ?tx tid row) (ts_indexes (t_schema t))))" "tx_inv cs tr1" "same_core tr tr1"
    using uniqueLoop_ok [OF inv t row drop_0 [symmetric], of False] unfolding tbl_inv_schemas [OF tbl(1)] by blast
  obtain tr2 where tr2: "hasTxDuplicateRow tr1 tid row = Some (tr2, ?dup)" "tx_inv cs tr2" "same_core tr1 tr2"
    using hasTxDuplicateRow_ok [OF tr1(2) t row] tr1(3) by (auto simp: same_core_def)
  show ?thesis
    using tr1 tr2 same_core_trans [OF tr1(3) tr2(3)] tbl_inv_hash [OF tbl(1)] eq
    by (cases "List.find (blocked False t ?tx tid row) (ts_indexes (t_schema t))"; cases "PrimaryIndex (t_schema t)")
      (simp_all add: checkTxInsertConflicts_def)
qed

text \<open>
  What an attempt to undelete does: nothing when no deleted row equals the row; otherwise it
  reports the row's conflict with the view, or makes such a row visible again.
\<close>

definition undelete_spec ::
  "table \<Rightarrow> tableID \<Rightarrow> productValue \<Rightarrow> transaction \<Rightarrow> transaction \<Rightarrow> store_error + rowID option \<Rightarrow> bool" where
  "undelete_spec t tid row tr tr' res \<longleftrightarrow>
    (if \<not> (\<exists>r. undeletable t (tr_tx tr) tid row r) then res = Inr None \<and> same_core tr tr'
     else case rowConflict (t_schema t) (viewRows t (tr_tx tr) tid) row of
       Some e \<Rightarrow> res = Inl e \<and> same_core tr tr'
     | None \<Rightarrow> \<exists>r x. res = Inr (Some r) \<and> undeletable t (tr_tx tr) tid row r \<and> rowsOf t r = Some x \<and>
         same_core (tr\<lparr>tr_tx := CancelDelete (tr_tx tr) tid r\<rparr>) tr' \<and>
         viewRows t (tr_tx tr') tid = (viewRows t (tr_tx tr) tid)(r \<mapsto> x))"

lemma tryUndeleteRowIDs_ok:
  assumes inv: "tx_inv cs tr" and t: "csTable cs tid = Some t" and row: "row_wf (t_schema t) row"
    and all: "\<And>r. undeletable t (tr_tx tr) tid row r \<Longrightarrow> r \<in> set ids"
  shows "\<exists>tr' res. tryUndeleteRowIDs tr tid t row ids = Some (tr', res) \<and> tx_inv cs tr' \<and> undelete_spec t tid row tr tr' res"
  using all
proof (induction ids)
  case Nil
  then show ?case using inv by (auto simp: undelete_spec_def)
next
  case (Cons rid ids)
  note tbl = tx_inv_table [OF inv t]
  let ?tx = "tr_tx tr" let ?view = "viewRows t ?tx tid"
  show ?case
  proof (cases "undeletable t ?tx tid row rid")
    case False
    then have "tryUndeleteRowIDs tr tid t row (rid # ids) = tryUndeleteRowIDs tr tid t row ids"
      by (auto simp: undeletable_def IsDeleted_iff rowView_def split: option.split)
    moreover have "\<And>r. undeletable t ?tx tid row r \<Longrightarrow> r \<in> set ids" using Cons.prems False by fastforce
    ultimately show ?thesis using Cons.IH by simp
  next
    case True
    then obtain x where x: "rowsOf t rid = Some x" "productEqual x row" "rid \<in> delsOf ?tx tid"
      by (auto simp: undeletable_def)
    obtain tr1 where tr1: "checkTxInsertConflicts tr tid t row = Some (tr1, rowConflict (t_schema t) ?view row)"
      "tx_inv cs tr1" "same_core tr tr1"
      using checkTxInsertConflicts_ok [OF inv t row True] by blast
    have tx1: "tr_tx tr1 = ?tx" using tr1(3) by (simp add: same_core_def)
    show ?thesis
    proof (cases "rowConflict (t_schema t) ?view row")
      case (Some e)
      then show ?thesis using x tr1 True by (auto simp: undelete_spec_def IsDeleted_iff rowView_def)
    next
      case None
      have "?view rid = None" using x tbl(5) by (auto simp: viewRows_def map_add_def restrict_map_def tx_table_ok_def split: option.split)
      moreover have "rowConflict (t_schema t) ?view x = None"
        using view_row_wf [OF tbl(6)] tbl_inv_row [OF tbl(1) x(1)] row x(2) None tbl(1)
        by (intro rowConflict_None_cong [of _ x row]) (auto simp: tbl_inv_def ran_def)
      ultimately have ok: "rows_ok (t_schema t) ((viewRows t (tr_tx tr1) tid)(rid \<mapsto> x))"
        using rows_ok_insert tbl(5) unfolding tx1 tx_table_ok_def by blast
      note c = cancelDelete_inv [OF tr1(2) t x(1) _ ok, unfolded tx1, OF x(3)]
      have "same_core (tr\<lparr>tr_tx := CancelDelete ?tx tid rid\<rparr>) (tr1\<lparr>tr_tx := CancelDelete ?tx tid rid\<rparr>)"
        using tr1(3) by (simp add: same_core_def)
      then show ?thesis
        using x tr1(1) True None c tx1 by (auto simp: undelete_spec_def IsDeleted_iff rowView_def)
    qed
  qed
qed

lemma tablePrimaryIndex_iff:
  "tbl_inv t \<Longrightarrow> PrimaryIndex (t_schema t) = map_option idx_schema (tablePrimaryIndex t)"
  by (simp add: PrimaryIndex_def tablePrimaryIndex_def tbl_inv_schemas find_map)

lemma undelete_spec_None: "undelete_spec t tid row tr tr' (Inr None) \<Longrightarrow> same_core tr tr' \<and> \<not> (\<exists>r. undeletable t (tr_tx tr) tid row r)"
  by (auto simp: undelete_spec_def split: if_splits option.splits)

lemma tryUndelete_ok:
  assumes inv: "tx_inv cs tr" and t: "csTable cs tid = Some t" and row: "row_wf (t_schema t) row"
  shows "\<exists>tr' res. tryUndelete tr tid t row = Some (tr', res) \<and> tx_inv cs tr' \<and> undelete_spec t tid row tr tr' res"
proof -
  note tbl = tx_inv_table [OF inv t]
  show ?thesis
  proof (cases "tablePrimaryIndex t")
    case None
    then have "t_rowHashIndex t \<noteq> None" using tablePrimaryIndex_iff [OF tbl(1)] tbl_inv_hash [OF tbl(1)] by auto
    then obtain m where m: "t_rowHashIndex t = Some m" "hash_ok m (rowsOf t)"
      using tbl(1) by (auto simp: tbl_inv_def hash_inv_def)
    obtain h where h: "productHash64 row = Some h" using row_hash [OF row] by blast
    have "r \<in> set (bucketOf m h)" if "undeletable t (tr_tx tr) tid row r" for r
      using that m(2) h productHash64_cong by (auto simp: undeletable_def hash_ok_def)
    from tryUndeleteRowIDs_ok [OF inv t row this] show ?thesis
      using None m(1) h by (simp add: tryUndelete_def)
  next
    case (Some pk)
    then have pk: "pk \<in> set (t_indexes t)" by (auto simp: tablePrimaryIndex_def find_Some_iff)
    then have ix: "idx_schema pk \<in> set (ts_indexes (t_schema t))" "index_ok (t_schema t) (rowsOf t) pk"
      using tbl_inv_indexes [OF tbl(1)] by auto
    have wf: "schema_wf (t_schema t)" using tbl(1) by (simp add: tbl_inv_def)
    note key = idxExtractKey_wf [OF wf row ix(1)]
    obtain ids where ids: "btRowIDs (idx_btree pk) (keyOf (idx_schema pk) row) = Some ids"
      "set ids = {r. \<exists>x. rowsOf t r = Some x \<and> compareKey (keyOf (idx_schema pk) x) (keyOf (idx_schema pk) row) = 0}"
      using taken_ids [OF wf row ix] by blast
    have "r \<in> set ids" if "undeletable t (tr_tx tr) tid row r" for r
    proof -
      obtain x where x: "rowsOf t r = Some x" "productEqual x row"
        using \<open>undeletable t (tr_tx tr) tid row r\<close> by (auto simp: undeletable_def)
      from keyOf_Equal [OF tbl_inv_row [OF tbl(1) x(1)] row x(2) wf ix(1)] x(1) show ?thesis unfolding ids(2) by blast
    qed
    from tryUndeleteRowIDs_ok [OF inv t row this] obtain tr' res where
      r: "tryUndeleteRowIDs tr tid t row ids = Some (tr', res)" "tx_inv cs tr'" "undelete_spec t tid row tr tr' res" by blast
    have "t_rowHashIndex t = None" using Some tablePrimaryIndex_iff [OF tbl(1)] tbl_inv_hash [OF tbl(1)] by auto
    then show ?thesis
      using Some r key ids(1) by (cases "res = Inr None") (simp_all add: tryUndelete_def btSeek_def)
  qed
qed

lemma checkDuplicateRow_ok:
  assumes inv: "tx_inv cs tr" and t: "csTable cs tid = Some t" and row: "row_wf (t_schema t) row"
  shows "\<exists>tr'. checkDuplicateRow tr tid t row =
      Some (tr', if PrimaryIndex (t_schema t) = None \<and> (\<exists>x \<in> ran (viewRows t (tr_tx tr) tid). productEqual x row)
        then Some ErrDuplicateRow else None) \<and> tx_inv cs tr' \<and> same_core tr tr'"
proof -
  note tbl = tx_inv_table [OF inv t]
  show ?thesis
  proof (cases "t_rowHashIndex t")
    case None
    then show ?thesis using inv tbl_inv_hash [OF tbl(1)] by (simp add: checkDuplicateRow_def)
  next
    case (Some m)
    let ?com = "\<exists>x \<in> ran (rowsOf t |` (- delsOf (tr_tx tr) tid)). productEqual x row"
    have m: "hash_ok m (rowsOf t)" using Some tbl(1) by (simp add: tbl_inv_def hash_inv_def)
    obtain h where h: "productHash64 row = Some h" using row_hash [OF row] by blast
    have com: "list_ex (\<lambda>rid. \<not> IsDeleted (tr_tx tr) tid rid \<and>
        (case rowView t rid of None \<Rightarrow> False | Some x \<Rightarrow> productEqual x row)) (bucketOf m h) \<longleftrightarrow> ?com"
      using m h productHash64_cong [of _ row]
      by (fastforce simp: list_ex_iff hash_ok_def IsDeleted_iff rowView_def ran_def restrict_map_def split: if_splits option.splits)
    have pk: "PrimaryIndex (t_schema t) = None" using Some tbl_inv_hash [OF tbl(1)] by simp
    obtain tr' where tr': "hasTxDuplicateRow tr tid row = Some (tr', \<exists>x \<in> ran (insOf (tr_tx tr) tid). productEqual x row)"
      "tx_inv cs tr'" "same_core tr tr'"
      using hasTxDuplicateRow_ok [OF inv t row] by blast
    have ran: "(\<exists>x \<in> ran (viewRows t (tr_tx tr) tid). productEqual x row) \<longleftrightarrow>
        ?com \<or> (\<exists>x \<in> ran (insOf (tr_tx tr) tid). productEqual x row)"
      unfolding ran_view [OF tbl(6)] by blast
    have ev: "\<not> ?com" if "ts_isEvent (t_schema t)" using tbl(4) [OF that] by (simp add: restrict_map_def)
    show ?thesis
    proof (cases ?com)
      case True
      then show ?thesis using ev Some h com pk ran inv by (auto simp: checkDuplicateRow_def)
    next
      case False
      then show ?thesis using Some h com pk ran tr' by (simp add: checkDuplicateRow_def)
    qed
  qed
qed

text \<open>Both checks of \<open>Insert\<close> together report the row's conflict with the view.\<close>

lemma insert_checks_ok:
  assumes inv: "tx_inv cs tr" and t: "csTable cs tid = Some t" and row: "row_wf (t_schema t) row"
  obtains tr1 tr2 where
    "uniqueLoop (\<not> ts_isEvent (t_schema t)) tr tid t row 0 (t_indexes t) =
       Some (tr1, map_option (\<lambda>ix. keyViolation (t_schema t) ix (keyOf ix row))
         (List.find (taken (viewRows t (tr_tx tr) tid) row) (ts_indexes (t_schema t))))"
    "checkDuplicateRow tr1 tid t row =
      Some (tr2, if PrimaryIndex (t_schema t) = None \<and> (\<exists>x \<in> ran (viewRows t (tr_tx tr) tid). productEqual x row)
        then Some ErrDuplicateRow else None)"
    "tx_inv cs tr1" "same_core tr tr1" "tx_inv cs tr2" "same_core tr tr2"
proof -
  note tbl = tx_inv_table [OF inv t]
  have B: "blocked (\<not> ts_isEvent (t_schema t)) t (tr_tx tr) tid row = taken (viewRows t (tr_tx tr) tid) row"
    using blocked_event [OF tbl(4)] blocked_view [OF tbl(6)] by (cases "ts_isEvent (t_schema t)") simp_all
  obtain tr1 where tr1: "uniqueLoop (\<not> ts_isEvent (t_schema t)) tr tid t row 0 (t_indexes t) =
      Some (tr1, map_option (\<lambda>ix. keyViolation (t_schema t) ix (keyOf ix row))
        (List.find (taken (viewRows t (tr_tx tr) tid) row) (ts_indexes (t_schema t))))" "tx_inv cs tr1" "same_core tr tr1"
    using uniqueLoop_ok [OF inv t row drop_0 [symmetric], of "\<not> ts_isEvent (t_schema t)"]
    unfolding tbl_inv_schemas [OF tbl(1)] B by blast
  have tx1: "tr_tx tr1 = tr_tx tr" using tr1(3) by (simp add: same_core_def)
  obtain tr2 where tr2: "checkDuplicateRow tr1 tid t row =
      Some (tr2, if PrimaryIndex (t_schema t) = None \<and> (\<exists>x \<in> ran (viewRows t (tr_tx tr) tid). productEqual x row)
        then Some ErrDuplicateRow else None)" "tx_inv cs tr2" "same_core tr1 tr2"
    using checkDuplicateRow_ok [OF tr1(2) t row] unfolding tx1 by blast
  show ?thesis using that tr1 tr2 same_core_trans [OF tr1(3) tr2(3)] by blast
qed

section \<open>Auto-increment values\<close>

lemma uint_ucast_small: "uint (n :: u64) < 2 ^ LENGTH('b::len) \<Longrightarrow> uint (ucast n :: 'b word) = uint n"
  by (simp add: unsigned_ucast_eq take_bit_int_eq_self)

lemma ucast_ucast_small:
  fixes n :: u64
  assumes "uint n < 2 ^ LENGTH('b::len)"
  shows "ucast (ucast n :: 'b word) = n"
  using uint_ucast_small [OF assms] by (metis ucast_eq word_of_int_uint)

lemma scast_ucast_small:
  fixes n :: u64
  assumes "uint n < 2 ^ (LENGTH('b::len) - 1)"
  shows "scast (ucast n :: 'b word) = n"
proof -
  have "(2::int) ^ (LENGTH('b) - 1) \<le> 2 ^ LENGTH('b)" by (rule power_increasing) simp_all
  with assms have "uint n < 2 ^ LENGTH('b)" by linarith
  then have "uint (ucast n :: 'b word) = uint n" by (rule uint_ucast_small)
  then have "sint (ucast n :: 'b word) = signed_take_bit (LENGTH('b) - 1) (uint n)" by (simp add: sint_uint)
  also have "\<dots> = uint n" 
  proof (rule signed_take_bit_int_eq_self)
    show "- (2 ^ (LENGTH('b) - 1)) \<le> uint n" by (rule order_trans [of _ 0]) simp_all
  qed (rule assms)
  finally show ?thesis by (metis scast_eq word_of_int_uint)
qed

lemma signed_small: "uint (n :: u64) < 2 ^ 63 \<Longrightarrow> \<not> sint n < 0"
  using scast_ucast_small [of n, where 'b = 64] signed_take_bit_int_eq_self [of 63 "uint n"] uint_ge_0 [of n]
  by (simp add: sint_uint)

lemma ValueAsUint64_total: "v_kind v = kind \<Longrightarrow> \<exists>r. ValueAsUint64 v kind = Some r"
  by (cases kind) (simp_all add: ValueAsUint64_def accessor_defs)

text \<open>Within the bounds of the kind a sequence value is stored without truncation.\<close>

lemma newAutoIncrementValue_ok:
  assumes "AutoIncrementBounds kind = Some (mn, mx)" "n \<le> mx"
  shows "\<exists>v. newAutoIncrementValue n kind = Some v \<and> v_kind v = kind \<and> wf_value v \<and> payloadLen v \<noteq> None \<and>
    \<not> v_isNull v \<and> ValueAsUint64 v kind = Some (Some n)"
proof -
  have n: "uint n \<le> uint mx" using assms(2) by (simp add: word_le_def)
  have "\<exists>v. newAutoIncrementValue n kind = Some v \<and> v_kind v = kind \<and> payloadLen v \<noteq> None \<and>
    \<not> v_isNull v \<and> ValueAsUint64 v kind = Some (Some n)"
    using assms(1) n scast_ucast_small [of n, where 'b = 8] scast_ucast_small [of n, where 'b = 16]
      scast_ucast_small [of n, where 'b = 32] ucast_ucast_small [of n, where 'b = 8]
      ucast_ucast_small [of n, where 'b = 16] ucast_ucast_small [of n, where 'b = 32] signed_small [of n]
    by (cases kind)
      (auto simp: AutoIncrementBounds_def autoIncrBounds_def newAutoIncrementValue_def ValueAsUint64_def
        accessor_defs signedValueAsUint64_def payloadLen_def constructor_defs)
  moreover have "newAutoIncrementValue n kind = Some v \<Longrightarrow> wf_value v" for v
    by (cases kind) (auto simp: newAutoIncrementValue_def)
  ultimately show ?thesis by blast
qed

lemma row_wf_update:
  assumes "row_wf ts row" "c < length (ts_columns ts)" "value_fits (ts_columns ts ! c) v"
  shows "row_wf ts (row[c := v])"
  using assms by (auto simp: row_wf_def list_all2_conv_all_nth nth_list_update)

lemma newAutoIncrement_nth:
  "row_wf ts row \<Longrightarrow> c < length (ts_columns ts) \<Longrightarrow> \<exists>r. ValueAsUint64 (row ! c) (c_type (ts_columns ts ! c)) = Some r"
  using row_wf_nth [of ts row c] row_wf_length [of ts row] by (intro ValueAsUint64_total) (auto simp: value_fits_def)

text \<open>
  The row \<open>Insert\<close> stores: the given one, or the given one with the next value of the sequence in
  place of a zero, which is within the bounds of the column and read back unchanged.
\<close>

lemma applyAutoIncrement_ok:
  assumes seq: "seq_wf t" and row: "row_wf (t_schema t) row"
  shows "\<exists>res. applyAutoIncrement tr tid t row = Some res \<and>
    (\<forall>row' n adv. res = Inr (row', n, adv) \<longrightarrow> row_wf (t_schema t) row' \<and> (adv \<longrightarrow> t_sequence t \<noteq> None))"
proof (cases "t_sequence t = None \<or> t_sequenceCol t < 0")
  case True
  then show ?thesis using row by (simp add: applyAutoIncrement_def)
next
  case False
  define c where "c = nat (t_sequenceCol t)"
  let ?kind = "c_type (ts_columns (t_schema t) ! c)"
  have c: "c < length (ts_columns (t_schema t))" "c < length row"
    using False seq row_wf_length [OF row] by (auto simp: c_def seq_wf_def)
  obtain n where n: "ValueAsUint64 (row ! c) ?kind = Some n" using newAutoIncrement_nth [OF row c(1)] by blast
  obtain s where s: "nextSequenceValue tr tid t = Some s"
    using False by (cases "map_of (tr_sequences tr) tid") (auto simp: nextSequenceValue_def)
  show ?thesis
  proof (cases "n = Some 0")
    case zero: False
    then show ?thesis
      using False n c row by (simp add: applyAutoIncrement_def c_def [symmetric] isZeroAutoIncrementValue_def)
  next
    case zero: True
    show ?thesis
    proof (cases "AutoIncrementBounds ?kind")
      case None
      then show ?thesis
        using False zero n c by (auto simp: applyAutoIncrement_def c_def [symmetric] isZeroAutoIncrementValue_def)
    next
      case (Some b)
      obtain mn mx where b: "b = (mn, mx)" by (cases b)
      show ?thesis
      proof (cases "s = 0 \<or> s > mx \<or> s = mx \<and> mx = -1")
        case True
        then show ?thesis
          using False zero n c Some s b by (auto simp: applyAutoIncrement_def c_def [symmetric] isZeroAutoIncrementValue_def)
      next
        case ok: False
        then obtain v where v: "newAutoIncrementValue s ?kind = Some v" "v_kind v = ?kind" "wf_value v" "payloadLen v \<noteq> None"
          "\<not> v_isNull v"
          using newAutoIncrementValue_ok [OF Some [unfolded b], of s] by (auto simp: not_less)
        have "row_wf (t_schema t) ((productCopy row)[c := v])"
          unfolding productCopy_wf [OF row] using v Some
          by (intro row_wf_update [OF row c(1)]) (auto simp: value_fits_def column_accepts_def AutoIncrementBounds_def autoIncrBounds_def
              split: value_kind.splits)
        then show ?thesis
          using False zero n c Some s b v(1) ok
          by (auto simp: applyAutoIncrement_def c_def [symmetric] isZeroAutoIncrementValue_def)
      qed
    qed
  qed
qed

section \<open>Inserting\<close>

lemma ValidateRow_wf: "ValidateRow ts row = Inr () \<Longrightarrow> values_ok row \<Longrightarrow> row_wf ts row"
  by (simp add: ValidateRow_iff)

lemma word_less_plus_1: "x \<noteq> -1 \<Longrightarrow> x < x + 1" for x :: u64
  by (meson inc_less_eq_triv_imp not_le)

lemma counters_simps [simp]:
  "nextRowID (setNextRowID tr tid nxt) tid t = nxt" "nextRowID (setNextSequenceValue tr tid v) u t = nextRowID tr u t"
  "tr_tx (setNextRowID tr tid nxt) = tr_tx tr" "tr_tx (setNextSequenceValue tr tid v) = tr_tx tr"
  "tr_state (setNextRowID tr tid nxt) = tr_state tr" "tr_state (setNextSequenceValue tr tid v) = tr_state tr"
  by (simp_all add: setNextRowID_def setNextSequenceValue_def nextRowID_def update_conv')

lemma tx_inv_counters:
  assumes inv: "tx_inv cs tr" and t: "csTable cs tid = Some t" and le: "nextRowID tr tid t \<le> nxt"
  shows "tx_inv cs (setNextRowID tr tid nxt)" "tx_inv cs (setNextSequenceValue tr tid v)"
proof -
  note tbl = tx_inv_table(5) [OF inv t]
  have cache: "cache_inv cs (setNextRowID tr tid nxt)" "cache_inv cs (setNextSequenceValue tr tid v)"
    using tx_inv_cache [OF inv] by (simp_all add: cache_inv_def setNextRowID_def setNextSequenceValue_def)
  have "tx_table_ok t (setNextRowID tr tid nxt) tid" "tx_table_ok t (setNextSequenceValue tr tid v) tid"
    using tbl le by (auto simp: tx_table_ok_def intro: order_less_le_trans order_trans)
  moreover have "buffers_ok (tr_tx tr)" using inv by (simp add: tx_inv_def)
  moreover have "counters_ok cs (tr_nextRowIDs tr)" "counters_ok cs (tr_sequences tr)"
    using inv by (simp_all add: tx_inv_def)
  ultimately show "tx_inv cs (setNextRowID tr tid nxt)" "tx_inv cs (setNextSequenceValue tr tid v)"
    using cache by (intro tx_inv_change [OF inv t];
        simp add: setNextRowID_def setNextSequenceValue_def update_conv' counters_ok_update [OF _ t])+
qed

lemma view_fresh:
  assumes inv: "tx_inv cs tr" and t: "csTable cs tid = Some t"
  shows "insOf (tr_tx tr) tid (nextRowID tr tid t) = None" "rowsOf t (nextRowID tr tid t) = None"
    "viewRows t (tr_tx tr) tid (nextRowID tr tid t) = None"
proof -
  note tbl = tx_inv_table [OF inv t]
  show ins: "insOf (tr_tx tr) tid (nextRowID tr tid t) = None"
    using tbl(5) unfolding tx_table_ok_def by (metis domIff order_less_irrefl)
  show "rowsOf t (nextRowID tr tid t) = None"
    using tbl(2,5) unfolding alloc_ok_def tx_table_ok_def by (metis domIff not_le)
  with ins show "viewRows t (tr_tx tr) tid (nextRowID tr tid t) = None" by (simp add: viewRows_def map_add_def restrict_map_def)
qed

definition fresh_result :: "transaction \<Rightarrow> tableID \<Rightarrow> table \<Rightarrow> productValue \<Rightarrow> store_error + rowID" where
  "fresh_result tr tid t row =
     (case checkRowIDAvailable t of Some e \<Rightarrow> Inl e
      | None \<Rightarrow> case rowConflict (t_schema t) (viewRows t (tr_tx tr) tid) row of Some e \<Rightarrow> Inl e
      | None \<Rightarrow> case checkRowIDValueAvailable (nextRowID tr tid t) of Some e \<Rightarrow> Inl e
      | None \<Rightarrow> Inr (nextRowID tr tid t))"

text \<open>An operation that reports an error leaves the view and the counters as they were.\<close>

definition view_insert :: "committedState \<Rightarrow> table \<Rightarrow> tableID \<Rightarrow> transaction \<Rightarrow> transaction \<Rightarrow> rowID \<Rightarrow> productValue \<Rightarrow> bool" where
  "view_insert cs t tid tr tr' rid x \<longleftrightarrow>
     viewRows t (tr_tx tr) tid rid = None \<and> viewRows t (tr_tx tr') tid = (viewRows t (tr_tx tr) tid)(rid \<mapsto> x) \<and>
     (\<forall>u. u \<noteq> tid \<longrightarrow> insOf (tr_tx tr') u = insOf (tr_tx tr) u \<and> delsOf (tr_tx tr') u = delsOf (tr_tx tr) u)"

lemma insertFresh_ok:
  assumes inv: "tx_inv cs tr" and t: "csTable cs tid = Some t" and row: "row_wf (t_schema t) row"
    and adv: "adv \<Longrightarrow> t_sequence t \<noteq> None"
  shows "\<exists>tr'. insertFresh tr tid t row v adv = Some (tr', fresh_result tr tid t row) \<and> tx_inv cs tr' \<and>
    tr_state tr' = tr_state tr \<and>
    (case fresh_result tr tid t row of Inl e \<Rightarrow> same_core tr tr' | Inr rid \<Rightarrow> view_insert cs t tid tr tr' rid row)"
proof (cases "checkRowIDAvailable t")
  case (Some e)
  then show ?thesis using inv by (simp add: insertFresh_def fresh_result_def)
next
  case avail: None
  note tbl = tx_inv_table [OF inv t]
  let ?view = "viewRows t (tr_tx tr) tid" and ?next = "nextRowID tr tid t"
  obtain tr1 tr2 where u: "uniqueLoop (\<not> ts_isEvent (t_schema t)) tr tid t row 0 (t_indexes t) =
       Some (tr1, map_option (\<lambda>ix. keyViolation (t_schema t) ix (keyOf ix row))
         (List.find (taken ?view row) (ts_indexes (t_schema t))))"
    and d: "checkDuplicateRow tr1 tid t row =
      Some (tr2, if PrimaryIndex (t_schema t) = None \<and> (\<exists>x \<in> ran ?view. productEqual x row)
        then Some ErrDuplicateRow else None)"
    and tr1: "tx_inv cs tr1" "same_core tr tr1" and tr2: "tx_inv cs tr2" "same_core tr tr2"
    by (rule insert_checks_ok [OF inv t row])
  show ?thesis
  proof (cases "rowConflict (t_schema t) ?view row")
    case (Some e)
    then show ?thesis
      using u d tr1 tr2 avail
      by (cases "List.find (taken ?view row) (ts_indexes (t_schema t))")
        (auto simp: insertFresh_def fresh_result_def rowConflict_def same_core_def split: if_splits)
  next
    case free: None
    have found: "List.find (taken ?view row) (ts_indexes (t_schema t)) = None"
      using free by (simp add: rowConflict_def split: option.splits)
    have nodup: "\<not> (PrimaryIndex (t_schema t) = None \<and> (\<exists>x \<in> ran ?view. productEqual x row))"
      using free found by (simp add: rowConflict_def split: if_splits)
    have next2: "nextRowID tr2 tid t = ?next" and tx2: "tr_tx tr2 = tr_tx tr" and st2: "tr_state tr2 = tr_state tr"
      using tr2(2) by (simp_all add: same_core_def nextRowID_def)
    show ?thesis
    proof (cases "checkRowIDValueAvailable ?next")
      case (Some e)
      then show ?thesis
        using u d found nodup free avail tr2 next2 st2
        by (simp add: insertFresh_def fresh_result_def txAllocRowIDForInsert_def Let_def)
    next
      case None
      let ?tr3 = "setNextRowID tr2 tid (?next + 1)"
      have "?next \<noteq> -1" using None by (simp add: checkRowIDValueAvailable_def split: if_splits)
      then have less: "?next < ?next + 1" by (rule word_less_plus_1)
      have tr3: "tx_inv cs ?tr3" using tx_inv_counters(1) [OF tr2(1) t] less next2 by simp
      obtain tr4 where tr4: "(if adv then advanceTxSequencePastValue ?tr3 tid t v else Some ?tr3) = Some tr4"
        "tx_inv cs tr4" "tr_tx tr4 = tr_tx tr" "tr_state tr4 = tr_state tr" "nextRowID tr4 tid t = ?next + 1"
      proof (cases adv)
        case False
        then show ?thesis using that [of ?tr3] tr3 tx2 st2 by simp
      next
        case True
        obtain c where c: "nextSequenceValue ?tr3 tid t = Some c"
          using adv [OF True] by (cases "map_of (tr_sequences ?tr3) tid") (auto simp: nextSequenceValue_def)
        have "tx_inv cs (setNextSequenceValue ?tr3 tid w)" for w using tx_inv_counters(2) [OF tr3 t order_refl] .
        then show ?thesis
          using that True c tr3 tx2 st2 by (auto simp: advanceTxSequencePastValue_def Let_def)
      qed
      note fr = view_fresh [OF inv t]
      have "rows_ok (t_schema t) (?view(?next \<mapsto> row))"
        using rows_ok_insert [OF _ free fr(3)] tbl(5) by (simp add: tx_table_ok_def)
      moreover have "t_nextID t \<le> ?next" using tbl(5) by (simp add: tx_table_ok_def)
      ultimately obtain tr5 where tr5: "addInsert tr4 tid ?next row t = Some tr5" "tx_inv cs tr5"
        "tr_tx tr5 = AddInsert (tr_tx tr) tid ?next row" "tr_state tr5 = tr_state tr"
        using addInsert_ok [OF tr4(2) t row, of ?next] fr tr4 less by (auto simp del: fun_upd_apply)
      have "view_insert cs t tid tr tr5 ?next row"
        using fr(3) row by (simp add: view_insert_def tr5(3) viewRows_def)
      then show ?thesis
        using u d found nodup free avail None next2 tr4(1) tr5
        by (simp add: insertFresh_def fresh_result_def txAllocRowIDForInsert_def Let_def)
    qed
  qed
qed

text \<open>Why an insertion is refused.\<close>

definition insert_refused :: "committedState \<Rightarrow> transaction \<Rightarrow> tableID \<Rightarrow> productValue \<Rightarrow> store_error \<Rightarrow> bool" where
  "insert_refused cs tr tid row e \<longleftrightarrow>
     (case csTable cs tid of
        None \<Rightarrow> e = ErrTableNotFound tid
      | Some t \<Rightarrow> ValidateRow (t_schema t) row = Inl e \<or> e \<in> {ErrRowIDOverflow, ErrSequenceOverflow, ErrAutoIncrementType} \<or>
          (\<exists>row' n adv. applyAutoIncrement tr tid t row = Some (Inr (row', n, adv)) \<and>
             rowConflict (t_schema t) (viewRows t (tr_tx tr) tid) row' = Some e))"

text \<open>What a successful insertion does: the row, with its auto-increment value, joins the view.\<close>

definition insert_done :: "committedState \<Rightarrow> transaction \<Rightarrow> tableID \<Rightarrow> productValue \<Rightarrow> transaction \<Rightarrow> rowID \<Rightarrow> bool" where
  "insert_done cs tr tid row tr' rid \<longleftrightarrow> (\<exists>t row' n adv x. csTable cs tid = Some t \<and>
     applyAutoIncrement tr tid t row = Some (Inr (row', n, adv)) \<and> row_wf (t_schema t) row' \<and>
     rowConflict (t_schema t) (viewRows t (tr_tx tr) tid) row' = None \<and>
     productEqual x row' \<and> view_insert cs t tid tr tr' rid x)"

lemma applyAutoIncrement_errors:
  "applyAutoIncrement tr tid t row = Some (Inl e) \<Longrightarrow> e \<in> {ErrSequenceOverflow, ErrAutoIncrementType}"
  by (auto simp: applyAutoIncrement_def Let_def result_simps split: if_splits option.splits)

lemma checkRowID_errors: "checkRowIDAvailable t = Some e \<Longrightarrow> e = ErrRowIDOverflow"
  "checkRowIDValueAvailable n = Some e \<Longrightarrow> e = ErrRowIDOverflow"
  by (simp_all add: checkRowIDAvailable_def checkRowIDValueAvailable_def split: if_splits)

lemma fresh_result_cases:
  "fresh_result tr tid t row = Inl e \<Longrightarrow> e = ErrRowIDOverflow \<or> rowConflict (t_schema t) (viewRows t (tr_tx tr) tid) row = Some e"
  "fresh_result tr tid t row = Inr rid \<Longrightarrow> rowConflict (t_schema t) (viewRows t (tr_tx tr) tid) row = None"
  using checkRowID_errors by (auto simp: fresh_result_def split: option.splits)

lemma view_insert_undelete:
  assumes inv: "tx_inv cs tr" and t: "csTable cs tid = Some t" and core: "same_core (tr\<lparr>tr_tx := CancelDelete (tr_tx tr) tid r\<rparr>) tr'"
    and u: "undeletable t (tr_tx tr) tid row r" and x: "rowsOf t r = Some x"
    and view: "viewRows t (tr_tx tr') tid = (viewRows t (tr_tx tr) tid)(r \<mapsto> x)"
  shows "view_insert cs t tid tr tr' r x"
proof -
  have "insOf (tr_tx tr) tid r = None" using tx_inv_table(5) [OF inv t] x by (auto simp: tx_table_ok_def)
  then have "viewRows t (tr_tx tr) tid r = None"
    using u by (simp add: undeletable_def viewRows_def map_add_def restrict_map_def)
  then show ?thesis using view core by (simp add: view_insert_def same_core_def)
qed

lemma insertFresh_spec:
  assumes inv: "tx_inv cs tr" and t: "csTable cs tid = Some t"
    and a: "applyAutoIncrement tr0 tid t row = Some (Inr (row', v, adv))"
    and row: "row_wf (t_schema t) row'" and adv: "adv \<longrightarrow> t_sequence t \<noteq> None" and core: "same_core tr0 tr"
  shows "\<exists>tr' res. insertFresh tr tid t row' v adv = Some (tr', res) \<and> tx_inv cs tr' \<and> tr_state tr' = tr_state tr \<and>
    (case res of Inl e \<Rightarrow> same_core tr tr' \<and> insert_refused cs tr0 tid row e | Inr rid \<Rightarrow> insert_done cs tr0 tid row tr' rid)"
proof -
  have tx: "tr_tx tr = tr_tx tr0" using core by (simp add: same_core_def)
  obtain tr' where tr': "insertFresh tr tid t row' v adv = Some (tr', fresh_result tr tid t row')" "tx_inv cs tr'"
    "tr_state tr' = tr_state tr"
    "case fresh_result tr tid t row' of Inl e \<Rightarrow> same_core tr tr' | Inr rid \<Rightarrow> view_insert cs t tid tr tr' rid row'"
    using insertFresh_ok [OF inv t row, of adv v] adv by blast
  show ?thesis
  proof (cases "fresh_result tr tid t row'")
    case (Inl e)
    then have "insert_refused cs tr0 tid row e"
      using fresh_result_cases(1) [OF Inl] t a by (auto simp: insert_refused_def tx)
    then show ?thesis using tr' Inl by simp
  next
    case (Inr rid)
    have "view_insert cs t tid tr0 tr' rid row'" using tr'(4) Inr tx by (simp add: view_insert_def)
    then have "insert_done cs tr0 tid row tr' rid"
      using fresh_result_cases(2) [OF Inr] t a row productEqual_refl [OF row] unfolding insert_done_def tx by blast
    then show ?thesis using tr' Inr by simp
  qed
qed

lemma Insert_ok:
  assumes inv: "tx_inv cs tr" and act: "tr_state tr = TransactionActive" and vals: "values_ok row"
  shows "\<exists>tr' res. Insert cs tr tid row = Some (tr', res) \<and> tx_inv cs tr' \<and> tr_state tr' = TransactionActive \<and>
    (case res of Inl e \<Rightarrow> same_core tr tr' \<and> insert_refused cs tr tid row e | Inr rid \<Rightarrow> insert_done cs tr tid row tr' rid)"
proof (cases "csTable cs tid")
  case None
  then show ?thesis using inv act by (simp add: Insert_def checkUsable_def insert_refused_def)
next
  case (Some t)
  have use: "checkUsable tr = None" using act by (simp add: checkUsable_def)
  note tbl = tx_inv_table [OF inv Some]
  show ?thesis
  proof (cases "ValidateRow (t_schema t) row")
    case (Inl e)
    then show ?thesis using Some inv act use by (simp add: Insert_def insert_refused_def)
  next
    case valid: (Inr un)
    then have row: "row_wf (t_schema t) row" using ValidateRow_wf vals by simp
    obtain res where res: "applyAutoIncrement tr tid t row = Some res"
      "\<forall>row' n adv. res = Inr (row', n, adv) \<longrightarrow> row_wf (t_schema t) row' \<and> (adv \<longrightarrow> t_sequence t \<noteq> None)"
      using applyAutoIncrement_ok [OF tbl(3) row] by blast
    show ?thesis
    proof (cases res)
      case (Inl e)
      then show ?thesis
        using Some inv act use valid res(1) applyAutoIncrement_errors [of tr tid t row e] checkRowID_errors(1) [of t]
        by (auto simp: Insert_def insert_refused_def split: option.split)
    next
      case (Inr y)
      then obtain row' v adv where y: "res = Inr (row', v, adv)" by (cases y) auto
      have a: "applyAutoIncrement tr tid t row = Some (Inr (row', v, adv))" using res(1) y by simp
      have wf: "row_wf (t_schema t) row'" "adv \<longrightarrow> t_sequence t \<noteq> None" using res(2) y by auto
      show ?thesis
      proof (cases "ts_isEvent (t_schema t)")
        case True
        from insertFresh_spec [OF inv Some a wf] show ?thesis
          using Some act use valid a True by (simp add: Insert_def)
      next
        case False
        obtain tr1 und where u: "tryUndelete tr tid t row' = Some (tr1, und)" "tx_inv cs tr1" "undelete_spec t tid row' tr tr1 und"
          using tryUndelete_ok [OF inv Some wf(1)] by blast
        have run: "Insert cs tr tid row = (case und of Inl e \<Rightarrow> Some (tr1, Inl e) | Inr (Some rid) \<Rightarrow> Some (tr1, Inr rid)
            | Inr None \<Rightarrow> insertFresh tr1 tid t row' v adv)"
          using Some use valid a False u(1) by (simp add: Insert_def)
        consider e where "und = Inl e" | "und = Inr None" | r where "und = Inr (Some r)"
          by (metis option.exhaust sum.exhaust_sel)
        then show ?thesis
        proof cases
          case (1 e)
          then have "same_core tr tr1" "rowConflict (t_schema t) (viewRows t (tr_tx tr) tid) row' = Some e"
            using u(3) by (auto simp: undelete_spec_def split: if_splits option.splits)
          then show ?thesis using 1 run u(2) act Some a by (auto simp: insert_refused_def same_core_def)
        next
          case 2
          have core: "same_core tr tr1" using undelete_spec_None u(3) 2 by blast
          from insertFresh_spec [OF u(2) Some a wf core] show ?thesis
            using run 2 act core by (auto simp: same_core_def split: sum.splits)
        next
          case (3 r)
          then obtain x where x: "undeletable t (tr_tx tr) tid row' r" "rowsOf t r = Some x"
            "same_core (tr\<lparr>tr_tx := CancelDelete (tr_tx tr) tid r\<rparr>) tr1"
            "viewRows t (tr_tx tr1) tid = (viewRows t (tr_tx tr) tid)(r \<mapsto> x)"
            "rowConflict (t_schema t) (viewRows t (tr_tx tr) tid) row' = None"
            using u(3) by (auto simp: undelete_spec_def split: if_splits option.splits)
          have "productEqual x row'" using x(1,2) by (simp add: undeletable_def)
          then have "insert_done cs tr tid row tr1 r"
            using view_insert_undelete [OF inv Some x(3,1,2,4)] Some a wf(1) x(5) unfolding insert_done_def by blast
          then show ?thesis using 3 run u(2) x(3) act by (simp add: same_core_def)
        qed
      qed
    qed
  qed
qed

section \<open>Deleting and updating\<close>

definition same_view :: "transaction \<Rightarrow> transaction \<Rightarrow> bool" where
  "same_view tr tr' \<longleftrightarrow> insOf (tr_tx tr') = insOf (tr_tx tr) \<and> delsOf (tr_tx tr') = delsOf (tr_tx tr) \<and>
     tr_nextRowIDs tr' = tr_nextRowIDs tr \<and> tr_sequences tr' = tr_sequences tr"

text \<open>What a successful deletion does: the row leaves the view, of this table only.\<close>

definition view_delete :: "committedState \<Rightarrow> tableID \<Rightarrow> transaction \<Rightarrow> transaction \<Rightarrow> rowID \<Rightarrow> productValue \<Rightarrow> bool" where
  "view_delete cs tid tr tr' rid x \<longleftrightarrow> (\<exists>t. csTable cs tid = Some t \<and>
     viewRows t (tr_tx tr) tid rid = Some x \<and> viewRows t (tr_tx tr') tid = (viewRows t (tr_tx tr) tid)(rid := None)) \<and>
     (\<forall>u. u \<noteq> tid \<longrightarrow> insOf (tr_tx tr') u = insOf (tr_tx tr) u \<and> delsOf (tr_tx tr') u = delsOf (tr_tx tr) u)"

lemma Delete_ok:
  assumes inv: "tx_inv cs tr" and act: "tr_state tr = TransactionActive"
  shows "\<exists>tr' err. Delete cs tr tid rid = Some (tr', err) \<and> tx_inv cs tr' \<and> tr_state tr' = TransactionActive \<and>
    (case err of
       None \<Rightarrow> \<exists>x. view_delete cs tid tr tr' rid x
     | Some e \<Rightarrow> tr' = tr \<and> (case csTable cs tid of None \<Rightarrow> e = ErrTableNotFound tid
         | Some t \<Rightarrow> e = ErrRowNotFound rid \<and> viewRows t (tr_tx tr) tid rid = None))"
proof (cases "csTable cs tid")
  case None
  then show ?thesis using inv act by (simp add: Delete_def checkUsable_def)
next
  case (Some t)
  have use: "checkUsable tr = None" using act by (simp add: checkUsable_def)
  note tbl = tx_inv_table(5) [OF inv Some]
  show ?thesis
  proof (cases "insOf (tr_tx tr) tid rid")
    case (Some x)
    then obtain tr' where tr': "removeInsert tr tid rid t = Some tr'" "tx_inv cs tr'"
      "tr_tx tr' = RemoveInsert (tr_tx tr) tid rid" "tr_state tr' = tr_state tr"
      using removeInsert_ok [OF inv \<open>csTable cs tid = Some t\<close>] by blast
    have "rowsOf t rid = None" using tbl Some by (auto simp: tx_table_ok_def)
    then have "view_delete cs tid tr tr' rid x"
      using Some \<open>csTable cs tid = Some t\<close> tr'(3)
      by (auto simp: view_delete_def viewRows_def map_add_def restrict_map_def fun_eq_iff split: option.split)
    then show ?thesis
      using Some tr' use act \<open>csTable cs tid = Some t\<close> by (auto simp: Delete_def IsInserted_iff)
  next
    case None
    show ?thesis
    proof (cases "rowsOf t rid = None \<or> rid \<in> delsOf (tr_tx tr) tid")
      case True
      then have "viewRows t (tr_tx tr) tid rid = None" using None by (auto simp: viewRows_def map_add_def restrict_map_def)
      then show ?thesis
        using True None use act Some inv by (auto simp: Delete_def IsInserted_iff IsDeleted_iff rowView_def)
    next
      case False
      then obtain x where x: "rowsOf t rid = Some x" by auto
      let ?tr = "tr\<lparr>tr_tx := AddDelete (tr_tx tr) tid rid\<rparr>"
      have "rid \<in> dom (rowsOf t)" using x by blast
      note d = addDelete_inv [OF inv Some this]
      have "view_delete cs tid tr ?tr rid x"
        using d(2) Some x None False by (auto simp: view_delete_def viewRows_eq_Some)
      then show ?thesis
        using False None use act Some x d(1) by (auto simp: Delete_def IsInserted_iff IsDeleted_iff rowView_def)
    qed
  qed
qed

lemma updateOldRow_ok:
  assumes inv: "tx_inv cs tr" and t: "csTable cs tid = Some t"
  shows "updateOldRow cs tr tid rid =
    (case viewRows t (tr_tx tr) tid rid of None \<Rightarrow> Inl (ErrRowNotFound rid) | Some x \<Rightarrow> Inr x)"
  using t by (cases "insOf (tr_tx tr) tid rid"; cases "rowsOf t rid")
    (auto simp: updateOldRow_def IsInserted_iff IsDeleted_iff txInsert_eq GetRow_eq [OF tx_inv_table(1) [OF inv t]]
      viewRows_def map_add_def restrict_map_def)

text \<open>Undoing the deletion of a row restores the view it was deleted from.\<close>

lemma undo_insert_ok:
  assumes inv: "tx_inv cs tr" and inv': "tx_inv cs tr'" and t: "csTable cs tid = Some t"
    and row: "insOf (tr_tx tr) tid rid = Some x" and tx: "tr_tx tr' = RemoveInsert (tr_tx tr) tid rid"
    and n: "tr_nextRowIDs tr' = tr_nextRowIDs tr" "tr_sequences tr' = tr_sequences tr"
  shows "\<exists>tr2. addInsert tr' tid rid x t = Some tr2 \<and> tx_inv cs tr2 \<and> same_view tr tr2 \<and> tr_state tr2 = tr_state tr'"
proof -
  note tbl = tx_inv_table(5) [OF inv t]
  have wf: "row_wf (t_schema t) x" using tbl row by (auto simp: tx_table_ok_def intro: ranI)
  have committed: "rowsOf t rid = None" using tbl row by (auto simp: tx_table_ok_def)
  have view: "(viewRows t (tr_tx tr') tid)(rid \<mapsto> x) = viewRows t (tr_tx tr) tid"
    using row by (auto simp: tx viewRows_def map_add_def fun_eq_iff split: option.split)
  have next_eq: "nextRowID tr' tid t = nextRowID tr tid t" by (simp add: nextRowID_def n)
  have "rid < nextRowID tr tid t" "t_nextID t \<le> rid" "rows_ok (t_schema t) (viewRows t (tr_tx tr) tid)"
    using tbl row by (auto simp: tx_table_ok_def)
  then obtain tr2 where tr2: "addInsert tr' tid rid x t = Some tr2" "tx_inv cs tr2" "tr_tx tr2 = AddInsert (tr_tx tr') tid rid x"
    "tr_state tr2 = tr_state tr'" "tr_nextRowIDs tr2 = tr_nextRowIDs tr'" "tr_sequences tr2 = tr_sequences tr'"
    using addInsert_ok [OF inv' t wf, of rid] tx committed view next_eq by auto
  have "same_view tr tr2"
    using tr2(3,5,6) tx n row productCopy_wf [OF wf] by (auto simp: same_view_def fun_eq_iff)
  then show ?thesis using tr2 by blast
qed

lemma undo_delete_ok:
  assumes inv: "tx_inv cs tr" and inv': "tx_inv cs tr'" and t: "csTable cs tid = Some t"
    and row: "rowsOf t rid = Some x" "rid \<notin> delsOf (tr_tx tr) tid" and tx: "tr_tx tr' = AddDelete (tr_tx tr) tid rid"
    and n: "tr_nextRowIDs tr' = tr_nextRowIDs tr" "tr_sequences tr' = tr_sequences tr"
  shows "tx_inv cs (tr'\<lparr>tr_tx := CancelDelete (tr_tx tr') tid rid\<rparr>)"
    "same_view tr (tr'\<lparr>tr_tx := CancelDelete (tr_tx tr') tid rid\<rparr>)"
proof -
  note tbl = tx_inv_table(5) [OF inv t]
  have "insOf (tr_tx tr) tid rid = None" using tbl row(1) by (auto simp: tx_table_ok_def)
  then have "(viewRows t (tr_tx tr') tid)(rid \<mapsto> x) = viewRows t (tr_tx tr) tid"
    using row by (auto simp: tx viewRows_def map_add_def restrict_map_def fun_eq_iff split: option.split)
  then have "rows_ok (t_schema t) ((viewRows t (tr_tx tr') tid)(rid \<mapsto> x))" using tbl by (simp add: tx_table_ok_def)
  from cancelDelete_inv(1) [OF inv' t row(1) _ this] show "tx_inv cs (tr'\<lparr>tr_tx := CancelDelete (tr_tx tr') tid rid\<rparr>)"
    by (simp add: tx)
  show "same_view tr (tr'\<lparr>tr_tx := CancelDelete (tr_tx tr') tid rid\<rparr>)"
    using row(2) n by (auto simp: same_view_def tx fun_eq_iff)
qed

lemma same_view_refl [simp]: "same_view tr tr"
  by (simp add: same_view_def)

lemma Update_ok:
  assumes inv: "tx_inv cs tr" and act: "tr_state tr = TransactionActive" and vals: "values_ok newRow"
  shows "\<exists>tr' res. Update cs tr tid rid newRow = Some (tr', res) \<and> tx_inv cs tr' \<and> tr_state tr' = TransactionActive \<and>
    (case res of Inl e \<Rightarrow> same_view tr tr'
     | Inr newID \<Rightarrow> \<exists>tr1 x. view_delete cs tid tr tr1 rid x \<and> insert_done cs tr1 tid newRow tr' newID)"
proof (cases "csTable cs tid")
  case None
  have "insOf (tr_tx tr) tid = Map.empty" using inv None by (simp add: tx_inv_def)
  then show ?thesis using inv act None by (simp add: Update_def checkUsable_def updateOldRow_def IsInserted_iff)
next
  case (Some t)
  have use: "checkUsable tr = None" using act by (simp add: checkUsable_def)
  note old = updateOldRow_ok [OF inv Some, of rid]
  show ?thesis
  proof (cases "viewRows t (tr_tx tr) tid rid")
    case None
    then show ?thesis using old inv act use by (simp add: Update_def)
  next
    case row: (Some x)
    obtain tr1 err where d: "Delete cs tr tid rid = Some (tr1, err)" "tx_inv cs tr1" "tr_state tr1 = TransactionActive"
      and err: "case err of None \<Rightarrow> \<exists>x. view_delete cs tid tr tr1 rid x
        | Some e \<Rightarrow> tr1 = tr \<and> (case csTable cs tid of None \<Rightarrow> e = ErrTableNotFound tid
            | Some t \<Rightarrow> e = ErrRowNotFound rid \<and> viewRows t (tr_tx tr) tid rid = None)"
      using Delete_ok [OF inv act] by blast
    have noerr: "err = None" using err row Some by (cases err) auto
    then obtain y where vd: "view_delete cs tid tr tr1 rid y" using err by auto
    obtain tr2 res where i: "Insert cs tr1 tid newRow = Some (tr2, res)" "tx_inv cs tr2" "tr_state tr2 = TransactionActive"
      and res: "case res of Inl e \<Rightarrow> same_core tr1 tr2 \<and> insert_refused cs tr1 tid newRow e
        | Inr newID \<Rightarrow> insert_done cs tr1 tid newRow tr2 newID"
      using Insert_ok [OF d(2,3) vals] by blast
    show ?thesis
    proof (cases res)
      case (Inr newID)
      then show ?thesis using old row use d(1) noerr i res vd by (auto simp: Update_def)
    next
      case (Inl e)
      then have core: "same_core tr1 tr2" using res by simp
      show ?thesis
      proof (cases "insOf (tr_tx tr) tid rid")
        case (Some z)
        then have z: "z = x" using row by (simp add: viewRows_def)
        have tr1: "tr_tx tr1 = RemoveInsert (tr_tx tr) tid rid" "tr_nextRowIDs tr1 = tr_nextRowIDs tr" "tr_sequences tr1 = tr_sequences tr"
          using d(1) noerr use \<open>csTable cs tid = Some t\<close> Some removeInsert_ok [OF inv \<open>csTable cs tid = Some t\<close> Some]
          by (auto simp: Delete_def IsInserted_iff domIff)
        obtain tr3 where tr3: "addInsert tr2 tid rid x t = Some tr3" "tx_inv cs tr3" "same_view tr tr3" "tr_state tr3 = tr_state tr2"
          using undo_insert_ok [OF inv i(2) \<open>csTable cs tid = Some t\<close> Some] core tr1 z by (auto simp: same_core_def)
        then show ?thesis
          using Inl old row use d(1) noerr i Some \<open>csTable cs tid = Some t\<close> by (auto simp: Update_def IsInserted_iff domIff)
      next
        case None
        then have c: "rowsOf t rid = Some x" "rid \<notin> delsOf (tr_tx tr) tid" using row by (auto simp: viewRows_eq_Some)
        then have tr1: "tr1 = tr\<lparr>tr_tx := AddDelete (tr_tx tr) tid rid\<rparr>"
          using d(1) noerr use Some None by (auto simp: Delete_def IsInserted_iff IsDeleted_iff rowView_def domIff)
        have "tr_tx tr2 = AddDelete (tr_tx tr) tid rid" "tr_nextRowIDs tr2 = tr_nextRowIDs tr" "tr_sequences tr2 = tr_sequences tr"
          using core tr1 by (simp_all add: same_core_def)
        from undo_delete_ok [OF inv i(2) Some c this] show ?thesis
          using Inl old row use d(1) noerr i None by (auto simp: Update_def IsInserted_iff domIff)
      qed
    qed
  qed
qed

section \<open>Histories of a transaction\<close>

datatype tx_op = TxInsert tableID productValue | TxDelete tableID rowID | TxUpdate tableID rowID productValue

text \<open>An operation of the reducer: the transaction after it and whether it succeeded.\<close>

fun tx_step :: "committedState \<Rightarrow> transaction \<Rightarrow> tx_op \<Rightarrow> (transaction \<times> bool) option" where
  "tx_step cs tr (TxInsert tid row) = do { (tr, res) \<leftarrow> Insert cs tr tid row; Some (tr, \<not> isl res) }"
| "tx_step cs tr (TxDelete tid rid) = do { (tr, err) \<leftarrow> Delete cs tr tid rid; Some (tr, err = None) }"
| "tx_step cs tr (TxUpdate tid rid row) = do { (tr, res) \<leftarrow> Update cs tr tid rid row; Some (tr, \<not> isl res) }"

fun tx_run :: "committedState \<Rightarrow> transaction \<Rightarrow> tx_op list \<Rightarrow> (transaction \<times> bool list) option" where
  "tx_run cs tr [] = Some (tr, [])"
| "tx_run cs tr (x # ops) = do {
     (tr, ok) \<leftarrow> tx_step cs tr x; (tr, oks) \<leftarrow> tx_run cs tr ops; Some (tr, ok # oks)
   }"

primrec tx_op_ok :: "tx_op \<Rightarrow> bool" where
  "tx_op_ok (TxInsert tid row) = values_ok row"
| "tx_op_ok (TxDelete tid rid) = True"
| "tx_op_ok (TxUpdate tid rid row) = values_ok row"

lemma same_core_view: "same_core tr tr' \<Longrightarrow> same_view tr tr'"
  by (simp add: same_core_def same_view_def)

lemma tx_step_ok:
  assumes inv: "tx_inv cs tr" "tr_state tr = TransactionActive" and ok: "tx_op_ok x"
  shows "\<exists>tr' b. tx_step cs tr x = Some (tr', b) \<and> tx_inv cs tr' \<and> tr_state tr' = TransactionActive \<and> (\<not> b \<longrightarrow> same_view tr tr')"
proof (cases x)
  case (TxInsert tid row)
  with Insert_ok [OF inv, of row tid] ok show ?thesis by (fastforce simp: same_core_view split: sum.splits)
next
  case (TxDelete tid rid)
  with Delete_ok [OF inv, of tid rid] show ?thesis by (fastforce split: option.splits)
next
  case (TxUpdate tid rid row)
  with Update_ok [OF inv, of row tid rid] ok show ?thesis by (fastforce split: sum.splits)
qed

lemma tx_run_ok:
  "tx_inv cs tr \<Longrightarrow> tr_state tr = TransactionActive \<Longrightarrow> list_all tx_op_ok ops \<Longrightarrow>
   \<exists>tr' oks. tx_run cs tr ops = Some (tr', oks) \<and> tx_inv cs tr' \<and> tr_state tr' = TransactionActive \<and>
     (True \<notin> set oks \<longrightarrow> same_view tr tr')"
proof (induction ops arbitrary: tr)
  case (Cons x ops)
  obtain tr1 b where s: "tx_step cs tr x = Some (tr1, b)" "tx_inv cs tr1" "tr_state tr1 = TransactionActive" "\<not> b \<longrightarrow> same_view tr tr1"
    using tx_step_ok [OF Cons.prems(1,2), of x] Cons.prems(3) by auto
  obtain tr2 oks where r: "tx_run cs tr1 ops = Some (tr2, oks)" "tx_inv cs tr2" "tr_state tr2 = TransactionActive"
    "True \<notin> set oks \<longrightarrow> same_view tr1 tr2"
    using Cons.IH [OF s(2,3)] Cons.prems(3) by auto
  then show ?case using s by (auto simp: same_view_def)
qed simp

section \<open>Properties\<close>

lemma trScanTable_view:
  assumes "tx_inv cs tr" "tr_state tr = TransactionActive" "csTable cs tid = Some t"
  shows "distinct (map fst (trScanTable cs tr tid))" "map_of (trScanTable cs tr tid) = viewRows t (tr_tx tr) tid"
proof -
  have scan: "trScanTable cs tr tid = svScanTable (NewStateView (Some cs) (Some (tr_tx tr))) tid"
    using assms(2) by (simp add: trScanTable_def checkUsable_def)
  note v = svScanTable_view [OF tx_inv_table(6) [OF assms(1,3)] assms(3)]
  show "distinct (map fst (trScanTable cs tr tid))" using v(1) scan by simp
  then show "map_of (trScanTable cs tr tid) = viewRows t (tr_tx tr) tid"
  proof (intro ext)
    fix r show "map_of (trScanTable cs tr tid) r = viewRows t (tr_tx tr) tid r"
      using v scan by (cases "viewRows t (tr_tx tr) tid r") (auto simp: map_of_eq_None_iff)
  qed
qed

lemma trGetRow_view:
  assumes "tx_inv cs tr" "tr_state tr = TransactionActive"
  shows "trGetRow cs tr tid rid = (case csTable cs tid of None \<Rightarrow> None | Some t \<Rightarrow> viewRows t (tr_tx tr) tid rid)"
proof (cases "csTable cs tid")
  case None
  then have "insOf (tr_tx tr) tid = Map.empty" using assms(1) by (simp add: tx_inv_def)
  then show ?thesis using None assms(2)
    by (simp add: trGetRow_def checkUsable_def svGetRow_def NewStateView_def txInsert_eq)
next
  case (Some t)
  then show ?thesis
    using svGetRow_view [OF tx_inv_table(6) [OF assms(1) Some] Some] assms(2) by (simp add: trGetRow_def checkUsable_def)
qed

text \<open>The committed state of the examples: one table, empty.\<close>

definition exampleState :: committedState where
  "exampleState = RegisterTable NewCommittedState 7 (NewTable exampleSchema)"

lemma exampleState_table: "csTable exampleState tid = (if tid = 7 then Some (NewTable exampleSchema) else None)"
  by (simp add: exampleState_def csTable_def tableLocked_def RegisterTable_def NewCommittedState_def)

lemma exampleState_inv: "cs_inv exampleState"
proof -
  have "alloc_ok (NewTable exampleSchema)" "seq_wf (NewTable exampleSchema)" "t_rows (NewTable exampleSchema) = []"
    by (simp_all add: alloc_ok_def seq_wf_def NewTable_def exampleSchema_def)
  moreover have "distinct (map fst (cs_tables exampleState))"
    by (simp add: exampleState_def RegisterTable_def NewCommittedState_def)
  ultimately show ?thesis by (simp add: cs_inv_def exampleState_table tbl_inv_NewTable split: if_splits)
qed

lemma tagRow_values_ok: "values_ok (tagRow n r)"
  by (rule row_wf_values_ok [OF tagRow_wf])

text \<open>
  C11. Transactions are safe. Whatever operations a reducer issues on a well-formed committed
  state, with values the constructors build, none panics, and at the end every table shows each
  row identifier once and rows that satisfy the constraints of its schema: no two visible rows
  share a unique key, and in a table without a primary key no two are equal.
\<close>

theorem transaction_safe:
  assumes "cs_inv cs" "list_all tx_op_ok ops"
  shows "\<exists>tr oks. tx_run cs NewTransaction ops = Some (tr, oks) \<and>
    (\<forall>tid t. csTable cs tid = Some t \<longrightarrow>
      distinct (map fst (trScanTable cs tr tid)) \<and> rows_ok (t_schema t) (map_of (trScanTable cs tr tid)))"
proof -
  have "tr_state NewTransaction = TransactionActive" by (simp add: NewTransaction_def)
  from tx_run_ok [OF tx_inv_New [OF assms(1)] this assms(2)] obtain tr oks where
    tr: "tx_run cs NewTransaction ops = Some (tr, oks)" "tx_inv cs tr" "tr_state tr = TransactionActive" by blast
  have "rows_ok (t_schema t) (viewRows t (tr_tx tr) tid)" if "csTable cs tid = Some t" for tid t
    using tx_inv_table(5) [OF tr(2) that] by (simp add: tx_table_ok_def)
  then show ?thesis using tr trScanTable_view [OF tr(2,3)] by auto
qed

theorem transaction_safe_witness:
  "\<exists>tr oks. tx_run exampleState NewTransaction
      [TxInsert 7 (tagRow 0 3), TxInsert 7 (tagRow 1 4), TxUpdate 7 1 (tagRow 9 9), TxDelete 7 5] = Some (tr, oks) \<and>
    distinct (map fst (trScanTable exampleState tr 7)) \<and> rows_ok exampleSchema (map_of (trScanTable exampleState tr 7))"
proof -
  let ?ops = "[TxInsert 7 (tagRow 0 3), TxInsert 7 (tagRow 1 4), TxUpdate 7 1 (tagRow 9 9), TxDelete 7 5]"
  have ok: "list_all tx_op_ok ?ops" by (simp add: tagRow_values_ok)
  have t: "csTable exampleState 7 = Some (NewTable exampleSchema)" "t_schema (NewTable exampleSchema) = exampleSchema"
    by (simp_all add: exampleState_table NewTable_def)
  from transaction_safe [OF exampleState_inv ok] show ?thesis using t by metis
qed



text \<open>
  C21. A refused update leaves no trace. When \<open>Update\<close> reports an error, whether it met an unknown
  row or the new row was refused after the old one had been deleted, every read of the
  transaction and the buffers returned to the executor are as before.
\<close>

theorem update_rolls_back:
  assumes "tx_inv cs tr" "tr_state tr = TransactionActive" "values_ok row" "Update cs tr tid rid row = Some (tr', Inl e)"
  shows "trGetRow cs tr' = trGetRow cs tr \<and> insOf (tr_tx tr') = insOf (tr_tx tr) \<and> delsOf (tr_tx tr') = delsOf (tr_tx tr) \<and>
    tr_nextRowIDs tr' = tr_nextRowIDs tr \<and> tr_sequences tr' = tr_sequences tr"
proof -
  have ok: "tx_inv cs tr'" "tr_state tr' = TransactionActive" "same_view tr tr'"
    using Update_ok [OF assms(1-3), of tid rid] assms(4) by auto
  then have "trGetRow cs tr' u r = trGetRow cs tr u r" for u r
    using trGetRow_view [OF assms(1,2)] trGetRow_view [OF ok(1,2)] by (simp add: same_view_def viewRows_def split: option.split)
  then show ?thesis using ok(3) by (auto simp: same_view_def)
qed

theorem update_rolls_back_witness:
  "\<exists>tr'. Update exampleState NewTransaction 7 3 (tagRow 5 2) = Some (tr', Inl (ErrRowNotFound 3)) \<and>
    trGetRow exampleState tr' = trGetRow exampleState NewTransaction"
proof -
  let ?tr = "NewTransaction"
  have act: "tr_state ?tr = TransactionActive" by (simp add: NewTransaction_def)
  have run: "Update exampleState ?tr 7 3 (tagRow 5 2) = Some (?tr, Inl (ErrRowNotFound 3))"
    using updateOldRow_ok [OF tx_inv_New [OF exampleState_inv], of 7 "NewTable exampleSchema" 3]
    by (simp add: exampleState_table Update_def checkUsable_def act viewRows_def NewTransaction_def NewTable_def)
  from update_rolls_back [OF tx_inv_New [OF exampleState_inv] act tagRow_values_ok this] run show ?thesis by blast
qed

end
