(* ===== verification/Commit.thy ===== *)
theory Commit
  imports Transaction "HOL-Library.Multiset"
begin

text \<open>
  Committing a transaction (\<^verbatim>\<open>src/store/commit.go\<close>, \<^verbatim>\<open>changeset.go\<close>): constraint revalidation
  under the write lock, the changeset, the validation callback and the application to the tables.
  Table pointers of the committed state are updated in place, which is storing the new table
  under its identifier. The callback is an argument.
\<close>

section \<open>Changesets\<close>

record tableChangeset =
  tc_tableID :: tableID
  tc_tableName :: string
  tc_schema :: "tableSchema option"
  tc_inserts :: "productValue list"
  tc_deletes :: "productValue list"

text \<open>A table of the map may be a nil pointer.\<close>

record changeset =
  ch_txID :: txID
  ch_tables :: "(tableID \<times> tableChangeset option) list"

definition IsEmpty :: "changeset option \<Rightarrow> bool" where
  "IsEmpty cs = (case cs of None \<Rightarrow> True
     | Some cs \<Rightarrow> list_all (\<lambda>(tid, tc). case tc of None \<Rightarrow> True
         | Some tc \<Rightarrow> \<not> (length (tc_inserts tc) > 0 \<or> length (tc_deletes tc) > 0)) (ch_tables cs))"

definition TableChanges :: "changeset option \<Rightarrow> tableID \<Rightarrow> tableChangeset option" where
  "TableChanges cs tid = (case cs of None \<Rightarrow> None
     | Some cs \<Rightarrow> (case map_of (ch_tables cs) tid of None \<Rightarrow> None | Some tc \<Rightarrow> tc))"

text \<open>The changeset after the call and the table changeset it returns.\<close>

definition ensureTableChangeset :: "changeset \<Rightarrow> tableID \<Rightarrow> tableSchema option \<Rightarrow> changeset \<times> tableChangeset" where
  "ensureTableChangeset cs tid ts =
     (case TableChanges (Some cs) tid of
        None \<Rightarrow>
          let tc = \<lparr>tc_tableID = tid, tc_tableName = (case ts of None \<Rightarrow> '''' | Some ts \<Rightarrow> ts_name ts), tc_schema = ts,
                    tc_inserts = [], tc_deletes = []\<rparr>
          in (cs\<lparr>ch_tables := AList.update tid (Some tc) (ch_tables cs)\<rparr>, tc)
      | Some tc \<Rightarrow>
          if tc_schema tc = None
          then let tc = tc\<lparr>tc_schema := ts\<rparr> in (cs\<lparr>ch_tables := AList.update tid (Some tc) (ch_tables cs)\<rparr>, tc)
          else (cs, tc))"

definition sortedCommitMapKeys :: "('k::linorder \<times> 'v) list \<Rightarrow> 'k list" where
  "sortedCommitMapKeys m = (if length m = 0 then [] else sort (map fst m))"

section \<open>Preparing the changeset\<close>

fun deletedRows :: "table \<Rightarrow> rowID list \<Rightarrow> store_error + productValue list" where
  "deletedRows t [] = Inr []"
| "deletedRows t (rid # rids) =
     (case rowView t rid of
        None \<Rightarrow> Inl (ErrRowNotFound rid)
      | Some oldRow \<Rightarrow> bindE (deletedRows t rids) (\<lambda>rows. Inr (productCopy oldRow # rows)))"

definition rowAt :: "insertMap \<Rightarrow> rowID \<Rightarrow> productValue" where
  "rowAt m rid = (case map_of m rid of None \<Rightarrow> [] | Some row \<Rightarrow> row)"

fun prepareDeletes :: "committedState \<Rightarrow> (tableID \<times> deleteMap) list \<Rightarrow> tableID list \<Rightarrow> changeset \<Rightarrow>
    store_error + changeset" where
  "prepareDeletes cs deletes [] ch = Inr ch"
| "prepareDeletes cs deletes (tid # tids) ch =
     (case tableLocked cs tid of
        None \<Rightarrow> Inl (ErrTableNotFound tid)
      | Some t \<Rightarrow>
          let (ch, tc) = ensureTableChangeset ch tid (Some (t_schema t))
          in bindE (deletedRows t (sortedCommitMapKeys (bucketOf deletes tid))) (\<lambda>rows.
               prepareDeletes cs deletes tids
                 (ch\<lparr>ch_tables := AList.update tid (Some (tc\<lparr>tc_deletes := tc_deletes tc @ rows\<rparr>)) (ch_tables ch)\<rparr>)))"

fun prepareInserts :: "committedState \<Rightarrow> (tableID \<times> insertMap) list \<Rightarrow> tableID list \<Rightarrow> changeset \<Rightarrow>
    store_error + changeset" where
  "prepareInserts cs inserts [] ch = Inr ch"
| "prepareInserts cs inserts (tid # tids) ch =
     (case tableLocked cs tid of
        None \<Rightarrow> Inl (ErrTableNotFound tid)
      | Some t \<Rightarrow>
          let (ch, tc) = ensureTableChangeset ch tid (Some (t_schema t));
              ins = bucketOf inserts tid;
              rows = map (\<lambda>rid. productCopy (rowAt ins rid)) (sortedCommitMapKeys ins)
          in prepareInserts cs inserts tids
               (ch\<lparr>ch_tables := AList.update tid (Some (tc\<lparr>tc_inserts := tc_inserts tc @ rows\<rparr>)) (ch_tables ch)\<rparr>))"

definition prepareChangeset :: "committedState \<Rightarrow> txState \<Rightarrow> store_error + changeset" where
  "prepareChangeset cs tx =
     bindE (prepareDeletes cs (allTableDeletes tx) (sortedCommitMapKeys (allTableDeletes tx))
              \<lparr>ch_txID = 0, ch_tables = []\<rparr>)
       (prepareInserts cs (allTableInserts tx) (sortedCommitMapKeys (allTableInserts tx)))"

section \<open>Applying the transaction\<close>

definition putTable :: "committedState \<Rightarrow> tableID \<Rightarrow> table \<Rightarrow> committedState" where
  "putTable cs tid t = cs\<lparr>cs_tables := AList.update tid t (cs_tables cs)\<rparr>"

text \<open>A loop over tables that stops at the first error; the mutations before it remain.\<close>

fun forTables :: "(tableID \<Rightarrow> table \<Rightarrow> (table \<times> store_error option) option) \<Rightarrow> tableID list \<Rightarrow> committedState \<Rightarrow>
    (committedState \<times> store_error option) option" where
  "forTables f [] cs = Some (cs, None)"
| "forTables f (tid # tids) cs =
     (case tableLocked cs tid of
        None \<Rightarrow> Some (cs, Some (ErrTableNotFound tid))
      | Some t \<Rightarrow> do {
          (t, err) \<leftarrow> f tid t;
          case err of
            Some e \<Rightarrow> Some (putTable cs tid t, Some e)
          | None \<Rightarrow> forTables f tids (putTable cs tid t)
        })"

fun deleteRows :: "table \<Rightarrow> rowID list \<Rightarrow> (table \<times> store_error option) option" where
  "deleteRows t [] = Some (t, None)"
| "deleteRows t (rid # rids) = do {
     (t, old) \<leftarrow> DeleteRow t rid;
     if old = None then Some (t, Some (ErrRowNotFound rid)) else deleteRows t rids
   }"

fun insertRows :: "insertMap \<Rightarrow> table \<Rightarrow> rowID list \<Rightarrow> (table \<times> store_error option) option" where
  "insertRows m t [] = Some (t, None)"
| "insertRows m t (rid # rids) = do {
     (t, err) \<leftarrow> InsertRow t rid (rowAt m rid);
     case err of Some e \<Rightarrow> Some (t, Some e) | None \<Rightarrow> insertRows m t rids
   }"

text \<open>The counter of a table: the map lookup yields zero for a missing key.\<close>

definition counterAt :: "(tableID \<times> u64) list \<Rightarrow> tableID \<Rightarrow> u64" where
  "counterAt m tid = (case map_of m tid of None \<Rightarrow> 0 | Some n \<Rightarrow> n)"

definition applyDeletes :: "txState \<Rightarrow> committedState \<Rightarrow> (committedState \<times> store_error option) option" where
  "applyDeletes tx = forTables (\<lambda>tid t. deleteRows t (sortedCommitMapKeys (bucketOf (allTableDeletes tx) tid)))
     (sortedCommitMapKeys (allTableDeletes tx))"

definition applyInserts :: "txState \<Rightarrow> committedState \<Rightarrow> (committedState \<times> store_error option) option" where
  "applyInserts tx = forTables (\<lambda>tid t.
       if ts_isEvent (t_schema t) then Some (t, None)
       else insertRows (bucketOf (allTableInserts tx) tid) t (sortedCommitMapKeys (bucketOf (allTableInserts tx) tid)))
     (sortedCommitMapKeys (allTableInserts tx))"

definition applyNextIDs :: "transaction \<Rightarrow> committedState \<Rightarrow> (committedState \<times> store_error option) option" where
  "applyNextIDs tr = forTables (\<lambda>tid t.
       if ts_isEvent (t_schema t) then Some (t, None) else Some (SetNextID t (counterAt (tr_nextRowIDs tr) tid), None))
     (sortedCommitMapKeys (tr_nextRowIDs tr))"

definition applySequences :: "transaction \<Rightarrow> committedState \<Rightarrow> (committedState \<times> store_error option) option" where
  "applySequences tr = forTables (\<lambda>tid t.
       if ts_isEvent (t_schema t) then Some (t, None) else Some (SetSequenceValue t (counterAt (tr_sequences tr) tid), None))
     (sortedCommitMapKeys (tr_sequences tr))"

definition andThen :: "(committedState \<times> store_error option) option \<Rightarrow>
    (committedState \<Rightarrow> (committedState \<times> store_error option) option) \<Rightarrow> (committedState \<times> store_error option) option" where
  "andThen m f = do { (cs, err) \<leftarrow> m; case err of Some e \<Rightarrow> Some (cs, Some e) | None \<Rightarrow> f cs }"

definition applyCommit :: "committedState \<Rightarrow> transaction \<Rightarrow> (committedState \<times> store_error option) option" where
  "applyCommit cs tr =
     andThen (andThen (andThen (applyDeletes (tr_tx tr) cs) (applyInserts (tr_tx tr))) (applyNextIDs tr)) (applySequences tr)"

section \<open>Revalidation\<close>

definition revalidateInsertRowID :: "tableID \<Rightarrow> table \<Rightarrow> rowID \<Rightarrow> txState \<Rightarrow> store_error option" where
  "revalidateInsertRowID tid t rid tx =
     (if ts_isEvent (t_schema t) then None
      else if IsDeleted tx tid rid then None
      else if rowView t rid \<noteq> None then Some (ErrDuplicateRowID rid)
      else None)"

type_synonym pendingUnique = "((tableID \<times> nat) \<times> (u64 \<times> indexKey list) list) list"
type_synonym pendingRows = "(tableID \<times> (u64 \<times> productValue list) list) list"

text \<open>The loop over unique indexes, from ordinal \<open>i\<close>.\<close>

fun pendingLoop :: "tableID \<Rightarrow> table \<Rightarrow> productValue \<Rightarrow> nat \<Rightarrow> index list \<Rightarrow> pendingUnique \<Rightarrow>
    (pendingUnique \<times> store_error option) option" where
  "pendingLoop tid t row i [] pu = Some (pu, None)"
| "pendingLoop tid t row i (idx # idxs) pu =
     (if \<not> ix_unique (idx_schema idx) then pendingLoop tid t row (Suc i) idxs pu
      else do {
        key \<leftarrow> idxExtractKey idx row;
        let buckets = bucketOf pu (tid, i);
        h \<leftarrow> keyHash64 key;
        hit \<leftarrow> anyO (keyEqual key) (bucketOf buckets h);
        if hit then Some (pu, Some (uniqueViolationError t idx key))
        else pendingLoop tid t row (Suc i) idxs
               (AList.update (tid, i) (AList.update h (bucketOf buckets h @ [key]) buckets) pu)
      })"

definition revalidateInsertAgainstPending ::
  "tableID \<Rightarrow> table \<Rightarrow> productValue \<Rightarrow> pendingUnique \<times> pendingRows \<Rightarrow>
   ((pendingUnique \<times> pendingRows) \<times> store_error option) option" where
  "revalidateInsertAgainstPending tid t row pending =
     (case pending of (pu, pr) \<Rightarrow> do {
        (pu, err) \<leftarrow> pendingLoop tid t row 0 (t_indexes t) pu;
        case err of Some e \<Rightarrow> Some ((pu, pr), Some e)
        | None \<Rightarrow>
            if t_rowHashIndex t = None then Some ((pu, pr), None)
            else do {
              h \<leftarrow> productHash64 row;
              let buckets = bucketOf pr tid;
              if list_ex (\<lambda>prior. productEqual prior row) (bucketOf buckets h)
              then Some ((pu, pr), Some ErrDuplicateRow)
              else Some ((pu, AList.update tid (AList.update h (bucketOf buckets h @ [row]) buckets) pr), None)
            }
      })"

fun committedLoop :: "tableID \<Rightarrow> table \<Rightarrow> productValue \<Rightarrow> txState \<Rightarrow> index list \<Rightarrow> store_error option option" where
  "committedLoop tid t row tx [] = Some None"
| "committedLoop tid t row tx (idx # idxs) =
     (if \<not> ix_unique (idx_schema idx) then committedLoop tid t row tx idxs
      else do {
        key \<leftarrow> idxExtractKey idx row;
        ids \<leftarrow> btRowIDs (idx_btree idx) key;
        if list_ex (\<lambda>rid. \<not> IsDeleted tx tid rid) ids then Some (Some (uniqueViolationError t idx key))
        else committedLoop tid t row tx idxs
      })"

definition revalidateInsertAgainstCommitted ::
  "tableID \<Rightarrow> table \<Rightarrow> productValue \<Rightarrow> txState \<Rightarrow> store_error option option" where
  "revalidateInsertAgainstCommitted tid t row tx =
     (if ts_isEvent (t_schema t) then Some None
      else do {
        err \<leftarrow> committedLoop tid t row tx (t_indexes t);
        case err of Some e \<Rightarrow> Some (Some e)
        | None \<Rightarrow>
            (case t_rowHashIndex t of
               None \<Rightarrow> Some None
             | Some m \<Rightarrow> do {
                 h \<leftarrow> productHash64 row;
                 Some (if list_ex (\<lambda>rid. \<not> IsDeleted tx tid rid \<and>
                            (case rowView t rid of None \<Rightarrow> False | Some existing \<Rightarrow> productEqual existing row)) (bucketOf m h)
                       then Some ErrDuplicateRow else None)
               })
      })"

fun revalidateDeletes :: "committedState \<Rightarrow> (tableID \<times> deleteMap) list \<Rightarrow> tableID list \<Rightarrow> store_error option" where
  "revalidateDeletes cs deletes [] = None"
| "revalidateDeletes cs deletes (tid # tids) =
     (case tableLocked cs tid of
        None \<Rightarrow> Some (ErrTableNotFound tid)
      | Some t \<Rightarrow>
          (case List.find (\<lambda>rid. rowView t rid = None) (sortedCommitMapKeys (bucketOf deletes tid)) of
             Some rid \<Rightarrow> Some (ErrRowNotFound rid)
           | None \<Rightarrow> revalidateDeletes cs deletes tids))"

fun revalidateRows :: "tableID \<Rightarrow> table \<Rightarrow> txState \<Rightarrow> insertMap \<Rightarrow> rowID list \<Rightarrow> pendingUnique \<times> pendingRows \<Rightarrow>
    ((pendingUnique \<times> pendingRows) \<times> store_error option) option" where
  "revalidateRows tid t tx m [] pending = Some (pending, None)"
| "revalidateRows tid t tx m (rid # rids) pending =
     (let row = rowAt m rid in
      case ValidateRow (t_schema t) row of Inl e \<Rightarrow> Some (pending, Some e)
      | Inr _ \<Rightarrow>
     (case revalidateInsertRowID tid t rid tx of Some e \<Rightarrow> Some (pending, Some e)
      | None \<Rightarrow> do {
          err \<leftarrow> revalidateInsertAgainstCommitted tid t row tx;
          case err of Some e \<Rightarrow> Some (pending, Some e)
          | None \<Rightarrow> do {
              (pending, err) \<leftarrow> revalidateInsertAgainstPending tid t row pending;
              case err of Some e \<Rightarrow> Some (pending, Some e)
              | None \<Rightarrow> revalidateRows tid t tx m rids pending
            }
        }))"

fun revalidateInserts :: "committedState \<Rightarrow> txState \<Rightarrow> tableID list \<Rightarrow> pendingUnique \<times> pendingRows \<Rightarrow>
    store_error option option" where
  "revalidateInserts cs tx [] pending = Some None"
| "revalidateInserts cs tx (tid # tids) pending =
     (case tableLocked cs tid of
        None \<Rightarrow> Some (Some (ErrTableNotFound tid))
      | Some t \<Rightarrow> do {
          let m = bucketOf (allTableInserts tx) tid;
          (pending, err) \<leftarrow> revalidateRows tid t tx m (sortedCommitMapKeys m) pending;
          case err of Some e \<Rightarrow> Some (Some e) | None \<Rightarrow> revalidateInserts cs tx tids pending
        })"

definition revalidateCommit :: "committedState \<Rightarrow> txState \<Rightarrow> store_error option option" where
  "revalidateCommit cs tx =
     (case revalidateDeletes cs (allTableDeletes tx) (sortedCommitMapKeys (allTableDeletes tx)) of
        Some e \<Rightarrow> Some (Some e)
      | None \<Rightarrow> revalidateInserts cs tx (sortedCommitMapKeys (allTableInserts tx)) ([], []))"

section \<open>Commit\<close>

text \<open>The committed state and the transaction after the call, and its result.\<close>

definition commitWithValidation ::
  "committedState \<Rightarrow> transaction \<Rightarrow> txID \<Rightarrow> bool \<Rightarrow> (changeset \<Rightarrow> store_error option) option \<Rightarrow>
   (committedState \<times> transaction \<times> (store_error + changeset)) option" where
  "commitWithValidation cs tr txID advanceHorizon validate =
     (if tr_state tr = TransactionRolledBack then Some (cs, tr, Inl ErrTransactionRolledBack)
      else if tr_state tr = TransactionCommitted then Some (cs, tr, Inl ErrTransactionClosed)
      else do {
        err \<leftarrow> revalidateCommit cs (tr_tx tr);
        case err of Some e \<Rightarrow> Some (cs, tr, Inl e)
        | None \<Rightarrow>
            (case prepareChangeset cs (tr_tx tr) of Inl e \<Rightarrow> Some (cs, tr, Inl e)
             | Inr ch \<Rightarrow>
                 let ch = (if advanceHorizon then ch\<lparr>ch_txID := txID\<rparr> else ch) in
                 (case (case validate of None \<Rightarrow> None | Some f \<Rightarrow> f ch) of Some e \<Rightarrow> Some (cs, tr, Inl e)
                  | None \<Rightarrow> do {
                      (cs, err) \<leftarrow> applyCommit cs tr;
                      case err of Some e \<Rightarrow> Some (cs, tr, Inl e)
                      | None \<Rightarrow>
                          Some ((if advanceHorizon then cs\<lparr>cs_committedTxID := txID\<rparr> else cs),
                                finishCommitted tr, Inr ch)
                    }))
      })"

definition CommitWithValidation where
  "CommitWithValidation cs tr validate = commitWithValidation cs tr 0 False validate"

definition CommitTx where
  "CommitTx cs tr = CommitWithValidation cs tr None"

definition CommitWithValidationAtTxID where
  "CommitWithValidationAtTxID cs tr txID validate = commitWithValidation cs tr txID True validate"

section \<open>Loops over tables\<close>

lemma sortedKeys_set [simp]: "set (sortedCommitMapKeys m) = fst ` set m"
  by (simp add: sortedCommitMapKeys_def)

lemma sortedKeys_distinct: "distinct (map fst m) \<Longrightarrow> distinct (sortedCommitMapKeys m)"
  by (simp add: sortedCommitMapKeys_def)

lemma csTable_putTable [simp]: "csTable (putTable cs tid t) = (csTable cs)(tid \<mapsto> t)"
  by (simp add: fun_eq_iff csTable_def tableLocked_def putTable_def update_conv')

text \<open>Two committed states with the same tables, up to the contents of each.\<close>

definition same_tables :: "committedState \<Rightarrow> committedState \<Rightarrow> bool" where
  "same_tables cs cs' \<longleftrightarrow> map fst (cs_tables cs') = map fst (cs_tables cs) \<and> cs_committedTxID cs' = cs_committedTxID cs"

lemma same_tables_refl [simp]: "same_tables cs cs"
  by (simp add: same_tables_def)

lemma same_tables_trans: "same_tables a b \<Longrightarrow> same_tables b c \<Longrightarrow> same_tables a c"
  by (simp add: same_tables_def)

lemma same_tables_put:
  assumes "csTable cs tid = Some t"
  shows "same_tables cs (putTable cs tid t')"
proof -
  have "tid \<in> fst ` set (cs_tables cs)" using assms by (force simp: csTable_def tableLocked_def dest: map_of_SomeD)
  then show ?thesis by (simp add: same_tables_def putTable_def update_keys)
qed

lemma forTables_ok:
  assumes "distinct tids"
    and "\<And>tid. tid \<in> set tids \<Longrightarrow> \<exists>t t'. csTable cs tid = Some t \<and> f tid t = Some (t', None) \<and> P tid t t'"
  shows "\<exists>cs'. forTables f tids cs = Some (cs', None) \<and> same_tables cs cs' \<and>
    (\<forall>tid \<in> set tids. \<exists>t t'. csTable cs tid = Some t \<and> csTable cs' tid = Some t' \<and> P tid t t') \<and>
    (\<forall>tid. tid \<notin> set tids \<longrightarrow> csTable cs' tid = csTable cs tid)"
  using assms
proof (induction tids arbitrary: cs)
  case (Cons tid tids)
  obtain t t' where t: "csTable cs tid = Some t" "f tid t = Some (t', None)" "P tid t t'" using Cons.prems(2) by force
  let ?cs = "putTable cs tid t'"
  have "\<exists>w w'. csTable ?cs u = Some w \<and> f u w = Some (w', None) \<and> P u w w'" if "u \<in> set tids" for u
    using Cons.prems(1) Cons.prems(2) [of u] that by auto
  from Cons.IH [OF _ this] Cons.prems(1) obtain cs' where cs': "forTables f tids ?cs = Some (cs', None)" "same_tables ?cs cs'"
    "\<forall>u \<in> set tids. \<exists>w w'. csTable ?cs u = Some w \<and> csTable cs' u = Some w' \<and> P u w w'"
    "\<forall>u. u \<notin> set tids \<longrightarrow> csTable cs' u = csTable ?cs u" by auto
  have run: "forTables f (tid # tids) cs = Some (cs', None)" using t cs'(1) by (simp add: csTable_def)
  have new: "csTable cs' tid = Some t'" using cs'(4) Cons.prems(1) by simp
  have "\<exists>w w'. csTable cs u = Some w \<and> csTable cs' u = Some w' \<and> P u w w'" if "u \<in> set (tid # tids)" for u
  proof (cases "u = tid")
    case True
    then show ?thesis using t new by simp
  next
    case False
    then show ?thesis using that cs'(3) by auto
  qed
  moreover have "csTable cs' u = csTable cs u" if "u \<notin> set (tid # tids)" for u using that cs'(4) by simp
  ultimately show ?case
    using run same_tables_trans [OF same_tables_put [OF t(1)] cs'(2)] by blast
qed simp

section \<open>Rows of one table\<close>

lemma deleteRows_ok:
  "tbl_inv t \<Longrightarrow> distinct rids \<Longrightarrow> set rids \<subseteq> dom (rowsOf t) \<Longrightarrow>
   \<exists>t'. deleteRows t rids = Some (t', None) \<and> tbl_inv t' \<and> same_frame t t' \<and> rowsOf t' = rowsOf t |` (- set rids)"
proof (induction rids arbitrary: t)
  case Nil
  then show ?case by (simp add: restrict_map_def)
next
  case (Cons rid rids)
  obtain t1 where t1: "DeleteRow t rid = Some (t1, rowsOf t rid)" "tbl_inv t1" "same_frame t t1"
    "t_rows t1 = AList.delete rid (t_rows t)"
    using DeleteRow_ok [OF Cons.prems(1)] by blast
  have rows: "rowsOf t1 = (rowsOf t)(rid := None)" using t1(4) by (simp add: delete_conv')
  have "set rids \<subseteq> dom (rowsOf t1)" using Cons.prems(2,3) by (auto simp: rows)
  from Cons.IH [OF t1(2) _ this] Cons.prems(2) obtain t2 where
    t2: "deleteRows t1 rids = Some (t2, None)" "tbl_inv t2" "same_frame t1 t2" "rowsOf t2 = rowsOf t1 |` (- set rids)" by auto
  have "rowsOf t2 = rowsOf t |` (- set (rid # rids))"
    unfolding t2(4) rows by (auto simp: restrict_map_def fun_eq_iff)
  moreover have "deleteRows t (rid # rids) = Some (t2, None)"
    using t1(1) t2(1) Cons.prems(3) by auto
  ultimately show ?case using t2(2) same_frame_trans [OF t1(3) t2(3)] by blast
qed

text \<open>The rows to insert, in order, conflict neither with the rows present nor with one another.\<close>

fun insertable :: "tableSchema \<Rightarrow> rowMap \<Rightarrow> (rowID \<times> productValue) list \<Rightarrow> bool" where
  "insertable ts rows [] \<longleftrightarrow> True"
| "insertable ts rows ((rid, row) # rest) \<longleftrightarrow>
     row_wf ts row \<and> rows rid = None \<and> rowConflict ts rows row = None \<and> insertable ts (rows(rid \<mapsto> row)) rest"

lemma insertRows_ok:
  "tbl_inv t \<Longrightarrow> insertable (t_schema t) (rowsOf t) (map (\<lambda>rid. (rid, rowAt m rid)) rids) \<Longrightarrow>
   \<exists>t'. insertRows m t rids = Some (t', None) \<and> tbl_inv t' \<and> same_frame t t' \<and>
     rowsOf t' = rowsOf t ++ (Some \<circ> rowAt m) |` set rids"
proof (induction rids arbitrary: t)
  case Nil
  then show ?case by (simp add: restrict_map_def map_add_def)
next
  case (Cons rid rids)
  let ?row = "rowAt m rid"
  have prems: "row_wf (t_schema t) ?row" "rowsOf t rid = None" "rowConflict (t_schema t) (rowsOf t) ?row = None"
    "insertable (t_schema t) ((rowsOf t)(rid \<mapsto> ?row)) (map (\<lambda>rid. (rid, rowAt m rid)) rids)"
    using Cons.prems(2) by simp_all
  have ok: "insert_error t rid ?row = None" using insert_error_conflict [OF Cons.prems(1)] prems(2,3) by simp
  obtain t1 where t1: "InsertRow t rid ?row = Some (t1, None)" "tbl_inv t1" "same_frame t t1"
    "t_rows t1 = AList.update rid ?row (t_rows t)"
    using InsertRow_ok [OF Cons.prems(1) prems(1), of rid] ok by auto
  have rows: "rowsOf t1 = (rowsOf t)(rid \<mapsto> ?row)" using t1(4) by (simp add: update_conv')
  have "t_schema t1 = t_schema t" using t1(3) by (simp add: same_frame_def)
  then have "insertable (t_schema t1) (rowsOf t1) (map (\<lambda>rid. (rid, rowAt m rid)) rids)"
    unfolding rows using prems(4) by simp
  from Cons.IH [OF t1(2) this] obtain t2 where t2: "insertRows m t1 rids = Some (t2, None)" "tbl_inv t2" "same_frame t1 t2"
    "rowsOf t2 = rowsOf t1 ++ (Some \<circ> rowAt m) |` set rids" by blast
  have "rowsOf t2 = rowsOf t ++ (Some \<circ> rowAt m) |` set (rid # rids)"
    unfolding t2(4) rows by (auto simp: map_add_def restrict_map_def fun_eq_iff split: option.split)
  then show ?case using t1(1) t2 same_frame_trans [OF t1(3) t2(3)] by (simp add: comp_def)
qed

lemma rowAt_map:
  "(Some \<circ> rowAt m) |` set (sortedCommitMapKeys m) = map_of m"
proof
  fix r show "((Some \<circ> rowAt m) |` set (sortedCommitMapKeys m)) r = map_of m r"
    using map_of_eq_None_iff [of m r] by (cases "map_of m r") (auto simp: restrict_map_def rowAt_def)
qed

section \<open>Revalidation\<close>

text \<open>The pending keys of an index are those of the rows \<open>P\<close> already revalidated.\<close>

definition keys_ok :: "(u64 \<times> indexKey list) list \<Rightarrow> indexSchema \<Rightarrow> rowMap \<Rightarrow> bool" where
  "keys_ok b ix P \<longleftrightarrow> (\<forall>h. set (bucketOf b h) = {k. keyHash64 k = Some h \<and> k \<in> keyOf ix ` ran P})"

lemma keys_ok_empty: "keys_ok [] ix Map.empty"
  by (simp add: keys_ok_def bucketOf_def)

lemma keys_ok_add:
  assumes "keys_ok b ix P" "P rid = None" "keyHash64 (keyOf ix row) = Some h"
  shows "keys_ok (AList.update h (bucketOf b h @ [keyOf ix row]) b) ix (P(rid \<mapsto> row))"
  using assms by (auto simp: keys_ok_def bucketOf_update ran_map_upd)

lemma keys_search:
  assumes ok: "keys_ok b ix P" and wf: "schema_wf ts" "ix \<in> set (ts_indexes ts)" "row_wf ts row"
    and P: "\<forall>x \<in> ran P. row_wf ts x" and h: "keyHash64 (keyOf ix row) = Some h"
  shows "anyO (keyEqual (keyOf ix row)) (bucketOf b h) = Some (has_key P ix row)"
proof -
  let ?k = "keyOf ix row"
  have mem: "k \<in> set (bucketOf b h) \<longleftrightarrow> keyHash64 k = Some h \<and> k \<in> keyOf ix ` ran P" for k
    using ok by (simp add: keys_ok_def)
  have key: "map v_kind k = map v_kind ?k \<and> list_all nanFree k" if "k \<in> keyOf ix ` ran P" for k
    using that P ExtractKey_keyOf(2) [OF _ wf(1,2)] wf(3) key_nanFree [OF _ wf(1,2)] by auto
  have "keyEqual ?k k = Some (compareKey k ?k = 0)" if "k \<in> set (bucketOf b h)" for k
  proof -
    have "map v_kind k = map v_kind ?k" using that key mem by blast
    then have "comparable ?k k"
      by (intro comparable_kinds [of ?k "map v_kind ?k"]) (simp_all, metis length_map take_all order_refl)
    then show ?thesis using keyEqual_eq [of ?k k] key_order.cmp_eq_sym [of ?k k] by simp
  qed
  then have "anyO (keyEqual ?k) (bucketOf b h) = Some (list_ex (\<lambda>k. compareKey k ?k = 0) (bucketOf b h))"
    by (rule anyO_eq)
  moreover have "list_ex (\<lambda>k. compareKey k ?k = 0) (bucketOf b h) \<longleftrightarrow> has_key P ix row"
  proof -
    have "keyHash64 (keyOf ix x) = Some h" if "x \<in> ran P" "compareKey (keyOf ix x) ?k = 0" for x
      using key_search.hash_cong [of "keyOf ix x" ?k] key [OF imageI [OF that(1)]] key_nanFree [OF wf(3,1,2)] that(2) h by simp
    then show ?thesis by (auto simp: list_ex_iff mem has_key_def)
  qed
  ultimately show ?thesis by simp
qed

definition keys_from :: "table \<Rightarrow> tableID \<Rightarrow> nat \<Rightarrow> pendingUnique \<Rightarrow> rowMap \<Rightarrow> bool" where
  "keys_from t tid i pu P \<longleftrightarrow> (\<forall>j. i \<le> j \<longrightarrow> j < length (t_indexes t) \<longrightarrow> ix_unique (idx_schema (t_indexes t ! j)) \<longrightarrow>
     keys_ok (bucketOf pu (tid, j)) (idx_schema (t_indexes t ! j)) P)"

definition pending_frame :: "tableID \<Rightarrow> nat \<Rightarrow> pendingUnique \<Rightarrow> pendingUnique \<Rightarrow> bool" where
  "pending_frame tid i pu pu' \<longleftrightarrow> (\<forall>u j. u \<noteq> tid \<or> j < i \<longrightarrow> bucketOf pu' (u, j) = bucketOf pu (u, j))"

lemma keys_from_Suc: "keys_from t tid i pu P \<Longrightarrow> keys_from t tid (Suc i) pu P"
  by (simp add: keys_from_def)

lemma keys_from_step:
  "keys_from t tid (Suc i) pu P \<Longrightarrow>
   (ix_unique (idx_schema (t_indexes t ! i)) \<Longrightarrow> keys_ok (bucketOf pu (tid, i)) (idx_schema (t_indexes t ! i)) P) \<Longrightarrow>
   keys_from t tid i pu P"
  unfolding keys_from_def by (metis le_antisym not_less_eq_eq)

lemma pendingLoop_ok:
  assumes inv: "tbl_inv t" and row: "row_wf (t_schema t) row" and fresh: "P rid = None"
    and P: "\<forall>x \<in> ran P. row_wf (t_schema t) x"
  shows "idxs = drop i (t_indexes t) \<Longrightarrow> keys_from t tid i pu P \<Longrightarrow>
    \<exists>pu'. pendingLoop tid t row i idxs pu =
      Some (pu', map_option (\<lambda>ix. keyViolation (t_schema t) ix (keyOf ix row)) (List.find (taken P row) (map idx_schema idxs))) \<and>
    (List.find (taken P row) (map idx_schema idxs) = None \<longrightarrow> keys_from t tid i pu' (P(rid \<mapsto> row))) \<and>
    pending_frame tid i pu pu'"
proof (induction idxs arbitrary: i pu)
  case Nil
  then show ?case by (auto simp: keys_from_def pending_frame_def)
next
  case (Cons idx idxs)
  let ?ix = "idx_schema idx" and ?k = "keyOf (idx_schema idx) row"
  have i: "i < length (t_indexes t)" "idx = t_indexes t ! i" "idxs = drop (Suc i) (t_indexes t)"
    using Cons.prems(1) by (metis drop_eq_Nil list.distinct(1) not_le, metis nth_via_drop, metis drop_Suc list.sel(3) tl_drop)
  have wf: "schema_wf (t_schema t)" "?ix \<in> set (ts_indexes (t_schema t))"
    using inv tbl_inv_indexes [OF inv] i(1,2) by (simp_all add: tbl_inv_def)
  show ?case
  proof (cases "ix_unique ?ix")
    case False
    have nt: "\<not> taken P row ?ix" using False by (simp add: taken_def)
    have "keys_from t tid (Suc i) pu' Q \<Longrightarrow> keys_from t tid i pu' Q" for pu' Q
      using keys_from_step [of t tid i pu' Q] False i(2) by blast
    moreover have "pending_frame tid (Suc i) pu pu' \<Longrightarrow> pending_frame tid i pu pu'" for pu'
      unfolding pending_frame_def by (meson less_SucI)
    ultimately show ?thesis using Cons.IH [OF i(3) keys_from_Suc [OF Cons.prems(2)]] False nt by auto
  next
    case True
    obtain h where h: "keyHash64 ?k = Some h" using key_hash [OF row wf] by blast
    let ?b = "bucketOf pu (tid, i)"
    have b: "keys_ok ?b ?ix P" using Cons.prems(2) True i by (simp add: keys_from_def)
    have hit: "anyO (keyEqual ?k) (bucketOf ?b h) = Some (has_key P ?ix row)" by (rule keys_search [OF b wf row P h])
    have key: "idxExtractKey idx row = Some ?k" by (rule idxExtractKey_wf [OF wf(1) row wf(2)])
    show ?thesis
    proof (cases "has_key P ?ix row")
      case hk: True
      then have "taken P row ?ix" using True by (simp add: taken_has_key)
      then show ?thesis using True key h hit hk by (simp add: uniqueViolationError_eq pending_frame_def)
    next
      case hk: False
      then have nt: "\<not> taken P row ?ix" by (simp add: taken_has_key)
      let ?pu = "AList.update (tid, i) (AList.update h (bucketOf ?b h @ [?k]) ?b) pu"
      have bpu: "bucketOf ?pu x = (if x = (tid, i) then AList.update h (bucketOf ?b h @ [?k]) ?b else bucketOf pu x)" for x
        by (simp add: bucketOf_update)
      have "keys_from t tid (Suc i) ?pu P" using Cons.prems(2) by (simp add: keys_from_def bpu)
      from Cons.IH [OF i(3) this] obtain pu' where pu': "pendingLoop tid t row (Suc i) idxs ?pu =
          Some (pu', map_option (\<lambda>ix. keyViolation (t_schema t) ix (keyOf ix row)) (List.find (taken P row) (map idx_schema idxs)))"
        "List.find (taken P row) (map idx_schema idxs) = None \<longrightarrow> keys_from t tid (Suc i) pu' (P(rid \<mapsto> row))"
        "pending_frame tid (Suc i) ?pu pu'" by (elim exE conjE) (rule that)
      have "bucketOf pu' (tid, i) = AList.update h (bucketOf ?b h @ [?k]) ?b" using pu'(3) by (simp add: pending_frame_def bpu)
      then have "keys_from t tid (Suc i) pu' (P(rid \<mapsto> row)) \<Longrightarrow> keys_from t tid i pu' (P(rid \<mapsto> row))"
        using keys_from_step [of t tid i pu' "P(rid \<mapsto> row)"] keys_ok_add [OF b fresh h] i(2) by simp
      moreover have "pending_frame tid i pu pu'" using pu'(3) by (auto simp: pending_frame_def bpu)
      ultimately show ?thesis using True key h hit hk pu'(1,2) nt by (simp del: fun_upd_apply)
    qed
  qed
qed

definition pend_ok :: "table \<Rightarrow> tableID \<Rightarrow> pendingUnique \<times> pendingRows \<Rightarrow> rowMap \<Rightarrow> bool" where
  "pend_ok t tid p P \<longleftrightarrow> keys_from t tid 0 (fst p) P \<and>
     (t_rowHashIndex t \<noteq> None \<longrightarrow>
       (\<forall>h. set (bucketOf (bucketOf (snd p) tid) h) = {x. productHash64 x = Some h \<and> x \<in> ran P}))"

definition pend_other :: "tableID \<Rightarrow> pendingUnique \<times> pendingRows \<Rightarrow> pendingUnique \<times> pendingRows \<Rightarrow> bool" where
  "pend_other tid p p' \<longleftrightarrow> (\<forall>u. u \<noteq> tid \<longrightarrow>
     (\<forall>j. bucketOf (fst p') (u, j) = bucketOf (fst p) (u, j)) \<and> bucketOf (snd p') u = bucketOf (snd p) u)"

lemma pend_other_refl [simp]: "pend_other tid p p"
  by (simp add: pend_other_def)

lemma pend_other_trans: "pend_other tid a b \<Longrightarrow> pend_other tid b c \<Longrightarrow> pend_other tid a c"
  by (simp add: pend_other_def)

lemma pend_ok_other: "pend_other tid p p' \<Longrightarrow> u \<noteq> tid \<Longrightarrow> pend_ok t u p P \<Longrightarrow> pend_ok t u p' P"
  by (simp add: pend_ok_def pend_other_def keys_from_def)

lemma pend_ok_init: "pend_ok t tid ([], []) Map.empty"
  using keys_ok_empty by (simp add: pend_ok_def keys_from_def bucketOf_def keys_ok_def)

lemma conflict_parts:
  assumes "tbl_inv t"
  shows "rowConflict (t_schema t) P row =
    (case List.find (taken P row) (ts_indexes (t_schema t)) of Some ix \<Rightarrow> Some (keyViolation (t_schema t) ix (keyOf ix row))
     | None \<Rightarrow> if t_rowHashIndex t \<noteq> None \<and> (\<exists>x \<in> ran P. productEqual x row) then Some ErrDuplicateRow else None)"
  using tbl_inv_hash [OF assms] by (simp add: rowConflict_def split: option.split)

lemma revalidateInsertAgainstPending_ok:
  assumes inv: "tbl_inv t" and row: "row_wf (t_schema t) row" and fresh: "P rid = None"
    and P: "\<forall>x \<in> ran P. row_wf (t_schema t) x" and p: "pend_ok t tid p P"
  shows "\<exists>p'. revalidateInsertAgainstPending tid t row p = Some (p', rowConflict (t_schema t) P row) \<and> pend_other tid p p' \<and>
    (rowConflict (t_schema t) P row = None \<longrightarrow> pend_ok t tid p' (P(rid \<mapsto> row)))"
proof -
  obtain pu pr where pp: "p = (pu, pr)" by (cases p)
  let ?find = "List.find (taken P row) (ts_indexes (t_schema t))"
  have keys: "keys_from t tid 0 pu P" using p pp by (simp add: pend_ok_def)
  from pendingLoop_ok [OF inv row fresh P drop_0 [symmetric] keys, folded tbl_inv_schemas [OF inv]]
  obtain pu' where pu': "pendingLoop tid t row 0 (t_indexes t) pu =
      Some (pu', map_option (\<lambda>ix. keyViolation (t_schema t) ix (keyOf ix row)) ?find)"
    "?find = None \<longrightarrow> keys_from t tid 0 pu' (P(rid \<mapsto> row))" "pending_frame tid 0 pu pu'"
    by (elim exE conjE) (rule that)
  have frame: "pend_other tid (pu, pr) (pu', pr)" using pu'(3) by (simp add: pend_other_def pending_frame_def)
  show ?thesis
  proof (cases ?find)
    case (Some ix)
    then show ?thesis
      using pu'(1) frame pp conflict_parts [OF inv, of P row] by (simp add: revalidateInsertAgainstPending_def)
  next
    case free: None
    show ?thesis
    proof (cases "t_rowHashIndex t")
      case None
      then show ?thesis
        using pu' free frame pp conflict_parts [OF inv, of P row]
        by (simp add: revalidateInsertAgainstPending_def pend_ok_def del: fun_upd_apply)
    next
      case (Some m)
      obtain h where h: "productHash64 row = Some h" using row_hash [OF row] by blast
      let ?b = "bucketOf pr tid"
      have b: "set (bucketOf ?b h') = {x. productHash64 x = Some h' \<and> x \<in> ran P}" for h'
        using p pp Some by (simp add: pend_ok_def)
      have dup: "list_ex (\<lambda>prior. productEqual prior row) (bucketOf ?b h) \<longleftrightarrow> (\<exists>x \<in> ran P. productEqual x row)"
        using h productHash64_cong [of _ row] by (auto simp: list_ex_iff b)
      show ?thesis
      proof (cases "\<exists>x \<in> ran P. productEqual x row")
        case True
        then show ?thesis
          using pu'(1) free Some h dup frame pp conflict_parts [OF inv, of P row] by (simp add: revalidateInsertAgainstPending_def)
      next
        case False
        let ?pr = "AList.update tid (AList.update h (bucketOf ?b h @ [row]) ?b) pr"
        have "bucketOf ?pr u = (if u = tid then AList.update h (bucketOf ?b h @ [row]) ?b else bucketOf pr u)" for u
          by (simp add: bucketOf_update)
        moreover have "set (bucketOf (AList.update h (bucketOf ?b h @ [row]) ?b) h') =
            {x. productHash64 x = Some h' \<and> x \<in> ran (P(rid \<mapsto> row))}" for h'
          using h fresh by (auto simp: bucketOf_update b ran_map_upd)
        ultimately have "pend_ok t tid (pu', ?pr) (P(rid \<mapsto> row))" "pend_other tid (pu, pr) (pu', ?pr)"
          using pu'(2) free frame by (simp_all add: pend_ok_def pend_other_def del: fun_upd_apply)
        then show ?thesis
          using pu'(1) free Some h dup False pp conflict_parts [OF inv, of P row]
          by (auto simp: revalidateInsertAgainstPending_def Let_def simp del: fun_upd_apply)
      qed
    qed
  qed
qed

lemma committedLoop_ok:
  assumes inv: "tbl_inv t" and row: "row_wf (t_schema t) row"
  shows "set idxs \<subseteq> set (t_indexes t) \<Longrightarrow> committedLoop tid t row tx idxs =
    Some (map_option (\<lambda>ix. keyViolation (t_schema t) ix (keyOf ix row))
      (List.find (taken (rowsOf t |` (- delsOf tx tid)) row) (map idx_schema idxs)))"
proof (induction idxs)
  case (Cons idx idxs)
  let ?ix = "idx_schema idx"
  have wf: "schema_wf (t_schema t)" "?ix \<in> set (ts_indexes (t_schema t))" "index_ok (t_schema t) (rowsOf t) idx"
    using inv tbl_inv_indexes [OF inv] Cons.prems by (auto simp: tbl_inv_def)
  obtain ids where ids: "btRowIDs (idx_btree idx) (keyOf ?ix row) = Some ids"
    "set ids = {r. \<exists>x. rowsOf t r = Some x \<and> compareKey (keyOf ?ix x) (keyOf ?ix row) = 0}"
    using taken_ids [OF wf(1) row wf(2,3)] by blast
  have "list_ex (\<lambda>r. \<not> IsDeleted tx tid r) ids \<longleftrightarrow> has_key (rowsOf t |` (- delsOf tx tid)) ?ix row"
    unfolding list_ex_iff ids(2) has_key_def by (auto simp: IsDeleted_iff ran_def restrict_map_def split: if_splits)
  then show ?case
    using Cons ids(1) idxExtractKey_wf [OF wf(1) row wf(2)]
    by (auto simp: uniqueViolationError_eq taken_has_key)
qed simp

lemma revalidateInsertAgainstCommitted_ok:
  assumes inv: "tbl_inv t" and row: "row_wf (t_schema t) row" and ev: "ts_isEvent (t_schema t) \<longrightarrow> t_rows t = []"
  shows "revalidateInsertAgainstCommitted tid t row tx =
    Some (rowConflict (t_schema t) (rowsOf t |` (- delsOf tx tid)) row)"
proof (cases "ts_isEvent (t_schema t)")
  case True
  have "rowConflict (t_schema t) (rowsOf t |` (- delsOf tx tid)) row = None"
    using ev True by (simp add: rowConflict_None restrict_map_def taken_def)
  then show ?thesis using True by (simp add: revalidateInsertAgainstCommitted_def)
next
  case False
  let ?R = "rowsOf t |` (- delsOf tx tid)"
  have loop: "committedLoop tid t row tx (t_indexes t) =
      Some (map_option (\<lambda>ix. keyViolation (t_schema t) ix (keyOf ix row)) (List.find (taken ?R row) (ts_indexes (t_schema t))))"
    using committedLoop_ok [OF inv row order_refl] unfolding tbl_inv_schemas [OF inv] .
  show ?thesis
  proof (cases "t_rowHashIndex t")
    case None
    then show ?thesis
      using False loop conflict_parts [OF inv, of ?R row]
      by (auto simp: revalidateInsertAgainstCommitted_def split: option.split)
  next
    case (Some m)
    obtain h where h: "productHash64 row = Some h" using row_hash [OF row] by blast
    have m: "hash_ok m (rowsOf t)" using Some inv by (simp add: tbl_inv_def hash_inv_def)
    have "list_ex (\<lambda>rid. \<not> IsDeleted tx tid rid \<and>
        (case rowView t rid of None \<Rightarrow> False | Some x \<Rightarrow> productEqual x row)) (bucketOf m h) \<longleftrightarrow> (\<exists>x \<in> ran ?R. productEqual x row)"
      using m h productHash64_cong [of _ row]
      by (fastforce simp: list_ex_iff hash_ok_def IsDeleted_iff rowView_def ran_def restrict_map_def split: if_splits option.splits)
    then show ?thesis
      using False loop Some h conflict_parts [OF inv, of ?R row]
      by (auto simp: revalidateInsertAgainstCommitted_def split: option.split)
  qed
qed

lemma conflict_union:
  assumes "dom A \<inter> dom B = {}"
  shows "rowConflict ts (A ++ B) row = None \<longleftrightarrow> rowConflict ts A row = None \<and> rowConflict ts B row = None"
  unfolding rowConflict_None taken_has_key has_key_def ran_map_add [OF assms] by blast

text \<open>The rows buffered for a table, in the order a commit visits them.\<close>

abbreviation rowsAt :: "insertMap \<Rightarrow> rowID list \<Rightarrow> (rowID \<times> productValue) list" where
  "rowsAt m rids \<equiv> map (\<lambda>rid. (rid, rowAt m rid)) rids"

abbreviation keptRows :: "table \<Rightarrow> txState \<Rightarrow> tableID \<Rightarrow> rowMap" where
  "keptRows t tx tid \<equiv> rowsOf t |` (- delsOf tx tid)"

lemma revalidateInsertRowID_None:
  assumes "ts_isEvent (t_schema t) \<longrightarrow> t_rows t = []"
  shows "revalidateInsertRowID tid t rid tx = None \<longleftrightarrow> keptRows t tx tid rid = None"
  using assms by (auto simp: revalidateInsertRowID_def IsDeleted_iff rowView_def restrict_map_def)

lemma revalidateRows_ok:
  assumes inv: "tbl_inv t" and ev: "ts_isEvent (t_schema t) \<longrightarrow> t_rows t = []"
  shows "distinct rids \<Longrightarrow> \<forall>rid \<in> set rids. P rid = None \<and> values_ok (rowAt m rid) \<Longrightarrow>
    \<forall>x \<in> ran P. row_wf (t_schema t) x \<Longrightarrow> dom (keptRows t tx tid) \<inter> dom P = {} \<Longrightarrow> pend_ok t tid p P \<Longrightarrow>
    \<exists>p' err. revalidateRows tid t tx m rids p = Some (p', err) \<and> pend_other tid p p' \<and>
      (err = None \<longleftrightarrow> insertable (t_schema t) (keptRows t tx tid ++ P) (rowsAt m rids))"
proof (induction rids arbitrary: p P)
  case Nil
  then show ?case by simp
next
  case (Cons rid rids)
  let ?R = "keptRows t tx tid" and ?row = "rowAt m rid"
  have fresh: "P rid = None" and vals: "values_ok ?row" using Cons.prems(2) by simp_all
  show ?case
  proof (cases "row_wf (t_schema t) ?row \<and> ?R rid = None \<and> rowConflict (t_schema t) ?R ?row = None")
    case False
    have "insertable (t_schema t) (?R ++ P) (rowsAt m (rid # rids)) \<Longrightarrow>
        row_wf (t_schema t) ?row \<and> ?R rid = None \<and> rowConflict (t_schema t) ?R ?row = None"
      using conflict_union [OF Cons.prems(4)] by (simp add: map_add_def split: option.splits)
    then have no: "\<not> insertable (t_schema t) (?R ++ P) (rowsAt m (rid # rids))" using False by blast
    show ?thesis
    proof (cases "ValidateRow (t_schema t) ?row")
      case (Inl e)
      then show ?thesis using no by simp
    next
      case (Inr un)
      then have wf: "row_wf (t_schema t) ?row" using ValidateRow_wf vals by simp
      show ?thesis
      proof (cases "revalidateInsertRowID tid t rid tx")
        case (Some e)
        then show ?thesis using Inr no by simp
      next
        case None
        then have "rowConflict (t_schema t) ?R ?row \<noteq> None"
          using False wf revalidateInsertRowID_None [OF ev, of tid rid tx] by simp
        then show ?thesis
          using Inr None no revalidateInsertAgainstCommitted_ok [OF inv wf ev] by (cases p) auto
      qed
    qed
  next
    case True
    then have wf: "row_wf (t_schema t) ?row" and kept: "?R rid = None" "rowConflict (t_schema t) ?R ?row = None" by auto
    obtain p1 where p1: "revalidateInsertAgainstPending tid t ?row p = Some (p1, rowConflict (t_schema t) P ?row)"
      "pend_other tid p p1" "rowConflict (t_schema t) P ?row = None \<longrightarrow> pend_ok t tid p1 (P(rid \<mapsto> ?row))"
      using revalidateInsertAgainstPending_ok [OF inv wf fresh Cons.prems(3,5)] by (elim exE conjE) (rule that)
    have start: "revalidateRows tid t tx m (rid # rids) p =
        (case rowConflict (t_schema t) P ?row of Some e \<Rightarrow> Some (p1, Some e) | None \<Rightarrow> revalidateRows tid t tx m rids p1)"
      using row_wf_Validate [OF wf] kept revalidateInsertRowID_None [OF ev, of tid rid tx]
        revalidateInsertAgainstCommitted_ok [OF inv wf ev, of tid tx] p1(1)
      by (simp split: option.split)
    show ?thesis
    proof (cases "rowConflict (t_schema t) P ?row")
      case (Some e)
      then have "\<not> insertable (t_schema t) (?R ++ P) (rowsAt m (rid # rids))"
        using conflict_union [OF Cons.prems(4)] by simp
      then show ?thesis using start Some p1(2) by simp
    next
      case None
      let ?P = "P(rid \<mapsto> ?row)"
      have "\<forall>r \<in> set rids. ?P r = None \<and> values_ok (rowAt m r)" using Cons.prems(1,2) by auto
      moreover have "\<forall>x \<in> ran ?P. row_wf (t_schema t) x" using Cons.prems(3) wf fresh by (simp add: ran_map_upd)
      moreover have "dom ?R \<inter> dom ?P = {}" using Cons.prems(4) kept(1) by auto
      moreover have "pend_ok t tid p1 ?P" using p1(3) None by blast
      moreover have "distinct rids" using Cons.prems(1) by simp
      ultimately have "\<exists>p' err. revalidateRows tid t tx m rids p1 = Some (p', err) \<and> pend_other tid p1 p' \<and>
          (err = None \<longleftrightarrow> insertable (t_schema t) (?R ++ ?P) (rowsAt m rids))"
        by (intro Cons.IH)
      then obtain p2 err where p2: "revalidateRows tid t tx m rids p1 = Some (p2, err)" "pend_other tid p1 p2"
        "err = None \<longleftrightarrow> insertable (t_schema t) (?R ++ ?P) (rowsAt m rids)"
        by (elim exE conjE) (rule that)
      have "insertable (t_schema t) (?R ++ P) (rowsAt m (rid # rids)) \<longleftrightarrow> insertable (t_schema t) (?R ++ ?P) (rowsAt m rids)"
        using wf kept fresh None conflict_union [OF Cons.prems(4), of "t_schema t" ?row] by (simp del: fun_upd_apply)
      then show ?thesis using start None p2 pend_other_trans [OF p1(2) p2(2)] by simp
    qed
  qed
qed

text \<open>What revalidation establishes, table by table.\<close>

definition deletes_ready :: "committedState \<Rightarrow> txState \<Rightarrow> tableID \<Rightarrow> bool" where
  "deletes_ready cs tx tid \<longleftrightarrow> (\<exists>t. csTable cs tid = Some t \<and> delsOf tx tid \<subseteq> dom (rowsOf t))"

definition inserts_ready :: "committedState \<Rightarrow> txState \<Rightarrow> tableID \<Rightarrow> bool" where
  "inserts_ready cs tx tid \<longleftrightarrow> (\<exists>t. csTable cs tid = Some t \<and>
     insertable (t_schema t) (keptRows t tx tid)
       (rowsAt (bucketOf (tx_inserts tx) tid) (sortedCommitMapKeys (bucketOf (tx_inserts tx) tid))))"

definition commit_ready :: "committedState \<Rightarrow> txState \<Rightarrow> bool" where
  "commit_ready cs tx \<longleftrightarrow> (\<forall>tid \<in> fst ` set (tx_deletes tx). deletes_ready cs tx tid) \<and>
     (\<forall>tid \<in> fst ` set (tx_inserts tx). inserts_ready cs tx tid)"

text \<open>A committed state that satisfies its invariant and buffers of well-formed values.\<close>

definition committable :: "committedState \<Rightarrow> txState \<Rightarrow> bool" where
  "committable cs tx \<longleftrightarrow> buffers_ok tx \<and>
     (\<forall>tid t. csTable cs tid = Some t \<longrightarrow> tbl_inv t \<and> (ts_isEvent (t_schema t) \<longrightarrow> t_rows t = [])) \<and>
     (\<forall>tid x. x \<in> ran (insOf tx tid) \<longrightarrow> values_ok x)"

lemma committable_keys:
  assumes "committable cs tx"
  shows "distinct (sortedCommitMapKeys (tx_inserts tx))" "distinct (sortedCommitMapKeys (tx_deletes tx))"
    "distinct (sortedCommitMapKeys (bucketOf (tx_inserts tx) tid))" "distinct (sortedCommitMapKeys (bucketOf (tx_deletes tx) tid))"
proof -
  have n: "nested_ok (tx_inserts tx)" "nested_ok (tx_deletes tx)" using assms by (simp_all add: committable_def buffers_ok_def)
  show "distinct (sortedCommitMapKeys (tx_inserts tx))" "distinct (sortedCommitMapKeys (tx_deletes tx))"
    using n by (simp_all add: sortedKeys_distinct nested_ok_def)
  show "distinct (sortedCommitMapKeys (bucketOf (tx_inserts tx) tid))" "distinct (sortedCommitMapKeys (bucketOf (tx_deletes tx) tid))"
    by (intro sortedKeys_distinct nested_ok_bucket n)+
qed

lemma deletes_keys: "set (sortedCommitMapKeys (bucketOf (tx_deletes tx) tid)) = delsOf tx tid"
  by (auto simp: delsOf_def IsDeleted_def map_of_eq_None_iff)

lemma revalidateDeletes_ok:
  "revalidateDeletes cs (tx_deletes tx) tids = None \<longleftrightarrow> (\<forall>tid \<in> set tids. deletes_ready cs tx tid)"
proof (induction tids)
  case (Cons tid tids)
  show ?case
  proof (cases "csTable cs tid")
    case None
    then show ?thesis by (simp add: csTable_def deletes_ready_def)
  next
    case (Some t)
    have "List.find (\<lambda>rid. rowView t rid = None) (sortedCommitMapKeys (bucketOf (tx_deletes tx) tid)) = None \<longleftrightarrow>
        deletes_ready cs tx tid"
      using Some unfolding find_None_iff deletes_keys deletes_ready_def by (auto simp: rowView_def)
    then show ?thesis using Some Cons by (auto simp: csTable_def split: option.splits)
  qed
qed simp

lemma rowAt_ran: "rid \<in> fst ` set m \<Longrightarrow> rowAt m rid \<in> ran (map_of m)"
  by (auto simp: rowAt_def ran_def map_of_eq_None_iff split: option.split)

lemma revalidateInserts_ok:
  assumes ok: "committable cs tx"
  shows "distinct tids \<Longrightarrow> (\<And>tid t. tid \<in> set tids \<Longrightarrow> csTable cs tid = Some t \<Longrightarrow> pend_ok t tid p Map.empty) \<Longrightarrow>
    \<exists>err. revalidateInserts cs tx tids p = Some err \<and> (err = None \<longleftrightarrow> (\<forall>tid \<in> set tids. inserts_ready cs tx tid))"
proof (induction tids arbitrary: p)
  case Nil
  then show ?case by simp
next
  case (Cons tid tids)
  show ?case
  proof (cases "csTable cs tid")
    case None
    then show ?thesis by (simp add: csTable_def inserts_ready_def)
  next
    case (Some t)
    let ?m = "bucketOf (tx_inserts tx) tid"
    let ?rids = "sortedCommitMapKeys ?m"
    have t: "tbl_inv t" "ts_isEvent (t_schema t) \<longrightarrow> t_rows t = []" using ok Some by (auto simp: committable_def)
    note d = committable_keys(3) [OF ok, of tid]
    have vals: "\<forall>rid \<in> set ?rids. Map.empty rid = None \<and> values_ok (rowAt ?m rid)"
      using ok rowAt_ran [of _ ?m] unfolding committable_def insOf_def sortedKeys_set by blast
    have "pend_ok t tid p Map.empty" using Cons.prems(2) Some by simp
    from revalidateRows_ok [OF t d vals _ _ this, of tx] obtain p' err where
      r: "revalidateRows tid t tx ?m ?rids p = Some (p', err)" "pend_other tid p p'"
      "err = None \<longleftrightarrow> insertable (t_schema t) (keptRows t tx tid) (rowsAt ?m ?rids)" by auto
    have here: "err = None \<longleftrightarrow> inserts_ready cs tx tid" using r(3) Some by (simp add: inserts_ready_def)
    have "pend_ok u uid p' Map.empty" if "uid \<in> set tids" "csTable cs uid = Some u" for uid u
      using pend_ok_other [OF r(2), of uid u Map.empty] Cons.prems(1) Cons.prems(2) [of uid u] that by auto
    with Cons.IH [of p'] Cons.prems(1) obtain err' where
      e: "revalidateInserts cs tx tids p' = Some err'" "err' = None \<longleftrightarrow> (\<forall>tid \<in> set tids. inserts_ready cs tx tid)" by auto
    show ?thesis
      using Some r(1) here e by (cases err) (simp_all add: csTable_def allTableInserts_def)
  qed
qed

lemma revalidateCommit_ok:
  assumes "committable cs tx"
  shows "\<exists>err. revalidateCommit cs tx = Some err \<and> (err = None \<longleftrightarrow> commit_ready cs tx)"
proof -
  from revalidateInserts_ok [OF assms committable_keys(1) [OF assms], of "([], [])"] pend_ok_init obtain err where
    "revalidateInserts cs tx (sortedCommitMapKeys (tx_inserts tx)) ([], []) = Some err"
    "err = None \<longleftrightarrow> (\<forall>tid \<in> fst ` set (tx_inserts tx). inserts_ready cs tx tid)" by auto
  then show ?thesis
    using revalidateDeletes_ok [of cs tx "sortedCommitMapKeys (tx_deletes tx)"]
    by (cases "revalidateDeletes cs (tx_deletes tx) (sortedCommitMapKeys (tx_deletes tx))")
      (auto simp: revalidateCommit_def commit_ready_def allTableInserts_def allTableDeletes_def)
qed

section \<open>Application\<close>

text \<open>What a commit makes of the rows of a table: the view of the transaction, except that an event table stays as it is.\<close>

definition committed_rows :: "table \<Rightarrow> txState \<Rightarrow> tableID \<Rightarrow> rowMap" where
  "committed_rows t tx tid = (if ts_isEvent (t_schema t) then keptRows t tx tid else viewRows t tx tid)"

lemma no_deletes: "tid \<notin> fst ` set (tx_deletes tx) \<Longrightarrow> delsOf tx tid = {}"
  by (simp add: delsOf_def IsDeleted_def bucketOf_def map_of_eq_None_iff [THEN iffD2])

lemma no_inserts: "tid \<notin> fst ` set (tx_inserts tx) \<Longrightarrow> insOf tx tid = Map.empty"
  by (simp add: insOf_def bucketOf_def map_of_eq_None_iff [THEN iffD2])

lemma applyDeletes_ok:
  assumes ok: "committable cs tx" and ready: "commit_ready cs tx"
  shows "\<exists>cs'. applyDeletes tx cs = Some (cs', None) \<and> same_tables cs cs' \<and>
    (\<forall>tid. rel_option (\<lambda>t t'. tbl_inv t' \<and> same_frame t t' \<and> rowsOf t' = keptRows t tx tid) (csTable cs tid) (csTable cs' tid))"
proof -
  let ?P = "\<lambda>tid t t'. tbl_inv t' \<and> same_frame t t' \<and> rowsOf t' = keptRows t tx tid"
  let ?tids = "sortedCommitMapKeys (tx_deletes tx)"
  have "\<exists>t t'. csTable cs tid = Some t \<and> deleteRows t (sortedCommitMapKeys (bucketOf (tx_deletes tx) tid)) = Some (t', None) \<and> ?P tid t t'"
    if tid: "tid \<in> set ?tids" for tid
  proof -
    obtain t where t: "csTable cs tid = Some t" "delsOf tx tid \<subseteq> dom (rowsOf t)"
      using ready tid unfolding commit_ready_def deletes_ready_def sortedKeys_set by blast
    have "tbl_inv t" using ok t(1) by (auto simp: committable_def)
    from deleteRows_ok [OF this committable_keys(4) [OF ok], unfolded deletes_keys, OF t(2)] t(1) show ?thesis by blast
  qed
  from forTables_ok [OF committable_keys(2) [OF ok] this] obtain cs' where cs': "applyDeletes tx cs = Some (cs', None)" "same_tables cs cs'"
    "\<forall>tid \<in> set ?tids. \<exists>t t'. csTable cs tid = Some t \<and> csTable cs' tid = Some t' \<and> ?P tid t t'"
    "\<forall>tid. tid \<notin> set ?tids \<longrightarrow> csTable cs' tid = csTable cs tid"
    unfolding applyDeletes_def allTableDeletes_def by blast
  have "rel_option (?P tid) (csTable cs tid) (csTable cs' tid)" for tid
  proof (cases "tid \<in> set ?tids")
    case True
    then show ?thesis using cs'(3) by fastforce
  next
    case False
    then have "delsOf tx tid = {}" using no_deletes by simp
    then show ?thesis
      using cs'(4) False ok by (cases "csTable cs tid") (auto simp: committable_def restrict_map_def)
  qed
  then show ?thesis using cs'(1,2) by blast
qed

lemma applyInserts_ok:
  assumes ok: "committable cs tx" and ready: "commit_ready cs tx"
    and cs1: "\<And>tid. rel_option (\<lambda>t t'. tbl_inv t' \<and> same_frame t t' \<and> rowsOf t' = keptRows t tx tid) (csTable cs tid) (csTable cs1 tid)"
  shows "\<exists>cs'. applyInserts tx cs1 = Some (cs', None) \<and> same_tables cs1 cs' \<and>
    (\<forall>tid. rel_option (\<lambda>t t'. tbl_inv t' \<and> same_frame t t' \<and> rowsOf t' = committed_rows t tx tid) (csTable cs tid) (csTable cs' tid))"
proof -
  let ?P = "\<lambda>tid t1 t'. tbl_inv t' \<and> same_frame t1 t' \<and>
    rowsOf t' = (if ts_isEvent (t_schema t1) then rowsOf t1 else rowsOf t1 ++ insOf tx tid)"
  let ?tids = "sortedCommitMapKeys (tx_inserts tx)"
  let ?m = "\<lambda>tid. bucketOf (tx_inserts tx) tid"
  let ?f = "\<lambda>tid t. if ts_isEvent (t_schema t) then Some (t, None) else insertRows (?m tid) t (sortedCommitMapKeys (?m tid))"
  have "\<exists>t1 t'. csTable cs1 tid = Some t1 \<and> ?f tid t1 = Some (t', None) \<and> ?P tid t1 t'" if tid: "tid \<in> set ?tids" for tid
  proof -
    obtain t where t: "csTable cs tid = Some t"
      "insertable (t_schema t) (keptRows t tx tid) (rowsAt (?m tid) (sortedCommitMapKeys (?m tid)))"
      using ready tid unfolding commit_ready_def inserts_ready_def sortedKeys_set by blast
    obtain t1 where t1: "csTable cs1 tid = Some t1" "tbl_inv t1" "same_frame t t1" "rowsOf t1 = keptRows t tx tid"
      using cs1 [of tid] t(1) by (auto simp: option_rel_Some1)
    have "insertable (t_schema t1) (rowsOf t1) (rowsAt (?m tid) (sortedCommitMapKeys (?m tid)))"
      using t(2) t1(3,4) by (simp add: same_frame_def)
    from insertRows_ok [OF t1(2) this, unfolded rowAt_map] show ?thesis
      using t1(1,2) by (auto simp: insOf_def)
  qed
  from forTables_ok [OF committable_keys(1) [OF ok] this] obtain cs' where cs': "applyInserts tx cs1 = Some (cs', None)" "same_tables cs1 cs'"
    "\<forall>tid \<in> set ?tids. \<exists>t t'. csTable cs1 tid = Some t \<and> csTable cs' tid = Some t' \<and> ?P tid t t'"
    "\<forall>tid. tid \<notin> set ?tids \<longrightarrow> csTable cs' tid = csTable cs1 tid"
    unfolding applyInserts_def allTableInserts_def by blast
  have "rel_option (\<lambda>t t'. tbl_inv t' \<and> same_frame t t' \<and> rowsOf t' = committed_rows t tx tid) (csTable cs tid) (csTable cs' tid)" for tid
  proof (cases "csTable cs tid")
    case None
    then have "csTable cs1 tid = None" using cs1 [of tid] by (simp add: option_rel_Some1)
    then show ?thesis using None cs'(3,4) by (cases "tid \<in> set ?tids") force+
  next
    case (Some t)
    then obtain t1 where t1: "csTable cs1 tid = Some t1" "tbl_inv t1" "same_frame t t1" "rowsOf t1 = keptRows t tx tid"
      using cs1 [of tid] by (auto simp: option_rel_Some1)
    have ev: "ts_isEvent (t_schema t1) = ts_isEvent (t_schema t)" using t1(3) by (simp add: same_frame_def)
    show ?thesis
    proof (cases "tid \<in> set ?tids")
      case True
      then obtain t' where t': "csTable cs' tid = Some t'" "?P tid t1 t'" using cs'(3) t1(1) by force
      then have "rowsOf t' = committed_rows t tx tid" by (simp add: committed_rows_def viewRows_def t1(4) ev)
      then show ?thesis using Some t' same_frame_trans [OF t1(3)] by auto
    next
      case False
      then have "insOf tx tid = Map.empty" using no_inserts by simp
      then have "rowsOf t1 = committed_rows t tx tid" by (simp add: committed_rows_def viewRows_def t1(4))
      then show ?thesis using Some t1 cs'(4) False by simp
    qed
  qed
  then show ?thesis using cs'(1,2) by blast
qed

section \<open>Counters\<close>

lemma tbl_inv_counters: "tbl_inv (SetNextID t n) = tbl_inv t" "tbl_inv (SetSequenceValue t n) = tbl_inv t"
  by (auto simp: SetNextID_def SetSequenceValue_def tbl_inv_def split: option.split)

text \<open>The table after a commit.\<close>

definition post_commit :: "transaction \<Rightarrow> tableID \<Rightarrow> table \<Rightarrow> table \<Rightarrow> bool" where
  "post_commit tr tid t t' \<longleftrightarrow> tbl_inv t' \<and> t_schema t' = t_schema t \<and> t_sequenceCol t' = t_sequenceCol t \<and>
     rowsOf t' = committed_rows t (tr_tx tr) tid \<and>
     t_nextID t' = (if ts_isEvent (t_schema t) then t_nextID t else nextRowID tr tid t) \<and>
     t_sequence t' = (if ts_isEvent (t_schema t) \<or> t_sequence t = None then t_sequence t else nextSequenceValue tr tid t)"

text \<open>A loop that sets one counter of every table that has a new value.\<close>

lemma counterLoop_ok:
  assumes m: "counters_ok cs m"
  shows "\<exists>cs'. forTables (\<lambda>tid t. if ts_isEvent (t_schema t) then Some (t, None) else Some (put t (counterAt m tid), None))
      (sortedCommitMapKeys m) cs = Some (cs', None) \<and> same_tables cs cs' \<and>
    (\<forall>tid. csTable cs' tid = map_option (\<lambda>t. case map_of m tid of None \<Rightarrow> t
       | Some n \<Rightarrow> if ts_isEvent (t_schema t) then t else put t n) (csTable cs tid))"
proof -
  let ?P = "\<lambda>tid t t'. t' = (if ts_isEvent (t_schema t) then t else put t (counterAt m tid))"
  have d: "distinct (sortedCommitMapKeys m)" using m by (simp add: counters_ok_def sortedKeys_distinct)
  have "\<exists>t t'. csTable cs tid = Some t \<and>
      (if ts_isEvent (t_schema t) then Some (t, None) else Some (put t (counterAt m tid), None)) = Some (t', None) \<and> ?P tid t t'"
    if "tid \<in> set (sortedCommitMapKeys m)" for tid
    using that m by (auto simp: counters_ok_def)
  from forTables_ok [OF d, of cs _ ?P, OF this] obtain cs' where
    cs': "forTables (\<lambda>tid t. if ts_isEvent (t_schema t) then Some (t, None) else Some (put t (counterAt m tid), None))
      (sortedCommitMapKeys m) cs = Some (cs', None)" "same_tables cs cs'"
    "\<forall>tid \<in> set (sortedCommitMapKeys m). \<exists>t t'. csTable cs tid = Some t \<and> csTable cs' tid = Some t' \<and> ?P tid t t'"
    "\<forall>tid. tid \<notin> set (sortedCommitMapKeys m) \<longrightarrow> csTable cs' tid = csTable cs tid"
    by blast
  have "csTable cs' tid = map_option (\<lambda>t. case map_of m tid of None \<Rightarrow> t
       | Some n \<Rightarrow> if ts_isEvent (t_schema t) then t else put t n) (csTable cs tid)" for tid
  proof (cases "map_of m tid")
    case None
    then have "csTable cs' tid = csTable cs tid" using cs'(4) by (simp add: map_of_eq_None_iff)
    then show ?thesis using None by (simp add: option.map_ident)
  next
    case (Some n)
    then have "tid \<in> set (sortedCommitMapKeys m)" by (force dest: map_of_SomeD)
    then obtain t t' where "csTable cs tid = Some t" "csTable cs' tid = Some t'" "?P tid t t'" using cs'(3) by blast
    then show ?thesis using Some by (simp add: counterAt_def)
  qed
  then show ?thesis using cs'(1,2) by blast
qed

lemma counters_ok_same: "same_tables cs cs' \<Longrightarrow> counters_ok cs m \<Longrightarrow> counters_ok cs' m"
proof -
  assume "same_tables cs cs'"
  then have "fst ` set (cs_tables cs') = fst ` set (cs_tables cs)" unfolding same_tables_def by (metis list.set_map)
  moreover have "csTable x = map_of (cs_tables x)" for x by (simp add: fun_eq_iff csTable_def tableLocked_def)
  ultimately have "dom (csTable cs') = dom (csTable cs)" by (simp add: dom_map_of_conv_image_fst)
  then show "counters_ok cs m \<Longrightarrow> counters_ok cs' m" by (simp add: counters_ok_def)
qed

lemma counter_fields [simp]:
  "t_rows (SetNextID t n) = t_rows t" "t_schema (SetNextID t n) = t_schema t" "t_sequence (SetNextID t n) = t_sequence t"
  "t_sequenceCol (SetNextID t n) = t_sequenceCol t" "t_nextID (SetNextID t n) = n"
  "t_rows (SetSequenceValue t n) = t_rows t" "t_schema (SetSequenceValue t n) = t_schema t"
  "t_sequence (SetSequenceValue t n) = map_option (\<lambda>_. n) (t_sequence t)"
  "t_sequenceCol (SetSequenceValue t n) = t_sequenceCol t" "t_nextID (SetSequenceValue t n) = t_nextID t"
  by (simp_all add: SetNextID_def SetSequenceValue_def split: option.split)

lemma applyCommit_ok:
  assumes ok: "committable cs (tr_tx tr)" and ready: "commit_ready cs (tr_tx tr)"
    and counters: "counters_ok cs (tr_nextRowIDs tr)" "counters_ok cs (tr_sequences tr)"
  shows "\<exists>cs'. applyCommit cs tr = Some (cs', None) \<and> same_tables cs cs' \<and>
    (\<forall>tid. rel_option (post_commit tr tid) (csTable cs tid) (csTable cs' tid))"
proof -
  let ?tx = "tr_tx tr"
  obtain cs1 where cs1: "applyDeletes ?tx cs = Some (cs1, None)" "same_tables cs cs1"
    "\<And>tid. rel_option (\<lambda>t t'. tbl_inv t' \<and> same_frame t t' \<and> rowsOf t' = keptRows t ?tx tid) (csTable cs tid) (csTable cs1 tid)"
    using applyDeletes_ok [OF ok ready] by blast
  obtain cs2 where cs2: "applyInserts ?tx cs1 = Some (cs2, None)" "same_tables cs1 cs2"
    "\<And>tid. rel_option (\<lambda>t t'. tbl_inv t' \<and> same_frame t t' \<and> rowsOf t' = committed_rows t ?tx tid) (csTable cs tid) (csTable cs2 tid)"
    using applyInserts_ok [OF ok ready cs1(3)] by blast
  note same2 = same_tables_trans [OF cs1(2) cs2(2)]
  obtain cs3 where cs3: "applyNextIDs tr cs2 = Some (cs3, None)" "same_tables cs2 cs3"
    "\<And>tid. csTable cs3 tid = map_option (\<lambda>t. case map_of (tr_nextRowIDs tr) tid of None \<Rightarrow> t
       | Some n \<Rightarrow> if ts_isEvent (t_schema t) then t else SetNextID t n) (csTable cs2 tid)"
    using counterLoop_ok [OF counters_ok_same [OF same2 counters(1)], of SetNextID] unfolding applyNextIDs_def by blast
  note same3 = same_tables_trans [OF same2 cs3(2)]
  obtain cs4 where cs4: "applySequences tr cs3 = Some (cs4, None)" "same_tables cs3 cs4"
    "\<And>tid. csTable cs4 tid = map_option (\<lambda>t. case map_of (tr_sequences tr) tid of None \<Rightarrow> t
       | Some n \<Rightarrow> if ts_isEvent (t_schema t) then t else SetSequenceValue t n) (csTable cs3 tid)"
    using counterLoop_ok [OF counters_ok_same [OF same3 counters(2)], of SetSequenceValue] unfolding applySequences_def by blast
  have "rel_option (post_commit tr tid) (csTable cs tid) (csTable cs4 tid)" for tid
  proof (cases "csTable cs tid")
    case None
    then show ?thesis using cs2(3) [of tid] cs3(3) [of tid] cs4(3) [of tid] by (simp add: option_rel_Some1)
  next
    case (Some t)
    then obtain t2 where t2: "csTable cs2 tid = Some t2" "tbl_inv t2" "same_frame t t2" "rowsOf t2 = committed_rows t ?tx tid"
      using cs2(3) [of tid] by (auto simp: option_rel_Some1)
    have fr: "t_schema t2 = t_schema t" "t_nextID t2 = t_nextID t" "t_sequence t2 = t_sequence t" "t_sequenceCol t2 = t_sequenceCol t"
      using t2(3) by (simp_all add: same_frame_def)
    obtain t3 where t3: "csTable cs3 tid = Some t3" "tbl_inv t3" "t_schema t3 = t_schema t" "t_rows t3 = t_rows t2"
      "t_sequence t3 = t_sequence t" "t_sequenceCol t3 = t_sequenceCol t"
      "t_nextID t3 = (if ts_isEvent (t_schema t) then t_nextID t else nextRowID tr tid t)"
      using cs3(3) [of tid] t2(1,2) fr
      by (cases "map_of (tr_nextRowIDs tr) tid") (simp_all add: tbl_inv_counters nextRowID_def NextID_def split: if_splits)
    let ?t4 = "case map_of (tr_sequences tr) tid of None \<Rightarrow> t3 | Some n \<Rightarrow> if ts_isEvent (t_schema t3) then t3 else SetSequenceValue t3 n"
    have t4: "csTable cs4 tid = Some ?t4" using cs4(3) [of tid] t3(1) by simp
    have "post_commit tr tid t ?t4"
      using t3 t2(4) unfolding post_commit_def
      by (cases "map_of (tr_sequences tr) tid"; cases "ts_isEvent (t_schema t)"; cases "t_sequence t")
        (simp_all add: tbl_inv_counters nextSequenceValue_def)
    then show ?thesis using Some t4 by simp
  qed
  then show ?thesis
    using cs1(1) cs2(1) cs3(1) cs4(1) same_tables_trans [OF same3 cs4(2)] by (simp add: applyCommit_def andThen_def)
qed

section \<open>The changeset\<close>

lemma deletedRows_ok:
  "tbl_inv t \<Longrightarrow> set rids \<subseteq> dom (rowsOf t) \<Longrightarrow> deletedRows t rids = Inr (map (\<lambda>rid. the (rowsOf t rid)) rids)"
proof (induction rids)
  case (Cons rid rids)
  then obtain x where x: "rowsOf t rid = Some x" by auto
  have "productCopy x = x" by (rule productCopy_wf [OF tbl_inv_row [OF Cons.prems(1) x]])
  with Cons x show ?case by (simp add: rowView_def)
qed simp

text \<open>The net changes of a table: its deleted rows and its inserted rows, each in order of identifiers.\<close>

definition deletedOf :: "table \<Rightarrow> txState \<Rightarrow> tableID \<Rightarrow> productValue list" where
  "deletedOf t tx tid = map (\<lambda>rid. the (rowsOf t rid)) (sortedCommitMapKeys (bucketOf (tx_deletes tx) tid))"

definition insertedOf :: "txState \<Rightarrow> tableID \<Rightarrow> productValue list" where
  "insertedOf tx tid = map (rowAt (bucketOf (tx_inserts tx) tid)) (sortedCommitMapKeys (bucketOf (tx_inserts tx) tid))"

definition tableChange :: "tableID \<Rightarrow> table \<Rightarrow> productValue list \<Rightarrow> productValue list \<Rightarrow> tableChangeset" where
  "tableChange tid t ins dels = \<lparr>tc_tableID = tid, tc_tableName = ts_name (t_schema t), tc_schema = Some (t_schema t),
     tc_inserts = ins, tc_deletes = dels\<rparr>"

lemma TableChanges_update [simp]:
  "TableChanges (Some (ch\<lparr>ch_tables := AList.update tid (Some tc) (ch_tables ch)\<rparr>)) u =
     (if u = tid then Some tc else TableChanges (Some ch) u)"
  by (simp add: TableChanges_def update_conv')

lemma ensureTableChangeset_ok:
  "TableChanges (Some ch) tid = None \<or> TableChanges (Some ch) tid = Some (tableChange tid t ins dels) \<Longrightarrow>
   \<exists>ch'. ensureTableChangeset ch tid (Some (t_schema t)) =
     (ch', case TableChanges (Some ch) tid of None \<Rightarrow> tableChange tid t [] [] | Some tc \<Rightarrow> tc) \<and>
     ch_txID ch' = ch_txID ch \<and> (\<forall>u. u \<noteq> tid \<longrightarrow> TableChanges (Some ch') u = TableChanges (Some ch) u)"
  by (auto simp: ensureTableChangeset_def tableChange_def Let_def)

lemma prepareDeletes_ok:
  assumes ok: "committable cs tx"
  shows "distinct tids \<Longrightarrow> \<forall>tid \<in> set tids. deletes_ready cs tx tid \<and> TableChanges (Some ch) tid = None \<Longrightarrow>
    \<exists>ch'. prepareDeletes cs (tx_deletes tx) tids ch = Inr ch' \<and> ch_txID ch' = ch_txID ch \<and>
      (\<forall>tid. TableChanges (Some ch') tid = (if tid \<in> set tids
         then map_option (\<lambda>t. tableChange tid t [] (deletedOf t tx tid)) (csTable cs tid) else TableChanges (Some ch) tid))"
proof (induction tids arbitrary: ch)
  case (Cons tid tids)
  obtain t where t: "csTable cs tid = Some t" "delsOf tx tid \<subseteq> dom (rowsOf t)"
    using Cons.prems(2) by (auto simp: deletes_ready_def)
  have "tbl_inv t" using ok t(1) by (auto simp: committable_def)
  from deletedRows_ok [OF this, of "sortedCommitMapKeys (bucketOf (tx_deletes tx) tid)"] t(2)
  have rows: "deletedRows t (sortedCommitMapKeys (bucketOf (tx_deletes tx) tid)) = Inr (deletedOf t tx tid)"
    unfolding deletes_keys deletedOf_def by blast
  have none: "TableChanges (Some ch) tid = None" using Cons.prems(2) by simp
  then obtain ch1 where ch1: "ensureTableChangeset ch tid (Some (t_schema t)) = (ch1, tableChange tid t [] [])"
    "ch_txID ch1 = ch_txID ch" "\<forall>u. u \<noteq> tid \<longrightarrow> TableChanges (Some ch1) u = TableChanges (Some ch) u"
    using ensureTableChangeset_ok [of ch tid t] by auto
  let ?ch = "ch1\<lparr>ch_tables := AList.update tid (Some (tableChange tid t [] (deletedOf t tx tid))) (ch_tables ch1)\<rparr>"
  have "\<forall>u \<in> set tids. deletes_ready cs tx u \<and> TableChanges (Some ?ch) u = None"
    using Cons.prems ch1(3) by auto
  with Cons.IH [of ?ch] Cons.prems(1) obtain ch' where ch': "prepareDeletes cs (tx_deletes tx) tids ?ch = Inr ch'"
    "ch_txID ch' = ch_txID ?ch" "\<forall>u. TableChanges (Some ch') u = (if u \<in> set tids
         then map_option (\<lambda>t. tableChange u t [] (deletedOf t tx u)) (csTable cs u) else TableChanges (Some ?ch) u)" by auto
  have "prepareDeletes cs (tx_deletes tx) (tid # tids) ch = Inr ch'"
    using t(1) ch1(1) rows ch'(1) by (simp add: csTable_def tableChange_def)
  moreover have "TableChanges (Some ch') u = (if u \<in> set (tid # tids)
      then map_option (\<lambda>t. tableChange u t [] (deletedOf t tx u)) (csTable cs u) else TableChanges (Some ch) u)" for u
    using ch'(3) Cons.prems(1) t(1) ch1(3) by simp
  ultimately show ?case using ch'(2) ch1(2) by auto
qed simp

lemma insertable_wf: "insertable ts R kvs \<Longrightarrow> (rid, x) \<in> set kvs \<Longrightarrow> row_wf ts x"
  by (induction ts R kvs rule: insertable.induct) auto

lemma inserts_ready_copy:
  assumes "inserts_ready cs tx tid"
  obtains t where "csTable cs tid = Some t"
    "map (\<lambda>rid. productCopy (rowAt (bucketOf (tx_inserts tx) tid) rid)) (sortedCommitMapKeys (bucketOf (tx_inserts tx) tid)) = insertedOf tx tid"
proof -
  let ?m = "bucketOf (tx_inserts tx) tid"
  obtain t where t: "csTable cs tid = Some t" "insertable (t_schema t) (keptRows t tx tid) (rowsAt ?m (sortedCommitMapKeys ?m))"
    using assms by (auto simp: inserts_ready_def)
  have "productCopy (rowAt ?m rid) = rowAt ?m rid" if "rid \<in> set (sortedCommitMapKeys ?m)" for rid
    by (rule productCopy_wf [OF insertable_wf [OF t(2)]]) (use that in auto)
  then show thesis using that t(1) by (simp add: insertedOf_def)
qed

lemma prepareInserts_ok:
  "distinct tids \<Longrightarrow> \<forall>tid \<in> set tids. inserts_ready cs tx tid \<and>
      (\<forall>t. csTable cs tid = Some t \<longrightarrow>
        TableChanges (Some ch) tid \<in> insert None (range (\<lambda>dels. Some (tableChange tid t [] dels)))) \<Longrightarrow>
    \<exists>ch'. prepareInserts cs (tx_inserts tx) tids ch = Inr ch' \<and> ch_txID ch' = ch_txID ch \<and>
      (\<forall>tid. TableChanges (Some ch') tid = (if tid \<in> set tids
         then map_option (\<lambda>t. tableChange tid t (insertedOf tx tid)
           (case TableChanges (Some ch) tid of None \<Rightarrow> [] | Some tc \<Rightarrow> tc_deletes tc)) (csTable cs tid)
         else TableChanges (Some ch) tid))"
proof (induction tids arbitrary: ch)
  case (Cons tid tids)
  obtain t where t: "csTable cs tid = Some t"
    "map (\<lambda>rid. productCopy (rowAt (bucketOf (tx_inserts tx) tid) rid)) (sortedCommitMapKeys (bucketOf (tx_inserts tx) tid)) = insertedOf tx tid"
    using Cons.prems(2) inserts_ready_copy by (metis list.set_intros(1))
  let ?dels = "case TableChanges (Some ch) tid of None \<Rightarrow> [] | Some tc \<Rightarrow> tc_deletes tc"
  let ?tc = "tableChange tid t [] ?dels"
  have old: "TableChanges (Some ch) tid = None \<or> TableChanges (Some ch) tid = Some ?tc"
    using Cons.prems(2) t(1) by (auto simp: tableChange_def)
  then have tc: "(case TableChanges (Some ch) tid of None \<Rightarrow> tableChange tid t [] [] | Some tc \<Rightarrow> tc) = ?tc"
    by (cases "TableChanges (Some ch) tid") auto
  obtain ch1 where ch1: "ensureTableChangeset ch tid (Some (t_schema t)) = (ch1, ?tc)"
    "ch_txID ch1 = ch_txID ch" "\<forall>u. u \<noteq> tid \<longrightarrow> TableChanges (Some ch1) u = TableChanges (Some ch) u"
    using ensureTableChangeset_ok [OF old] unfolding tc by blast
  let ?ch = "ch1\<lparr>ch_tables := AList.update tid (Some (tableChange tid t (insertedOf tx tid) ?dels)) (ch_tables ch1)\<rparr>"
  have same: "TableChanges (Some ?ch) u = TableChanges (Some ch) u" if "u \<in> set tids" for u
  proof -
    have "u \<noteq> tid" using that Cons.prems(1) by auto
    then show ?thesis using ch1(3) by simp
  qed
  then have "\<forall>tid \<in> set tids. inserts_ready cs tx tid \<and>
      (\<forall>t. csTable cs tid = Some t \<longrightarrow>
        TableChanges (Some ?ch) tid \<in> insert None (range (\<lambda>dels. Some (tableChange tid t [] dels))))"
    using Cons.prems(2) by (simp del: TableChanges_update)
  with Cons.IH [of ?ch] Cons.prems(1) obtain ch' where ch': "prepareInserts cs (tx_inserts tx) tids ?ch = Inr ch'"
    "ch_txID ch' = ch_txID ?ch" "\<forall>u. TableChanges (Some ch') u = (if u \<in> set tids
         then map_option (\<lambda>t. tableChange u t (insertedOf tx u)
           (case TableChanges (Some ?ch) u of None \<Rightarrow> [] | Some tc \<Rightarrow> tc_deletes tc)) (csTable cs u)
         else TableChanges (Some ?ch) u)" by auto
  have "prepareInserts cs (tx_inserts tx) (tid # tids) ch = Inr ch'"
    using t ch1(1) ch'(1) by (simp add: csTable_def Let_def) (simp add: tableChange_def)
  moreover have "TableChanges (Some ch') u = (if u \<in> set (tid # tids)
      then map_option (\<lambda>t. tableChange u t (insertedOf tx u)
           (case TableChanges (Some ch) u of None \<Rightarrow> [] | Some tc \<Rightarrow> tc_deletes tc)) (csTable cs u)
      else TableChanges (Some ch) u)" for u
  proof (cases "u \<in> set tids")
    case True
    then show ?thesis using ch'(3) same by (simp del: TableChanges_update)
  next
    case False
    then show ?thesis using ch'(3) t(1) ch1(3) by auto
  qed
  ultimately show ?case using ch'(2) ch1(2) by auto
qed simp

text \<open>The net changes a transaction makes: one entry for every table with a buffered row.\<close>

definition netChange :: "committedState \<Rightarrow> txState \<Rightarrow> tableID \<Rightarrow> tableChangeset option" where
  "netChange cs tx tid = (if tid \<in> fst ` set (tx_inserts tx) \<union> fst ` set (tx_deletes tx)
     then map_option (\<lambda>t. tableChange tid t (insertedOf tx tid) (deletedOf t tx tid)) (csTable cs tid) else None)"

text \<open>A changeset is a Go map without nil entries.\<close>

definition changeset_wf :: "changeset \<Rightarrow> bool" where
  "changeset_wf ch \<longleftrightarrow> distinct (map fst (ch_tables ch)) \<and> None \<notin> snd ` set (ch_tables ch)"

lemma changeset_wf_update: "changeset_wf ch \<Longrightarrow> changeset_wf (ch\<lparr>ch_tables := AList.update tid (Some tc) (ch_tables ch)\<rparr>)"
  using set_AList_update [of tid "Some tc" "ch_tables ch"] by (fastforce simp: changeset_wf_def distinct_update)

lemma ensure_wf: "ensureTableChangeset ch tid ts = (ch', tc) \<Longrightarrow> changeset_wf ch \<Longrightarrow> changeset_wf ch'"
  by (auto simp: ensureTableChangeset_def Let_def changeset_wf_update split: option.splits if_splits)

lemma prepareDeletes_wf: "prepareDeletes cs d tids ch = Inr ch' \<Longrightarrow> changeset_wf ch \<Longrightarrow> changeset_wf ch'"
proof (induction tids arbitrary: ch)
  case (Cons tid tids)
  then show ?case
    by (auto simp: bindE_def split: option.splits prod.splits sum.splits
        intro: changeset_wf_update [OF ensure_wf])
qed simp

lemma prepareInserts_wf: "prepareInserts cs i tids ch = Inr ch' \<Longrightarrow> changeset_wf ch \<Longrightarrow> changeset_wf ch'"
proof (induction tids arbitrary: ch)
  case (Cons tid tids)
  then show ?case
    by (auto simp: Let_def split: option.splits prod.splits intro: changeset_wf_update [OF ensure_wf])
qed simp

lemma no_bucket: "tid \<notin> fst ` set m \<Longrightarrow> bucketOf m tid = []"
  by (simp add: bucketOf_def map_of_eq_None_iff [THEN iffD2])

lemma sortedKeys_Nil [simp]: "sortedCommitMapKeys [] = []"
  by (simp add: sortedCommitMapKeys_def)

lemma prepareChangeset_ok:
  assumes ok: "committable cs tx" and ready: "commit_ready cs tx"
  shows "\<exists>ch. prepareChangeset cs tx = Inr ch \<and> ch_txID ch = 0 \<and> TableChanges (Some ch) = netChange cs tx \<and> changeset_wf ch"
proof -
  let ?dt = "sortedCommitMapKeys (tx_deletes tx)" and ?it = "sortedCommitMapKeys (tx_inserts tx)"
  let ?e = "\<lparr>ch_txID = 0, ch_tables = []\<rparr> :: changeset"
  have e: "TableChanges (Some ?e) tid = None" for tid by (simp add: TableChanges_def)
  have d: "\<forall>tid \<in> set ?dt. deletes_ready cs tx tid \<and> TableChanges (Some ?e) tid = None"
    using ready e by (auto simp: commit_ready_def)
  obtain ch1 where ch1: "prepareDeletes cs (tx_deletes tx) ?dt ?e = Inr ch1" "ch_txID ch1 = 0"
    "\<And>tid. TableChanges (Some ch1) tid = (if tid \<in> set ?dt
         then map_option (\<lambda>t. tableChange tid t [] (deletedOf t tx tid)) (csTable cs tid) else None)"
    using prepareDeletes_ok [OF ok committable_keys(2) [OF ok] d] e by auto
  have i: "\<forall>tid \<in> set ?it. inserts_ready cs tx tid \<and> (\<forall>t. csTable cs tid = Some t \<longrightarrow>
        TableChanges (Some ch1) tid \<in> insert None (range (\<lambda>dels. Some (tableChange tid t [] dels))))"
    using ready ch1(3) by (auto simp: commit_ready_def)
  obtain ch where ch: "prepareInserts cs (tx_inserts tx) ?it ch1 = Inr ch" "ch_txID ch = 0"
    "\<And>tid. TableChanges (Some ch) tid = (if tid \<in> set ?it
         then map_option (\<lambda>t. tableChange tid t (insertedOf tx tid)
           (case TableChanges (Some ch1) tid of None \<Rightarrow> [] | Some tc \<Rightarrow> tc_deletes tc)) (csTable cs tid)
         else TableChanges (Some ch1) tid)"
    using prepareInserts_ok [OF committable_keys(1) [OF ok] i] ch1(2) by auto
  have "TableChanges (Some ch) tid = netChange cs tx tid" for tid
    unfolding ch(3) ch1(3) netChange_def
    by (cases "csTable cs tid")
      (simp_all add: no_bucket deletedOf_def insertedOf_def, simp add: tableChange_def)
  moreover have "changeset_wf ch"
    by (rule prepareInserts_wf [OF ch(1) prepareDeletes_wf [OF ch1(1)]]) (simp add: changeset_wf_def)
  ultimately show ?thesis using ch1(1) ch(1,2)
    by (simp add: prepareChangeset_def allTableDeletes_def allTableInserts_def fun_eq_iff)
qed

section \<open>Commit\<close>

definition accepts :: "(changeset \<Rightarrow> store_error option) option \<Rightarrow> changeset \<Rightarrow> store_error option" where
  "accepts validate ch = (case validate of None \<Rightarrow> None | Some f \<Rightarrow> f ch)"

text \<open>The outcome of a commit that succeeds.\<close>

definition commit_done :: "committedState \<Rightarrow> transaction \<Rightarrow> txID \<Rightarrow> bool \<Rightarrow> committedState \<Rightarrow> transaction \<Rightarrow> changeset \<Rightarrow> bool" where
  "commit_done cs tr txID advance cs' tr' ch \<longleftrightarrow>
     map fst (cs_tables cs') = map fst (cs_tables cs) \<and>
     cs_committedTxID cs' = (if advance then txID else cs_committedTxID cs) \<and>
     (\<forall>tid. rel_option (post_commit tr tid) (csTable cs tid) (csTable cs' tid)) \<and>
     tr_state tr' = TransactionCommitted \<and> tr_tx tr' = tr_tx tr \<and>
     ch_txID ch = (if advance then txID else 0) \<and> TableChanges (Some ch) = netChange cs (tr_tx tr) \<and> changeset_wf ch"

definition tx_open :: "transaction \<Rightarrow> bool" where
  "tx_open tr \<longleftrightarrow> tr_state tr \<noteq> TransactionRolledBack \<and> tr_state tr \<noteq> TransactionCommitted"

lemma csTable_horizon [simp]: "csTable (cs\<lparr>cs_committedTxID := n\<rparr>) = csTable cs"
  by (simp add: fun_eq_iff csTable_def tableLocked_def)

lemma TableChanges_txID [simp]: "TableChanges (Some (ch\<lparr>ch_txID := n\<rparr>)) = TableChanges (Some ch)"
  by (simp add: fun_eq_iff TableChanges_def)

lemma commit_closed:
  "\<not> tx_open tr \<Longrightarrow> \<exists>e. commitWithValidation cs tr n adv v = Some (cs, tr, Inl e)"
  by (auto simp: tx_open_def commitWithValidation_def)

lemma commit_conflict:
  assumes "committable cs (tr_tx tr)" "\<not> commit_ready cs (tr_tx tr)"
  shows "\<exists>e. commitWithValidation cs tr n adv v = Some (cs, tr, Inl e)"
proof -
  obtain e where "revalidateCommit cs (tr_tx tr) = Some (Some e)" using revalidateCommit_ok [OF assms(1)] assms(2) by auto
  then show ?thesis by (auto simp: commitWithValidation_def)
qed

lemma commit_prepared:
  assumes ok: "committable cs (tr_tx tr)" and ready: "commit_ready cs (tr_tx tr)" and op: "tx_open tr"
    and counters: "counters_ok cs (tr_nextRowIDs tr)" "counters_ok cs (tr_sequences tr)"
  shows "\<exists>ch cs' tr'. commit_done cs tr n adv cs' tr' ch \<and>
    commitWithValidation cs tr n adv v = Some (case accepts v ch of Some e \<Rightarrow> (cs, tr, Inl e) | None \<Rightarrow> (cs', tr', Inr ch))"
proof -
  have r: "revalidateCommit cs (tr_tx tr) = Some None" using revalidateCommit_ok [OF ok] ready by auto
  obtain ch where ch: "prepareChangeset cs (tr_tx tr) = Inr ch" "ch_txID ch = 0" "TableChanges (Some ch) = netChange cs (tr_tx tr)"
    "changeset_wf ch"
    using prepareChangeset_ok [OF ok ready] by blast
  obtain cs1 where cs1: "applyCommit cs tr = Some (cs1, None)" "same_tables cs cs1"
    "\<forall>tid. rel_option (post_commit tr tid) (csTable cs tid) (csTable cs1 tid)"
    using applyCommit_ok [OF ok ready counters] by blast
  let ?ch = "if adv then ch\<lparr>ch_txID := n\<rparr> else ch"
  let ?cs = "if adv then cs1\<lparr>cs_committedTxID := n\<rparr> else cs1"
  have "commit_done cs tr n adv ?cs (finishCommitted tr) ?ch"
    using ch cs1 by (auto simp: commit_done_def same_tables_def finishCommitted_def changeset_wf_def)
  moreover have "commitWithValidation cs tr n adv v =
      Some (case accepts v ?ch of Some e \<Rightarrow> (cs, tr, Inl e) | None \<Rightarrow> (?cs, finishCommitted tr, Inr ?ch))"
    using op r ch(1) cs1(1) by (simp add: commitWithValidation_def accepts_def tx_open_def Let_def split: option.split)
  ultimately show ?thesis by blast
qed

section \<open>A transaction that satisfies its invariant is ready to commit\<close>

lemma rows_ok_conflict:
  assumes "rows_ok ts R'" "R \<subseteq>\<^sub>m R'" "R' rid = Some row" "R rid = None"
  shows "rowConflict ts R row = None"
proof -
  have sub: "R' r = Some x" if "R r = Some x" for r x using that assms(2) unfolding map_le_def by (metis domI)
  have "\<not> taken R row ix" if ix: "ix \<in> set (ts_indexes ts)" for ix
  proof
    assume "taken R row ix"
    then obtain r x where x: "ix_unique ix" "R r = Some x" "compareKey (keyOf ix x) (keyOf ix row) = 0" by (auto simp: taken_def)
    have "unique_ok R' ix" using assms(1) ix by (simp add: rows_ok_def)
    then have "r = rid" using x sub [OF x(2)] assms(3) unfolding unique_ok_def by blast
    then show False using x(2) assms(4) by simp
  qed
  moreover have "\<not> productEqual x row" if p: "PrimaryIndex ts = None" and x: "x \<in> ran R" for x
  proof
    assume eq: "productEqual x row"
    obtain r where r: "R r = Some x" using x by (auto simp: ran_def)
    have "set_ok R'" using assms(1) p by (simp add: rows_ok_def)
    then have "r = rid" using sub [OF r] assms(3) eq unfolding set_ok_def by blast
    then show False using r assms(4) by simp
  qed
  ultimately show ?thesis unfolding rowConflict_None by blast
qed

lemma insertable_subset:
  "rows_ok ts R' \<Longrightarrow> R \<subseteq>\<^sub>m R' \<Longrightarrow> distinct (map fst kvs) \<Longrightarrow>
   \<forall>(rid, row) \<in> set kvs. R' rid = Some row \<and> R rid = None \<and> row_wf ts row \<Longrightarrow> insertable ts R kvs"
proof (induction kvs arbitrary: R)
  case (Cons kv kvs)
  obtain rid row where kv: "kv = (rid, row)" by (cases kv)
  have r: "R' rid = Some row" "R rid = None" "row_wf ts row" using Cons.prems(4) by (auto simp: kv)
  have "R(rid \<mapsto> row) \<subseteq>\<^sub>m R'" using Cons.prems(2) r(1) by (auto simp: map_le_def)
  moreover have "\<forall>(r, x) \<in> set kvs. R' r = Some x \<and> (R(rid \<mapsto> row)) r = None \<and> row_wf ts x"
    using Cons.prems(3,4) by (force simp: kv)
  moreover have "distinct (map fst kvs)" using Cons.prems(3) by simp
  ultimately have "insertable ts (R(rid \<mapsto> row)) kvs" by (intro Cons.IH [OF Cons.prems(1)])
  then show ?case using r rows_ok_conflict [OF Cons.prems(1,2) r(1,2)] by (simp add: kv)
qed simp

lemma tx_inv_committable: "tx_inv cs tr \<Longrightarrow> committable cs (tr_tx tr)"
proof -
  assume inv: "tx_inv cs tr"
  have "values_ok x" if "x \<in> ran (insOf (tr_tx tr) tid)" for tid x
  proof (cases "csTable cs tid")
    case None
    then show ?thesis using inv that by (auto simp: tx_inv_def)
  next
    case (Some t)
    then show ?thesis using tx_inv_table(5) [OF inv Some] that row_wf_values_ok by (auto simp: tx_table_ok_def)
  qed
  then show ?thesis using inv tx_inv_table [OF inv] by (auto simp: committable_def tx_inv_def)
qed

lemma nested_bucket: "nested_ok mm \<Longrightarrow> tid \<in> fst ` set mm \<Longrightarrow> bucketOf mm tid \<noteq> []"
  by (auto simp: nested_ok_def bucketOf_def)

lemma tx_inv_ready: "tx_inv cs tr \<Longrightarrow> commit_ready cs (tr_tx tr)"
proof -
  assume inv: "tx_inv cs tr"
  let ?tx = "tr_tx tr"
  have n: "nested_ok (tx_inserts ?tx)" "nested_ok (tx_deletes ?tx)" using inv by (simp_all add: tx_inv_def buffers_ok_def)
  have "deletes_ready cs ?tx tid" if tid: "tid \<in> fst ` set (tx_deletes ?tx)" for tid
  proof -
    have "delsOf ?tx tid \<noteq> {}" using nested_bucket [OF n(2) tid]
      by (auto simp flip: deletes_keys)
    then obtain t where t: "csTable cs tid = Some t" using inv by (cases "csTable cs tid") (auto simp: tx_inv_def)
    then show ?thesis using tx_inv_table(5) [OF inv t] by (auto simp: deletes_ready_def tx_table_ok_def)
  qed
  moreover have "inserts_ready cs ?tx tid" if tid: "tid \<in> fst ` set (tx_inserts ?tx)" for tid
  proof -
    let ?m = "bucketOf (tx_inserts ?tx) tid"
    have "insOf ?tx tid \<noteq> Map.empty" using nested_bucket [OF n(1) tid] by (simp add: insOf_def)
    then obtain t where t: "csTable cs tid = Some t" using inv by (cases "csTable cs tid") (auto simp: tx_inv_def)
    note ok = tx_inv_table(5) [OF inv t, unfolded tx_table_ok_def]
    have le: "keptRows t ?tx tid \<subseteq>\<^sub>m viewRows t ?tx tid"
      using ok by (auto simp: map_le_def viewRows_def map_add_def restrict_map_def split: option.split)
    have at: "insOf ?tx tid rid = Some (rowAt ?m rid)" if "rid \<in> fst ` set ?m" for rid
      using that map_of_eq_None_iff [of ?m rid] by (auto simp: insOf_def rowAt_def split: option.split)
    have "viewRows t ?tx tid rid = Some (rowAt ?m rid) \<and> keptRows t ?tx tid rid = None \<and> row_wf (t_schema t) (rowAt ?m rid)"
      if rid: "rid \<in> fst ` set ?m" for rid
    proof -
      have "rowsOf t rid = None" using ok at [OF rid] by (metis disjoint_iff domI domIff)
      then show ?thesis using ok at [OF rid] ranI [of "insOf ?tx tid" rid] by (simp add: viewRows_eq_Some restrict_map_def)
    qed
    then have "\<forall>(rid, row) \<in> set (rowsAt ?m (sortedCommitMapKeys ?m)). viewRows t ?tx tid rid = Some row \<and>
        keptRows t ?tx tid rid = None \<and> row_wf (t_schema t) row" by auto
    moreover have "distinct (map fst (rowsAt ?m (sortedCommitMapKeys ?m)))"
      using committable_keys(3) [OF tx_inv_committable [OF inv]] by (simp add: comp_def)
    ultimately show ?thesis using t insertable_subset [OF _ le] ok by (auto simp: inserts_ready_def)
  qed
  ultimately show ?thesis by (simp add: commit_ready_def)
qed

lemma post_commit_inv:
  assumes inv: "tx_inv cs tr" and t: "csTable cs tid = Some t" and p: "post_commit tr tid t t'"
  shows "tbl_inv t' \<and> alloc_ok t' \<and> seq_wf t' \<and> (ts_isEvent (t_schema t') \<longrightarrow> t_rows t' = [])"
proof -
  note ok = tx_inv_table [OF inv t]
  have "alloc_ok t'"
  proof (cases "ts_isEvent (t_schema t)")
    case True
    then show ?thesis using ok(2,4) p by (simp add: alloc_ok_def post_commit_def committed_rows_def)
  next
    case False
    have nxt: "t_nextID t' = nextRowID tr tid t" and rows: "rowsOf t' = viewRows t (tr_tx tr) tid"
      using p False by (simp_all add: post_commit_def committed_rows_def)
    have "r < nextRowID tr tid t" if "viewRows t (tr_tx tr) tid r = Some x" for r x
    proof (cases "insOf (tr_tx tr) tid r")
      case None
      then have "r < t_nextID t" using that ok(2) by (auto simp: viewRows_eq_Some alloc_ok_def)
      also have "t_nextID t \<le> nextRowID tr tid t" using ok(5) by (simp add: tx_table_ok_def)
      finally show ?thesis .
    next
      case (Some y)
      then show ?thesis using ok(5) by (auto simp: tx_table_ok_def)
    qed
    moreover have "0 < nextRowID tr tid t"
    proof -
      have "0 < t_nextID t" using ok(2) by (simp add: alloc_ok_def)
      also have "t_nextID t \<le> nextRowID tr tid t" using ok(5) by (simp add: tx_table_ok_def)
      finally show ?thesis .
    qed
    ultimately show ?thesis using rows nxt by (auto simp: alloc_ok_def)
  qed
  moreover have "seq_wf t'"
    using ok(3) p by (auto simp: seq_wf_def post_commit_def nextSequenceValue_def split: option.splits)
  moreover have "t_rows t' = []" if "ts_isEvent (t_schema t')"
  proof -
    have "rowsOf t' = Map.empty" using that p ok(4) by (simp add: post_commit_def committed_rows_def)
    then show ?thesis by simp
  qed
  ultimately show ?thesis using p by (simp add: post_commit_def)
qed

lemma commit_done_inv: "tx_inv cs tr \<Longrightarrow> commit_done cs tr n adv cs' tr' ch \<Longrightarrow> cs_inv cs'"
proof -
  assume inv: "tx_inv cs tr" and c: "commit_done cs tr n adv cs' tr' ch"
  have d: "distinct (map fst (cs_tables cs))" using inv by (simp add: tx_inv_def cs_inv_def)
  have "tbl_inv t' \<and> alloc_ok t' \<and> seq_wf t' \<and> (ts_isEvent (t_schema t') \<longrightarrow> t_rows t' = [])"
    if t': "csTable cs' tid = Some t'" for tid t'
  proof -
    have "rel_option (post_commit tr tid) (csTable cs tid) (csTable cs' tid)" using c by (simp add: commit_done_def)
    then obtain t where "csTable cs tid = Some t" "post_commit tr tid t t'" using t' by (auto simp: option_rel_Some2)
    then show ?thesis by (rule post_commit_inv [OF inv])
  qed
  then show ?thesis using c d by (simp add: cs_inv_def commit_done_def)
qed

section \<open>Bags of rows\<close>

definition rowBag :: "('k \<Rightarrow> 'v option) \<Rightarrow> 'v multiset" where
  "rowBag m = image_mset (the \<circ> m) (mset_set (dom m))"

lemma rowBag_list: "distinct (map fst xs) \<Longrightarrow> rowBag (map_of xs) = mset (map snd xs)"
proof -
  assume d: "distinct (map fst xs)"
  have "dom (map_of xs) = set (map fst xs)" by (simp add: dom_map_of_conv_image_fst)
  then have "mset_set (dom (map_of xs)) = mset (map fst xs)" using mset_set_set [OF d] by simp
  moreover have "map (the \<circ> map_of xs) (map fst xs) = map snd xs" using d by (auto simp: comp_def)
  ultimately show ?thesis unfolding rowBag_def by (metis mset_map)
qed

lemma rowBag_at: "distinct ks \<Longrightarrow> set ks \<subseteq> dom m \<Longrightarrow> mset (map (\<lambda>k. the (m k)) ks) = rowBag (m |` set ks)"
proof -
  assume d: "distinct ks" "set ks \<subseteq> dom m"
  have "dom (m |` set ks) = set ks" using d(2) by auto
  moreover have "image_mset (the \<circ> (m |` set ks)) (mset ks) = image_mset (\<lambda>k. the (m k)) (mset ks)"
    by (rule image_mset_cong) simp
  ultimately show ?thesis using mset_set_set [OF d(1)] by (simp add: rowBag_def)
qed

lemma rowBag_add:
  assumes "finite (dom a)" "finite (dom b)" "dom a \<inter> dom b = {}"
  shows "rowBag (a ++ b) = rowBag a + rowBag b"
proof -
  have "image_mset (the \<circ> (a ++ b)) (mset_set (dom a)) = image_mset (the \<circ> a) (mset_set (dom a))"
    by (rule image_mset_cong) (use assms in \<open>auto simp: map_add_def disjoint_iff domIff split: option.split\<close>)
  moreover have "image_mset (the \<circ> (a ++ b)) (mset_set (dom b)) = image_mset (the \<circ> b) (mset_set (dom b))"
    by (rule image_mset_cong) (use assms in \<open>auto simp: map_add_def disjoint_iff domIff split: option.split\<close>)
  ultimately show ?thesis using assms mset_set_Union [of "dom a" "dom b"] by (simp add: rowBag_def Un_commute [of "dom b"])
qed

lemma rowBag_split: "finite (dom m) \<Longrightarrow> rowBag m = rowBag (m |` (- A)) + rowBag (m |` A)"
proof -
  assume f: "finite (dom m)"
  have "m |` (- A) ++ m |` A = m" by (auto simp: fun_eq_iff map_add_def restrict_map_def split: option.split)
  then show ?thesis using rowBag_add [of "m |` (- A)" "m |` A"] f by (auto simp: finite_subset)
qed

lemma insertedOf_bag: "buffers_ok tx \<Longrightarrow> mset (insertedOf tx tid) = rowBag (insOf tx tid)"
proof -
  assume "buffers_ok tx"
  then have "nested_ok (tx_inserts tx)" by (simp add: buffers_ok_def)
  note d = nested_ok_bucket [OF this, of tid]
  let ?m = "bucketOf (tx_inserts tx) tid"
  have dom: "set (sortedCommitMapKeys ?m) = dom (map_of ?m)" by (simp add: dom_map_of_conv_image_fst)
  have "rowAt ?m k = the (map_of ?m k)" if "k \<in> dom (map_of ?m)" for k using that by (auto simp: rowAt_def)
  then have "insertedOf tx tid = map (\<lambda>k. the (map_of ?m k)) (sortedCommitMapKeys ?m)"
    using dom by (simp add: insertedOf_def)
  moreover have "map_of ?m |` dom (map_of ?m) = map_of ?m" by (auto simp: restrict_map_def fun_eq_iff domIff)
  ultimately show ?thesis using rowBag_at [OF sortedKeys_distinct [OF d], of "map_of ?m"] dom by (simp add: insOf_def)
qed

lemma deletedOf_bag:
  assumes "buffers_ok tx" "delsOf tx tid \<subseteq> dom (rowsOf t)"
  shows "mset (deletedOf t tx tid) = rowBag (rowsOf t |` delsOf tx tid)"
proof -
  have "nested_ok (tx_deletes tx)" using assms(1) by (simp add: buffers_ok_def)
  from rowBag_at [OF sortedKeys_distinct [OF nested_ok_bucket [OF this]], of tid "rowsOf t"]
  show ?thesis using assms(2) unfolding deletes_keys deletedOf_def by simp
qed

lemma netChange_rows:
  assumes "csTable cs tid = Some t"
  shows "(case netChange cs tx tid of None \<Rightarrow> [] | Some tc \<Rightarrow> tc_inserts tc) = insertedOf tx tid"
    "(case netChange cs tx tid of None \<Rightarrow> [] | Some tc \<Rightarrow> tc_deletes tc) = deletedOf t tx tid"
  using assms by (auto simp: netChange_def tableChange_def insertedOf_def deletedOf_def no_bucket)

lemma commit_bag:
  assumes inv: "tx_inv cs tr" and t: "csTable cs tid = Some t" and p: "post_commit tr tid t t'"
    and ev: "\<not> ts_isEvent (t_schema t)"
  shows "mset (map snd (tableScan t')) + mset (deletedOf t (tr_tx tr) tid) = mset (map snd (tableScan t)) + mset (insertedOf (tr_tx tr) tid)"
proof -
  let ?tx = "tr_tx tr"
  have b: "buffers_ok ?tx" using inv by (simp add: tx_inv_def)
  note ok = tx_inv_table [OF inv t]
  have sub: "delsOf ?tx tid \<subseteq> dom (rowsOf t)" and dis: "dom (insOf ?tx tid) \<inter> dom (rowsOf t) = {}"
    using ok(5) by (simp_all add: tx_table_ok_def)
  have inv': "tbl_inv t'" using p by (simp add: post_commit_def)
  have bag: "rowBag (rowsOf u) = mset (map snd (tableScan u))" if "tbl_inv u" for u
    unfolding tableScan_eq [OF that] by (rule rowBag_list) (use that in \<open>simp add: tbl_inv_def\<close>)
  have fin: "finite (dom (rowsOf t))" "finite (dom (insOf ?tx tid))" by (simp_all add: insOf_def finite_dom_map_of)
  have "rowsOf t' = keptRows t ?tx tid ++ insOf ?tx tid" using p ev by (simp add: post_commit_def committed_rows_def viewRows_def)
  moreover have "rowBag (keptRows t ?tx tid ++ insOf ?tx tid) = rowBag (keptRows t ?tx tid) + rowBag (insOf ?tx tid)"
    by (rule rowBag_add) (use fin dis in \<open>auto simp: finite_subset\<close>)
  ultimately show ?thesis
    using rowBag_split [OF fin(1), of "delsOf ?tx tid"] bag [OF inv'] bag [OF ok(1)]
    by (simp add: insertedOf_bag [OF b] deletedOf_bag [OF b sub])
qed

section \<open>Histories of commits\<close>

definition changeInserts :: "changeset \<Rightarrow> tableID \<Rightarrow> productValue list" where
  "changeInserts ch tid = (case TableChanges (Some ch) tid of None \<Rightarrow> [] | Some tc \<Rightarrow> tc_inserts tc)"

definition changeDeletes :: "changeset \<Rightarrow> tableID \<Rightarrow> productValue list" where
  "changeDeletes ch tid = (case TableChanges (Some ch) tid of None \<Rightarrow> [] | Some tc \<Rightarrow> tc_deletes tc)"

text \<open>The rows of a table, as a bag.\<close>

definition tableBag :: "table \<Rightarrow> productValue multiset" where
  "tableBag t = mset (map snd (tableScan t))"

text \<open>One transaction of a serial history: a reducer's operations, then the commit.\<close>

inductive db_step :: "committedState \<Rightarrow> changeset \<Rightarrow> committedState \<Rightarrow> bool" where
  commit: "list_all tx_op_ok ops \<Longrightarrow> tx_run cs NewTransaction ops = Some (tr, oks) \<Longrightarrow>
    CommitWithValidationAtTxID cs (Seal tr) txID validate = Some (cs', tr', Inr ch) \<Longrightarrow> db_step cs ch cs'"

inductive db_history :: "committedState \<Rightarrow> changeset list \<Rightarrow> committedState \<Rightarrow> bool" where
  start: "db_history cs [] cs"
| extend: "db_history cs chs cs1 \<Longrightarrow> db_step cs1 ch cs2 \<Longrightarrow> db_history cs (chs @ [ch]) cs2"

lemma Seal_inv: "tx_inv cs tr \<Longrightarrow> tx_inv cs (Seal tr)"
  by (auto simp: Seal_def tx_inv_def cache_inv_def tx_table_ok_def nextRowID_def)

lemma Seal_open: "tr_state tr = TransactionActive \<Longrightarrow> tx_open (Seal tr)" "tr_tx (Seal tr) = tr_tx tr"
  by (simp_all add: Seal_def tx_open_def)

lemma run_committable:
  assumes "cs_inv cs" "list_all tx_op_ok ops"
  obtains tr oks where "tx_run cs NewTransaction ops = Some (tr, oks)" "tx_inv cs tr" "tx_inv cs (Seal tr)" "tx_open (Seal tr)"
    "tr_state tr = TransactionActive"
proof -
  have "tr_state NewTransaction = TransactionActive" by (simp add: NewTransaction_def)
  from tx_run_ok [OF tx_inv_New [OF assms(1)] this assms(2)] obtain tr oks where
    "tx_run cs NewTransaction ops = Some (tr, oks)" "tx_inv cs tr" "tr_state tr = TransactionActive" by blast
  then show thesis using that Seal_inv Seal_open by blast
qed

lemma commit_tx_inv:
  assumes inv: "tx_inv cs tr" and op: "tx_open tr"
  obtains ch cs' tr' where "commit_done cs tr n adv cs' tr' ch" "cs_inv cs'"
    "commitWithValidation cs tr n adv v = Some (case accepts v ch of Some e \<Rightarrow> (cs, tr, Inl e) | None \<Rightarrow> (cs', tr', Inr ch))"
proof -
  have "counters_ok cs (tr_nextRowIDs tr)" "counters_ok cs (tr_sequences tr)" using inv by (simp_all add: tx_inv_def)
  from commit_prepared [OF tx_inv_committable [OF inv] tx_inv_ready [OF inv] op this, of n adv v]
  show thesis using that commit_done_inv [OF inv] by blast
qed

lemma commit_result:
  assumes inv: "tx_inv cs tr" and op: "tx_open tr"
    and c: "commitWithValidation cs tr n adv v = Some (cs', tr', Inr ch)"
  shows "commit_done cs tr n adv cs' tr' ch" "cs_inv cs'"
proof -
  obtain ch1 cs1 tr1 where d: "commit_done cs tr n adv cs1 tr1 ch1" "cs_inv cs1"
    "commitWithValidation cs tr n adv v = Some (case accepts v ch1 of Some e \<Rightarrow> (cs, tr, Inl e) | None \<Rightarrow> (cs1, tr1, Inr ch1))"
    by (rule commit_tx_inv [OF inv op])
  have "cs1 = cs' \<and> tr1 = tr' \<and> ch1 = ch" using c d(3) by (cases "accepts v ch1") simp_all
  then show "commit_done cs tr n adv cs' tr' ch" "cs_inv cs'" using d(1,2) by simp_all
qed

lemma commit_done_bag:
  assumes inv: "tx_inv cs tr" and c: "commit_done cs tr n adv cs' tr' ch" and t: "csTable cs tid = Some t"
  shows "\<exists>t'. csTable cs' tid = Some t' \<and> t_schema t' = t_schema t \<and>
    (\<not> ts_isEvent (t_schema t) \<longrightarrow>
      tableBag t' + mset (changeDeletes ch tid) = tableBag t + mset (changeInserts ch tid))"
proof -
  have rel: "rel_option (post_commit tr tid) (csTable cs tid) (csTable cs' tid)" and ch: "TableChanges (Some ch) = netChange cs (tr_tx tr)"
    using c by (simp_all add: commit_done_def)
  obtain t' where t': "csTable cs' tid = Some t'" "post_commit tr tid t t'" using rel t by (auto simp: option_rel_Some1)
  have "t_schema t' = t_schema t" using t'(2) by (simp add: post_commit_def)
  then show ?thesis using t'(1) commit_bag [OF inv t t'(2)]
    by (simp add: tableBag_def changeDeletes_def changeInserts_def ch netChange_rows [OF t])
qed

lemma db_step_ok:
  assumes "db_step cs ch cs'" "cs_inv cs"
  shows "cs_inv cs' \<and> CommittedTxID cs' = ch_txID ch \<and> (\<forall>tid t. csTable cs tid = Some t \<longrightarrow>
    (\<exists>t'. csTable cs' tid = Some t' \<and> t_schema t' = t_schema t \<and>
      (\<not> ts_isEvent (t_schema t) \<longrightarrow>
        tableBag t' + mset (changeDeletes ch tid) = tableBag t + mset (changeInserts ch tid))))"
proof -
  obtain ops tr oks txID validate tr' where r: "list_all tx_op_ok ops" "tx_run cs NewTransaction ops = Some (tr, oks)"
    "CommitWithValidationAtTxID cs (Seal tr) txID validate = Some (cs', tr', Inr ch)"
    using assms(1) by (auto elim: db_step.cases)
  have inv: "tx_inv cs (Seal tr)" "tx_open (Seal tr)" using run_committable [OF assms(2) r(1)] r(2) by auto
  have c: "commit_done cs (Seal tr) txID True cs' tr' ch" "cs_inv cs'"
    using commit_result [OF inv] r(3) by (simp_all add: CommitWithValidationAtTxID_def)
  then show ?thesis using commit_done_bag [OF inv(1) c(1)] by (simp add: commit_done_def CommittedTxID_def)
qed

lemma db_history_ok:
  assumes "db_history cs chs cs'" "cs_inv cs"
  shows "cs_inv cs' \<and> (chs \<noteq> [] \<longrightarrow> CommittedTxID cs' = ch_txID (last chs)) \<and> (\<forall>tid t. csTable cs tid = Some t \<longrightarrow>
    (\<exists>t'. csTable cs' tid = Some t' \<and> t_schema t' = t_schema t \<and>
      (\<not> ts_isEvent (t_schema t) \<longrightarrow>
        tableBag t' + mset (concat (map (\<lambda>ch. changeDeletes ch tid) chs)) =
        tableBag t + mset (concat (map (\<lambda>ch. changeInserts ch tid) chs)))))"
  using assms
proof (induction rule: db_history.induct)
  case (extend cs chs cs1 ch cs2)
  note h = extend.IH [OF extend.prems]
  note s = db_step_ok [OF extend.hyps(2)]
  have "\<exists>t2. csTable cs2 tid = Some t2 \<and> t_schema t2 = t_schema t \<and>
      (\<not> ts_isEvent (t_schema t) \<longrightarrow>
        tableBag t2 + mset (concat (map (\<lambda>ch. changeDeletes ch tid) (chs @ [ch]))) =
        tableBag t + mset (concat (map (\<lambda>ch. changeInserts ch tid) (chs @ [ch]))))"
    if t: "csTable cs tid = Some t" for tid t
  proof -
    obtain t1 where t1: "csTable cs1 tid = Some t1" "t_schema t1 = t_schema t"
      "\<not> ts_isEvent (t_schema t) \<longrightarrow> tableBag t1 + mset (concat (map (\<lambda>ch. changeDeletes ch tid) chs)) =
        tableBag t + mset (concat (map (\<lambda>ch. changeInserts ch tid) chs))" using h t by blast
    obtain t2 where t2: "csTable cs2 tid = Some t2" "t_schema t2 = t_schema t1"
      "\<not> ts_isEvent (t_schema t1) \<longrightarrow> tableBag t2 + mset (changeDeletes ch tid) = tableBag t1 + mset (changeInserts ch tid)"
      using s h t1(1) by blast
    have "tableBag t2 + mset (concat (map (\<lambda>ch. changeDeletes ch tid) (chs @ [ch]))) =
        tableBag t + mset (concat (map (\<lambda>ch. changeInserts ch tid) (chs @ [ch])))" if "\<not> ts_isEvent (t_schema t)"
    proof -
      let ?D = "mset (concat (map (\<lambda>ch. changeDeletes ch tid) chs))" and ?I = "mset (concat (map (\<lambda>ch. changeInserts ch tid) chs))"
      have e: "tableBag t1 + ?D = tableBag t + ?I" "tableBag t2 + mset (changeDeletes ch tid) = tableBag t1 + mset (changeInserts ch tid)"
        using that t1(2,3) t2(3) by simp_all
      have "tableBag t2 + (?D + mset (changeDeletes ch tid)) = (tableBag t2 + mset (changeDeletes ch tid)) + ?D"
        by (simp add: ac_simps)
      also have "\<dots> = (tableBag t1 + ?D) + mset (changeInserts ch tid)" unfolding e(2) by (simp add: ac_simps)
      also have "\<dots> = tableBag t + (?I + mset (changeInserts ch tid))" unfolding e(1) by (simp add: ac_simps)
      finally show ?thesis by simp
    qed
    then show ?thesis using t2(1,2) t1(2) by auto
  qed
  then show ?case using s h by auto
qed simp

section \<open>Properties\<close>







end
