(* ===== verification/Recovery.thy ===== *)
theory Recovery
  imports Commit
begin

text \<open>
  Replaying changesets into a committed state (\<^verbatim>\<open>src/store/recovery.go\<close>): tables are cloned,
  changed apart and published only when every change has succeeded, one changeset at a time
  (\<open>ApplyChangeset\<close>) or for a sequence of them (\<open>RecoveryBatch\<close>). The order of a changeset's
  tables stands for the iteration order of the Go map; the outer option is a panic.
\<close>

section \<open>Cloning a table\<close>

fun cloneRows :: "table \<Rightarrow> (rowID \<times> productValue) list \<Rightarrow> (table \<times> store_error option) option" where
  "cloneRows clone [] = Some (clone, None)"
| "cloneRows clone ((rid, row) # rows) = do {
     (clone, err) \<leftarrow> InsertRow clone rid row;
     case err of Some e \<Rightarrow> Some (clone, Some e) | None \<Rightarrow> cloneRows clone rows
   }"

definition cloneReplayTable :: "table \<Rightarrow> (store_error + table) option" where
  "cloneReplayTable t = do {
     (clone, err) \<leftarrow> cloneRows (NewTable (t_schema t)) (t_rows t);
     case err of Some e \<Rightarrow> Some (Inl e)
     | None \<Rightarrow>
         let clone = SetNextID clone (NextID t) in
         Some (Inr (case SequenceValue t of Some seq \<Rightarrow> SetSequenceValue clone seq | None \<Rightarrow> clone))
   }"

section \<open>Applying the changes of a table\<close>

definition matchingRow :: "table \<Rightarrow> productValue \<Rightarrow> rowID \<Rightarrow> bool" where
  "matchingRow t row rid = (case rowView t rid of None \<Rightarrow> False | Some committedRow \<Rightarrow> productEqual committedRow row)"

definition findReplayDeleteRowID :: "table \<Rightarrow> productValue \<Rightarrow> rowID option option" where
  "findReplayDeleteRowID t row =
     (case tablePrimaryIndex t of
        Some pk \<Rightarrow> do {
          key \<leftarrow> idxExtractKey pk row;
          ids \<leftarrow> btRowIDs (idx_btree pk) key;
          Some (List.find (matchingRow t row) ids)
        }
      | None \<Rightarrow> do {
          h \<leftarrow> productHash64 row;
          Some (List.find (matchingRow t row) (bucketOf (case t_rowHashIndex t of None \<Rightarrow> [] | Some m \<Rightarrow> m) h))
        })"

definition advanceReplaySequenceForInsert :: "table \<Rightarrow> productValue \<Rightarrow> table option" where
  "advanceReplaySequenceForInsert t row =
     (case t_sequence t of
        None \<Rightarrow> Some t
      | Some current \<Rightarrow>
          if t_sequenceCol t < 0 then Some t
          else
            let c = nat (t_sequenceCol t) in
            if length row \<le> c \<or> length (ts_columns (t_schema t)) \<le> c then None
            else do {
              value \<leftarrow> ValueAsUint64 (row ! c) (c_type (ts_columns (t_schema t) ! c));
              Some (case value of
                      None \<Rightarrow> t
                    | Some value \<Rightarrow>
                        let next = nextAutoIncrementSequenceValue value in
                        if current \<noteq> 0 \<and> next > current then t\<lparr>t_sequence := Some next\<rparr> else t)
            })"

definition allocRowIDForInsert :: "table \<Rightarrow> table \<times> (store_error + rowID)" where
  "allocRowIDForInsert t =
     (case checkRowIDAvailable t of Some e \<Rightarrow> (t, Inl e)
      | None \<Rightarrow> let (rid, t) = AllocRowID t in (t, Inr rid))"

fun replayDeletes :: "table \<Rightarrow> productValue list \<Rightarrow> (table \<times> store_error option) option" where
  "replayDeletes t [] = Some (t, None)"
| "replayDeletes t (row # rows) = do {
     found \<leftarrow> findReplayDeleteRowID t row;
     case found of None \<Rightarrow> Some (t, Some (ErrReplayRowNotFound (ts_name (t_schema t))))
     | Some rid \<Rightarrow> do {
         (t, old) \<leftarrow> DeleteRow t rid;
         if old = None then Some (t, Some (ErrReplayRowNotFound (ts_name (t_schema t)))) else replayDeletes t rows
       }
   }"

fun replayInserts :: "table \<Rightarrow> productValue list \<Rightarrow> (table \<times> store_error option) option" where
  "replayInserts t [] = Some (t, None)"
| "replayInserts t (row # rows) =
     (case ValidateRow (t_schema t) row of Inl e \<Rightarrow> Some (t, Some e)
      | Inr _ \<Rightarrow>
     (case checkRowIDAvailable t of Some e \<Rightarrow> Some (t, Some e)
      | None \<Rightarrow> do {
          t \<leftarrow> advanceReplaySequenceForInsert t row;
          case allocRowIDForInsert t of
            (t, Inl e) \<Rightarrow> Some (t, Some e)
          | (t, Inr freshID) \<Rightarrow> do {
              (t, err) \<leftarrow> InsertRow t freshID row;
              case err of Some e \<Rightarrow> Some (t, Some e) | None \<Rightarrow> replayInserts t rows
            }
        }))"

definition applyChangesetToTable :: "table \<Rightarrow> tableChangeset option \<Rightarrow> (table \<times> store_error option) option" where
  "applyChangesetToTable t tc =
     (case tc of None \<Rightarrow> Some (t, None)
      | Some tc \<Rightarrow> do {
          (t, err) \<leftarrow> replayDeletes t (tc_deletes tc);
          case err of Some e \<Rightarrow> Some (t, Some e) | None \<Rightarrow> replayInserts t (tc_inserts tc)
        })"

section \<open>One changeset\<close>

type_synonym staging = "(tableID \<times> table) list"

fun stageTables :: "committedState \<Rightarrow> (tableID \<times> tableChangeset option) list \<Rightarrow> staging \<Rightarrow> (store_error + staging) option" where
  "stageTables cs [] staged = Some (Inr staged)"
| "stageTables cs ((tid, tc) # rest) staged =
     (case tableLocked cs tid of
        None \<Rightarrow> Some (Inl (ErrTableNotFound tid))
      | Some t \<Rightarrow>
          if ts_isEvent (t_schema t) then stageTables cs rest staged
          else do {
            clone \<leftarrow> cloneReplayTable t;
            case clone of Inl e \<Rightarrow> Some (Inl e)
            | Inr clone \<Rightarrow> do {
                (clone, err) \<leftarrow> applyChangesetToTable clone tc;
                case err of Some e \<Rightarrow> Some (Inl e) | None \<Rightarrow> stageTables cs rest (AList.update tid clone staged)
              }
          })"

fun publish :: "staging \<Rightarrow> committedState \<Rightarrow> committedState \<times> store_error option" where
  "publish [] cs = (cs, None)"
| "publish ((tid, t) # rest) cs =
     (case tableLocked cs tid of None \<Rightarrow> (cs, Some (ErrTableNotFound tid)) | Some _ \<Rightarrow> publish rest (putTable cs tid t))"

definition ApplyChangeset :: "committedState \<Rightarrow> changeset option \<Rightarrow> (committedState \<times> store_error option) option" where
  "ApplyChangeset cs ch =
     (case ch of None \<Rightarrow> Some (cs, None)
      | Some ch \<Rightarrow> do {
          staged \<leftarrow> stageTables cs (ch_tables ch) [];
          Some (case staged of Inl e \<Rightarrow> (cs, Some e) | Inr staged \<Rightarrow> publish staged cs)
        })"

section \<open>A batch of changesets\<close>

text \<open>The committed state a batch works on is an argument of its operations; \<open>rb_staged\<close> is empty once the map is nil.\<close>

record recoveryBatch =
  rb_staged :: staging
  rb_failed :: "store_error option"
  rb_closed :: bool

definition NewRecoveryBatch :: "committedState option \<Rightarrow> recoveryBatch" where
  "NewRecoveryBatch state = \<lparr>rb_staged = [], rb_failed = (if state = None then Some ErrRecoveryStateNil else None), rb_closed = False\<rparr>"

definition usable :: "recoveryBatch option \<Rightarrow> store_error option" where
  "usable b =
     (case b of None \<Rightarrow> Some ErrRecoveryBatchClosed
      | Some b \<Rightarrow>
          (case rb_failed b of Some e \<Rightarrow> Some e
           | None \<Rightarrow> if rb_closed b then Some ErrRecoveryBatchClosed else None))"

definition rbFail :: "recoveryBatch \<Rightarrow> store_error \<Rightarrow> recoveryBatch \<times> store_error option" where
  "rbFail b err =
     (let b = (if rb_failed b = None then b\<lparr>rb_failed := Some err\<rparr> else b) in (b, rb_failed b))"

fun rbApplyLoop :: "committedState \<Rightarrow> (tableID \<times> tableChangeset option) list \<Rightarrow> recoveryBatch \<Rightarrow>
    (recoveryBatch \<times> store_error option) option" where
  "rbApplyLoop cs [] b = Some (b, None)"
| "rbApplyLoop cs ((tid, tc) # rest) b =
     (let apply = (\<lambda>t b. do {
          (t, err) \<leftarrow> applyChangesetToTable t tc;
          let b = b\<lparr>rb_staged := AList.update tid t (rb_staged b)\<rparr>;
          case err of Some e \<Rightarrow> Some (rbFail b e) | None \<Rightarrow> rbApplyLoop cs rest b
        })
      in case map_of (rb_staged b) tid of
        Some t \<Rightarrow> apply t b
      | None \<Rightarrow>
          (case tableLocked cs tid of
             None \<Rightarrow> Some (rbFail b (ErrTableNotFound tid))
           | Some t \<Rightarrow>
               if ts_isEvent (t_schema t) then rbApplyLoop cs rest b
               else do {
                 clone \<leftarrow> cloneReplayTable t;
                 case clone of Inl e \<Rightarrow> Some (rbFail b e)
                 | Inr clone \<Rightarrow> apply clone (b\<lparr>rb_staged := AList.update tid clone (rb_staged b)\<rparr>)
               }))"

definition rbApply :: "committedState \<Rightarrow> recoveryBatch \<Rightarrow> changeset option \<Rightarrow> (recoveryBatch \<times> store_error option) option" where
  "rbApply cs b ch =
     (case usable (Some b) of Some e \<Rightarrow> Some (b, Some e)
      | None \<Rightarrow> (case ch of None \<Rightarrow> Some (b, None) | Some ch \<Rightarrow> rbApplyLoop cs (ch_tables ch) b))"

text \<open>The committed state and the batch after the call, and its error.\<close>

definition rbCommit :: "committedState \<Rightarrow> recoveryBatch \<Rightarrow> committedState \<times> recoveryBatch \<times> store_error option" where
  "rbCommit cs b =
     (case usable (Some b) of Some e \<Rightarrow> (cs, b, Some e)
      | None \<Rightarrow>
          (case List.find (\<lambda>(tid, t). tableLocked cs tid = None) (rb_staged b) of
             Some (tid, _) \<Rightarrow> let (b, err) = rbFail b (ErrTableNotFound tid) in (cs, b, err)
           | None \<Rightarrow>
               (foldl (\<lambda>cs (tid, t). putTable cs tid t) cs (rb_staged b), b\<lparr>rb_closed := True, rb_staged := []\<rparr>, None)))"

definition Discard :: "recoveryBatch option \<Rightarrow> recoveryBatch option" where
  "Discard b = (case b of None \<Rightarrow> None
     | Some b \<Rightarrow> Some (if rb_closed b then b else b\<lparr>rb_closed := True, rb_staged := []\<rparr>))"

section \<open>Cloning\<close>

text \<open>A table that differs from another in its indexes' layout and the order of its rows at most.\<close>

definition replica :: "table \<Rightarrow> table \<Rightarrow> bool" where
  "replica t c \<longleftrightarrow> tbl_inv c \<and> t_schema c = t_schema t \<and> rowsOf c = rowsOf t \<and> t_nextID c = t_nextID t \<and>
     t_sequence c = t_sequence t \<and> t_sequenceCol c = t_sequenceCol t"

lemma replica_refl: "tbl_inv t \<Longrightarrow> replica t t"
  by (simp add: replica_def)

lemma cloneRows_insertRows:
  "(\<And>r x. (r, x) \<in> set kvs \<Longrightarrow> rowAt m r = x) \<Longrightarrow> cloneRows c kvs = insertRows m c (map fst kvs)"
proof (induction kvs arbitrary: c)
  case (Cons kv kvs)
  obtain r x where kv: "kv = (r, x)" by (cases kv)
  have "rowAt m r = x" using Cons.prems kv by simp
  moreover have "cloneRows c kvs = insertRows m c (map fst kvs)" for c using Cons by auto
  ultimately show ?case by (simp add: kv)
qed simp

lemma findSequenceCol_bounds: "findSequenceCol i cols = Some j \<Longrightarrow> i \<le> j \<and> j < i + int (length cols)"
  by (induction i cols rule: findSequenceCol.induct) (auto split: if_splits)

lemma seq_wf_NewTable: "seq_wf (NewTable ts)"
  using findSequenceCol_bounds [of 0 "ts_columns ts"] by (auto simp: seq_wf_def NewTable_def split: option.split)

lemma cloneReplayTable_ok:
  assumes inv: "tbl_inv t" and seq: "seq_wf t"
  shows "\<exists>c. cloneReplayTable t = Some (Inr c) \<and> replica t c"
proof -
  let ?m = "t_rows t" and ?n = "NewTable (t_schema t)"
  have n: "tbl_inv ?n" "rowsOf ?n = Map.empty" "t_schema ?n = t_schema t"
    using inv tbl_inv_NewTable by (auto simp: tbl_inv_def NewTable_def)
  have d: "distinct (map fst ?m)" using inv by (simp add: tbl_inv_def)
  have at: "rowAt ?m r = x" if "(r, x) \<in> set ?m" for r x using that d by (simp add: rowAt_def)
  have pairs: "map (\<lambda>rid. (rid, rowAt ?m rid)) (map fst ?m) = ?m" using at by (auto simp: comp_def intro!: map_idI)
  have "insertable (t_schema t) Map.empty ?m"
    by (rule insertable_subset [OF rows_ok_committed [OF inv]]) (use d tbl_inv_row [OF inv] in \<open>auto simp: map_le_def\<close>)
  then have "insertable (t_schema ?n) (rowsOf ?n) (map (\<lambda>rid. (rid, rowAt ?m rid)) (map fst ?m))"
    unfolding pairs n(2,3) .
  from insertRows_ok [OF n(1) this] obtain c where c: "cloneRows ?n ?m = Some (c, None)" "tbl_inv c" "same_frame ?n c"
    "rowsOf c = rowsOf ?n ++ (Some \<circ> rowAt ?m) |` set (map fst ?m)"
    using cloneRows_insertRows [of ?m ?m ?n] at by auto
  have rows: "rowsOf c = rowsOf t" using c(4) n(2) rowAt_map [of ?m] by simp
  let ?c = "SetNextID c (NextID t)"
  have "cloneReplayTable t = Some (Inr (case SequenceValue t of Some seq \<Rightarrow> SetSequenceValue ?c seq | None \<Rightarrow> ?c))"
    using c(1) by (simp add: cloneReplayTable_def Let_def)
  moreover have "replica t (case SequenceValue t of Some seq \<Rightarrow> SetSequenceValue ?c seq | None \<Rightarrow> ?c)"
    using c(2,3) rows seq n(3) seq_wf_NewTable [of "t_schema t"] unfolding replica_def
    by (auto simp: tbl_inv_counters NextID_def SequenceValue_def same_frame_def seq_wf_def split: option.split)
  ultimately show ?thesis by blast
qed

section \<open>Conflicts of rows\<close>

definition conflicts :: "tableSchema \<Rightarrow> productValue \<Rightarrow> productValue \<Rightarrow> bool" where
  "conflicts ts x y \<longleftrightarrow> (\<exists>ix \<in> set (ts_indexes ts). ix_unique ix \<and> compareKey (keyOf ix x) (keyOf ix y) = 0) \<or>
     (PrimaryIndex ts = None \<and> productEqual x y)"

lemma rowConflict_conflicts: "rowConflict ts rows row = None \<longleftrightarrow> (\<forall>x \<in> ran rows. \<not> conflicts ts x row)"
  unfolding rowConflict_None taken_has_key has_key_def conflicts_def by blast

text \<open>A bag of rows no two of which conflict.\<close>

definition bag_ok :: "tableSchema \<Rightarrow> productValue multiset \<Rightarrow> bool" where
  "bag_ok ts B \<longleftrightarrow> (\<forall>x y. {#x, y#} \<subseteq># B \<longrightarrow> \<not> conflicts ts x y)"

lemma rowBag_remove: "finite (dom m) \<Longrightarrow> m r = Some x \<Longrightarrow> rowBag m = add_mset x (rowBag (m(r := None)))"
proof -
  assume f: "finite (dom m)" and r: "m r = Some x"
  have "m |` (- {r}) = m(r := None)" by (auto simp: restrict_map_def fun_eq_iff)
  moreover have "rowBag (m |` {r}) = {#x#}"
  proof -
    have "dom (m |` {r}) = {r}" using r by auto
    then show ?thesis using r by (simp add: rowBag_def)
  qed
  ultimately show ?thesis using rowBag_split [OF f, of "{r}"] by simp
qed

lemma rowBag_mem: "finite (dom m) \<Longrightarrow> x \<in># rowBag m \<longleftrightarrow> x \<in> ran m"
  by (force simp: rowBag_def ran_def dom_def)

lemma rows_ok_distinct:
  assumes ok: "rows_ok ts m" and r: "m r = Some x" and s: "m s = Some y" and c: "conflicts ts x y"
  shows "r = s"
  using c unfolding conflicts_def
proof (elim disjE bexE conjE)
  fix ix assume ix: "ix \<in> set (ts_indexes ts)" "ix_unique ix" "compareKey (keyOf ix x) (keyOf ix y) = 0"
  then have "unique_ok m ix" using ok by (simp add: rows_ok_def)
  then show ?thesis using ix r s unfolding unique_ok_def by blast
next
  assume "PrimaryIndex ts = None" "productEqual x y"
  then show ?thesis using ok r s unfolding rows_ok_def set_ok_def by blast
qed

lemma rows_ok_bag:
  assumes ok: "rows_ok ts m" and f: "finite (dom m)"
  shows "bag_ok ts (rowBag m)"
  unfolding bag_ok_def
proof (intro allI impI)
  fix x y assume sub: "{#x, y#} \<subseteq># rowBag m"
  then have "x \<in># rowBag m" by (auto dest: mset_subset_eqD)
  then obtain r where r: "m r = Some x" using rowBag_mem [OF f] by (auto simp: ran_def)
  have "{#y#} \<subseteq># rowBag (m(r := None))" using sub unfolding rowBag_remove [OF f r] by simp
  then have "y \<in> ran (m(r := None))" using rowBag_mem [of "m(r := None)" y] f by (simp add: single_subset_iff)
  then obtain s where s: "m s = Some y" "s \<noteq> r" by (auto simp: ran_def split: if_splits)
  then show "\<not> conflicts ts x y" using rows_ok_distinct [OF ok r s(1)] by blast
qed

lemma bag_ok_conflict:
  assumes "bag_ok ts (rowBag m + add_mset row B)" "finite (dom m)"
  shows "rowConflict ts m row = None"
  unfolding rowConflict_conflicts
proof
  fix x assume "x \<in> ran m"
  then have "{#x#} \<subseteq># rowBag m" using rowBag_mem [OF assms(2)] by (simp add: single_subset_iff)
  then have "{#x#} + {#row#} \<subseteq># rowBag m + add_mset row B" by (intro subset_mset.add_mono) simp_all
  then show "\<not> conflicts ts x row" using assms(1) unfolding bag_ok_def by simp
qed

lemma tableBag_rows: "tbl_inv t \<Longrightarrow> tableBag t = rowBag (rowsOf t)"
  unfolding tableBag_def using rowBag_list [of "t_rows t"] tableScan_eq [of t] by (simp add: tbl_inv_def)

lemma finite_rows [simp]: "finite (dom (rowsOf t))"
  by (simp add: finite_dom_map_of)

section \<open>Replaying the deletes of a table\<close>

lemma find_set:
  "(case List.find P xs of None \<Rightarrow> \<forall>x \<in> set xs. \<not> P x | Some x \<Rightarrow> x \<in> set xs \<and> P x)"
  by (induction xs) (auto split: option.splits)

lemma matchingRow_iff: "matchingRow t row rid \<longleftrightarrow> (\<exists>x. rowsOf t rid = Some x \<and> productEqual x row)"
  by (auto simp: matchingRow_def rowView_def split: option.split)

text \<open>The search finds a row equal to the given one whenever the table holds one.\<close>

lemma findReplayDeleteRowID_ok:
  assumes inv: "tbl_inv t" and row: "row_wf (t_schema t) row"
  shows "\<exists>r. findReplayDeleteRowID t row = Some r \<and>
    (case r of None \<Rightarrow> \<forall>x \<in> ran (rowsOf t). \<not> productEqual x row
     | Some rid \<Rightarrow> \<exists>x. rowsOf t rid = Some x \<and> productEqual x row)"
proof -
  have wf: "schema_wf (t_schema t)" using inv by (simp add: tbl_inv_def)
  obtain ids where f: "findReplayDeleteRowID t row = Some (List.find (matchingRow t row) ids)"
    and all: "\<And>rid x. rowsOf t rid = Some x \<Longrightarrow> productEqual x row \<Longrightarrow> rid \<in> set ids"
  proof (cases "tablePrimaryIndex t")
    case None
    then have "t_rowHashIndex t \<noteq> None" using tablePrimaryIndex_iff [OF inv] tbl_inv_hash [OF inv] by simp
    then obtain m where m: "t_rowHashIndex t = Some m" "hash_ok m (rowsOf t)"
      using inv by (auto simp: tbl_inv_def hash_inv_def)
    obtain h where h: "productHash64 row = Some h" using row_hash [OF row] by blast
    show thesis
    proof (rule that)
      show "findReplayDeleteRowID t row = Some (List.find (matchingRow t row) (bucketOf m h))"
        using None m h by (simp add: findReplayDeleteRowID_def)
      show "rid \<in> set (bucketOf m h)" if "rowsOf t rid = Some x" "productEqual x row" for rid x
        using m(2) that productHash64_cong [OF that(2)] h by (auto simp: hash_ok_def)
    qed
  next
    case (Some pk)
    then have pk: "pk \<in> set (t_indexes t)" by (auto simp: tablePrimaryIndex_def find_Some_iff)
    then have ix: "idx_schema pk \<in> set (ts_indexes (t_schema t))" "index_ok (t_schema t) (rowsOf t) pk"
      using tbl_inv_indexes [OF inv] by auto
    obtain ids where ids: "btRowIDs (idx_btree pk) (keyOf (idx_schema pk) row) = Some ids"
      "set ids = {r. \<exists>x. rowsOf t r = Some x \<and> compareKey (keyOf (idx_schema pk) x) (keyOf (idx_schema pk) row) = 0}"
      using taken_ids [OF wf row ix] by blast
    show thesis
    proof (rule that)
      show "findReplayDeleteRowID t row = Some (List.find (matchingRow t row) ids)"
        using Some ids(1) idxExtractKey_wf [OF wf row ix(1)] by (simp add: findReplayDeleteRowID_def)
      show "rid \<in> set ids" if "rowsOf t rid = Some x" "productEqual x row" for rid x
        unfolding ids(2) using that keyOf_Equal [OF tbl_inv_row [OF inv that(1)] row that(2) wf ix(1)] by blast
    qed
  qed
  have "case List.find (matchingRow t row) ids of None \<Rightarrow> \<forall>x \<in> ran (rowsOf t). \<not> productEqual x row
     | Some rid \<Rightarrow> \<exists>x. rowsOf t rid = Some x \<and> productEqual x row"
    using find_set [where P = "matchingRow t row" and xs = ids] all by (auto simp: matchingRow_iff ran_def split: option.splits)
  then show ?thesis using f by blast
qed

text \<open>No two rows of a table are equal.\<close>

lemma equal_conflicts:
  assumes wf: "schema_wf ts" "row_wf ts x" "row_wf ts y" and eq: "productEqual x y"
  shows "conflicts ts x y"
proof (cases "PrimaryIndex ts")
  case None
  then show ?thesis using eq by (simp add: conflicts_def)
next
  case (Some ix)
  then have ix: "ix \<in> set (ts_indexes ts)" "ix_primary ix" by (auto simp: PrimaryIndex_def find_Some_iff)
  then have "ix_unique ix" using wf(1) by (simp add: schema_wf_def)
  then show ?thesis using ix keyOf_Equal [OF wf(2,3) eq wf(1)] by (auto simp: conflicts_def)
qed

lemma findReplayDeleteRowID_exact:
  assumes inv: "tbl_inv t" and x: "rowsOf t rid = Some row"
  shows "findReplayDeleteRowID t row = Some (Some rid)"
proof -
  have row: "row_wf (t_schema t) row" by (rule tbl_inv_row [OF inv x])
  obtain r where r: "findReplayDeleteRowID t row = Some r"
    "case r of None \<Rightarrow> \<forall>x \<in> ran (rowsOf t). \<not> productEqual x row
     | Some rid \<Rightarrow> \<exists>x. rowsOf t rid = Some x \<and> productEqual x row"
    using findReplayDeleteRowID_ok [OF inv row] by blast
  have "r \<noteq> None" using r(2) productEqual_refl [OF row] ranI [of "rowsOf t" rid row] x by (cases r) auto
  then obtain s y where s: "r = Some s" "rowsOf t s = Some y" "productEqual y row" using r(2) by auto
  have "conflicts (t_schema t) y row"
    using inv by (intro equal_conflicts s(3) row tbl_inv_row [OF inv s(2)]) (simp add: tbl_inv_def)
  then have "s = rid" by (rule rows_ok_distinct [OF rows_ok_committed [OF inv] s(2) x])
  then show ?thesis using r(1) s(1) by simp
qed

text \<open>The rows of \<open>t'\<close> are among those of \<open>t\<close>, and the counters are kept.\<close>

definition shrinks :: "table \<Rightarrow> table \<Rightarrow> bool" where
  "shrinks t t' \<longleftrightarrow> tbl_inv t' \<and> same_frame t t' \<and> rowsOf t' \<subseteq>\<^sub>m rowsOf t"

lemma replayDeletes_ok:
  "tbl_inv t \<Longrightarrow> \<forall>row \<in> set rows. row_wf (t_schema t) row \<Longrightarrow>
   \<exists>t' err. replayDeletes t rows = Some (t', err) \<and> shrinks t t'"
proof (induction rows arbitrary: t)
  case Nil
  then show ?case by (simp add: shrinks_def)
next
  case (Cons row rows)
  have row: "row_wf (t_schema t) row" using Cons.prems(2) by simp
  obtain r where r: "findReplayDeleteRowID t row = Some r"
    "case r of None \<Rightarrow> \<forall>x \<in> ran (rowsOf t). \<not> productEqual x row
     | Some rid \<Rightarrow> \<exists>x. rowsOf t rid = Some x \<and> productEqual x row"
    using findReplayDeleteRowID_ok [OF Cons.prems(1) row] by blast
  show ?case
  proof (cases r)
    case None
    then show ?thesis using r(1) Cons.prems(1) by (simp add: shrinks_def)
  next
    case (Some rid)
    then obtain x where x: "rowsOf t rid = Some x" using r(2) by auto
    obtain t1 where t1: "DeleteRow t rid = Some (t1, rowsOf t rid)" "tbl_inv t1" "same_frame t t1"
      "t_rows t1 = AList.delete rid (t_rows t)" using DeleteRow_ok [OF Cons.prems(1)] by blast
    have sch: "t_schema t1 = t_schema t" using t1(3) by (simp add: same_frame_def)
    obtain t2 err where t2: "replayDeletes t1 rows = Some (t2, err)" "shrinks t1 t2"
      using Cons.IH [OF t1(2)] Cons.prems(2) sch by auto
    have "rowsOf t1 \<subseteq>\<^sub>m rowsOf t" using t1(4) by (auto simp: map_le_def delete_conv')
    then have "shrinks t t2" using t2(2) same_frame_trans [OF t1(3)] map_le_trans by (auto simp: shrinks_def)
    then show ?thesis using r(1) Some x t1(1) t2(1) by simp
  qed
qed

lemma replayDeletes_exact:
  "tbl_inv t \<Longrightarrow> mset rows \<subseteq># tableBag t \<Longrightarrow>
   \<exists>t'. replayDeletes t rows = Some (t', None) \<and> shrinks t t' \<and> tableBag t' = tableBag t - mset rows"
proof (induction rows arbitrary: t)
  case Nil
  then show ?case by (simp add: shrinks_def)
next
  case (Cons row rows)
  note bag = tableBag_rows [OF Cons.prems(1)]
  have "row \<in># tableBag t" using Cons.prems(2) by (auto dest: mset_subset_eqD)
  then obtain rid where rid: "rowsOf t rid = Some row" unfolding bag using rowBag_mem [OF finite_rows] by (auto simp: ran_def)
  obtain t1 where t1: "DeleteRow t rid = Some (t1, rowsOf t rid)" "tbl_inv t1" "same_frame t t1"
    "t_rows t1 = AList.delete rid (t_rows t)" using DeleteRow_ok [OF Cons.prems(1)] by blast
  have rows1: "rowsOf t1 = (rowsOf t)(rid := None)" using t1(4) by (simp add: delete_conv')
  have bag1: "tableBag t = add_mset row (tableBag t1)"
    unfolding bag tableBag_rows [OF t1(2)] rows1 by (rule rowBag_remove [OF finite_rows rid])
  then have "mset rows \<subseteq># tableBag t1" using Cons.prems(2) by simp
  from Cons.IH [OF t1(2) this] obtain t2 where t2: "replayDeletes t1 rows = Some (t2, None)" "shrinks t1 t2"
    "tableBag t2 = tableBag t1 - mset rows" by blast
  have "rowsOf t1 \<subseteq>\<^sub>m rowsOf t" using t1(4) by (auto simp: map_le_def delete_conv')
  then have "shrinks t t2" using t2(2) same_frame_trans [OF t1(3)] map_le_trans by (auto simp: shrinks_def)
  then show ?case
    using findReplayDeleteRowID_exact [OF Cons.prems(1) rid] rid t1(1) t2(1,3) bag1 by simp
qed

section \<open>Replaying the inserts of a table\<close>

definition stage_ok :: "table \<Rightarrow> bool" where
  "stage_ok t \<longleftrightarrow> tbl_inv t \<and> alloc_ok t \<and> seq_wf t"

lemma shrinks_stage: "stage_ok t \<Longrightarrow> shrinks t t' \<Longrightarrow> stage_ok t'"
proof -
  assume t: "stage_ok t" and s: "shrinks t t'"
  have "dom (rowsOf t') \<subseteq> dom (rowsOf t)" using s by (simp add: shrinks_def map_le_implies_dom_le)
  then have "alloc_ok t'" using t s by (auto simp: stage_ok_def shrinks_def same_frame_def alloc_ok_def)
  then show "stage_ok t'" using t s by (auto simp: stage_ok_def shrinks_def same_frame_def seq_wf_def)
qed

lemma advanceReplaySequenceForInsert_ok:
  assumes seq: "seq_wf t" and row: "row_wf (t_schema t) row"
  shows "\<exists>s. advanceReplaySequenceForInsert t row = Some (t\<lparr>t_sequence := s\<rparr>) \<and> (s = None \<longleftrightarrow> t_sequence t = None)"
proof (cases "t_sequence t = None \<or> t_sequenceCol t < 0")
  case True
  then show ?thesis by (intro exI [of _ "t_sequence t"]) (auto simp: advanceReplaySequenceForInsert_def split: option.split)
next
  case False
  then obtain current where cur: "t_sequence t = Some current" by auto
  let ?c = "nat (t_sequenceCol t)"
  have c: "?c < length (ts_columns (t_schema t))" "?c < length row" using False seq row_wf_length [OF row] by (auto simp: seq_wf_def)
  obtain n where n: "ValueAsUint64 (row ! ?c) (c_type (ts_columns (t_schema t) ! ?c)) = Some n"
    using newAutoIncrement_nth [OF row c(1)] by blast
  let ?next = "nextAutoIncrementSequenceValue (the n)"
  have "advanceReplaySequenceForInsert t row =
      Some (t\<lparr>t_sequence := Some (if n \<noteq> None \<and> current \<noteq> 0 \<and> ?next > current then ?next else current)\<rparr>)"
    using False cur c n by (cases n) (auto simp: advanceReplaySequenceForInsert_def Let_def)
  then show ?thesis using cur by auto
qed

lemma stage_ok_alloc:
  assumes "stage_ok t" "checkRowIDAvailable t = None" "s = None \<longleftrightarrow> t_sequence t = None"
  shows "stage_ok (t\<lparr>t_sequence := s, t_nextID := t_nextID t + 1\<rparr>)" "rowsOf t (t_nextID t) = None"
    "t_nextID t < t_nextID t + 1"
proof -
  have "t_nextID t \<noteq> -1" using assms(2) by (auto simp: checkRowIDAvailable_def checkRowIDValueAvailable_def NextID_def split: if_splits)
  then show less: "t_nextID t < t_nextID t + 1" by (rule word_less_plus_1)
  then show "stage_ok (t\<lparr>t_sequence := s, t_nextID := t_nextID t + 1\<rparr>)"
    using assms(1,3) by (auto simp: stage_ok_def alloc_ok_def seq_wf_def tbl_inv_def intro: less_trans)
  show "rowsOf t (t_nextID t) = None"
    using assms(1) by (cases "rowsOf t (t_nextID t)") (auto simp: stage_ok_def alloc_ok_def)
qed

lemma replay_insert_step:
  assumes ok: "stage_ok t" and row: "row_wf (t_schema t) row" and avail: "checkRowIDAvailable t = None"
  shows "\<exists>t2. stage_ok t2 \<and> t_schema t2 = t_schema t \<and> t_nextID t2 = t_nextID t + 1 \<and>
    replayInserts t (row # rows) = (case rowConflict (t_schema t) (rowsOf t) row of
       Some e \<Rightarrow> Some (t2, Some e) | None \<Rightarrow> replayInserts t2 rows) \<and>
    (rowConflict (t_schema t) (rowsOf t) row = None \<longrightarrow> rowsOf t2 = (rowsOf t)(t_nextID t \<mapsto> row))"
proof -
  have seq: "seq_wf t" using ok by (simp add: stage_ok_def)
  obtain s where s: "advanceReplaySequenceForInsert t row = Some (t\<lparr>t_sequence := s\<rparr>)" "s = None \<longleftrightarrow> t_sequence t = None"
    using advanceReplaySequenceForInsert_ok [OF seq row] by (elim exE conjE) (rule that)
  let ?t1 = "t\<lparr>t_sequence := s, t_nextID := t_nextID t + 1\<rparr>" and ?rid = "t_nextID t"
  note t1 = stage_ok_alloc [OF ok avail s(2)]
  have inv1: "tbl_inv ?t1" using t1(1) by (simp add: stage_ok_def)
  have err: "insert_error ?t1 ?rid row = rowConflict (t_schema t) (rowsOf t) row"
    using insert_error_conflict [OF inv1, of ?rid row] t1(2) by simp
  have row1: "row_wf (t_schema ?t1) row" using row by simp
  have same: "t_rows ?t1 = t_rows t" by simp
  obtain t2 where t2: "InsertRow ?t1 ?rid row = Some (t2, rowConflict (t_schema t) (rowsOf t) row)" "tbl_inv t2" "same_frame ?t1 t2"
    "if rowConflict (t_schema t) (rowsOf t) row = None then t_rows t2 = AList.update ?rid row (t_rows t) \<and> rowsOf t ?rid = None
     else t_rows t2 = t_rows t"
    using InsertRow_ok [OF inv1 row1, of ?rid] unfolding err same by (elim exE conjE) (rule that)
  have rows: "rowsOf t2 = (if rowConflict (t_schema t) (rowsOf t) row = None then (rowsOf t)(?rid \<mapsto> row) else rowsOf t)"
    using t2(4) by (auto simp: update_conv')
  have al: "\<forall>r \<in> dom (rowsOf t). r < ?rid + 1" using t1(1) by (simp add: stage_ok_def alloc_ok_def)
  have nxt: "t_nextID t2 = ?rid + 1" using t2(3) by (simp add: same_frame_def)
  have "dom (rowsOf t2) \<subseteq> insert ?rid (dom (rowsOf t))" unfolding rows by auto
  then have "alloc_ok t2" using al t1(1,3) unfolding alloc_ok_def nxt by (auto simp: stage_ok_def alloc_ok_def)
  moreover have "seq_wf t2" using t1(1) t2(3) by (simp add: stage_ok_def seq_wf_def same_frame_def)
  ultimately have "stage_ok t2" using t2(2) by (simp add: stage_ok_def)
  moreover have "replayInserts t (row # rows) = (case rowConflict (t_schema t) (rowsOf t) row of
       Some e \<Rightarrow> Some (t2, Some e) | None \<Rightarrow> replayInserts t2 rows)"
    using row_wf_Validate [OF row] avail s(1) t2(1)
    by (simp add: allocRowIDForInsert_def AllocRowID_def checkRowIDAvailable_def NextID_def)
  ultimately show ?thesis using t2(3) rows by (intro exI [of _ t2]) (simp add: same_frame_def)
qed

lemma replayInserts_ok:
  "stage_ok t \<Longrightarrow> \<forall>row \<in> set rows. values_ok row \<Longrightarrow>
   \<exists>t' err. replayInserts t rows = Some (t', err) \<and> stage_ok t' \<and> t_schema t' = t_schema t"
proof (induction rows arbitrary: t)
  case (Cons row rows)
  show ?case
  proof (cases "ValidateRow (t_schema t) row")
    case (Inl e)
    then show ?thesis using Cons.prems(1) by simp
  next
    case (Inr u)
    then have row: "row_wf (t_schema t) row" using ValidateRow_iff Cons.prems(2) by auto
    show ?thesis
    proof (cases "checkRowIDAvailable t")
      case (Some e)
      then show ?thesis using Inr Cons.prems(1) by simp
    next
      case None
      obtain t2 where t2: "stage_ok t2" "t_schema t2 = t_schema t"
        "replayInserts t (row # rows) = (case rowConflict (t_schema t) (rowsOf t) row of
           Some e \<Rightarrow> Some (t2, Some e) | None \<Rightarrow> replayInserts t2 rows)"
        using replay_insert_step [OF Cons.prems(1) row None, of rows] by blast
      then show ?thesis using Cons.IH [OF t2(1)] Cons.prems(2)
        by (cases "rowConflict (t_schema t) (rowsOf t) row") auto
    qed
  qed
qed simp

lemma replayInserts_exact:
  "stage_ok t \<Longrightarrow> \<forall>row \<in> set rows. row_wf (t_schema t) row \<Longrightarrow> bag_ok (t_schema t) (tableBag t + mset rows) \<Longrightarrow>
   unat (t_nextID t) + length rows < 2 ^ 64 \<Longrightarrow>
   \<exists>t'. replayInserts t rows = Some (t', None) \<and> stage_ok t' \<and> t_schema t' = t_schema t \<and>
     tableBag t' = tableBag t + mset rows \<and> unat (t_nextID t') = unat (t_nextID t) + length rows"
proof (induction rows arbitrary: t)
  case (Cons row rows)
  have inv: "tbl_inv t" and pos: "t_nextID t \<noteq> 0" using Cons.prems(1) by (auto simp: stage_ok_def alloc_ok_def)
  have row: "row_wf (t_schema t) row" using Cons.prems(2) by simp
  have "unat (t_nextID t) + 1 < 2 ^ 64" using Cons.prems(4) by simp
  then have next1: "unat (t_nextID t + 1) = unat (t_nextID t) + 1" by (simp add: unat_word_ariths)
  have "t_nextID t \<noteq> -1" using next1 by auto
  then have avail: "checkRowIDAvailable t = None" using pos by (simp add: checkRowIDAvailable_def checkRowIDValueAvailable_def NextID_def)
  have free: "rowConflict (t_schema t) (rowsOf t) row = None"
    using Cons.prems(3) bag_ok_conflict [of "t_schema t" "rowsOf t" row "mset rows"] tableBag_rows [OF inv] by simp
  obtain t2 where t2: "stage_ok t2" "t_schema t2 = t_schema t" "t_nextID t2 = t_nextID t + 1"
    "replayInserts t (row # rows) = replayInserts t2 rows" "rowsOf t2 = (rowsOf t)(t_nextID t \<mapsto> row)"
    using replay_insert_step [OF Cons.prems(1) row avail, of rows] free by auto
  have fresh: "rowsOf t (t_nextID t) = None" using stage_ok_alloc(2) [OF Cons.prems(1) avail, of "t_sequence t"] by simp
  have inv2: "tbl_inv t2" using t2(1) by (simp add: stage_ok_def)
  have "rowBag (rowsOf t2) = add_mset row (rowBag ((rowsOf t2)(t_nextID t := None)))"
    by (rule rowBag_remove [OF finite_rows]) (simp add: t2(5))
  moreover have "(rowsOf t2)(t_nextID t := None) = rowsOf t" using fresh t2(5) by (auto simp: fun_eq_iff)
  ultimately have bag: "tableBag t2 = add_mset row (tableBag t)" using tableBag_rows [OF inv] tableBag_rows [OF inv2] by simp
  have "\<exists>t'. replayInserts t2 rows = Some (t', None) \<and> stage_ok t' \<and> t_schema t' = t_schema t2 \<and>
     tableBag t' = tableBag t2 + mset rows \<and> unat (t_nextID t') = unat (t_nextID t2) + length rows"
    by (rule Cons.IH [OF t2(1)]) (use Cons.prems t2(2,3) bag next1 in auto)
  then show ?case using t2(2,3,4) bag next1 by auto
qed simp

section \<open>Replaying the changes of a table\<close>

text \<open>Rows of well-formed values, the deleted ones of the shape of the table.\<close>

definition change_ok :: "tableSchema \<Rightarrow> tableChangeset option \<Rightarrow> bool" where
  "change_ok ts tc \<longleftrightarrow> (\<forall>c. tc = Some c \<longrightarrow>
     (\<forall>row \<in> set (tc_deletes c). row_wf ts row) \<and> (\<forall>row \<in> set (tc_inserts c). values_ok row))"

lemma applyChangesetToTable_ok:
  assumes "stage_ok t" "change_ok (t_schema t) tc"
  shows "\<exists>t' err. applyChangesetToTable t tc = Some (t', err) \<and> stage_ok t' \<and> t_schema t' = t_schema t"
proof (cases tc)
  case None
  then show ?thesis using assms(1) by (simp add: applyChangesetToTable_def)
next
  case (Some c)
  obtain t1 err where t1: "replayDeletes t (tc_deletes c) = Some (t1, err)" "shrinks t t1"
    using replayDeletes_ok [of t "tc_deletes c"] assms Some by (auto simp: stage_ok_def change_ok_def)
  have "t_schema t1 = t_schema t" using t1(2) by (simp add: shrinks_def same_frame_def)
  then show ?thesis
    using t1(1) shrinks_stage [OF assms(1) t1(2)] replayInserts_ok [of t1 "tc_inserts c"] assms(2) Some
    by (cases err) (auto simp: applyChangesetToTable_def change_ok_def)
qed

lemma applyChangesetToTable_exact:
  assumes ok: "stage_ok t" and dels: "mset (tc_deletes c) \<subseteq># tableBag t"
    and ins: "\<forall>row \<in> set (tc_inserts c). row_wf (t_schema t) row"
    and bag: "bag_ok (t_schema t) (tableBag t - mset (tc_deletes c) + mset (tc_inserts c))"
    and room: "unat (t_nextID t) + length (tc_inserts c) < 2 ^ 64"
  shows "\<exists>t'. applyChangesetToTable t (Some c) = Some (t', None) \<and> stage_ok t' \<and> t_schema t' = t_schema t \<and>
     tableBag t' = tableBag t - mset (tc_deletes c) + mset (tc_inserts c) \<and>
     unat (t_nextID t') = unat (t_nextID t) + length (tc_inserts c)"
proof -
  obtain t1 where t1: "replayDeletes t (tc_deletes c) = Some (t1, None)" "shrinks t t1" "tableBag t1 = tableBag t - mset (tc_deletes c)"
    using replayDeletes_exact [OF _ dels] ok by (auto simp: stage_ok_def)
  have fr: "t_schema t1 = t_schema t" "t_nextID t1 = t_nextID t" using t1(2) by (simp_all add: shrinks_def same_frame_def)
  have "\<exists>t'. replayInserts t1 (tc_inserts c) = Some (t', None) \<and> stage_ok t' \<and> t_schema t' = t_schema t1 \<and>
     tableBag t' = tableBag t1 + mset (tc_inserts c) \<and> unat (t_nextID t') = unat (t_nextID t1) + length (tc_inserts c)"
    by (rule replayInserts_exact [OF shrinks_stage [OF ok t1(2)]]) (use ins bag room fr t1(3) in auto)
  then show ?thesis using t1 fr by (auto simp: applyChangesetToTable_def)
qed

section \<open>Staging and publishing\<close>

definition staged_ok :: "committedState \<Rightarrow> staging \<Rightarrow> bool" where
  "staged_ok cs staged \<longleftrightarrow> distinct (map fst staged) \<and>
     (\<forall>tid t. map_of staged tid = Some t \<longrightarrow> stage_ok t \<and>
        (\<exists>u. csTable cs tid = Some u \<and> t_schema t = t_schema u \<and> \<not> ts_isEvent (t_schema u)))"

lemma staged_okD:
  assumes "staged_ok cs staged" "map_of staged tid = Some t"
  obtains u where "stage_ok t" "csTable cs tid = Some u" "t_schema t = t_schema u" "\<not> ts_isEvent (t_schema u)"
  using assms unfolding staged_ok_def by blast

lemma staged_ok_empty [simp]: "staged_ok cs []"
  by (simp add: staged_ok_def)

lemma staged_ok_update:
  "staged_ok cs staged \<Longrightarrow> csTable cs tid = Some u \<Longrightarrow> \<not> ts_isEvent (t_schema u) \<Longrightarrow> stage_ok t \<Longrightarrow> t_schema t = t_schema u \<Longrightarrow>
   staged_ok cs (AList.update tid t staged)"
  by (simp add: staged_ok_def distinct_update update_conv')

lemma cs_inv_stage: "cs_inv cs \<Longrightarrow> csTable cs tid = Some t \<Longrightarrow> stage_ok t"
  by (simp add: cs_inv_def stage_ok_def)

lemma replica_stage: "stage_ok t \<Longrightarrow> replica t c \<Longrightarrow> stage_ok c"
  by (simp add: stage_ok_def replica_def alloc_ok_def seq_wf_def)

lemma clone_stage: "stage_ok t \<Longrightarrow> \<exists>c. cloneReplayTable t = Some (Inr c) \<and> replica t c"
  using cloneReplayTable_ok by (simp add: stage_ok_def)

text \<open>The tables after publishing.\<close>

definition published :: "committedState \<Rightarrow> staging \<Rightarrow> committedState \<Rightarrow> bool" where
  "published cs staged cs' \<longleftrightarrow> same_tables cs cs' \<and>
     (\<forall>tid. csTable cs' tid = (case map_of staged tid of Some t \<Rightarrow> Some t | None \<Rightarrow> csTable cs tid))"

lemma publish_ok:
  "distinct (map fst staged) \<Longrightarrow> \<forall>tid \<in> fst ` set staged. csTable cs tid \<noteq> None \<Longrightarrow>
   \<exists>cs'. publish staged cs = (cs', None) \<and> foldl (\<lambda>cs (tid, t). putTable cs tid t) cs staged = cs' \<and> published cs staged cs'"
proof (induction staged arbitrary: cs)
  case (Cons p staged)
  obtain tid t where p: "p = (tid, t)" by (cases p)
  obtain u where u: "csTable cs tid = Some u" using Cons.prems(2) p by auto
  have "\<forall>v \<in> fst ` set staged. csTable (putTable cs tid t) v \<noteq> None" using Cons.prems(2) by auto
  with Cons.IH [of "putTable cs tid t"] Cons.prems(1) obtain cs' where cs':
    "publish staged (putTable cs tid t) = (cs', None)"
    "foldl (\<lambda>cs (tid, t). putTable cs tid t) (putTable cs tid t) staged = cs'" "published (putTable cs tid t) staged cs'" by auto
  have "map_of staged tid = None" using Cons.prems(1) p by (simp add: map_of_eq_None_iff)
  then have "published cs (p # staged) cs'"
    using cs'(3) same_tables_trans [OF same_tables_put [OF u]] p by (auto simp: published_def split: option.split)
  then show ?case using cs'(1,2) u p by (simp add: csTable_def)
qed (simp add: published_def)

lemma staged_publish:
  "staged_ok cs staged \<Longrightarrow> \<exists>cs'. publish staged cs = (cs', None) \<and>
     foldl (\<lambda>cs (tid, t). putTable cs tid t) cs staged = cs' \<and> published cs staged cs'"
proof (rule publish_ok)
  assume ok: "staged_ok cs staged"
  then show "distinct (map fst staged)" by (simp add: staged_ok_def)
  show "\<forall>tid \<in> fst ` set staged. csTable cs tid \<noteq> None"
  proof
    fix tid assume "tid \<in> fst ` set staged"
    then obtain t where "map_of staged tid = Some t" by (metis map_of_eq_None_iff not_None_eq)
    then show "csTable cs tid \<noteq> None" by (rule staged_okD [OF ok]) simp
  qed
qed

lemma published_inv:
  assumes inv: "cs_inv cs" and ok: "staged_ok cs staged" and p: "published cs staged cs'"
  shows "cs_inv cs'"
proof -
  have d: "distinct (map fst (cs_tables cs'))" using inv p by (simp add: cs_inv_def published_def same_tables_def)
  have "tbl_inv t \<and> alloc_ok t \<and> seq_wf t \<and> (ts_isEvent (t_schema t) \<longrightarrow> t_rows t = [])" if t: "csTable cs' tid = Some t" for tid t
  proof (cases "map_of staged tid")
    case None
    then show ?thesis using p t inv by (auto simp: published_def cs_inv_def)
  next
    case (Some s)
    then have "s = t" using p t by (simp add: published_def)
    moreover obtain u where "stage_ok s" "csTable cs tid = Some u" "t_schema s = t_schema u" "\<not> ts_isEvent (t_schema u)"
      by (rule staged_okD [OF ok Some])
    ultimately show ?thesis by (auto simp: stage_ok_def)
  qed
  then show ?thesis using d by (simp add: cs_inv_def)
qed

text \<open>The changes of a changeset fit the tables they name.\<close>

definition changes_ok :: "committedState \<Rightarrow> (tableID \<times> tableChangeset option) list \<Rightarrow> bool" where
  "changes_ok cs kvs \<longleftrightarrow> (\<forall>(tid, tc) \<in> set kvs. \<forall>t. csTable cs tid = Some t \<longrightarrow> change_ok (t_schema t) tc)"

lemma stageTables_ok:
  "cs_inv cs \<Longrightarrow> changes_ok cs kvs \<Longrightarrow> staged_ok cs staged \<Longrightarrow>
   \<exists>r. stageTables cs kvs staged = Some r \<and> (\<forall>staged'. r = Inr staged' \<longrightarrow> staged_ok cs staged')"
proof (induction kvs arbitrary: staged)
  case (Cons kv kvs)
  obtain tid tc where kv: "kv = (tid, tc)" by (cases kv)
  have rest: "changes_ok cs kvs" using Cons.prems(2) by (auto simp: changes_ok_def)
  note IH = Cons.IH [OF Cons.prems(1) rest]
  show ?case
  proof (cases "csTable cs tid")
    case None
    then show ?thesis by (simp add: kv csTable_def)
  next
    case (Some t)
    then have lk: "tableLocked cs tid = Some t" by (simp add: csTable_def)
    show ?thesis
    proof (cases "ts_isEvent (t_schema t)")
      case True
      then show ?thesis using IH [OF Cons.prems(3)] lk by (simp add: kv)
    next
      case False
      have ok: "stage_ok t" by (rule cs_inv_stage [OF Cons.prems(1) Some])
      obtain c where c: "cloneReplayTable t = Some (Inr c)" "replica t c" using clone_stage [OF ok] by blast
      have sc: "t_schema c = t_schema t" using c(2) by (simp add: replica_def)
      have "change_ok (t_schema c) tc" using Cons.prems(2) Some sc by (auto simp: changes_ok_def kv)
      from applyChangesetToTable_ok [OF replica_stage [OF ok c(2)] this] obtain t' err where
        t': "applyChangesetToTable c tc = Some (t', err)" "stage_ok t'" "t_schema t' = t_schema c" by blast
      have "staged_ok cs (AList.update tid t' staged)"
        by (rule staged_ok_update [OF Cons.prems(3) Some False t'(2)]) (simp add: t'(3) sc)
      from IH [OF this] show ?thesis using lk False c(1) t'(1) by (cases err) (simp_all add: kv)
    qed
  qed
qed simp

lemma stageTables_exact:
  assumes inv: "cs_inv cs"
    and P: "\<And>tid tc. (tid, tc) \<in> set kvs \<Longrightarrow> \<exists>t. csTable cs tid = Some t \<and> (\<not> ts_isEvent (t_schema t) \<longrightarrow>
      (\<forall>c. replica t c \<longrightarrow> (\<exists>t'. applyChangesetToTable c tc = Some (t', None) \<and> stage_ok t' \<and> t_schema t' = t_schema t \<and> P tid t t')))"
  shows "distinct (map fst kvs) \<Longrightarrow> staged_ok cs staged \<Longrightarrow> fst ` set kvs \<inter> dom (map_of staged) = {} \<Longrightarrow>
    \<exists>staged'. stageTables cs kvs staged = Some (Inr staged') \<and> staged_ok cs staged' \<and>
      (\<forall>tid t. tid \<in> fst ` set kvs \<longrightarrow> csTable cs tid = Some t \<longrightarrow> \<not> ts_isEvent (t_schema t) \<longrightarrow>
         (\<exists>t'. map_of staged' tid = Some t' \<and> P tid t t')) \<and>
      (\<forall>tid. tid \<notin> fst ` set kvs \<longrightarrow> map_of staged' tid = map_of staged tid)"
  using P
proof (induction kvs arbitrary: staged)
  case (Cons kv kvs)
  obtain tid tc where kv: "kv = (tid, tc)" by (cases kv)
  obtain t where t: "csTable cs tid = Some t" "\<not> ts_isEvent (t_schema t) \<longrightarrow>
      (\<forall>c. replica t c \<longrightarrow> (\<exists>t'. applyChangesetToTable c tc = Some (t', None) \<and> stage_ok t' \<and> t_schema t' = t_schema t \<and> P tid t t'))"
    using Cons.prems(4) [of tid tc] kv by auto
  have lk: "tableLocked cs tid = Some t" using t(1) by (simp add: csTable_def)
  have notin: "tid \<notin> fst ` set kvs" using Cons.prems(1) kv by simp
  have P': "\<exists>t. csTable cs u = Some t \<and> (\<not> ts_isEvent (t_schema t) \<longrightarrow>
      (\<forall>c. replica t c \<longrightarrow> (\<exists>t'. applyChangesetToTable c uc = Some (t', None) \<and> stage_ok t' \<and> t_schema t' = t_schema t \<and> P u t t')))"
    if "(u, uc) \<in> set kvs" for u uc using Cons.prems(4) [of u uc] that by simp
  show ?case
  proof (cases "ts_isEvent (t_schema t)")
    case True
    have "fst ` set kvs \<inter> dom (map_of staged) = {}" using Cons.prems(3) by auto
    from Cons.IH [OF _ Cons.prems(2) this P'] Cons.prems(1) obtain staged' where
      s: "stageTables cs kvs staged = Some (Inr staged')" "staged_ok cs staged'"
      "\<forall>tid t. tid \<in> fst ` set kvs \<longrightarrow> csTable cs tid = Some t \<longrightarrow> \<not> ts_isEvent (t_schema t) \<longrightarrow>
         (\<exists>t'. map_of staged' tid = Some t' \<and> P tid t t')"
      "\<forall>tid. tid \<notin> fst ` set kvs \<longrightarrow> map_of staged' tid = map_of staged tid" by auto
    then show ?thesis using lk True t(1) by (intro exI [of _ staged']) (auto simp: kv)
  next
    case False
    have ok: "stage_ok t" by (rule cs_inv_stage [OF inv t(1)])
    obtain c where c: "cloneReplayTable t = Some (Inr c)" "replica t c" using clone_stage [OF ok] by blast
    obtain t' where t': "applyChangesetToTable c tc = Some (t', None)" "stage_ok t'" "t_schema t' = t_schema t" "P tid t t'"
      using t(2) False c(2) by blast
    let ?s = "AList.update tid t' staged"
    have ok': "staged_ok cs ?s" by (rule staged_ok_update [OF Cons.prems(2) t(1) False t'(2,3)])
    have "fst ` set kvs \<inter> dom (map_of ?s) = {}" using Cons.prems(3) notin by (auto simp: kv update_conv')
    from Cons.IH [OF _ ok' this P'] Cons.prems(1) obtain staged' where
      s: "stageTables cs kvs ?s = Some (Inr staged')" "staged_ok cs staged'"
      "\<forall>tid t. tid \<in> fst ` set kvs \<longrightarrow> csTable cs tid = Some t \<longrightarrow> \<not> ts_isEvent (t_schema t) \<longrightarrow>
         (\<exists>t'. map_of staged' tid = Some t' \<and> P tid t t')"
      "\<forall>tid. tid \<notin> fst ` set kvs \<longrightarrow> map_of staged' tid = map_of ?s tid" by auto
    have "map_of staged' tid = Some t'" using s(4) notin by (simp add: update_conv')
    then have "\<forall>u w. u \<in> fst ` set (kv # kvs) \<longrightarrow> csTable cs u = Some w \<longrightarrow> \<not> ts_isEvent (t_schema w) \<longrightarrow>
         (\<exists>t'. map_of staged' u = Some t' \<and> P u w t')"
      using s(3) t(1) t'(4) by (auto simp: kv)
    moreover have "\<forall>u. u \<notin> fst ` set (kv # kvs) \<longrightarrow> map_of staged' u = map_of staged u"
      using s(4) by (simp add: kv update_conv')
    moreover have "stageTables cs (kv # kvs) staged = Some (Inr staged')" using lk False c(1) t'(1) s(1) by (simp add: kv)
    ultimately show ?thesis using s(2) by blast
  qed
qed simp

section \<open>Replaying a committed history\<close>

text \<open>The replayed table holds the same rows; replay assigns no more identifiers than the original run.\<close>

definition mirrors :: "table \<Rightarrow> table \<Rightarrow> bool" where
  "mirrors t u \<longleftrightarrow> stage_ok u \<and> t_schema u = t_schema t \<and> tableBag u = tableBag t \<and> t_nextID u \<le> t_nextID t"

lemma mirrors_replica: "mirrors t u \<Longrightarrow> replica u c \<Longrightarrow> mirrors t c"
proof -
  assume m: "mirrors t u" and r: "replica u c"
  have "tbl_inv u" "tbl_inv c" using m r by (simp_all add: mirrors_def stage_ok_def replica_def)
  then have "tableBag c = tableBag u" using tableBag_rows r by (simp add: replica_def)
  then show ?thesis using m r replica_stage by (auto simp: mirrors_def replica_def)
qed

lemma inserted_count:
  assumes inv: "tx_inv cs tr" and t: "csTable cs tid = Some t"
  shows "unat (t_nextID t) + length (insertedOf (tr_tx tr) tid) \<le> unat (nextRowID tr tid t)"
proof -
  let ?m = "bucketOf (tx_inserts (tr_tx tr)) tid" and ?D = "dom (insOf (tr_tx tr) tid)"
  note ok = tx_inv_table(5) [OF inv t]
  have d: "distinct (map fst ?m)" using inv nested_ok_bucket by (auto simp: tx_inv_def buffers_ok_def)
  have dom: "?D = set (sortedCommitMapKeys ?m)" by (simp add: insOf_def dom_map_of_conv_image_fst)
  have len: "length (insertedOf (tr_tx tr) tid) = card ?D"
    unfolding dom insertedOf_def using distinct_card [OF sortedKeys_distinct [OF d]] by simp
  have "unat ` ?D \<subseteq> {unat (t_nextID t) ..< unat (nextRowID tr tid t)}"
    using ok by (auto simp: tx_table_ok_def word_le_nat_alt word_less_nat_alt)
  then have "card (unat ` ?D) \<le> unat (nextRowID tr tid t) - unat (t_nextID t)"
    using card_mono [of "{unat (t_nextID t) ..< unat (nextRowID tr tid t)}"] by force
  moreover have "card (unat ` ?D) = card ?D" by (rule card_image) (simp add: inj_on_def word_unat_eq_iff)
  moreover have "t_nextID t \<le> nextRowID tr tid t" using ok by (simp add: tx_table_ok_def)
  ultimately show ?thesis using len by (simp add: word_le_nat_alt)
qed

lemma committed_table:
  assumes c: "commit_done cs tr n adv cs' tr' ch" and t: "csTable cs tid = Some t"
  obtains t' where "csTable cs' tid = Some t'" "post_commit tr tid t t'"
proof -
  have "rel_option (post_commit tr tid) (csTable cs tid) (csTable cs' tid)" using c by (simp add: commit_done_def)
  then show thesis using that t by (auto simp: option_rel_Some1)
qed

lemma event_bag:
  assumes inv: "tx_inv cs tr" and t: "csTable cs tid = Some t" and p: "post_commit tr tid t t'" and e: "ts_isEvent (t_schema t)"
  shows "tableBag t' = tableBag t" "t_nextID t' = t_nextID t"
proof -
  have "t_rows t = []" "t_rows t' = []"
    using tx_inv_table(4) [OF inv t e] post_commit_inv [OF inv t p] p e by (simp_all add: post_commit_def)
  then show "tableBag t' = tableBag t" by (simp add: tableBag_def tableScan_def)
  show "t_nextID t' = t_nextID t" using p e by (simp add: post_commit_def)
qed

text \<open>The table after a commit, from the table before and the changes recorded for it.\<close>

lemma commit_mirror_same:
  assumes inv: "tx_inv cs tr" and c: "commit_done cs tr n adv cs' tr' ch" and t: "csTable cs tid = Some t"
    and t': "csTable cs' tid = Some t'" and m: "mirrors t u"
    and none: "TableChanges (Some ch) tid = None \<or> ts_isEvent (t_schema t)"
  shows "mirrors t' u"
proof -
  have p: "post_commit tr tid t t'" by (rule committed_table [OF c t]) (simp add: t')
  have "tableBag t' = tableBag t \<and> t_nextID t \<le> t_nextID t'"
  proof (cases "ts_isEvent (t_schema t)")
    case True
    then show ?thesis using event_bag [OF inv t p] by simp
  next
    case False
    then have "changeDeletes ch tid = []" "changeInserts ch tid = []" using none by (simp_all add: changeDeletes_def changeInserts_def)
    then have "tableBag t' = tableBag t" using commit_done_bag [OF inv c t] False t' by simp
    moreover have "t_nextID t \<le> t_nextID t'" using p False tx_inv_table(5) [OF inv t] by (simp add: post_commit_def tx_table_ok_def)
    ultimately show ?thesis by simp
  qed
  then show ?thesis using m p by (auto simp: mirrors_def post_commit_def)
qed

lemma commit_mirror_change:
  assumes inv: "tx_inv cs tr" and c: "commit_done cs tr n adv cs' tr' ch" and t: "csTable cs tid = Some t"
    and t': "csTable cs' tid = Some t'" and m: "mirrors t u"
    and tc: "TableChanges (Some ch) tid = Some tc" and ev: "\<not> ts_isEvent (t_schema t)"
  shows "\<exists>u'. applyChangesetToTable u (Some tc) = Some (u', None) \<and> stage_ok u' \<and> t_schema u' = t_schema u \<and> mirrors t' u'"
proof -
  let ?tx = "tr_tx tr"
  have p: "post_commit tr tid t t'" by (rule committed_table [OF c t]) (simp add: t')
  have "netChange cs ?tx tid = Some tc" using c tc by (simp add: commit_done_def)
  then have tc': "tc_inserts tc = insertedOf ?tx tid" "tc_deletes tc = deletedOf t ?tx tid"
    using netChange_rows [OF t, of ?tx] by simp_all
  have u: "stage_ok u" "t_schema u = t_schema t" "tableBag u = tableBag t" "t_nextID u \<le> t_nextID t" using m by (simp_all add: mirrors_def)
  have b: "buffers_ok ?tx" using inv by (simp add: tx_inv_def)
  note ok = tx_inv_table [OF inv t]
  have inv': "tbl_inv t'" using p by (simp add: post_commit_def)
  have eq: "tableBag t' + mset (tc_deletes tc) = tableBag t + mset (tc_inserts tc)"
    using commit_bag [OF inv t p ev] tc' by (simp add: tableBag_def)
  have sub: "delsOf ?tx tid \<subseteq> dom (rowsOf t)" using ok(5) by (simp add: tx_table_ok_def)
  have dels: "mset (tc_deletes tc) \<subseteq># tableBag u"
    unfolding u(3) tc'(2) deletedOf_bag [OF b sub] tableBag_rows [OF ok(1)] using rowBag_split [OF finite_rows, of t "delsOf ?tx tid"] by simp
  have new: "tableBag u - mset (tc_deletes tc) + mset (tc_inserts tc) = tableBag t'"
    using eq dels u(3) by (metis add.commute add_diff_cancel_right' subset_mset.add_diff_assoc2)
  have "bag_ok (t_schema u) (tableBag t')"
    using rows_ok_bag [OF rows_ok_committed [OF inv'] finite_rows] tableBag_rows [OF inv'] p u(2) by (simp add: post_commit_def)
  then have bag: "bag_ok (t_schema u) (tableBag u - mset (tc_deletes tc) + mset (tc_inserts tc))" unfolding new .
  have ins: "\<forall>row \<in> set (tc_inserts tc). row_wf (t_schema u) row"
  proof
    fix row assume "row \<in> set (tc_inserts tc)"
    then have "row \<in># rowBag (insOf ?tx tid)" using tc'(1) by (simp flip: insertedOf_bag [OF b])
    moreover have "finite (dom (insOf ?tx tid))" by (simp add: insOf_def finite_dom_map_of)
    ultimately have "row \<in> ran (insOf ?tx tid)" by (simp add: rowBag_mem)
    then show "row_wf (t_schema u) row" using ok(5) u(2) by (simp add: tx_table_ok_def)
  qed
  have cnt: "unat (t_nextID u) + length (tc_inserts tc) \<le> unat (t_nextID t')"
    using inserted_count [OF inv t] u(4) tc'(1) p ev by (simp add: post_commit_def word_le_nat_alt)
  then have room: "unat (t_nextID u) + length (tc_inserts tc) < 2 ^ 64" using unsigned_less [of "t_nextID t'", where 'a = nat] by simp
  obtain u' where u': "applyChangesetToTable u (Some tc) = Some (u', None)" "stage_ok u'" "t_schema u' = t_schema u"
    "tableBag u' = tableBag t'" "unat (t_nextID u') = unat (t_nextID u) + length (tc_inserts tc)"
    using applyChangesetToTable_exact [OF u(1) dels ins bag room] unfolding new by blast
  have "mirrors t' u'" using u' u(2) p cnt by (simp add: mirrors_def post_commit_def word_le_nat_alt)
  then show ?thesis using u' by blast
qed

text \<open>The state a staging stands for: the staged tables in place of the committed ones.\<close>

definition overlay :: "committedState \<Rightarrow> staging \<Rightarrow> tableID \<Rightarrow> table option" where
  "overlay cs staged tid = (case map_of staged tid of Some t \<Rightarrow> Some t | None \<Rightarrow> csTable cs tid)"

lemma published_overlay: "published cs staged cs' \<Longrightarrow> csTable cs' = overlay cs staged"
  by (simp add: published_def overlay_def fun_eq_iff)

definition mirrored :: "committedState \<Rightarrow> (tableID \<Rightarrow> table option) \<Rightarrow> bool" where
  "mirrored cs f \<longleftrightarrow> (\<forall>tid. rel_option mirrors (csTable cs tid) (f tid))"

lemma mirrored_start: "cs_inv cs \<Longrightarrow> mirrored cs (csTable cs)"
proof -
  assume inv: "cs_inv cs"
  have "rel_option mirrors (csTable cs tid) (csTable cs tid)" for tid
    using cs_inv_stage [OF inv] by (cases "csTable cs tid") (simp_all add: mirrors_def)
  then show ?thesis by (simp add: mirrored_def)
qed

lemma changeset_entry: "changeset_wf ch \<Longrightarrow> (tid, tc) \<in> set (ch_tables ch) \<Longrightarrow> \<exists>c. tc = Some c \<and> TableChanges (Some ch) tid = Some c"
  by (cases tc) (force simp: changeset_wf_def TableChanges_def)+

lemma changeset_no_entry: "tid \<notin> fst ` set (ch_tables ch) \<Longrightarrow> TableChanges (Some ch) tid = None"
  by (simp add: TableChanges_def map_of_eq_None_iff [THEN iffD2])

definition mirrors_at :: "committedState \<Rightarrow> tableID \<Rightarrow> table \<Rightarrow> bool" where
  "mirrors_at cs tid u \<longleftrightarrow> (\<exists>t. csTable cs tid = Some t \<and> mirrors t u)"

text \<open>What replaying the entry of a changeset asks of the table it is applied to.\<close>

lemma commit_entry:
  assumes inv: "tx_inv cs tr" and c: "commit_done cs tr n adv cs' tr' ch" and m: "mirrored cs f"
    and e: "(tid, tc) \<in> set (ch_tables ch)"
  obtains u where "f tid = Some u"
    "\<And>v. \<not> ts_isEvent (t_schema u) \<Longrightarrow> v = u \<or> replica u v \<Longrightarrow>
       \<exists>u'. applyChangesetToTable v tc = Some (u', None) \<and> stage_ok u' \<and> t_schema u' = t_schema u \<and> mirrors_at cs' tid u'"
proof -
  have wf: "changeset_wf ch" using c by (simp add: commit_done_def)
  obtain d where d: "tc = Some d" "TableChanges (Some ch) tid = Some d" using changeset_entry [OF wf e] by blast
  have "netChange cs (tr_tx tr) tid = Some d" using c d(2) by (simp add: commit_done_def)
  then obtain t where t: "csTable cs tid = Some t" by (auto simp: netChange_def split: if_splits)
  have "rel_option mirrors (csTable cs tid) (f tid)" using m by (simp add: mirrored_def)
  then obtain u where u: "f tid = Some u" "mirrors t u" using t by (auto simp: option_rel_Some1)
  obtain t' where t': "csTable cs' tid = Some t'" "post_commit tr tid t t'" by (rule committed_table [OF c t])
  have s: "t_schema u = t_schema t" using u(2) by (simp add: mirrors_def)
  have "\<exists>u'. applyChangesetToTable v tc = Some (u', None) \<and> stage_ok u' \<and> t_schema u' = t_schema u \<and> mirrors_at cs' tid u'"
    if ev: "\<not> ts_isEvent (t_schema u)" and v: "v = u \<or> replica u v" for v
  proof -
    have mv: "mirrors t v" using u(2) v mirrors_replica by blast
    moreover have "t_schema v = t_schema u" using v by (auto simp: replica_def)
    ultimately show ?thesis using commit_mirror_change [OF inv c t t'(1) mv d(2)] ev s d(1) t'(1)
      by (auto simp: mirrors_at_def)
  qed
  then show thesis using that u(1) by blast
qed

lemma commit_overlay:
  assumes inv: "tx_inv cs tr" and c: "commit_done cs tr n adv cs' tr' ch" and m: "mirrored cs f"
    and new: "\<And>tid u. tid \<in> fst ` set (ch_tables ch) \<Longrightarrow> f tid = Some u \<Longrightarrow> \<not> ts_isEvent (t_schema u) \<Longrightarrow>
      \<exists>u'. g tid = Some u' \<and> mirrors_at cs' tid u'"
    and ev: "\<And>tid u. f tid = Some u \<Longrightarrow> ts_isEvent (t_schema u) \<Longrightarrow> g tid = f tid"
    and same: "\<And>tid. tid \<notin> fst ` set (ch_tables ch) \<Longrightarrow> g tid = f tid"
  shows "mirrored cs' g"
  unfolding mirrored_def
proof
  fix tid
  have rel: "rel_option mirrors (csTable cs tid) (f tid)" using m by (simp add: mirrored_def)
  show "rel_option mirrors (csTable cs' tid) (g tid)"
  proof (cases "csTable cs tid")
    case None
    then have f: "f tid = None" using rel by simp
    have "netChange cs (tr_tx tr) tid = None" using None by (simp add: netChange_def)
    then have "TableChanges (Some ch) tid = None" using c by (simp add: commit_done_def)
    moreover have wf: "changeset_wf ch" using c by (simp add: commit_done_def)
    ultimately have "tid \<notin> fst ` set (ch_tables ch)" using changeset_entry [OF wf, of tid] by auto
    then have "g tid = None" using same f by simp
    moreover have "csTable cs' tid = None" using c None by (auto simp: commit_done_def dest: spec [of _ tid])
    ultimately show ?thesis by simp
  next
    case (Some t)
    then obtain u where u: "f tid = Some u" "mirrors t u" using rel by (auto simp: option_rel_Some1)
    obtain t' where t': "csTable cs' tid = Some t'" "post_commit tr tid t t'" by (rule committed_table [OF c Some])
    have s: "t_schema u = t_schema t" using u(2) by (simp add: mirrors_def)
    show ?thesis
    proof (cases "tid \<in> fst ` set (ch_tables ch) \<and> \<not> ts_isEvent (t_schema u)")
      case True
      then obtain u' where "g tid = Some u'" "mirrors_at cs' tid u'" using new u(1) by blast
      then show ?thesis using t'(1) by (simp add: mirrors_at_def)
    next
      case False
      then have "TableChanges (Some ch) tid = None \<or> ts_isEvent (t_schema t)" using s changeset_no_entry by auto
      then have "mirrors t' u" by (rule commit_mirror_same [OF inv c Some t'(1) u(2)])
      moreover have "g tid = f tid" using False u(1) ev same by blast
      ultimately show ?thesis using u(1) t'(1) by simp
    qed
  qed
qed

lemma ApplyChangeset_step:
  assumes inv: "tx_inv cs tr" and c: "commit_done cs tr n adv cs' tr' ch" and rep: "cs_inv rep" and m: "mirrored cs (csTable rep)"
  shows "\<exists>rep'. ApplyChangeset rep (Some ch) = Some (rep', None) \<and> cs_inv rep' \<and> mirrored cs' (csTable rep')"
proof -
  have d: "distinct (map fst (ch_tables ch))" using c by (simp add: commit_done_def changeset_wf_def)
  have entry: "\<exists>u. csTable rep tid = Some u \<and> (\<not> ts_isEvent (t_schema u) \<longrightarrow> (\<forall>v. replica u v \<longrightarrow>
      (\<exists>u'. applyChangesetToTable v tc = Some (u', None) \<and> stage_ok u' \<and> t_schema u' = t_schema u \<and> mirrors_at cs' tid u')))"
    if e: "(tid, tc) \<in> set (ch_tables ch)" for tid tc
  proof -
    obtain u where u: "csTable rep tid = Some u"
      "\<And>v. \<not> ts_isEvent (t_schema u) \<Longrightarrow> v = u \<or> replica u v \<Longrightarrow>
        \<exists>u'. applyChangesetToTable v tc = Some (u', None) \<and> stage_ok u' \<and> t_schema u' = t_schema u \<and> mirrors_at cs' tid u'"
      using commit_entry [OF inv c m e] by metis
    then show ?thesis by simp
  qed
  obtain staged where st: "stageTables rep (ch_tables ch) [] = Some (Inr staged)" "staged_ok rep staged"
    "\<And>tid u. tid \<in> fst ` set (ch_tables ch) \<Longrightarrow> csTable rep tid = Some u \<Longrightarrow> \<not> ts_isEvent (t_schema u) \<Longrightarrow>
       \<exists>u'. map_of staged tid = Some u' \<and> mirrors_at cs' tid u'"
    "\<And>tid. tid \<notin> fst ` set (ch_tables ch) \<Longrightarrow> map_of staged tid = None"
    using stageTables_exact [of rep "ch_tables ch" "\<lambda>tid u u'. mirrors_at cs' tid u'", OF rep entry d staged_ok_empty] by auto
  obtain rep' where pub: "publish staged rep = (rep', None)" "published rep staged rep'" using staged_publish [OF st(2)] by blast
  have "mirrored cs' (overlay rep staged)"
  proof (rule commit_overlay [OF inv c m])
    show "\<exists>u'. overlay rep staged tid = Some u' \<and> mirrors_at cs' tid u'"
      if "tid \<in> fst ` set (ch_tables ch)" "csTable rep tid = Some u" "\<not> ts_isEvent (t_schema u)" for tid u
      using st(3) [OF that] by (auto simp: overlay_def)
    show "overlay rep staged tid = csTable rep tid" if "csTable rep tid = Some u" "ts_isEvent (t_schema u)" for tid u
      using that st(2) by (cases "map_of staged tid") (auto simp: overlay_def elim: staged_okD)
    show "overlay rep staged tid = csTable rep tid" if "tid \<notin> fst ` set (ch_tables ch)" for tid
      using st(4) that by (simp add: overlay_def)
  qed
  then have "mirrored cs' (csTable rep')" using published_overlay [OF pub(2)] by simp
  moreover have "cs_inv rep'" by (rule published_inv [OF rep st(2) pub(2)])
  ultimately show ?thesis using st(1) pub(1) by (simp add: ApplyChangeset_def)
qed

section \<open>Batches\<close>

definition rb_open :: "recoveryBatch \<Rightarrow> bool" where
  "rb_open b \<longleftrightarrow> rb_failed b = None \<and> \<not> rb_closed b"

lemma usable_open: "usable (Some b) = None \<longleftrightarrow> rb_open b"
  by (auto simp: usable_def rb_open_def split: option.split)

text \<open>The entry of a changeset applies to the table or any clone of it, with a result that satisfies \<open>P\<close>.\<close>

definition replays :: "(tableID \<Rightarrow> table \<Rightarrow> bool) \<Rightarrow> tableID \<Rightarrow> tableChangeset option \<Rightarrow> table \<Rightarrow> bool" where
  "replays P tid tc u \<longleftrightarrow> (\<not> ts_isEvent (t_schema u) \<longrightarrow>
     (\<forall>v. v = u \<or> replica u v \<longrightarrow> (\<exists>u'. applyChangesetToTable v tc = Some (u', None) \<and> stage_ok u' \<and> t_schema u' = t_schema u \<and> P tid u')))"

definition staged_by :: "(tableID \<Rightarrow> table \<Rightarrow> bool) \<Rightarrow> tableID set \<Rightarrow> committedState \<Rightarrow> staging \<Rightarrow> staging \<Rightarrow> bool" where
  "staged_by P tids cs st st' \<longleftrightarrow> staged_ok cs st' \<and>
     (\<forall>tid u. overlay cs st tid = Some u \<longrightarrow> tid \<in> tids \<longrightarrow> \<not> ts_isEvent (t_schema u) \<longrightarrow> (\<exists>u'. map_of st' tid = Some u' \<and> P tid u')) \<and>
     (\<forall>tid u. overlay cs st tid = Some u \<longrightarrow> ts_isEvent (t_schema u) \<longrightarrow> map_of st' tid = map_of st tid) \<and>
     (\<forall>tid. tid \<notin> tids \<longrightarrow> map_of st' tid = map_of st tid)"

lemma staged_by_refl: "staged_ok cs st \<Longrightarrow> staged_by P {} cs st st"
  by (simp add: staged_by_def)

lemma staged_by_event:
  "staged_by P tids cs st st' \<Longrightarrow> overlay cs st tid = Some u \<Longrightarrow> ts_isEvent (t_schema u) \<Longrightarrow> staged_by P (insert tid tids) cs st st'"
  by (auto simp: staged_by_def)

lemma staged_by_cons:
  assumes s: "staged_by P tids cs st1 st'" and st1: "map_of st1 = (map_of st)(tid \<mapsto> u')" and P: "P tid u'" "tid \<notin> tids"
    and u: "overlay cs st tid = Some u" "\<not> ts_isEvent (t_schema u)"
  shows "staged_by P (insert tid tids) cs st st'"
proof -
  have ov: "overlay cs st1 v = (if v = tid then Some u' else overlay cs st v)" for v by (simp add: overlay_def st1)
  have tid: "map_of st' tid = Some u'" using s P(2) st1 by (simp add: staged_by_def)
  have a: "\<exists>x. map_of st' v = Some x \<and> P v x" if "overlay cs st v = Some w" "v \<in> insert tid tids" "\<not> ts_isEvent (t_schema w)" for v w
    using that tid P s ov [of v] by (cases "v = tid") (auto simp: staged_by_def)
  have b: "map_of st' v = map_of st v" if v: "overlay cs st v = Some w" "ts_isEvent (t_schema w)" for v w
  proof -
    have "v \<noteq> tid" using v u by auto
    then show ?thesis using s v ov [of v] st1 by (auto simp: staged_by_def)
  qed
  show ?thesis unfolding staged_by_def using a b s st1 by (auto simp: staged_by_def)
qed

lemma rbApplyLoop_exact:
  assumes inv: "cs_inv cs"
  shows "distinct (map fst kvs) \<Longrightarrow> staged_ok cs (rb_staged b) \<Longrightarrow>
    \<forall>(tid, tc) \<in> set kvs. \<exists>u. overlay cs (rb_staged b) tid = Some u \<and> replays P tid tc u \<Longrightarrow>
    \<exists>st. rbApplyLoop cs kvs b = Some (b\<lparr>rb_staged := st\<rparr>, None) \<and> staged_by P (fst ` set kvs) cs (rb_staged b) st"
proof (induction kvs arbitrary: b)
  case Nil
  then show ?case by (intro exI [of _ "rb_staged b"]) (simp add: staged_by_refl)
next
  case (Cons kv kvs)
  obtain tid tc where kv: "kv = (tid, tc)" by (cases kv)
  obtain u where u: "overlay cs (rb_staged b) tid = Some u" "replays P tid tc u" using Cons.prems(3) kv by auto
  have notin: "tid \<notin> fst ` set kvs" and d: "distinct (map fst kvs)" using Cons.prems(1) kv by simp_all
  show ?case
  proof (cases "ts_isEvent (t_schema u)")
    case True
    have none: "map_of (rb_staged b) tid = None"
      using True u(1) Cons.prems(2) by (cases "map_of (rb_staged b) tid") (auto simp: overlay_def elim: staged_okD)
    then have "tableLocked cs tid = Some u" using u(1) by (simp add: overlay_def csTable_def)
    then have run: "rbApplyLoop cs (kv # kvs) b = rbApplyLoop cs kvs b" using none True by (simp add: kv)
    have "\<forall>(tid, tc) \<in> set kvs. \<exists>u. overlay cs (rb_staged b) tid = Some u \<and> replays P tid tc u" using Cons.prems(3) by simp
    from Cons.IH [OF d Cons.prems(2) this] show ?thesis unfolding run using staged_by_event [OF _ u(1) True] by (auto simp: kv)
  next
    case False
    obtain w where w: "csTable cs tid = Some w" "t_schema w = t_schema u" "\<not> ts_isEvent (t_schema w)"
    proof (cases "map_of (rb_staged b) tid")
      case None
      then show thesis using that [of u] u(1) False by (simp add: overlay_def)
    next
      case (Some v)
      then have "v = u" using u(1) by (simp add: overlay_def)
      moreover obtain w where "stage_ok v" "csTable cs tid = Some w" "t_schema v = t_schema w" "\<not> ts_isEvent (t_schema w)"
        by (rule staged_okD [OF Cons.prems(2) Some])
      ultimately show thesis using that [of w] by simp
    qed
    obtain u' st1 where u': "stage_ok u'" "t_schema u' = t_schema u" "P tid u'"
      and run: "rbApplyLoop cs (kv # kvs) b = rbApplyLoop cs kvs (b\<lparr>rb_staged := st1\<rparr>)"
      and st1: "staged_ok cs st1" "map_of st1 = (map_of (rb_staged b))(tid \<mapsto> u')"
    proof (cases "map_of (rb_staged b) tid")
      case (Some v)
      then have v: "v = u" using u(1) by (simp add: overlay_def)
      obtain u' where u': "applyChangesetToTable u tc = Some (u', None)" "stage_ok u'" "t_schema u' = t_schema u" "P tid u'"
        using u(2) False by (auto simp: replays_def)
      show thesis
      proof (rule that [OF u'(2-4)])
        show "rbApplyLoop cs (kv # kvs) b = rbApplyLoop cs kvs (b\<lparr>rb_staged := AList.update tid u' (rb_staged b)\<rparr>)"
          using Some v u'(1) by (simp add: kv)
        show "staged_ok cs (AList.update tid u' (rb_staged b))"
          using staged_ok_update [OF Cons.prems(2) w(1,3) u'(2)] u'(3) w(2) by simp
      qed (simp add: update_conv')
    next
      case None
      then have "w = u" using u(1) w(1) by (simp add: overlay_def)
      then have lk: "tableLocked cs tid = Some u" using w(1) by (simp add: csTable_def)
      have ok: "stage_ok u" using cs_inv_stage [OF inv w(1)] \<open>w = u\<close> by simp
      obtain c where c: "cloneReplayTable u = Some (Inr c)" "replica u c" using clone_stage [OF ok] by blast
      obtain u' where u': "applyChangesetToTable c tc = Some (u', None)" "stage_ok u'" "t_schema u' = t_schema u" "P tid u'"
        using u(2) False c(2) by (auto simp: replays_def)
      let ?s = "AList.update tid u' (AList.update tid c (rb_staged b))"
      have sc: "t_schema c = t_schema u" using c(2) by (simp add: replica_def)
      show thesis
      proof (rule that [OF u'(2-4)])
        show "rbApplyLoop cs (kv # kvs) b = rbApplyLoop cs kvs (b\<lparr>rb_staged := ?s\<rparr>)"
          using None lk False c(1) u'(1) by (simp add: kv)
        have "staged_ok cs (AList.update tid c (rb_staged b))"
          using staged_ok_update [OF Cons.prems(2) w(1,3) replica_stage [OF ok c(2)]] sc w(2) by simp
        from staged_ok_update [OF this w(1,3) u'(2)] show "staged_ok cs ?s" using u'(3) w(2) by simp
      qed (simp add: update_conv')
    qed
    let ?b = "b\<lparr>rb_staged := st1\<rparr>"
    have "overlay cs (rb_staged ?b) v = overlay cs (rb_staged b) v" if "v \<noteq> tid" for v using that by (simp add: overlay_def st1(2))
    then have "\<forall>(v, vc) \<in> set kvs. \<exists>u. overlay cs (rb_staged ?b) v = Some u \<and> replays P v vc u"
      using Cons.prems(3) notin by force
    with Cons.IH [OF d, of ?b] st1(1) obtain st where st: "rbApplyLoop cs kvs ?b = Some (?b\<lparr>rb_staged := st\<rparr>, None)"
      "staged_by P (fst ` set kvs) cs st1 st" by auto
    from staged_by_cons [OF st(2) st1(2) u'(3) notin u(1) False] st(1) run show ?thesis by (auto simp: kv)
  qed
qed

lemma rbApply_step:
  assumes inv: "tx_inv live tr" and c: "commit_done live tr n adv live' tr' ch" and base: "cs_inv cs"
    and b: "rb_open b" "staged_ok cs (rb_staged b)" and m: "mirrored live (overlay cs (rb_staged b))"
  shows "\<exists>st. rbApply cs b (Some ch) = Some (b\<lparr>rb_staged := st\<rparr>, None) \<and> staged_ok cs st \<and> mirrored live' (overlay cs st)"
proof -
  let ?f = "overlay cs (rb_staged b)" and ?P = "mirrors_at live'"
  have d: "distinct (map fst (ch_tables ch))" using c by (simp add: commit_done_def changeset_wf_def)
  have "\<exists>u. ?f tid = Some u \<and> replays ?P tid tc u" if e: "(tid, tc) \<in> set (ch_tables ch)" for tid tc
  proof -
    obtain u where u: "?f tid = Some u"
      "\<And>v. \<not> ts_isEvent (t_schema u) \<Longrightarrow> v = u \<or> replica u v \<Longrightarrow>
        \<exists>u'. applyChangesetToTable v tc = Some (u', None) \<and> stage_ok u' \<and> t_schema u' = t_schema u \<and> ?P tid u'"
      using commit_entry [OF inv c m e] by metis
    then show ?thesis by (simp add: replays_def)
  qed
  then have e: "\<forall>(tid, tc) \<in> set (ch_tables ch). \<exists>u. ?f tid = Some u \<and> replays ?P tid tc u" by auto
  from rbApplyLoop_exact [OF base d b(2) e] obtain st where
    st: "rbApplyLoop cs (ch_tables ch) b = Some (b\<lparr>rb_staged := st\<rparr>, None)"
    "staged_by ?P (fst ` set (ch_tables ch)) cs (rb_staged b) st" by blast
  note post = st(2) [unfolded staged_by_def]
  have "mirrored live' (overlay cs st)"
  proof (rule commit_overlay [OF inv c m])
    show "\<exists>u'. overlay cs st tid = Some u' \<and> ?P tid u'"
      if h: "tid \<in> fst ` set (ch_tables ch)" "?f tid = Some u" "\<not> ts_isEvent (t_schema u)" for tid u
    proof -
      obtain u' where "map_of st tid = Some u'" "?P tid u'" using post h by blast
      then show ?thesis by (auto simp: overlay_def)
    qed
    show "overlay cs st tid = ?f tid" if "?f tid = Some u" "ts_isEvent (t_schema u)" for tid u
    proof -
      have "map_of st tid = map_of (rb_staged b) tid" using post that by blast
      then show ?thesis by (simp add: overlay_def)
    qed
    show "overlay cs st tid = ?f tid" if "tid \<notin> fst ` set (ch_tables ch)" for tid
      using post that by (simp add: overlay_def)
  qed
  then show ?thesis using st(1) post usable_open [of b] b(1) by (intro exI [of _ st]) (simp add: rbApply_def)
qed

text \<open>Replay of a sequence of changesets, one by one and as a batch.\<close>

fun replayAll :: "committedState \<Rightarrow> changeset list \<Rightarrow> (committedState \<times> store_error option) option" where
  "replayAll cs [] = Some (cs, None)"
| "replayAll cs (ch # chs) = do {
     (cs, err) \<leftarrow> ApplyChangeset cs (Some ch);
     case err of Some e \<Rightarrow> Some (cs, Some e) | None \<Rightarrow> replayAll cs chs
   }"

fun batchAll :: "committedState \<Rightarrow> recoveryBatch \<Rightarrow> changeset list \<Rightarrow> (recoveryBatch \<times> store_error option) option" where
  "batchAll cs b [] = Some (b, None)"
| "batchAll cs b (ch # chs) = do {
     (b, err) \<leftarrow> rbApply cs b (Some ch);
     case err of Some e \<Rightarrow> Some (b, Some e) | None \<Rightarrow> batchAll cs b chs
   }"

lemma bind_pair_id: "m \<bind> (\<lambda>(x, err). case err of None \<Rightarrow> Some (x, None) | Some e \<Rightarrow> Some (x, Some e)) = m"
  by (cases m) (auto split: option.split)

lemma replayAll_snoc:
  "replayAll cs chs = Some (cs1, None) \<Longrightarrow> replayAll cs (chs @ [ch]) = ApplyChangeset cs1 (Some ch)"
  by (induction chs arbitrary: cs) (auto split: option.splits prod.splits simp: bind_eq_Some_conv bind_pair_id)

lemma batchAll_snoc:
  "batchAll cs b chs = Some (b1, None) \<Longrightarrow> batchAll cs b (chs @ [ch]) = rbApply cs b1 (Some ch)"
  by (induction chs arbitrary: b) (auto split: option.splits prod.splits simp: bind_eq_Some_conv bind_pair_id)

lemma history_step:
  assumes "db_step cs ch cs'" "cs_inv cs"
  obtains tr n tr' where "tx_inv cs tr" "commit_done cs tr n True cs' tr' ch"
proof -
  obtain ops tr oks txID validate tr' where r: "list_all tx_op_ok ops" "tx_run cs NewTransaction ops = Some (tr, oks)"
    "CommitWithValidationAtTxID cs (Seal tr) txID validate = Some (cs', tr', Inr ch)"
    using assms(1) by (auto elim: db_step.cases)
  have inv: "tx_inv cs (Seal tr)" "tx_open (Seal tr)" using run_committable [OF assms(2) r(1)] r(2) by auto
  show thesis
    by (rule that [OF inv(1) commit_result(1) [OF inv]]) (use r(3) in \<open>simp add: CommitWithValidationAtTxID_def\<close>)
qed

lemma history_replay:
  assumes "db_history cs chs cs'" "cs_inv cs"
  shows "cs_inv cs' \<and> (\<exists>rep. replayAll cs chs = Some (rep, None) \<and> cs_inv rep \<and> mirrored cs' (csTable rep)) \<and>
    (\<exists>st. batchAll cs (NewRecoveryBatch (Some cs)) chs = Some ((NewRecoveryBatch (Some cs))\<lparr>rb_staged := st\<rparr>, None) \<and>
      staged_ok cs st \<and> mirrored cs' (overlay cs st))"
  using assms
proof (induction rule: db_history.induct)
  case (start cs)
  have "overlay cs [] = csTable cs" by (simp add: overlay_def fun_eq_iff)
  then show ?case using start mirrored_start [OF start] by (auto simp: NewRecoveryBatch_def intro!: exI [of _ "[]"])
next
  case (extend cs chs cs1 ch cs2)
  let ?b = "NewRecoveryBatch (Some cs)"
  obtain rep st where h: "cs_inv cs1" "replayAll cs chs = Some (rep, None)" "cs_inv rep" "mirrored cs1 (csTable rep)"
    "batchAll cs ?b chs = Some (?b\<lparr>rb_staged := st\<rparr>, None)" "staged_ok cs st" "mirrored cs1 (overlay cs st)"
    using extend.IH [OF extend.prems] by blast
  obtain tr n tr' where s: "tx_inv cs1 tr" "commit_done cs1 tr n True cs2 tr' ch" by (rule history_step [OF extend.hyps(2) h(1)])
  obtain rep' where "ApplyChangeset rep (Some ch) = Some (rep', None)" "cs_inv rep'" "mirrored cs2 (csTable rep')"
    using ApplyChangeset_step [OF s h(3,4)] by blast
  moreover have "rb_open (?b\<lparr>rb_staged := st\<rparr>)" by (simp add: rb_open_def NewRecoveryBatch_def)
  from rbApply_step [OF s extend.prems this] h(6,7) obtain st' where
    "rbApply cs (?b\<lparr>rb_staged := st\<rparr>) (Some ch) = Some (?b\<lparr>rb_staged := st'\<rparr>, None)" "staged_ok cs st'" "mirrored cs2 (overlay cs st')"
    by auto
  ultimately show ?case
    using replayAll_snoc [OF h(2)] batchAll_snoc [OF h(5)] commit_done_inv [OF s] by auto
qed

lemma rbCommit_ok:
  assumes "rb_open b" "staged_ok cs (rb_staged b)"
  shows "\<exists>cs'. rbCommit cs b = (cs', b\<lparr>rb_closed := True, rb_staged := []\<rparr>, None) \<and> published cs (rb_staged b) cs'"
proof -
  have "List.find (\<lambda>(tid, t). tableLocked cs tid = None) (rb_staged b) = None"
    unfolding find_None_iff
  proof
    assume "\<exists>x. x \<in> set (rb_staged b) \<and> (case x of (tid, t) \<Rightarrow> tableLocked cs tid = None)"
    then obtain tid t where t: "(tid, t) \<in> set (rb_staged b)" "csTable cs tid = None" by (auto simp: csTable_def)
    have "map_of (rb_staged b) tid = Some t" using t(1) assms(2) by (simp add: staged_ok_def)
    then show False by (rule staged_okD [OF assms(2)]) (simp add: t(2))
  qed
  then show ?thesis using assms(1) staged_publish [OF assms(2)] usable_open [of b] by (auto simp: rbCommit_def)
qed

lemma rbFail_failed: "rb_failed b = None \<Longrightarrow> rbFail b e = (b', r) \<Longrightarrow> r = rb_failed b' \<and> rb_failed b' = Some e"
  by (auto simp: rbFail_def Let_def)

lemma rbApplyLoop_failed: "rbApplyLoop cs kvs b = Some (b', Some e) \<Longrightarrow> rb_failed b = None \<Longrightarrow> rb_failed b' = Some e"
proof (induction kvs arbitrary: b)
  case (Cons kv kvs)
  obtain tid tc where kv: "kv = (tid, tc)" by (cases kv)
  have fail: "rbFail c x = (b', Some e) \<Longrightarrow> rb_failed c = None \<Longrightarrow> rb_failed b' = Some e" for c x
    using rbFail_failed [of c x b' "Some e"] by simp
  have body: "rb_failed b' = Some e"
    if h: "(do { (t, err) \<leftarrow> applyChangesetToTable t tc;
        let b = c\<lparr>rb_staged := AList.update tid t (rb_staged c)\<rparr>;
        case err of Some e \<Rightarrow> Some (rbFail b e) | None \<Rightarrow> rbApplyLoop cs kvs b }) = Some (b', Some e)" "rb_failed c = None" for t c
    using h Cons.IH fail by (auto simp: Let_def bind_eq_Some_conv split: option.splits)
  show ?case
  proof (cases "map_of (rb_staged b) tid")
    case (Some t)
    then show ?thesis using body [of t b] Cons.prems by (simp add: kv)
  next
    case None
    show ?thesis
    proof (cases "tableLocked cs tid")
      case None': None
      then show ?thesis using None fail Cons.prems by (simp add: kv)
    next
      case (Some t)
      show ?thesis
      proof (cases "ts_isEvent (t_schema t)")
        case True
        then show ?thesis using None Some Cons by (simp add: kv)
      next
        case False
        then obtain r where r: "cloneReplayTable t = Some r" using None Some Cons.prems(1) by (auto simp: kv bind_eq_Some_conv)
        show ?thesis
        proof (cases r)
          case (Inl x)
          then show ?thesis using None Some False r fail Cons.prems by (simp add: kv)
        next
          case (Inr x)
          then show ?thesis
            using None Some False r body [of x "b\<lparr>rb_staged := AList.update tid x (rb_staged b)\<rparr>"] Cons.prems by (simp add: kv)
        qed
      qed
    qed
  qed
qed simp

lemma rbApply_failed: "rbApply cs b ch = Some (b', Some e) \<Longrightarrow> usable (Some b') = Some e"
  using rbApplyLoop_failed [of cs _ b b' e]
  by (auto simp: rbApply_def usable_def split: option.splits if_splits)

section \<open>Properties\<close>

text \<open>
  C6. Replay reproduces the database. Replaying the changesets of any serial history of commits,
  one by one or staged as a recovery batch, from the state the history started in, succeeds, and
  the recovered state is well formed and holds in every table exactly the rows of the state the
  history reached.
\<close>

theorem replay_reproduces:
  assumes "cs_inv cs" "db_history cs chs cs'"
  shows "(\<exists>rep. replayAll cs chs = Some (rep, None) \<and> cs_inv rep \<and>
      (\<forall>tid. rel_option (\<lambda>t u. t_schema u = t_schema t \<and> tableBag u = tableBag t) (csTable cs' tid) (csTable rep tid))) \<and>
    (\<exists>b rep b'. batchAll cs (NewRecoveryBatch (Some cs)) chs = Some (b, None) \<and> rbCommit cs b = (rep, b', None) \<and> cs_inv rep \<and>
      (\<forall>tid. rel_option (\<lambda>t u. t_schema u = t_schema t \<and> tableBag u = tableBag t) (csTable cs' tid) (csTable rep tid)))"
proof -
  let ?b = "NewRecoveryBatch (Some cs)"
  have weak: "\<forall>tid. rel_option (\<lambda>t u. t_schema u = t_schema t \<and> tableBag u = tableBag t) (csTable cs' tid) (f tid)"
    if "mirrored cs' f" for f
  proof
    fix tid
    have "rel_option mirrors (csTable cs' tid) (f tid)" using that by (simp add: mirrored_def)
    then show "rel_option (\<lambda>t u. t_schema u = t_schema t \<and> tableBag u = tableBag t) (csTable cs' tid) (f tid)"
      by (rule option.rel_mono_strong) (simp add: mirrors_def)
  qed
  obtain rep st where h: "replayAll cs chs = Some (rep, None)" "cs_inv rep" "mirrored cs' (csTable rep)"
    "batchAll cs ?b chs = Some (?b\<lparr>rb_staged := st\<rparr>, None)" "staged_ok cs st" "mirrored cs' (overlay cs st)"
    using history_replay [OF assms(2,1)] by blast
  have "rb_open (?b\<lparr>rb_staged := st\<rparr>)" by (simp add: rb_open_def NewRecoveryBatch_def)
  from rbCommit_ok [OF this, of cs] h(5) obtain rep2 b' where
    r: "rbCommit cs (?b\<lparr>rb_staged := st\<rparr>) = (rep2, b', None)" "published cs st rep2" by auto
  have m: "mirrored cs' (csTable rep2)" using h(6) published_overlay [OF r(2)] by simp
  show ?thesis
    by (intro conjI exI) (rule h(1) h(2) weak [OF h(3)] h(4) r(1) published_inv [OF assms(1) h(5) r(2)] weak [OF m])+
qed

text \<open>A committed insertion of two rows, as the one changeset of a history.\<close>

lemma exampleHistory:
  obtains ch cs' where "db_history exampleState [ch] cs'"
proof -
  let ?ops = "[TxInsert 7 (tagRow 0 3), TxInsert 7 (tagRow 1 4)]"
  have ops: "list_all tx_op_ok ?ops" by (simp add: tagRow_values_ok)
  obtain tr oks where tr: "tx_run exampleState NewTransaction ?ops = Some (tr, oks)" "tx_inv exampleState (Seal tr)" "tx_open (Seal tr)"
    using run_committable [OF exampleState_inv ops] by blast
  obtain ch cs' tr' where "CommitWithValidationAtTxID exampleState (Seal tr) 9 None = Some (cs', tr', Inr ch)"
    unfolding CommitWithValidationAtTxID_def
    by (rule commit_tx_inv [OF tr(2,3), of 9 True None]) (auto simp: accepts_def)
  from db_history.extend [OF db_history.start db_step.commit [OF ops tr(1) this]] show thesis using that by simp
qed

theorem replay_reproduces_witness:
  "\<exists>ch cs' rep. db_history exampleState [ch] cs' \<and> replayAll exampleState [ch] = Some (rep, None) \<and> cs_inv rep"
proof -
  obtain ch cs' where h: "db_history exampleState [ch] cs'" by (rule exampleHistory)
  from replay_reproduces [OF exampleState_inv h] h show ?thesis by blast
qed

text \<open>
  C34. Recovery is all or nothing. Replaying a changeset of well-formed rows onto a well-formed
  state returns; it reports an error and leaves the state untouched, or succeeds and leaves it
  well formed. A batch one of whose changesets was refused never publishes: committing it returns
  the first error and the state as it was.
\<close>

theorem recovery_all_or_nothing:
  assumes "cs_inv cs" "changes_ok cs (ch_tables ch)"
  shows "(\<exists>cs' err. ApplyChangeset cs (Some ch) = Some (cs', err) \<and> cs_inv cs' \<and> (err \<noteq> None \<longrightarrow> cs' = cs)) \<and>
    (\<forall>b b' e ch'. rbApply cs b ch' = Some (b', Some e) \<longrightarrow> rbCommit cs b' = (cs, b', Some e))"
proof
  obtain r where r: "stageTables cs (ch_tables ch) [] = Some r" "\<forall>st. r = Inr st \<longrightarrow> staged_ok cs st"
    using stageTables_ok [OF assms staged_ok_empty] by blast
  show "\<exists>cs' err. ApplyChangeset cs (Some ch) = Some (cs', err) \<and> cs_inv cs' \<and> (err \<noteq> None \<longrightarrow> cs' = cs)"
  proof (cases r)
    case (Inl e)
    then show ?thesis using r(1) assms(1) by (simp add: ApplyChangeset_def)
  next
    case (Inr st)
    then have ok: "staged_ok cs st" using r(2) by simp
    obtain cs' where "publish st cs = (cs', None)" "published cs st cs'" using staged_publish [OF ok] by blast
    then show ?thesis using r(1) Inr published_inv [OF assms(1) ok] by (simp add: ApplyChangeset_def)
  qed
  show "\<forall>b b' e ch'. rbApply cs b ch' = Some (b', Some e) \<longrightarrow> rbCommit cs b' = (cs, b', Some e)"
    using rbApply_failed [of cs] by (auto simp: rbCommit_def)
qed

theorem recovery_all_or_nothing_witness:
  "\<exists>cs' err. ApplyChangeset exampleState (Some \<lparr>ch_txID = 1, ch_tables = [(7, Some \<lparr>tc_tableID = 7, tc_tableName = '''', tc_schema = None,
      tc_inserts = [tagRow 0 3, tagRow 0 3], tc_deletes = []\<rparr>)]\<rparr>) = Some (cs', err) \<and> cs_inv cs' \<and> (err \<noteq> None \<longrightarrow> cs' = exampleState)"
proof -
  let ?ch = "\<lparr>ch_txID = 1, ch_tables = [(7, Some \<lparr>tc_tableID = 7, tc_tableName = '''', tc_schema = None,
      tc_inserts = [tagRow 0 3, tagRow 0 3], tc_deletes = []\<rparr>)]\<rparr>"
  have "changes_ok exampleState (ch_tables ?ch)" by (simp add: changes_ok_def change_ok_def tagRow_values_ok)
  from recovery_all_or_nothing [OF exampleState_inv this] show ?thesis by blast
qed

end
