(* ===== verification/Snapshot.thy ===== *)
theory Snapshot
  imports Transaction
begin

text \<open>
  Read snapshots of the committed state (\<^verbatim>\<open>src/store/snapshot.go\<close>): their lifecycle under
  concurrent readers, their reads and their iterators. A world is a snapshot and the number of
  read locks held on the committed state; an operation whose result is \<open>None\<close> panics.
\<close>

section \<open>Lifecycle\<close>

record committedSnapshot =
  sn_cs :: committedState
  sn_closed :: bool
  sn_activeReads :: u64
  sn_lockReleased :: bool

type_synonym world = "committedSnapshot \<times> nat"

definition TakeSnapshot :: "committedState \<Rightarrow> nat \<Rightarrow> world" where
  "TakeSnapshot cs readLocks = (\<lparr>sn_cs = cs, sn_closed = False, sn_activeReads = 0, sn_lockReleased = False\<rparr>, Suc readLocks)"

definition RUnlock :: "nat \<Rightarrow> nat option" where
  "RUnlock readLocks = (case readLocks of 0 \<Rightarrow> None | Suc n \<Rightarrow> Some n)"

definition ensureOpen :: "committedSnapshot \<Rightarrow> unit option" where
  "ensureOpen s = (if sn_closed s then None else Some ())"

definition beginRead :: "committedSnapshot \<Rightarrow> committedSnapshot option" where
  "beginRead s = (if sn_closed s then None else Some (s\<lparr>sn_activeReads := sn_activeReads s + 1\<rparr>))"

text \<open>The part under the lifecycle mutex, and whether the read lock is to be released after it.\<close>

definition endReadLocked :: "committedSnapshot \<Rightarrow> (committedSnapshot \<times> bool) option" where
  "endReadLocked s =
     (if sn_activeReads s = 0 then None
      else
        let s = s\<lparr>sn_activeReads := sn_activeReads s - 1\<rparr> in
        if sn_closed s \<and> sn_activeReads s = 0 \<and> \<not> sn_lockReleased s
        then Some (s\<lparr>sn_lockReleased := True\<rparr>, True) else Some (s, False))"

definition closeLocked :: "committedSnapshot \<Rightarrow> committedSnapshot \<times> bool \<times> bool" where
  "closeLocked s =
     (if sn_closed s then (s, False, False)
      else
        let s = s\<lparr>sn_closed := True\<rparr> in
        if sn_activeReads s = 0 \<and> \<not> sn_lockReleased s then (s\<lparr>sn_lockReleased := True\<rparr>, True, True) else (s, False, True))"

definition releaseIf :: "bool \<Rightarrow> nat \<Rightarrow> nat option" where
  "releaseIf release readLocks = (if release then RUnlock readLocks else Some readLocks)"

definition endRead :: "world \<Rightarrow> world option" where
  "endRead w = do {
     (s, release) \<leftarrow> endReadLocked (fst w);
     readLocks \<leftarrow> releaseIf release (snd w);
     Some (s, readLocks)
   }"

text \<open>The result says whether this call closed the snapshot; the finalizer logs a leak when it did.\<close>

definition closeSnapshot :: "world \<Rightarrow> (world \<times> bool) option" where
  "closeSnapshot w =
     (case closeLocked (fst w) of (s, release, closed) \<Rightarrow> do {
        readLocks \<leftarrow> releaseIf release (snd w);
        Some ((s, readLocks), closed)
      })"

section \<open>Reads\<close>

definition snLookupIndex :: "committedState \<Rightarrow> tableID \<Rightarrow> indexID \<Rightarrow> (table \<times> index) option" where
  "snLookupIndex cs tid iid =
     (case tableLocked cs tid of None \<Rightarrow> None
      | Some t \<Rightarrow> (case IndexByID t iid of None \<Rightarrow> None | Some idx \<Rightarrow> Some (t, idx)))"

text \<open>A read registers itself, looks the state up and ends; its result follows the world.\<close>

definition reading :: "(committedState \<Rightarrow> 'a option) \<Rightarrow> world \<Rightarrow> (world \<times> 'a) option" where
  "reading f w = do {
     s \<leftarrow> beginRead (fst w);
     r \<leftarrow> f (sn_cs s);
     w \<leftarrow> endRead (s, snd w);
     Some (w, r)
   }"

definition snGetRow :: "world \<Rightarrow> tableID \<Rightarrow> rowID \<Rightarrow> (world \<times> productValue option) option" where
  "snGetRow w tid rid = reading (\<lambda>cs. Some (case tableLocked cs tid of None \<Rightarrow> None | Some t \<Rightarrow> GetRow t rid)) w"

definition snRowCount :: "world \<Rightarrow> tableID \<Rightarrow> (world \<times> nat) option" where
  "snRowCount w tid = reading (\<lambda>cs. Some (case tableLocked cs tid of None \<Rightarrow> 0 | Some t \<Rightarrow> RowCount t)) w"

definition snIndexSeek :: "world \<Rightarrow> tableID \<Rightarrow> indexID \<Rightarrow> indexKey \<Rightarrow> (world \<times> rowID list) option" where
  "snIndexSeek w tid iid key =
     reading (\<lambda>cs. case snLookupIndex cs tid iid of None \<Rightarrow> Some [] | Some (_, idx) \<Rightarrow> idxSeek idx key) w"

text \<open>
  The calls that return an iterator: the entries it visits, each with the row it yields, or none
  when the row is missing.
\<close>

type_synonym entries_to_visit = "(rowID \<times> productValue option) list"

definition snTableScan :: "world \<Rightarrow> tableID \<Rightarrow> (world \<times> entries_to_visit) option" where
  "snTableScan w tid =
     reading (\<lambda>cs. Some (case tableLocked cs tid of None \<Rightarrow> [] | Some t \<Rightarrow> map (\<lambda>(rid, row). (rid, Some row)) (tableScan t))) w"

definition rowsFromRowIDs :: "table \<Rightarrow> rowID list \<Rightarrow> entries_to_visit" where
  "rowsFromRowIDs t rids = map (\<lambda>rid. (rid, GetRow t rid)) rids"

definition snIndexScan :: "world \<Rightarrow> tableID \<Rightarrow> indexID \<Rightarrow> go_value \<Rightarrow> (world \<times> entries_to_visit) option" where
  "snIndexScan w tid iid v =
     reading (\<lambda>cs. case snLookupIndex cs tid iid of None \<Rightarrow> Some []
       | Some (t, idx) \<Rightarrow> do { rids \<leftarrow> idxSeek idx (NewIndexKey [v]); Some (rowsFromRowIDs t rids) }) w"

definition snSeekIndex :: "world \<Rightarrow> tableID \<Rightarrow> indexID \<Rightarrow> go_value list \<Rightarrow> (world \<times> entries_to_visit) option" where
  "snSeekIndex w tid iid key =
     reading (\<lambda>cs. case snLookupIndex cs tid iid of None \<Rightarrow> Some []
       | Some (t, idx) \<Rightarrow> do { rids \<leftarrow> idxSeek idx (NewIndexKey key); Some (rowsFromRowIDs t rids) }) w"

text \<open>The entries of a range are collected when the iteration starts; the state is locked in between.\<close>

definition snIndexRange :: "world \<Rightarrow> tableID \<Rightarrow> indexID \<Rightarrow> bound \<Rightarrow> bound \<Rightarrow> (world \<times> entries_to_visit) option" where
  "snIndexRange w tid iid lower upper =
     reading (\<lambda>cs. case snLookupIndex cs tid iid of None \<Rightarrow> Some []
       | Some (t, idx) \<Rightarrow> do { rids \<leftarrow> btCollectBounds (idx_btree idx) lower upper; Some (rowsFromRowIDs t rids) }) w"

definition snSeekIndexRange :: "world \<Rightarrow> tableID \<Rightarrow> indexID \<Rightarrow> bound \<Rightarrow> bound \<Rightarrow> (world \<times> entries_to_visit) option" where
  "snSeekIndexRange w tid iid lower upper = snIndexRange w tid iid lower upper"

section \<open>Iterators\<close>

text \<open>
  The consumer of an iterator gets its own state, the world and a row, and may close the
  snapshot; it answers whether to go on. The result of the loop says whether it ended without
  a panic.
\<close>

type_synonym 'u consumer = "'u \<Rightarrow> world \<Rightarrow> rowID \<times> productValue \<Rightarrow> 'u \<times> world \<times> bool"

fun yieldLoop :: "'u consumer \<Rightarrow> 'u \<Rightarrow> world \<Rightarrow> entries_to_visit \<Rightarrow> 'u \<times> world \<times> bool" where
  "yieldLoop yield u w [] = (u, w, True)"
| "yieldLoop yield u w ((rid, row) # rest) =
     (if ensureOpen (fst w) = None then (u, w, False)
      else case row of
        None \<Rightarrow> yieldLoop yield u w rest
      | Some row \<Rightarrow>
          (case yield u w (rid, row) of (u, w, goOn) \<Rightarrow>
             if \<not> goOn then (u, w, True)
             else if ensureOpen (fst w) = None then (u, w, False)
             else yieldLoop yield u w rest))"

definition iterate :: "'u consumer \<Rightarrow> 'u \<Rightarrow> world \<Rightarrow> entries_to_visit \<Rightarrow> ('u \<times> world \<times> bool) option" where
  "iterate yield u w entries =
     (case beginRead (fst w) of None \<Rightarrow> Some (u, w, False)
      | Some s \<Rightarrow>
          (case yieldLoop yield u (s, snd w) entries of (u, w, ok) \<Rightarrow> do {
             w \<leftarrow> endRead w;
             Some (u, w, ok)
           }))"

section \<open>Concurrent readers\<close>

text \<open>
  The steps of the goroutines that share a snapshot: each section under the lifecycle mutex is
  one step, and the release of the read lock that may follow it is a step of its own. \<open>c_readers\<close>
  counts the operations between \<open>beginRead\<close> and \<open>endRead\<close>, \<open>c_pending\<close> the releases decided but
  not yet made, \<open>c_holds\<close> whether the snapshot still holds its lock.
\<close>

record config =
  c_snap :: committedSnapshot
  c_readers :: nat
  c_pending :: nat
  c_holds :: bool

definition initial :: "committedState \<Rightarrow> config" where
  "initial cs = \<lparr>c_snap = fst (TakeSnapshot cs 0), c_readers = 0, c_pending = 0, c_holds = True\<rparr>"

definition decide :: "bool \<Rightarrow> config \<Rightarrow> config" where
  "decide release c = (if release then c\<lparr>c_pending := Suc (c_pending c)\<rparr> else c)"

inductive snap_step :: "config \<Rightarrow> config \<Rightarrow> bool" where
  begin_read: "beginRead (c_snap c) = Some s \<Longrightarrow> Suc (c_readers c) < 2 ^ 64 \<Longrightarrow>
    snap_step c (c\<lparr>c_snap := s, c_readers := Suc (c_readers c)\<rparr>)"
| end_read: "c_readers c = Suc n \<Longrightarrow> endReadLocked (c_snap c) = Some (s, release) \<Longrightarrow>
    snap_step c (decide release (c\<lparr>c_snap := s, c_readers := n\<rparr>))"
| close: "closeLocked (c_snap c) = (s, release, closed) \<Longrightarrow> snap_step c (decide release (c\<lparr>c_snap := s\<rparr>))"
| unlock: "c_pending c = Suc n \<Longrightarrow> snap_step c (c\<lparr>c_pending := n, c_holds := False\<rparr>)"

inductive snap_reachable :: "committedState \<Rightarrow> config \<Rightarrow> bool" for cs where
  init: "snap_reachable cs (initial cs)"
| more_steps: "snap_reachable cs c \<Longrightarrow> snap_step c c' \<Longrightarrow> snap_reachable cs c'"

inductive_cases snap_stepE: "snap_step c c'"

text \<open>
  The lock is released once, by the operation that sees the snapshot closed and no reader left.
\<close>

definition snap_inv :: "config \<Rightarrow> bool" where
  "snap_inv c \<longleftrightarrow> unat (sn_activeReads (c_snap c)) = c_readers c \<and>
     (sn_lockReleased (c_snap c) \<longleftrightarrow> sn_closed (c_snap c) \<and> c_readers c = 0) \<and>
     c_pending c = (if sn_lockReleased (c_snap c) \<and> c_holds c then 1 else 0) \<and>
     (\<not> sn_lockReleased (c_snap c) \<longrightarrow> c_holds c)"

lemma snap_inv_initial: "snap_inv (initial cs)"
  by (simp add: snap_inv_def initial_def TakeSnapshot_def)

lemma unat_Suc: "Suc (unat w) < 2 ^ 64 \<Longrightarrow> unat (w + 1) = Suc (unat (w :: u64))"
  by (simp add: unat_word_ariths)

lemma unat_pred: "(w :: u64) \<noteq> 0 \<Longrightarrow> unat (w - 1) = unat w - 1"
  by (simp add: unat_minus_one)

lemma snap_inv_step: "snap_step c c' \<Longrightarrow> snap_inv c \<Longrightarrow> snap_inv c'"
proof (induction rule: snap_step.induct)
  case (begin_read c s)
  then show ?case by (auto simp: snap_inv_def beginRead_def unat_Suc split: if_splits)
next
  case (end_read c n s release)
  have nz: "sn_activeReads (c_snap c) \<noteq> 0" using end_read by (auto simp: endReadLocked_def)
  have n: "unat (sn_activeReads (c_snap c) - 1) = n" using end_read unat_pred [OF nz] by (simp add: snap_inv_def)
  have "sn_activeReads (c_snap c) - 1 = 0 \<longleftrightarrow> n = 0" using n by (metis unat_0 unat_eq_zero)
  then show ?case using end_read n nz by (auto simp: snap_inv_def endReadLocked_def decide_def Let_def split: if_splits)
next
  case (close c s release closed)
  have "sn_activeReads (c_snap c) = 0 \<longleftrightarrow> c_readers c = 0" using close by (metis snap_inv_def unat_eq_zero)
  then show ?case using close by (auto simp: snap_inv_def closeLocked_def decide_def Let_def split: if_splits)
next
  case (unlock c n)
  then show ?case by (auto simp: snap_inv_def split: if_splits)
qed

lemma reachable_inv: "snap_reachable cs c \<Longrightarrow> snap_inv c"
  by (induction rule: snap_reachable.induct) (auto intro: snap_inv_initial snap_inv_step)

lemma step_state: "snap_step c c' \<Longrightarrow> sn_cs (c_snap c') = sn_cs (c_snap c)"
  by (induction rule: snap_step.induct)
    (auto simp: beginRead_def endReadLocked_def closeLocked_def decide_def Let_def split: if_splits)

lemma reachable_state: "snap_reachable cs c \<Longrightarrow> sn_cs (c_snap c) = cs"
  by (induction rule: snap_reachable.induct) (simp_all add: initial_def TakeSnapshot_def step_state)

section \<open>Reads of an open snapshot\<close>

definition open_snap :: "world \<Rightarrow> bool" where
  "open_snap w \<longleftrightarrow> \<not> sn_closed (fst w) \<and> sn_activeReads (fst w) + 1 \<noteq> 0"

lemma reading_open: "open_snap w \<Longrightarrow> f (sn_cs (fst w)) = Some r \<Longrightarrow> reading f w = Some (w, r)"
  by (cases w) (simp add: open_snap_def reading_def beginRead_def endRead_def endReadLocked_def releaseIf_def)

lemma reading_closed: "sn_closed (fst w) \<Longrightarrow> reading f w = None"
  by (simp add: reading_def beginRead_def)

lemma idxRange_rows:
  assumes inv: "tbl_inv t" and idx: "IndexByID t iid = Some idx"
    and b: "bound_for (keyKinds (t_schema t) (idx_schema idx)) low" "bound_for (keyKinds (t_schema t) (idx_schema idx)) high"
  shows "\<exists>rids. btCollectBounds (idx_btree idx) low high = Some rids \<and> distinct rids \<and>
    set rids = {r. \<exists>x. rowsOf t r = Some x \<and> in_low low (keyOf (idx_schema idx) x) \<and> in_high high (keyOf (idx_schema idx) x)}"
proof -
  let ?P = "\<lambda>k. in_low low k \<and> in_high high k"
  have cong: "compareKey k l = 0 \<Longrightarrow> ?P k = ?P l" for k l
    using in_low_cong in_high_cong by metis
  show ?thesis
    using btCollectBounds_spec [OF bt_inv_index [OF inv idx] b] filtered_index [OF inv idx, of ?P, OF cong] by auto
qed

text \<open>Visiting identifiers of rows of the table yields those rows.\<close>

lemma rowsFromRowIDs_set:
  assumes inv: "tbl_inv t" and ids: "distinct rids" "set rids = {r. \<exists>x. rowsOf t r = Some x \<and> P x}"
  shows "distinct (map fst (rowsFromRowIDs t rids)) \<and>
    set (rowsFromRowIDs t rids) = {(r, Some x) | r x. (r, x) \<in> set (tableScan t) \<and> P x}"
proof
  show "distinct (map fst (rowsFromRowIDs t rids))" using ids(1) by (simp add: rowsFromRowIDs_def comp_def)
  have "set (rowsFromRowIDs t rids) = {(r, Some x) | r x. rowsOf t r = Some x \<and> P x}"
    using ids(2) by (auto simp: rowsFromRowIDs_def GetRow_eq [OF inv] image_iff)
  moreover have "distinct (map fst (t_rows t))" using inv by (simp add: tbl_inv_def)
  ultimately show "set (rowsFromRowIDs t rids) = {(r, Some x) | r x. (r, x) \<in> set (tableScan t) \<and> P x}"
    by (simp add: tableScan_eq [OF inv])
qed

section \<open>Iterators over an open snapshot\<close>

text \<open>A consumer that collects the rows, and closes the snapshot while it handles the row number \<open>k\<close>.\<close>

definition closingAt :: "nat \<Rightarrow> (rowID \<times> productValue) list consumer" where
  "closingAt k u w row = (u @ [row], (if length u = k then (case closeSnapshot w of None \<Rightarrow> w | Some (w', _) \<Rightarrow> w') else w), True)"

abbreviation visits :: "(rowID \<times> productValue) list \<Rightarrow> entries_to_visit" where
  "visits rows \<equiv> map (\<lambda>(rid, row). (rid, Some row)) rows"

lemma closing_step:
  "yieldLoop (closingAt k) u w ((rid, Some row) # rest) =
     (if sn_closed (fst w) then (u, w, False)
      else let w = (if length u = k then (case closeSnapshot w of None \<Rightarrow> w | Some (w', _) \<Rightarrow> w') else w) in
        if sn_closed (fst w) then (u @ [(rid, row)], w, False) else yieldLoop (closingAt k) (u @ [(rid, row)]) w rest)"
  by (simp add: ensureOpen_def closingAt_def Let_def)

lemma yieldLoop_all:
  "\<not> sn_closed (fst w) \<Longrightarrow> length u + length rows \<le> k \<Longrightarrow> yieldLoop (closingAt k) u w (visits rows) = (u @ rows, w, True)"
  by (induction rows arbitrary: u) (auto simp: closing_step simp del: yieldLoop.simps(2))

lemma closeSnapshot_reading:
  "\<not> sn_closed s \<Longrightarrow> sn_activeReads s \<noteq> 0 \<Longrightarrow> closeSnapshot (s, n) = Some ((s\<lparr>sn_closed := True\<rparr>, n), True)"
  by (simp add: closeSnapshot_def closeLocked_def releaseIf_def)

lemma yieldLoop_closed:
  "\<not> sn_closed s \<Longrightarrow> sn_activeReads s \<noteq> 0 \<Longrightarrow> length u \<le> k \<Longrightarrow> k < length u + length rows \<Longrightarrow>
   yieldLoop (closingAt k) u (s, n) (visits rows) = (u @ take (Suc k - length u) rows, (s\<lparr>sn_closed := True\<rparr>, n), False)"
proof (induction rows arbitrary: u)
  case (Cons r rows)
  show ?case
  proof (cases "length u = k")
    case True
    then show ?thesis using Cons.prems closeSnapshot_reading [OF Cons.prems(1,2), of n]
      by (cases r) (simp add: closing_step del: yieldLoop.simps(2))
  next
    case False
    then have "yieldLoop (closingAt k) (u @ [r]) (s, n) (visits rows) =
        ((u @ [r]) @ take (Suc k - length (u @ [r])) rows, (s\<lparr>sn_closed := True\<rparr>, n), False)"
      using Cons.prems by (intro Cons.IH) simp_all
    moreover have "take (Suc k - length u) (r # rows) = r # take (k - length u) rows" using Cons.prems(3) by (simp add: Suc_diff_le)
    ultimately show ?thesis using False Cons.prems(1) by (cases r) (simp add: closing_step del: yieldLoop.simps(2))
  qed
qed simp

section \<open>Properties\<close>

text \<open>
  C35. The read lock of a snapshot. In every interleaving of reads, repeated closes and lock
  releases, an operation between \<open>beginRead\<close> and \<open>endRead\<close> runs under the read lock and never
  underflows the count; the lock is held while the snapshot is open, its release is decided at
  most once, only after a close with no reader left, and always then.
\<close>

theorem snapshot_lock_safe:
  assumes "snap_reachable cs c"
  shows "sn_cs (c_snap c) = cs \<and>
    (c_readers c > 0 \<or> \<not> sn_closed (c_snap c) \<longrightarrow> c_holds c \<and> c_pending c = 0) \<and>
    (c_readers c > 0 \<longrightarrow> endReadLocked (c_snap c) \<noteq> None) \<and>
    c_pending c \<le> 1 \<and> (c_pending c = 1 \<longrightarrow> c_holds c) \<and>
    (sn_closed (c_snap c) \<and> c_readers c = 0 \<longrightarrow> (c_holds c \<longleftrightarrow> c_pending c = 1))"
proof -
  have inv: "snap_inv c" by (rule reachable_inv [OF assms])
  have "sn_activeReads (c_snap c) \<noteq> 0" if "c_readers c > 0" using inv that by (auto simp: snap_inv_def)
  then show ?thesis using inv reachable_state [OF assms]
    by (auto simp: snap_inv_def endReadLocked_def Let_def split: if_splits)
qed

theorem snapshot_lock_safe_witness:
  "\<exists>c. snap_reachable exampleState c \<and> c_readers c = 1 \<and> sn_closed (c_snap c) \<and> c_holds c"
proof -
  let ?c0 = "initial exampleState"
  obtain c1 where c1: "snap_step ?c0 c1" "c_readers c1 = 1" "\<not> sn_closed (c_snap c1)" "sn_activeReads (c_snap c1) = 1"
    using snap_step.begin_read [of ?c0] by (force simp: initial_def TakeSnapshot_def beginRead_def)
  obtain c2 where c2: "snap_step c1 c2" "c_readers c2 = 1" "sn_closed (c_snap c2)"
    using snap_step.close [of c1 "(c_snap c1)\<lparr>sn_closed := True\<rparr>" False True] c1 by (force simp: closeLocked_def decide_def)
  have r: "snap_reachable exampleState c2"
    by (rule snap_reachable.more_steps [OF snap_reachable.more_steps [OF snap_reachable.init c1(1)] c2(1)])
  from snapshot_lock_safe [OF this] r c2 show ?thesis by auto
qed



text \<open>
  Closing a snapshot under an iterator. A consumer that closes the snapshot while it handles a
  row sees that row as the last one: the iteration panics, and only its end releases the read
  lock. A consumer that does not close it sees every row and leaves the world as it was.
\<close>

theorem iterator_stops_on_close:
  assumes "\<not> sn_closed s" "sn_activeReads s = 0" "\<not> sn_lockReleased s"
  shows "iterate (closingAt k) [] (s, Suc n) (visits rows) =
    (if k < length rows then Some (take (Suc k) rows, (s\<lparr>sn_closed := True, sn_lockReleased := True\<rparr>, n), False)
     else Some (rows, (s, Suc n), True))"
proof -
  let ?s = "s\<lparr>sn_activeReads := 1\<rparr>"
  have b: "beginRead s = Some ?s" using assms by (simp add: beginRead_def)
  show ?thesis
  proof (cases "k < length rows")
    case True
    have "yieldLoop (closingAt k) [] (?s, Suc n) (visits rows) = (take (Suc k) rows, (?s\<lparr>sn_closed := True\<rparr>, Suc n), False)"
      using yieldLoop_closed [of ?s "[]" k rows "Suc n"] assms True by simp
    then show ?thesis using b True assms by (simp add: iterate_def endRead_def endReadLocked_def releaseIf_def RUnlock_def)
  next
    case False
    have "yieldLoop (closingAt k) [] (?s, Suc n) (visits rows) = (rows, (?s, Suc n), True)"
      using yieldLoop_all [of "(?s, Suc n)" "[]" rows k] assms False by simp
    then show ?thesis using b False assms by (simp add: iterate_def endRead_def endReadLocked_def releaseIf_def)
  qed
qed

theorem iterator_stops_on_close_witness:
  "\<exists>w ok. iterate (closingAt 0) [] (TakeSnapshot exampleState 0) (visits [(1, tagRow 1 1), (2, tagRow 2 2)]) = Some ([(1, tagRow 1 1)], w, ok)
    \<and> snd w = 0 \<and> \<not> ok"
  using iterator_stops_on_close [of "fst (TakeSnapshot exampleState 0)" 0 0 "[(1, tagRow 1 1), (2, tagRow 2 2)]"]
  by (auto simp: TakeSnapshot_def)

end
