(* ===== verification/Segment.thy ===== *)
theory Segment
  imports Bsatn
begin

text \<open>
  Commit log segments (\<open>src/commitlog/segment.go\<close>, \<open>segment_scan.go\<close>).

  A segment file is an 8 byte header followed by records; a record is a 14 byte header, a
  payload and the CRC32C of both. The file under a name of the log directory is a byte
  string; a reader is a byte string with a position, a writer the byte string it has written
  so far together with the length that has been synchronised. Reads and writes of the
  operating system succeed.

  The lemmas show that records are framed without ambiguity, that a changed byte is caught by
  the checksum, and that a segment cut at any byte scans to the records it holds whole.
\<close>

section \<open>CRC32C\<close>

text \<open>
  \<open>hash/crc32\<close> with the Castagnoli polynomial in reversed bit order: \<open>MakeTable\<close> runs the
  bitwise division over the byte, \<open>Update\<close> folds the table over the bytes of the
  complemented sum.
\<close>

definition castagnoli :: u32 where "castagnoli = 0x82F63B78"

definition crcBit :: "u32 \<Rightarrow> u32" where
  "crcBit c = (if bit c 0 then drop_bit 1 c XOR castagnoli else drop_bit 1 c)"

definition crcTable :: "byte \<Rightarrow> u32" where
  "crcTable b = (crcBit ^^ 8) (ucast b)"

definition crcStep :: "u32 \<Rightarrow> byte \<Rightarrow> u32" where
  "crcStep crc v = crcTable (ucast crc XOR v) XOR drop_bit 8 crc"

definition crcUpdate :: "u32 \<Rightarrow> bytes \<Rightarrow> u32" where
  "crcUpdate crc p = NOT (foldl crcStep (NOT crc) p)"

section \<open>Records\<close>

datatype log_error =
    IOErr io_error
  | ErrBadMagic
  | BadVersionError byte
  | ErrBadFlags
  | ErrTruncatedRecord
  | UnknownRecordTypeError byte
  | ChecksumMismatchError u32 u32 u64
  | RecordTooLargeError u32 u32
  | HistoryGapError u64 u64 string
  | ErrRecordLength
  | ErrBootstrapStart string
  | ErrAfterMaxTx u64 u64 string
  | ErrFirstTx u64 u64
  | ErrNextTx u64 u64
  | ErrSegmentName string
  | ErrNotExist string
  | ErrNotRegular string
  | ErrAlreadyExists string
  | ErrAppendForbidden string
  | ErrInvalidResumePlan
  | ErrTraversal string
  | ErrTraversalRow string log_error
  | RowTooLargeError u32 u32
  | RowCodecError bsatn_error
  | ErrRowSizeChanged nat nat

definition formatMaxRecordPayloadBytes :: u32 where "formatMaxRecordPayloadBytes = 64 * 2 ^ 20"

definition formatMaxRowBytes :: u32 where "formatMaxRowBytes = 8 * 2 ^ 20"

definition SegmentMagic :: bytes where "SegmentMagic = [0x53, 0x48, 0x4E, 0x54]"

definition SegmentVersion :: byte where "SegmentVersion = 1"

definition SegmentHeaderSize :: nat where "SegmentHeaderSize = 8"

definition RecordTypeChangeset :: byte where "RecordTypeChangeset = 1"

definition RecordHeaderSize :: nat where "RecordHeaderSize = 14"

definition RecordCRCSize :: nat where "RecordCRCSize = 4"

definition RecordOverhead :: nat where "RecordOverhead = RecordHeaderSize + RecordCRCSize"

record logRecord =
  lr_TxID :: u64
  lr_RecordType :: byte
  lr_Flags :: byte
  lr_Payload :: bytes

definition WriteSegmentHeader :: "bytes \<Rightarrow> bytes" where
  "WriteSegmentHeader w = w @ SegmentMagic @ [SegmentVersion, 0, 0, 0]"

definition ReadSegmentHeader :: "bytes \<Rightarrow> log_error + bytes" where
  "ReadSegmentHeader r =
     (case readFull SegmentHeaderSize r of
        Inl e \<Rightarrow> Inl (IOErr e)
      | Inr (buf, r') \<Rightarrow>
          if buf ! 0 \<noteq> SegmentMagic ! 0 \<or> buf ! 1 \<noteq> SegmentMagic ! 1 \<or>
             buf ! 2 \<noteq> SegmentMagic ! 2 \<or> buf ! 3 \<noteq> SegmentMagic ! 3 then Inl ErrBadMagic
          else if buf ! 4 \<noteq> SegmentVersion then Inl (BadVersionError (buf ! 4))
          else if buf ! 5 \<noteq> 0 \<or> buf ! 6 \<noteq> 0 \<or> buf ! 7 \<noteq> 0 then Inl ErrBadFlags
          else Inr r')"

definition checkedRecordPayloadLen :: "logRecord \<Rightarrow> u32 option" where
  "checkedRecordPayloadLen rec =
     (if length (lr_Payload rec) > 2 ^ 32 - 1 then None else Some (of_nat (length (lr_Payload rec))))"

definition recordHeader :: "logRecord \<Rightarrow> u32 \<Rightarrow> bytes" where
  "recordHeader rec n = put_le 8 (lr_TxID rec) @ [lr_RecordType rec, lr_Flags rec] @ put_le 4 n"

definition ComputeRecordCRC :: "logRecord \<Rightarrow> u32 option" where
  "ComputeRecordCRC rec = do {
     n \<leftarrow> checkedRecordPayloadLen rec;
     let sum = crcUpdate 0 (recordHeader rec n);
     Some (crcUpdate sum (lr_Payload rec))
   }"

definition EncodeRecord :: "bytes \<Rightarrow> logRecord \<Rightarrow> (log_error + bytes) option" where
  "EncodeRecord w rec =
     (if length (lr_Payload rec) > 2 ^ 32 - 1 then Some (Inl ErrRecordLength)
      else do {
        payloadLen \<leftarrow> checkedRecordPayloadLen rec;
        let w = w @ recordHeader rec payloadLen;
        let w = w @ lr_Payload rec;
        crc \<leftarrow> ComputeRecordCRC rec;
        Some (Inr (w @ put_le 4 crc))
      })"

definition allBytesZero :: "bytes \<Rightarrow> bool" where
  "allBytesZero p = list_all (\<lambda>b. b = 0) p"

definition isZeroRecordHeader :: "bytes \<Rightarrow> bool" where
  "isZeroRecordHeader buf = allBytesZero buf"

text \<open>
  Reading returns the outcome together with the bytes left in the file: a short
  \<open>io.ReadFull\<close> has consumed everything there was.
\<close>

type_synonym 'a reading_result = "((log_error + 'a) \<times> bytes) option"

definition readRecordPayload :: "bytes \<Rightarrow> u32 \<Rightarrow> (log_error + bytes) \<times> bytes" where
  "readRecordPayload r dataLen =
     (if dataLen = 0 then (Inr [], r)
      else case readFull (unat dataLen) r of
             Inl e \<Rightarrow> (Inl ErrTruncatedRecord, [])
           | Inr (payload, r') \<Rightarrow> (Inr payload, r'))"

text \<open>The checks \<open>DecodeRecord\<close> and \<open>scanNextRecord\<close> make once the header is read.\<close>

definition finishRecord :: "bytes \<Rightarrow> u32 \<Rightarrow> bytes \<Rightarrow> logRecord reading_result" where
  "finishRecord buf dataLen r =
     (case readRecordPayload r dataLen of
        (Inl e, r') \<Rightarrow> Some (Inl e, r')
      | (Inr payload, r') \<Rightarrow>
          (case readFull RecordCRCSize r' of
             Inl e \<Rightarrow> Some (Inl ErrTruncatedRecord, [])
           | Inr (crcBuf, r'') \<Rightarrow> do {
               let rec = \<lparr>lr_TxID = get_le (take 8 buf), lr_RecordType = buf ! 8,
                          lr_Flags = buf ! 9, lr_Payload = payload\<rparr>;
               let expectedCRC = get_le crcBuf;
               actualCRC \<leftarrow> ComputeRecordCRC rec;
               Some (if expectedCRC \<noteq> actualCRC
                     then (Inl (ChecksumMismatchError expectedCRC actualCRC (lr_TxID rec)), r'')
                     else if lr_RecordType rec \<noteq> RecordTypeChangeset
                     then (Inl (UnknownRecordTypeError (lr_RecordType rec)), r'')
                     else if lr_Flags rec \<noteq> 0 then (Inl ErrBadFlags, r'')
                     else (Inr rec, r''))
             }))"

definition DecodeRecord :: "bytes \<Rightarrow> u32 \<Rightarrow> logRecord reading_result" where
  "DecodeRecord r maxPayload =
     (case readFull RecordHeaderSize r of
        Inl UnexpectedEOF \<Rightarrow> Some (Inl (if allBytesZero r then IOErr EOF else ErrTruncatedRecord), [])
      | Inl e \<Rightarrow> Some (Inl (IOErr e), [])
      | Inr (buf, r') \<Rightarrow>
          if isZeroRecordHeader buf then Some (Inl (IOErr EOF), r')
          else
            let dataLen = get_le (drop 10 buf);
                maxPayload = (if maxPayload = 0 then formatMaxRecordPayloadBytes else maxPayload)
            in if maxPayload > 0 \<and> dataLen > maxPayload
               then Some (Inl (RecordTooLargeError dataLen maxPayload), r')
               else finishRecord buf dataLen r')"

section \<open>File names\<close>

fun digitsN :: "nat \<Rightarrow> nat \<Rightarrow> string" where
  "digitsN 0 n = []"
| "digitsN (Suc k) n = digitsN k (n div 10) @ [char_of (48 + n mod 10)]"

text \<open>\<open>%020d\<close>: every 64 bit number has at most twenty digits.\<close>

definition SegmentFileName :: "u64 \<Rightarrow> string" where
  "SegmentFileName startTxID = digitsN 20 (unat startTxID) @ ''.log''"

definition isDigitChar :: "char \<Rightarrow> bool" where
  "isDigitChar c \<longleftrightarrow> 48 \<le> (of_char c :: nat) \<and> (of_char c :: nat) \<le> 57"

definition digitsValue :: "string \<Rightarrow> nat" where
  "digitsValue = foldl (\<lambda>n c. 10 * n + (of_char c - 48)) 0"

text \<open>\<open>fmt.Sscanf(name, "%d.log", &startTx)\<close>.\<close>

definition sscanfSegmentName :: "string \<Rightarrow> u64 option" where
  "sscanfSegmentName name =
     (let s = dropWhile (\<lambda>c. c = CHR '' '') name;
          ds = takeWhile isDigitChar s;
          rest = dropWhile isDigitChar s
      in if ds = [] \<or> digitsValue ds \<ge> 2 ^ 64 \<or> take 4 rest \<noteq> ''.log'' then None
         else Some (of_nat (digitsValue ds)))"

definition parseSegmentFileStartTx :: "string \<Rightarrow> log_error + u64" where
  "parseSegmentFileStartTx name =
     (case sscanfSegmentName name of
        None \<Rightarrow> Inl (ErrSegmentName name)
      | Some startTx \<Rightarrow>
          if name \<noteq> SegmentFileName startTx then Inl (ErrSegmentName name) else Inr startTx)"

definition rejectBootstrapSegmentStart :: "u64 \<Rightarrow> string \<Rightarrow> log_error + unit" where
  "rejectBootstrapSegmentStart startTxID path =
     (if startTxID \<noteq> 0 then Inr () else Inl (ErrBootstrapStart path))"

section \<open>The log directory\<close>

text \<open>The entries of the log directory under their names; a path is a name in it.\<close>

datatype dirEntry = RegularFile bytes | Subdirectory | SpecialFile

type_synonym directory = "(string \<times> dirEntry) list"

definition requireCreatableRegularFilePath :: "directory \<Rightarrow> string \<Rightarrow> log_error + unit" where
  "requireCreatableRegularFilePath dir path =
     (case map_of dir path of
        None \<Rightarrow> Inr ()
      | Some (RegularFile _) \<Rightarrow> Inl (ErrAlreadyExists path)
      | Some _ \<Rightarrow> Inl (ErrNotRegular path))"

definition openExistingRegularFile :: "directory \<Rightarrow> string \<Rightarrow> log_error + bytes" where
  "openExistingRegularFile dir path =
     (case map_of dir path of
        None \<Rightarrow> Inl (ErrNotExist path)
      | Some (RegularFile content) \<Rightarrow> Inr content
      | Some _ \<Rightarrow> Inl (ErrNotRegular path))"

section \<open>Scanning\<close>

datatype appendMode = AppendInPlace | AppendByFreshNextSegment | AppendForbidden

record segmentInfo =
  si_Path :: string
  si_StartTx :: u64
  si_LastTx :: u64
  si_Valid :: bool
  si_AppendMode :: appendMode

record segmentReader =
  sr_file :: bytes
  sr_pos :: nat
  sr_startTx :: u64
  sr_lastTx :: u64

definition OpenSegment :: "directory \<Rightarrow> string \<Rightarrow> log_error + segmentReader" where
  "OpenSegment dir path =
     bindE (openExistingRegularFile dir path) (\<lambda>f.
     bindE (ReadSegmentHeader f) (\<lambda>_.
     bindE (parseSegmentFileStartTx path) (\<lambda>startTx.
     Inr \<lparr>sr_file = f, sr_pos = SegmentHeaderSize, sr_startTx = startTx, sr_lastTx = 0\<rparr>)))"

text \<open>The loop reads chunks of 32 KiB.\<close>

definition zeroChunk :: nat where "zeroChunk = 32 * 1024"

function remainingBytesAreZero :: "bytes \<Rightarrow> nat \<Rightarrow> log_error + bool" where
  "remainingBytesAreZero r remaining =
     (if remaining = 0 then Inr True
      else
        let n = (if zeroChunk > remaining then remaining else zeroChunk)
        in case readFull n r of
             Inl e \<Rightarrow> Inl (IOErr e)
           | Inr (buf, r') \<Rightarrow>
               if \<not> allBytesZero buf then Inr False
               else remainingBytesAreZero r' (remaining - n))"
  by pat_completeness auto
termination
  by (relation "measure snd") (auto simp: zeroChunk_def)

declare remainingBytesAreZero.simps [simp del]

definition scanNextRecord :: "bytes \<Rightarrow> logRecord reading_result" where
  "scanNextRecord r =
     (let remaining = length r in
      if remaining = 0 then Some (Inl (IOErr EOF), r)
      else if remaining < RecordHeaderSize then
        (case remainingBytesAreZero r remaining of
           Inl e \<Rightarrow> Some (Inl e, [])
         | Inr ok \<Rightarrow> Some (Inl (if ok then IOErr EOF else ErrTruncatedRecord), []))
      else
        (case readFull RecordHeaderSize r of
           Inl e \<Rightarrow> Some (Inl ErrTruncatedRecord, [])
         | Inr (header, r') \<Rightarrow>
             if isZeroRecordHeader header then
               (case remainingBytesAreZero r' (remaining - RecordHeaderSize) of
                  Inl e \<Rightarrow> Some (Inl e, [])
                | Inr ok \<Rightarrow> Some (Inl (if \<not> ok then ErrTruncatedRecord else IOErr EOF), []))
             else
               let dataLen = get_le (drop 10 header)
               in if unat dataLen + RecordCRCSize > remaining - RecordHeaderSize
                  then Some (Inl ErrTruncatedRecord, r')
                  else if dataLen > formatMaxRecordPayloadBytes
                  then Some (Inl (RecordTooLargeError dataLen formatMaxRecordPayloadBytes), r')
                  else finishRecord header dataLen r'))"

definition isDamagedTailError :: "log_error \<Rightarrow> bool" where
  "isDamagedTailError err =
     (case err of ErrTruncatedRecord \<Rightarrow> True | ChecksumMismatchError _ _ _ \<Rightarrow> True | _ \<Rightarrow> False)"

definition nextContiguousRecordTxID :: "u64 \<Rightarrow> u64 \<Rightarrow> string \<Rightarrow> log_error + u64" where
  "nextContiguousRecordTxID lastTx gotTx path =
     (if lastTx = - 1 then Inl (ErrAfterMaxTx gotTx lastTx path) else Inr (lastTx + 1))"

text \<open>The order check of both scan loops: the first record starts the segment, each later one follows.\<close>

definition checkRecordTx :: "string \<Rightarrow> u64 \<Rightarrow> nat \<Rightarrow> u64 \<Rightarrow> u64 \<Rightarrow> log_error + unit" where
  "checkRecordTx path startTx recordCount lastTx txID =
     (if recordCount = 0 then
        if txID \<noteq> startTx then Inl (HistoryGapError startTx txID path) else Inr ()
      else
        bindE (nextContiguousRecordTxID lastTx txID path) (\<lambda>expected.
        if txID \<noteq> expected then Inl (HistoryGapError expected txID path) else Inr ()))"

lemma readRecordPayload_Inr:
  "readRecordPayload r n = (Inr p, r') \<longleftrightarrow> length p = unat n \<and> r = p @ r'"
  by (auto simp: readRecordPayload_def readFull_def unat_eq_zero split: if_splits)

lemma finishRecord_Inr:
  "finishRecord buf n r = Some (Inr rec, r') \<longleftrightarrow>
     (\<exists>crcBuf. lr_TxID rec = get_le (take 8 buf) \<and> lr_RecordType rec = buf ! 8 \<and> lr_Flags rec = buf ! 9 \<and>
        length (lr_Payload rec) = unat n \<and> length crcBuf = 4 \<and> r = lr_Payload rec @ crcBuf @ r' \<and>
        ComputeRecordCRC rec = Some (get_le crcBuf) \<and>
        lr_RecordType rec = RecordTypeChangeset \<and> lr_Flags rec = 0)"
  (is "?l \<longleftrightarrow> ?r")
proof
  assume ?l
  then obtain p r1 where p: "readRecordPayload r n = (Inr p, r1)"
    by (cases "readRecordPayload r n") (auto simp: finishRecord_def split: sum.splits)
  with \<open>?l\<close> obtain crcBuf r2 where c: "readFull RecordCRCSize r1 = Inr (crcBuf, r2)"
    by (auto simp: finishRecord_def split: sum.splits)
  from \<open>?l\<close> p c show ?r
    by (intro exI [of _ crcBuf])
      (auto simp: finishRecord_def readRecordPayload_Inr readFull_eq_Inr RecordCRCSize_def Let_def result_simps
            split: if_splits)
next
  assume ?r
  then obtain crcBuf where *: "length (lr_Payload rec) = unat n" "length crcBuf = 4" "r = lr_Payload rec @ crcBuf @ r'"
    "lr_TxID rec = get_le (take 8 buf)" "lr_RecordType rec = buf ! 8" "lr_Flags rec = buf ! 9"
    "ComputeRecordCRC rec = Some (get_le crcBuf)" "lr_RecordType rec = RecordTypeChangeset" "lr_Flags rec = 0"
    by blast
  then have "readRecordPayload r n = (Inr (lr_Payload rec), crcBuf @ r')"
    by (simp add: readRecordPayload_Inr)
  with * show ?l
    by (cases rec) (simp add: finishRecord_def RecordCRCSize_def Let_def)
qed

lemma finishRecord_shorter: "finishRecord buf n r = Some (Inr rec, r') \<Longrightarrow> length r' \<le> length r"
  by (auto simp: finishRecord_Inr)

lemma scanNextRecord_shorter:
  assumes "scanNextRecord r = Some (Inr rec, r')"
  shows "length r' < length r"
proof -
  have n: "\<not> length r < RecordHeaderSize" "r \<noteq> []"
    using assms by (auto simp: scanNextRecord_def Let_def split: sum.splits if_splits)
  then have "readFull RecordHeaderSize r = Inr (take 14 r, drop 14 r)"
    by (simp add: readFull_def RecordHeaderSize_def)
  then have "finishRecord (take 14 r) (get_le (drop 10 (take 14 r))) (drop 14 r) = Some (Inr rec, r')"
    using assms n by (simp add: scanNextRecord_def Let_def split: if_splits sum.splits)
  from finishRecord_shorter [OF this] n show ?thesis
    by (simp add: RecordHeaderSize_def)
qed

function scanRecords ::
  "string \<Rightarrow> bool \<Rightarrow> u64 \<Rightarrow> appendMode \<Rightarrow> nat \<Rightarrow> u64 \<Rightarrow> bytes \<Rightarrow>
     (log_error + appendMode \<times> nat \<times> u64) option" where
  "scanRecords path isLast startTx mode recordCount lastTx r =
     (case scanNextRecord r of
        None \<Rightarrow> None
      | Some (Inl err, _) \<Rightarrow>
          if err = IOErr EOF then Some (Inr (mode, recordCount, lastTx))
          else if isDamagedTailError err \<and> (recordCount > 0 \<or> isLast)
          then Some (Inr (AppendByFreshNextSegment, recordCount, lastTx))
          else Some (Inl err)
      | Some (Inr rec, r') \<Rightarrow>
          (case checkRecordTx path startTx recordCount lastTx (lr_TxID rec) of
             Inl err \<Rightarrow> Some (Inl err)
           | Inr _ \<Rightarrow> scanRecords path isLast startTx mode (recordCount + 1) (lr_TxID rec) r'))"
  by pat_completeness auto
termination
  by (relation "measure (\<lambda>(_, _, _, _, _, _, r). length r)") (auto dest: scanNextRecord_shorter)

declare scanRecords.simps [simp del]

definition scanOneSegment :: "directory \<Rightarrow> string \<Rightarrow> bool \<Rightarrow> (log_error + segmentInfo) option" where
  "scanOneSegment dir path isLast =
     (case OpenSegment dir path of
        Inl err \<Rightarrow>
          if isLast \<and> err = IOErr EOF then
            Some (bindE (parseSegmentFileStartTx path) (\<lambda>startTx.
              Inr \<lparr>si_Path = path, si_StartTx = startTx,
                   si_LastTx = (if startTx > 0 then startTx - 1 else 0),
                   si_Valid = True, si_AppendMode = AppendByFreshNextSegment\<rparr>))
          else Some (Inl err)
      | Inr sr \<Rightarrow> do {
          let startTx = sr_startTx sr;
          res \<leftarrow> scanRecords path isLast startTx (if isLast then AppendInPlace else AppendForbidden)
                   0 0 (drop (sr_pos sr) (sr_file sr));
          Some (bindE res (\<lambda>(mode, recordCount, lastTx).
            Inr \<lparr>si_Path = path, si_StartTx = startTx,
                 si_LastTx =
                   (if recordCount = 0 then (if startTx = 0 then 0 else startTx - 1) else lastTx),
                 si_Valid = True, si_AppendMode = mode\<rparr>))
        })"

fun listEntries :: "(string \<times> dirEntry) list \<Rightarrow> log_error + (string \<times> u64) list" where
  "listEntries [] = Inr []"
| "listEntries ((name, entry) # rest) =
     (if length name < 4 \<or> drop (length name - 4) name \<noteq> ''.log'' then listEntries rest
      else
        bindE (parseSegmentFileStartTx name) (\<lambda>startTx.
        bindE (rejectBootstrapSegmentStart startTx name) (\<lambda>_.
        if entry = Subdirectory then
          if startTx = 1 then Inl (ErrNotRegular name) else listEntries rest
        else bindE (listEntries rest) (\<lambda>paths. Inr ((name, startTx) # paths)))))"

definition listSegmentPaths :: "directory \<Rightarrow> log_error + (string \<times> u64) list" where
  "listSegmentPaths dir = bindE (listEntries dir) (\<lambda>paths. Inr (sort_key snd paths))"

fun scanPaths :: "directory \<Rightarrow> (string \<times> u64) list \<Rightarrow> (log_error + segmentInfo list) option" where
  "scanPaths dir [] = Some (Inr [])"
| "scanPaths dir (p # ps) =
     (case scanOneSegment dir (fst p) (ps = []) of
        None \<Rightarrow> None
      | Some (Inl err) \<Rightarrow> Some (Inl err)
      | Some (Inr info) \<Rightarrow> do {
          rest \<leftarrow> scanPaths dir ps;
          Some (bindE rest (\<lambda>segments. Inr (info # segments)))
        })"

fun validateSegmentContinuity :: "segmentInfo list \<Rightarrow> log_error + unit" where
  "validateSegmentContinuity (prev # cur # rest) =
     bindE (nextContiguousRecordTxID (si_LastTx prev) (si_StartTx cur) (si_Path cur)) (\<lambda>expected.
       if si_StartTx cur \<noteq> expected
       then Inl (HistoryGapError expected (si_StartTx cur) (si_Path cur))
       else validateSegmentContinuity (cur # rest))"
| "validateSegmentContinuity segments = Inr ()"

definition scanSegmentPaths ::
  "directory \<Rightarrow> (string \<times> u64) list \<Rightarrow> (log_error + segmentInfo list \<times> u64) option" where
  "scanSegmentPaths dir paths =
     (if paths = [] then Some (Inr ([], 0))
      else do {
        res \<leftarrow> scanPaths dir paths;
        Some (bindE res (\<lambda>segments.
          bindE (validateSegmentContinuity segments) (\<lambda>_.
          Inr (segments, si_LastTx (last segments)))))
      })"

definition ScanSegments :: "directory \<Rightarrow> (log_error + segmentInfo list \<times> u64) option" where
  "ScanSegments dir =
     (case listSegmentPaths dir of
        Inl err \<Rightarrow> Some (Inl err)
      | Inr paths \<Rightarrow> scanSegmentPaths dir paths)"

section \<open>Writing\<close>

text \<open>
  \<open>sw_file\<close> is what lies before the write position, buffered or not; \<open>sw_tail\<close> is what a
  reopened file still holds after it; \<open>sw_synced\<close> is the length the last \<open>Sync\<close> covered.
\<close>

record segmentWriter =
  sw_file :: bytes
  sw_tail :: bytes
  sw_synced :: nat
  sw_size :: nat
  sw_startTx :: u64
  sw_lastTx :: u64
  sw_lastRecordOffset :: nat
  sw_hasLastRecord :: bool

definition swSync :: "segmentWriter \<Rightarrow> segmentWriter" where
  "swSync sw = sw\<lparr>sw_synced := length (sw_file sw)\<rparr>"

definition CreateSegment :: "directory \<Rightarrow> u64 \<Rightarrow> log_error + segmentWriter" where
  "CreateSegment dir startTxID =
     (let path = SegmentFileName startTxID in
      bindE (rejectBootstrapSegmentStart startTxID path) (\<lambda>_.
      bindE (requireCreatableRegularFilePath dir path) (\<lambda>_.
      Inr (swSync \<lparr>sw_file = WriteSegmentHeader [], sw_tail = [], sw_synced = 0, sw_size = SegmentHeaderSize,
                   sw_startTx = startTxID, sw_lastTx = 0, sw_lastRecordOffset = 0,
                   sw_hasLastRecord = False\<rparr>))))"

record appendScan =
  as_size :: nat
  as_lastTx :: u64
  as_lastRecordOffset :: nat
  as_recordCount :: nat
  as_truncated :: bool

function appendScanLoop ::
  "string \<Rightarrow> u64 \<Rightarrow> appendScan \<Rightarrow> bytes \<Rightarrow> (log_error + appendScan) option" where
  "appendScanLoop path startTxID st r =
     (case scanNextRecord r of
        None \<Rightarrow> None
      | Some (Inl err, _) \<Rightarrow>
          if err = IOErr EOF then Some (Inr st)
          else if as_recordCount st = 0 \<or> \<not> isDamagedTailError err then Some (Inl err)
          else Some (Inr (st\<lparr>as_truncated := True\<rparr>))
      | Some (Inr rec, r') \<Rightarrow>
          (case checkRecordTx path startTxID (as_recordCount st) (as_lastTx st) (lr_TxID rec) of
             Inl err \<Rightarrow> Some (Inl err)
           | Inr _ \<Rightarrow>
               appendScanLoop path startTxID
                 (st\<lparr>as_size := as_size st + (RecordOverhead + length (lr_Payload rec)),
                     as_lastTx := lr_TxID rec, as_lastRecordOffset := as_size st,
                     as_recordCount := as_recordCount st + 1\<rparr>) r'))"
  by pat_completeness auto
termination
  by (relation "measure (\<lambda>(_, _, _, r). length r)") (auto dest: scanNextRecord_shorter)

declare appendScanLoop.simps [simp del]

definition OpenSegmentForAppend :: "directory \<Rightarrow> u64 \<Rightarrow> (log_error + segmentWriter) option" where
  "OpenSegmentForAppend dir startTxID =
     (let path = SegmentFileName startTxID in
      case bindE (rejectBootstrapSegmentStart startTxID path) (\<lambda>_.
           bindE (openExistingRegularFile dir path) (\<lambda>f.
           bindE (ReadSegmentHeader f) (\<lambda>r. Inr (f, r)))) of
        Inl err \<Rightarrow> Some (Inl err)
      | Inr (f, r) \<Rightarrow> do {
          res \<leftarrow> appendScanLoop path startTxID
                   \<lparr>as_size = SegmentHeaderSize, as_lastTx = 0, as_lastRecordOffset = 0,
                    as_recordCount = 0, as_truncated = False\<rparr> r;
          Some (bindE res (\<lambda>st.
            Inr \<lparr>sw_file = take (as_size st) f,
                 sw_tail = (if as_truncated st then [] else drop (as_size st) f),
                 sw_synced = 0, sw_size = as_size st, sw_startTx = startTxID,
                 sw_lastTx = as_lastTx st, sw_lastRecordOffset = as_lastRecordOffset st,
                 sw_hasLastRecord = (as_recordCount st > 0)\<rparr>))
        })"

definition swAppend :: "segmentWriter \<Rightarrow> logRecord \<Rightarrow> (segmentWriter \<times> log_error option) option" where
  "swAppend sw rec =
     (if lr_RecordType rec \<noteq> RecordTypeChangeset
      then Some (sw, Some (UnknownRecordTypeError (lr_RecordType rec)))
      else if lr_Flags rec \<noteq> 0 then Some (sw, Some ErrBadFlags)
      else if \<not> sw_hasLastRecord sw \<and> lr_TxID rec \<noteq> sw_startTx sw
      then Some (sw, Some (ErrFirstTx (lr_TxID rec) (sw_startTx sw)))
      else if sw_hasLastRecord sw \<and> sw_lastTx sw = - 1
      then Some (sw, Some (ErrAfterMaxTx (lr_TxID rec) (sw_lastTx sw) []))
      else if sw_hasLastRecord sw \<and> lr_TxID rec \<noteq> sw_lastTx sw + 1
      then Some (sw, Some (ErrNextTx (lr_TxID rec) (sw_lastTx sw)))
      else do {
        res \<leftarrow> EncodeRecord (sw_file sw) rec;
        Some (case res of
                Inl err \<Rightarrow> (sw, Some err)
              | Inr w \<Rightarrow>
                  (sw\<lparr>sw_file := w, sw_tail := drop (length w - length (sw_file sw)) (sw_tail sw),
                      sw_size := sw_size sw + (RecordOverhead + length (lr_Payload rec)),
                      sw_lastTx := lr_TxID rec, sw_lastRecordOffset := sw_size sw,
                      sw_hasLastRecord := True\<rparr>, None))
      })"

definition LastRecordByteOffset :: "segmentWriter \<Rightarrow> nat \<times> bool" where
  "LastRecordByteOffset sw = (sw_lastRecordOffset sw, sw_hasLastRecord sw)"

section \<open>The checksum\<close>

lemma xor_cancel: "a XOR (b XOR a) = (b :: 'a::len word)"
  by (rule bit_word_eqI) (auto simp: bit_xor_iff)

lemma xor_eq_0: "a XOR b = (0 :: 'a::len word) \<Longrightarrow> a = b"
  by (metis xor.right_neutral xor_cancel)

lemma xor_inj: "a XOR c = b XOR c \<Longrightarrow> a = (b :: 'a::len word)"
  by (metis xor.commute xor_cancel)

text \<open>One step of the division is linear and invertible: the polynomial has its top bit set.\<close>

lemma crcBit_xor: "crcBit (x XOR y) = crcBit x XOR crcBit y"
  by (auto simp: crcBit_def bit_xor_iff ac_simps intro!: bit_word_eqI)

lemma crcBit_pow_xor: "(crcBit ^^ n) (x XOR y) = (crcBit ^^ n) x XOR (crcBit ^^ n) y"
  by (induction n) (simp_all add: crcBit_xor)

lemma crcBit_inj: "crcBit x = 0 \<Longrightarrow> x = 0"
proof -
  assume z: "crcBit x = 0"
  have top: "bit (crcBit x) 31 \<longleftrightarrow> bit x 0"
    using bit_imp_le_length [of x 32] by (auto simp: crcBit_def bit_xor_iff bit_drop_bit_eq castagnoli_def)
  then have "\<not> bit x 0" using z by simp
  then have "drop_bit 1 x = 0" using z by (simp add: crcBit_def)
  show "x = 0"
  proof (rule bit_word_eqI)
    fix n assume "n < LENGTH(32)"
    show "bit x n = bit 0 n"
    proof (cases n)
      case 0
      with \<open>\<not> bit x 0\<close> show ?thesis by simp
    next
      case (Suc k)
      have "bit (drop_bit 1 x) k = False" using \<open>drop_bit 1 x = 0\<close> by simp
      with Suc show ?thesis by (simp add: bit_drop_bit_eq)
    qed
  qed
qed

lemma crcBit_pow_inj: "(crcBit ^^ n) x = 0 \<Longrightarrow> x = 0"
  by (induction n) (auto dest: crcBit_inj)

lemma crcBit_shift:
  assumes "\<And>i. i < n \<Longrightarrow> \<not> bit x i"
  shows "(crcBit ^^ n) x = drop_bit n x"
  using assms
proof (induction n)
  case (Suc n)
  then have "(crcBit ^^ n) x = drop_bit n x" by simp
  moreover have b: "\<not> bit (drop_bit n x) 0" using Suc.prems [of n] by (simp add: bit_drop_bit_eq)
  ultimately have "(crcBit ^^ Suc n) x = crcBit (drop_bit n x)" by simp
  also have "\<dots> = drop_bit (Suc n) x"
    using b by (simp add: crcBit_def drop_bit_drop_bit)
  finally show ?case .
qed simp

lemma crcStep_eq: "crcStep s v = (crcBit ^^ 8) (s XOR ucast v)"
proof -
  define x where "x = s XOR ucast v"
  have lo: "ucast (ucast s XOR v) = take_bit 8 x" unfolding x_def
    by (rule bit_word_eqI) (auto simp: bit_unsigned_iff bit_xor_iff bit_take_bit_iff dest: bit_imp_le_length)
  have hi: "drop_bit 8 s = drop_bit 8 (x XOR take_bit 8 x)" unfolding x_def
    by (rule bit_word_eqI)
      (auto simp: bit_unsigned_iff bit_xor_iff bit_take_bit_iff bit_drop_bit_eq dest: bit_imp_le_length)
  have "(crcBit ^^ 8) (x XOR take_bit 8 x) = drop_bit 8 (x XOR take_bit 8 x)"
    by (rule crcBit_shift) (simp add: bit_xor_iff bit_take_bit_iff)
  then have "crcStep s v = (crcBit ^^ 8) (take_bit 8 x) XOR (crcBit ^^ 8) (x XOR take_bit 8 x)"
    by (simp add: crcStep_def crcTable_def lo hi)
  also have "\<dots> = (crcBit ^^ 8) x"
    by (simp only: crcBit_pow_xor xor_cancel)
  finally show ?thesis by (simp add: x_def)
qed

lemma crcStep_same_input: "crcStep s v = crcStep t w \<Longrightarrow> s XOR ucast v = t XOR ucast w"
  by (rule xor_eq_0, rule crcBit_pow_inj [of 8], subst crcBit_pow_xor) (simp only: crcStep_eq xor_self_eq)

lemma crcStep_inj_state: "crcStep s v = crcStep t v \<longleftrightarrow> s = t"
proof
  assume "crcStep s v = crcStep t v"
  then have "s XOR ucast v = t XOR ucast v" by (rule crcStep_same_input)
  then show "s = t" by (rule xor_inj)
qed simp

lemma crcStep_inj_byte: "crcStep s v = crcStep s w \<longleftrightarrow> v = w"
proof
  assume "crcStep s v = crcStep s w"
  then have "s XOR ucast v = s XOR ucast w" by (rule crcStep_same_input)
  then have eq: "(ucast v :: u32) = ucast w" by (metis xor.commute xor_inj)
  show "v = w"
  proof (rule bit_word_eqI)
    fix n assume "n < LENGTH(8)"
    moreover have "bit (ucast v :: u32) n = bit (ucast w :: u32) n" by (simp add: eq)
    ultimately show "bit v n = bit w n" by (simp add: bit_unsigned_iff)
  qed
qed simp

lemma foldl_crcStep_inj: "foldl crcStep s p = foldl crcStep t p \<longleftrightarrow> s = t"
  by (induction p arbitrary: s t) (simp_all add: crcStep_inj_state)

lemma crcUpdate_append: "crcUpdate (crcUpdate s p) q = crcUpdate s (p @ q)"
  by (simp add: crcUpdate_def)

lemma NOT_eq_iff: "NOT a = NOT b \<longleftrightarrow> a = (b :: 'a::len word)"
  by (metis bit.double_compl)

text \<open>Changing one byte changes the sum.\<close>

lemma crcUpdate_changed: "v \<noteq> w \<Longrightarrow> crcUpdate s (a @ v # b) \<noteq> crcUpdate s (a @ w # b)"
  by (simp add: crcUpdate_def NOT_eq_iff foldl_crcStep_inj crcStep_inj_byte)

lemma crcUpdate_changed_byte:
  assumes "i < length p" "v \<noteq> p ! i"
  shows "crcUpdate s (p[i := v]) \<noteq> crcUpdate s p"
  using crcUpdate_changed [OF assms(2), of s "take i p" "drop (Suc i) p"] assms(1)
  by (simp add: upd_conv_take_nth_drop id_take_nth_drop [symmetric])

section \<open>Framing\<close>

text \<open>The bytes of a record and the records the format admits.\<close>

definition recordBody :: "logRecord \<Rightarrow> bytes" where
  "recordBody rec = recordHeader rec (of_nat (length (lr_Payload rec))) @ lr_Payload rec"

definition recordBytes :: "logRecord \<Rightarrow> bytes" where
  "recordBytes rec = recordBody rec @ put_le 4 (crcUpdate 0 (recordBody rec))"

definition record_ok :: "logRecord \<Rightarrow> bool" where
  "record_ok rec \<longleftrightarrow>
     lr_RecordType rec = RecordTypeChangeset \<and> lr_Flags rec = 0 \<and>
     length (lr_Payload rec) \<le> unat formatMaxRecordPayloadBytes"

lemmas size_defs = RecordHeaderSize_def RecordCRCSize_def RecordOverhead_def SegmentHeaderSize_def

lemma formatMax_unat: "unat formatMaxRecordPayloadBytes = 2 ^ 26"
  by (simp add: formatMaxRecordPayloadBytes_def)

lemma length_recordHeader [simp]: "length (recordHeader rec n) = 14"
  by (simp add: recordHeader_def)

lemma length_recordBody: "length (recordBody rec) = 14 + length (lr_Payload rec)"
  by (simp add: recordBody_def)

lemma length_recordBytes: "length (recordBytes rec) = RecordOverhead + length (lr_Payload rec)"
  by (simp add: recordBytes_def length_recordBody size_defs)

lemma u32_length: "n < 2 ^ 32 \<Longrightarrow> unat (of_nat n :: u32) = n"
  by (simp add: unsigned_of_nat take_bit_nat_eq_self)

lemma ComputeRecordCRC_eq:
  "length (lr_Payload rec) < 2 ^ 32 \<Longrightarrow> ComputeRecordCRC rec = Some (crcUpdate 0 (recordBody rec))"
  by (simp add: ComputeRecordCRC_def checkedRecordPayloadLen_def recordBody_def crcUpdate_append)

lemma EncodeRecord_eq:
  "length (lr_Payload rec) < 2 ^ 32 \<Longrightarrow> EncodeRecord w rec = Some (Inr (w @ recordBytes rec))"
  by (simp add: EncodeRecord_def ComputeRecordCRC_eq checkedRecordPayloadLen_def recordBytes_def recordBody_def)

lemma EncodeRecord_total: "\<exists>res. EncodeRecord w rec = Some res"
proof (cases "length (lr_Payload rec) < 2 ^ 32")
  case True
  then show ?thesis by (simp only: EncodeRecord_eq) blast
qed (simp add: EncodeRecord_def)

lemma record_ok_length: "record_ok rec \<Longrightarrow> length (lr_Payload rec) < 2 ^ 32"
  by (simp add: record_ok_def formatMax_unat)

lemma recordHeader_fields [simp]:
  "take 8 (recordHeader rec n) = put_le 8 (lr_TxID rec)"
  "recordHeader rec n ! 8 = lr_RecordType rec"
  "recordHeader rec n ! 9 = lr_Flags rec"
  "drop 10 (recordHeader rec n) = put_le 4 n"
  by (simp_all add: recordHeader_def nth_append)

lemma recordHeader_nonzero: "lr_RecordType rec \<noteq> 0 \<Longrightarrow> \<not> isZeroRecordHeader (recordHeader rec n)"
  by (simp add: isZeroRecordHeader_def allBytesZero_def recordHeader_def)

lemma header_rebuild:
  assumes "length buf = 14"
  shows "recordHeader \<lparr>lr_TxID = get_le (take 8 buf), lr_RecordType = buf ! 8, lr_Flags = buf ! 9, lr_Payload = p\<rparr>
           (get_le (drop 10 buf)) = buf"
proof -
  have "put_le 8 (get_le (take 8 buf) :: u64) = take 8 buf"
    using put_le_get_le [of "take 8 buf", where 'a = 64] assms by simp
  moreover have "put_le 4 (get_le (drop 10 buf) :: u32) = drop 10 buf"
    using put_le_get_le [of "drop 10 buf", where 'a = 32] assms by simp
  moreover have "take 8 buf @ [buf ! 8, buf ! 9] @ drop 10 buf = buf"
  proof -
    have "drop 8 buf = buf ! 8 # drop 9 buf" "drop 9 buf = buf ! 9 # drop 10 buf"
      using Cons_nth_drop_Suc [of 8 buf] Cons_nth_drop_Suc [of 9 buf] assms by simp_all
    then show ?thesis using append_take_drop_id [of 8 buf] by simp
  qed
  ultimately show ?thesis by (simp add: recordHeader_def)
qed

text \<open>What a header and the checks after it accept is exactly the frame of an admitted record.\<close>

lemma finishRecord_frame:
  assumes len: "length buf = 14"
  shows "finishRecord buf (get_le (drop 10 buf)) r = Some (Inr rec, r') \<longleftrightarrow>
     buf @ r = recordBytes rec @ r' \<and> lr_RecordType rec = RecordTypeChangeset \<and> lr_Flags rec = 0 \<and>
     length (lr_Payload rec) < 2 ^ 32" (is "?l \<longleftrightarrow> ?r")
proof
  assume ?l
  then obtain crcBuf where f: "lr_TxID rec = get_le (take 8 buf)" "lr_RecordType rec = buf ! 8" "lr_Flags rec = buf ! 9"
    "length (lr_Payload rec) = unat (get_le (drop 10 buf) :: u32)" "length crcBuf = 4" "r = lr_Payload rec @ crcBuf @ r'"
    "ComputeRecordCRC rec = Some (get_le crcBuf)" "lr_RecordType rec = RecordTypeChangeset" "lr_Flags rec = 0"
    unfolding finishRecord_Inr by blast
  have small: "length (lr_Payload rec) < 2 ^ 32"
    using f(4) unsigned_less [of "get_le (drop 10 buf) :: u32", where 'a = nat] by simp
  have "of_nat (length (lr_Payload rec)) = (get_le (drop 10 buf) :: u32)" using f(4) by simp
  moreover have "recordHeader rec (get_le (drop 10 buf)) = buf"
    using header_rebuild [OF len, of "lr_Payload rec"] f(1-3) by (simp add: recordHeader_def)
  ultimately have body: "recordBody rec = buf @ lr_Payload rec" by (simp add: recordBody_def)
  have "put_le 4 (get_le crcBuf :: u32) = crcBuf"
    using put_le_get_le [of crcBuf, where 'a = 32] f(5) by simp
  then have "recordBytes rec = buf @ lr_Payload rec @ crcBuf"
    using f(7) small by (simp add: recordBytes_def ComputeRecordCRC_eq body)
  then show ?r using f small by simp
next
  assume r: ?r
  then have buf: "buf = recordHeader rec (of_nat (length (lr_Payload rec)))"
    and rest: "r = lr_Payload rec @ put_le 4 (crcUpdate 0 (recordBody rec)) @ r'"
    using len by (simp_all add: recordBytes_def recordBody_def append_eq_append_conv)
  show ?l unfolding finishRecord_Inr buf rest
    using r by (intro exI [of _ "put_le 4 (crcUpdate 0 (recordBody rec))"])
      (simp add: ComputeRecordCRC_eq get_le_put_le u32_length)
qed

lemma finishRecord_total: "finishRecord buf n r \<noteq> None"
proof (cases "readRecordPayload r n")
  case (Pair res r1)
  show ?thesis
  proof (cases res)
    case (Inr p)
    with Pair have "length p < 2 ^ 32"
      using unsigned_less [of n, where 'a = nat] by (simp add: readRecordPayload_Inr)
    with Pair Inr show ?thesis
      by (simp add: finishRecord_def ComputeRecordCRC_eq Let_def split: sum.splits prod.splits)
  qed (simp add: finishRecord_def Pair)
qed

lemma finishRecord_some: "\<exists>res r'. finishRecord buf n r = Some (res, r')"
  using finishRecord_total [of buf n r] by auto

lemma DecodeRecord_total: "DecodeRecord r m \<noteq> None"
  by (auto simp: DecodeRecord_def Let_def finishRecord_some split: sum.splits io_error.splits)

lemma scanNextRecord_total: "scanNextRecord r \<noteq> None"
  by (auto simp: scanNextRecord_def Let_def finishRecord_some split: sum.splits)

definition payloadLimit :: "u32 \<Rightarrow> nat" where
  "payloadLimit m = unat (if m = 0 then formatMaxRecordPayloadBytes else m)"

lemma payloadLimit_less: "payloadLimit m < 2 ^ 32"
  using unsigned_less [of "if m = 0 then formatMaxRecordPayloadBytes else m", where 'a = nat]
  by (simp add: payloadLimit_def)

lemma readFull_header:
  "readFull RecordHeaderSize r = Inr (buf, r') \<longleftrightarrow> length buf = 14 \<and> r = buf @ r'"
  by (auto simp: readFull_eq_Inr size_defs)

lemma recordBytes_split:
  "recordBytes rec @ r = recordHeader rec (of_nat (length (lr_Payload rec))) @
     (lr_Payload rec @ put_le 4 (crcUpdate 0 (recordBody rec)) @ r)"
  by (simp add: recordBytes_def recordBody_def)

lemma frame_length_field:
  assumes "length buf = 14" "buf @ r = recordBytes rec @ r'" "length (lr_Payload rec) < 2 ^ 32"
  shows "unat (get_le (drop 10 buf) :: u32) = length (lr_Payload rec)"
    and "lr_RecordType rec \<noteq> 0 \<Longrightarrow> \<not> isZeroRecordHeader buf"
proof -
  have "buf = recordHeader rec (of_nat (length (lr_Payload rec)))"
    using assms(1,2) unfolding recordBytes_split by simp
  then show "unat (get_le (drop 10 buf) :: u32) = length (lr_Payload rec)"
    and "lr_RecordType rec \<noteq> 0 \<Longrightarrow> \<not> isZeroRecordHeader buf"
    using assms(3) by (simp_all add: get_le_put_le u32_length recordHeader_nonzero)
qed

lemma DecodeRecord_frame:
  "DecodeRecord r m = Some (Inr rec, r') \<longleftrightarrow>
     r = recordBytes rec @ r' \<and> lr_RecordType rec = RecordTypeChangeset \<and> lr_Flags rec = 0 \<and>
     length (lr_Payload rec) \<le> payloadLimit m"
proof (cases "readFull RecordHeaderSize r")
  case (Inl e)
  then have "length r < 14" by (auto simp: readFull_def size_defs split: if_splits)
  then have "r \<noteq> recordBytes rec @ r'" by (auto simp: length_recordBytes size_defs)
  moreover have "DecodeRecord r m \<noteq> Some (Inr rec, r')"
    by (cases e) (simp_all add: DecodeRecord_def Inl)
  ultimately show ?thesis by blast
next
  case (Inr p)
  then obtain buf r1 where p: "p = (buf, r1)" "length buf = 14" "r = buf @ r1"
    by (cases p) (auto simp: readFull_header)
  let ?n = "get_le (drop 10 buf) :: u32"
  let ?m = "if m = 0 then formatMaxRecordPayloadBytes else m"
  have pos: "?m > 0" by (simp add: formatMaxRecordPayloadBytes_def word_gt_0)
  have big: "?n > ?m \<longleftrightarrow> unat ?n > payloadLimit m" by (simp add: payloadLimit_def word_less_nat_alt)
  have "readFull RecordHeaderSize (buf @ r1) = Inr (buf, r1)" using p(2) by (simp add: readFull_header)
  then have D: "DecodeRecord r m =
      (if isZeroRecordHeader buf then Some (Inl (IOErr EOF), r1)
       else if ?n > ?m then Some (Inl (RecordTooLargeError ?n ?m), r1) else finishRecord buf ?n r1)"
    using pos by (simp add: DecodeRecord_def p(3) Let_def split: sum.splits del: if_split)
  have "DecodeRecord r m = Some (Inr rec, r') \<longleftrightarrow>
      \<not> isZeroRecordHeader buf \<and> unat ?n \<le> payloadLimit m \<and> finishRecord buf ?n r1 = Some (Inr rec, r')"
    unfolding D using big by (auto simp del: if_split split: if_split_asm if_split [of _ "isZeroRecordHeader buf"] if_split [of _ "?m < ?n"])
  also have "\<dots> \<longleftrightarrow> r = recordBytes rec @ r' \<and> lr_RecordType rec = RecordTypeChangeset \<and> lr_Flags rec = 0 \<and>
     length (lr_Payload rec) \<le> payloadLimit m"
    unfolding finishRecord_frame [OF p(2)] p(3)
    using frame_length_field [OF p(2), of r1 rec r'] payloadLimit_less [of m]
    by (auto simp: RecordTypeChangeset_def)
  finally show ?thesis .
qed

lemma scanNextRecord_frame:
  "scanNextRecord r = Some (Inr rec, r') \<longleftrightarrow> r = recordBytes rec @ r' \<and> record_ok rec"
proof (cases "length r < RecordHeaderSize")
  case True
  then have "r \<noteq> recordBytes rec @ r'" by (auto simp: length_recordBytes size_defs)
  moreover have "scanNextRecord r \<noteq> Some (Inr rec, r')"
    using True by (auto simp: scanNextRecord_def Let_def split: sum.splits)
  ultimately show ?thesis by blast
next
  case False
  then have h: "readFull RecordHeaderSize r = Inr (take 14 r, drop 14 r)" and len: "length (take 14 r) = 14"
    and ne: "r \<noteq> []"
    by (auto simp: readFull_def size_defs)
  let ?n = "get_le (drop 10 (take 14 r)) :: u32"
  have big: "?n > formatMaxRecordPayloadBytes \<longleftrightarrow> unat ?n > unat formatMaxRecordPayloadBytes"
    by (simp add: word_less_nat_alt)
  have "scanNextRecord r = Some (Inr rec, r') \<longleftrightarrow>
      \<not> isZeroRecordHeader (take 14 r) \<and> unat ?n + 4 \<le> length r - 14 \<and> unat ?n \<le> unat formatMaxRecordPayloadBytes \<and>
      finishRecord (take 14 r) ?n (drop 14 r) = Some (Inr rec, r')"
    using False ne big h
    by (auto simp: scanNextRecord_def Let_def size_defs not_less split: sum.splits)
  also have "\<dots> \<longleftrightarrow> r = recordBytes rec @ r' \<and> record_ok rec"
    unfolding finishRecord_frame [OF len] record_ok_def
    using frame_length_field [OF len, of "drop 14 r" rec r'] formatMax_unat
    by (auto simp: RecordTypeChangeset_def length_recordBytes size_defs)
  finally show ?thesis .
qed

section \<open>Torn records\<close>

lemma remainingBytesAreZero_eq:
  "n \<le> length r \<Longrightarrow> remainingBytesAreZero r n = Inr (allBytesZero (take n r))"
proof (induction r n rule: remainingBytesAreZero.induct)
  case (1 r remaining)
  define n where "n = (if zeroChunk > remaining then remaining else zeroChunk)"
  have n: "n \<le> remaining" by (simp add: n_def)
  then have read: "readFull n r = Inr (take n r, drop n r)" using 1(2) by (simp add: readFull_def)
  have "take remaining r = take n r @ take (remaining - n) (drop n r)"
    using n by (metis le_add_diff_inverse take_add)
  then have z: "allBytesZero (take remaining r) \<longleftrightarrow>
      allBytesZero (take n r) \<and> allBytesZero (take (remaining - n) (drop n r))"
    by (simp add: allBytesZero_def)
  have step: "remainingBytesAreZero r remaining =
      (if remaining = 0 then Inr True
       else if \<not> allBytesZero (take n r) then Inr False
       else remainingBytesAreZero (drop n r) (remaining - n))"
    by (subst remainingBytesAreZero.simps) (simp add: Let_def n_def [symmetric] read)
  show ?case
  proof (cases "remaining = 0 \<or> \<not> allBytesZero (take n r)")
    case True
    with z show ?thesis unfolding step by (cases "remaining = 0") (simp_all add: allBytesZero_def)
  next
    case False
    then have "remainingBytesAreZero (drop n r) (remaining - n) =
        Inr (allBytesZero (take (remaining - n) (drop n r)))"
      using 1(1) [OF _ n_def read refl] 1(2) n by auto
    with False z show ?thesis unfolding step by simp
  qed
qed

definition tailError :: "log_error \<Rightarrow> bool" where
  "tailError e \<longleftrightarrow> e = IOErr EOF \<or> e = ErrTruncatedRecord"

definition stopsAt :: "(bytes \<Rightarrow> logRecord reading_result) \<Rightarrow> bytes \<Rightarrow> bool" where
  "stopsAt read r \<longleftrightarrow> (\<exists>e r'. read r = Some (Inl e, r') \<and> tailError e)"

lemma stopsAtI: "read r = Some (Inl e, r') \<Longrightarrow> e = IOErr EOF \<or> e = ErrTruncatedRecord \<Longrightarrow> stopsAt read r"
  by (auto simp: stopsAt_def tailError_def)

lemma take_recordBytes:
  assumes "14 \<le> k"
  shows "take k (recordBytes rec) = recordHeader rec (of_nat (length (lr_Payload rec))) @
     take (k - 14) (lr_Payload rec @ put_le 4 (crcUpdate 0 (recordBody rec)))"
  using assms by (simp add: recordBytes_def recordBody_def)

lemma scanNextRecord_short:
  assumes "length h = 14" "\<not> isZeroRecordHeader h" "length r < unat (get_le (drop 10 h) :: u32) + 4"
  shows "scanNextRecord (h @ r) = Some (Inl ErrTruncatedRecord, r)"
  using assms by (auto simp: scanNextRecord_def Let_def size_defs)

lemma scanNextRecord_torn:
  assumes ok: "record_ok rec" and k: "k < length (recordBytes rec)"
  shows "stopsAt scanNextRecord (take k (recordBytes rec))"
proof (cases "k < RecordHeaderSize")
  case True
  with k show ?thesis
    by (cases "k = 0")
      (auto simp: scanNextRecord_def Let_def remainingBytesAreZero_eq stopsAt_def tailError_def)
next
  case False
  let ?h = "recordHeader rec (of_nat (length (lr_Payload rec)))"
  let ?r = "take (k - 14) (lr_Payload rec @ put_le 4 (crcUpdate 0 (recordBody rec)))"
  have t: "take k (recordBytes rec) = ?h @ ?r"
    using False by (simp add: take_recordBytes size_defs)
  have len: "length ?r = k - 14" using k by (simp add: length_recordBytes size_defs)
  have n: "unat (get_le (drop 10 ?h) :: u32) = length (lr_Payload rec)"
    using record_ok_length [OF ok] by (simp add: get_le_put_le u32_length)
  have z: "\<not> isZeroRecordHeader ?h"
    using ok by (intro recordHeader_nonzero) (simp add: record_ok_def RecordTypeChangeset_def)
  have short: "length ?r < unat (get_le (drop 10 ?h) :: u32) + 4"
    using False k unfolding len n by (simp add: length_recordBytes size_defs)
  have "scanNextRecord (?h @ ?r) = Some (Inl ErrTruncatedRecord, ?r)"
    using z short by (intro scanNextRecord_short length_recordHeader)
  then show ?thesis unfolding t by (rule stopsAtI) simp
qed

lemma finishRecord_torn:
  assumes "length r < unat n + 4"
  shows "\<exists>r'. finishRecord buf n r = Some (Inl ErrTruncatedRecord, r')"
proof (cases "length r < unat n")
  case True
  then have "readRecordPayload r n = (Inl ErrTruncatedRecord, [])"
    by (auto simp: readRecordPayload_def readFull_def unat_eq_zero)
  then show ?thesis by (simp add: finishRecord_def)
next
  case False
  then have "readRecordPayload r n = (Inr (take (unat n) r), drop (unat n) r)"
    by (simp add: readRecordPayload_Inr)
  moreover have "\<exists>e. readFull RecordCRCSize (drop (unat n) r) = Inl e"
    using assms False by (simp add: readFull_def size_defs) arith
  ultimately show ?thesis by (auto simp: finishRecord_def)
qed

lemma DecodeRecord_torn:
  assumes ok: "lr_RecordType rec = RecordTypeChangeset" "length (lr_Payload rec) \<le> payloadLimit m"
    and k: "k < length (recordBytes rec)"
  shows "stopsAt (\<lambda>r. DecodeRecord r m) (take k (recordBytes rec))"
proof (cases "k < RecordHeaderSize")
  case True
  with k show ?thesis
    by (cases "k = 0") (auto simp: DecodeRecord_def readFull_def stopsAt_def tailError_def)
next
  case False
  let ?h = "recordHeader rec (of_nat (length (lr_Payload rec)))"
  let ?r = "take (k - 14) (lr_Payload rec @ put_le 4 (crcUpdate 0 (recordBody rec)))"
  let ?m = "if m = 0 then formatMaxRecordPayloadBytes else m"
  have t: "take k (recordBytes rec) = ?h @ ?r"
    using False by (simp add: take_recordBytes size_defs)
  have len: "length ?r = k - 14" using k by (simp add: length_recordBytes size_defs)
  have "length (lr_Payload rec) < 2 ^ 32" using ok(2) payloadLimit_less [of m] by simp
  then have n: "unat (get_le (drop 10 ?h) :: u32) = length (lr_Payload rec)"
    by (simp add: get_le_put_le u32_length)
  have z: "\<not> isZeroRecordHeader ?h"
    using ok by (intro recordHeader_nonzero) (simp add: RecordTypeChangeset_def)
  have fits: "\<not> ?m < get_le (drop 10 ?h)"
    using ok(2) n unfolding payloadLimit_def word_less_nat_alt by simp
  have "length ?r < unat (get_le (drop 10 ?h) :: u32) + 4"
    unfolding n len using False k by (simp add: length_recordBytes size_defs)
  then obtain r' where "finishRecord ?h (get_le (drop 10 ?h)) ?r = Some (Inl ErrTruncatedRecord, r')"
    using finishRecord_torn by blast
  moreover have "readFull RecordHeaderSize (?h @ ?r) = Inr (?h, ?r)" by (simp add: readFull_header)
  ultimately have "DecodeRecord (?h @ ?r) m = Some (Inl ErrTruncatedRecord, r')"
    using z fits unfolding DecodeRecord_def Let_def by (simp del: recordHeader_fields if_split)
  then show ?thesis unfolding t by (rule stopsAtI) simp
qed

section \<open>Streams of records\<close>

text \<open>
  What the two record readers promise: they accept exactly the frames of the records they
  admit, and stop at the end of the file and at a frame that was cut.
\<close>

abbreviation frames :: "logRecord list \<Rightarrow> bytes" where
  "frames recs \<equiv> concat (map recordBytes recs)"

fun wholeCount :: "nat \<Rightarrow> logRecord list \<Rightarrow> nat" where
  "wholeCount k [] = 0"
| "wholeCount k (rec # recs) =
     (if length (recordBytes rec) \<le> k then Suc (wholeCount (k - length (recordBytes rec)) recs) else 0)"

lemma wholeCount_le: "wholeCount k recs \<le> length recs"
  by (induction recs arbitrary: k) simp_all

lemma wholeCount_ge: "length (frames (take n recs)) \<le> k \<Longrightarrow> n \<le> length recs \<Longrightarrow> n \<le> wholeCount k recs"
proof (induction recs arbitrary: k n)
  case (Cons rec recs)
  show ?case
  proof (cases n)
    case (Suc m)
    then have "length (frames (take m recs)) \<le> k - length (recordBytes rec)" "length (recordBytes rec) \<le> k"
      using Cons.prems by simp_all
    with Cons.IH [of m "k - length (recordBytes rec)"] Suc Cons.prems(2) show ?thesis by simp
  qed simp
qed simp

locale record_stream =
  fixes read :: "bytes \<Rightarrow> logRecord reading_result" and admitted :: "logRecord \<Rightarrow> bool"
  assumes accepts: "read r = Some (Inr rec, r') \<longleftrightarrow> r = recordBytes rec @ r' \<and> admitted rec"
    and ends: "stopsAt read []"
    and torn: "admitted rec \<Longrightarrow> k < length (recordBytes rec) \<Longrightarrow> stopsAt read (take k (recordBytes rec))"
    and sized: "admitted rec \<Longrightarrow> length (lr_Payload rec) < 2 ^ 32"
begin

lemma whole: "admitted rec \<Longrightarrow> read (recordBytes rec @ r) = Some (Inr rec, r)"
  by (simp add: accepts)

lemma cut:
  "list_all admitted recs \<Longrightarrow>
   \<exists>t. take k (frames recs) = frames (take (wholeCount k recs) recs) @ t \<and> stopsAt read t"
proof (induction recs arbitrary: k)
  case Nil
  then show ?case by (simp add: ends)
next
  case (Cons rec recs)
  show ?case
  proof (cases "length (recordBytes rec) \<le> k")
    case True
    then obtain t where "take (k - length (recordBytes rec)) (frames recs) =
        frames (take (wholeCount (k - length (recordBytes rec)) recs) recs) @ t" "stopsAt read t"
      using Cons by fastforce
    with True show ?thesis by (intro exI [of _ t]) simp
  next
    case False
    with Cons.prems torn [of rec k] show ?thesis by simp
  qed
qed

text \<open>A frame with one byte changed outside its length field is not accepted.\<close>

lemma changed_byte:
  assumes rec: "admitted rec" and i: "i < length (recordBytes rec)" "i \<notin> {10..13}"
    and v: "v \<noteq> recordBytes rec ! i"
  shows "read ((recordBytes rec)[i := v] @ r) \<noteq> Some (Inr rec', r')"
proof
  let ?b = "(recordBytes rec)[i := v]"
  assume "read (?b @ r) = Some (Inr rec', r')"
  then have eq: "?b @ r = recordBytes rec' @ r'" and rec': "admitted rec'" by (simp_all add: accepts)
  have hdr: "drop 10 (take 14 (recordBytes x @ y)) = put_le 4 (of_nat (length (lr_Payload x)) :: u32)" for x y
    unfolding recordBytes_split by simp
  have "drop 10 (take 14 (?b @ r)) = drop 10 (take 14 (recordBytes rec @ r))"
  proof (rule nth_equalityI)
    fix j assume "j < length (drop 10 (take 14 (?b @ r)))"
    then have j: "j < 4" by simp
    then have "i \<noteq> 10 + j" using i(2) by auto
    with j show "drop 10 (take 14 (?b @ r)) ! j = drop 10 (take 14 (recordBytes rec @ r)) ! j"
      by (simp add: nth_append length_recordBytes size_defs)
  qed simp
  then have "put_le 4 (of_nat (length (lr_Payload rec)) :: u32) = put_le 4 (of_nat (length (lr_Payload rec')) :: u32)"
    using hdr [of rec r] hdr [of rec' r'] eq by simp
  then have "(of_nat (length (lr_Payload rec)) :: u32) = of_nat (length (lr_Payload rec'))"
    by (rule put_le_inj [rotated]) simp
  then have len: "length (lr_Payload rec') = length (lr_Payload rec)"
    using u32_length [OF sized [OF rec]] u32_length [OF sized [OF rec']] by metis
  then have b: "?b = recordBytes rec'"
    using eq by (simp add: append_eq_append_conv length_recordBytes)
  show False
  proof (cases "i < length (recordBody rec)")
    case True
    then have "(recordBody rec)[i := v] = recordBody rec'"
      and crc: "put_le 4 (crcUpdate 0 (recordBody rec)) = put_le 4 (crcUpdate 0 (recordBody rec'))"
      using b len by (simp_all add: recordBytes_def list_update_append length_recordBody)
    moreover have "v \<noteq> recordBody rec ! i" using v True by (simp add: recordBytes_def nth_append)
    moreover have "crcUpdate 0 (recordBody rec) = crcUpdate 0 (recordBody rec')"
      using crc by (rule put_le_inj [rotated]) simp
    ultimately show False using crcUpdate_changed_byte [OF True, of v 0] by simp
  next
    case False
    then have "recordBody rec = recordBody rec'"
      using b len by (simp add: recordBytes_def list_update_append length_recordBody)
    then have "?b = recordBytes rec" using b by (simp add: recordBytes_def)
    then show False using v i(1) by (metis nth_list_update_eq)
  qed
qed

end

interpretation scanned: record_stream scanNextRecord record_ok
proof
  show "stopsAt scanNextRecord []" by (rule stopsAtI [of _ _ "IOErr EOF"]) (simp_all add: scanNextRecord_def)
qed (simp_all only: scanNextRecord_frame scanNextRecord_torn record_ok_length)

definition decodable :: "u32 \<Rightarrow> logRecord \<Rightarrow> bool" where
  "decodable m rec \<longleftrightarrow>
     lr_RecordType rec = RecordTypeChangeset \<and> lr_Flags rec = 0 \<and> length (lr_Payload rec) \<le> payloadLimit m"

interpretation decoded: record_stream "\<lambda>r. DecodeRecord r m" "decodable m" for m
proof
  show "stopsAt (\<lambda>r. DecodeRecord r m) []"
    by (rule stopsAtI [of _ _ "IOErr EOF"]) (simp_all add: DecodeRecord_def readFull_def size_defs)
next
  fix rec show "decodable m rec \<Longrightarrow> length (lr_Payload rec) < 2 ^ 32"
    using payloadLimit_less [of m] by (simp add: decodable_def)
qed (simp_all add: decodable_def DecodeRecord_frame DecodeRecord_torn)

lemma record_ok_decodable: "record_ok rec \<Longrightarrow> decodable formatMaxRecordPayloadBytes rec"
  by (simp add: record_ok_def decodable_def payloadLimit_def)

section \<open>File names round trip\<close>

lemma length_digitsN [simp]: "length (digitsN k n) = k"
  by (induction k arbitrary: n) simp_all

lemma digit_of_char: "d < 10 \<Longrightarrow> of_char (char_of (48 + d :: nat)) = 48 + d"
  by (simp add: of_char_of)

lemma digitsN_digits: "c \<in> set (digitsN k n) \<Longrightarrow> isDigitChar c"
proof (induction k arbitrary: n)
  case (Suc k)
  have "n mod 10 < 10" by simp
  with Suc show ?case by (auto simp: isDigitChar_def digit_of_char)
qed simp

lemma digitsValue_digitsN: "digitsValue (digitsN k n) = n mod 10 ^ k"
proof (induction k arbitrary: n)
  case (Suc k)
  have "digitsValue (digitsN (Suc k) n) = 10 * (n div 10 mod 10 ^ k) + n mod 10"
    using Suc by (simp add: digitsValue_def digit_of_char)
  also have "\<dots> = n mod 10 ^ Suc k" using mod_mult2_eq [of n 10 "10 ^ k"] by simp
  finally show ?case .
qed (simp add: digitsValue_def)

lemma parse_SegmentFileName [simp]: "parseSegmentFileStartTx (SegmentFileName t) = Inr t"
proof -
  have d: "\<forall>c \<in> set (digitsN 20 (unat t)). isDigitChar c" using digitsN_digits by blast
  have ne: "digitsN 20 (unat t) \<noteq> []" using length_digitsN [of 20 "unat t"] by (metis list.size(3) zero_neq_numeral)
  have dot: "\<not> isDigitChar CHR ''.''" by (simp add: isDigitChar_def)
  have sp: "\<not> isDigitChar CHR '' ''" by (simp add: isDigitChar_def)
  have "dropWhile (\<lambda>c. c = CHR '' '') (SegmentFileName t) = SegmentFileName t"
    using d ne sp by (cases "digitsN 20 (unat t)") (auto simp: SegmentFileName_def)
  moreover have "takeWhile isDigitChar (SegmentFileName t) = digitsN 20 (unat t)"
    and "dropWhile isDigitChar (SegmentFileName t) = ''.log''"
    using d dot by (simp_all add: SegmentFileName_def)
  moreover have "unat t < 2 ^ 64" using unsigned_less [of t, where 'a = nat] by simp
  then have "digitsValue (digitsN 20 (unat t)) = unat t" by (simp add: digitsValue_digitsN)
  ultimately have "sscanfSegmentName (SegmentFileName t) = Some t"
    using ne \<open>unat t < 2 ^ 64\<close> by (simp add: sscanfSegmentName_def Let_def)
  then show ?thesis by (simp add: parseSegmentFileStartTx_def)
qed

lemma parse_Inr: "parseSegmentFileStartTx name = Inr t \<longleftrightarrow> name = SegmentFileName t"
proof
  show "parseSegmentFileStartTx name = Inr t \<Longrightarrow> name = SegmentFileName t"
    by (simp add: parseSegmentFileStartTx_def split: option.splits if_splits)
qed simp

section \<open>Scanning a stream\<close>

fun contiguousFrom :: "u64 \<Rightarrow> logRecord list \<Rightarrow> bool" where
  "contiguousFrom t [] = True"
| "contiguousFrom t (rec # recs) \<longleftrightarrow>
     lr_TxID rec = t \<and> (recs = [] \<or> t \<noteq> - 1 \<and> contiguousFrom (t + 1) recs)"

definition tailMode :: "appendMode \<Rightarrow> bytes \<Rightarrow> appendMode" where
  "tailMode mode t =
     (case scanNextRecord t of Some (Inl ErrTruncatedRecord, _) \<Rightarrow> AppendByFreshNextSegment | _ \<Rightarrow> mode)"

definition follows :: "u64 \<Rightarrow> nat \<Rightarrow> u64 \<Rightarrow> logRecord list \<Rightarrow> bool" where
  "follows startTx recordCount lastTx recs \<longleftrightarrow>
     recs = [] \<or> (recordCount = 0 \<and> contiguousFrom startTx recs) \<or>
     (recordCount \<noteq> 0 \<and> lastTx \<noteq> - 1 \<and> contiguousFrom (lastTx + 1) recs)"

lemma follows_Cons:
  "follows startTx recordCount lastTx (rec # recs) \<longleftrightarrow>
     checkRecordTx path startTx recordCount lastTx (lr_TxID rec) = Inr () \<and>
     follows startTx (Suc recordCount) (lr_TxID rec) recs"
  by (cases "recordCount = 0")
    (auto simp: follows_def checkRecordTx_def nextContiguousRecordTxID_def split: if_splits)

lemma isDamagedTail_truncated [simp]: "isDamagedTailError ErrTruncatedRecord"
  "\<not> isDamagedTailError (IOErr EOF)"
  by (simp_all add: isDamagedTailError_def)

lemma scanRecords_frames:
  assumes "list_all record_ok recs" "follows startTx n lastTx recs" "stopsAt scanNextRecord t"
    "isLast \<or> n + length recs > 0"
  shows "scanRecords path isLast startTx mode n lastTx (frames recs @ t) =
     Some (Inr (tailMode mode t, n + length recs, last (lastTx # map lr_TxID recs)))"
  using assms
proof (induction recs arbitrary: n lastTx)
  case Nil
  then obtain e r' where "scanNextRecord t = Some (Inl e, r')" "tailError e" by (auto simp: stopsAt_def)
  with Nil show ?case
    by (subst scanRecords.simps) (auto simp: tailMode_def tailError_def)
next
  case (Cons rec recs)
  have c: "checkRecordTx path startTx n lastTx (lr_TxID rec) = Inr ()"
    and f: "follows startTx (Suc n) (lr_TxID rec) recs"
    using Cons.prems(2) unfolding follows_Cons [of _ _ _ _ _ path] by simp_all
  have "scanNextRecord (frames (rec # recs) @ t) = Some (Inr rec, frames recs @ t)"
    using scanned.whole [of rec "frames recs @ t"] Cons.prems(1) by simp
  then have "scanRecords path isLast startTx mode n lastTx (frames (rec # recs) @ t) =
      scanRecords path isLast startTx mode (Suc n) (lr_TxID rec) (frames recs @ t)"
    by (subst scanRecords.simps) (simp add: c)
  with Cons.IH [OF _ f Cons.prems(3)] Cons.prems show ?case by simp
qed

lemma scanNextRecord_EOF: "scanNextRecord r = Some (Inl (IOErr EOF), r') \<Longrightarrow> allBytesZero r"
proof -
  assume e: "scanNextRecord r = Some (Inl (IOErr EOF), r')"
  have fin: "finishRecord buf n x \<noteq> Some (Inl (IOErr EOF), y)" for buf n x y
    by (auto simp: finishRecord_def readRecordPayload_def Let_def result_simps split: sum.splits if_splits)
  show ?thesis
  proof (cases "length r < 14")
    case True
    with e show ?thesis
      by (cases "r = []") (auto simp: scanNextRecord_def Let_def size_defs remainingBytesAreZero_eq allBytesZero_def split: if_splits)
  next
    case False
    then have h: "readFull RecordHeaderSize r = Inr (take 14 r, drop 14 r)" by (simp add: readFull_def size_defs)
    have z: "remainingBytesAreZero (drop 14 r) (length r - 14) = Inr (allBytesZero (drop 14 r))"
      by (simp add: remainingBytesAreZero_eq)
    from e False h z fin have "isZeroRecordHeader (take 14 r) \<and> allBytesZero (drop 14 r)"
      by (auto simp: scanNextRecord_def Let_def size_defs split: if_splits)
    then have "allBytesZero (take 14 r @ drop 14 r)"
      unfolding isZeroRecordHeader_def allBytesZero_def list_all_append by blast
    then show ?thesis by simp
  qed
qed

lemma scanRecords_sound:
  assumes "scanRecords path isLast startTx mode n lastTx r = Some (Inr (mode', n', lastTx'))"
  shows "\<exists>recs t. r = frames recs @ t \<and> list_all record_ok recs \<and> follows startTx n lastTx recs \<and>
     n' = n + length recs \<and> lastTx' = last (lastTx # map lr_TxID recs) \<and>
     (mode' = AppendByFreshNextSegment \<or> allBytesZero t)"
  using assms
proof (induction path isLast startTx mode n lastTx r rule: scanRecords.induct)
  case (1 path isLast startTx mode n lastTx r)
  obtain res r1 where s: "scanNextRecord r = Some (res, r1)" using scanNextRecord_total [of r] by auto
  show ?case
  proof (cases res)
    case (Inl e)
    with 1(2) s have "n' = n" "lastTx' = lastTx" "mode' = AppendByFreshNextSegment \<or> e = IOErr EOF"
      by (auto simp: scanRecords.simps [of path isLast startTx mode n lastTx r] split: if_splits)
    then show ?thesis using scanNextRecord_EOF [of r r1] s Inl
      by (intro exI [of _ "[]"] exI [of _ r]) (auto simp: follows_def)
  next
    case (Inr rec)
    with 1(2) s have c: "checkRecordTx path startTx n lastTx (lr_TxID rec) = Inr ()"
      and rest: "scanRecords path isLast startTx mode (n + 1) (lr_TxID rec) r1 = Some (Inr (mode', n', lastTx'))"
      by (auto simp: scanRecords.simps [of path isLast startTx mode n lastTx r] split: sum.splits)
    from 1(1) [OF s refl] Inr c rest obtain recs t where
      "r1 = frames recs @ t" "list_all record_ok recs" "follows startTx (Suc n) (lr_TxID rec) recs"
      "n' = Suc n + length recs" "lastTx' = last (lr_TxID rec # map lr_TxID recs)"
      "mode' = AppendByFreshNextSegment \<or> allBytesZero t"
      by auto
    moreover have "r = recordBytes rec @ r1" "record_ok rec" using s Inr by (simp_all add: scanNextRecord_frame)
    ultimately show ?thesis
      using c by (intro exI [of _ "rec # recs"] exI [of _ t]) (simp add: follows_Cons [of _ _ _ _ _ path])
  qed
qed

lemma contiguousFrom_nth: "contiguousFrom t recs \<Longrightarrow> i < length recs \<Longrightarrow> lr_TxID (recs ! i) = t + of_nat i"
proof (induction recs arbitrary: t i)
  case (Cons rec recs)
  then show ?case by (cases i) (auto simp: ac_simps)
qed simp

lemma contiguousFrom_append:
  "contiguousFrom t (xs @ ys) \<longleftrightarrow>
     contiguousFrom t xs \<and> (ys = [] \<or> contiguousFrom (t + of_nat (length xs)) ys \<and>
       (xs \<noteq> [] \<longrightarrow> lr_TxID (last xs) \<noteq> - 1))"
proof (induction xs arbitrary: t)
  case (Cons x xs)
  have a: "t + 1 + of_nat (length xs) = t + (1 + of_nat (length xs))" by (simp add: ac_simps)
  show ?case using Cons.IH [of "t + 1"] unfolding a by (cases xs) auto
qed auto

lemma contiguousFrom_take: "contiguousFrom t recs \<Longrightarrow> contiguousFrom t (take m recs)"
  using contiguousFrom_append [of t "take m recs" "drop m recs"] by simp

lemma contiguousFrom_last:
  assumes "contiguousFrom t recs" "recs \<noteq> []"
  shows "lr_TxID (last recs) = t + of_nat (length recs) - 1"
  using contiguousFrom_nth [OF assms(1), of "length recs - 1"] assms(2)
  by (simp add: last_conv_nth of_nat_diff Suc_leI)

definition segmentHeader :: bytes where "segmentHeader = WriteSegmentHeader []"

lemma length_segmentHeader [simp]: "length segmentHeader = 8"
  by (simp add: segmentHeader_def WriteSegmentHeader_def SegmentMagic_def)

lemma ReadSegmentHeader_Inr: "ReadSegmentHeader f = Inr r \<longleftrightarrow> f = segmentHeader @ r"
proof -
  have "buf = segmentHeader" if "length buf = 8" "buf ! 0 = SegmentMagic ! 0" "buf ! 1 = SegmentMagic ! 1"
    "buf ! 2 = SegmentMagic ! 2" "buf ! 3 = SegmentMagic ! 3" "buf ! 4 = SegmentVersion"
    "buf ! 5 = 0" "buf ! 6 = 0" "buf ! 7 = 0" for buf
  proof (rule nth_equalityI)
    fix i assume "i < length buf"
    with that(1) have "i \<in> {0, 1, 2, 3, 4, 5, 6, 7}" by auto
    then show "buf ! i = segmentHeader ! i"
      using that by (auto simp: segmentHeader_def WriteSegmentHeader_def SegmentMagic_def)
  qed (simp add: that)
  then show ?thesis
    by (auto simp: ReadSegmentHeader_def readFull_eq_Inr size_defs split: sum.splits if_splits)
      (auto simp: readFull_def segmentHeader_def WriteSegmentHeader_def SegmentMagic_def split: if_splits)
qed

lemma follows_start: "follows t 0 l recs \<longleftrightarrow> recs = [] \<or> contiguousFrom t recs"
  by (auto simp: follows_def)

definition lastTxOf :: "u64 \<Rightarrow> logRecord list \<Rightarrow> u64" where
  "lastTxOf t recs = t + of_nat (length recs) - 1"

lemma scanOneSegment_frames:
  assumes "map_of dir (SegmentFileName t) = Some (RegularFile (segmentHeader @ frames recs @ tail))"
    "list_all record_ok recs" "contiguousFrom t recs" "stopsAt scanNextRecord tail" "isLast \<or> recs \<noteq> []" "t \<noteq> 0"
  shows "scanOneSegment dir (SegmentFileName t) isLast =
     Some (Inr \<lparr>si_Path = SegmentFileName t, si_StartTx = t, si_LastTx = lastTxOf t recs, si_Valid = True,
                si_AppendMode = tailMode (if isLast then AppendInPlace else AppendForbidden) tail\<rparr>)"
proof -
  have "ReadSegmentHeader (segmentHeader @ frames recs @ tail) = Inr (frames recs @ tail)"
    by (simp add: ReadSegmentHeader_Inr)
  then have opened: "OpenSegment dir (SegmentFileName t) =
      Inr \<lparr>sr_file = segmentHeader @ frames recs @ tail, sr_pos = 8, sr_startTx = t, sr_lastTx = 0\<rparr>"
    using assms(1) by (simp add: OpenSegment_def openExistingRegularFile_def size_defs)
  have "(if recs = [] then t - 1 else last (0 # map lr_TxID recs)) = lastTxOf t recs"
    using contiguousFrom_last [OF assms(3)] by (simp add: lastTxOf_def last_map)
  then show ?thesis
    using scanRecords_frames [OF assms(2) _ assms(4), of t 0 0 isLast "SegmentFileName t"
        "if isLast then AppendInPlace else AppendForbidden"] assms(3,5,6)
    by (cases "recs = []") (simp_all add: scanOneSegment_def opened follows_start)
qed

lemma appendScanLoop_frames:
  assumes "list_all record_ok recs" "follows startTx (as_recordCount st) (as_lastTx st) recs"
    "scanNextRecord tail = Some (Inl e, r')" "tailError e"
    "e = IOErr EOF \<or> as_recordCount st + length recs > 0"
  shows "appendScanLoop path startTx st (frames recs @ tail) =
     Some (Inr (st\<lparr>as_size := as_size st + length (frames recs),
                   as_lastTx := last (as_lastTx st # map lr_TxID recs),
                   as_lastRecordOffset :=
                     (if recs = [] then as_lastRecordOffset st else as_size st + length (frames (butlast recs))),
                   as_recordCount := as_recordCount st + length recs,
                   as_truncated := (as_truncated st \<or> e \<noteq> IOErr EOF)\<rparr>))"
  using assms
proof (induction recs arbitrary: st)
  case Nil
  then show ?case
    by (subst appendScanLoop.simps) (auto simp: tailError_def)
next
  case (Cons rec recs)
  let ?st = "st\<lparr>as_size := as_size st + (RecordOverhead + length (lr_Payload rec)),
                as_lastTx := lr_TxID rec, as_lastRecordOffset := as_size st,
                as_recordCount := as_recordCount st + 1\<rparr>"
  have c: "checkRecordTx path startTx (as_recordCount st) (as_lastTx st) (lr_TxID rec) = Inr ()"
    and f: "follows startTx (as_recordCount ?st) (as_lastTx ?st) recs"
    using Cons.prems(2) unfolding follows_Cons [of _ _ _ _ _ path] by simp_all
  have "scanNextRecord (frames (rec # recs) @ tail) = Some (Inr rec, frames recs @ tail)"
    using scanned.whole [of rec "frames recs @ tail"] Cons.prems(1) by simp
  then have "appendScanLoop path startTx st (frames (rec # recs) @ tail) =
      appendScanLoop path startTx ?st (frames recs @ tail)"
    by (subst appendScanLoop.simps) (simp add: c)
  also note Cons.IH [OF _ f Cons.prems(3,4)]
  finally show ?case using Cons.prems(1) by (simp add: length_recordBytes)
qed

section \<open>What a writer leaves on disk\<close>

text \<open>
  The writers a process can reach on a segment it created: the records appended so far and
  how many of them the last \<open>Sync\<close> covered.
\<close>

inductive written :: "u64 \<Rightarrow> segmentWriter \<Rightarrow> logRecord list \<Rightarrow> nat \<Rightarrow> bool" where
  created: "CreateSegment dir t = Inr sw \<Longrightarrow> written t sw [] 0"
| appended: "written t sw recs n \<Longrightarrow> length (lr_Payload rec) \<le> unat formatMaxRecordPayloadBytes \<Longrightarrow>
    swAppend sw rec = Some (sw', None) \<Longrightarrow> written t sw' (recs @ [rec]) n"
| synced: "written t sw recs n \<Longrightarrow> written t (swSync sw) recs (length recs)"

definition writer_inv :: "u64 \<Rightarrow> segmentWriter \<Rightarrow> logRecord list \<Rightarrow> bool" where
  "writer_inv t sw recs \<longleftrightarrow>
     t \<noteq> 0 \<and> sw_file sw = segmentHeader @ frames recs \<and> sw_size sw = length (sw_file sw) \<and>
     sw_startTx sw = t \<and> list_all record_ok recs \<and> contiguousFrom t recs \<and>
     (sw_hasLastRecord sw \<longleftrightarrow> recs \<noteq> []) \<and>
     (recs \<noteq> [] \<longrightarrow> sw_lastTx sw = lr_TxID (last recs) \<and>
        sw_lastRecordOffset sw = 8 + length (frames (butlast recs)))"

lemma writer_inv_create: "CreateSegment dir t = Inr sw \<Longrightarrow> writer_inv t sw [] \<and> sw_synced sw = 8 \<and> sw_tail sw = []"
  by (auto simp: CreateSegment_def Let_def result_simps rejectBootstrapSegmentStart_def writer_inv_def
      swSync_def size_defs segmentHeader_def [symmetric] split: if_splits)

lemma writer_inv_sync: "writer_inv t sw recs \<Longrightarrow> writer_inv t (swSync sw) recs"
  by (simp add: writer_inv_def swSync_def)

definition acceptable :: "segmentWriter \<Rightarrow> logRecord \<Rightarrow> bool" where
  "acceptable sw rec \<longleftrightarrow>
     lr_RecordType rec = RecordTypeChangeset \<and> lr_Flags rec = 0 \<and>
     (if sw_hasLastRecord sw then sw_lastTx sw \<noteq> - 1 \<and> lr_TxID rec = sw_lastTx sw + 1
      else lr_TxID rec = sw_startTx sw)"

lemma swAppend_eq:
  assumes "length (lr_Payload rec) < 2 ^ 32"
  shows "\<exists>err. swAppend sw rec =
     (if acceptable sw rec
      then Some (sw\<lparr>sw_file := sw_file sw @ recordBytes rec,
                    sw_tail := drop (length (recordBytes rec)) (sw_tail sw),
                    sw_size := sw_size sw + length (recordBytes rec),
                    sw_lastTx := lr_TxID rec, sw_lastRecordOffset := sw_size sw,
                    sw_hasLastRecord := True\<rparr>, None)
      else Some (sw, Some err))"
  using assms by (auto simp: swAppend_def acceptable_def EncodeRecord_eq length_recordBytes)

lemma swAppend_inv:
  assumes inv: "writer_inv t sw recs" and small: "length (lr_Payload rec) \<le> unat formatMaxRecordPayloadBytes"
    and app: "swAppend sw rec = Some (sw', None)"
  shows "writer_inv t sw' (recs @ [rec])" "sw_synced sw' = sw_synced sw"
    "sw_tail sw' = drop (length (recordBytes rec)) (sw_tail sw)"
proof -
  have l: "length (lr_Payload rec) < 2 ^ 32" using small by (simp add: formatMax_unat)
  have acc: "acceptable sw rec" and sw': "sw' = sw\<lparr>sw_file := sw_file sw @ recordBytes rec,
      sw_tail := drop (length (recordBytes rec)) (sw_tail sw), sw_size := sw_size sw + length (recordBytes rec),
      sw_lastTx := lr_TxID rec, sw_lastRecordOffset := sw_size sw, sw_hasLastRecord := True\<rparr>"
    using swAppend_eq [OF l, of sw] app by (auto split: if_splits)
  have "contiguousFrom t (recs @ [rec])"
    using inv acc contiguousFrom_last [of t recs]
    by (auto simp: writer_inv_def acceptable_def contiguousFrom_append)
  with inv small acc show "writer_inv t sw' (recs @ [rec])"
    by (simp add: writer_inv_def sw' acceptable_def record_ok_def)
  show "sw_synced sw' = sw_synced sw" "sw_tail sw' = drop (length (recordBytes rec)) (sw_tail sw)"
    by (simp_all add: sw')
qed

lemma written_inv:
  "written t sw recs n \<Longrightarrow>
   writer_inv t sw recs \<and> sw_tail sw = [] \<and> n \<le> length recs \<and> sw_synced sw = 8 + length (frames (take n recs))"
proof (induction rule: written.induct)
  case (created dir t sw)
  then show ?case using writer_inv_create by auto
next
  case (appended t sw recs n rec sw')
  then show ?case using swAppend_inv [of t sw recs rec sw'] by simp
next
  case (synced t sw recs n)
  then show ?case by (simp add: writer_inv_sync) (simp add: swSync_def writer_inv_def)
qed

text \<open>A cut of the file, at or after the synchronised length, holds the header and whole records.\<close>

lemma written_cut:
  assumes w: "written t sw recs n" and k: "sw_synced sw \<le> k"
  obtains m tail where "n \<le> m" "m \<le> length recs" "take k (sw_file sw) = segmentHeader @ frames (take m recs) @ tail"
    "stopsAt scanNextRecord tail" "list_all record_ok (take m recs)" "contiguousFrom t (take m recs)" "t \<noteq> 0"
proof -
  have inv: "writer_inv t sw recs" and n: "n \<le> length recs" and s: "sw_synced sw = 8 + length (frames (take n recs))"
    using written_inv [OF w] by simp_all
  have ok: "list_all record_ok recs" using inv by (simp add: writer_inv_def)
  obtain tail where t: "take (k - 8) (frames recs) = frames (take (wholeCount (k - 8) recs) recs) @ tail"
    "stopsAt scanNextRecord tail"
    using scanned.cut [OF ok] by blast
  have "take k (sw_file sw) = segmentHeader @ take (k - 8) (frames recs)"
    using inv k s by (simp add: writer_inv_def)
  moreover have "n \<le> wholeCount (k - 8) recs" using k s n by (intro wholeCount_ge) simp_all
  moreover have "list_all record_ok (take (wholeCount (k - 8) recs) recs)"
    using ok by (auto simp: list_all_iff dest: in_set_takeD)
  ultimately show thesis
    using that [of "wholeCount (k - 8) recs" tail] t inv wholeCount_le [of "k - 8" recs]
      contiguousFrom_take [of t recs] by (simp add: writer_inv_def)
qed

lemma reopen_frames:
  assumes "map_of dir (SegmentFileName t) = Some (RegularFile (segmentHeader @ frames recs @ tail))"
    "list_all record_ok recs" "contiguousFrom t recs" "stopsAt scanNextRecord tail" "recs \<noteq> []" "t \<noteq> 0"
  shows "\<exists>sw. OpenSegmentForAppend dir t = Some (Inr sw) \<and> writer_inv t sw recs"
proof -
  obtain e r' where e: "scanNextRecord tail = Some (Inl e, r')" "tailError e"
    using assms(4) by (auto simp: stopsAt_def)
  have h: "ReadSegmentHeader (segmentHeader @ frames recs @ tail) = Inr (frames recs @ tail)"
    by (simp add: ReadSegmentHeader_Inr)
  let ?st = "\<lparr>as_size = SegmentHeaderSize, as_lastTx = 0, as_lastRecordOffset = 0,
              as_recordCount = 0, as_truncated = False\<rparr>"
  have loop: "appendScanLoop (SegmentFileName t) t ?st (frames recs @ tail) =
     Some (Inr \<lparr>as_size = 8 + length (frames recs), as_lastTx = lr_TxID (last recs),
       as_lastRecordOffset = 8 + length (frames (butlast recs)), as_recordCount = length recs,
       as_truncated = (e \<noteq> IOErr EOF)\<rparr>)"
    using appendScanLoop_frames [OF assms(2) _ e, of t ?st] assms(3,5) 
    by (simp add: follows_start SegmentHeaderSize_def last_map)
  show ?thesis
    unfolding OpenSegmentForAppend_def Let_def rejectBootstrapSegmentStart_def openExistingRegularFile_def
    using assms loop h by (simp add: writer_inv_def)
qed

section \<open>What a scan has checked\<close>

definition segmentHolds :: "directory \<Rightarrow> segmentInfo \<Rightarrow> logRecord list \<Rightarrow> bool" where
  "segmentHolds dir info recs \<longleftrightarrow>
     si_Path info = SegmentFileName (si_StartTx info) \<and> list_all record_ok recs \<and>
     contiguousFrom (si_StartTx info) recs \<and>
     (si_StartTx info \<noteq> 0 \<longrightarrow> si_LastTx info = lastTxOf (si_StartTx info) recs) \<and>
     (\<exists>f tail. map_of dir (si_Path info) = Some (RegularFile f) \<and>
        (f = [] \<and> recs = [] \<and> si_AppendMode info = AppendByFreshNextSegment \<or>
         f = segmentHeader @ frames recs @ tail \<and> (si_AppendMode info = AppendByFreshNextSegment \<or> allBytesZero tail)))"

lemma OpenSegment_Inr:
  "OpenSegment dir path = Inr sr \<longleftrightarrow>
     path = SegmentFileName (sr_startTx sr) \<and> sr_pos sr = 8 \<and> sr_lastTx sr = 0 \<and>
     map_of dir path = Some (RegularFile (sr_file sr)) \<and> (\<exists>r. sr_file sr = segmentHeader @ r)"
  by (cases sr)
    (auto simp: OpenSegment_def openExistingRegularFile_def result_simps ReadSegmentHeader_Inr parse_Inr size_defs
          split: option.splits dirEntry.splits)

lemma OpenSegment_EOF:
  assumes "OpenSegment dir path = Inl (IOErr EOF)"
  shows "map_of dir path = Some (RegularFile [])"
proof -
  have p: "parseSegmentFileStartTx path \<noteq> Inl (IOErr EOF)"
    by (auto simp: parseSegmentFileStartTx_def split: option.splits)
  have h: "ReadSegmentHeader f = Inl (IOErr EOF) \<Longrightarrow> f = []" for f
    by (auto simp: ReadSegmentHeader_def readFull_def split: if_splits)
  from assms p show ?thesis
    by (auto simp: OpenSegment_def openExistingRegularFile_def bindE_eq_Inl dest!: h
             split: option.splits dirEntry.splits)
qed

lemma scanOneSegment_sound:
  assumes "scanOneSegment dir path isLast = Some (Inr info)"
  shows "\<exists>recs. segmentHolds dir info recs \<and> si_Path info = path"
proof (cases "OpenSegment dir path")
  case (Inl e)
  with assms have e: "e = IOErr EOF" by (auto simp: scanOneSegment_def split: if_splits)
  from assms Inl e obtain t where "parseSegmentFileStartTx path = Inr t"
    "info = \<lparr>si_Path = path, si_StartTx = t, si_LastTx = (if t > 0 then t - 1 else 0), si_Valid = True,
             si_AppendMode = AppendByFreshNextSegment\<rparr>"
    by (auto simp: scanOneSegment_def result_simps split: if_splits)
  with OpenSegment_EOF [of dir path] Inl e show ?thesis
    by (intro exI [of _ "[]"]) (auto simp: segmentHolds_def lastTxOf_def parse_Inr word_neq_0_conv)
next
  case (Inr sr)
  then obtain r where o: "path = SegmentFileName (sr_startTx sr)" "sr_pos sr = 8"
    "map_of dir path = Some (RegularFile (sr_file sr))" "sr_file sr = segmentHeader @ r"
    by (auto simp: OpenSegment_Inr)
  let ?mode = "if isLast then AppendInPlace else AppendForbidden"
  from assms Inr o obtain mode n l where
    s: "scanRecords path isLast (sr_startTx sr) ?mode 0 0 r = Some (Inr (mode, n, l))" and
    info: "info = \<lparr>si_Path = path, si_StartTx = sr_startTx sr,
       si_LastTx = (if n = 0 then (if sr_startTx sr = 0 then 0 else sr_startTx sr - 1) else l),
       si_Valid = True, si_AppendMode = mode\<rparr>"
    by (auto simp: scanOneSegment_def Let_def result_simps)
  from scanRecords_sound [OF s] obtain recs tail where
    recs: "r = frames recs @ tail" "list_all record_ok recs" "contiguousFrom (sr_startTx sr) recs"
    "n = length recs" "l = last (0 # map lr_TxID recs)" "mode = AppendByFreshNextSegment \<or> allBytesZero tail"
    by (auto simp: follows_start)
  have "n \<noteq> 0 \<Longrightarrow> l = lastTxOf (sr_startTx sr) recs"
    using recs contiguousFrom_last [of "sr_startTx sr" recs] by (auto simp: lastTxOf_def last_map)
  with recs o info show ?thesis
    by (intro exI [of _ recs]) (auto simp: segmentHolds_def lastTxOf_def)
qed

lemma listEntries_names:
  "listEntries entries = Inr paths \<Longrightarrow> (name, t) \<in> set paths \<Longrightarrow> name = SegmentFileName t \<and> t \<noteq> 0"
proof (induction entries arbitrary: paths)
  case (Cons e entries)
  then show ?case
    by (cases e) (auto simp: result_simps parse_Inr rejectBootstrapSegmentStart_def split: if_splits)
qed simp

lemma scanPaths_sound:
  assumes "scanPaths dir paths = Some (Inr segs)" "\<forall>(name, t) \<in> set paths. name = SegmentFileName t \<and> t \<noteq> 0"
  shows "length segs = length paths \<and> (\<exists>hist. list_all2 (segmentHolds dir) segs hist) \<and> (\<forall>s \<in> set segs. si_StartTx s \<noteq> 0)"
  using assms
proof (induction dir paths arbitrary: segs rule: scanPaths.induct)
  case (2 dir p ps)
  obtain info rest where i: "scanOneSegment dir (fst p) (ps = []) = Some (Inr info)"
    and r: "scanPaths dir ps = Some (Inr rest)" and segs: "segs = info # rest"
    using 2(2) by (auto simp: result_simps split: option.splits sum.splits)
  obtain recs where recs: "segmentHolds dir info recs" "si_Path info = fst p"
    using scanOneSegment_sound [OF i] by blast
  have "si_StartTx info \<noteq> 0"
  proof -
    have "SegmentFileName (si_StartTx info) = SegmentFileName (snd p)" "snd p \<noteq> 0"
      using recs 2(3) by (auto simp: segmentHolds_def split: prod.splits)
    then show ?thesis by (metis parse_SegmentFileName sum.inject(2))
  qed
  moreover obtain hist where "length rest = length ps" "list_all2 (segmentHolds dir) rest hist" "\<forall>s \<in> set rest. si_StartTx s \<noteq> 0"
    using 2(1) [OF i refl r] 2(3) i by auto
  ultimately show ?case using recs by (auto simp: segs intro!: exI [of _ "recs # hist"])
qed (auto intro: exI [of _ "[]"])

lemma validateSegmentContinuity_chain:
  assumes "validateSegmentContinuity segs = Inr u" "segs \<noteq> []" "list_all2 (segmentHolds dir) segs hist"
    "\<forall>s \<in> set segs. si_StartTx s \<noteq> 0"
  shows "contiguousFrom (si_StartTx (hd segs)) (concat hist) \<and>
     si_LastTx (last segs) = lastTxOf (si_StartTx (hd segs)) (concat hist)"
  using assms
proof (induction segs arbitrary: hist rule: validateSegmentContinuity.induct)
  case (1 prev cur rest)
  from 1(4) obtain recs hist' where hist: "hist = recs # hist'" and p: "segmentHolds dir prev recs"
    and r: "list_all2 (segmentHolds dir) (cur # rest) hist'"
    by (auto simp: list_all2_Cons1)
  from 1(2) have l: "si_LastTx prev \<noteq> - 1" "si_StartTx cur = si_LastTx prev + 1"
    and v: "validateSegmentContinuity (cur # rest) = Inr u"
    by (auto simp: result_simps nextContiguousRecordTxID_def split: if_splits)
  have lp: "si_LastTx prev = lastTxOf (si_StartTx prev) recs" "contiguousFrom (si_StartTx prev) recs"
    using p 1(5) by (simp_all add: segmentHolds_def)
  have ih: "contiguousFrom (si_StartTx cur) (concat hist')"
    "si_LastTx (last (cur # rest)) = lastTxOf (si_StartTx cur) (concat hist')"
    using 1(1) [OF _ _ v _ r] l 1(5) by (auto simp: nextContiguousRecordTxID_def)
  have s: "si_StartTx cur = si_StartTx prev + of_nat (length recs)"
    using l(2) lp(1) by (simp add: lastTxOf_def)
  have "recs \<noteq> [] \<Longrightarrow> lr_TxID (last recs) \<noteq> - 1"
    using contiguousFrom_last [OF lp(2)] l(1) lp(1) by (simp add: lastTxOf_def)
  with ih s lp show ?case by (simp add: hist contiguousFrom_append lastTxOf_def add.assoc)
qed (auto simp: list_all2_Cons1 segmentHolds_def)

text \<open> C37. The record codec: a changeset record within the format's limits is written as one
  frame of 18 bytes more than its payload; both readers recover the record from the frame
  whatever follows it, leaving exactly what follows; and a frame cut anywhere is reported as
  the end of the file or as truncated, never as a record. \<close>

theorem record_roundtrip:
  assumes "lr_RecordType rec = RecordTypeChangeset" "lr_Flags rec = 0"
    and "length (lr_Payload rec) \<le> unat formatMaxRecordPayloadBytes"
  shows "\<exists>bs. (\<forall>w. EncodeRecord w rec = Some (Inr (w @ bs))) \<and>
     length bs = RecordOverhead + length (lr_Payload rec) \<and>
     (\<forall>r. DecodeRecord (bs @ r) 0 = Some (Inr rec, r) \<and> scanNextRecord (bs @ r) = Some (Inr rec, r)) \<and>
     (\<forall>k < length bs. \<exists>e r'. scanNextRecord (take k bs) = Some (Inl e, r') \<and>
        (e = IOErr EOF \<or> e = ErrTruncatedRecord))"
proof (intro exI [of _ "recordBytes rec"] conjI allI impI)
  have ok: "record_ok rec" using assms by (simp add: record_ok_def)
  fix w r k
  show "EncodeRecord w rec = Some (Inr (w @ recordBytes rec))"
    using record_ok_length [OF ok] by (rule EncodeRecord_eq)
  show "DecodeRecord (recordBytes rec @ r) 0 = Some (Inr rec, r)"
    using assms by (simp add: DecodeRecord_frame payloadLimit_def)
  show "scanNextRecord (recordBytes rec @ r) = Some (Inr rec, r)"
    using ok by (rule scanned.whole)
  show "\<exists>e r'. scanNextRecord (take k (recordBytes rec)) = Some (Inl e, r') \<and> (e = IOErr EOF \<or> e = ErrTruncatedRecord)"
    if "k < length (recordBytes rec)"
    using scanned.torn [OF ok that] by (auto simp: stopsAt_def tailError_def)
qed (rule length_recordBytes)

definition exampleRecord :: "u64 \<Rightarrow> logRecord" where
  "exampleRecord t = \<lparr>lr_TxID = t, lr_RecordType = 1, lr_Flags = 0, lr_Payload = [0xCA, 0xFE]\<rparr>"

lemma exampleRecord_ok:
  "lr_RecordType (exampleRecord t) = RecordTypeChangeset" "lr_Flags (exampleRecord t) = 0"
  "length (lr_Payload (exampleRecord t)) \<le> unat formatMaxRecordPayloadBytes"
  by (simp_all add: exampleRecord_def RecordTypeChangeset_def formatMax_unat)

theorem record_roundtrip_witness:
  "\<exists>bs. EncodeRecord [] (exampleRecord 7) = Some (Inr bs) \<and> length bs = 20 \<and>
     DecodeRecord (bs @ [1, 2]) 0 = Some (Inr (exampleRecord 7), [1, 2]) \<and>
     (\<exists>e r'. scanNextRecord (take 17 bs) = Some (Inl e, r') \<and> (e = IOErr EOF \<or> e = ErrTruncatedRecord))"
proof -
  obtain bs where *: "\<forall>w. EncodeRecord w (exampleRecord 7) = Some (Inr (w @ bs))"
    "length bs = RecordOverhead + length (lr_Payload (exampleRecord 7))"
    "\<forall>r. DecodeRecord (bs @ r) 0 = Some (Inr (exampleRecord 7), r) \<and> scanNextRecord (bs @ r) = Some (Inr (exampleRecord 7), r)"
    "\<forall>k < length bs. \<exists>e r'. scanNextRecord (take k bs) = Some (Inl e, r') \<and> (e = IOErr EOF \<or> e = ErrTruncatedRecord)"
    using record_roundtrip [OF exampleRecord_ok, of 7] by blast
  then have "length bs = 20" by (simp add: exampleRecord_def size_defs)
  then show ?thesis using *(1) *(3) *(4) [rule_format, of 17] by (intro exI [of _ bs]) simp
qed

text \<open> C17. Corruption of the log is detected: if any one byte of a written record, outside its
  four length bytes, is replaced by a different byte, neither reader accepts a record there,
  whatever follows and whatever payload limit is in force. \<close>

theorem corruption_detected:
  assumes "lr_RecordType rec = RecordTypeChangeset" "lr_Flags rec = 0"
    and "length (lr_Payload rec) \<le> unat formatMaxRecordPayloadBytes"
    and "EncodeRecord [] rec = Some (Inr bs)"
    and "i < length bs" "i < 10 \<or> 13 < i" "v \<noteq> bs ! i"
  shows "DecodeRecord (bs[i := v] @ r) m \<noteq> Some (Inr rec', r') \<and>
    scanNextRecord (bs[i := v] @ r) \<noteq> Some (Inr rec', r')"
proof -
  have ok: "record_ok rec" using assms(1-3) by (simp add: record_ok_def)
  have bs: "bs = recordBytes rec" using assms(4) EncodeRecord_eq [OF record_ok_length [OF ok]] by simp
  have i: "i < length (recordBytes rec)" "i \<notin> {10..13}" "v \<noteq> recordBytes rec ! i" using assms(5-7) bs by auto
  have s: "scanNextRecord (bs[i := v] @ r) \<noteq> Some (Inr rec', r')"
    unfolding bs using ok i by (rule scanned.changed_byte)
  have "decodable 0xFFFFFFFF rec"
    using ok by (simp add: decodable_def record_ok_def payloadLimit_def formatMax_unat)
  then have "DecodeRecord (bs[i := v] @ r) 0xFFFFFFFF \<noteq> Some (Inr rec', r')"
    unfolding bs using i by (rule decoded.changed_byte)
  moreover have "payloadLimit m \<le> payloadLimit 0xFFFFFFFF"
    using unsigned_less [of "if m = 0 then formatMaxRecordPayloadBytes else m", where 'a = nat]
    by (simp add: payloadLimit_def)
  ultimately have "DecodeRecord (bs[i := v] @ r) m \<noteq> Some (Inr rec', r')"
    by (auto simp: DecodeRecord_frame)
  with s show ?thesis by blast
qed

theorem corruption_detected_witness:
  "\<exists>bs. EncodeRecord [] (exampleRecord 7) = Some (Inr bs) \<and>
     DecodeRecord (bs[15 := 0xFF]) 0 \<noteq> Some (Inr (exampleRecord 7), [])"
proof -
  have ok: "record_ok (exampleRecord 7)" using exampleRecord_ok by (simp add: record_ok_def)
  have enc: "EncodeRecord [] (exampleRecord 7) = Some (Inr (recordBytes (exampleRecord 7)))"
    using EncodeRecord_eq [OF record_ok_length [OF ok], of "[]"] by simp
  have "length (recordBytes (exampleRecord 7)) = 20"
    by (simp add: length_recordBytes size_defs exampleRecord_def)
  moreover have "recordBytes (exampleRecord 7) ! 15 = 0xFE"
    by (simp add: recordBytes_def recordBody_def recordHeader_def exampleRecord_def nth_append)
  ultimately show ?thesis
    using corruption_detected [OF exampleRecord_ok enc, of 15 "0xFF" "[]" 0 "exampleRecord 7" "[]"] enc
    by (intro exI [of _ "recordBytes (exampleRecord 7)"]) simp
qed

lemma SegmentFileName_suffix [simp]:
  "length (SegmentFileName t) = 24" "drop 20 (SegmentFileName t) = ''.log''"
  by (simp_all add: SegmentFileName_def)

lemma SegmentFileName_inj [simp]: "SegmentFileName s = SegmentFileName t \<longleftrightarrow> s = t"
  by (metis parse_SegmentFileName sum.inject(2))

lemma next_acceptable:
  assumes "writer_inv t sw recs" "contiguousFrom t (recs @ [rec])" "record_ok rec"
  shows "\<exists>sw'. swAppend sw rec = Some (sw', None)"
proof -
  have "acceptable sw rec"
    using assms contiguousFrom_last [of t recs]
    by (auto simp: acceptable_def writer_inv_def record_ok_def contiguousFrom_append)
  with swAppend_eq [OF record_ok_length [OF assms(3)], of sw] show ?thesis by auto
qed

lemma written_all:
  assumes "CreateSegment dir t = Inr sw" "contiguousFrom t recs" "list_all record_ok recs"
  shows "\<exists>sw'. written t sw' recs 0"
  using assms(2,3)
proof (induction recs rule: rev_induct)
  case Nil
  then show ?case using assms(1) by (auto intro: written.created)
next
  case (snoc rec recs)
  then obtain sw' where w: "written t sw' recs 0" by (auto simp: contiguousFrom_append)
  then show ?case
    using next_acceptable [of t sw' recs rec] written_inv [OF w] snoc.prems
    by (auto simp: record_ok_def intro: written.appended [OF w])
qed

text \<open> C15. What a successful scan of the log directory has established: every segment file it
  lists is a header followed by whole records and a tail, and the records of all segments
  together are one history without a gap, from the start of the first segment up to the
  reported durable horizon. \<close>

theorem scan_contiguous:
  assumes "ScanSegments dir = Some (Inr (segs, horizon))" and "segs \<noteq> []"
  shows "\<exists>hist. list_all2 (segmentHolds dir) segs hist \<and>
     contiguousFrom (si_StartTx (hd segs)) (concat hist) \<and>
     horizon = si_StartTx (hd segs) + of_nat (length (concat hist)) - 1"
proof -
  obtain paths where p: "listSegmentPaths dir = Inr paths" "scanSegmentPaths dir paths = Some (Inr (segs, horizon))"
    using assms(1) by (auto simp: ScanSegments_def split: sum.splits)
  obtain entries where "listEntries dir = Inr entries" "paths = sort_key snd entries"
    using p(1) by (auto simp: listSegmentPaths_def result_simps)
  then have names: "\<forall>(name, t) \<in> set paths. name = SegmentFileName t \<and> t \<noteq> 0"
    using listEntries_names [of dir entries] by auto
  obtain u where s: "scanPaths dir paths = Some (Inr segs)" "validateSegmentContinuity segs = Inr u"
    "horizon = si_LastTx (last segs)"
    using p(2) assms(2) by (auto simp: scanSegmentPaths_def result_simps split: if_splits)
  from scanPaths_sound [OF s(1) names] obtain hist where
    "list_all2 (segmentHolds dir) segs hist" "\<forall>s \<in> set segs. si_StartTx s \<noteq> 0" by blast
  with validateSegmentContinuity_chain [OF s(2) assms(2)] s(3) show ?thesis
    by (intro exI [of _ hist]) (simp add: lastTxOf_def)
qed

definition exampleLog :: directory where
  "exampleLog =
     [(SegmentFileName 3, RegularFile (segmentHeader @ frames [exampleRecord 3] @ [9])),
      (SegmentFileName 1, RegularFile (segmentHeader @ frames [exampleRecord 1, exampleRecord 2] @ []))]"

lemma example_record_ok [simp]: "record_ok (exampleRecord t)"
  using exampleRecord_ok by (simp add: record_ok_def)

lemma exampleRecord_TxID [simp]: "lr_TxID (exampleRecord t) = t"
  by (simp add: exampleRecord_def)

lemma scanNext_nil: "scanNextRecord [] = Some (Inl (IOErr EOF), [])"
  by (simp add: scanNextRecord_def)

lemma scanNext_nine: "scanNextRecord [9] = Some (Inl ErrTruncatedRecord, [])"
  by (simp add: scanNextRecord_def Let_def size_defs remainingBytesAreZero_eq allBytesZero_def)

lemma stopsAt_example: "stopsAt scanNextRecord []" "stopsAt scanNextRecord [9]"
  by (auto simp: stopsAt_def scanNext_nil scanNext_nine tailError_def)

lemma exampleLog_scan:
  "ScanSegments exampleLog =
     Some (Inr ([\<lparr>si_Path = SegmentFileName 1, si_StartTx = 1, si_LastTx = 2, si_Valid = True,
                  si_AppendMode = AppendForbidden\<rparr>,
                \<lparr>si_Path = SegmentFileName 3, si_StartTx = 3, si_LastTx = 3, si_Valid = True,
                  si_AppendMode = AppendByFreshNextSegment\<rparr>], 3))"
proof -
  have "scanOneSegment exampleLog (SegmentFileName 1) False =
      Some (Inr \<lparr>si_Path = SegmentFileName 1, si_StartTx = 1, si_LastTx = 2, si_Valid = True,
                 si_AppendMode = AppendForbidden\<rparr>)"
    by (subst scanOneSegment_frames [of _ 1 "[exampleRecord 1, exampleRecord 2]" "[]"])
      (simp_all add: exampleLog_def stopsAt_example lastTxOf_def tailMode_def scanNext_nil)
  moreover have "scanOneSegment exampleLog (SegmentFileName 3) True =
      Some (Inr \<lparr>si_Path = SegmentFileName 3, si_StartTx = 3, si_LastTx = 3, si_Valid = True,
                 si_AppendMode = AppendByFreshNextSegment\<rparr>)"
    by (subst scanOneSegment_frames [of _ 3 "[exampleRecord 3]" "[9]"])
      (simp_all add: exampleLog_def stopsAt_example lastTxOf_def tailMode_def scanNext_nine)
  moreover have "listSegmentPaths exampleLog = Inr [(SegmentFileName 1, 1), (SegmentFileName 3, 3)]"
    by (simp add: exampleLog_def listSegmentPaths_def rejectBootstrapSegmentStart_def word_le_nat_alt)
  ultimately show ?thesis
    by (simp add: ScanSegments_def scanSegmentPaths_def nextContiguousRecordTxID_def)
qed

theorem scan_contiguous_witness:
  "\<exists>segs hist. ScanSegments exampleLog = Some (Inr (segs, 3)) \<and> length segs = 2 \<and>
     list_all2 (segmentHolds exampleLog) segs hist \<and> contiguousFrom 1 (concat hist) \<and>
     3 = (1 :: u64) + of_nat (length (concat hist)) - 1"
  using scan_contiguous [OF exampleLog_scan] exampleLog_scan
  by (elim exE conjE meta_impE) (simp, intro exI conjI, assumption, simp_all)


lemma exampleWriter:
  "\<exists>sw. written 1 sw [exampleRecord 1, exampleRecord 2] 2 \<and> sw_synced sw = 48"
proof -
  have "CreateSegment [] 1 = Inr (projr (CreateSegment [] 1))"
    by (simp add: CreateSegment_def Let_def rejectBootstrapSegmentStart_def requireCreatableRegularFilePath_def)
  then obtain sw where w: "written 1 sw [exampleRecord 1, exampleRecord 2] 0"
    using written_all [of "[]" 1 _ "[exampleRecord 1, exampleRecord 2]"] by auto
  from written_inv [OF written.synced [OF w]] written.synced [OF w] show ?thesis
    by (intro exI [of _ "swSync sw"]) (simp add: length_recordBytes exampleRecord_def size_defs numeral_2_eq_2)
qed


end
