(* ===== verification/ChangesetCodec.thy ===== *)
theory ChangesetCodec
  imports Segment Commit
begin

text \<open>
  The changeset codec of the commit log (\<open>src/commitlog/changeset_codec.go\<close>): the payload of
  a log record. A changeset is a version byte, a table count and, for each table in the order
  of the identifiers, the identifier and the inserted and the deleted rows, each row as its
  length and its encoding against the table's schema. The schema registry of the reader is a
  parameter: a function from table identifiers to schemas.

  The lemmas show that an encoding is decoded to the same changeset, that the size computed
  beforehand is the size written, and under which conditions the validation made before a
  commit rules out an encoding failure after it.
\<close>

type_synonym registry = "tableID \<Rightarrow> tableSchema option"

definition changesetVersion :: byte where "changesetVersion = 1"

definition changesetUint32Bytes :: nat where "changesetUint32Bytes = 4"

section \<open>Limits\<close>

definition checkedChangesetCount :: "string \<Rightarrow> nat \<Rightarrow> log_error + u32" where
  "checkedChangesetCount label n = (if n > 2 ^ 32 - 1 then Inl (ErrTraversal label) else Inr (of_nat n))"

definition validateRowPayloadLen :: "nat \<Rightarrow> u32 \<Rightarrow> log_error + unit" where
  "validateRowPayloadLen rowLen maxRowBytes =
     (if rowLen > 2 ^ 32 - 1 then Inl (ErrTraversal ''row payload'')
      else if maxRowBytes > 0 \<and> rowLen > unat maxRowBytes then Inl (RowTooLargeError (of_nat rowLen) maxRowBytes)
      else Inr ())"

definition validateRecordPayloadLen :: "nat \<Rightarrow> u32 \<Rightarrow> log_error + unit" where
  "validateRecordPayloadLen sz maxRecordPayloadBytes =
     (if sz > 2 ^ 32 - 1 then Inl (ErrTraversal ''record payload'')
      else if maxRecordPayloadBytes > 0 \<and> sz > unat maxRecordPayloadBytes
      then Inl (RecordTooLargeError (of_nat sz) maxRecordPayloadBytes)
      else Inr ())"

definition appendUint32LE :: "bytes \<Rightarrow> u32 \<Rightarrow> bytes" where
  "appendUint32LE out v = out @ put_le 4 v"

definition liftRow :: "bsatn_error + 'a \<Rightarrow> log_error + 'a" where
  "liftRow = map_sum RowCodecError id"

section \<open>Encoding\<close>

text \<open>The identifiers of the tables that are not nil, in ascending order.\<close>

definition changesetTableIDs :: "changeset option \<Rightarrow> tableID list" where
  "changesetTableIDs cs =
     (case cs of
        None \<Rightarrow> []
      | Some cs \<Rightarrow> sort (map fst (filter (\<lambda>(tid, tc). tc \<noteq> None) (ch_tables cs))))"

definition changesetTable :: "changeset option \<Rightarrow> tableID \<Rightarrow> tableChangeset option" where
  "changesetTable cs tid = (case cs of None \<Rightarrow> None | Some cs \<Rightarrow> Option.bind (map_of (ch_tables cs) tid) id)"

fun rowsSizeLoop :: "nat \<Rightarrow> productValue list \<Rightarrow> tableSchema option \<Rightarrow> u32 \<Rightarrow> log_error + nat" where
  "rowsSizeLoop sz [] ts maxRowBytes = Inr sz"
| "rowsSizeLoop sz (row # rows) ts maxRowBytes =
     bindE (liftRow (EncodedProductValueSizeForSchema row ts)) (\<lambda>rowLen.
     bindE (validateRowPayloadLen rowLen maxRowBytes) (\<lambda>_.
     rowsSizeLoop (sz + (4 + rowLen)) rows ts maxRowBytes))"

definition encodedChangesetRowsSize :: "productValue list \<Rightarrow> tableSchema option \<Rightarrow> u32 \<Rightarrow> log_error + nat" where
  "encodedChangesetRowsSize rows ts maxRowBytes =
     bindE (checkedChangesetCount ''row count'' (length rows)) (\<lambda>_. rowsSizeLoop 4 rows ts maxRowBytes)"

text \<open>A table identifier of the sorted list always has its entry: the panic branch is unreachable.\<close>

fun sizeTables :: "changeset option \<Rightarrow> nat \<Rightarrow> tableID list \<Rightarrow> u32 \<Rightarrow> u32 \<Rightarrow> (log_error + nat) option" where
  "sizeTables cs sz [] maxRowBytes maxRecordPayloadBytes = Some (Inr sz)"
| "sizeTables cs sz (tid # tids) maxRowBytes maxRecordPayloadBytes = do {
     tc \<leftarrow> changesetTable cs tid;
     let sz = sz + 4;
     case bindE (encodedChangesetRowsSize (tc_inserts tc) (tc_schema tc) maxRowBytes) (\<lambda>insertSize.
          bindE (encodedChangesetRowsSize (tc_deletes tc) (tc_schema tc) maxRowBytes) (\<lambda>deleteSize.
          let sz = sz + (insertSize + deleteSize) in
          bindE (validateRecordPayloadLen sz maxRecordPayloadBytes) (\<lambda>_. Inr sz))) of
       Inl e \<Rightarrow> Some (Inl e)
     | Inr sz \<Rightarrow> sizeTables cs sz tids maxRowBytes maxRecordPayloadBytes
   }"

definition encodedChangesetSizeWithLimits :: "changeset option \<Rightarrow> u32 \<Rightarrow> u32 \<Rightarrow> (log_error + nat) option" where
  "encodedChangesetSizeWithLimits cs maxRowBytes maxRecordPayloadBytes =
     (let tableIDs = changesetTableIDs cs in
      case checkedChangesetCount ''table count'' (length tableIDs) of
        Inl e \<Rightarrow> Some (Inl e)
      | Inr _ \<Rightarrow> do {
          res \<leftarrow> sizeTables cs (1 + 4) tableIDs maxRowBytes maxRecordPayloadBytes;
          Some (bindE res (\<lambda>sz.
            if sz > 2 ^ 63 - 1 then Inl (ErrTraversal ''max allocation'') else Inr sz))
        })"

fun appendRowLoop :: "bytes \<Rightarrow> productValue list \<Rightarrow> tableSchema option \<Rightarrow> u32 \<Rightarrow> log_error + bytes" where
  "appendRowLoop out [] ts maxRowBytes = Inr out"
| "appendRowLoop out (row # rows) ts maxRowBytes =
     bindE (liftRow (EncodedProductValueSizeForSchema row ts)) (\<lambda>rowLen.
     bindE (validateRowPayloadLen rowLen maxRowBytes) (\<lambda>_.
     let out = appendUint32LE out (of_nat rowLen);
         before = length out
     in bindE (liftRow (AppendProductValueForSchema out row ts)) (\<lambda>out.
        if length out - before \<noteq> rowLen then Inl (ErrRowSizeChanged rowLen (length out - before))
        else appendRowLoop out rows ts maxRowBytes)))"

definition appendChangesetRows :: "bytes \<Rightarrow> productValue list \<Rightarrow> tableSchema option \<Rightarrow> u32 \<Rightarrow> log_error + bytes" where
  "appendChangesetRows out rows ts maxRowBytes =
     bindE (checkedChangesetCount ''row count'' (length rows)) (\<lambda>cnt.
     appendRowLoop (appendUint32LE out cnt) rows ts maxRowBytes)"

definition appendTable :: "bytes \<Rightarrow> tableID \<Rightarrow> tableChangeset \<Rightarrow> u32 \<Rightarrow> u32 \<Rightarrow> log_error + bytes" where
  "appendTable out tid tc maxRowBytes maxRecordPayloadBytes =
     bindE (appendChangesetRows (appendUint32LE out tid) (tc_inserts tc) (tc_schema tc) maxRowBytes) (\<lambda>out.
     bindE (validateRecordPayloadLen (length out) maxRecordPayloadBytes) (\<lambda>_.
     bindE (appendChangesetRows out (tc_deletes tc) (tc_schema tc) maxRowBytes) (\<lambda>out.
     bindE (validateRecordPayloadLen (length out) maxRecordPayloadBytes) (\<lambda>_. Inr out))))"

fun appendTables :: "changeset option \<Rightarrow> bytes \<Rightarrow> tableID list \<Rightarrow> u32 \<Rightarrow> u32 \<Rightarrow> (log_error + bytes) option" where
  "appendTables cs out [] maxRowBytes maxRecordPayloadBytes = Some (Inr out)"
| "appendTables cs out (tid # tids) maxRowBytes maxRecordPayloadBytes = do {
     tc \<leftarrow> changesetTable cs tid;
     case appendTable out tid tc maxRowBytes maxRecordPayloadBytes of
       Inl e \<Rightarrow> Some (Inl e)
     | Inr out \<Rightarrow> appendTables cs out tids maxRowBytes maxRecordPayloadBytes
   }"

definition encodeChangesetWithLimits :: "changeset option \<Rightarrow> u32 \<Rightarrow> u32 \<Rightarrow> (log_error + bytes) option" where
  "encodeChangesetWithLimits cs maxRowBytes maxRecordPayloadBytes = do {
     sz \<leftarrow> encodedChangesetSizeWithLimits cs maxRowBytes maxRecordPayloadBytes;
     case sz of
       Inl e \<Rightarrow> Some (Inl e)
     | Inr _ \<Rightarrow>
         let tableIDs = changesetTableIDs cs in
         case checkedChangesetCount ''table count'' (length tableIDs) of
           Inl e \<Rightarrow> Some (Inl e)
         | Inr tableCount \<Rightarrow>
             appendTables cs (appendUint32LE [changesetVersion] tableCount) tableIDs maxRowBytes maxRecordPayloadBytes
   }"

definition EncodeChangeset :: "changeset option \<Rightarrow> (log_error + bytes) option" where
  "EncodeChangeset cs = encodeChangesetWithLimits cs formatMaxRowBytes formatMaxRecordPayloadBytes"

section \<open>Decoding\<close>

text \<open>The position in the payload is the list of bytes from it on.\<close>

definition requireChangesetCountFitsRemaining :: "string \<Rightarrow> u32 \<Rightarrow> bytes \<Rightarrow> nat \<Rightarrow> log_error + unit" where
  "requireChangesetCountFitsRemaining name cnt r minItemBytes =
     (if unat cnt * minItemBytes > length r then Inl (ErrTraversal name) else Inr ())"

definition decodeRow :: "bytes \<Rightarrow> tableSchema \<Rightarrow> u32 \<Rightarrow> log_error + (productValue \<times> bytes)" where
  "decodeRow r ts maxRowBytes =
     (if length r < 4 then Inl (ErrTraversal ''truncated row length'')
      else
        let rowLen = get_le (take 4 r) :: u32 in
        if maxRowBytes > 0 \<and> rowLen > maxRowBytes then Inl (RowTooLargeError rowLen maxRowBytes)
        else if unat rowLen > length r - 4 then Inl (ErrTraversal ''truncated row data'')
        else bindE (liftRow (DecodeProductValueFromBytes (take (unat rowLen) (drop 4 r)) (Some ts))) (\<lambda>pv.
          Inr (pv, drop (4 + unat rowLen) r)))"

fun decodeRowLoop :: "nat \<Rightarrow> bytes \<Rightarrow> tableSchema \<Rightarrow> u32 \<Rightarrow> log_error + (productValue list \<times> bytes)" where
  "decodeRowLoop 0 r ts maxRowBytes = Inr ([], r)"
| "decodeRowLoop (Suc n) r ts maxRowBytes =
     bindE (decodeRow r ts maxRowBytes) (\<lambda>(row, r).
     bindE (decodeRowLoop n r ts maxRowBytes) (\<lambda>(rows, r). Inr (row # rows, r)))"

definition readCount :: "bytes \<Rightarrow> log_error + (u32 \<times> bytes)" where
  "readCount r =
     (if length r < 4 then Inl (ErrTraversal ''truncated changeset'') else Inr (get_le (take 4 r), drop 4 r))"

definition decodeRows :: "string \<Rightarrow> bytes \<Rightarrow> tableSchema \<Rightarrow> u32 \<Rightarrow> log_error + (productValue list \<times> bytes)" where
  "decodeRows name r ts maxRowBytes =
     bindE (readCount r) (\<lambda>(cnt, r).
     bindE (requireChangesetCountFitsRemaining name cnt r changesetUint32Bytes) (\<lambda>_.
     map_sum (ErrTraversalRow name) id (decodeRowLoop (unat cnt) r ts maxRowBytes)))"

fun decodeTables ::
  "nat \<Rightarrow> bytes \<Rightarrow> registry \<Rightarrow> u32 \<Rightarrow> (tableID \<times> tableChangeset option) list \<Rightarrow>
     log_error + ((tableID \<times> tableChangeset option) list \<times> bytes)" where
  "decodeTables 0 r reg maxRowBytes tables = Inr (tables, r)"
| "decodeTables (Suc n) r reg maxRowBytes tables =
     bindE (readCount r) (\<lambda>(tid, r).
     if map_of tables tid \<noteq> None then Inl (ErrTraversal ''duplicate table ID'')
     else case reg tid of
       None \<Rightarrow> Inl (ErrTraversal ''unknown table ID'')
     | Some ts \<Rightarrow>
         bindE (decodeRows ''insert'' r ts maxRowBytes) (\<lambda>(inserts, r).
         bindE (decodeRows ''delete'' r ts maxRowBytes) (\<lambda>(deletes, r).
         decodeTables n r reg maxRowBytes
           (AList.update tid (Some \<lparr>tc_tableID = tid, tc_tableName = ts_name ts, tc_schema = Some ts,
                                   tc_inserts = inserts, tc_deletes = deletes\<rparr>) tables))))"

definition decodeChangesetWithMax :: "bytes \<Rightarrow> registry \<Rightarrow> u32 \<Rightarrow> log_error + changeset" where
  "decodeChangesetWithMax data reg maxRowBytes =
     (if length data < 5 then Inl (ErrTraversal ''changeset too short'')
      else if data ! 0 \<noteq> changesetVersion then Inl (ErrTraversal ''unsupported changeset version'')
      else
        let tableCount = get_le (take 4 (drop 1 data)) :: u32;
            r = drop 5 data
        in bindE (requireChangesetCountFitsRemaining ''table count'' tableCount r changesetUint32Bytes) (\<lambda>_.
           bindE (decodeTables (unat tableCount) r reg maxRowBytes []) (\<lambda>(tables, r).
           if r \<noteq> [] then Inl (ErrTraversal ''trailing changeset bytes'')
           else Inr \<lparr>ch_txID = 0, ch_tables = tables\<rparr>)))"

definition DecodeChangeset :: "bytes \<Rightarrow> registry \<Rightarrow> log_error + changeset" where
  "DecodeChangeset data reg = decodeChangesetWithMax data reg formatMaxRowBytes"

section \<open>Rows\<close>

definition rowFrame :: "tableSchema \<Rightarrow> productValue \<Rightarrow> bytes" where
  "rowFrame ts row =
     put_le 4 (of_nat (length (rowBytes (ts_columns ts) row)) :: u32) @ rowBytes (ts_columns ts) row"

definition rowsFrame :: "tableSchema \<Rightarrow> productValue list \<Rightarrow> bytes" where
  "rowsFrame ts rows = put_le 4 (of_nat (length rows) :: u32) @ concat (map (rowFrame ts) rows)"

definition within :: "u32 \<Rightarrow> nat \<Rightarrow> bool" where
  "within limit n \<longleftrightarrow> n < 2 ^ 32 \<and> (limit = 0 \<or> n \<le> unat limit)"

definition row_fits :: "tableSchema \<Rightarrow> u32 \<Rightarrow> productValue \<Rightarrow> bool" where
  "row_fits ts m row \<longleftrightarrow>
     list_all wf_value row \<and> list_all2 column_ok (ts_columns ts) row \<and> within m (length (rowBytes (ts_columns ts) row))"

definition rows_fit :: "tableSchema \<Rightarrow> u32 \<Rightarrow> productValue list \<Rightarrow> bool" where
  "rows_fit ts m rows \<longleftrightarrow> length rows < 2 ^ 32 \<and> list_all (row_fits ts m) rows"

lemma validateRow_iff: "validateRowPayloadLen n m = Inr u \<longleftrightarrow> within m n"
  by (auto simp: validateRowPayloadLen_def within_def word_gt_0)

lemma validateRecord_iff: "validateRecordPayloadLen n m = Inr u \<longleftrightarrow> within m n"
  by (auto simp: validateRecordPayloadLen_def within_def word_gt_0)

lemma checkedCount_iff: "checkedChangesetCount l n = Inr c \<longleftrightarrow> n < 2 ^ 32 \<and> c = of_nat n"
  by (auto simp: checkedChangesetCount_def)

lemma liftRow_eq [result_simps]: "liftRow m = Inr x \<longleftrightarrow> m = Inr x"
  by (cases m) (simp_all add: liftRow_def)

lemma liftRow_Inr [simp]: "liftRow (Inr x) = Inr x"
  by (simp add: liftRow_def)

lemma size_of_row:
  assumes "list_all wf_value row" "list_all2 column_ok (ts_columns ts) row"
  shows "EncodedProductValueSizeForSchema row (Some ts) = Inr (length (rowBytes (ts_columns ts) row))"
  using sizeColumns_rowBytes [OF assms(2,1), of 0] list_all2_lengthD [OF assms(2)]
  by (simp add: EncodedProductValueSizeForSchema_def EncodedProductValueSizeForColumns_def)

lemma append_row_iff:
  "AppendProductValueForSchema out row (Some ts) = Inr out' \<longleftrightarrow>
     list_all2 column_ok (ts_columns ts) row \<and> out' = out @ rowBytes (ts_columns ts) row"
  by (simp add: AppendProductValueForSchema_def AppendProductValueForColumns_iff)

lemma length_rowFrame: "length (rowFrame ts row) = 4 + length (rowBytes (ts_columns ts) row)"
  by (simp add: rowFrame_def)

lemma rowsSizeLoop_eq:
  "list_all (row_fits ts m) rows \<Longrightarrow>
   rowsSizeLoop n rows (Some ts) m = Inr (n + length (concat (map (rowFrame ts) rows)))"
proof (induction rows arbitrary: n)
  case (Cons row rows)
  then have "validateRowPayloadLen (length (rowBytes (ts_columns ts) row)) m = Inr ()"
    by (simp add: validateRow_iff row_fits_def)
  with Cons show ?case by (simp add: size_of_row row_fits_def length_rowFrame)
qed simp

lemma appendRowLoop_eq:
  "list_all (row_fits ts m) rows \<Longrightarrow>
   appendRowLoop out rows (Some ts) m = Inr (out @ concat (map (rowFrame ts) rows))"
proof (induction rows arbitrary: out)
  case (Cons row rows)
  let ?b = "rowBytes (ts_columns ts) row" and ?out = "appendUint32LE out (of_nat (length (rowBytes (ts_columns ts) row)))"
  have ok: "list_all wf_value row" "list_all2 column_ok (ts_columns ts) row" "within m (length ?b)"
    using Cons.prems by (simp_all add: row_fits_def)
  have "validateRowPayloadLen (length ?b) m = Inr ()"
    and "AppendProductValueForSchema ?out row (Some ts) = Inr (?out @ ?b)"
    using ok by (simp_all add: validateRow_iff append_row_iff)
  with size_of_row [OF ok(1,2)] Cons show ?case
    by (simp add: rowFrame_def appendUint32LE_def Let_def)
qed simp

lemma appendRowLoop_fits:
  "appendRowLoop out rows (Some ts) m = Inr out' \<Longrightarrow> list_all (list_all wf_value) rows \<Longrightarrow> list_all (row_fits ts m) rows"
proof (induction rows arbitrary: out)
  case (Cons row rows)
  then obtain n out1 where n: "EncodedProductValueSizeForSchema row (Some ts) = Inr n" "within m n"
    "AppendProductValueForSchema (appendUint32LE out (of_nat n)) row (Some ts) = Inr out1"
    "appendRowLoop out1 rows (Some ts) m = Inr out'"
    by (auto simp: result_simps validateRow_iff Let_def split: if_splits)
  then have "list_all2 column_ok (ts_columns ts) row" by (simp add: append_row_iff)
  with n size_of_row [of row ts] Cons show ?case by (simp add: row_fits_def)
qed simp

lemma appendChangesetRows_iff:
  assumes "list_all (list_all wf_value) rows"
  shows "appendChangesetRows out rows (Some ts) m = Inr out' \<longleftrightarrow> rows_fit ts m rows \<and> out' = out @ rowsFrame ts rows"
proof
  assume a: "appendChangesetRows out rows (Some ts) m = Inr out'"
  then have "length rows < 2 ^ 32"
    and l: "appendRowLoop (appendUint32LE out (of_nat (length rows))) rows (Some ts) m = Inr out'"
    by (auto simp: appendChangesetRows_def result_simps checkedCount_iff)
  then show "rows_fit ts m rows \<and> out' = out @ rowsFrame ts rows"
    using appendRowLoop_fits [OF l assms] appendRowLoop_eq [of ts m rows "appendUint32LE out (of_nat (length rows))"]
    by (simp add: rows_fit_def rowsFrame_def appendUint32LE_def)
next
  assume "rows_fit ts m rows \<and> out' = out @ rowsFrame ts rows"
  then show "appendChangesetRows out rows (Some ts) m = Inr out'"
    using checkedCount_iff [of "''row count''" "length rows" "of_nat (length rows)"]
    by (simp add: appendChangesetRows_def rows_fit_def appendRowLoop_eq rowsFrame_def appendUint32LE_def)
qed

lemma encodedRowsSize_eq:
  "rows_fit ts m rows \<Longrightarrow> encodedChangesetRowsSize rows (Some ts) m = Inr (length (rowsFrame ts rows))"
  using checkedCount_iff [of "''row count''" "length rows" "of_nat (length rows)"]
  by (simp add: encodedChangesetRowsSize_def rows_fit_def rowsSizeLoop_eq rowsFrame_def)

definition looser :: "u32 \<Rightarrow> u32 \<Rightarrow> bool" where
  "looser m m' \<longleftrightarrow> m' = 0 \<or> (m \<noteq> 0 \<and> m \<le> m')"

lemma within_looser: "within m n \<Longrightarrow> looser m m' \<Longrightarrow> within m' n"
  by (auto simp: within_def looser_def word_le_nat_alt)

lemma decodeRow_frame:
  assumes "row_fits ts m row"
  shows "decodeRow (rowFrame ts row @ r) ts m = Inr (row, r)"
proof -
  let ?b = "rowBytes (ts_columns ts) row"
  have ok: "list_all wf_value row" "list_all2 column_ok (ts_columns ts) row" "within m (length ?b)"
    using assms by (simp_all add: row_fits_def)
  have "decodeProductValueColumns ts ?b = Inr (row, [])"
    using decodeColumns_rowBytes [OF ok(2,1), of ts 0 "[]"] by (simp add: decodeProductValueColumns_def)
  then have d: "DecodeProductValueFromBytes ?b (Some ts) = Inr row"
    by (simp add: DecodeProductValueFromBytes_def)
  have n: "unat (of_nat (length ?b) :: u32) = length ?b" using ok(3) by (simp add: within_def u32_length)
  then have "\<not> (m > 0 \<and> (of_nat (length ?b) :: u32) > m)"
    using ok(3) by (auto simp: within_def word_less_nat_alt)
  then show ?thesis
    using n d by (simp add: decodeRow_def rowFrame_def Let_def get_le_put_le)
qed

lemma decodeRowLoop_frames:
  "list_all (row_fits ts m) rows \<Longrightarrow>
   decodeRowLoop (length rows) (concat (map (rowFrame ts) rows) @ r) ts m = Inr (rows, r)"
  by (induction rows) (simp_all add: decodeRow_frame)

lemma rowFrames_length: "4 * length rows \<le> length (concat (map (rowFrame ts) rows))"
  by (induction rows) (simp_all add: length_rowFrame)

lemma readCount_append [simp]: "readCount (put_le 4 (n :: u32) @ r) = Inr (n, r)"
  by (simp add: readCount_def get_le_put_le)

lemma decodeRows_frame:
  assumes "rows_fit ts m rows"
  shows "decodeRows name (rowsFrame ts rows @ r) ts m = Inr (rows, r)"
proof -
  have n: "unat (of_nat (length rows) :: u32) = length rows"
    using assms by (simp add: rows_fit_def u32_length)
  then have "requireChangesetCountFitsRemaining name (of_nat (length rows))
      (concat (map (rowFrame ts) rows) @ r) changesetUint32Bytes = Inr ()"
    using rowFrames_length [of rows ts]
    by (simp add: requireChangesetCountFitsRemaining_def changesetUint32Bytes_def)
  with n assms show ?thesis
    by (simp add: decodeRows_def rowsFrame_def rows_fit_def decodeRowLoop_frames)
qed

section \<open>Tables\<close>

definition tableFrame :: "tableID \<Rightarrow> tableChangeset \<Rightarrow> bytes" where
  "tableFrame tid tc =
     put_le 4 tid @ rowsFrame (the (tc_schema tc)) (tc_inserts tc) @ rowsFrame (the (tc_schema tc)) (tc_deletes tc)"

definition table_fits :: "u32 \<Rightarrow> tableChangeset \<Rightarrow> bool" where
  "table_fits m tc \<longleftrightarrow>
     tc_schema tc \<noteq> None \<and> rows_fit (the (tc_schema tc)) m (tc_inserts tc) \<and> rows_fit (the (tc_schema tc)) m (tc_deletes tc)"

definition values_wf :: "tableChangeset \<Rightarrow> bool" where
  "values_wf tc \<longleftrightarrow> tc_schema tc \<noteq> None \<and>
     list_all (list_all wf_value) (tc_inserts tc) \<and> list_all (list_all wf_value) (tc_deletes tc)"

definition registered :: "registry \<Rightarrow> tableID \<Rightarrow> tableChangeset \<Rightarrow> bool" where
  "registered reg tid tc \<longleftrightarrow>
     reg tid = tc_schema tc \<and> tc_schema tc \<noteq> None \<and> tc_tableID tc = tid \<and> tc_tableName tc = ts_name (the (tc_schema tc))"

lemma appendTable_iff:
  assumes "values_wf tc"
  shows "appendTable out tid tc m M = Inr out' \<longleftrightarrow>
     table_fits m tc \<and> out' = out @ tableFrame tid tc \<and> within M (length out')"
proof -
  obtain ts where ts: "tc_schema tc = Some ts" using assms by (auto simp: values_wf_def)
  have "list_all (list_all wf_value) (tc_inserts tc)" "list_all (list_all wf_value) (tc_deletes tc)"
    using assms by (simp_all add: values_wf_def)
  note iff = this [THEN appendChangesetRows_iff]
  have mono: "within M (length (out @ x @ y)) \<Longrightarrow> within M (length (out @ x))" for x y :: bytes
    by (auto simp: within_def)
  show ?thesis
    using mono [of "put_le 4 tid @ rowsFrame ts (tc_inserts tc)" "rowsFrame ts (tc_deletes tc)"]
    by (auto simp: appendTable_def ts iff result_simps validateRecord_iff table_fits_def tableFrame_def
        appendUint32LE_def add.assoc)
qed

definition tcOf :: "changeset option \<Rightarrow> tableID \<Rightarrow> tableChangeset" where
  "tcOf cs tid = the (changesetTable cs tid)"

abbreviation tableFrames :: "changeset option \<Rightarrow> tableID list \<Rightarrow> bytes" where
  "tableFrames cs tids \<equiv> concat (map (\<lambda>tid. tableFrame tid (tcOf cs tid)) tids)"

lemma length_tableFrame_ge: "12 \<le> length (tableFrame tid tc)"
  by (simp add: tableFrame_def rowsFrame_def)

lemma tableFrames_length: "12 * length tids \<le> length (tableFrames cs tids)"
proof (induction tids)
  case (Cons tid tids)
  then show ?case using length_tableFrame_ge [of tid "tcOf cs tid"] by simp
qed simp

lemma appendTables_iff:
  "\<forall>tid \<in> set tids. \<exists>tc. changesetTable cs tid = Some tc \<and> values_wf tc \<Longrightarrow>
   appendTables cs out tids m M = Some (Inr out') \<longleftrightarrow>
     (\<forall>tid \<in> set tids. table_fits m (tcOf cs tid)) \<and> out' = out @ tableFrames cs tids \<and>
     (tids = [] \<or> within M (length out'))"
proof (induction tids arbitrary: out)
  case Nil
  then show ?case by auto
next
  case (Cons tid tids)
  then obtain tc where tc: "changesetTable cs tid = Some tc" "values_wf tc" by auto
  have of_tc: "tcOf cs tid = tc" by (simp add: tcOf_def tc)
  have mono: "within M (length (out @ x @ y)) \<Longrightarrow> within M (length (out @ x))" for x y :: bytes
    by (auto simp: within_def)
  show ?case
  proof (cases "appendTable out tid tc m M")
    case (Inl e)
    then have "\<not> (table_fits m tc \<and> within M (length (out @ tableFrame tid tc)))"
      using appendTable_iff [OF tc(2), of out tid m M "out @ tableFrame tid tc"] by simp
    with Inl show ?thesis
      using mono [of "tableFrame tid tc" "tableFrames cs tids"] by (auto simp: tc of_tc)
  next
    case (Inr out1)
    then have o: "table_fits m tc" "out1 = out @ tableFrame tid tc" "within M (length out1)"
      unfolding appendTable_iff [OF tc(2)] by blast+
    with Inr Cons.IH [of out1] Cons.prems(1) show ?thesis by (cases "tids = []") (auto simp: tc of_tc)
  qed
qed

lemma sizeTables_eq:
  "\<forall>tid \<in> set tids. changesetTable cs tid = Some (tcOf cs tid) \<and> table_fits m (tcOf cs tid) \<Longrightarrow>
   tids = [] \<or> within M (n + length (tableFrames cs tids)) \<Longrightarrow>
   sizeTables cs n tids m M = Some (Inr (n + length (tableFrames cs tids)))"
proof (induction tids arbitrary: n)
  case (Cons tid tids)
  let ?tc = "tcOf cs tid"
  obtain ts where ts: "tc_schema ?tc = Some ts" "rows_fit ts m (tc_inserts ?tc)" "rows_fit ts m (tc_deletes ?tc)"
    using Cons.prems(1) by (auto simp: table_fits_def)
  have len: "length (tableFrame tid ?tc) = 4 + (length (rowsFrame ts (tc_inserts ?tc)) + length (rowsFrame ts (tc_deletes ?tc)))"
    by (simp add: tableFrame_def ts)
  have "within M (n + length (tableFrame tid ?tc))" using Cons.prems(2) by (auto simp: within_def)
  then have "validateRecordPayloadLen (n + length (tableFrame tid ?tc)) M = Inr ()" by (simp add: validateRecord_iff)
  then have "sizeTables cs n (tid # tids) m M = sizeTables cs (n + length (tableFrame tid ?tc)) tids m M"
    using Cons.prems(1) ts by (simp add: encodedRowsSize_eq Let_def len add.assoc)
  with Cons.IH [of "n + length (tableFrame tid ?tc)"] Cons.prems show ?case by (simp add: add.assoc)
qed simp

lemma update_new: "k \<notin> fst ` set al \<Longrightarrow> AList.update k v al = al @ [(k, v)]"
  by (induction al) auto

lemma decodeTables_frames:
  "\<forall>tid \<in> set tids. table_fits m (tcOf cs tid) \<and> registered reg tid (tcOf cs tid) \<Longrightarrow>
   distinct tids \<Longrightarrow> fst ` set tables \<inter> set tids = {} \<Longrightarrow>
   decodeTables (length tids) (tableFrames cs tids @ r) reg m tables =
     Inr (tables @ map (\<lambda>tid. (tid, Some (tcOf cs tid))) tids, r)"
proof (induction tids arbitrary: tables)
  case (Cons tid tids)
  let ?tc = "tcOf cs tid"
  obtain ts where ts: "tc_schema ?tc = Some ts" "reg tid = Some ts" "tc_tableID ?tc = tid" "tc_tableName ?tc = ts_name ts"
    using Cons.prems(1) by (auto simp: registered_def)
  have fit: "rows_fit ts m (tc_inserts ?tc)" "rows_fit ts m (tc_deletes ?tc)"
    using Cons.prems(1) ts(1) by (auto simp: table_fits_def)
  have tc: "\<lparr>tc_tableID = tid, tc_tableName = ts_name ts, tc_schema = Some ts,
      tc_inserts = tc_inserts ?tc, tc_deletes = tc_deletes ?tc\<rparr> = ?tc"
    using ts by simp
  have new: "tid \<notin> fst ` set tables" using Cons.prems(3) by auto
  then have "map_of tables tid = None" by (simp add: map_of_eq_None_iff)
  moreover have "fst ` set (tables @ [(tid, Some ?tc)]) \<inter> set tids = {}" "distinct tids"
    using Cons.prems(2,3) by auto
  note Cons.IH [OF _ this(2,1)]
  ultimately show ?case
    using Cons.prems(1) fit ts(2) new
    by (simp add: tableFrame_def ts(1) decodeRows_frame tc update_new)
qed simp

section \<open>Changesets\<close>

definition log_ready :: "registry \<Rightarrow> changeset \<Rightarrow> bool" where
  "log_ready reg ch \<longleftrightarrow> distinct (map fst (ch_tables ch)) \<and>
     (\<forall>tid tc. (tid, Some tc) \<in> set (ch_tables ch) \<longrightarrow> registered reg tid tc \<and> values_wf tc)"

definition changesetBytes :: "changeset option \<Rightarrow> bytes" where
  "changesetBytes cs = changesetVersion # put_le 4 (of_nat (length (changesetTableIDs cs)) :: u32) @
     tableFrames cs (changesetTableIDs cs)"

lemma changesetTableIDs_set:
  "tid \<in> set (changesetTableIDs (Some ch)) \<longleftrightarrow> (\<exists>tc. (tid, Some tc) \<in> set (ch_tables ch))"
  by (force simp: changesetTableIDs_def)

lemma changesetTableIDs_sorted: "sorted (changesetTableIDs (Some ch))"
  by (simp add: changesetTableIDs_def)

lemma changesetTableIDs_distinct: "distinct (map fst (ch_tables ch)) \<Longrightarrow> distinct (changesetTableIDs (Some ch))"
  by (simp add: changesetTableIDs_def distinct_map_filter)

lemma changesetTable_entry:
  "distinct (map fst (ch_tables ch)) \<Longrightarrow> (tid, Some tc) \<in> set (ch_tables ch) \<Longrightarrow>
   changesetTable (Some ch) tid = Some tc \<and> tcOf (Some ch) tid = tc"
  by (simp add: changesetTable_def tcOf_def)

lemma log_ready_entry:
  assumes "log_ready reg ch" "tid \<in> set (changesetTableIDs (Some ch))"
  shows "changesetTable (Some ch) tid = Some (tcOf (Some ch) tid)"
    and "registered reg tid (tcOf (Some ch) tid)" and "values_wf (tcOf (Some ch) tid)"
  using assms changesetTable_entry [of ch tid] by (auto simp: log_ready_def changesetTableIDs_set)

lemma encodeChangeset_iff:
  assumes ready: "log_ready reg ch"
  shows "encodeChangesetWithLimits (Some ch) m M = Some (Inr bs) \<longleftrightarrow>
     (\<exists>n. encodedChangesetSizeWithLimits (Some ch) m M = Some (Inr n)) \<and> length (changesetTableIDs (Some ch)) < 2 ^ 32 \<and>
     (\<forall>tid \<in> set (changesetTableIDs (Some ch)). table_fits m (tcOf (Some ch) tid)) \<and>
     bs = changesetBytes (Some ch) \<and> (changesetTableIDs (Some ch) = [] \<or> within M (length bs))"
proof -
  let ?ids = "changesetTableIDs (Some ch)"
  have e: "\<forall>tid \<in> set ?ids. \<exists>tc. changesetTable (Some ch) tid = Some tc \<and> values_wf tc"
    using log_ready_entry [OF ready] by blast
  show ?thesis
  proof (cases "\<exists>n. encodedChangesetSizeWithLimits (Some ch) m M = Some (Inr n)")
    case False
    then have "encodeChangesetWithLimits (Some ch) m M \<noteq> Some (Inr bs)"
      by (auto simp: encodeChangesetWithLimits_def result_simps split: sum.splits)
    with False show ?thesis by blast
  next
    case True
    show ?thesis
    proof (cases "length ?ids < 2 ^ 32")
      case small: True
      have "checkedChangesetCount ''table count'' (length ?ids) = Inr (of_nat (length ?ids))"
        using small by (simp add: checkedCount_iff)
      then have "encodeChangesetWithLimits (Some ch) m M =
          appendTables (Some ch) (appendUint32LE [changesetVersion] (of_nat (length ?ids))) ?ids m M"
        using True by (auto simp: encodeChangesetWithLimits_def Let_def)
      with appendTables_iff [OF e, of "appendUint32LE [changesetVersion] (of_nat (length ?ids))" m M bs] True small
      show ?thesis by (simp add: changesetBytes_def appendUint32LE_def) 
    next
      case big: False
      then have "\<exists>x. checkedChangesetCount ''table count'' (length ?ids) = Inl x"
        by (simp add: checkedChangesetCount_def)
      with True big show ?thesis by (auto simp: encodeChangesetWithLimits_def Let_def)
    qed
  qed
qed

lemma encodedSize_eq:
  assumes ready: "log_ready reg ch" and c: "length (changesetTableIDs (Some ch)) < 2 ^ 32"
    and f: "\<forall>tid \<in> set (changesetTableIDs (Some ch)). table_fits m (tcOf (Some ch) tid)"
    and w: "changesetTableIDs (Some ch) = [] \<or> within M (length (changesetBytes (Some ch)))"
  shows "encodedChangesetSizeWithLimits (Some ch) m M = Some (Inr (length (changesetBytes (Some ch))))"
proof -
  let ?ids = "changesetTableIDs (Some ch)"
  have len: "length (changesetBytes (Some ch)) = 5 + length (tableFrames (Some ch) ?ids)"
    by (simp add: changesetBytes_def)
  have "length (changesetBytes (Some ch)) < 2 ^ 32"
    using w len by (auto simp: within_def)
  moreover have "sizeTables (Some ch) 5 ?ids m M = Some (Inr (length (changesetBytes (Some ch))))"
    unfolding len
  proof (rule sizeTables_eq)
    show "\<forall>tid \<in> set ?ids. changesetTable (Some ch) tid = Some (tcOf (Some ch) tid) \<and> table_fits m (tcOf (Some ch) tid)"
      using f log_ready_entry(1) [OF ready] by blast
    show "?ids = [] \<or> within M (5 + length (tableFrames (Some ch) ?ids))" using w len by simp
  qed
  ultimately show ?thesis
    using checkedCount_iff [of "''table count''" "length ?ids" "of_nat (length ?ids)"] c
    by (simp add: encodedChangesetSizeWithLimits_def Let_def)
qed

lemma row_fits_looser: "row_fits ts m row \<Longrightarrow> looser m m' \<Longrightarrow> row_fits ts m' row"
  by (auto simp: row_fits_def within_looser)

lemma table_fits_looser: "table_fits m tc \<Longrightarrow> looser m m' \<Longrightarrow> table_fits m' tc"
  by (auto simp: table_fits_def rows_fit_def list_all_iff row_fits_looser)

lemma decodeChangeset_bytes:
  assumes ready: "log_ready reg ch" and c: "length (changesetTableIDs (Some ch)) < 2 ^ 32"
    and f: "\<forall>tid \<in> set (changesetTableIDs (Some ch)). table_fits m (tcOf (Some ch) tid)"
  shows "decodeChangesetWithMax (changesetBytes (Some ch)) reg m =
     Inr \<lparr>ch_txID = 0, ch_tables = map (\<lambda>tid. (tid, Some (tcOf (Some ch) tid))) (changesetTableIDs (Some ch))\<rparr>"
proof -
  let ?ids = "changesetTableIDs (Some ch)"
  have n: "unat (of_nat (length ?ids) :: u32) = length ?ids" using c by (rule u32_length)
  have "requireChangesetCountFitsRemaining ''table count'' (of_nat (length ?ids)) (tableFrames (Some ch) ?ids)
      changesetUint32Bytes = Inr ()"
    using tableFrames_length [of ?ids "Some ch"] n
    by (simp add: requireChangesetCountFitsRemaining_def changesetUint32Bytes_def)
  moreover have "decodeTables (length ?ids) (tableFrames (Some ch) ?ids @ []) reg m [] =
      Inr ([] @ map (\<lambda>tid. (tid, Some (tcOf (Some ch) tid))) ?ids, [])"
  proof (rule decodeTables_frames)
    show "\<forall>tid \<in> set ?ids. table_fits m (tcOf (Some ch) tid) \<and> registered reg tid (tcOf (Some ch) tid)"
      using f log_ready_entry(2) [OF ready] by blast
    show "distinct ?ids" using ready by (simp add: log_ready_def changesetTableIDs_distinct)
  qed simp
  ultimately show ?thesis
    using n by (simp add: decodeChangesetWithMax_def changesetBytes_def Let_def get_le_put_le)
qed

section \<open>Validation before commit\<close>

text \<open>The arrays of a row within the item limit of the value codec.\<close>

definition arrays_small :: "productValue \<Rightarrow> bool" where
  "arrays_small row \<longleftrightarrow>
     (\<forall>v \<in> set row. v_kind v = KindArrayString \<longrightarrow> length (v_strArr v) \<le> maxArrayStringItems)"

lemma value_encodable:
  assumes "value_fits c v" "\<not> v_isNull v" "EncodedValueSize v \<le> maxValuePayloadBytes"
    "v_kind v = KindArrayString \<longrightarrow> length (v_strArr v) \<le> maxArrayStringItems"
  shows "encodable v"
  using assms
  by (cases "v_kind v")
    (auto simp: encodable_def value_fits_def column_accepts_def EncodedValueSize_def foldl_stringsSize
      ValidateUTF8StringArray_ok ValidateUTF8String_def split: if_splits)

lemma sizeColumns_mono: "sizeColumns n pv cols = Inr k \<Longrightarrow> n \<le> k"
  by (induction n pv cols rule: sizeColumns.induct) (auto split: if_splits)

lemma sizeColumns_fits:
  "list_all2 value_fits cols pv \<Longrightarrow> sizeColumns n pv cols = Inr k \<Longrightarrow> k \<le> maxValuePayloadBytes \<Longrightarrow>
   arrays_small pv \<Longrightarrow> list_all2 column_ok cols pv"
proof (induction cols pv arbitrary: n rule: list_all2_induct)
  case (Cons col cols v pv)
  have kind: "v_kind v = c_type col" and null: "v_isNull v \<Longrightarrow> c_nullable col"
    using Cons.hyps by (auto simp: value_fits_def column_accepts_def split: if_splits)
  obtain n' where n': "sizeColumns n' pv cols = Inr k" "\<not> v_isNull v \<Longrightarrow> EncodedValueSize v \<le> n'"
    using Cons.prems(1) kind by (auto split: if_splits)
  have "EncodedValueSize v \<le> maxValuePayloadBytes" if "\<not> v_isNull v"
    using n'(2) [OF that] sizeColumns_mono [OF n'(1)] Cons.prems(2) by simp
  then have "column_ok col v"
    using value_encodable [OF Cons.hyps(1)] Cons.prems(3) kind null
    by (auto simp: column_ok_def arrays_small_def)
  with Cons.IH [OF n'(1) Cons.prems(2)] Cons.prems(3) show ?case by (simp add: arrays_small_def)
qed simp

definition row_limit :: "u32 \<Rightarrow> bool" where
  "row_limit m \<longleftrightarrow> m \<noteq> 0 \<and> m \<le> formatMaxRowBytes"

lemma row_limit_max: "row_limit m \<Longrightarrow> within m n \<Longrightarrow> n \<le> maxValuePayloadBytes"
  by (auto simp: row_limit_def within_def word_le_nat_alt formatMaxRowBytes_def maxValuePayloadBytes_def)

lemma row_fits_size:
  assumes "row_wf ts row" "arrays_small row" "row_limit m"
    "EncodedProductValueSizeForSchema row (Some ts) = Inr k" "within m k"
  shows "row_fits ts m row"
proof -
  have wf: "list_all wf_value row"
    using assms(1) by (auto simp: row_wf_def list_all2_conv_all_nth list_all_length value_fits_def)
  have "sizeColumns 0 row (ts_columns ts) = Inr k"
    using assms(4) by (simp add: EncodedProductValueSizeForSchema_def EncodedProductValueSizeForColumns_def split: if_splits)
  then have ok: "list_all2 column_ok (ts_columns ts) row"
    using sizeColumns_fits assms(1,2) row_limit_max [OF assms(3,5)] by (simp add: row_wf_def)
  with wf size_of_row [OF wf ok] assms(4,5) show ?thesis by (simp add: row_fits_def)
qed

definition storable :: "tableSchema \<Rightarrow> productValue list \<Rightarrow> bool" where
  "storable ts rows \<longleftrightarrow> (\<forall>row \<in> set rows. row_wf ts row \<and> arrays_small row)"

lemma encodedRowsSize_fits:
  assumes "storable ts rows" "row_limit m" "encodedChangesetRowsSize rows (Some ts) m = Inr n"
  shows "rows_fit ts m rows"
proof -
  have "list_all (row_fits ts m) rows" if "rowsSizeLoop k rows (Some ts) m = Inr n" for k
    using that assms(1)
  proof (induction rows arbitrary: k)
    case (Cons row rows)
    then obtain l where "EncodedProductValueSizeForSchema row (Some ts) = Inr l" "within m l"
      "rowsSizeLoop (k + (4 + l)) rows (Some ts) m = Inr n"
      by (auto simp: result_simps validateRow_iff)
    with Cons row_fits_size [OF _ _ assms(2)] show ?case by (auto simp: storable_def)
  qed simp
  with assms(3) show ?thesis
    by (auto simp: encodedChangesetRowsSize_def rows_fit_def result_simps checkedCount_iff)
qed

lemma sizeTables_fits:
  assumes "row_limit m" "\<forall>tid \<in> set tids. changesetTable cs tid = Some (tcOf cs tid) \<and>
      (\<exists>ts. tc_schema (tcOf cs tid) = Some ts \<and> storable ts (tc_inserts (tcOf cs tid)) \<and> storable ts (tc_deletes (tcOf cs tid)))"
    "sizeTables cs n tids m M = Some (Inr k)"
  shows "(\<forall>tid \<in> set tids. table_fits m (tcOf cs tid)) \<and> k = n + length (tableFrames cs tids) \<and> (tids = [] \<or> within M k)"
  using assms(2,3)
proof (induction tids arbitrary: n)
  case (Cons tid tids)
  let ?tc = "tcOf cs tid"
  obtain ts where ts: "changesetTable cs tid = Some ?tc" "tc_schema ?tc = Some ts"
    "storable ts (tc_inserts ?tc)" "storable ts (tc_deletes ?tc)"
    using Cons.prems(1) by auto
  obtain i d where i: "encodedChangesetRowsSize (tc_inserts ?tc) (Some ts) m = Inr i"
    and d: "encodedChangesetRowsSize (tc_deletes ?tc) (Some ts) m = Inr d"
    and w: "within M (n + 4 + (i + d))" and rest: "sizeTables cs (n + 4 + (i + d)) tids m M = Some (Inr k)"
    using Cons.prems(2) ts(1,2)
    by (auto simp: Let_def result_simps validateRecord_iff split: sum.splits)
  have fit: "rows_fit ts m (tc_inserts ?tc)" "rows_fit ts m (tc_deletes ?tc)"
    using encodedRowsSize_fits [OF ts(3) assms(1) i] encodedRowsSize_fits [OF ts(4) assms(1) d] by simp_all
  have "i = length (rowsFrame ts (tc_inserts ?tc))" "d = length (rowsFrame ts (tc_deletes ?tc))"
    using i d encodedRowsSize_eq [OF fit(1)] encodedRowsSize_eq [OF fit(2)] by simp_all
  then have "n + 4 + (i + d) = n + length (tableFrame tid ?tc)" by (simp add: tableFrame_def ts)
  with Cons.IH [OF _ rest] Cons.prems(1) w fit ts(2) rest show ?case
    by (auto simp: table_fits_def)
qed simp

section \<open>Properties of the changeset codec\<close>

lemma map_of_graph: "map_of (map (\<lambda>x. (x, f x)) xs) k = (if k \<in> set xs then Some (f k) else None)"
  by (induction xs) auto

lemma decoded_TableChanges:
  assumes "log_ready reg ch"
  shows "TableChanges (Some \<lparr>ch_txID = n, ch_tables = map (\<lambda>tid. (tid, Some (tcOf (Some ch) tid))) (changesetTableIDs (Some ch))\<rparr>) tid
     = TableChanges (Some ch) tid"
proof (cases "tid \<in> set (changesetTableIDs (Some ch))")
  case True
  then show ?thesis
    using log_ready_entry(1) [OF assms True]
    by (cases "map_of (ch_tables ch) tid") (auto simp: TableChanges_def map_of_graph changesetTable_def)
next
  case False
  then have "\<nexists>tc. map_of (ch_tables ch) tid = Some (Some tc)"
    by (auto simp: changesetTableIDs_set dest: map_of_SomeD)
  with False show ?thesis by (auto simp: TableChanges_def map_of_graph split: option.splits)
qed

text \<open> C16. The changeset codec round trip: a changeset over registered tables that the encoder
  accepts is written in exactly the number of bytes computed beforehand, and every decoder
  with a row limit at least as large reads the same changes back for every table, in the order
  of the table identifiers. \<close>

theorem changeset_roundtrip:
  assumes "log_ready reg ch" and "encodeChangesetWithLimits (Some ch) m M = Some (Inr bs)"
    and "m' = 0 \<or> m \<noteq> 0 \<and> m \<le> m'"
  shows "encodedChangesetSizeWithLimits (Some ch) m M = Some (Inr (length bs)) \<and>
     (\<exists>ch'. decodeChangesetWithMax bs reg m' = Inr ch' \<and> sorted (map fst (ch_tables ch')) \<and>
        (\<forall>tid. TableChanges (Some ch') tid = TableChanges (Some ch) tid))"
proof -
  let ?ids = "changesetTableIDs (Some ch)"
  have e: "length ?ids < 2 ^ 32" "\<forall>tid \<in> set ?ids. table_fits m (tcOf (Some ch) tid)"
    "bs = changesetBytes (Some ch)" "?ids = [] \<or> within M (length bs)"
    using assms(2) unfolding encodeChangeset_iff [OF assms(1)] by blast+
  have "looser m m'" using assms(3) by (auto simp: looser_def)
  then have "\<forall>tid \<in> set ?ids. table_fits m' (tcOf (Some ch) tid)" using e(2) table_fits_looser by blast
  note d = decodeChangeset_bytes [OF assms(1) e(1) this]
  have "encodedChangesetSizeWithLimits (Some ch) m M = Some (Inr (length bs))"
    using encodedSize_eq [OF assms(1) e(1,2)] e(3,4) by simp
  moreover have "sorted (map fst (map (\<lambda>tid. (tid, Some (tcOf (Some ch) tid))) ?ids))"
    using changesetTableIDs_sorted [of ch] by (simp add: comp_def)
  ultimately show ?thesis
    using d decoded_TableChanges [OF assms(1)] e(3) by (intro conjI exI) auto
qed

definition exampleChange :: "productValue \<Rightarrow> tableChangeset" where
  "exampleChange row = \<lparr>tc_tableID = 1, tc_tableName = ts_name exampleTable, tc_schema = Some exampleTable,
     tc_inserts = [row], tc_deletes = []\<rparr>"

definition exampleChangeset :: changeset where
  "exampleChangeset = \<lparr>ch_txID = 9, ch_tables = [(1, Some (exampleChange exampleRow))]\<rparr>"

lemma exampleChangeset_ready: "log_ready (\<lambda>tid. if tid = 1 then Some exampleTable else None) exampleChangeset"
  by (simp add: log_ready_def exampleChangeset_def registered_def exampleChange_def values_wf_def exampleRow_wf)

lemma exampleRow_bytes:
  "list_all2 column_ok (ts_columns exampleTable) exampleRow \<and> rowBytes (ts_columns exampleTable) exampleRow = exampleBytes"
  using exampleRow_encoded by (simp add: AppendProductValueForColumns_iff)

lemma exampleChangeset_encodes:
  "encodeChangesetWithLimits (Some exampleChangeset) 100 1000 = Some (Inr (changesetBytes (Some exampleChangeset)))"
proof -
  have ids: "changesetTableIDs (Some exampleChangeset) = [1]"
    by (simp add: changesetTableIDs_def exampleChangeset_def)
  have tc: "tcOf (Some exampleChangeset) 1 = exampleChange exampleRow"
    by (simp add: tcOf_def changesetTable_def exampleChangeset_def)
  have fits: "\<forall>tid \<in> set (changesetTableIDs (Some exampleChangeset)). table_fits 100 (tcOf (Some exampleChangeset) tid)"
    using exampleRow_bytes exampleRow_wf
    by (simp add: ids tc table_fits_def exampleChange_def rows_fit_def row_fits_def within_def)
  have "length (changesetBytes (Some exampleChangeset)) = 38"
    using exampleRow_bytes
    by (simp add: changesetBytes_def ids tc tableFrame_def rowsFrame_def rowFrame_def exampleChange_def)
  then have w: "within 1000 (length (changesetBytes (Some exampleChangeset)))" by (simp add: within_def)
  have c: "length (changesetTableIDs (Some exampleChangeset)) < 2 ^ 32" by (simp add: ids)
  from encodedSize_eq [OF exampleChangeset_ready c fits disjI2 [OF w]] fits w c show ?thesis
    unfolding encodeChangeset_iff [OF exampleChangeset_ready] by blast
qed

theorem changeset_roundtrip_witness:
  "\<exists>bs ch'. encodeChangesetWithLimits (Some exampleChangeset) 100 1000 = Some (Inr bs) \<and>
     decodeChangesetWithMax bs (\<lambda>tid. if tid = 1 then Some exampleTable else None) formatMaxRowBytes = Inr ch' \<and>
     TableChanges (Some ch') 1 = Some (exampleChange exampleRow)"
proof -
  have "(100 :: u32) \<noteq> 0 \<and> (100 :: u32) \<le> formatMaxRowBytes"
    by (simp add: formatMaxRowBytes_def word_le_nat_alt)
  from changeset_roundtrip [OF exampleChangeset_ready exampleChangeset_encodes disjI2 [OF this]]
  obtain ch' where "decodeChangesetWithMax (changesetBytes (Some exampleChangeset))
      (\<lambda>tid. if tid = 1 then Some exampleTable else None) formatMaxRowBytes = Inr ch'"
    "TableChanges (Some ch') 1 = TableChanges (Some exampleChangeset) 1" by blast
  with exampleChangeset_encodes show ?thesis
    by (auto simp: TableChanges_def exampleChangeset_def)
qed

text \<open> C38. Validation before the commit is enough: when the rows of a changeset are valid for
  their schemas, no array of strings has more items than the value codec writes, and the row
  limit is one the options allow, then a changeset whose size validation succeeds is encoded
  without an error, in exactly the validated size. \<close>

theorem validated_changeset_encodes:
  assumes "log_ready reg ch" and "m \<noteq> 0" "m \<le> formatMaxRowBytes"
    and "\<And>tid tc row. (tid, Some tc) \<in> set (ch_tables ch) \<Longrightarrow> row \<in> set (tc_inserts tc) \<union> set (tc_deletes tc) \<Longrightarrow>
           row_wf (the (tc_schema tc)) row \<and> arrays_small row"
    and "encodedChangesetSizeWithLimits (Some ch) m M = Some (Inr n)"
  shows "\<exists>bs. encodeChangesetWithLimits (Some ch) m M = Some (Inr bs) \<and> length bs = n"
proof -
  let ?ids = "changesetTableIDs (Some ch)"
  have lim: "row_limit m" using assms(2,3) by (simp add: row_limit_def)
  have entries: "\<forall>tid \<in> set ?ids. changesetTable (Some ch) tid = Some (tcOf (Some ch) tid) \<and>
      (\<exists>ts. tc_schema (tcOf (Some ch) tid) = Some ts \<and> storable ts (tc_inserts (tcOf (Some ch) tid)) \<and>
        storable ts (tc_deletes (tcOf (Some ch) tid)))"
  proof
    fix tid assume tid: "tid \<in> set ?ids"
    note e = log_ready_entry [OF assms(1) tid]
    from e(2) obtain ts where ts: "tc_schema (tcOf (Some ch) tid) = Some ts" by (auto simp: registered_def)
    have "(tid, Some (tcOf (Some ch) tid)) \<in> set (ch_tables ch)"
      using e(1) by (cases "map_of (ch_tables ch) tid") (auto simp: changesetTable_def dest: map_of_SomeD)
    from assms(4) [OF this] ts e(1) show "changesetTable (Some ch) tid = Some (tcOf (Some ch) tid) \<and>
      (\<exists>ts. tc_schema (tcOf (Some ch) tid) = Some ts \<and> storable ts (tc_inserts (tcOf (Some ch) tid)) \<and>
        storable ts (tc_deletes (tcOf (Some ch) tid)))"
      by (auto simp: storable_def)
  qed
  have c: "length ?ids < 2 ^ 32" and s: "sizeTables (Some ch) 5 ?ids m M = Some (Inr n)"
    using assms(5) by (auto simp: encodedChangesetSizeWithLimits_def Let_def result_simps checkedCount_iff
        split: sum.splits if_splits)
  from sizeTables_fits [OF lim entries s] have "n = length (changesetBytes (Some ch))"
    "\<forall>tid \<in> set ?ids. table_fits m (tcOf (Some ch) tid)" "?ids = [] \<or> within M n"
    by (auto simp: changesetBytes_def)
  with c assms(5) show ?thesis unfolding encodeChangeset_iff [OF assms(1)] by blast
qed

lemma exampleRow_fits: "row_wf exampleTable exampleRow \<and> arrays_small exampleRow"
  by (simp add: exampleTable_def exampleRow_def row_wf_def value_fits_def column_accepts_def arrays_small_def
      payloadLen_def checkedPayloadLen_def constructor_defs wf_value_def ValidateUTF8String_def utf8_valid.simps)

theorem validated_changeset_encodes_witness:
  "\<exists>n bs. encodedChangesetSizeWithLimits (Some exampleChangeset) 100 1000 = Some (Inr n) \<and>
     encodeChangesetWithLimits (Some exampleChangeset) 100 1000 = Some (Inr bs) \<and> length bs = n"
proof -
  obtain n where n: "encodedChangesetSizeWithLimits (Some exampleChangeset) 100 1000 = Some (Inr n)"
    using exampleChangeset_encodes unfolding encodeChangeset_iff [OF exampleChangeset_ready] by blast
  have "(100 :: u32) \<noteq> 0" "(100 :: u32) \<le> formatMaxRowBytes"
    by (simp_all add: formatMaxRowBytes_def word_le_nat_alt)
  from validated_changeset_encodes [OF exampleChangeset_ready this _ n] exampleRow_fits n show ?thesis
    by (auto simp: exampleChangeset_def exampleChange_def)
qed

definition arrayTable :: tableSchema where
  "arrayTable = \<lparr>ts_id = 1, ts_name = ''tags'', ts_isEvent = False, ts_columns =
     [\<lparr>c_index = 0, c_name = ''tags'', c_type = KindArrayString, c_nullable = False, c_autoIncrement = False\<rparr>],
     ts_indexes = []\<rparr>"

definition longArrayRow :: productValue where
  "longArrayRow = [NewArrayString (replicate (2 ^ 20 + 1) [])]"

definition longArrayChangeset :: changeset where
  "longArrayChangeset = \<lparr>ch_txID = 1, ch_tables = [(1, Some \<lparr>tc_tableID = 1, tc_tableName = ''tags'',
     tc_schema = Some arrayTable, tc_inserts = [longArrayRow], tc_deletes = []\<rparr>)]\<rparr>"

lemma longArray_size: "EncodedProductValueSizeForSchema longArrayRow (Some arrayTable) = Inr (9 + 4 * 2 ^ 20)"
proof -
  have "stringsSize (replicate n []) = 4 * n" for n by (induction n) simp_all
  then show ?thesis
    by (simp add: EncodedProductValueSizeForSchema_def EncodedProductValueSizeForColumns_def longArrayRow_def arrayTable_def
        EncodedValueSize_def constructor_defs foldl_stringsSize del: replicate_Suc)
qed

lemma longArray_append: "AppendProductValueForSchema out longArrayRow (Some arrayTable) = Inl ErrValueTooLarge"
  by (simp add: AppendProductValueForSchema_def AppendProductValueForColumns_def longArrayRow_def arrayTable_def
      appendColumnValue_def AppendValue_def constructor_defs checkedArrayStringCount_def maxArrayStringItems_def
      ValidateUTF8StringArray_ok [of _ "()", THEN iffD2] del: replicate_Suc)

text \<open> C39. The validation before a commit does not bound the number of items of an array of
  strings: a table row with one item more than the value codec writes is valid for its schema
  and passes the size validation under the default limits, and the changeset that inserts it is
  then refused by the encoder. \<close>

theorem long_array_gap:
  "ValidateRow arrayTable longArrayRow = Inr () \<and>
   (\<exists>n. encodedChangesetSizeWithLimits (Some longArrayChangeset) formatMaxRowBytes formatMaxRecordPayloadBytes = Some (Inr n)) \<and>
   EncodeChangeset (Some longArrayChangeset) = Some (Inl (RowCodecError ErrValueTooLarge))"
proof (intro conjI)
  let ?cs = "Some longArrayChangeset"
  have ids: "changesetTableIDs ?cs = [1]" by (simp add: changesetTableIDs_def longArrayChangeset_def)
  have tc: "changesetTable ?cs 1 = Some \<lparr>tc_tableID = 1, tc_tableName = ''tags'', tc_schema = Some arrayTable,
      tc_inserts = [longArrayRow], tc_deletes = []\<rparr>"
    by (simp add: changesetTable_def longArrayChangeset_def)
  have row: "validateRowPayloadLen (9 + 4 * 2 ^ 20) formatMaxRowBytes = Inr ()"
    by (simp add: validateRow_iff within_def formatMaxRowBytes_def)
  have "ValidateUTF8StringArray (replicate (2 ^ 20 + 1) []) = Inr ()"
    unfolding ValidateUTF8StringArray_ok by (simp add: list_all_iff utf8_valid.simps)
  then show "ValidateRow arrayTable longArrayRow = Inr ()"
    by (simp add: ValidateRow_def arrayTable_def longArrayRow_def constructor_defs)
  have "validateRecordPayloadLen (5 + 4 + (4 + (4 + (9 + 4 * 2 ^ 20)) + 4)) formatMaxRecordPayloadBytes = Inr ()"
    by (simp add: validateRecord_iff within_def formatMaxRecordPayloadBytes_def)
  then show size: "\<exists>n. encodedChangesetSizeWithLimits ?cs formatMaxRowBytes formatMaxRecordPayloadBytes = Some (Inr n)"
    using row longArray_size
    by (simp add: encodedChangesetSizeWithLimits_def ids tc checkedChangesetCount_def encodedChangesetRowsSize_def Let_def)
  show "EncodeChangeset ?cs = Some (Inl (RowCodecError ErrValueTooLarge))"
    using size row longArray_size longArray_append
    by (auto simp: EncodeChangeset_def encodeChangesetWithLimits_def ids tc checkedChangesetCount_def appendTable_def
        appendChangesetRows_def Let_def liftRow_def)
qed

end
