(* ===== verification/OffsetIndex.thy ===== *)
theory OffsetIndex
  imports Prelude
begin

text \<open>
  The sparse per-segment offset index (\<open>src/commitlog/offset_index.go\<close>): a preallocated file of
  16 byte entries, a transaction identifier and the offset of its record, in ascending order,
  the unused slots zero. The file is a byte string; entry counts and the capacity are natural
  numbers (the capacity is checked to stay below \<open>(2^63 - 1) / 16\<close>, so the 64 bit products do not
  wrap), identifiers and offsets are 64 bit words. Reads and writes of the operating system
  succeed within the file.

  The lemmas relate the file to the list of its entries: appending, looking up, truncating and
  reopening are the operations of a sorted association list.
\<close>

section \<open>Files\<close>

definition readAt :: "bytes \<Rightarrow> nat \<Rightarrow> nat \<Rightarrow> io_error + bytes" where
  "readAt f n off = (if off + n \<le> length f then Inr (take n (drop off f)) else Inl EOF)"

definition writeAt :: "bytes \<Rightarrow> bytes \<Rightarrow> nat \<Rightarrow> bytes" where
  "writeAt f p off =
     (let f = f @ replicate (off - length f) 0
      in take off f @ p @ drop (off + length p) f)"

definition truncateFile :: "bytes \<Rightarrow> nat \<Rightarrow> bytes" where
  "truncateFile f n = take n f @ replicate (n - length f) 0"

section \<open>State\<close>

datatype index_error =
    ErrOffsetIndexKeyNotFound
  | ErrOffsetIndexFull
  | OffsetIndexNonMonotonicError u64 u64
  | ErrOffsetIndexCap nat
  | IndexIO io_error

definition OffsetIndexEntrySize :: nat where "OffsetIndexEntrySize = 16"

definition maxOffsetIndexCap :: nat where "maxOffsetIndexCap = (2 ^ 63 - 1) div OffsetIndexEntrySize"

definition offsetIndexZeroChunkSize :: nat where "offsetIndexZeroChunkSize = 32 * 1024"

record offsetIndexMut =
  oi_f :: bytes
  oi_cap :: nat
  oi_numEntries :: nat
  oi_lastKey :: u64

record offsetIndex =
  ox_f :: bytes
  ox_numEntries :: nat

definition offsetIndexFileSize :: "nat \<Rightarrow> index_error + nat" where
  "offsetIndexFileSize cap =
     (if cap = 0 then Inl (ErrOffsetIndexCap cap)
      else if cap > maxOffsetIndexCap then Inl (ErrOffsetIndexCap cap)
      else Inr (cap * OffsetIndexEntrySize))"

section \<open>Reading entries\<close>

definition readOffsetIndexEntryAt :: "bytes \<Rightarrow> nat \<Rightarrow> index_error + (u64 \<times> u64)" where
  "readOffsetIndexEntryAt f idx =
     (case readAt f OffsetIndexEntrySize (idx * OffsetIndexEntrySize) of
        Inl e \<Rightarrow> Inl (IndexIO e)
      | Inr buf \<Rightarrow> Inr (get_le (take 8 buf), get_le (drop 8 buf)))"

function scanPrefixFrom :: "bytes \<Rightarrow> nat \<Rightarrow> nat \<Rightarrow> u64 \<Rightarrow> nat \<times> u64" where
  "scanPrefixFrom f cap i lastKey =
     (if i < cap then
        (case readAt f OffsetIndexEntrySize (i * OffsetIndexEntrySize) of
           Inl _ \<Rightarrow> (i, lastKey)
         | Inr buf \<Rightarrow>
             let key = get_le (take 8 buf); val = get_le (drop 8 buf) :: u64
             in if key = 0 then (i, lastKey)
                else if val = 0 then (i, lastKey)
                else if i > 0 \<and> key \<le> lastKey then (i, lastKey)
                else scanPrefixFrom f cap (i + 1) key)
      else (cap, lastKey))"
  by pat_completeness auto
termination
  by (relation "measure (\<lambda>(_, cap, i, _). cap - i)") auto

declare scanPrefixFrom.simps [simp del]

definition scanOffsetIndexPrefix :: "bytes \<Rightarrow> nat \<Rightarrow> nat \<times> u64" where
  "scanOffsetIndexPrefix f cap = scanPrefixFrom f cap 0 0"

text \<open>The binary search both operations write out, with its comparison \<open>below\<close>.\<close>

function searchEntries :: "bytes \<Rightarrow> (u64 \<Rightarrow> bool) \<Rightarrow> nat \<Rightarrow> nat \<Rightarrow> index_error + nat" where
  "searchEntries f below lo hi =
     (if lo < hi then
        let mid = (lo + hi) div 2 in
        (case readOffsetIndexEntryAt f mid of
           Inl e \<Rightarrow> Inl e
         | Inr (midKey, _) \<Rightarrow>
             if below midKey then searchEntries f below (mid + 1) hi
             else searchEntries f below lo mid)
      else Inr lo)"
  by pat_completeness auto
termination
  by (relation "measure (\<lambda>(_, _, lo, hi). hi - lo)") auto

declare searchEntries.simps [simp del]

definition offsetIndexLookup :: "bytes \<Rightarrow> nat \<Rightarrow> u64 \<Rightarrow> index_error + (u64 \<times> u64)" where
  "offsetIndexLookup f n key =
     (if n = 0 then Inl ErrOffsetIndexKeyNotFound
      else
        bindE (searchEntries f (\<lambda>midKey. midKey \<le> key) 0 n) (\<lambda>lo.
        if lo = 0 then Inl ErrOffsetIndexKeyNotFound
        else readOffsetIndexEntryAt f (lo - 1)))"

fun readEntriesLoop :: "bytes \<Rightarrow> nat list \<Rightarrow> index_error + (u64 \<times> u64) list" where
  "readEntriesLoop f [] = Inr []"
| "readEntriesLoop f (i # idxs) =
     bindE (readOffsetIndexEntryAt f i) (\<lambda>e. bindE (readEntriesLoop f idxs) (\<lambda>es. Inr (e # es)))"

definition readOffsetIndexEntries :: "bytes \<Rightarrow> nat \<Rightarrow> index_error + (u64 \<times> u64) list" where
  "readOffsetIndexEntries f n = (if n = 0 then Inr [] else readEntriesLoop f [0..<n])"

section \<open>The writable index\<close>

text \<open>The path was free: creating and truncating give a file of zeros.\<close>

definition CreateOffsetIndex :: "nat \<Rightarrow> index_error + offsetIndexMut" where
  "CreateOffsetIndex cap =
     bindE (offsetIndexFileSize cap) (\<lambda>size.
     Inr \<lparr>oi_f = truncateFile [] size, oi_cap = cap, oi_numEntries = 0, oi_lastKey = 0\<rparr>)"

definition OpenOffsetIndexMut :: "bytes \<Rightarrow> nat \<Rightarrow> index_error + offsetIndexMut" where
  "OpenOffsetIndexMut f cap =
     bindE (offsetIndexFileSize cap) (\<lambda>want.
     let f = (if length f \<noteq> want then truncateFile f want else f) in
     case scanOffsetIndexPrefix f cap of
       (n, lastKey) \<Rightarrow>
         let f = (if n < cap then truncateFile (truncateFile f (n * OffsetIndexEntrySize)) want else f)
         in Inr \<lparr>oi_f = f, oi_cap = cap, oi_numEntries = n, oi_lastKey = lastKey\<rparr>)"

definition oiAppend :: "offsetIndexMut \<Rightarrow> u64 \<Rightarrow> u64 \<Rightarrow> offsetIndexMut \<times> index_error option" where
  "oiAppend o' key byteOffset =
     (if oi_numEntries o' \<ge> oi_cap o' then (o', Some ErrOffsetIndexFull)
      else if key = 0 \<or> key \<le> oi_lastKey o' then (o', Some (OffsetIndexNonMonotonicError (oi_lastKey o') key))
      else (o'\<lparr>oi_f := writeAt (oi_f o') (put_le 8 key @ put_le 8 byteOffset) (oi_numEntries o' * OffsetIndexEntrySize),
              oi_numEntries := oi_numEntries o' + 1, oi_lastKey := key\<rparr>, None))"

definition oiKeyLookup :: "offsetIndexMut \<Rightarrow> u64 \<Rightarrow> index_error + (u64 \<times> u64)" where
  "oiKeyLookup o' target = offsetIndexLookup (oi_f o') (oi_numEntries o') target"

definition oiEntries :: "offsetIndexMut \<Rightarrow> index_error + (u64 \<times> u64) list" where
  "oiEntries o' = readOffsetIndexEntries (oi_f o') (oi_numEntries o')"

function writeZeroAt :: "bytes \<Rightarrow> nat \<Rightarrow> nat \<Rightarrow> bytes" where
  "writeZeroAt f off n =
     (if n > 0 then
        let chunk = (if n < offsetIndexZeroChunkSize then n else offsetIndexZeroChunkSize)
        in writeZeroAt (writeAt f (replicate chunk 0) off) (off + chunk) (n - chunk)
      else f)"
  by pat_completeness auto
termination
  by (relation "measure (\<lambda>(_, _, n). n)") (auto simp: offsetIndexZeroChunkSize_def)

declare writeZeroAt.simps [simp del]

definition oiTruncate :: "offsetIndexMut \<Rightarrow> u64 \<Rightarrow> offsetIndexMut \<times> index_error option" where
  "oiTruncate o' key =
     (let n = oi_numEntries o' in
      case searchEntries (oi_f o') (\<lambda>midKey. midKey < key) 0 n of
        Inl e \<Rightarrow> (o', Some e)
      | Inr dropAt \<Rightarrow>
          if dropAt \<ge> n then (o', None)
          else
            let o' = o'\<lparr>oi_f := writeZeroAt (oi_f o') (dropAt * OffsetIndexEntrySize) (OffsetIndexEntrySize * (n - dropAt)),
                        oi_numEntries := dropAt\<rparr>
            in if dropAt = 0 then (o'\<lparr>oi_lastKey := 0\<rparr>, None)
               else (case readOffsetIndexEntryAt (oi_f o') (dropAt - 1) of
                       Inl e \<Rightarrow> (o', Some e)
                     | Inr (lastKey, _) \<Rightarrow> (o'\<lparr>oi_lastKey := lastKey\<rparr>, None)))"

section \<open>The read-only view\<close>

definition OpenOffsetIndex :: "bytes \<Rightarrow> offsetIndex" where
  "OpenOffsetIndex f =
     (let cap = length f div OffsetIndexEntrySize
      in \<lparr>ox_f = f, ox_numEntries = fst (scanOffsetIndexPrefix f cap)\<rparr>)"

definition oxKeyLookup :: "offsetIndex \<Rightarrow> u64 \<Rightarrow> index_error + (u64 \<times> u64)" where
  "oxKeyLookup ox target = offsetIndexLookup (ox_f ox) (ox_numEntries ox) target"

definition oxEntries :: "offsetIndex \<Rightarrow> index_error + (u64 \<times> u64) list" where
  "oxEntries ox = readOffsetIndexEntries (ox_f ox) (ox_numEntries ox)"

section \<open>The cadence writer\<close>

record offsetIndexWriter =
  ow_head :: offsetIndexMut
  ow_minWriteIntervalBytes :: u64
  ow_bytesSinceLastAppend :: u64
  ow_candidateTxID :: u64
  ow_candidateByteOffset :: u64
  ow_haveCandidate :: bool
  ow_full :: bool

definition NewOffsetIndexWriter :: "offsetIndexMut \<Rightarrow> u64 \<Rightarrow> offsetIndexWriter" where
  "NewOffsetIndexWriter head interval =
     \<lparr>ow_head = head, ow_minWriteIntervalBytes = interval, ow_bytesSinceLastAppend = 0, ow_candidateTxID = 0,
      ow_candidateByteOffset = 0, ow_haveCandidate = False, ow_full = False\<rparr>"

definition AppendAfterCommit ::
  "offsetIndexWriter \<Rightarrow> u64 \<Rightarrow> u64 \<Rightarrow> u64 \<Rightarrow> offsetIndexWriter \<times> index_error option" where
  "AppendAfterCommit w txID byteOffset recordLen =
     (if ow_full w then (w, None)
      else
        let w = w\<lparr>ow_bytesSinceLastAppend :=
                  (if recordLen > - 1 - ow_bytesSinceLastAppend w then - 1
                   else ow_bytesSinceLastAppend w + recordLen)\<rparr>
        in if \<not> ow_haveCandidate w
           then (w\<lparr>ow_candidateTxID := txID, ow_candidateByteOffset := byteOffset, ow_haveCandidate := True\<rparr>, None)
           else if ow_bytesSinceLastAppend w \<ge> ow_minWriteIntervalBytes w then
             (case oiAppend (ow_head w) (ow_candidateTxID w) (ow_candidateByteOffset w) of
                (head, Some ErrOffsetIndexFull) \<Rightarrow>
                  (w\<lparr>ow_head := head, ow_full := True, ow_haveCandidate := False, ow_bytesSinceLastAppend := 0\<rparr>, None)
              | (head, Some e) \<Rightarrow> (w\<lparr>ow_head := head\<rparr>, Some e)
              | (head, None) \<Rightarrow>
                  (w\<lparr>ow_head := head, ow_candidateTxID := txID, ow_candidateByteOffset := byteOffset,
                     ow_bytesSinceLastAppend := 0\<rparr>, None))
           else (w, None))"

definition owSync :: "offsetIndexWriter \<Rightarrow> offsetIndexWriter \<times> index_error option" where
  "owSync w =
     (if ow_haveCandidate w then
        (case oiAppend (ow_head w) (ow_candidateTxID w) (ow_candidateByteOffset w) of
           (head, Some ErrOffsetIndexFull) \<Rightarrow>
             (w\<lparr>ow_head := head, ow_full := True, ow_haveCandidate := False, ow_bytesSinceLastAppend := 0\<rparr>, None)
         | (head, Some e) \<Rightarrow> (w\<lparr>ow_head := head\<rparr>, Some e)
         | (head, None) \<Rightarrow> (w\<lparr>ow_head := head, ow_haveCandidate := False, ow_bytesSinceLastAppend := 0\<rparr>, None))
      else (w, None))"

definition owTruncate :: "offsetIndexWriter \<Rightarrow> u64 \<Rightarrow> offsetIndexWriter \<times> index_error option" where
  "owTruncate w target =
     (let w = (if ow_haveCandidate w \<and> ow_candidateTxID w \<ge> target
               then w\<lparr>ow_haveCandidate := False, ow_bytesSinceLastAppend := 0\<rparr> else w);
          (head, err) = oiTruncate (ow_head w) target
      in (w\<lparr>ow_head := head\<rparr>, err))"

section \<open>The file as a list of entries\<close>

definition entryBytes :: "u64 \<times> u64 \<Rightarrow> bytes" where
  "entryBytes e = put_le 8 (fst e) @ put_le 8 (snd e)"

abbreviation entriesBytes :: "(u64 \<times> u64) list \<Rightarrow> bytes" where
  "entriesBytes es \<equiv> concat (map entryBytes es)"

definition entries_ok :: "(u64 \<times> u64) list \<Rightarrow> bool" where
  "entries_ok es \<longleftrightarrow> sorted_wrt (<) (map fst es) \<and> 0 \<notin> fst ` set es"

definition lastKeyOf :: "(u64 \<times> u64) list \<Rightarrow> u64" where
  "lastKeyOf es = (if es = [] then 0 else fst (last es))"

definition represents :: "offsetIndexMut \<Rightarrow> (u64 \<times> u64) list \<Rightarrow> bool" where
  "represents idx es \<longleftrightarrow>
     0 < oi_cap idx \<and> oi_cap idx \<le> maxOffsetIndexCap \<and> length es \<le> oi_cap idx \<and> entries_ok es \<and>
     oi_numEntries idx = length es \<and> oi_lastKey idx = lastKeyOf es \<and>
     oi_f idx = entriesBytes es @ replicate (OffsetIndexEntrySize * (oi_cap idx - length es)) 0"

lemma length_entryBytes [simp]: "length (entryBytes e) = 16"
  by (simp add: entryBytes_def)

lemma length_entriesBytes [simp]: "length (entriesBytes es) = 16 * length es"
  by (induction es) simp_all

lemma entry_window:
  "i < length es \<Longrightarrow> take 16 (drop (i * 16) (entriesBytes es @ r)) = entryBytes (es ! i)"
proof (induction es arbitrary: i)
  case (Cons e es)
  then show ?case by (cases i) (simp_all add: algebra_simps)
qed simp

lemma readAt_entry:
  "i < length es \<Longrightarrow> readAt (entriesBytes es @ r) OffsetIndexEntrySize (i * OffsetIndexEntrySize) = Inr (entryBytes (es ! i))"
  using entry_window [of i es r] by (simp add: readAt_def OffsetIndexEntrySize_def)

lemma entryBytes_fields [simp]:
  "get_le (take 8 (entryBytes e)) = fst e" "get_le (drop 8 (entryBytes e)) = snd e"
  by (simp_all add: entryBytes_def get_le_put_le)

lemma readEntry: "i < length es \<Longrightarrow> readOffsetIndexEntryAt (entriesBytes es @ r) i = Inr (es ! i)"
  by (simp add: readOffsetIndexEntryAt_def readAt_entry)

lemma readEntriesLoop_eq:
  "\<forall>i \<in> set idxs. i < length es \<Longrightarrow> readEntriesLoop (entriesBytes es @ r) idxs = Inr (map ((!) es) idxs)"
  by (induction idxs) (simp_all add: readEntry)

lemma readOffsetIndexEntries_eq: "readOffsetIndexEntries (entriesBytes es @ r) (length es) = Inr es"
  by (simp add: readOffsetIndexEntries_def readEntriesLoop_eq map_nth)

section \<open>Searching\<close>

lemma searchEntries_cut:
  assumes "\<And>i. i < c \<Longrightarrow> below (fst (es ! i))" "\<And>i. c \<le> i \<Longrightarrow> i < length es \<Longrightarrow> \<not> below (fst (es ! i))"
  shows "lo \<le> c \<Longrightarrow> c \<le> hi \<Longrightarrow> hi \<le> length es \<Longrightarrow> searchEntries (entriesBytes es @ r) below lo hi = Inr c"
proof (induction "hi - lo" arbitrary: lo hi rule: less_induct)
  case less
  show ?case
  proof (cases "lo < hi")
    case True
    define mid where "mid = (lo + hi) div 2"
    have mid: "lo \<le> mid" "mid < hi" using True by (simp_all add: mid_def)
    then have read: "readOffsetIndexEntryAt (entriesBytes es @ r) mid = Inr (es ! mid)" using less.prems by (intro readEntry) simp
    have step: "searchEntries (entriesBytes es @ r) below lo hi =
        (if below (fst (es ! mid)) then searchEntries (entriesBytes es @ r) below (mid + 1) hi
         else searchEntries (entriesBytes es @ r) below lo mid)"
      using True read by (subst searchEntries.simps) (simp add: mid_def [symmetric] Let_def split: prod.splits)
    show ?thesis
    proof (cases "below (fst (es ! mid))")
      case b: True
      then have "mid < c" using assms(2) [of mid] mid less.prems by (meson le_less_trans not_le order.strict_trans2)
      then show ?thesis unfolding step using b less.hyps [of hi "mid + 1"] mid less.prems by simp
    next
      case False
      then have "c \<le> mid" using assms(1) [of mid] by (meson not_le)
      then show ?thesis unfolding step using False less.hyps [of mid lo] mid less.prems by simp
    qed
  next
    case False
    then have "lo = c" using less.prems by simp
    with False show ?thesis by (subst searchEntries.simps) simp
  qed
qed

text \<open>On sorted entries the search counts the entries below the bound, which are a prefix.\<close>

lemma filter_takeWhile_sorted:
  assumes "sorted_wrt (<) (map fst es)" and "\<And>x y :: u64. x < y \<Longrightarrow> below y \<Longrightarrow> below x"
  shows "filter (below \<circ> fst) es = takeWhile (below \<circ> fst) es"
  using assms(1)
proof (induction es)
  case (Cons e es)
  have "filter (below \<circ> fst) es = []" if "\<not> below (fst e)"
    using that Cons.prems assms(2) by (auto simp: filter_empty_conv)
  with Cons show ?case by (cases "below (fst e)") (auto simp: comp_def)
qed simp

lemma sorted_prefix:
  assumes "sorted_wrt (<) (map fst es)" and mono: "\<And>x y :: u64. x < y \<Longrightarrow> below y \<Longrightarrow> below x"
  shows "filter (below \<circ> fst) es = take (length (filter (below \<circ> fst) es)) es"
    and "i < length (filter (below \<circ> fst) es) \<Longrightarrow> below (fst (es ! i))"
    and "length (filter (below \<circ> fst) es) \<le> i \<Longrightarrow> i < length es \<Longrightarrow> \<not> below (fst (es ! i))"
proof -
  have eq: "filter (below \<circ> fst) es = takeWhile (below \<circ> fst) es"
    by (rule filter_takeWhile_sorted [OF assms(1)]) (rule mono)
  let ?c = "length (takeWhile (below \<circ> fst) es)"
  show "filter (below \<circ> fst) es = take (length (filter (below \<circ> fst) es)) es"
    unfolding eq by (rule takeWhile_eq_take)
  show "below (fst (es ! i))" if "i < length (filter (below \<circ> fst) es)"
    using nth_mem [OF that] takeWhile_nth [of i "below \<circ> fst" es] that set_takeWhileD [of "es ! i" "below \<circ> fst" es]
    unfolding eq by simp
  show "\<not> below (fst (es ! i))" if "length (filter (below \<circ> fst) es) \<le> i" "i < length es"
  proof -
    have c: "?c \<le> i" using that(1) unfolding eq .
    then have "\<not> below (fst (es ! ?c))" using nth_length_takeWhile [of "below \<circ> fst" es] that(2) by simp
    moreover have "?c < i \<Longrightarrow> fst (es ! ?c) < fst (es ! i)"
      using sorted_wrt_nth_less [OF assms(1), of ?c i] that(2) by simp
    ultimately show ?thesis using mono c by (cases "?c = i") auto
  qed
qed

lemma searchEntries_sorted:
  assumes "sorted_wrt (<) (map fst es)" and "\<And>x y :: u64. x < y \<Longrightarrow> below y \<Longrightarrow> below x"
  shows "searchEntries (entriesBytes es @ r) below 0 (length es) = Inr (length (filter (below \<circ> fst) es))"
  using sorted_prefix(2,3) [OF assms] by (intro searchEntries_cut) (simp_all add: length_filter_le)

lemma last_take_nth: "c \<noteq> 0 \<Longrightarrow> c \<le> length es \<Longrightarrow> last (take c es) = es ! (c - 1)"
  by (cases "take c es = []") (auto simp: last_conv_nth min_def)

lemma offsetIndexLookup_eq:
  assumes "sorted_wrt (<) (map fst es)"
  shows "offsetIndexLookup (entriesBytes es @ r) (length es) key =
     (let es' = filter (\<lambda>e. fst e \<le> key) es in if es' = [] then Inl ErrOffsetIndexKeyNotFound else Inr (last es'))"
proof -
  let ?below = "\<lambda>k. k \<le> key"
  have eq: "filter (\<lambda>e. fst e \<le> key) es = filter (?below \<circ> fst) es" by (simp add: comp_def)
  let ?c = "length (filter (?below \<circ> fst) es)"
  have s: "searchEntries (entriesBytes es @ r) ?below 0 (length es) = Inr ?c"
    by (rule searchEntries_sorted [OF assms]) simp
  have pre: "filter (?below \<circ> fst) es = take ?c es" by (rule sorted_prefix(1) [OF assms]) simp
  have le: "?c \<le> length es" by (rule length_filter_le)
  show ?thesis
  proof (cases "?c = 0")
    case True
    with s show ?thesis by (simp add: offsetIndexLookup_def eq Let_def)
  next
    case False
    then have "last (filter (?below \<circ> fst) es) = es ! (?c - 1)"
      using le by (subst pre) (rule last_take_nth)
    moreover have "?c - 1 < length es" using False le by linarith
    ultimately show ?thesis
      using s False readEntry [of "?c - 1" es r] by (auto simp: offsetIndexLookup_def eq Let_def)
  qed
qed

section \<open>Operations on the entries\<close>

lemma represents_create:
  "CreateOffsetIndex cap = Inr idx \<longleftrightarrow> 0 < cap \<and> cap \<le> maxOffsetIndexCap \<and> represents idx [] \<and> oi_cap idx = cap"
proof -
  have "represents idx [] \<Longrightarrow> idx = \<lparr>oi_f = replicate (oi_cap idx * 16) 0, oi_cap = oi_cap idx, oi_numEntries = 0, oi_lastKey = 0\<rparr>"
    by (simp add: represents_def lastKeyOf_def OffsetIndexEntrySize_def mult.commute)
  then show ?thesis
    by (auto simp: CreateOffsetIndex_def offsetIndexFileSize_def truncateFile_def represents_def entries_ok_def
        lastKeyOf_def OffsetIndexEntrySize_def mult.commute)
qed

lemma entries_ok_snoc:
  "entries_ok (es @ [(key, off)]) \<longleftrightarrow> entries_ok es \<and> key \<noteq> 0 \<and> lastKeyOf es < key"
proof (cases es rule: rev_cases)
  case (snoc ys y)
  have "(\<forall>x \<in> fst ` set es. x < key) \<longleftrightarrow> fst y < key" if "sorted_wrt (<) (map fst es)"
    using that snoc by (auto simp: sorted_wrt_append intro: less_trans)
  then show ?thesis using snoc by (auto simp: entries_ok_def lastKeyOf_def sorted_wrt_append)
qed (auto simp: entries_ok_def lastKeyOf_def word_gt_0)

lemma oiAppend_full: "represents idx es \<Longrightarrow> length es = oi_cap idx \<Longrightarrow> oiAppend idx key off = (idx, Some ErrOffsetIndexFull)"
  by (simp add: oiAppend_def represents_def)

lemma oiAppend_order:
  "represents idx es \<Longrightarrow> length es < oi_cap idx \<Longrightarrow> key = 0 \<or> key \<le> lastKeyOf es \<Longrightarrow>
   oiAppend idx key off = (idx, Some (OffsetIndexNonMonotonicError (lastKeyOf es) key))"
  by (auto simp: oiAppend_def represents_def)

lemma oiAppend_ok:
  assumes "represents idx es" "length es < oi_cap idx" "key \<noteq> 0" "lastKeyOf es < key"
  shows "\<exists>idx'. oiAppend idx key off = (idx', None) \<and> represents idx' (es @ [(key, off)]) \<and> oi_cap idx' = oi_cap idx"
proof -
  let ?z = "16 * (oi_cap idx - length es)"
  have "16 * (oi_cap idx - length es) = 16 + 16 * (oi_cap idx - Suc (length es))" using assms(2) by simp
  then have "writeAt (oi_f idx) (put_le 8 key @ put_le 8 off) (oi_numEntries idx * OffsetIndexEntrySize) =
      entriesBytes (es @ [(key, off)]) @ replicate (16 * (oi_cap idx - Suc (length es))) 0"
    using assms(1) by (simp add: writeAt_def represents_def OffsetIndexEntrySize_def mult.commute entryBytes_def)
  moreover have "entries_ok (es @ [(key, off)])" "lastKeyOf (es @ [(key, off)]) = key"
    using assms by (simp_all add: entries_ok_snoc represents_def) (simp add: lastKeyOf_def)
  ultimately show ?thesis
    using assms by (simp add: oiAppend_def represents_def OffsetIndexEntrySize_def)
qed

lemma writeZeroAt_eq:
  "off + n \<le> length f \<Longrightarrow> writeZeroAt f off n = take off f @ replicate n 0 @ drop (off + n) f"
proof (induction f off n rule: writeZeroAt.induct)
  case (1 f off n)
  show ?case
  proof (cases "n > 0")
    case True
    define c where "c = (if n < offsetIndexZeroChunkSize then n else offsetIndexZeroChunkSize)"
    have c: "c \<le> n" by (simp add: c_def)
    have w: "writeAt f (replicate c 0) off = take off f @ replicate c 0 @ drop (off + c) f"
      using 1(2) by (simp add: writeAt_def)
    have "writeZeroAt f off n = writeZeroAt (writeAt f (replicate c 0) off) (off + c) (n - c)"
      using True by (subst writeZeroAt.simps) (simp add: c_def [symmetric] Let_def)
    also have "\<dots> = take (off + c) (writeAt f (replicate c 0) off) @ replicate (n - c) 0 @
        drop (off + c + (n - c)) (writeAt f (replicate c 0) off)"
      using 1(1) [OF True c_def] 1(2) c by (simp add: w)
    also have "\<dots> = take off f @ (replicate c 0 @ replicate (n - c) 0) @ drop (off + n) f"
      using 1(2) c by (simp add: w add.commute)
    also have "replicate c 0 @ replicate (n - c) 0 = replicate n (0 :: byte)"
      using c by (simp add: replicate_add [symmetric])
    finally show ?thesis .
  qed (subst writeZeroAt.simps, simp)
qed

lemma entries_ok_take: "entries_ok es \<Longrightarrow> entries_ok (take c es)"
  by (auto simp: entries_ok_def take_map [symmetric] intro: sorted_wrt_take dest: in_set_takeD)

lemma entriesBytes_take: "take (16 * c) (entriesBytes es) = entriesBytes (take c es)"
proof (induction es arbitrary: c)
  case (Cons e es)
  then show ?case by (cases c) simp_all
qed simp

lemma oiTruncate_ok:
  assumes r: "represents idx es"
  shows "\<exists>idx'. oiTruncate idx key = (idx', None) \<and> represents idx' (filter (\<lambda>e. fst e < key) es) \<and> oi_cap idx' = oi_cap idx"
proof -
  let ?below = "\<lambda>k. k < key" and ?z = "replicate (16 * (oi_cap idx - length es)) (0 :: byte)"
  have sorted: "sorted_wrt (<) (map fst es)" and f: "oi_f idx = entriesBytes es @ ?z" and n: "oi_numEntries idx = length es"
    using r by (simp_all add: represents_def entries_ok_def OffsetIndexEntrySize_def)
  define c where "c = length (filter (?below \<circ> fst) es)"
  have s: "searchEntries (oi_f idx) ?below 0 (length es) = Inr c"
    unfolding f c_def by (rule searchEntries_sorted [OF sorted]) simp
  have eq: "filter (\<lambda>e. fst e < key) es = take c es"
    using sorted_prefix(1) [OF sorted, of ?below] by (simp add: c_def comp_def)
  have c: "c \<le> length es" by (simp add: c_def length_filter_le)
  show ?thesis
  proof (cases "c = length es")
    case True
    with s n r show ?thesis by (simp add: oiTruncate_def eq)
  next
    case False
    then have lt: "c < length es" using c by simp
    have "writeZeroAt (oi_f idx) (c * 16) (16 * (length es - c)) =
        take (c * 16) (oi_f idx) @ replicate (16 * (length es - c)) 0 @ drop (c * 16 + 16 * (length es - c)) (oi_f idx)"
      using c by (intro writeZeroAt_eq) (simp add: f)
    also have "\<dots> = entriesBytes (take c es) @ (replicate (16 * (length es - c)) 0 @ ?z)"
      using c entriesBytes_take [of c es] by (simp add: f mult.commute)
    also have "replicate (16 * (length es - c)) 0 @ ?z = replicate (16 * (oi_cap idx - c)) 0"
    proof -
      have "16 * (length es - c) + 16 * (oi_cap idx - length es) = 16 * (oi_cap idx - c)"
        using c r unfolding represents_def by linarith
      then show ?thesis by (simp add: replicate_add [symmetric])
    qed
    finally have w: "writeZeroAt (oi_f idx) (c * 16) (16 * (length es - c)) =
        entriesBytes (take c es) @ replicate (16 * (oi_cap idx - c)) 0" .
    have "readOffsetIndexEntryAt (entriesBytes (take c es) @ replicate (16 * (oi_cap idx - c)) 0) (c - 1) = Inr (es ! (c - 1))" if "c \<noteq> 0"
      using readEntry [of "c - 1" "take c es"] that c by simp
    moreover have "lastKeyOf (take c es) = (if c = 0 then 0 else fst (es ! (c - 1)))"
      using c lt by (auto simp: lastKeyOf_def last_take_nth)
    ultimately have "oiTruncate idx key =
        (idx\<lparr>oi_f := entriesBytes (take c es) @ replicate (16 * (oi_cap idx - c)) 0, oi_numEntries := c,
             oi_lastKey := lastKeyOf (take c es)\<rparr>, None)"
      using s n lt w by (cases "c = 0") (auto simp: oiTruncate_def Let_def OffsetIndexEntrySize_def w split: prod.splits)
    with r c entries_ok_take [of es c] show ?thesis
      by (simp add: eq represents_def OffsetIndexEntrySize_def)
  qed
qed

section \<open>Opening\<close>

lemma bytes_entry:
  assumes "length buf = 16"
  shows "entryBytes (get_le (take 8 buf), get_le (drop 8 buf)) = buf"
  using put_le_get_le [of "take 8 buf", where 'a = 64] put_le_get_le [of "drop 8 buf", where 'a = 64] assms
  by (simp add: entryBytes_def)

text \<open>The scan keeps the entries before it: ordered, without a zero key or a zero offset.\<close>

definition prefix_ok :: "bytes \<Rightarrow> (u64 \<times> u64) list \<Rightarrow> bool" where
  "prefix_ok f es \<longleftrightarrow> take (16 * length es) f = entriesBytes es \<and> entries_ok es \<and> 0 \<notin> snd ` set es"

lemma scanPrefixFrom_ok:
  "prefix_ok f es \<Longrightarrow> i = length es \<Longrightarrow> lastKey = lastKeyOf es \<Longrightarrow> i \<le> cap \<Longrightarrow>
   \<exists>es'. prefix_ok f (es @ es') \<and> scanPrefixFrom f cap i lastKey = (length (es @ es'), lastKeyOf (es @ es')) \<and>
     length (es @ es') \<le> cap"
proof (induction f cap i lastKey arbitrary: es rule: scanPrefixFrom.induct)
  case (1 f cap i lastKey)
  note [simp] = OffsetIndexEntrySize_def
  have stop: ?case if "scanPrefixFrom f cap i lastKey = (i, lastKey)"
    using that 1(2-) by (intro exI [of _ "[]"]) simp
  show ?case
  proof (cases "i < cap \<and> i * 16 + 16 \<le> length f")
    case False
    then have "scanPrefixFrom f cap i lastKey = (i, lastKey)"
      using 1(5) by (subst scanPrefixFrom.simps) (auto simp: readAt_def)
    then show ?thesis by (rule stop)
  next
    case True': True
    note True = True'
    define buf where "buf = take 16 (drop (i * 16) f)"
    define key :: u64 where "key = get_le (take 8 buf)"
    define val :: u64 where "val = get_le (drop 8 buf)"
    have read: "readAt f OffsetIndexEntrySize (i * OffsetIndexEntrySize) = Inr buf"
      using True by (simp add: readAt_def buf_def)
    have step: "scanPrefixFrom f cap i lastKey =
        (if key = 0 \<or> val = 0 \<or> i > 0 \<and> key \<le> lastKey then (i, lastKey) else scanPrefixFrom f cap (i + 1) key)"
      using True read by (subst scanPrefixFrom.simps) (simp add: Let_def key_def val_def)
    show ?thesis
    proof (cases "key = 0 \<or> val = 0 \<or> i > 0 \<and> key \<le> lastKey")
      case True
      then show ?thesis using stop step by simp
    next
      case False
      have "length buf = 16" using conjunct2 [OF True'] unfolding buf_def length_take length_drop by linarith
      then have buf: "entryBytes (key, val) = buf" by (simp add: key_def val_def bytes_entry)
      have "take (16 * length (es @ [(key, val)])) f = take (16 * i) f @ take 16 (drop (16 * i) f)"
        using take_add [of "16 * i" 16 f] 1(3) by (simp add: add.commute)
      then have "take (16 * length (es @ [(key, val)])) f = entriesBytes (es @ [(key, val)])"
        using 1(2,3) buf by (simp add: prefix_ok_def buf_def mult.commute)
      moreover have "lastKeyOf es < key"
        using False 1(3,4) by (cases "es = []") (auto simp: lastKeyOf_def word_gt_0)
      then have "entries_ok (es @ [(key, val)])"
        using False 1(2) by (simp add: entries_ok_snoc prefix_ok_def)
      ultimately have p: "prefix_ok f (es @ [(key, val)])" using False 1(2) by (simp add: prefix_ok_def)
      have "\<exists>es'. prefix_ok f ((es @ [(key, val)]) @ es') \<and>
          scanPrefixFrom f cap (i + 1) key = (length ((es @ [(key, val)]) @ es'), lastKeyOf ((es @ [(key, val)]) @ es')) \<and>
          length ((es @ [(key, val)]) @ es') \<le> cap"
        using False True 1(3) by (intro 1(1) [OF _ read key_def val_def _ _ _ p]) (auto simp: lastKeyOf_def)
      then obtain es' where "prefix_ok f ((es @ [(key, val)]) @ es') \<and>
          scanPrefixFrom f cap (i + 1) key = (length ((es @ [(key, val)]) @ es'), lastKeyOf ((es @ [(key, val)]) @ es')) \<and>
          length ((es @ [(key, val)]) @ es') \<le> cap" ..
      with False show ?thesis unfolding step by (intro exI [of _ "(key, val) # es'"]) auto
    qed
  qed
qed

lemma scanOffsetIndexPrefix_ok:
  "\<exists>es. prefix_ok f es \<and> scanOffsetIndexPrefix f cap = (length es, lastKeyOf es) \<and> length es \<le> cap"
  using scanPrefixFrom_ok [of f "[]" 0 0 cap]
  by (simp add: scanOffsetIndexPrefix_def prefix_ok_def entries_ok_def lastKeyOf_def)

lemma scanPrefixFrom_entries:
  assumes "entries_ok es" "0 \<notin> snd ` set es" "length es \<le> cap" "length es = cap \<or> r = [] \<or> (\<exists>r'. r = replicate 16 0 @ r')"
  shows "i \<le> length es \<Longrightarrow> lastKey = lastKeyOf (take i es) \<Longrightarrow>
    scanPrefixFrom (entriesBytes es @ r) cap i lastKey = (length es, lastKeyOf es)"
proof (induction "length es - i" arbitrary: i lastKey)
  case 0
  then have i: "i = length es" by simp
  show ?case
  proof (cases "i < cap")
    case False
    with 0 i assms(3) show ?thesis by (subst scanPrefixFrom.simps) simp
  next
    case True
    then have "r = [] \<or> (\<exists>r'. r = replicate 16 0 @ r')" using assms(4) i by auto
    moreover have "get_le (replicate 8 0) = (0 :: u64)" by (simp add: eval_nat_numeral)
    ultimately show ?thesis
      using True 0 i by (subst scanPrefixFrom.simps) (auto simp: readAt_def OffsetIndexEntrySize_def Let_def)
  qed
next
  case (Suc k)
  then have i: "i < length es" by simp
  obtain key val where e: "es ! i = (key, val)" by (cases "es ! i")
  have mem: "(key, val) \<in> set es" using i e by (metis nth_mem)
  have "entries_ok (take i es @ [(key, val)])"
    using entries_ok_take [OF assms(1), of "Suc i"] i e by (simp add: take_Suc_conv_app_nth)
  then have ord: "key \<noteq> 0" "lastKey < key" using Suc.prems(2) by (simp_all add: entries_ok_snoc)
  have "val \<noteq> 0" using mem assms(2) by force
  moreover have "lastKeyOf (take (Suc i) es) = key" using i e by (simp add: take_Suc_conv_app_nth lastKeyOf_def)
  ultimately show ?case
    using i ord assms(3) readAt_entry [OF i, of r] e Suc.hyps(1) [of "Suc i" key] Suc.hyps(2)
    by (subst scanPrefixFrom.simps) (auto simp: Let_def)
qed

lemma truncate_zeros: "n \<le> length f \<Longrightarrow> truncateFile (truncateFile f n) w = take w (take n f @ replicate (w - n) 0)"
  by (auto simp: truncateFile_def)

lemma OpenOffsetIndexMut_ok:
  assumes "0 < cap" "cap \<le> maxOffsetIndexCap"
  shows "\<exists>idx es. OpenOffsetIndexMut f cap = Inr idx \<and> represents idx es \<and> oi_cap idx = cap \<and> prefix_ok (truncateFile f (cap * 16)) es"
proof -
  define g where "g = truncateFile f (cap * 16)"
  have len: "length g = cap * 16" by (simp add: g_def truncateFile_def)
  have g: "(if length f \<noteq> cap * 16 then truncateFile f (cap * 16) else f) = g"
    by (simp add: g_def truncateFile_def)
  obtain es where es: "prefix_ok g es" "scanOffsetIndexPrefix g cap = (length es, lastKeyOf es)" "length es \<le> cap"
    using scanOffsetIndexPrefix_ok by blast
  have pre: "take (length es * 16) g = entriesBytes es" using es(1) by (simp add: prefix_ok_def mult.commute)
  have "(if length es < cap then truncateFile (truncateFile g (length es * 16)) (cap * 16) else g) =
      entriesBytes es @ replicate (16 * (cap - length es)) 0"
  proof (cases "length es < cap")
    case True
    have "16 * (cap - length es) = cap * 16 - length es * 16" by (simp add: diff_mult_distrib2 mult.commute)
    with True pre len show ?thesis by (simp add: truncateFile_def)
  next
    case False
    then show ?thesis using es(3) pre len by simp
  qed
  then have "OpenOffsetIndexMut f cap =
      Inr \<lparr>oi_f = entriesBytes es @ replicate (16 * (cap - length es)) 0, oi_cap = cap, oi_numEntries = length es, oi_lastKey = lastKeyOf es\<rparr>"
    using assms es(2) g
    by (cases "length es < cap") (simp_all add: OpenOffsetIndexMut_def offsetIndexFileSize_def OffsetIndexEntrySize_def Let_def)
  with assms es show ?thesis
    by (auto simp: represents_def prefix_ok_def OffsetIndexEntrySize_def g_def)
qed

lemma represents_reopen:
  assumes r: "represents idx es" and v: "0 \<notin> snd ` set es"
  shows "OpenOffsetIndexMut (oi_f idx) (oi_cap idx) = Inr idx"
proof -
  let ?z = "replicate (16 * (oi_cap idx - length es)) (0 :: byte)"
  have f: "oi_f idx = entriesBytes es @ ?z" and c: "0 < oi_cap idx" "oi_cap idx \<le> maxOffsetIndexCap" "length es \<le> oi_cap idx"
    and ok: "entries_ok es" using r by (simp_all add: represents_def OffsetIndexEntrySize_def)
  have len: "length (oi_f idx) = oi_cap idx * 16" using c(3) by (simp add: f)
  have "length es = oi_cap idx \<or> ?z = [] \<or> (\<exists>r'. ?z = replicate 16 0 @ r')"
  proof (cases "length es = oi_cap idx")
    case False
    then have "16 * (oi_cap idx - length es) = 16 + 16 * (oi_cap idx - Suc (length es))" using c(3) by simp
    then have "?z = replicate 16 0 @ replicate (16 * (oi_cap idx - Suc (length es))) 0" by (simp add: replicate_add [symmetric])
    then show ?thesis by blast
  qed simp
  then have s: "scanOffsetIndexPrefix (oi_f idx) (oi_cap idx) = (length es, lastKeyOf es)"
    using scanPrefixFrom_entries [OF ok v c(3), of ?z 0 0] by (simp add: scanOffsetIndexPrefix_def f lastKeyOf_def)
  have "truncateFile (truncateFile (oi_f idx) (length es * 16)) (oi_cap idx * 16) = oi_f idx"
    using c(3) by (simp add: truncateFile_def f diff_mult_distrib2 mult.commute)
  then show ?thesis
    using c s len r
    by (cases idx) (simp add: OpenOffsetIndexMut_def offsetIndexFileSize_def OffsetIndexEntrySize_def represents_def Let_def)
qed

text \<open>The read-only view of any file shows the entries its valid prefix holds.\<close>

definition viewEntries :: "offsetIndex \<Rightarrow> (u64 \<times> u64) list \<Rightarrow> bool" where
  "viewEntries ox es \<longleftrightarrow> prefix_ok (ox_f ox) es \<and> ox_numEntries ox = length es \<and> 16 * length es \<le> length (ox_f ox)"

lemma OpenOffsetIndex_view: "\<exists>es. viewEntries (OpenOffsetIndex f) es"
proof -
  obtain es where es: "prefix_ok f es" "scanOffsetIndexPrefix f (length f div 16) = (length es, lastKeyOf es)" "length es \<le> length f div 16"
    using scanOffsetIndexPrefix_ok by blast
  then have "16 * length es \<le> length f" by (simp add: less_eq_div_iff_mult_less_eq mult.commute)
  with es show ?thesis by (auto simp: viewEntries_def OpenOffsetIndex_def Let_def OffsetIndexEntrySize_def)
qed

lemma view_split: "viewEntries ox es \<Longrightarrow> ox_f ox = entriesBytes es @ drop (16 * length es) (ox_f ox)"
  using append_take_drop_id [of "16 * length es" "ox_f ox"] by (simp add: viewEntries_def prefix_ok_def)

section \<open>The lookup contract\<close>

text \<open>What a segment reader relies on: a lookup returns the entry with the largest key not above the target.\<close>

locale offset_lookup =
  fixes lookup :: "'i \<Rightarrow> u64 \<Rightarrow> index_error + (u64 \<times> u64)" and holds :: "'i \<Rightarrow> (u64 \<times> u64) list \<Rightarrow> bool"
  assumes sorted_keys: "holds idx es \<Longrightarrow> sorted_wrt (<) (map fst es)"
    and lookup_eq: "holds idx es \<Longrightarrow> lookup idx target =
      (let es' = filter (\<lambda>e. fst e \<le> target) es in if es' = [] then Inl ErrOffsetIndexKeyNotFound else Inr (last es'))"
begin

lemma lookup_entry:
  assumes "holds idx es" "lookup idx target = Inr e"
  shows "e \<in> set es" "fst e \<le> target"
proof -
  have "filter (\<lambda>e. fst e \<le> target) es \<noteq> []" "e = last (filter (\<lambda>e. fst e \<le> target) es)"
    using assms by (auto simp: lookup_eq Let_def split: if_splits)
  then have "e \<in> set (filter (\<lambda>e. fst e \<le> target) es)" using last_in_set by blast
  then show "e \<in> set es" "fst e \<le> target" by simp_all
qed

lemma lookup_largest:
  assumes "holds idx es" "lookup idx target = Inr e" "d \<in> set es" "fst d \<le> target"
  shows "fst d \<le> fst e"
proof -
  let ?es = "filter (\<lambda>e. fst e \<le> target) es"
  have s: "sorted_wrt (<) (map fst ?es)"
    using sorted_keys [OF assms(1)] by (simp add: sorted_wrt_map sorted_wrt_filter)
  have "d \<in> set ?es" "e = last ?es" using assms by (auto simp: lookup_eq Let_def split: if_splits)
  then obtain ys where ys: "?es = ys @ [e]" by (metis append_butlast_last_id empty_iff list.set(1))
  then have "d \<in> set ys \<or> d = e" using \<open>d \<in> set ?es\<close> by auto
  with s show ?thesis unfolding ys by (auto simp: sorted_wrt_append)
qed

lemma lookup_missing:
  "holds idx es \<Longrightarrow> lookup idx target = Inl err \<Longrightarrow> d \<in> set es \<Longrightarrow> target < fst d"
  by (auto simp: lookup_eq Let_def filter_empty_conv not_le split: if_splits)

end

interpretation mutable_lookup: offset_lookup oiKeyLookup represents
proof
  fix idx es target assume r: "represents idx es"
  then show s: "sorted_wrt (<) (map fst es)" by (simp add: represents_def entries_ok_def)
  show "oiKeyLookup idx target =
      (let es' = filter (\<lambda>e. fst e \<le> target) es in if es' = [] then Inl ErrOffsetIndexKeyNotFound else Inr (last es'))"
    using offsetIndexLookup_eq [OF s] r by (simp add: oiKeyLookup_def represents_def)
qed

interpretation view_lookup: offset_lookup oxKeyLookup viewEntries
proof
  fix ox es target assume v: "viewEntries ox es"
  then show s: "sorted_wrt (<) (map fst es)" by (simp add: viewEntries_def prefix_ok_def entries_ok_def)
  show "oxKeyLookup ox target =
      (let es' = filter (\<lambda>e. fst e \<le> target) es in if es' = [] then Inl ErrOffsetIndexKeyNotFound else Inr (last es'))"
    using offsetIndexLookup_eq [OF s, of "drop (16 * length es) (ox_f ox)"] view_split [OF v] v
    by (simp add: oxKeyLookup_def viewEntries_def)
qed

section \<open>Properties of the offset index\<close>

text \<open> C18. The index file is a sorted list of entries: reading it back gives the list, a lookup
  gives the entry with the largest key not above the target, an append adds an entry at the end
  or is refused because the index is full or the key is not larger, a truncation keeps the
  entries below its key, and reopening the file gives the same index. \<close>

theorem index_refines_list:
  assumes "represents idx es"
  shows "oiEntries idx = Inr es \<and>
    oiKeyLookup idx target =
      (if filter (\<lambda>e. fst e \<le> target) es = [] then Inl ErrOffsetIndexKeyNotFound
       else Inr (last (filter (\<lambda>e. fst e \<le> target) es))) \<and>
    (\<exists>idx' err. oiAppend idx key off = (idx', err) \<and>
      (if length es = oi_cap idx then idx' = idx \<and> err = Some ErrOffsetIndexFull
       else if key = 0 \<or> key \<le> lastKeyOf es then idx' = idx \<and> err = Some (OffsetIndexNonMonotonicError (lastKeyOf es) key)
       else err = None \<and> represents idx' (es @ [(key, off)]))) \<and>
    (\<exists>idx'. oiTruncate idx key = (idx', None) \<and> represents idx' (filter (\<lambda>e. fst e < key) es)) \<and>
    (0 \<notin> snd ` set es \<longrightarrow> OpenOffsetIndexMut (oi_f idx) (oi_cap idx) = Inr idx)"
proof (intro conjI)
  show "oiEntries idx = Inr es"
    using assms readOffsetIndexEntries_eq by (simp add: oiEntries_def represents_def)
  show "oiKeyLookup idx target =
      (if filter (\<lambda>e. fst e \<le> target) es = [] then Inl ErrOffsetIndexKeyNotFound
       else Inr (last (filter (\<lambda>e. fst e \<le> target) es)))"
    using mutable_lookup.lookup_eq [OF assms] by (simp add: Let_def)
  have "length es \<le> oi_cap idx" using assms by (simp add: represents_def)
  then consider "length es = oi_cap idx" | "length es < oi_cap idx" "key = 0 \<or> key \<le> lastKeyOf es"
    | "length es < oi_cap idx" "key \<noteq> 0" "lastKeyOf es < key" by fastforce
  then show "\<exists>idx' err. oiAppend idx key off = (idx', err) \<and>
      (if length es = oi_cap idx then idx' = idx \<and> err = Some ErrOffsetIndexFull
       else if key = 0 \<or> key \<le> lastKeyOf es then idx' = idx \<and> err = Some (OffsetIndexNonMonotonicError (lastKeyOf es) key)
       else err = None \<and> represents idx' (es @ [(key, off)]))"
  proof cases
    case 1
    then show ?thesis using oiAppend_full [OF assms] by simp
  next
    case 2
    then show ?thesis using oiAppend_order [OF assms] by simp
  next
    case 3
    then show ?thesis using oiAppend_ok [OF assms 3, of off] by (auto simp: not_le)
  qed
  show "\<exists>idx'. oiTruncate idx key = (idx', None) \<and> represents idx' (filter (\<lambda>e. fst e < key) es)"
    using oiTruncate_ok [OF assms] by blast
  show "0 \<notin> snd ` set es \<longrightarrow> OpenOffsetIndexMut (oi_f idx) (oi_cap idx) = Inr idx"
    using represents_reopen [OF assms] by blast
qed

lemma exampleIndex: "\<exists>idx. represents idx [(5, 100)] \<and> oi_cap idx = 3"
proof -
  have "CreateOffsetIndex 3 = Inr (projr (CreateOffsetIndex 3))"
    by (simp add: CreateOffsetIndex_def offsetIndexFileSize_def maxOffsetIndexCap_def OffsetIndexEntrySize_def)
  then obtain idx where "represents idx []" "oi_cap idx = 3" using represents_create by blast
  from oiAppend_ok [OF this(1), of 5 100] this(2) show ?thesis by (auto simp: lastKeyOf_def word_gt_0)
qed

theorem index_refines_list_witness:
  "\<exists>idx idx'. represents idx [(5, 100)] \<and> oiKeyLookup idx 9 = Inr (5, 100) \<and>
     oiAppend idx 8 200 = (idx', None) \<and> represents idx' [(5, 100), (8, 200)]"
proof -
  obtain idx where i: "represents idx [(5, 100)]" "oi_cap idx = 3" using exampleIndex by blast
  have "\<not> (8 :: u64) \<le> 5" "(5 :: u64) \<le> 9" by (simp_all add: word_le_nat_alt)
  with index_refines_list [OF i(1), of 9 8 200] i show ?thesis by (auto simp: lastKeyOf_def)
qed

text \<open> C40. Opening never trusts the file: from any bytes whatever and any capacity the options
  allow, opening for writing succeeds and yields a well-formed index, whose entries are an
  initial part of the file, in ascending order, without a zero key or offset; the read-only view
  of the same bytes is well formed in the same sense. \<close>

theorem index_open_wellformed:
  assumes "0 < cap" "cap \<le> maxOffsetIndexCap"
  shows "\<exists>idx es. OpenOffsetIndexMut f cap = Inr idx \<and> represents idx es \<and> 0 \<notin> snd ` set es \<and>
      take (16 * length es) (truncateFile f (cap * 16)) = entriesBytes es \<and>
    (\<exists>es'. oxEntries (OpenOffsetIndex f) = Inr es' \<and> entries_ok es' \<and> take (16 * length es') f = entriesBytes es')"
proof -
  obtain idx es where i: "OpenOffsetIndexMut f cap = Inr idx" "represents idx es" "prefix_ok (truncateFile f (cap * 16)) es"
    using OpenOffsetIndexMut_ok [OF assms] by blast
  obtain es' where v: "viewEntries (OpenOffsetIndex f) es'" using OpenOffsetIndex_view by blast
  have "oxEntries (OpenOffsetIndex f) = Inr es'"
    using readOffsetIndexEntries_eq [of es' "drop (16 * length es') (ox_f (OpenOffsetIndex f))"] view_split [OF v] v
    by (simp add: oxEntries_def viewEntries_def)
  moreover have "ox_f (OpenOffsetIndex f) = f" by (simp add: OpenOffsetIndex_def Let_def)
  ultimately show ?thesis using i v by (auto simp: prefix_ok_def viewEntries_def)
qed

theorem index_open_wellformed_witness:
  "\<exists>idx es. OpenOffsetIndexMut [1, 2, 3] 4 = Inr idx \<and> represents idx es"
proof -
  have "(0 :: nat) < 4" "4 \<le> maxOffsetIndexCap" by (simp_all add: maxOffsetIndexCap_def OffsetIndexEntrySize_def)
  from index_open_wellformed [OF this, of "[1, 2, 3]"] show ?thesis by blast
qed

end
