(* ===== verification/LogReplay.thy ===== *)
theory LogReplay
  imports ChangesetCodec OffsetIndex Recovery
begin

text \<open>
  Reading the log back (\<open>src/commitlog/segment.go\<close>, \<open>replay.go\<close> and parts of
  \<open>recovery.go\<close>): the segment reader with its seek, the replay of scanned segments
  into a state through an \<open>apply\<close> callback, and the plan by which the log is continued.

  The lemmas show that replay applies exactly the changesets of the records after the resume
  horizon, in order, whether or not the offset index is used, and, together with the codec, the
  segments and the recovery batch, that the log of a history of commits recovers the database.
\<close>

section \<open>The segment reader\<close>

definition nextWithMax :: "segmentReader \<Rightarrow> u32 \<Rightarrow> ((log_error + logRecord) \<times> segmentReader) option" where
  "nextWithMax sr maxPayload =
     (case DecodeRecord (drop (sr_pos sr) (sr_file sr)) maxPayload of
        None \<Rightarrow> None
      | Some (res, rest) \<Rightarrow>
          let sr = sr\<lparr>sr_pos := length (sr_file sr) - length rest\<rparr> in
          (case res of
             Inl e \<Rightarrow> Some (Inl e, sr)
           | Inr rec \<Rightarrow> Some (Inr rec, sr\<lparr>sr_lastTx := lr_TxID rec\<rparr>)))"

definition srNext :: "segmentReader \<Rightarrow> ((log_error + logRecord) \<times> segmentReader) option" where
  "srNext sr = nextWithMax sr formatMaxRecordPayloadBytes"

definition validIndexedOffset :: "segmentReader \<Rightarrow> u64 \<Rightarrow> u64 \<Rightarrow> bool" where
  "validIndexedOffset sr off txID =
     (if unat off < SegmentHeaderSize \<or> unat off \<ge> length (sr_file sr) then False
      else case scanNextRecord (drop (unat off) (sr_file sr)) of
             Some (Inr rec, _) \<Rightarrow> lr_TxID rec = txID
           | _ \<Rightarrow> False)"

lemma DecodeRecord_shorter: "DecodeRecord r m = Some (Inr rec, r') \<Longrightarrow> length r' < length r"
  by (auto simp: DecodeRecord_frame length_recordBytes size_defs)

lemma nextWithMax_progress:
  assumes "nextWithMax sr m = Some (Inr rec, sr')"
  shows "sr_file sr' = sr_file sr" "sr_pos sr < sr_pos sr'" "sr_pos sr' \<le> length (sr_file sr)"
proof -
  obtain rest where "DecodeRecord (drop (sr_pos sr) (sr_file sr)) m = Some (Inr rec, rest)"
    and sr': "sr' = sr\<lparr>sr_pos := length (sr_file sr) - length rest, sr_lastTx := lr_TxID rec\<rparr>"
    using assms by (auto simp: nextWithMax_def Let_def split: option.splits sum.splits)
  from DecodeRecord_shorter [OF this(1)] show "sr_file sr' = sr_file sr" "sr_pos sr < sr_pos sr'"
    "sr_pos sr' \<le> length (sr_file sr)"
    by (auto simp: sr')
qed

lemma nextWithMax_measure:
  "nextWithMax sr m = Some (Inr rec, sr') \<Longrightarrow> length (sr_file sr') - sr_pos sr' < length (sr_file sr) - sr_pos sr"
  using nextWithMax_progress [of sr m rec sr'] by auto

function seekLoop :: "segmentReader \<Rightarrow> u64 \<Rightarrow> (segmentReader \<times> log_error option) option" where
  "seekLoop sr targetKey =
     (case nextWithMax sr formatMaxRecordPayloadBytes of
        None \<Rightarrow> None
      | Some (Inl e, sr') \<Rightarrow> Some (sr', if e = IOErr EOF then None else Some e)
      | Some (Inr rec, sr') \<Rightarrow>
          if lr_TxID rec \<ge> targetKey then Some (sr'\<lparr>sr_pos := sr_pos sr, sr_lastTx := 0\<rparr>, None)
          else seekLoop sr' targetKey)"
  by pat_completeness auto
termination
  by (relation "measure (\<lambda>(sr, _). length (sr_file sr) - sr_pos sr)") (auto dest: nextWithMax_measure)

declare seekLoop.simps [simp del]

definition SeekToTxID :: "segmentReader \<Rightarrow> u64 \<Rightarrow> offsetIndex option \<Rightarrow> (segmentReader \<times> log_error option) option" where
  "SeekToTxID sr target idx =
     (let startOff =
        (case idx of
           None \<Rightarrow> SegmentHeaderSize
         | Some ox \<Rightarrow>
             (case oxKeyLookup ox target of
                Inl _ \<Rightarrow> SegmentHeaderSize
              | Inr (key, off) \<Rightarrow> if validIndexedOffset sr off key then unat off else SegmentHeaderSize))
      in seekLoop (sr\<lparr>sr_pos := startOff, sr_lastTx := 0\<rparr>) target)"

section \<open>Replay\<close>

definition OffsetIndexFileName :: "u64 \<Rightarrow> string" where
  "OffsetIndexFileName startTxID = digitsN 20 (unat startTxID) @ ''.idx''"

definition isEmptyDamagedTail :: "segmentInfo \<Rightarrow> bool" where
  "isEmptyDamagedTail segment \<longleftrightarrow>
     si_AppendMode segment = AppendByFreshNextSegment \<and> si_LastTx segment < si_StartTx segment"

definition shouldStopAfterRecord :: "segmentInfo \<Rightarrow> u64 \<Rightarrow> bool" where
  "shouldStopAfterRecord segment txID \<longleftrightarrow>
     si_AppendMode segment = AppendByFreshNextSegment \<and> txID \<ge> si_LastTx segment"

definition seekReplayReaderToHorizon :: "directory \<Rightarrow> segmentReader \<Rightarrow> u64 \<Rightarrow> u64 \<Rightarrow> segmentReader option" where
  "seekReplayReaderToHorizon dir rdr startTx fromTxID =
     (if fromTxID < startTx then Some rdr
      else case map_of dir (OffsetIndexFileName startTx) of
        Some (RegularFile f) \<Rightarrow> do {
          (rdr', err) \<leftarrow> SeekToTxID rdr (fromTxID + 1) (Some (OpenOffsetIndex f));
          Some (if err = None then rdr' else rdr'\<lparr>sr_pos := SegmentHeaderSize, sr_lastTx := 0\<rparr>)
        }
      | _ \<Rightarrow> Some rdr)"

datatype 'e replay_error =
    ReplayOpen log_error
  | ReplayRead log_error
  | ReplayDecode u64 log_error
  | ReplayApply u64 'e

text \<open>The callback updates its state and may fail; a panic of it is \<open>None\<close>.\<close>

type_synonym ('s, 'e) applier = "'s \<Rightarrow> changeset \<Rightarrow> ('s \<times> 'e option) option"

function replayRecords ::
  "registry \<Rightarrow> ('s, 'e) applier \<Rightarrow> segmentInfo \<Rightarrow> u64 \<Rightarrow> segmentReader \<Rightarrow> 's \<Rightarrow> u64 \<Rightarrow>
     ('s \<times> u64 \<times> 'e replay_error option) option" where
  "replayRecords reg apply segment fromTxID rdr st maxApplied =
     (case srNext rdr of
        None \<Rightarrow> None
      | Some (Inl err, _) \<Rightarrow>
          if err = IOErr EOF then Some (st, maxApplied, None) else Some (st, maxApplied, Some (ReplayRead err))
      | Some (Inr record, rdr') \<Rightarrow>
          let txID = lr_TxID record in
          if txID \<le> fromTxID then
            if shouldStopAfterRecord segment txID then Some (st, maxApplied, None)
            else replayRecords reg apply segment fromTxID rdr' st maxApplied
          else
            (case DecodeChangeset (lr_Payload record) reg of
               Inl err \<Rightarrow> Some (st, maxApplied, Some (ReplayDecode txID err))
             | Inr changeset \<Rightarrow>
                 (case apply st changeset of
                    None \<Rightarrow> None
                  | Some (st', Some err) \<Rightarrow> Some (st', maxApplied, Some (ReplayApply txID err))
                  | Some (st', None) \<Rightarrow>
                      let maxApplied = (if txID > maxApplied then txID else maxApplied) in
                      if shouldStopAfterRecord segment txID then Some (st', maxApplied, None)
                      else replayRecords reg apply segment fromTxID rdr' st' maxApplied)))"
  by pat_completeness auto
termination
  by (relation "measure (\<lambda>(_, _, _, _, sr, _, _). length (sr_file sr) - sr_pos sr)")
    (auto simp: srNext_def dest: nextWithMax_measure)

declare replayRecords.simps [simp del]

fun replayLogWithApply ::
  "directory \<Rightarrow> segmentInfo list \<Rightarrow> u64 \<Rightarrow> registry \<Rightarrow> ('s, 'e) applier \<Rightarrow> 's \<Rightarrow> u64 \<Rightarrow>
     ('s \<times> u64 \<times> 'e replay_error option) option" where
  "replayLogWithApply dir [] fromTxID reg apply st maxApplied = Some (st, maxApplied, None)"
| "replayLogWithApply dir (segment # segments) fromTxID reg apply st maxApplied =
     (if isEmptyDamagedTail segment then replayLogWithApply dir segments fromTxID reg apply st maxApplied
      else if si_LastTx segment \<le> fromTxID then replayLogWithApply dir segments fromTxID reg apply st maxApplied
      else case OpenSegment dir (si_Path segment) of
        Inl err \<Rightarrow> Some (st, maxApplied, Some (ReplayOpen err))
      | Inr rdr \<Rightarrow> do {
          rdr \<leftarrow> (if si_StartTx segment \<le> fromTxID
                      then seekReplayReaderToHorizon dir rdr (si_StartTx segment) fromTxID
                      else Some rdr);
          (st, maxApplied, err) \<leftarrow> replayRecords reg apply segment fromTxID rdr st maxApplied;
          if err \<noteq> None then Some (st, maxApplied, err)
          else replayLogWithApply dir segments fromTxID reg apply st maxApplied
        })"

definition ReplayLog ::
  "directory \<Rightarrow> committedState \<Rightarrow> segmentInfo list \<Rightarrow> u64 \<Rightarrow> registry \<Rightarrow>
     (committedState \<times> u64 \<times> store_error replay_error option) option" where
  "ReplayLog dir committed segments fromTxID reg =
     replayLogWithApply dir segments fromTxID reg (\<lambda>cs ch. ApplyChangeset cs (Some ch)) committed fromTxID"

section \<open>Continuing the log\<close>

record recoveryResumePlan =
  rp_SegmentStartTx :: u64
  rp_NextTxID :: u64
  rp_AppendMode :: appendMode

definition recoveryNextTxID :: "u64 \<Rightarrow> log_error + u64" where
  "recoveryNextTxID maxAppliedTxID =
     (if maxAppliedTxID = - 1 then Inl (ErrAfterMaxTx maxAppliedTxID maxAppliedTxID []) else Inr (maxAppliedTxID + 1))"

definition planRecoveryResume :: "segmentInfo list \<Rightarrow> u64 \<Rightarrow> log_error + recoveryResumePlan" where
  "planRecoveryResume segments maxAppliedTxID =
     bindE (recoveryNextTxID maxAppliedTxID) (\<lambda>nextTxID.
     if segments = [] then
       Inr \<lparr>rp_SegmentStartTx = nextTxID, rp_NextTxID = nextTxID, rp_AppendMode = AppendByFreshNextSegment\<rparr>
     else case si_AppendMode (last segments) of
       AppendInPlace \<Rightarrow>
         Inr \<lparr>rp_SegmentStartTx = si_StartTx (last segments), rp_NextTxID = nextTxID, rp_AppendMode = AppendInPlace\<rparr>
     | AppendByFreshNextSegment \<Rightarrow>
         Inr \<lparr>rp_SegmentStartTx = nextTxID, rp_NextTxID = nextTxID, rp_AppendMode = AppendByFreshNextSegment\<rparr>
     | AppendForbidden \<Rightarrow> Inl (ErrAppendForbidden (si_Path (last segments))))"

fun validateSnapshotLogBoundary :: "segmentInfo list \<Rightarrow> u64 \<Rightarrow> log_error + unit" where
  "validateSnapshotLogBoundary [] snapshotTxID = Inr ()"
| "validateSnapshotLogBoundary (segment # segments) snapshotTxID =
     (if si_LastTx segment \<le> snapshotTxID then validateSnapshotLogBoundary segments snapshotTxID
      else
        let expected = snapshotTxID + 1 in
        if si_StartTx segment > expected
        then Inl (HistoryGapError expected (si_StartTx segment) (si_Path segment))
        else Inr ())"

definition damagedTailSegments :: "segmentInfo list \<Rightarrow> segmentInfo list" where
  "damagedTailSegments segments = filter (\<lambda>s. si_AppendMode s = AppendByFreshNextSegment) segments"

section \<open>Reading whole records\<close>

lemma unat_succ: "t \<noteq> - 1 \<Longrightarrow> unat (t + 1 :: u64) = unat t + 1"
  by (metis Suc_eq_plus1 unatSuc add.commute add_eq_0_iff)

lemma contiguousFrom_unat:
  "contiguousFrom t recs \<Longrightarrow> i < length recs \<Longrightarrow> unat (lr_TxID (recs ! i)) = unat t + i"
proof (induction recs arbitrary: t i)
  case (Cons rec recs)
  show ?case
  proof (cases i)
    case (Suc k)
    then have t: "t \<noteq> - 1" "contiguousFrom (t + 1) recs" "k < length recs" using Cons.prems by auto
    with Cons.IH [OF t(2,3)] Suc show ?thesis by (simp add: unat_succ)
  qed (use Cons.prems in simp)
qed simp

lemma contiguousFrom_less:
  "contiguousFrom t recs \<Longrightarrow> i < length recs \<Longrightarrow> j < length recs \<Longrightarrow> lr_TxID (recs ! i) < lr_TxID (recs ! j) \<longleftrightarrow> i < j"
  by (simp add: word_less_nat_alt contiguousFrom_unat)

lemma contiguousFrom_le:
  "contiguousFrom t recs \<Longrightarrow> i < length recs \<Longrightarrow> j < length recs \<Longrightarrow> lr_TxID (recs ! i) \<le> lr_TxID (recs ! j) \<longleftrightarrow> i \<le> j"
  by (simp add: word_le_nat_alt contiguousFrom_unat)

definition offsetOf :: "logRecord list \<Rightarrow> nat \<Rightarrow> nat" where
  "offsetOf recs i = 8 + length (frames (take i recs))"

definition readerAt :: "segmentReader \<Rightarrow> logRecord list \<Rightarrow> bytes \<Rightarrow> nat \<Rightarrow> bool" where
  "readerAt sr recs tail i \<longleftrightarrow>
     sr_file sr = segmentHeader @ frames recs @ tail \<and> sr_pos sr = offsetOf recs i \<and> i \<le> length recs \<and>
     list_all record_ok recs"

lemma readerAt_rest:
  assumes "readerAt sr recs tail i"
  shows "drop (sr_pos sr) (sr_file sr) = frames (drop i recs) @ tail"
proof -
  have "frames recs = frames (take i recs) @ frames (drop i recs)"
    by (metis append_take_drop_id concat_append map_append)
  then show ?thesis using assms by (simp add: readerAt_def offsetOf_def)
qed

lemma readerAt_next:
  assumes r: "readerAt sr recs tail i" and i: "i < length recs"
  shows "\<exists>sr'. srNext sr = Some (Inr (recs ! i), sr') \<and> readerAt sr' recs tail (Suc i)"
proof -
  have "drop i recs = recs ! i # drop (Suc i) recs" using i by (simp add: Cons_nth_drop_Suc)
  then have rest: "drop (sr_pos sr) (sr_file sr) = recordBytes (recs ! i) @ (frames (drop (Suc i) recs) @ tail)"
    using readerAt_rest [OF r] by simp
  have ok: "record_ok (recs ! i)" using r i by (simp add: readerAt_def list_all_length)
  have d: "DecodeRecord (drop (sr_pos sr) (sr_file sr)) formatMaxRecordPayloadBytes =
      Some (Inr (recs ! i), frames (drop (Suc i) recs) @ tail)"
    unfolding rest by (rule decoded.whole [OF record_ok_decodable [OF ok]])
  have "frames recs = frames (take (Suc i) recs) @ frames (drop (Suc i) recs)"
    by (metis append_take_drop_id concat_append map_append)
  then have "length (sr_file sr) - length (frames (drop (Suc i) recs) @ tail) = offsetOf recs (Suc i)"
    using r by (simp add: readerAt_def offsetOf_def)
  then show ?thesis
    using d r i by (simp add: srNext_def nextWithMax_def Let_def readerAt_def)
qed

lemma DecodeRecord_zeros:
  assumes "allBytesZero r"
  shows "\<exists>r'. DecodeRecord r m = Some (Inl (IOErr EOF), r')"
proof (cases "length r < 14")
  case True
  then show ?thesis using assms by (cases "r = []") (auto simp: DecodeRecord_def readFull_def size_defs)
next
  case False
  then have "readFull RecordHeaderSize r = Inr (take 14 r, drop 14 r)" by (simp add: readFull_def size_defs)
  moreover have "isZeroRecordHeader (take 14 r)"
    using assms by (auto simp: isZeroRecordHeader_def allBytesZero_def list_all_iff dest: in_set_takeD)
  ultimately show ?thesis by (simp add: DecodeRecord_def)
qed

lemma readerAt_end:
  assumes "readerAt sr recs tail (length recs)" "allBytesZero tail"
  shows "\<exists>sr'. srNext sr = Some (Inl (IOErr EOF), sr')"
  using DecodeRecord_zeros [OF assms(2), of formatMaxRecordPayloadBytes] readerAt_rest [OF assms(1)]
  by (auto simp: srNext_def nextWithMax_def Let_def)

section \<open>Replay applies the records after the horizon\<close>

fun applyRecords ::
  "registry \<Rightarrow> ('s, 'e) applier \<Rightarrow> u64 \<Rightarrow> logRecord list \<Rightarrow> 's \<Rightarrow> u64 \<Rightarrow> ('s \<times> u64 \<times> 'e replay_error option) option" where
  "applyRecords reg apply fromTxID [] st mx = Some (st, mx, None)"
| "applyRecords reg apply fromTxID (rec # recs) st mx =
     (if lr_TxID rec \<le> fromTxID then applyRecords reg apply fromTxID recs st mx
      else case DecodeChangeset (lr_Payload rec) reg of
        Inl err \<Rightarrow> Some (st, mx, Some (ReplayDecode (lr_TxID rec) err))
      | Inr ch \<Rightarrow>
          (case apply st ch of
             None \<Rightarrow> None
           | Some (st', Some err) \<Rightarrow> Some (st', mx, Some (ReplayApply (lr_TxID rec) err))
           | Some (st', None) \<Rightarrow> applyRecords reg apply fromTxID recs st' (max (lr_TxID rec) mx)))"

lemma applyRecords_skip:
  "\<forall>rec \<in> set xs. lr_TxID rec \<le> fromTxID \<Longrightarrow> applyRecords reg apply fromTxID (xs @ ys) st mx = applyRecords reg apply fromTxID ys st mx"
  by (induction xs) simp_all

lemma applyRecords_append:
  "applyRecords reg apply fromTxID (xs @ ys) st mx =
     (case applyRecords reg apply fromTxID xs st mx of
        Some (st', mx', None) \<Rightarrow> applyRecords reg apply fromTxID ys st' mx' | r \<Rightarrow> r)"
  by (induction xs arbitrary: st mx) (auto split: sum.splits option.splits)

definition stopsAtLast :: "segmentInfo \<Rightarrow> logRecord list \<Rightarrow> bytes \<Rightarrow> bool" where
  "stopsAtLast seg recs tail \<longleftrightarrow>
     (if si_AppendMode seg = AppendByFreshNextSegment then recs \<noteq> [] \<and> si_LastTx seg = lr_TxID (last recs)
      else allBytesZero tail)"

lemma replayRecords_at:
  assumes "contiguousFrom t recs" "stopsAtLast seg recs tail"
  shows "readerAt sr recs tail i \<Longrightarrow> si_AppendMode seg = AppendByFreshNextSegment \<longrightarrow> i < length recs \<Longrightarrow>
    replayRecords reg apply seg fromTxID sr st mx = applyRecords reg apply fromTxID (drop i recs) st mx"
proof (induction "length recs - i" arbitrary: i sr st mx)
  case 0
  then have i: "i = length recs" by (simp add: readerAt_def)
  then have "allBytesZero tail" using 0 assms(2) by (simp add: stopsAtLast_def split: if_splits)
  then obtain sr' where "srNext sr = Some (Inl (IOErr EOF), sr')" using readerAt_end 0(2) i by blast
  then show ?case using i by (subst replayRecords.simps) simp
next
  case (Suc k)
  then have i: "i < length recs" by simp
  obtain sr' where sr': "srNext sr = Some (Inr (recs ! i), sr')" "readerAt sr' recs tail (Suc i)"
    using readerAt_next [OF Suc.prems(1) i] by blast
  have d: "drop i recs = recs ! i # drop (Suc i) recs" using i by (simp add: Cons_nth_drop_Suc)
  have stop: "shouldStopAfterRecord seg (lr_TxID (recs ! i)) \<longleftrightarrow>
      si_AppendMode seg = AppendByFreshNextSegment \<and> i = length recs - 1"
  proof (cases "si_AppendMode seg = AppendByFreshNextSegment")
    case True
    then have "si_LastTx seg = lr_TxID (recs ! (length recs - 1))"
      using assms(2) by (simp add: stopsAtLast_def last_conv_nth)
    then show ?thesis
      using contiguousFrom_le [OF assms(1), of "length recs - 1" i] i by (auto simp: shouldStopAfterRecord_def)
  qed (simp add: shouldStopAfterRecord_def)
  have go: "replayRecords reg apply seg fromTxID sr' st' mx' = applyRecords reg apply fromTxID (drop (Suc i) recs) st' mx'"
    if "\<not> shouldStopAfterRecord seg (lr_TxID (recs ! i))" for st' mx'
  proof (rule Suc.hyps(1))
    show "k = length recs - Suc i" using Suc.hyps(2) by simp
    show "si_AppendMode seg = AppendByFreshNextSegment \<longrightarrow> Suc i < length recs" using that stop i by auto
  qed (rule sr'(2))
  have ends: "drop (Suc i) recs = []" if "shouldStopAfterRecord seg (lr_TxID (recs ! i))" using that stop i by simp
  have mx: "max (lr_TxID (recs ! i)) mx = (if lr_TxID (recs ! i) > mx then lr_TxID (recs ! i) else mx)"
    by (auto simp: max_def)
  show ?case
    unfolding d using sr'(1) go ends
    by (subst replayRecords.simps) (auto simp: Let_def mx split: sum.splits option.splits)
qed

section \<open>Seeking\<close>

lemma seekLoop_at:
  "readerAt sr recs tail i \<Longrightarrow> i \<le> l \<Longrightarrow> l < length recs \<Longrightarrow> target \<le> lr_TxID (recs ! l) \<Longrightarrow>
   \<exists>j sr'. seekLoop sr target = Some (sr', None) \<and> readerAt sr' recs tail j \<and> i \<le> j \<and> j \<le> l \<and>
     (\<forall>m. i \<le> m \<and> m < j \<longrightarrow> lr_TxID (recs ! m) < target)"
proof (induction "l - i" arbitrary: i sr)
  case 0
  then have i: "i = l" by simp
  obtain sr' where sr': "nextWithMax sr formatMaxRecordPayloadBytes = Some (Inr (recs ! i), sr')" "readerAt sr' recs tail (Suc i)"
    using readerAt_next [OF 0(2)] 0 i by (auto simp: srNext_def)
  then show ?case
    using 0 i by (subst seekLoop.simps) (auto simp: readerAt_def intro!: exI [of _ i])
next
  case (Suc k)
  then have i: "i < l" by simp
  obtain sr' where sr': "nextWithMax sr formatMaxRecordPayloadBytes = Some (Inr (recs ! i), sr')" "readerAt sr' recs tail (Suc i)"
    using readerAt_next [OF Suc.prems(1)] Suc.prems(3) i by (auto simp: srNext_def)
  show ?case
  proof (cases "target \<le> lr_TxID (recs ! i)")
    case True
    then show ?thesis
      using sr' Suc.prems i by (subst seekLoop.simps) (auto simp: readerAt_def intro!: exI [of _ i])
  next
    case False
    have k: "k = l - Suc i" using Suc.hyps(2) by simp
    obtain j sr'' where j: "seekLoop sr' target = Some (sr'', None)" "readerAt sr'' recs tail j" "Suc i \<le> j" "j \<le> l"
      "\<forall>m. Suc i \<le> m \<and> m < j \<longrightarrow> lr_TxID (recs ! m) < target"
      using Suc.hyps(1) [OF k sr'(2) Suc_leI [OF i] Suc.prems(3,4)] by blast
    have "lr_TxID (recs ! m) < target" if "i \<le> m" "m < j" for m
      using that j(5) False by (cases "m = i") auto
    with j False sr'(1) show ?thesis
      by (subst seekLoop.simps) (auto intro!: exI [of _ j])
  qed
qed

text \<open>
  An index entry is honest about a segment when it names the start of a record with its
  identifier, or a place where no record with that identifier can be read.
\<close>

definition honestEntry :: "bytes \<Rightarrow> logRecord list \<Rightarrow> u64 \<times> u64 \<Rightarrow> bool" where
  "honestEntry f recs e \<longleftrightarrow>
     (\<exists>i < length recs. unat (snd e) = offsetOf recs i \<and> lr_TxID (recs ! i) = fst e) \<or>
     (\<forall>rec r. scanNextRecord (drop (unat (snd e)) f) = Some (Inr rec, r) \<longrightarrow> lr_TxID rec \<noteq> fst e)"

definition honestIndex :: "directory \<Rightarrow> segmentInfo \<Rightarrow> logRecord list \<Rightarrow> bool" where
  "honestIndex dir seg recs \<longleftrightarrow>
     (\<forall>f idx es e. map_of dir (si_Path seg) = Some (RegularFile f) \<longrightarrow>
        map_of dir (OffsetIndexFileName (si_StartTx seg)) = Some (RegularFile idx) \<longrightarrow>
        viewEntries (OpenOffsetIndex idx) es \<longrightarrow> e \<in> set es \<longrightarrow> honestEntry f recs e)"

lemma SeekToTxID_at:
  assumes f: "sr_file sr = segmentHeader @ frames recs @ tail" and ok: "list_all record_ok recs" and c: "contiguousFrom t recs"
    and l: "l < length recs" "target \<le> lr_TxID (recs ! l)" and v: "viewEntries ox es"
    and h: "\<And>e. e \<in> set es \<Longrightarrow> honestEntry (sr_file sr) recs e"
  shows "\<exists>j sr'. SeekToTxID sr target (Some ox) = Some (sr', None) \<and> readerAt sr' recs tail j \<and> j < length recs \<and>
     (\<forall>m < j. lr_TxID (recs ! m) < target)"
proof -
  define off where "off = (case oxKeyLookup ox target of Inl _ \<Rightarrow> SegmentHeaderSize
    | Inr (key, off) \<Rightarrow> if validIndexedOffset sr off key then unat off else SegmentHeaderSize)"
  have "\<exists>i \<le> l. off = offsetOf recs i \<and> (\<forall>m < i. lr_TxID (recs ! m) < target)"
  proof (cases "off = SegmentHeaderSize")
    case True
    then show ?thesis by (intro exI [of _ 0]) (simp add: offsetOf_def size_defs)
  next
    case False
    then obtain key o' where k: "oxKeyLookup ox target = Inr (key, o')" "validIndexedOffset sr o' key" "off = unat o'"
      by (auto simp: off_def split: sum.splits if_splits)
    note e = view_lookup.lookup_entry [OF v k(1)]
    have "\<exists>rec r. scanNextRecord (drop (unat o') (sr_file sr)) = Some (Inr rec, r) \<and> lr_TxID rec = key"
      using k(2) by (auto simp: validIndexedOffset_def split: if_splits option.splits sum.splits)
    with h [OF e(1)] obtain i where i: "i < length recs" "unat o' = offsetOf recs i" "lr_TxID (recs ! i) = key"
      by (auto simp: honestEntry_def)
    have le: "lr_TxID (recs ! i) \<le> target" using e(2) i(3) by simp
    have "lr_TxID (recs ! m) < target" if "m < i" for m
      using contiguousFrom_less [OF c, of m i] that i(1) le by (meson less_le_trans less_trans)
    moreover have "i \<le> l" using contiguousFrom_le [OF c i(1) l(1)] le l(2) by (meson order_trans)
    ultimately show ?thesis using i k(3) by auto
  qed
  then obtain i where i: "i \<le> l" "off = offsetOf recs i" "\<forall>m < i. lr_TxID (recs ! m) < target" by blast
  have "readerAt (sr\<lparr>sr_pos := off, sr_lastTx := 0\<rparr>) recs tail i"
    using f ok i l by (simp add: readerAt_def)
  from seekLoop_at [OF this i(1) l] obtain j sr' where
    j: "seekLoop (sr\<lparr>sr_pos := off, sr_lastTx := 0\<rparr>) target = Some (sr', None)" "readerAt sr' recs tail j" "i \<le> j" "j \<le> l"
    "\<forall>m. i \<le> m \<and> m < j \<longrightarrow> lr_TxID (recs ! m) < target" by blast
  have "lr_TxID (recs ! m) < target" if "m < j" for m using that i(3) j(5) by (cases "m < i") auto
  moreover have "SeekToTxID sr target (Some ox) = seekLoop (sr\<lparr>sr_pos := off, sr_lastTx := 0\<rparr>) target"
    by (simp add: SeekToTxID_def off_def)
  ultimately show ?thesis using j(1,2,4) l(1) by auto
qed

lemma segmentHolds_last:
  assumes "segmentHolds dir seg recs" "si_StartTx seg \<noteq> 0"
  shows "recs \<noteq> [] \<Longrightarrow> si_LastTx seg = lr_TxID (last recs) \<and> si_StartTx seg \<le> si_LastTx seg"
    and "rec \<in> set recs \<Longrightarrow> lr_TxID rec \<le> si_LastTx seg"
    and "recs = [] \<Longrightarrow> si_LastTx seg < si_StartTx seg"
proof -
  have c: "contiguousFrom (si_StartTx seg) recs" and l: "si_LastTx seg = lastTxOf (si_StartTx seg) recs"
    using assms by (simp_all add: segmentHolds_def)
  show *: "si_LastTx seg = lr_TxID (last recs) \<and> si_StartTx seg \<le> si_LastTx seg" if "recs \<noteq> []" for recs'
    using contiguousFrom_last [OF c that] contiguousFrom_unat [OF c, of "length recs - 1"] l that
    by (simp add: lastTxOf_def last_conv_nth word_le_nat_alt)
  show "lr_TxID rec \<le> si_LastTx seg" if "rec \<in> set recs"
  proof -
    obtain i where "i < length recs" "rec = recs ! i" using \<open>rec \<in> set recs\<close> by (auto simp: in_set_conv_nth)
    moreover have "recs \<noteq> []" using that by auto
    ultimately show ?thesis
      using contiguousFrom_le [OF c, of i "length recs - 1"] * by (simp add: last_conv_nth)
  qed
  show "si_LastTx seg < si_StartTx seg" if "recs = []"
    using that l assms(2) by (simp add: lastTxOf_def word_less_nat_alt unat_minus_one unat_gt_0)
qed

section \<open>Replay of scanned segments\<close>

lemma readerAt_open:
  assumes "OpenSegment dir path = Inr sr" "sr_file sr = segmentHeader @ frames recs @ tail" "list_all record_ok recs"
  shows "readerAt sr recs tail 0"
  using assms by (auto simp: OpenSegment_Inr readerAt_def offsetOf_def)

lemma seekReplay_at:
  assumes o: "OpenSegment dir (si_Path seg) = Inr sr" and f: "sr_file sr = segmentHeader @ frames recs @ tail"
    and holds: "segmentHolds dir seg recs" and h: "honestIndex dir seg recs" and s: "si_StartTx seg \<noteq> 0"
    and horizon: "si_StartTx seg \<le> fromTxID" "fromTxID < si_LastTx seg"
  shows "\<exists>j sr'. seekReplayReaderToHorizon dir sr (si_StartTx seg) fromTxID = Some sr' \<and> readerAt sr' recs tail j \<and>
     j < length recs \<and> (\<forall>rec \<in> set (take j recs). lr_TxID rec \<le> fromTxID)"
proof -
  have ok: "list_all record_ok recs" "contiguousFrom (si_StartTx seg) recs" using holds by (simp_all add: segmentHolds_def)
  have ne: "recs \<noteq> []" using segmentHolds_last(3) [OF holds s] horizon by (meson less_le_trans not_less_iff_gr_or_eq order.strict_trans1)
  have start: "readerAt sr recs tail 0" by (rule readerAt_open [OF o f ok(1)])
  have nf: "\<not> fromTxID < si_StartTx seg" using horizon(1) by simp
  show ?thesis
  proof (cases "\<exists>idx. map_of dir (OffsetIndexFileName (si_StartTx seg)) = Some (RegularFile idx)")
    case False
    then have "seekReplayReaderToHorizon dir sr (si_StartTx seg) fromTxID = Some sr"
      using nf by (auto simp: seekReplayReaderToHorizon_def split: option.splits dirEntry.splits)
    with start ne show ?thesis by (intro exI [of _ 0] exI [of _ sr]) simp
  next
    case True
    then obtain idx where idx: "map_of dir (OffsetIndexFileName (si_StartTx seg)) = Some (RegularFile idx)" ..
    obtain es where v: "viewEntries (OpenOffsetIndex idx) es" using OpenOffsetIndex_view by blast
    have "map_of dir (si_Path seg) = Some (RegularFile (sr_file sr))" using o by (auto simp: OpenSegment_Inr)
    then have honest: "\<And>e. e \<in> set es \<Longrightarrow> honestEntry (sr_file sr) recs e"
      using h idx v by (auto simp: honestIndex_def)
    have nmax: "fromTxID \<noteq> - 1" using horizon(2) by (metis word_order.extremum_strict)
    then have succ: "x < fromTxID + 1 \<longleftrightarrow> x \<le> fromTxID" for x
      by (auto simp: word_less_nat_alt word_le_nat_alt unat_succ)
    have last: "fromTxID + 1 \<le> lr_TxID (recs ! (length recs - 1))"
      using segmentHolds_last(1) [OF holds s ne] horizon(2) succ ne by (simp add: last_conv_nth) (meson not_le)
    from SeekToTxID_at [OF f ok _ last v honest] ne obtain j sr' where
      "SeekToTxID sr (fromTxID + 1) (Some (OpenOffsetIndex idx)) = Some (sr', None)" "readerAt sr' recs tail j" "j < length recs"
      "\<forall>m < j. lr_TxID (recs ! m) < fromTxID + 1" by auto
    then show ?thesis
      using idx nf succ by (intro exI [of _ j] exI [of _ sr']) (auto simp: seekReplayReaderToHorizon_def in_set_conv_nth)
  qed
qed

lemma replaySegment_holds:
  assumes holds: "segmentHolds dir seg recs" and h: "honestIndex dir seg recs" and s: "si_StartTx seg \<noteq> 0"
  shows "replayLogWithApply dir (seg # segs) fromTxID reg apply st mx =
     (case applyRecords reg apply fromTxID recs st mx of
        Some (st', mx', None) \<Rightarrow> replayLogWithApply dir segs fromTxID reg apply st' mx' | r \<Rightarrow> r)"
proof (cases "isEmptyDamagedTail seg \<or> si_LastTx seg \<le> fromTxID")
  case True
  have "\<forall>rec \<in> set recs. lr_TxID rec \<le> fromTxID"
  proof (cases "isEmptyDamagedTail seg")
    case True
    then have "recs = []" using segmentHolds_last(1) [OF holds s] by (meson isEmptyDamagedTail_def not_le)
    then show ?thesis by simp
  next
    case False
    then show ?thesis using True segmentHolds_last(2) [OF holds s] by (meson order_trans)
  qed
  then have "applyRecords reg apply fromTxID (recs @ []) st mx = applyRecords reg apply fromTxID [] st mx"
    by (rule applyRecords_skip)
  with True show ?thesis by auto
next
  case False
  obtain f tail where f: "map_of dir (si_Path seg) = Some (RegularFile f)"
    "f = [] \<and> recs = [] \<and> si_AppendMode seg = AppendByFreshNextSegment \<or>
     f = segmentHeader @ frames recs @ tail \<and> (si_AppendMode seg = AppendByFreshNextSegment \<or> allBytesZero tail)"
    using holds unfolding segmentHolds_def by blast
  have ne: "recs \<noteq> []" if "si_AppendMode seg = AppendByFreshNextSegment"
    using that False segmentHolds_last(3) [OF holds s] by (auto simp: isEmptyDamagedTail_def)
  have whole: "f = segmentHeader @ frames recs @ tail" and stop: "stopsAtLast seg recs tail"
    using f(2) ne segmentHolds_last(1) [OF holds s] by (auto simp: stopsAtLast_def)
  have ok: "list_all record_ok recs" "contiguousFrom (si_StartTx seg) recs" "si_Path seg = SegmentFileName (si_StartTx seg)"
    using holds by (simp_all add: segmentHolds_def)
  obtain sr where o: "OpenSegment dir (si_Path seg) = Inr sr" "sr_file sr = f"
    using f(1) whole ok(3) by (simp add: OpenSegment_Inr) (metis segmentReader.select_convs)
  have "\<exists>j sr'. (if si_StartTx seg \<le> fromTxID then seekReplayReaderToHorizon dir sr (si_StartTx seg) fromTxID else Some sr) = Some sr' \<and>
      readerAt sr' recs tail j \<and> (si_AppendMode seg = AppendByFreshNextSegment \<longrightarrow> j < length recs) \<and>
      (\<forall>rec \<in> set (take j recs). lr_TxID rec \<le> fromTxID)"
  proof (cases "si_StartTx seg \<le> fromTxID")
    case True
    then show ?thesis
      using seekReplay_at [OF o(1) _ holds h s True] o(2) whole False by (auto simp: not_le)
  next
    case False
    then show ?thesis
      using readerAt_open [OF o(1) _ ok(1)] o(2) whole ne by (intro exI [of _ 0] exI [of _ sr]) auto
  qed
  then obtain j sr' where j: "(if si_StartTx seg \<le> fromTxID then seekReplayReaderToHorizon dir sr (si_StartTx seg) fromTxID else Some sr) = Some sr'"
    "readerAt sr' recs tail j" "si_AppendMode seg = AppendByFreshNextSegment \<longrightarrow> j < length recs"
    "\<forall>rec \<in> set (take j recs). lr_TxID rec \<le> fromTxID" by blast
  have "replayRecords reg apply seg fromTxID sr' st mx = applyRecords reg apply fromTxID (drop j recs) st mx"
    by (rule replayRecords_at [OF ok(2) stop j(2,3)])
  also have "\<dots> = applyRecords reg apply fromTxID (take j recs @ drop j recs) st mx"
    by (rule applyRecords_skip [OF j(4), symmetric])
  finally have run: "replayRecords reg apply seg fromTxID sr' st mx = applyRecords reg apply fromTxID recs st mx" by simp
  show ?thesis
    using False o(1) j(1) run by (auto split: option.splits simp del: if_split)
qed

lemma replayLog_holds:
  assumes "list_all2 (segmentHolds dir) segs hist" "list_all2 (honestIndex dir) segs hist" "\<forall>s \<in> set segs. si_StartTx s \<noteq> 0"
  shows "replayLogWithApply dir segs fromTxID reg apply st mx = applyRecords reg apply fromTxID (concat hist) st mx"
  using assms
proof (induction segs arbitrary: hist st mx)
  case Nil
  then show ?case by simp
next
  case (Cons seg segs)
  then obtain recs hist' where hist: "hist = recs # hist'" "segmentHolds dir seg recs" "honestIndex dir seg recs"
    "list_all2 (segmentHolds dir) segs hist'" "list_all2 (honestIndex dir) segs hist'"
    by (auto simp: list_all2_Cons1)
  show ?case
    unfolding replaySegment_holds [OF hist(2,3) Cons.prems(3) [THEN bspec, OF list.set_intros(1)]]
    using Cons.IH [OF hist(4,5)] Cons.prems(3) by (auto simp: hist(1) applyRecords_append split: option.splits)
qed

section \<open>Logging a history of commits\<close>

definition regOf :: "committedState \<Rightarrow> registry" where
  "regOf cs tid = map_option t_schema (csTable cs tid)"

definition sameChanges :: "changeset \<Rightarrow> changeset \<Rightarrow> bool" where
  "sameChanges ch ch' \<longleftrightarrow> changeset_wf ch' \<and> TableChanges (Some ch') = TableChanges (Some ch)"

lemma rows_values_wf: "\<forall>row \<in> set rows. row_wf ts row \<Longrightarrow> list_all (list_all wf_value) rows"
proof (unfold list_all_iff, intro ballI)
  fix row v assume "\<forall>row \<in> set rows. row_wf ts row" "row \<in> set rows" "v \<in> set row"
  then have "list_all2 value_fits (ts_columns ts) row" by (simp add: row_wf_def)
  then show "wf_value v" using \<open>v \<in> set row\<close>
    by (auto simp: value_fits_def list_all2_conv_all_nth in_set_conv_nth)
qed

lemma commit_log_ready:
  assumes inv: "tx_inv cs tr" and c: "commit_done cs tr n adv cs' tr' ch"
  shows "log_ready (regOf cs) ch"
  unfolding log_ready_def
proof (intro conjI allI impI)
  have wf: "changeset_wf ch" using c by (simp add: commit_done_def)
  then show "distinct (map fst (ch_tables ch))" by (simp add: changeset_wf_def)
  fix tid tc assume "(tid, Some tc) \<in> set (ch_tables ch)"
  then have "TableChanges (Some ch) tid = Some tc" using changeset_entry [OF wf] by blast
  then have net: "netChange cs (tr_tx tr) tid = Some tc" using c by (simp add: commit_done_def)
  then obtain t where t: "csTable cs tid = Some t"
    and tc: "tc = tableChange tid t (insertedOf (tr_tx tr) tid) (deletedOf t (tr_tx tr) tid)"
    by (auto simp: netChange_def split: if_splits)
  show "registered (regOf cs) tid tc" by (simp add: registered_def regOf_def t tc tableChange_def)
  have b: "buffers_ok (tr_tx tr)" using inv by (simp add: tx_inv_def)
  note ok = tx_inv_table [OF inv t]
  have "row_wf (t_schema t) row" if "row \<in> set (insertedOf (tr_tx tr) tid)" for row
  proof -
    have "row \<in># rowBag (insOf (tr_tx tr) tid)" using that by (simp flip: insertedOf_bag [OF b])
    moreover have "finite (dom (insOf (tr_tx tr) tid))" by (simp add: insOf_def finite_dom_map_of)
    ultimately show ?thesis using ok(5) by (simp add: rowBag_mem tx_table_ok_def)
  qed
  moreover have "row_wf (t_schema t) row" if "row \<in> set (deletedOf t (tr_tx tr) tid)" for row
  proof -
    have sub: "delsOf (tr_tx tr) tid \<subseteq> dom (rowsOf t)" using ok(5) by (simp add: tx_table_ok_def)
    have "row \<in># rowBag (rowsOf t |` delsOf (tr_tx tr) tid)" using that by (simp flip: deletedOf_bag [OF b sub])
    moreover have "finite (dom (rowsOf t |` delsOf (tr_tx tr) tid))" using finite_rows by simp
    ultimately have "row \<in> ran (rowsOf t |` delsOf (tr_tx tr) tid)" by (simp add: rowBag_mem)
    then have "row \<in> ran (rowsOf t)" by (auto simp: ran_def restrict_map_def split: if_splits)
    then show ?thesis using ok(1) by (simp add: tbl_inv_def)
  qed
  ultimately show "values_wf tc"
    using rows_values_wf [of _ "t_schema t"] by (simp add: values_wf_def tc tableChange_def)
qed

lemma commit_regOf: "commit_done cs tr n adv cs' tr' ch \<Longrightarrow> regOf cs' = regOf cs"
proof
  fix tid assume "commit_done cs tr n adv cs' tr' ch"
  then have "rel_option (post_commit tr tid) (csTable cs tid) (csTable cs' tid)" by (simp add: commit_done_def)
  then show "regOf cs' tid = regOf cs tid"
    by (auto simp: regOf_def post_commit_def option_rel_Some1 elim: option.rel_cases)
qed

lemma history_regs:
  "db_history cs chs cs' \<Longrightarrow> cs_inv cs \<Longrightarrow> cs_inv cs' \<and> regOf cs' = regOf cs \<and> list_all (log_ready (regOf cs)) chs"
proof (induction rule: db_history.induct)
  case (extend cs chs cs1 ch cs2)
  obtain tr n tr' where s: "tx_inv cs1 tr" "commit_done cs1 tr n True cs2 tr' ch"
    using history_step [OF extend.hyps(2)] extend.IH extend.prems by blast
  show ?case
    using extend.IH [OF extend.prems] commit_log_ready [OF s] commit_regOf [OF s(2)] commit_done_inv [OF s] by simp
qed simp

lemma db_history_take:
  "db_history cs chs cs' \<Longrightarrow> \<exists>cs1. db_history cs (take m chs) cs1"
proof (induction arbitrary: m rule: db_history.induct)
  case (start cs)
  then show ?case by (auto intro: db_history.start)
next
  case (extend cs chs cs1 ch cs2)
  show ?case
  proof (cases "m \<le> length chs")
    case True
    then show ?thesis using extend.IH [of m] by simp
  next
    case False
    then have "take m (chs @ [ch]) = chs @ [ch]" by simp
    then show ?thesis using db_history.extend [OF extend.hyps] by auto
  qed
qed

lemma decoded_sameChanges:
  assumes ready: "log_ready reg ch" and enc: "EncodeChangeset (Some ch) = Some (Inr bs)"
  shows "\<exists>ch'. DecodeChangeset bs reg = Inr ch' \<and> sameChanges ch ch'"
proof -
  let ?ids = "changesetTableIDs (Some ch)"
  have e: "length ?ids < 2 ^ 32" "\<forall>tid \<in> set ?ids. table_fits formatMaxRowBytes (tcOf (Some ch) tid)" "bs = changesetBytes (Some ch)"
    using enc unfolding EncodeChangeset_def encodeChangeset_iff [OF ready] by blast+
  let ?ch = "\<lparr>ch_txID = 0, ch_tables = map (\<lambda>tid. (tid, Some (tcOf (Some ch) tid))) ?ids\<rparr>"
  have "distinct ?ids" using ready by (simp add: log_ready_def changesetTableIDs_distinct)
  then have "changeset_wf ?ch" by (auto simp: changeset_wf_def comp_def)
  moreover have "TableChanges (Some ?ch) = TableChanges (Some ch)"
    using decoded_TableChanges [OF ready] by blast
  ultimately show ?thesis
    using decodeChangeset_bytes [OF ready e(1,2)] e(3) by (auto simp: DecodeChangeset_def sameChanges_def)
qed

section \<open>Replaying the decoded changesets\<close>

lemma commit_done_same:
  "commit_done cs tr n True cs' tr' ch \<Longrightarrow> sameChanges ch ch' \<Longrightarrow> commit_done cs tr n True cs' tr' (ch'\<lparr>ch_txID := n\<rparr>)"
  by (simp add: commit_done_def sameChanges_def changeset_wf_def)

lemma rbApply_txID: "rbApply cs b (Some (ch\<lparr>ch_txID := n\<rparr>)) = rbApply cs b (Some ch)"
  by (cases "usable (Some b)") (simp_all add: rbApply_def)

lemma history_batch_same:
  assumes "db_history cs chs cs'" "cs_inv cs" "list_all2 sameChanges chs chs'"
  shows "\<exists>st. batchAll cs (NewRecoveryBatch (Some cs)) chs' = Some ((NewRecoveryBatch (Some cs))\<lparr>rb_staged := st\<rparr>, None) \<and>
      staged_ok cs st \<and> mirrored cs' (overlay cs st)"
  using assms
proof (induction arbitrary: chs' rule: db_history.induct)
  case (start cs)
  have "overlay cs [] = csTable cs" by (simp add: overlay_def fun_eq_iff)
  with start mirrored_start [OF start(1)] show ?case
    by (auto simp: NewRecoveryBatch_def intro!: exI [of _ "[]"])
next
  case (extend cs chs cs1 ch cs2)
  let ?b = "NewRecoveryBatch (Some cs)"
  obtain as ch' where chs': "chs' = as @ [ch']" "list_all2 sameChanges chs as" "sameChanges ch ch'"
    using extend.prems(2) by (auto simp: list_all2_append1 list_all2_Cons1)
  obtain st where h: "batchAll cs ?b as = Some (?b\<lparr>rb_staged := st\<rparr>, None)" "staged_ok cs st" "mirrored cs1 (overlay cs st)"
    using extend.IH [OF extend.prems(1) chs'(2)] by blast
  have "cs_inv cs1" using history_regs [OF extend.hyps(1) extend.prems(1)] by simp
  then obtain tr n tr' where s: "tx_inv cs1 tr" "commit_done cs1 tr n True cs2 tr' ch"
    using history_step [OF extend.hyps(2)] by blast
  have "rb_open (?b\<lparr>rb_staged := st\<rparr>)" by (simp add: rb_open_def NewRecoveryBatch_def)
  from rbApply_step [OF s(1) commit_done_same [OF s(2) chs'(3)] extend.prems(1) this] h(2,3) obtain st' where
    "rbApply cs (?b\<lparr>rb_staged := st\<rparr>) (Some ch') = Some (?b\<lparr>rb_staged := st'\<rparr>, None)" "staged_ok cs st'" "mirrored cs2 (overlay cs st')"
    by (auto simp: rbApply_txID)
  then show ?case using batchAll_snoc [OF h(1)] chs'(1) by auto
qed

definition batchApplier :: "committedState \<Rightarrow> (recoveryBatch, store_error) applier" where
  "batchApplier cs b ch = rbApply cs b (Some ch)"

lemma applyRecords_batch:
  "list_all2 (\<lambda>rec ch. DecodeChangeset (lr_Payload rec) reg = Inr ch) recs chs \<Longrightarrow> \<forall>rec \<in> set recs. fromTxID < lr_TxID rec \<Longrightarrow>
   batchAll cs b chs = Some (b', None) \<Longrightarrow>
   applyRecords reg (batchApplier cs) fromTxID recs b mx = Some (b', foldl (\<lambda>m rec. max (lr_TxID rec) m) mx recs, None)"
proof (induction recs chs arbitrary: b mx rule: list_all2_induct)
  case (Cons rec recs ch chs)
  then show ?case
    by (auto simp: batchApplier_def bind_eq_Some_conv not_le [symmetric] split: option.splits)
qed simp

lemma foldl_max_contiguous:
  "contiguousFrom t recs \<Longrightarrow> mx \<le> t \<Longrightarrow> recs \<noteq> [] \<Longrightarrow> foldl (\<lambda>m rec. max (lr_TxID rec) m) mx recs = lr_TxID (last recs)"
proof (induction recs arbitrary: t mx)
  case (Cons rec recs)
  show ?case
  proof (cases "recs = []")
    case False
    then have "t \<noteq> - 1" "contiguousFrom (t + 1) recs" "lr_TxID rec = t" using Cons.prems by auto
    moreover from this(1) have "t \<le> t + 1" by (simp add: word_le_nat_alt unat_succ)
    ultimately show ?thesis using Cons.IH [of "t + 1" t] Cons.prems False by (simp add: max_absorb1)
  qed (use Cons.prems in \<open>simp add: max_def\<close>)
qed simp

section \<open>Recovering from a log\<close>

lemma scan_history:
  assumes "ScanSegments dir = Some (Inr (segs, horizon))" "segs \<noteq> []"
  obtains hist where "list_all2 (segmentHolds dir) segs hist" "\<forall>s \<in> set segs. si_StartTx s \<noteq> 0"
    "contiguousFrom (si_StartTx (hd segs)) (concat hist)" "horizon = si_LastTx (last segs)"
proof -
  obtain paths where p: "listSegmentPaths dir = Inr paths" "scanSegmentPaths dir paths = Some (Inr (segs, horizon))"
    using assms(1) by (auto simp: ScanSegments_def split: sum.splits)
  obtain entries where "listEntries dir = Inr entries" "paths = sort_key snd entries"
    using p(1) by (auto simp: listSegmentPaths_def result_simps)
  then have names: "\<forall>(name, t) \<in> set paths. name = SegmentFileName t \<and> t \<noteq> 0"
    using listEntries_names [of dir entries] by auto
  obtain u where s: "scanPaths dir paths = Some (Inr segs)" "validateSegmentContinuity segs = Inr u"
    "horizon = si_LastTx (last segs)"
    using p(2) assms(2) by (auto simp: scanSegmentPaths_def result_simps split: if_splits)
  from scanPaths_sound [OF s(1) names] obtain hist where
    h: "list_all2 (segmentHolds dir) segs hist" "\<forall>s \<in> set segs. si_StartTx s \<noteq> 0" by blast
  moreover have "contiguousFrom (si_StartTx (hd segs)) (concat hist)"
    using validateSegmentContinuity_chain [OF s(2) assms(2) h] by simp
  ultimately show thesis using that s(3) by blast
qed

lemma honest_all:
  "list_all2 (segmentHolds dir) segs hist \<Longrightarrow>
   \<forall>seg \<in> set segs. \<forall>recs. segmentHolds dir seg recs \<longrightarrow> honestIndex dir seg recs \<Longrightarrow> list_all2 (honestIndex dir) segs hist"
  by (induction rule: list_all2_induct) auto

text \<open> C14. Replay applies the log. When a scan accepts the segments of a directory and the offset
  indexes are honest (an entry is the position of the record of its transaction, or nothing that
  reads as a record of that transaction), there is one contiguous history of records, held by
  the segments, such that replay from any horizon, with any changeset consumer, does exactly
  what applying the records after the horizon in order does: no record is skipped, repeated or
  reordered, whether or not the reader jumped through an index. \<close>

theorem replay_applies_log:
  assumes "ScanSegments dir = Some (Inr (segs, horizon))" and "segs \<noteq> []"
    and "\<forall>seg \<in> set segs. \<forall>recs. segmentHolds dir seg recs \<longrightarrow> honestIndex dir seg recs"
  shows "\<exists>hist. list_all2 (segmentHolds dir) segs hist \<and> contiguousFrom (si_StartTx (hd segs)) (concat hist) \<and>
     (\<forall>fromTxID reg apply st. replayLogWithApply dir segs fromTxID reg apply st fromTxID =
        applyRecords reg apply fromTxID (concat hist) st fromTxID)"
proof -
  obtain hist where h: "list_all2 (segmentHolds dir) segs hist" "\<forall>s \<in> set segs. si_StartTx s \<noteq> 0"
    "contiguousFrom (si_StartTx (hd segs)) (concat hist)"
    using scan_history [OF assms(1,2)] by blast
  show ?thesis
    by (intro exI [of _ hist] conjI allI) (rule h replayLog_holds [OF h(1) honest_all [OF h(1) assms(3)] h(2)])+
qed

lemma history_decodes:
  assumes "list_all (log_ready reg) chs" "list_all2 (\<lambda>ch rec. EncodeChangeset (Some ch) = Some (Inr (lr_Payload rec))) chs recs"
  shows "\<exists>chs'. list_all2 sameChanges chs chs' \<and> list_all2 (\<lambda>rec ch. DecodeChangeset (lr_Payload rec) reg = Inr ch) recs chs'"
  using assms(2,1)
proof (induction rule: list_all2_induct)
  case (Cons ch chs rec recs)
  then obtain chs' ch' where "list_all2 sameChanges chs chs'" "list_all2 (\<lambda>rec ch. DecodeChangeset (lr_Payload rec) reg = Inr ch) recs chs'"
    "DecodeChangeset (lr_Payload rec) reg = Inr ch'" "sameChanges ch ch'"
    using decoded_sameChanges [of reg ch "lr_Payload rec"] by auto
  then show ?case by (intro exI [of _ "ch' # chs'"]) simp
qed simp

lemma cut_segmentHolds:
  assumes "map_of dir (SegmentFileName t) = Some (RegularFile (segmentHeader @ frames recs @ tail))"
    "list_all record_ok recs" "contiguousFrom t recs" "stopsAt scanNextRecord tail" "t \<noteq> 0"
  shows "\<exists>info. scanOneSegment dir (SegmentFileName t) True = Some (Inr info) \<and> segmentHolds dir info recs \<and>
     si_StartTx info = t \<and> si_LastTx info = lastTxOf t recs \<and> si_AppendMode info \<noteq> AppendForbidden"
proof -
  have t: "tailMode AppendInPlace tail = AppendByFreshNextSegment \<or> allBytesZero tail"
    using assms(4) scanNextRecord_EOF [of tail] by (auto simp: stopsAt_def tailError_def tailMode_def)
  have "tailMode AppendInPlace tail \<noteq> AppendForbidden"
    by (simp add: tailMode_def split: option.splits prod.splits sum.splits log_error.splits)
  with t assms scanOneSegment_frames [OF assms(1-4) _ assms(5), of True] show ?thesis
    by (auto simp: segmentHolds_def)
qed

lemma contiguous_after:
  assumes "contiguousFrom t recs" "t \<noteq> 0" "rec \<in> set recs"
  shows "t - 1 < lr_TxID rec"
proof -
  obtain i where "i < length recs" "rec = recs ! i" using assms(3) by (auto simp: in_set_conv_nth)
  then have "unat (lr_TxID rec) = unat t + i" using contiguousFrom_unat [OF assms(1)] by simp
  moreover have "unat (t - 1) < unat t" using assms(2) by (simp add: unat_sub word_le_nat_alt unat_gt_0 Suc_leI)
  ultimately show ?thesis by (simp add: word_less_nat_alt)
qed

lemma foldl_max_lastTx:
  assumes "contiguousFrom t recs" "t \<noteq> 0"
  shows "foldl (\<lambda>m rec. max (lr_TxID rec) m) (t - 1) recs = lastTxOf t recs"
proof (cases "recs = []")
  case False
  have "t - 1 \<le> t" using assms(2) by (simp add: word_le_nat_alt unat_sub unat_gt_0 Suc_leI)
  then show ?thesis using foldl_max_contiguous [OF assms(1) _ False] contiguousFrom_last [OF assms(1) False]
    by (simp add: lastTxOf_def)
qed (simp add: lastTxOf_def)

lemma mirrored_bags:
  assumes "mirrored cs1 f"
  shows "\<forall>tid. rel_option (\<lambda>u v. t_schema v = t_schema u \<and> tableBag v = tableBag u) (csTable cs1 tid) (f tid)"
proof
  fix tid
  have "rel_option mirrors (csTable cs1 tid) (f tid)" using assms by (simp add: mirrored_def)
  then show "rel_option (\<lambda>u v. t_schema v = t_schema u \<and> tableBag v = tableBag u) (csTable cs1 tid) (f tid)"
    by (rule option.rel_mono_strong) (simp add: mirrors_def)
qed

lemma resume_after:
  assumes "si_AppendMode info \<noteq> AppendForbidden" "t \<noteq> 0" "unat t + m < 2 ^ 64"
  shows "\<exists>plan. planRecoveryResume [info] (t + of_nat m - 1) = Inr plan \<and> rp_NextTxID plan = t + of_nat m"
proof -
  have "unat (t + of_nat m) = unat t + m" using assms(3) by (simp add: unat_word_ariths unat_of_nat)
  moreover have "0 < unat t" using assms(2) by (simp add: unat_gt_0)
  ultimately have "t + of_nat m \<noteq> 0" by (metis add_is_0 less_numeral_extra(3) unat_0)
  then have "recoveryNextTxID (t + of_nat m - 1) = Inr (t + of_nat m)"
    by (simp add: recoveryNextTxID_def)
  then show ?thesis using assms(1) by (cases "si_AppendMode info") (simp_all add: planRecoveryResume_def)
qed

text \<open>
  The directory after a crash: the one segment the writer was appending to, cut, with no offset
  index left.
\<close>

definition crashedLog :: "u64 \<Rightarrow> segmentWriter \<Rightarrow> nat \<Rightarrow> directory" where
  "crashedLog t sw k = [(SegmentFileName t, RegularFile (take k (sw_file sw)))]"

lemma parse_segmentName: "parseSegmentFileStartTx (SegmentFileName t) = Inr t"
  by (simp add: parse_Inr)

lemma crashedLog_list: "t \<noteq> 0 \<Longrightarrow> listSegmentPaths (crashedLog t sw k) = Inr [(SegmentFileName t, t)]"
  by (simp add: crashedLog_def listSegmentPaths_def parse_segmentName rejectBootstrapSegmentStart_def)

text \<open> C1. Durable commits survive a crash. Run any serial history of commits on a well-formed
  database, encode each changeset and append it to a segment, syncing now and then; cut the
  segment file anywhere not before the synchronised length. Then the scan accepts the log, replay
  from before the segment through a recovery batch succeeds and the batch commits, and the
  recovered state is well formed and holds in every table exactly the rows the database had after
  some number of the commits, at least all the synchronised ones; a resume plan exists, and
  continues with the transaction id after the last recovered one. \<close>

theorem durable_commits_survive:
  assumes "cs_inv cs" and "db_history cs chs cs'"
    and "list_all2 (\<lambda>ch rec. EncodeChangeset (Some ch) = Some (Inr (lr_Payload rec))) chs recs"
    and "written t sw recs n" and "sw_synced sw \<le> k" and "unat t + length recs < 2 ^ 64"
  shows "\<exists>m cs1 segs b rep b' plan. n \<le> m \<and> m \<le> length chs \<and> db_history cs (take m chs) cs1 \<and>
     ScanSegments (crashedLog t sw k) = Some (Inr (segs, t + of_nat m - 1)) \<and>
     replayLogWithApply (crashedLog t sw k) segs (t - 1) (regOf cs) (batchApplier cs) (NewRecoveryBatch (Some cs)) (t - 1) =
       Some (b, t + of_nat m - 1, None) \<and>
     rbCommit cs b = (rep, b', None) \<and> cs_inv rep \<and>
     (\<forall>tid. rel_option (\<lambda>u v. t_schema v = t_schema u \<and> tableBag v = tableBag u) (csTable cs1 tid) (csTable rep tid)) \<and>
     planRecoveryResume segs (t + of_nat m - 1) = Inr plan \<and> rp_NextTxID plan = t + of_nat m"
proof -
  let ?dir = "crashedLog t sw k" and ?b = "NewRecoveryBatch (Some cs)"
  obtain m tail where m: "n \<le> m" "m \<le> length recs" "take k (sw_file sw) = segmentHeader @ frames (take m recs) @ tail"
    "stopsAt scanNextRecord tail" "list_all record_ok (take m recs)" "contiguousFrom t (take m recs)" "t \<noteq> 0"
    using written_cut [OF assms(4,5)] by blast
  have len: "length chs = length recs" using assms(3) by (rule list_all2_lengthD)
  have lastTx: "lastTxOf t (take m recs) = t + of_nat m - 1" using m(2) by (simp add: lastTxOf_def)
  obtain info where info: "scanOneSegment ?dir (SegmentFileName t) True = Some (Inr info)" "segmentHolds ?dir info (take m recs)"
    "si_StartTx info = t" "si_LastTx info = t + of_nat m - 1" "si_AppendMode info \<noteq> AppendForbidden"
    using cut_segmentHolds [OF _ m(5,6,4,7), of ?dir] m(3) lastTx by (auto simp: crashedLog_def)
  have scan: "ScanSegments ?dir = Some (Inr ([info], t + of_nat m - 1))"
    using info(1,4) by (simp add: ScanSegments_def scanSegmentPaths_def crashedLog_list [OF m(7)])
  obtain cs1 where h: "db_history cs (take m chs) cs1" using db_history_take [OF assms(2)] by blast
  have "list_all (log_ready (regOf cs)) (take m chs)" using history_regs [OF h assms(1)] by simp
  then obtain chs' where d: "list_all2 sameChanges (take m chs) chs'"
    "list_all2 (\<lambda>rec ch. DecodeChangeset (lr_Payload rec) (regOf cs) = Inr ch) (take m recs) chs'"
    using history_decodes [OF _ list_all2_takeI [OF assms(3)]] by blast
  obtain st where st: "batchAll cs ?b chs' = Some (?b\<lparr>rb_staged := st\<rparr>, None)" "staged_ok cs st" "mirrored cs1 (overlay cs st)"
    using history_batch_same [OF h assms(1) d(1)] by blast
  have "OffsetIndexFileName t \<noteq> SegmentFileName t" by (simp add: OffsetIndexFileName_def SegmentFileName_def)
  then have "honestIndex ?dir info (take m recs)" by (simp add: honestIndex_def info(3) crashedLog_def)
  then have "replayLogWithApply ?dir [info] (t - 1) (regOf cs) (batchApplier cs) ?b (t - 1) =
      applyRecords (regOf cs) (batchApplier cs) (t - 1) (take m recs) ?b (t - 1)"
    by (subst replayLog_holds [of _ _ "[take m recs]"]) (use info(2,3) m(7) in simp_all)
  also have "\<dots> = Some (?b\<lparr>rb_staged := st\<rparr>, t + of_nat m - 1, None)"
    using applyRecords_batch [OF d(2) _ st(1)] contiguous_after [OF m(6,7)] foldl_max_lastTx [OF m(6,7)] lastTx by auto
  finally have replay: "replayLogWithApply ?dir [info] (t - 1) (regOf cs) (batchApplier cs) ?b (t - 1) =
      Some (?b\<lparr>rb_staged := st\<rparr>, t + of_nat m - 1, None)" .
  have "rb_open (?b\<lparr>rb_staged := st\<rparr>)" by (simp add: rb_open_def NewRecoveryBatch_def)
  from rbCommit_ok [OF this, of cs] st(2) obtain rep b' where
    r: "rbCommit cs (?b\<lparr>rb_staged := st\<rparr>) = (rep, b', None)" "published cs st rep" by auto
  have mir: "mirrored cs1 (csTable rep)" using st(3) published_overlay [OF r(2)] by simp
  have bags: "\<forall>tid. rel_option (\<lambda>u v. t_schema v = t_schema u \<and> tableBag v = tableBag u) (csTable cs1 tid) (csTable rep tid)"
    using mir by (rule mirrored_bags)
  obtain plan where p: "planRecoveryResume [info] (t + of_nat m - 1) = Inr plan" "rp_NextTxID plan = t + of_nat m"
    using resume_after [OF info(5) m(7), of m] m(2) assms(6) by auto
  show ?thesis
    by (rule exI [of _ m], rule exI [of _ cs1], rule exI [of _ "[info]"], rule exI [of _ "?b\<lparr>rb_staged := st\<rparr>"],
        rule exI [of _ rep], rule exI [of _ b'], rule exI [of _ plan])
      (simp only: m(1) m(2) len h scan replay r(1) published_inv [OF assms(1) st(2) r(2)] bags p simp_thms)
qed

lemma index_not_segment: "OffsetIndexFileName s \<noteq> SegmentFileName u"
proof
  assume "OffsetIndexFileName s = SegmentFileName u"
  then have "last (OffsetIndexFileName s) = last (SegmentFileName u)" by simp
  then show False by (simp add: OffsetIndexFileName_def SegmentFileName_def)
qed

lemma exampleLog_honest:
  "\<forall>seg \<in> set segs. \<forall>recs. segmentHolds exampleLog seg recs \<longrightarrow> honestIndex exampleLog seg recs"
  by (simp add: honestIndex_def exampleLog_def index_not_segment)

definition exampleSegments :: "segmentInfo list" where
  "exampleSegments =
     [\<lparr>si_Path = SegmentFileName 1, si_StartTx = 1, si_LastTx = 2, si_Valid = True, si_AppendMode = AppendForbidden\<rparr>,
      \<lparr>si_Path = SegmentFileName 3, si_StartTx = 3, si_LastTx = 3, si_Valid = True, si_AppendMode = AppendByFreshNextSegment\<rparr>]"

theorem replay_applies_log_witness:
  "\<exists>segs hist. ScanSegments exampleLog = Some (Inr (segs, 3)) \<and> list_all2 (segmentHolds exampleLog) segs hist \<and>
     replayLogWithApply exampleLog segs 2 (\<lambda>tid. None) (\<lambda>n ch. Some (Suc n, None :: unit option)) 0 2 =
       applyRecords (\<lambda>tid. None) (\<lambda>n ch. Some (Suc n, None)) 2 (concat hist) 0 2"
proof -
  from replay_applies_log [OF exampleLog_scan list.distinct(2) exampleLog_honest] obtain hist where
    h: "list_all2 (segmentHolds exampleLog) exampleSegments hist"
    "\<forall>fromTxID reg (apply :: (nat, unit) applier) st. replayLogWithApply exampleLog exampleSegments fromTxID reg apply st fromTxID =
       applyRecords reg apply fromTxID (concat hist) st fromTxID"
    unfolding exampleSegments_def by metis
  show ?thesis
    by (rule exI [of _ exampleSegments], rule exI [of _ hist], intro conjI, rule exampleLog_scan [folded exampleSegments_def], rule h(1),
        rule h(2) [THEN spec, THEN spec, THEN spec, THEN spec])
qed

text \<open>One committed insertion, logged.\<close>

definition tagChangeset :: changeset where
  "tagChangeset = \<lparr>ch_txID = 9, ch_tables = [(7, Some \<lparr>tc_tableID = 7, tc_tableName = ''tags'',
     tc_schema = Some exampleSchema, tc_inserts = [tagRow 1 3], tc_deletes = []\<rparr>)]\<rparr>"

lemma tagCommit:
  "(case tx_run exampleState NewTransaction [TxInsert 7 (tagRow 0 3)] of
      None \<Rightarrow> False
    | Some (tr, oks) \<Rightarrow>
        (case CommitWithValidationAtTxID exampleState (Seal tr) 9 None of
           Some (cs', tr', Inr ch) \<Rightarrow> ch = tagChangeset
         | _ \<Rightarrow> False))"
  by code_simp

lemma tagHistory: "\<exists>cs'. db_history exampleState [tagChangeset] cs'"
proof -
  let ?ops = "[TxInsert 7 (tagRow 0 3)]"
  have ops: "list_all tx_op_ok ?ops" by (simp add: tagRow_values_ok)
  obtain tr oks where r: "tx_run exampleState NewTransaction ?ops = Some (tr, oks)"
    using tagCommit by (cases "tx_run exampleState NewTransaction ?ops") (auto simp del: tx_run.simps)
  obtain cs' tr' res where k: "CommitWithValidationAtTxID exampleState (Seal tr) 9 None = Some (cs', tr', res)"
    using tagCommit unfolding r by (cases "CommitWithValidationAtTxID exampleState (Seal tr) 9 None") auto
  have "res = Inr tagChangeset" using tagCommit unfolding r by (cases res) (auto simp: k)
  with db_history.extend [OF db_history.start db_step.commit [OF ops r]] k show ?thesis by fastforce
qed

lemma tagChangeset_ready: "log_ready (regOf exampleState) tagChangeset"
  using tagHistory history_regs [OF _ exampleState_inv] by fastforce

lemma tagRow_bytes:
  "list_all wf_value (tagRow 1 3) \<and> list_all2 column_ok (ts_columns exampleSchema) (tagRow 1 3) \<and>
   length (rowBytes (ts_columns exampleSchema) (tagRow 1 3)) = 12"
proof -
  have "\<exists>bs. AppendProductValueForColumns [] (tagRow 1 3) (ts_columns exampleSchema) = Inr bs \<and> length bs = 12"
    by (simp add: tagRow_def exampleSchema_def append_eval)
  moreover have "list_all wf_value (tagRow 1 3)" by (simp add: tagRow_def)
  ultimately show ?thesis by (auto simp: AppendProductValueForColumns_iff)
qed

lemma tagChangeset_encodes:
  "EncodeChangeset (Some tagChangeset) = Some (Inr (changesetBytes (Some tagChangeset))) \<and>
   length (changesetBytes (Some tagChangeset)) = 33"
proof -
  have ids: "changesetTableIDs (Some tagChangeset) = [7]"
    by (simp add: changesetTableIDs_def tagChangeset_def)
  have tc: "tcOf (Some tagChangeset) 7 = \<lparr>tc_tableID = 7, tc_tableName = ''tags'',
      tc_schema = Some exampleSchema, tc_inserts = [tagRow 1 3], tc_deletes = []\<rparr>"
    by (simp add: tcOf_def changesetTable_def tagChangeset_def)
  have fits: "\<forall>tid \<in> set (changesetTableIDs (Some tagChangeset)). table_fits formatMaxRowBytes (tcOf (Some tagChangeset) tid)"
    using tagRow_bytes by (simp add: ids tc table_fits_def rows_fit_def row_fits_def within_def formatMaxRowBytes_def)
  have n: "length (changesetBytes (Some tagChangeset)) = 33"
    using tagRow_bytes by (simp add: changesetBytes_def ids tc tableFrame_def rowsFrame_def rowFrame_def)
  then have w: "within formatMaxRecordPayloadBytes (length (changesetBytes (Some tagChangeset)))"
    by (simp add: within_def formatMaxRecordPayloadBytes_def)
  have c: "length (changesetTableIDs (Some tagChangeset)) < 2 ^ 32" by (simp add: ids)
  from encodedSize_eq [OF tagChangeset_ready c fits disjI2 [OF w]] fits w c n show ?thesis
    unfolding EncodeChangeset_def encodeChangeset_iff [OF tagChangeset_ready] by blast
qed

definition tagRecord :: logRecord where
  "tagRecord = \<lparr>lr_TxID = 1, lr_RecordType = RecordTypeChangeset, lr_Flags = 0,
     lr_Payload = changesetBytes (Some tagChangeset)\<rparr>"

lemma tagWriter: "\<exists>sw. written 1 sw [tagRecord] 1 \<and> sw_synced sw = 59"
proof -
  have "CreateSegment [] 1 = Inr (projr (CreateSegment [] 1))"
    by (simp add: CreateSegment_def Let_def rejectBootstrapSegmentStart_def requireCreatableRegularFilePath_def)
  then obtain sw where w: "written 1 sw [tagRecord] 0"
    using written_all [of "[]" 1 _ "[tagRecord]"] tagChangeset_encodes
    by (auto simp: tagRecord_def record_ok_def formatMaxRecordPayloadBytes_def)
  from written_inv [OF written.synced [OF w]] written.synced [OF w] tagChangeset_encodes show ?thesis
    by (intro exI [of _ "swSync sw"]) (simp add: length_recordBytes tagRecord_def size_defs)
qed

theorem durable_commits_survive_witness:
  "\<exists>sw segs b rep b'. written 1 sw [tagRecord] 1 \<and> ScanSegments (crashedLog 1 sw 60) = Some (Inr (segs, 1)) \<and>
     replayLogWithApply (crashedLog 1 sw 60) segs 0 (regOf exampleState) (batchApplier exampleState)
       (NewRecoveryBatch (Some exampleState)) 0 = Some (b, 1, None) \<and>
     rbCommit exampleState b = (rep, b', None) \<and> cs_inv rep"
proof -
  obtain sw where w: "written 1 sw [tagRecord] 1" "sw_synced sw = 59" using tagWriter by blast
  obtain cs' where h: "db_history exampleState [tagChangeset] cs'" using tagHistory by blast
  have e: "list_all2 (\<lambda>ch rec. EncodeChangeset (Some ch) = Some (Inr (lr_Payload rec))) [tagChangeset] [tagRecord]"
    using tagChangeset_encodes by (simp add: tagRecord_def)
  from durable_commits_survive [OF exampleState_inv h e w(1), of 60] w(2) obtain m segs b rep b' where
    m: "1 \<le> m" "m \<le> length [tagChangeset]" and
    r: "ScanSegments (crashedLog 1 sw 60) = Some (Inr (segs, 1 + of_nat m - 1))"
    "replayLogWithApply (crashedLog 1 sw 60) segs (1 - 1) (regOf exampleState) (batchApplier exampleState)
       (NewRecoveryBatch (Some exampleState)) (1 - 1) = Some (b, 1 + of_nat m - 1, None)"
    "rbCommit exampleState b = (rep, b', None)" "cs_inv rep"
    by (elim meta_impE exE conjE) simp_all
  have "m = 1" using m by simp
  with r w(1) show ?thesis by auto
qed

end
