(* ===== verification/Budget.thy ===== *)
theory Budget
  imports Table Bsatn
begin

text \<open>
  Evaluation under budgets (\<^verbatim>\<open>src/internal/querywork/budget.go\<close>,
  \<^verbatim>\<open>src/subscription/delta_budget.go\<close>, \<^verbatim>\<open>multi_join_limits.go\<close>). The budgets travel in the
  context of a query: evaluating threads the context and stops at the first error. A panic
  inside an evaluation is an error of it, as \<^verbatim>\<open>evalQuerySafe\<close> makes it. The contract
  \<open>computes\<close> says that a computation can only return one value, that it fails only for a
  quota or a cancelled request, and that without budgets it does return.
\<close>

section \<open>The context\<close>

definition MaxInt :: int where "MaxInt = 2 ^ 63 - 1"

record budget =
  bg_limit :: int
  bg_used :: int

record deltaBudget =
  db_rowLimit :: int
  db_byteLimit :: int
  db_rows :: int
  db_bytes :: int

text \<open>
  \<open>q_polls\<close> is the number of polls of the context that still succeed before it is seen cancelled;
  \<open>None\<close> when it never is.
\<close>

record qctx =
  q_work :: "budget option"
  q_delta :: "deltaBudget option"
  q_polls :: "nat option"

datatype query_error =
    ErrSubscriptionWorkLimit int int
  | ErrDeltaRowLimit int int
  | ErrDeltaByteLimit int int
  | ErrInitialRowLimit int int
  | ErrCanceled
  | ErrOrderColumn string
  | ErrMultiJoinLimit nat int
  | EvalPanic

type_synonym 'a query = "qctx \<Rightarrow> query_error + ('a \<times> qctx)"

definition ret :: "'a \<Rightarrow> 'a query" where
  "ret x c = Inr (x, c)"

definition bindQ :: "'a query \<Rightarrow> ('a \<Rightarrow> 'b query) \<Rightarrow> 'b query" where
  "bindQ m f c = bindE (m c) (\<lambda>(x, c). f x c)"

definition failQ :: "query_error \<Rightarrow> 'a query" where
  "failQ e c = Inl e"

definition panicQ :: "'a option \<Rightarrow> 'a query" where
  "panicQ x = (case x of None \<Rightarrow> failQ EvalPanic | Some x \<Rightarrow> ret x)"

text \<open>A range loop whose body updates the loop's variables and may return early with an error.\<close>

fun forQ :: "('x \<Rightarrow> 's \<Rightarrow> 's query) \<Rightarrow> 'x list \<Rightarrow> 's \<Rightarrow> 's query" where
  "forQ body [] st = ret st"
| "forQ body (x # xs) st = bindQ (body x st) (forQ body xs)"

section \<open>Charging\<close>

definition Background :: qctx where
  "Background = \<lparr>q_work = None, q_delta = None, q_polls = None\<rparr>"

definition WithBudget :: "qctx \<Rightarrow> int \<Rightarrow> qctx" where
  "WithBudget ctx limit = ctx\<lparr>q_work := Some \<lparr>bg_limit = limit, bg_used = 0\<rparr>\<rparr>"

definition withDeltaBudget :: "qctx \<Rightarrow> int \<Rightarrow> int \<Rightarrow> qctx" where
  "withDeltaBudget ctx rowLimit byteLimit =
     ctx\<lparr>q_delta := Some \<lparr>db_rowLimit = rowLimit, db_byteLimit = byteLimit, db_rows = 0, db_bytes = 0\<rparr>\<rparr>"

definition ChargeN :: "u64 \<Rightarrow> qctx \<Rightarrow> (int \<times> int) + qctx" where
  "ChargeN n ctx =
     (case q_work ctx of
        None \<Rightarrow> Inr ctx
      | Some b \<Rightarrow>
          if bg_limit b \<le> 0 \<or> n = 0 then Inr ctx
          else
            let remaining = bg_limit b - bg_used b in
            if remaining < 0 \<or> uint n > remaining
            then Inl (if uint n \<le> MaxInt - bg_used b then bg_used b + uint n else MaxInt, bg_limit b)
            else Inr (ctx\<lparr>q_work := Some (b\<lparr>bg_used := bg_used b + uint n\<rparr>)\<rparr>))"

definition chargeSubscriptionWorkN :: "u64 \<Rightarrow> unit query" where
  "chargeSubscriptionWorkN n ctx =
     (case ChargeN n ctx of
        Inl (used, limit) \<Rightarrow> Inl (ErrSubscriptionWorkLimit used limit)
      | Inr ctx \<Rightarrow> Inr ((), ctx))"

definition chargeSubscriptionWork :: "unit query" where
  "chargeSubscriptionWork = chargeSubscriptionWorkN 1"

definition chargeDeltaRowN :: "productValue \<Rightarrow> u64 \<Rightarrow> unit query" where
  "chargeDeltaRowN row n ctx =
     (case q_delta ctx of
        None \<Rightarrow> Inr ((), ctx)
      | Some b \<Rightarrow>
          if n = 0 then Inr ((), ctx)
          else if uint n > MaxInt - db_rows b then Inl (ErrDeltaRowLimit MaxInt (db_rowLimit b))
          else
            let rows = db_rows b + uint n in
            if db_rowLimit b > 0 \<and> rows > db_rowLimit b then Inl (ErrDeltaRowLimit rows (db_rowLimit b))
            else if db_byteLimit b > 0 then
              let rowBytes = int (EncodedProductValueSize row); perRow = 4 + rowBytes in
              if rowBytes > MaxInt - 4 then Inl (ErrDeltaByteLimit MaxInt (db_byteLimit b))
              else if uint n > MaxInt div perRow \<or> uint n * perRow > MaxInt - db_bytes b
              then Inl (ErrDeltaByteLimit MaxInt (db_byteLimit b))
              else
                let bytes = db_bytes b + uint n * perRow in
                if bytes > db_byteLimit b then Inl (ErrDeltaByteLimit bytes (db_byteLimit b))
                else Inr ((), ctx\<lparr>q_delta := Some (b\<lparr>db_rows := rows, db_bytes := bytes\<rparr>)\<rparr>)
            else Inr ((), ctx\<lparr>q_delta := Some (b\<lparr>db_rows := rows\<rparr>)\<rparr>))"

definition chargeDeltaRow :: "productValue \<Rightarrow> unit query" where
  "chargeDeltaRow row = chargeDeltaRowN row 1"

definition ctxErr :: "unit query" where
  "ctxErr ctx =
     (case q_polls ctx of
        None \<Rightarrow> Inr ((), ctx)
      | Some 0 \<Rightarrow> Inl ErrCanceled
      | Some (Suc n) \<Rightarrow> Inr ((), ctx\<lparr>q_polls := Some n\<rparr>))"

section \<open>The contract of an evaluation\<close>

named_theorems computes_intros \<open>what evaluations compute\<close>

definition unlimited :: "qctx \<Rightarrow> bool" where
  "unlimited ctx \<longleftrightarrow> q_delta ctx = None \<and> q_polls ctx = None \<and>
     (case q_work ctx of None \<Rightarrow> True | Some b \<Rightarrow> bg_limit b \<le> 0)"

fun quota :: "query_error \<Rightarrow> bool" where
  "quota (ErrOrderColumn _) = False"
| "quota EvalPanic = False"
| "quota _ = True"

definition computes :: "'a query \<Rightarrow> 'a \<Rightarrow> bool" where
  "computes m x \<longleftrightarrow>
     (\<forall>c. case m c of Inl e \<Rightarrow> quota e \<and> \<not> unlimited c
          | Inr (y, c') \<Rightarrow> y = x \<and> (unlimited c \<longrightarrow> unlimited c'))"

lemma computes_ret [computes_intros]: "computes (ret x) x"
  by (simp add: computes_def ret_def)

lemma computes_bind:
  assumes "computes m x" "computes (f x) y"
  shows "computes (bindQ m f) y"
proof -
  have "case bindQ m f c of Inl e \<Rightarrow> quota e \<and> \<not> unlimited c
          | Inr (z, c') \<Rightarrow> z = y \<and> (unlimited c \<longrightarrow> unlimited c')" for c
  proof (cases "m c")
    case (Inl e)
    then show ?thesis using assms(1) by (auto simp: computes_def bindQ_def dest: spec [of _ c])
  next
    case (Inr r)
    obtain z d where r: "r = (z, d)" by (cases r)
    have z: "z = x" "unlimited c \<longrightarrow> unlimited d"
      using assms(1) Inr r unfolding computes_def by (auto dest!: spec [of _ c])
    from assms(2) have "case f x d of Inl e \<Rightarrow> quota e \<and> \<not> unlimited d
        | Inr (z, c') \<Rightarrow> z = y \<and> (unlimited d \<longrightarrow> unlimited c')"
      unfolding computes_def by blast
    then show ?thesis using z Inr r by (auto simp: bindQ_def split: sum.splits)
  qed
  then show ?thesis by (simp add: computes_def)
qed

lemma computes_panicQ: "x = Some y \<Longrightarrow> computes (panicQ x) y"
  by (simp add: panicQ_def computes_ret)

lemma computes_workN [computes_intros]: "computes (chargeSubscriptionWorkN n) ()"
  by (auto simp: computes_def chargeSubscriptionWorkN_def ChargeN_def Let_def unlimited_def split: option.splits)

lemma computes_work [computes_intros]: "computes chargeSubscriptionWork ()"
  by (simp add: chargeSubscriptionWork_def computes_workN)

lemma computes_deltaN [computes_intros]: "computes (chargeDeltaRowN row n) ()"
  by (auto simp: computes_def chargeDeltaRowN_def Let_def unlimited_def split: option.splits)

lemma computes_delta [computes_intros]: "computes (chargeDeltaRow row) ()"
  by (simp add: chargeDeltaRow_def computes_deltaN)

lemma computes_ctxErr [computes_intros]: "computes ctxErr ()"
  by (auto simp: computes_def ctxErr_def unlimited_def split: option.splits nat.splits)

lemma computes_forQ:
  "(\<And>x st. x \<in> set xs \<Longrightarrow> computes (body x st) (g x st)) \<Longrightarrow> computes (forQ body xs st) (fold g xs st)"
  by (induction xs arbitrary: st) (auto intro: computes_ret computes_bind)

text \<open>A loop that only appends to its output.\<close>

lemma computes_collect:
  assumes "\<And>x out. x \<in> set xs \<Longrightarrow> computes (body x out) (out @ h x)"
  shows "computes (forQ body xs out) (out @ concat (map h xs))"
proof -
  have "fold (\<lambda>x out. out @ h x) xs out = out @ concat (map h xs)"
    by (induction xs arbitrary: out) simp_all
  moreover have "computes (forQ body xs out) (fold (\<lambda>x out. out @ h x) xs out)"
    by (rule computes_forQ) (rule assms)
  ultimately show ?thesis by simp
qed

lemma computes_Background: "computes m x \<Longrightarrow> \<exists>ctx. m Background = Inr (x, ctx)"
  by (cases "m Background") (auto simp: computes_def Background_def unlimited_def dest!: spec [of _ Background])

lemma computes_result: "computes m x \<Longrightarrow> m c = Inr (y, c') \<Longrightarrow> y = x"
  by (auto simp: computes_def dest!: spec [of _ c])

lemma computes_error: "computes m x \<Longrightarrow> m c = Inl e \<Longrightarrow> quota e"
  by (auto simp: computes_def dest!: spec [of _ c])

end
