(* ===== verification/RowBags.thy ===== *)
theory RowBags
  imports Budget TxState "HOL-Library.Multiset"
begin

text \<open>
  Bags of rows (\<^verbatim>\<open>src/subscription/eval.go\<close> from line 975, \<^verbatim>\<open>delta_dedup.go\<close>): rows counted in
  buckets by their 64-bit hash, and the reconciliation of inserted with deleted rows. Rows that
  are equal need not be identical (the two float zeros), so the bags are bags of canonical
  bytes. A row is never a nil slice, so an empty first slot is the absence of a row.
\<close>

section \<open>Counted rows\<close>

record countedRow =
  cr_row :: productValue
  cr_count :: int

record countedRowBucket =
  cb_first :: "countedRow option"
  cb_overflow :: "countedRow list"

type_synonym rowCounts = "(u64 \<times> countedRowBucket) list"

record countedRowRef =
  ref_hash :: u64
  ref_overflow :: int

definition emptyBucket :: countedRowBucket where
  "emptyBucket = \<lparr>cb_first = None, cb_overflow = []\<rparr>"

definition bucketAt :: "rowCounts \<Rightarrow> u64 \<Rightarrow> countedRowBucket" where
  "bucketAt counts h = (case map_of counts h of None \<Rightarrow> emptyBucket | Some b \<Rightarrow> b)"

definition bucketRow :: "countedRowBucket \<Rightarrow> int \<Rightarrow> countedRow option" where
  "bucketRow b i =
     (if i < 0 then Some (case cb_first b of None \<Rightarrow> \<lparr>cr_row = [], cr_count = 0\<rparr> | Some first \<Rightarrow> first)
      else if nat i < length (cb_overflow b) then Some (cb_overflow b ! nat i) else None)"

text \<open>The position of the first row of a slice that satisfies a test.\<close>

fun findPos :: "('a \<Rightarrow> bool) \<Rightarrow> 'a list \<Rightarrow> nat option" where
  "findPos P [] = None"
| "findPos P (x # xs) = (if P x then Some 0 else map_option Suc (findPos P xs))"

definition incrementCountedRow :: "rowCounts \<Rightarrow> productValue \<Rightarrow> (rowCounts \<times> u64 \<times> int \<times> bool) option" where
  "incrementCountedRow counts row = do {
     h \<leftarrow> productHash64 row;
     let b = bucketAt counts h;
     Some (case cb_first b of
       None \<Rightarrow> (AList.update h (b\<lparr>cb_first := Some \<lparr>cr_row = row, cr_count = 1\<rparr>\<rparr>) counts, h, -1, True)
     | Some first \<Rightarrow>
         if productEqual (cr_row first) row
         then (AList.update h (b\<lparr>cb_first := Some (first\<lparr>cr_count := cr_count first + 1\<rparr>)\<rparr>) counts, h, -1, False)
         else (case findPos (\<lambda>c. productEqual (cr_row c) row) (cb_overflow b) of
           Some i \<Rightarrow>
             (AList.update h (b\<lparr>cb_overflow := (cb_overflow b)
                [i := (cb_overflow b ! i)\<lparr>cr_count := cr_count (cb_overflow b ! i) + 1\<rparr>]\<rparr>) counts, h, int i, False)
         | None \<Rightarrow>
             (AList.update h (b\<lparr>cb_overflow := cb_overflow b @ [\<lparr>cr_row = row, cr_count = 1\<rparr>]\<rparr>) counts, h,
              int (length (cb_overflow b)), True)))
   }"

definition incrementRowCount :: "rowCounts \<Rightarrow> productValue \<Rightarrow> rowCounts option" where
  "incrementRowCount counts row = map_option fst (incrementCountedRow counts row)"

definition incrementRowBag ::
  "rowCounts \<times> countedRowRef list \<Rightarrow> productValue \<Rightarrow> (rowCounts \<times> countedRowRef list) option" where
  "incrementRowBag bag row = do {
     (counts, h, i, added) \<leftarrow> incrementCountedRow (fst bag) row;
     Some (counts, if added then snd bag @ [\<lparr>ref_hash = h, ref_overflow = i\<rparr>] else snd bag)
   }"

definition decrementRowCount :: "rowCounts \<Rightarrow> productValue \<Rightarrow> (rowCounts \<times> bool) option" where
  "decrementRowCount counts row = do {
     h \<leftarrow> productHash64 row;
     Some (case map_of counts h of
       None \<Rightarrow> (counts, False)
     | Some b \<Rightarrow>
         (case cb_first b of
            Some first \<Rightarrow>
              if cr_count first > 0 \<and> productEqual (cr_row first) row
              then (AList.update h (b\<lparr>cb_first := Some (first\<lparr>cr_count := cr_count first - 1\<rparr>)\<rparr>) counts, True)
              else (case findPos (\<lambda>c. cr_count c > 0 \<and> productEqual (cr_row c) row) (cb_overflow b) of
                Some i \<Rightarrow>
                  (AList.update h (b\<lparr>cb_overflow := (cb_overflow b)
                     [i := (cb_overflow b ! i)\<lparr>cr_count := cr_count (cb_overflow b ! i) - 1\<rparr>]\<rparr>) counts, True)
              | None \<Rightarrow> (counts, False))
          | None \<Rightarrow> (counts, False)))
   }"

fun countRowsLoop :: "rowCounts \<Rightarrow> productValue list \<Rightarrow> rowCounts option" where
  "countRowsLoop counts [] = Some counts"
| "countRowsLoop counts (row # rows) = do { counts \<leftarrow> incrementRowCount counts row; countRowsLoop counts rows }"

definition countRows :: "productValue list \<Rightarrow> rowCounts option" where
  "countRows rows = countRowsLoop [] rows"

fun subtractLoop :: "rowCounts \<Rightarrow> productValue list \<Rightarrow> productValue list option" where
  "subtractLoop counts [] = Some []"
| "subtractLoop counts (row # rows) = do {
     (counts, found) \<leftarrow> decrementRowCount counts row;
     remaining \<leftarrow> subtractLoop counts rows;
     Some (if found then remaining else row # remaining)
   }"

definition subtractProjectedRowsByKey :: "productValue list \<Rightarrow> productValue list \<Rightarrow> productValue list option" where
  "subtractProjectedRowsByKey current inserted =
     (if current = [] then Some []
      else if inserted = [] then Some current
      else do { insertCounts \<leftarrow> countRows inserted; subtractLoop insertCounts current })"

section \<open>Reconciliation\<close>

definition appendReconciledRows :: "productValue list \<Rightarrow> countedRowRef list \<Rightarrow> rowCounts \<Rightarrow> productValue list query" where
  "appendReconciledRows out order rows =
     forQ (\<lambda>ref out.
       bindQ (panicQ (bucketRow (bucketAt rows (ref_hash ref)) (ref_overflow ref))) (\<lambda>row.
       if cr_count row < 0 then failQ EvalPanic
       else forQ (\<lambda>_ out. bindQ (chargeDeltaRow (cr_row row)) (\<lambda>_. ret (out @ [cr_row row])))
              [0..<nat (cr_count row)] out))
     order out"

definition reconcileJoinDelta ::
  "productValue list list \<Rightarrow> productValue list list \<Rightarrow> (productValue list \<times> productValue list) query" where
  "reconcileJoinDelta insertFragments deleteFragments =
     bindQ (forQ (forQ (\<lambda>row bag. panicQ (incrementRowBag bag row))) insertFragments ([], [])) (\<lambda>(insertRows, insertOrder).
     bindQ (forQ (forQ (\<lambda>row (insertRows, deleteBag).
              bindQ (panicQ (decrementRowCount insertRows row)) (\<lambda>(insertRows, found).
              if found then ret (insertRows, deleteBag)
              else bindQ (panicQ (incrementRowBag deleteBag row)) (\<lambda>deleteBag. ret (insertRows, deleteBag)))))
            deleteFragments (insertRows, [], [])) (\<lambda>(insertRows, deleteRows, deleteOrder).
     bindQ (appendReconciledRows [] insertOrder insertRows) (\<lambda>inserts.
     bindQ (appendReconciledRows [] deleteOrder deleteRows) (\<lambda>deletes.
     ret (inserts, deletes)))))"

section \<open>Canonical rows\<close>

definition canon :: "productValue \<Rightarrow> bytes" where
  "canon row = the (productHash row)"

lemma values_ok_hash: "values_ok row \<Longrightarrow> productHash row = Some (canon row)"
  using productHash_total [of row] by (auto simp: values_ok_def list_all_iff canon_def)

lemma canon_iff: "values_ok r \<Longrightarrow> values_ok s \<Longrightarrow> canon r = canon s \<longleftrightarrow> productEqual r s"
  using values_ok_hash [of r] values_ok_hash [of s] productHash_inj [of r "canon r" s] productHash_Equal [of r s]
  by (auto simp: values_ok_def list_all_iff)

lemma hash64_canon: "values_ok row \<Longrightarrow> productHash64 row = Some (fnv64aWriteBytes fnv64aOffset (canon row))"
  using values_ok_hash [of row] by (simp add: productHash64_def productHash64From_eq)

lemma hash64_eq_canon: "values_ok r \<Longrightarrow> values_ok s \<Longrightarrow> canon r = canon s \<Longrightarrow> productHash64 r = productHash64 s"
  by (simp add: hash64_canon)

definition canons :: "productValue list \<Rightarrow> bytes multiset" where
  "canons rows = mset (map canon rows)"

lemma canons_simps [simp]:
  "canons [] = {#}" "canons (r # rs) = add_mset (canon r) (canons rs)" "canons (rs @ ss) = canons rs + canons ss"
  by (simp_all add: canons_def)

section \<open>The bag that buckets hold\<close>

definition slots :: "countedRowBucket \<Rightarrow> countedRow list" where
  "slots b = (case cb_first b of None \<Rightarrow> [] | Some first \<Rightarrow> first # cb_overflow b)"

definition weight :: "countedRow \<Rightarrow> bytes multiset" where
  "weight c = replicate_mset (nat (cr_count c)) (canon (cr_row c))"

definition bucketBag :: "u64 \<Rightarrow> countedRowBucket \<Rightarrow> bytes multiset" where
  "bucketBag h b = sum_list (map weight (slots b))"

definition bucketRefs :: "u64 \<Rightarrow> countedRowBucket \<Rightarrow> countedRowRef multiset" where
  "bucketRefs h b = mset (map (\<lambda>i. \<lparr>ref_hash = h, ref_overflow = int i - 1\<rparr>) [0..<length (slots b)])"

definition total :: "(u64 \<Rightarrow> countedRowBucket \<Rightarrow> 'a multiset) \<Rightarrow> rowCounts \<Rightarrow> 'a multiset" where
  "total f counts = sum_list (map (\<lambda>(h, b). f h b) counts)"

definition bucket_ok :: "u64 \<Rightarrow> countedRowBucket \<Rightarrow> bool" where
  "bucket_ok h b \<longleftrightarrow> cb_first b \<noteq> None \<and> distinct (map (canon \<circ> cr_row) (slots b)) \<and>
     (\<forall>c \<in> set (slots b). values_ok (cr_row c) \<and> productHash64 (cr_row c) = Some h \<and> 0 \<le> cr_count c)"

definition counts_ok :: "rowCounts \<Rightarrow> bool" where
  "counts_ok counts \<longleftrightarrow> distinct (map fst counts) \<and> (\<forall>(h, b) \<in> set counts. bucket_ok h b)"

lemma bucket_empty [simp]: "bucketBag h emptyBucket = {#}" "bucketRefs h emptyBucket = {#}" "slots emptyBucket = []"
  by (simp_all add: bucketBag_def bucketRefs_def slots_def emptyBucket_def)

lemma bucketAt_update: "bucketAt (AList.update h b counts) h' = (if h' = h then b else bucketAt counts h')"
  by (simp add: bucketAt_def update_conv')

lemma total_update:
  assumes "distinct (map fst counts)" "f h emptyBucket = {#}"
  shows "total f (AList.update h b counts) + f h (bucketAt counts h) = total f counts + f h b"
  using assms(1)
proof (induction counts)
  case (Cons p counts)
  obtain h' b' where p: "p = (h', b')" by (cases p)
  show ?case
  proof (cases "h' = h")
    case False
    then show ?thesis using Cons p by (simp add: total_def bucketAt_def ac_simps)
  qed (simp add: p total_def bucketAt_def ac_simps)
qed (simp add: total_def bucketAt_def assms(2))

lemma sum_list_update:
  "i < length cs \<Longrightarrow> sum_list (map g (cs[i := c])) + g (cs ! i) = sum_list (map g cs) + (g c :: 'a multiset)"
proof (induction cs arbitrary: i)
  case (Cons d cs)
  then show ?case by (cases i) (auto simp: ac_simps)
qed simp

lemma counts_okD:
  assumes "counts_ok counts"
  shows "bucketAt counts h = emptyBucket \<or> bucket_ok h (bucketAt counts h)"
proof (cases "map_of counts h")
  case (Some b)
  then have "(h, b) \<in> set counts" by (rule map_of_SomeD)
  then show ?thesis using assms Some by (auto simp: counts_ok_def bucketAt_def)
qed (simp add: bucketAt_def)

lemma counts_ok_update:
  "counts_ok counts \<Longrightarrow> bucket_ok h b \<Longrightarrow> counts_ok (AList.update h b counts)"
  using set_AList_update by (fastforce simp: counts_ok_def distinct_update)

lemma findPos_Some: "findPos P xs = Some i \<Longrightarrow> i < length xs \<and> P (xs ! i)"
  by (induction xs arbitrary: i) (auto split: if_splits)

lemma findPos_None: "findPos P xs = None \<longleftrightarrow> (\<forall>x \<in> set xs. \<not> P x)"
  by (induction xs) auto

lemma canon_inj_slots:
  assumes "bucket_ok h b" "values_ok row" "c \<in> set (slots b)"
  shows "productEqual (cr_row c) row \<longleftrightarrow> canon (cr_row c) = canon row"
  using assms canon_iff by (auto simp: bucket_ok_def)

text \<open>The bucket after an increment, as its slots.\<close>

lemma slots_simps:
  "slots (b\<lparr>cb_first := Some c\<rparr>) = c # cb_overflow b"
  "slots (b\<lparr>cb_overflow := cs\<rparr>) = (case cb_first b of None \<Rightarrow> [] | Some first \<Rightarrow> first # cs)"
  by (simp_all add: slots_def split: option.split)

lemma bucket_ok_setCount:
  assumes ok: "bucket_ok h b" and s: "slots b' = (slots b)[i := (slots b ! i)\<lparr>cr_count := n\<rparr>]" "cb_first b' \<noteq> None"
    and i: "i < length (slots b)" and n: "0 \<le> n"
  shows "bucket_ok h b'" "bucketRefs h b' = bucketRefs h b"
    "bucketBag h b' + weight (slots b ! i) = bucketBag h b + weight ((slots b ! i)\<lparr>cr_count := n\<rparr>)"
proof -
  have "map (canon \<circ> cr_row) (slots b') = map (canon \<circ> cr_row) (slots b)"
    using i by (simp add: s map_update list_update_same_conv)
  moreover have "c \<in> set (slots b') \<Longrightarrow> c \<in> set (slots b) \<or> c = (slots b ! i)\<lparr>cr_count := n\<rparr>" for c
    using set_update_subset_insert [of "slots b" i "(slots b ! i)\<lparr>cr_count := n\<rparr>"] by (auto simp: s)
  ultimately show "bucket_ok h b'" using ok s(2) n nth_mem [OF i] unfolding bucket_ok_def by fastforce
  show "bucketRefs h b' = bucketRefs h b" by (simp add: bucketRefs_def s)
  show "bucketBag h b' + weight (slots b ! i) = bucketBag h b + weight ((slots b ! i)\<lparr>cr_count := n\<rparr>)"
    unfolding bucketBag_def s(1) by (rule sum_list_update [OF i])
qed

lemma bucketRefs_snoc:
  "slots b' = slots b @ [c] \<Longrightarrow>
   bucketRefs h b' = add_mset \<lparr>ref_hash = h, ref_overflow = int (length (slots b)) - 1\<rparr> (bucketRefs h b)"
  by (simp add: bucketRefs_def)

lemma bucket_ok_snoc:
  assumes ok: "bucket_ok h b \<or> b = emptyBucket" and s: "slots b' = slots b @ [\<lparr>cr_row = row, cr_count = 1\<rparr>]" "cb_first b' \<noteq> None"
    and r: "values_ok row" "productHash64 row = Some h" "\<forall>c \<in> set (slots b). canon (cr_row c) \<noteq> canon row"
  shows "bucket_ok h b'" "bucketBag h b' = add_mset (canon row) (bucketBag h b)"
  using assms by (auto simp: bucket_ok_def bucketBag_def weight_def)

definition increments :: "u64 \<Rightarrow> countedRowBucket \<Rightarrow> productValue \<Rightarrow> countedRowBucket \<Rightarrow> int \<Rightarrow> bool \<Rightarrow> bool" where
  "increments h b row b' i added \<longleftrightarrow> bucket_ok h b' \<and> bucketBag h b' = add_mset (canon row) (bucketBag h b) \<and>
     bucketRefs h b' = (if added then add_mset \<lparr>ref_hash = h, ref_overflow = i\<rparr> (bucketRefs h b) else bucketRefs h b)"

lemma weight_Suc: "0 \<le> cr_count c \<Longrightarrow> weight (c\<lparr>cr_count := cr_count c + 1\<rparr>) = add_mset (canon (cr_row c)) (weight c)"
  by (simp add: weight_def nat_add_distrib)

lemma increments_at:
  assumes ok: "bucket_ok h b" and i: "i < length (slots b)" and e: "canon (cr_row (slots b ! i)) = canon row"
    and s: "slots b' = (slots b)[i := (slots b ! i)\<lparr>cr_count := cr_count (slots b ! i) + 1\<rparr>]" "cb_first b' \<noteq> None"
  shows "increments h b row b' k False"
proof -
  have c: "0 \<le> cr_count (slots b ! i)" using ok i by (simp add: bucket_ok_def)
  then have n: "0 \<le> cr_count (slots b ! i) + 1" by simp
  note u = bucket_ok_setCount [OF ok s i n]
  have "bucketBag h b' = add_mset (canon row) (bucketBag h b)"
    using u(3) weight_Suc [OF c] e by simp
  with u(1,2) show ?thesis by (simp add: increments_def)
qed

lemma incrementedI:
  "increments h (bucketAt counts h) row b i added \<Longrightarrow>
   incrementCountedRow counts row = Some (AList.update h b counts, h, i, added) \<Longrightarrow>
   \<exists>h b i added. incrementCountedRow counts row = Some (AList.update h b counts, h, i, added) \<and>
     increments h (bucketAt counts h) row b i added"
  by blast

lemma incrementCountedRow_ok:
  assumes ok: "counts_ok counts" and row: "values_ok row"
  shows "\<exists>h b i added. incrementCountedRow counts row = Some (AList.update h b counts, h, i, added) \<and>
     increments h (bucketAt counts h) row b i added"
proof -
  obtain h where h: "productHash64 row = Some h" using hash64_canon [OF row] by blast
  let ?b = "bucketAt counts h"
  show ?thesis
  proof (cases "cb_first ?b")
    case None
    then have e: "?b = emptyBucket" using counts_okD [OF ok, of h] by (auto simp: bucket_ok_def)
    let ?b' = "?b\<lparr>cb_first := Some \<lparr>cr_row = row, cr_count = 1\<rparr>\<rparr>"
    have s: "slots ?b' = slots ?b @ [\<lparr>cr_row = row, cr_count = 1\<rparr>]" using e by (simp add: slots_def emptyBucket_def)
    have "increments h ?b row ?b' (-1) True"
      using bucket_ok_snoc [OF disjI2 [OF e] s _ row h] bucketRefs_snoc [OF s] by (simp add: increments_def e)
    then show ?thesis by (rule incrementedI) (use None h in \<open>simp add: incrementCountedRow_def Let_def\<close>)
  next
    case (Some first)
    then have b: "bucket_ok h ?b" using counts_okD [OF ok, of h] by (auto simp: emptyBucket_def)
    note c1 = Some
    have sl: "slots ?b = first # cb_overflow ?b" using Some by (simp add: slots_def)
    have eq: "productEqual (cr_row c) row \<longleftrightarrow> canon (cr_row c) = canon row" if "c \<in> set (slots ?b)" for c
      using canon_inj_slots [OF b row that] .
    show ?thesis
    proof (cases "productEqual (cr_row first) row")
      case True
      let ?b' = "?b\<lparr>cb_first := Some (first\<lparr>cr_count := cr_count first + 1\<rparr>)\<rparr>"
      have "increments h ?b row ?b' (-1) False"
        by (rule increments_at [OF b, of 0]) (use True eq [of first] sl in \<open>simp_all add: slots_simps\<close>)
      then show ?thesis by (rule incrementedI) (use Some h True in \<open>simp add: incrementCountedRow_def Let_def\<close>)
    next
      case False
      show ?thesis
      proof (cases "findPos (\<lambda>c. productEqual (cr_row c) row) (cb_overflow ?b)")
        case None
        let ?b' = "?b\<lparr>cb_overflow := cb_overflow ?b @ [\<lparr>cr_row = row, cr_count = 1\<rparr>]\<rparr>"
        have s: "slots ?b' = slots ?b @ [\<lparr>cr_row = row, cr_count = 1\<rparr>]" using Some by (simp add: slots_def)
        have "\<forall>c \<in> set (slots ?b). canon (cr_row c) \<noteq> canon row"
          using None False eq by (auto simp: findPos_None sl)
        then have "increments h ?b row ?b' (int (length (cb_overflow ?b))) True"
          using bucket_ok_snoc [OF disjI1 [OF b] s _ row h] bucketRefs_snoc [OF s] Some sl by (simp add: increments_def)
        then show ?thesis by (rule incrementedI) (use Some h False None in \<open>simp add: incrementCountedRow_def Let_def\<close>)
      next
        case (Some i)
        let ?b' = "?b\<lparr>cb_overflow := (cb_overflow ?b)[i := (cb_overflow ?b ! i)\<lparr>cr_count := cr_count (cb_overflow ?b ! i) + 1\<rparr>]\<rparr>"
        note i = findPos_Some [OF Some]
        have "increments h ?b row ?b' (int i) False"
          by (rule increments_at [OF b, of "Suc i"])
            (use i eq [of "cb_overflow ?b ! i"] sl c1 in \<open>simp_all add: slots_simps\<close>)
        then show ?thesis by (rule incrementedI) (use c1 h False Some in \<open>simp add: incrementCountedRow_def Let_def\<close>)
      qed
    qed
  qed
qed

abbreviation bagOf :: "rowCounts \<Rightarrow> bytes multiset" where
  "bagOf counts \<equiv> total bucketBag counts"

abbreviation refsIn :: "rowCounts \<Rightarrow> countedRowRef multiset" where
  "refsIn counts \<equiv> total bucketRefs counts"

lemma total_add:
  assumes "counts_ok counts" "f h emptyBucket = {#}" "f h b = f h (bucketAt counts h) + M"
  shows "total f (AList.update h b counts) = total f counts + M"
proof -
  have "total f (AList.update h b counts) + f h (bucketAt counts h) = total f counts + f h b"
    by (rule total_update) (use assms in \<open>simp_all add: counts_ok_def\<close>)
  then show ?thesis by (simp add: assms(3) ac_simps)
qed

lemma increment_bag:
  assumes ok: "counts_ok counts" and row: "values_ok row"
  shows "\<exists>counts' h i added. incrementCountedRow counts row = Some (counts', h, i, added) \<and> counts_ok counts' \<and>
     bagOf counts' = add_mset (canon row) (bagOf counts) \<and>
     refsIn counts' = (if added then add_mset \<lparr>ref_hash = h, ref_overflow = i\<rparr> (refsIn counts) else refsIn counts)"
proof -
  obtain h b i added where r: "incrementCountedRow counts row = Some (AList.update h b counts, h, i, added)"
    and inc: "increments h (bucketAt counts h) row b i added"
    using incrementCountedRow_ok [OF ok row] by blast
  have "counts_ok (AList.update h b counts)"
    using inc by (intro counts_ok_update [OF ok]) (simp add: increments_def)
  moreover have "bagOf (AList.update h b counts) = add_mset (canon row) (bagOf counts)"
    using total_add [OF ok, of bucketBag h b "{#canon row#}"] inc by (simp add: increments_def)
  moreover have "refsIn (AList.update h b counts) =
      (if added then add_mset \<lparr>ref_hash = h, ref_overflow = i\<rparr> (refsIn counts) else refsIn counts)"
    using total_add [OF ok, of bucketRefs h b "{#\<lparr>ref_hash = h, ref_overflow = i\<rparr>#}"]
      total_add [OF ok, of bucketRefs h b "{#}"] inc by (auto simp: increments_def)
  ultimately show ?thesis using r by blast
qed

lemma mem_weights: "k \<in># sum_list (map weight cs) \<longleftrightarrow> (\<exists>c \<in> set cs. 0 < cr_count c \<and> canon (cr_row c) = k)"
  by (induction cs) (auto simp: weight_def)

lemma mem_total: "k \<in># total f counts \<longleftrightarrow> (\<exists>(h, b) \<in> set counts. k \<in># f h b)"
  by (induction counts) (auto simp: total_def)

lemma mem_bag:
  assumes ok: "counts_ok counts" and row: "values_ok row" "productHash64 row = Some h"
  shows "canon row \<in># bagOf counts \<longleftrightarrow> (\<exists>c \<in> set (slots (bucketAt counts h)). 0 < cr_count c \<and> canon (cr_row c) = canon row)"
proof -
  have at: "(h', b) \<in> set counts \<Longrightarrow> bucketAt counts h' = b" for h' b
    using ok by (simp add: counts_ok_def bucketAt_def)
  have same: "h' = h" if "(h', b) \<in> set counts" "c \<in> set (slots b)" "canon (cr_row c) = canon row" for h' b c
  proof -
    have "bucket_ok h' b" using ok that(1) by (auto simp: counts_ok_def)
    then have "values_ok (cr_row c)" "productHash64 (cr_row c) = Some h'" using that(2) by (simp_all add: bucket_ok_def)
    then show ?thesis using hash64_eq_canon [OF _ row(1) that(3)] row(2) by simp
  qed
  have "\<exists>b. (h, b) \<in> set counts" if "slots (bucketAt counts h) \<noteq> []"
    using that by (auto simp: bucketAt_def split: option.splits dest: map_of_SomeD)
  then have entry: "(h, bucketAt counts h) \<in> set counts" if "slots (bucketAt counts h) \<noteq> []" using that at by blast
  have "canon row \<in># bagOf counts \<longleftrightarrow>
      (\<exists>h' b c. (h', b) \<in> set counts \<and> c \<in> set (slots b) \<and> 0 < cr_count c \<and> canon (cr_row c) = canon row)"
    unfolding mem_total bucketBag_def mem_weights by blast
  also have "\<dots> \<longleftrightarrow> (\<exists>c \<in> set (slots (bucketAt counts h)). 0 < cr_count c \<and> canon (cr_row c) = canon row)"
  proof
    assume "\<exists>h' b c. (h', b) \<in> set counts \<and> c \<in> set (slots b) \<and> 0 < cr_count c \<and> canon (cr_row c) = canon row"
    then obtain h' b c where c: "(h', b) \<in> set counts" "c \<in> set (slots b)" "0 < cr_count c" "canon (cr_row c) = canon row"
      by blast
    from same [OF c(1,2,4)] at [OF c(1)] c(2-4) show "\<exists>c \<in> set (slots (bucketAt counts h)). 0 < cr_count c \<and> canon (cr_row c) = canon row"
      by blast
  next
    assume "\<exists>c \<in> set (slots (bucketAt counts h)). 0 < cr_count c \<and> canon (cr_row c) = canon row"
    with entry show "\<exists>h' b c. (h', b) \<in> set counts \<and> c \<in> set (slots b) \<and> 0 < cr_count c \<and> canon (cr_row c) = canon row"
      by (metis empty_iff empty_set)
  qed
  finally show ?thesis .
qed

lemma weight_pred:
  "0 < cr_count c \<Longrightarrow> weight c = add_mset (canon (cr_row c)) (weight (c\<lparr>cr_count := cr_count c - 1\<rparr>))"
proof -
  assume "0 < cr_count c"
  then have "nat (cr_count c) = Suc (nat (cr_count c - 1))" by simp
  then show ?thesis by (simp add: weight_def)
qed

lemma decrement_at:
  assumes ok: "counts_ok counts" "bucket_ok h (bucketAt counts h)" and i: "i < length (slots (bucketAt counts h))"
    and e: "canon (cr_row (slots (bucketAt counts h) ! i)) = canon row" "0 < cr_count (slots (bucketAt counts h) ! i)"
    and s: "slots b' = (slots (bucketAt counts h))[i := (slots (bucketAt counts h) ! i)
         \<lparr>cr_count := cr_count (slots (bucketAt counts h) ! i) - 1\<rparr>]" "cb_first b' \<noteq> None"
  shows "counts_ok (AList.update h b' counts)" "refsIn (AList.update h b' counts) = refsIn counts"
    "bagOf counts = add_mset (canon row) (bagOf (AList.update h b' counts))"
proof -
  have n: "0 \<le> cr_count (slots (bucketAt counts h) ! i) - 1" using e(2) by simp
  note u = bucket_ok_setCount [OF ok(2) s i n]
  show "counts_ok (AList.update h b' counts)" by (rule counts_ok_update [OF ok(1) u(1)])
  show "refsIn (AList.update h b' counts) = refsIn counts"
    using total_add [OF ok(1), of bucketRefs h b' "{#}"] u(2) by simp
  have "bucketBag h (bucketAt counts h) = add_mset (canon row) (bucketBag h b')"
    using u(3) weight_pred [OF e(2)] e(1) by simp
  moreover have "bagOf (AList.update h b' counts) + bucketBag h (bucketAt counts h) = bagOf counts + bucketBag h b'"
    by (rule total_update) (use ok(1) in \<open>simp_all add: counts_ok_def\<close>)
  ultimately show "bagOf counts = add_mset (canon row) (bagOf (AList.update h b' counts))"
    by (simp add: add_right_cancel [of "bagOf counts" "bucketBag h b'", symmetric] del: add_right_cancel)
qed

lemma decrement_bag:
  assumes ok: "counts_ok counts" and row: "values_ok row"
  shows "\<exists>counts'. decrementRowCount counts row = Some (counts', canon row \<in># bagOf counts) \<and> counts_ok counts' \<and>
     refsIn counts' = refsIn counts \<and> bagOf counts' = bagOf counts - {#canon row#}"
proof -
  obtain h where h: "productHash64 row = Some h" using hash64_canon [OF row] by blast
  note mem = mem_bag [OF ok row h]
  have absent: "canon row \<notin># bagOf counts \<Longrightarrow> decrementRowCount counts row = Some (counts, False) \<Longrightarrow> ?thesis"
    using ok by (auto simp: diff_single_trivial)
  show ?thesis
  proof (cases "map_of counts h")
    case None
    then show ?thesis by (intro absent) (simp_all add: mem bucketAt_def decrementRowCount_def h)
  next
    case (Some b)
    then have at: "bucketAt counts h = b" by (simp add: bucketAt_def)
    have "(h, b) \<in> set counts" using Some by (rule map_of_SomeD)
    then have b: "bucket_ok h b" using ok by (auto simp: counts_ok_def)
    then obtain first where f: "cb_first b = Some first" by (auto simp: bucket_ok_def)
    have sl: "slots b = first # cb_overflow b" using f by (simp add: slots_def)
    have eq: "productEqual (cr_row c) row \<longleftrightarrow> canon (cr_row c) = canon row" if "c \<in> set (slots b)" for c
      using canon_inj_slots [OF b row that] .
    note dec = decrement_at [OF ok, of h, unfolded at, OF b]
    have found: "canon row \<in># bagOf counts \<Longrightarrow> decrementRowCount counts row = Some (AList.update h b' counts, True) \<Longrightarrow>
        counts_ok (AList.update h b' counts) \<Longrightarrow> refsIn (AList.update h b' counts) = refsIn counts \<Longrightarrow>
        bagOf counts = add_mset (canon row) (bagOf (AList.update h b' counts)) \<Longrightarrow> ?thesis" for b'
      by auto
    show ?thesis
    proof (cases "0 < cr_count first \<and> productEqual (cr_row first) row")
      case True
      let ?b' = "b\<lparr>cb_first := Some (first\<lparr>cr_count := cr_count first - 1\<rparr>)\<rparr>"
      have p: "0 < length (slots b)" "canon (cr_row (slots b ! 0)) = canon row" "0 < cr_count (slots b ! 0)"
        "slots ?b' = (slots b)[0 := (slots b ! 0)\<lparr>cr_count := cr_count (slots b ! 0) - 1\<rparr>]" "cb_first ?b' \<noteq> None"
        using True eq [of first] sl by (simp_all add: slots_simps)
      show ?thesis
        by (rule found [of ?b'], use dec(3) [OF p] in simp, use Some f True h in \<open>simp add: decrementRowCount_def\<close>)
          (rule dec(1) [OF p] dec(2) [OF p] dec(3) [OF p])+
    next
      case False
      show ?thesis
      proof (cases "findPos (\<lambda>c. cr_count c > 0 \<and> productEqual (cr_row c) row) (cb_overflow b)")
        case None
        have "canon row \<notin># bagOf counts" unfolding mem at using None False eq by (auto simp: findPos_None sl)
        then show ?thesis
          by (rule absent) (use Some f False None h in \<open>auto simp: decrementRowCount_def\<close>)
      next
        case (Some i)
        let ?b' = "b\<lparr>cb_overflow := (cb_overflow b)[i := (cb_overflow b ! i)\<lparr>cr_count := cr_count (cb_overflow b ! i) - 1\<rparr>]\<rparr>"
        note i = findPos_Some [OF Some]
        have p: "Suc i < length (slots b)" "canon (cr_row (slots b ! Suc i)) = canon row" "0 < cr_count (slots b ! Suc i)"
          "slots ?b' = (slots b)[Suc i := (slots b ! Suc i)\<lparr>cr_count := cr_count (slots b ! Suc i) - 1\<rparr>]" "cb_first ?b' \<noteq> None"
          using i eq [of "cb_overflow b ! i"] sl f by (simp_all add: slots_simps)
        show ?thesis
          by (rule found [of ?b'], use dec(3) [OF p] in simp,
              use \<open>map_of counts h = Some b\<close> f False Some h in \<open>auto simp: decrementRowCount_def\<close>)
            (rule dec(1) [OF p] dec(2) [OF p] dec(3) [OF p])+
      qed
    qed
  qed
qed

section \<open>Counting and subtracting\<close>

lemma counts_ok_Nil [simp]: "counts_ok []" "bagOf [] = {#}" "refsIn [] = {#}"
  by (simp_all add: counts_ok_def total_def)

lemma countRowsLoop_bag:
  "counts_ok counts \<Longrightarrow> list_all values_ok rows \<Longrightarrow>
   \<exists>counts'. countRowsLoop counts rows = Some counts' \<and> counts_ok counts' \<and> bagOf counts' = bagOf counts + canons rows"
proof (induction rows arbitrary: counts)
  case (Cons row rows)
  then obtain counts1 h i added where "incrementCountedRow counts row = Some (counts1, h, i, added)"
    "counts_ok counts1" "bagOf counts1 = add_mset (canon row) (bagOf counts)"
    using increment_bag [of counts row] by auto
  with Cons.IH [of counts1] Cons.prems(2) show ?case by (auto simp: incrementRowCount_def)
qed simp

lemma subtractLoop_bag:
  "counts_ok counts \<Longrightarrow> list_all values_ok rows \<Longrightarrow>
   \<exists>rem. subtractLoop counts rows = Some rem \<and> canons rem = canons rows - bagOf counts \<and> list_all values_ok rem"
proof (induction rows arbitrary: counts)
  case (Cons row rows)
  obtain counts1 where c: "decrementRowCount counts row = Some (counts1, canon row \<in># bagOf counts)"
    "counts_ok counts1" "bagOf counts1 = bagOf counts - {#canon row#}"
    using decrement_bag [of counts row] Cons.prems by auto
  with Cons.IH [of counts1] Cons.prems(2) obtain rem where
    rem: "subtractLoop counts1 rows = Some rem" "canons rem = canons rows - (bagOf counts - {#canon row#})" "list_all values_ok rem"
    by auto
  show ?case
  proof (cases "canon row \<in># bagOf counts")
    case True
    then obtain B where "bagOf counts = add_mset (canon row) B" by (blast dest: multi_member_split)
    then show ?thesis using c(1) rem by auto
  next
    case False
    then show ?thesis using c(1) rem Cons.prems(2) by (simp add: diff_single_trivial)
  qed
qed simp

lemma subtract_bag:
  assumes "list_all values_ok current" "list_all values_ok inserted"
  shows "\<exists>rem. subtractProjectedRowsByKey current inserted = Some rem \<and> canons rem = canons current - canons inserted \<and>
    list_all values_ok rem"
proof (cases "current = [] \<or> inserted = []")
  case False
  obtain counts where c: "countRows inserted = Some counts" "counts_ok counts" "bagOf counts = canons inserted"
    using countRowsLoop_bag [OF counts_ok_Nil(1) assms(2)] by (auto simp: countRows_def)
  show ?thesis using subtractLoop_bag [OF c(2) assms(1)] c False by (auto simp: subtractProjectedRowsByKey_def)
qed (use assms in \<open>auto simp: subtractProjectedRowsByKey_def\<close>)

section \<open>Reconciliation is a difference of bags\<close>

definition rowsAt :: "rowCounts \<Rightarrow> countedRowRef \<Rightarrow> productValue list" where
  "rowsAt counts ref = (case bucketRow (bucketAt counts (ref_hash ref)) (ref_overflow ref) of
     None \<Rightarrow> [] | Some c \<Rightarrow> replicate (nat (cr_count c)) (cr_row c))"

lemma bucketRow_slots:
  assumes "cb_first b \<noteq> None" "i < length (slots b)"
  shows "bucketRow b (int i - 1) = Some (slots b ! i)"
  using assms by (cases i) (auto simp: bucketRow_def slots_def)

lemma canons_replicate: "canons (replicate n row) = replicate_mset n (canon row)"
  by (simp add: canons_def)

lemma refsIn_mem:
  assumes ok: "counts_ok counts" and ref: "ref \<in># refsIn counts"
  shows "\<exists>c. bucketRow (bucketAt counts (ref_hash ref)) (ref_overflow ref) = Some c \<and> 0 \<le> cr_count c \<and> values_ok (cr_row c)"
proof -
  obtain h b i where hb: "(h, b) \<in> set counts" "i < length (slots b)" "ref = \<lparr>ref_hash = h, ref_overflow = int i - 1\<rparr>"
    using ref by (auto simp: mem_total bucketRefs_def)
  have "bucket_ok h b" using ok hb(1) by (auto simp: counts_ok_def)
  moreover have "bucketAt counts h = b" using ok hb(1) by (simp add: counts_ok_def bucketAt_def)
  ultimately show ?thesis using bucketRow_slots [of b i] hb(2,3) by (simp add: bucket_ok_def)
qed

lemma canons_rowsAt:
  assumes "counts_ok counts" "(h, b) \<in> set counts"
  shows "sum_mset (image_mset (canons \<circ> rowsAt counts) (bucketRefs h b)) = bucketBag h b"
proof -
  have b: "bucketAt counts h = b" using assms by (simp add: counts_ok_def bucketAt_def)
  have f: "cb_first b \<noteq> None" using assms by (auto simp: counts_ok_def bucket_ok_def)
  have "canons (rowsAt counts \<lparr>ref_hash = h, ref_overflow = int i - 1\<rparr>) = weight (slots b ! i)" if "i < length (slots b)" for i
    using bucketRow_slots [OF f that] by (simp add: rowsAt_def b canons_replicate weight_def)
  then have "map (canons \<circ> rowsAt counts \<circ> (\<lambda>i. \<lparr>ref_hash = h, ref_overflow = int i - 1\<rparr>)) [0..<length (slots b)] =
      map (\<lambda>i. weight (slots b ! i)) [0..<length (slots b)]"
    by (intro map_cong refl) simp
  moreover have "map weight (slots b) = map (\<lambda>i. weight (slots b ! i)) [0..<length (slots b)]"
    by (intro nth_equalityI) simp_all
  moreover have "sum_mset (image_mset f (mset (map g xs))) = sum_list (map (f \<circ> g) xs)"
    for f :: "countedRowRef \<Rightarrow> bytes multiset" and g :: "nat \<Rightarrow> countedRowRef" and xs
    by (induction xs) simp_all
  ultimately show ?thesis unfolding bucketRefs_def bucketBag_def by (simp only: )
qed

lemma canons_order:
  assumes ok: "counts_ok counts" and order: "mset order = refsIn counts"
  shows "canons (concat (map (rowsAt counts) order)) = bagOf counts"
proof -
  have "canons (concat (map (rowsAt counts) xs)) = sum_mset (image_mset (canons \<circ> rowsAt counts) (mset xs))" for xs
    by (induction xs) simp_all
  moreover have "\<forall>(h, b) \<in> set cs. (h, b) \<in> set counts \<Longrightarrow>
      sum_mset (image_mset (canons \<circ> rowsAt counts) (total bucketRefs cs)) = total bucketBag cs" for cs
    using canons_rowsAt [OF ok] by (induction cs) (auto simp: total_def)
  ultimately show ?thesis by (simp add: order)
qed

lemma appendReconciledRows_computes:
  assumes ok: "counts_ok counts" and order: "mset order = refsIn counts"
  shows "computes (appendReconciledRows out order counts) (out @ concat (map (rowsAt counts) order))"
  unfolding appendReconciledRows_def
proof (rule computes_collect)
  fix ref out assume "ref \<in> set order"
  then have "ref \<in># refsIn counts" using order [symmetric] by simp
  then obtain c where c: "bucketRow (bucketAt counts (ref_hash ref)) (ref_overflow ref) = Some c" "0 \<le> cr_count c"
    using refsIn_mem [OF ok] by blast
  have "computes (forQ (\<lambda>_ out. bindQ (chargeDeltaRow (cr_row c)) (\<lambda>_. ret (out @ [cr_row c]))) [0..<nat (cr_count c)] out)
      (out @ concat (map (\<lambda>_. [cr_row c]) [0..<nat (cr_count c)]))"
    by (rule computes_collect) (rule computes_bind computes_intros)+
  moreover have "concat (map (\<lambda>_. [cr_row c]) [0..<n]) = replicate n (cr_row c)" for n
    by (induction n) (simp_all add: replicate_append_same)
  ultimately show "computes (bindQ (panicQ (bucketRow (bucketAt counts (ref_hash ref)) (ref_overflow ref))) (\<lambda>row.
       if cr_count row < 0 then failQ EvalPanic
       else forQ (\<lambda>_ out. bindQ (chargeDeltaRow (cr_row row)) (\<lambda>_. ret (out @ [cr_row row])))
              [0..<nat (cr_count row)] out)) (out @ rowsAt counts ref)"
    using c by (intro computes_bind [of _ c] computes_panicQ) (simp_all add: rowsAt_def)
qed

lemma bindQ_ret [simp]: "bindQ (ret x) f = f x"
  by (simp add: bindQ_def ret_def fun_eq_iff)

lemma bindQ_assoc: "bindQ (bindQ m f) g = bindQ m (\<lambda>x. bindQ (f x) g)"
proof
  fix c
  show "bindQ (bindQ m f) g c = bindQ m (\<lambda>x. bindQ (f x) g) c"
    by (cases "m c") (auto simp: bindQ_def)
qed

lemma forQ_append: "forQ body (xs @ ys) st = bindQ (forQ body xs st) (forQ body ys)"
proof (induction xs arbitrary: st)
  case (Cons x xs)
  have "forQ body (xs @ ys) = (\<lambda>st. bindQ (forQ body xs st) (forQ body ys))" by (rule ext) (rule Cons)
  then show ?case by (simp add: bindQ_assoc)
qed simp

lemma forQ_concat: "forQ (forQ body) xss st = forQ body (concat xss) st"
proof (induction xss arbitrary: st)
  case (Cons xs xss)
  have "forQ (forQ body) xss = forQ body (concat xss)" by (rule ext) (rule Cons)
  then show ?case by (simp add: forQ_append)
qed simp

definition bag_ok :: "rowCounts \<times> countedRowRef list \<Rightarrow> bool" where
  "bag_ok bag \<longleftrightarrow> counts_ok (fst bag) \<and> mset (snd bag) = refsIn (fst bag)"

lemma incrementRowBag_ok:
  assumes "bag_ok bag" "values_ok row"
  shows "\<exists>bag'. incrementRowBag bag row = Some bag' \<and> bag_ok bag' \<and> bagOf (fst bag') = add_mset (canon row) (bagOf (fst bag))"
  using increment_bag [of "fst bag" row] assms by (auto simp: bag_ok_def incrementRowBag_def)

lemma insert_loop:
  "bag_ok bag \<Longrightarrow> list_all values_ok rows \<Longrightarrow>
   \<exists>bag'. computes (forQ (\<lambda>row bag. panicQ (incrementRowBag bag row)) rows bag) bag' \<and> bag_ok bag' \<and>
     bagOf (fst bag') = bagOf (fst bag) + canons rows"
proof (induction rows arbitrary: bag)
  case Nil
  then show ?case by (intro exI [of _ bag]) (simp add: computes_ret)
next
  case (Cons row rows)
  then obtain bag1 where b: "incrementRowBag bag row = Some bag1" "bag_ok bag1" "bagOf (fst bag1) = add_mset (canon row) (bagOf (fst bag))"
    using incrementRowBag_ok [of bag row] by auto
  with Cons.IH [of bag1] Cons.prems(2) obtain bag2 where
    "computes (forQ (\<lambda>row bag. panicQ (incrementRowBag bag row)) rows bag1) bag2" "bag_ok bag2"
    "bagOf (fst bag2) = bagOf (fst bag1) + canons rows" by auto
  with b computes_bind [OF computes_panicQ [OF b(1)]] show ?case by (intro exI [of _ bag2]) simp
qed

definition deleteStep :: "productValue \<Rightarrow> rowCounts \<times> rowCounts \<times> countedRowRef list \<Rightarrow> (rowCounts \<times> rowCounts \<times> countedRowRef list) query" where
  "deleteStep row = (\<lambda>(insertRows, deleteBag).
     bindQ (panicQ (decrementRowCount insertRows row)) (\<lambda>(insertRows, found).
     if found then ret (insertRows, deleteBag)
     else bindQ (panicQ (incrementRowBag deleteBag row)) (\<lambda>deleteBag. ret (insertRows, deleteBag))))"

lemma delete_loop:
  "bag_ok (counts, order) \<Longrightarrow> bag_ok bag \<Longrightarrow> list_all values_ok rows \<Longrightarrow>
   \<exists>counts' bag'. computes (forQ deleteStep rows (counts, bag)) (counts', bag') \<and> bag_ok (counts', order) \<and> bag_ok bag' \<and>
     bagOf counts' = bagOf counts - canons rows \<and> bagOf (fst bag') = bagOf (fst bag) + (canons rows - bagOf counts)"
proof (induction rows arbitrary: counts bag)
  case Nil
  then show ?case by (intro exI [of _ counts] exI [of _ bag]) (simp add: computes_ret)
next
  case (Cons row rows)
  obtain counts1 where c: "decrementRowCount counts row = Some (counts1, canon row \<in># bagOf counts)" "bag_ok (counts1, order)"
    "bagOf counts1 = bagOf counts - {#canon row#}"
    using decrement_bag [of counts row] Cons.prems by (auto simp: bag_ok_def)
  show ?case
  proof (cases "canon row \<in># bagOf counts")
    case True
    have "computes (deleteStep row (counts, bag)) (counts1, bag)"
      using c(1) True by (auto simp: deleteStep_def panicQ_def intro: computes_ret)
    moreover obtain B where "bagOf counts = add_mset (canon row) B" using True by (blast dest: multi_member_split)
    moreover obtain counts2 bag2 where
      "computes (forQ deleteStep rows (counts1, bag)) (counts2, bag2)" "bag_ok (counts2, order)" "bag_ok bag2"
      "bagOf counts2 = bagOf counts1 - canons rows" "bagOf (fst bag2) = bagOf (fst bag) + (canons rows - bagOf counts1)"
      using Cons.IH [OF c(2) Cons.prems(2)] Cons.prems(3) by (elim meta_impE exE conjE) simp_all
    ultimately show ?thesis
      using c(3) by (intro exI [of _ counts2] exI [of _ bag2]) (auto intro: computes_bind)
  next
    case False
    obtain bag1 where b: "incrementRowBag bag row = Some bag1" "bag_ok bag1" "bagOf (fst bag1) = add_mset (canon row) (bagOf (fst bag))"
      using incrementRowBag_ok [of bag row] Cons.prems by auto
    have "computes (deleteStep row (counts, bag)) (counts1, bag1)"
      using c(1) b(1) False by (auto simp: deleteStep_def panicQ_def intro: computes_ret)
    moreover obtain counts2 bag2 where
      "computes (forQ deleteStep rows (counts1, bag1)) (counts2, bag2)" "bag_ok (counts2, order)" "bag_ok bag2"
      "bagOf counts2 = bagOf counts1 - canons rows" "bagOf (fst bag2) = bagOf (fst bag1) + (canons rows - bagOf counts1)"
      using Cons.IH [OF c(2) b(2)] Cons.prems(3) by (elim meta_impE exE conjE) simp_all
    ultimately show ?thesis
      using c(3) b(3) False by (intro exI [of _ counts2] exI [of _ bag2]) (auto intro: computes_bind simp: diff_single_trivial)
  qed
qed

lemma rowsAt_values_ok:
  assumes "bag_ok (counts, order)"
  shows "list_all values_ok (concat (map (rowsAt counts) order))"
proof -
  have "values_ok row" if "ref \<in> set order" "row \<in> set (rowsAt counts ref)" for ref row
  proof -
    have "ref \<in># refsIn counts" using that(1) assms unfolding bag_ok_def by (metis set_mset_mset fst_conv snd_conv)
    then show ?thesis using that(2) refsIn_mem [of counts ref] assms by (auto simp: rowsAt_def bag_ok_def)
  qed
  then show ?thesis by (auto simp: list_all_iff)
qed

text \<open>What reconciliation promises: the inserts and deletes without the rows common to both.\<close>

lemma reconcile_computes:
  assumes "list_all values_ok (concat ins)" "list_all values_ok (concat dels)"
  shows "\<exists>I D. computes (reconcileJoinDelta ins dels) (I, D) \<and> list_all values_ok I \<and> list_all values_ok D \<and>
     canons I = canons (concat ins) - canons (concat dels) \<and> canons D = canons (concat dels) - canons (concat ins)"
proof -
  have start: "bag_ok ([], [])" by (simp add: bag_ok_def)
  obtain counts order where i: "computes (forQ (forQ (\<lambda>row bag. panicQ (incrementRowBag bag row))) ins ([], [])) (counts, order)"
    "bag_ok (counts, order)" "bagOf counts = canons (concat ins)"
    using insert_loop [OF start assms(1)] unfolding forQ_concat by auto
  obtain counts' dels' dorder where d: "computes (forQ (forQ deleteStep) dels (counts, [], [])) (counts', dels', dorder)"
    "bag_ok (counts', order)" "bag_ok (dels', dorder)" "bagOf counts' = bagOf counts - canons (concat dels)"
    "bagOf dels' = canons (concat dels) - bagOf counts"
    using delete_loop [OF i(2) start assms(2)] unfolding forQ_concat by (auto simp: prod_eq_iff)
  let ?I = "concat (map (rowsAt counts') order)" and ?D = "concat (map (rowsAt dels') dorder)"
  have c: "computes (appendReconciledRows [] order counts') ?I" "computes (appendReconciledRows [] dorder dels') ?D"
    using appendReconciledRows_computes [of counts' order "[]"] appendReconciledRows_computes [of dels' dorder "[]"] d(2,3)
    by (simp_all add: bag_ok_def)
  have "computes (reconcileJoinDelta ins dels) (?I, ?D)"
    unfolding reconcileJoinDelta_def deleteStep_def [symmetric]
    by (rule computes_bind [OF i(1)], unfold prod.case, rule computes_bind [OF d(1)], unfold prod.case)
      (rule computes_bind [OF c(1)] computes_bind [OF c(2)] computes_ret)+
  moreover have "canons ?I = bagOf counts'" "canons ?D = bagOf dels'"
    using canons_order [of counts' order] canons_order [of dels' dorder] d(2,3) by (simp_all add: bag_ok_def)
  ultimately show ?thesis using rowsAt_values_ok d i(3) by metis
qed

end
