(* ===== verification/Predicates.thy ===== *)
theory Predicates
  imports RowBags
begin

text \<open>
  Query predicates (\<^verbatim>\<open>src/subscription/predicate.go\<close>, the matching of \<^verbatim>\<open>delta_single.go\<close> and
  \<^verbatim>\<open>multi_join.go\<close>). A predicate may be nil where the code allows it; a nil predicate matches.
  Shown here: matching does not distinguish equal rows.
\<close>

type_synonym colID = int

record predBound =
  pb_value :: go_value
  pb_inclusive :: bool
  pb_unbounded :: bool

record multiJoinRelation =
  mr_table :: tableID
  mr_alias :: byte

record multiJoinColumnRef =
  mc_relation :: int
  mc_table :: tableID
  mc_column :: colID
  mc_alias :: byte

record multiJoinCondition =
  mjc_left :: multiJoinColumnRef
  mjc_right :: multiJoinColumnRef

datatype 'p joinPred = JoinPred (jn_Left: tableID) (jn_Right: tableID) (jn_LeftCol: colID) (jn_RightCol: colID)
  (jn_LeftAlias: byte) (jn_RightAlias: byte) (jn_ProjectRight: bool) (jn_Filter: "'p option")

datatype 'p crossJoinPred = CrossJoinPred (cj_Left: tableID) (cj_Right: tableID)
  (cj_LeftAlias: byte) (cj_RightAlias: byte) (cj_ProjectRight: bool) (cj_Filter: "'p option")

datatype 'p multiJoinPred = MultiJoinPred (mj_Relations: "multiJoinRelation list")
  (mj_Conditions: "multiJoinCondition list") (mj_ProjectedRelation: int) (mj_Filter: "'p option")

datatype predicate =
    ColEq tableID colID byte go_value
  | ColNe tableID colID byte go_value
  | ColRange tableID colID byte predBound predBound
  | ColEqCol tableID colID byte tableID colID byte
  | And "predicate option" "predicate option"
  | Or "predicate option" "predicate option"
  | AllRows tableID
  | NoRows tableID
  | Join "predicate joinPred"
  | CrossJoin "predicate crossJoinPred"
  | MultiJoin "predicate multiJoinPred"

section \<open>The tables of a predicate\<close>

definition appendUniqueTables :: "tableID list \<Rightarrow> tableID list \<Rightarrow> tableID list" where
  "appendUniqueTables out tables = foldl (\<lambda>out t. if t \<notin> set out then out @ [t] else out) out tables"

fun Tables :: "predicate option \<Rightarrow> tableID list" where
  "Tables None = []"
| "Tables (Some (ColEq t _ _ _)) = [t]"
| "Tables (Some (ColNe t _ _ _)) = [t]"
| "Tables (Some (ColRange t _ _ _ _)) = [t]"
| "Tables (Some (ColEqCol lt _ _ rt _ _)) = (if lt = rt then [lt] else [lt, rt])"
| "Tables (Some (And l r)) = appendUniqueTables (appendUniqueTables [] (Tables l)) (Tables r)"
| "Tables (Some (Or l r)) = appendUniqueTables (appendUniqueTables [] (Tables l)) (Tables r)"
| "Tables (Some (AllRows t)) = [t]"
| "Tables (Some (NoRows t)) = [t]"
| "Tables (Some (Join j)) = (if jn_Left j = jn_Right j then [jn_Left j] else [jn_Left j, jn_Right j])"
| "Tables (Some (CrossJoin j)) = (if cj_Left j = cj_Right j then [cj_Left j] else [cj_Left j, cj_Right j])"
| "Tables (Some (MultiJoin j)) = appendUniqueTables [] (map mr_table (mj_Relations j))"

definition joinProjectedTable :: "predicate joinPred \<Rightarrow> tableID" where
  "joinProjectedTable p = (if jn_ProjectRight p then jn_Right p else jn_Left p)"

definition crossProjectedTable :: "predicate crossJoinPred \<Rightarrow> tableID" where
  "crossProjectedTable p = (if cj_ProjectRight p then cj_Right p else cj_Left p)"

section \<open>Matching\<close>

definition rowValue :: "productValue \<Rightarrow> colID \<Rightarrow> go_value option" where
  "rowValue row col = (if col < 0 \<or> nat col \<ge> length row then None else Some (row ! nat col))"

text \<open>The comparison is made only between values of one kind, where it does not panic.\<close>

definition matchBounds :: "go_value \<Rightarrow> predBound \<Rightarrow> predBound \<Rightarrow> bool" where
  "matchBounds v lower upper =
     (if \<not> pb_unbounded lower \<and> v_kind (pb_value lower) \<noteq> v_kind v then False
      else if \<not> pb_unbounded upper \<and> v_kind (pb_value upper) \<noteq> v_kind v then False
      else if \<not> pb_unbounded lower \<and>
        (let c = compareV v (pb_value lower) in if pb_inclusive lower then c < 0 else c \<le> 0) then False
      else if \<not> pb_unbounded upper \<and>
        (let c = compareV v (pb_value upper) in if pb_inclusive upper then c > 0 else c \<ge> 0) then False
      else True)"

fun MatchRowSide :: "predicate option \<Rightarrow> tableID \<Rightarrow> byte \<Rightarrow> productValue \<Rightarrow> bool" where
  "MatchRowSide None table sideAlias row = True"
| "MatchRowSide (Some (ColEq t col alias v)) table sideAlias row =
     (if t \<noteq> table then True else if alias \<noteq> sideAlias then True
      else case rowValue row col of None \<Rightarrow> False | Some x \<Rightarrow> EqualValues x v)"
| "MatchRowSide (Some (ColNe t col alias v)) table sideAlias row =
     (if t \<noteq> table then True else if alias \<noteq> sideAlias then True
      else case rowValue row col of None \<Rightarrow> False | Some x \<Rightarrow> \<not> EqualValues x v)"
| "MatchRowSide (Some (ColRange t col alias lower upper)) table sideAlias row =
     (if t \<noteq> table then True else if alias \<noteq> sideAlias then True
      else case rowValue row col of None \<Rightarrow> False | Some x \<Rightarrow> matchBounds x lower upper)"
| "MatchRowSide (Some (ColEqCol lt lcol lalias rt rcol ralias)) table sideAlias row =
     (let leftMatches = lt = table \<and> lalias = sideAlias; rightMatches = rt = table \<and> ralias = sideAlias in
      if \<not> leftMatches \<and> \<not> rightMatches then True
      else if leftMatches \<and> rightMatches
      then case (rowValue row lcol, rowValue row rcol) of (Some l, Some r) \<Rightarrow> EqualValues l r | _ \<Rightarrow> False
      else True)"
| "MatchRowSide (Some (And l r)) table sideAlias row =
     (MatchRowSide l table sideAlias row \<and> MatchRowSide r table sideAlias row)"
| "MatchRowSide (Some (Or l r)) table sideAlias row =
     (MatchRowSide l table sideAlias row \<or> MatchRowSide r table sideAlias row)"
| "MatchRowSide (Some (AllRows _)) table sideAlias row = True"
| "MatchRowSide (Some (NoRows _)) table sideAlias row = False"
| "MatchRowSide (Some (Join _)) table sideAlias row = True"
| "MatchRowSide (Some (CrossJoin _)) table sideAlias row = True"
| "MatchRowSide (Some (MultiJoin _)) table sideAlias row = True"

definition MatchRow :: "predicate option \<Rightarrow> tableID \<Rightarrow> productValue \<Rightarrow> bool" where
  "MatchRow pred table row = MatchRowSide pred table 0 row"

definition joinPredicateRow ::
  "tableID \<Rightarrow> byte \<Rightarrow> tableID \<Rightarrow> byte \<Rightarrow> productValue \<Rightarrow> tableID \<Rightarrow> byte \<Rightarrow> productValue \<Rightarrow> productValue option" where
  "joinPredicateRow table alias leftTable leftAlias leftRow rightTable rightAlias rightRow =
     (if leftTable = rightTable then
        if table \<noteq> leftTable then None
        else if alias = leftAlias then Some leftRow
        else if alias = rightAlias then Some rightRow else None
      else if table = leftTable then Some leftRow
      else if table = rightTable then Some rightRow else None)"

text \<open>
  The leaves over a choice of rows: \<^verbatim>\<open>MatchJoinPair\<close> and \<^verbatim>\<open>matchMultiJoinTuple\<close> differ only in how
  they find the row a leaf speaks of.
\<close>

fun matchOver :: "(tableID \<Rightarrow> byte \<Rightarrow> productValue option) \<Rightarrow> predicate option \<Rightarrow> bool" where
  "matchOver rowOf None = True"
| "matchOver rowOf (Some (ColEq t col alias v)) =
     (case Option.bind (rowOf t alias) (\<lambda>row. rowValue row col) of None \<Rightarrow> False | Some x \<Rightarrow> EqualValues x v)"
| "matchOver rowOf (Some (ColNe t col alias v)) =
     (case Option.bind (rowOf t alias) (\<lambda>row. rowValue row col) of None \<Rightarrow> False | Some x \<Rightarrow> \<not> EqualValues x v)"
| "matchOver rowOf (Some (ColRange t col alias lower upper)) =
     (case Option.bind (rowOf t alias) (\<lambda>row. rowValue row col) of None \<Rightarrow> False | Some x \<Rightarrow> matchBounds x lower upper)"
| "matchOver rowOf (Some (ColEqCol lt lcol lalias rt rcol ralias)) =
     (case (Option.bind (rowOf lt lalias) (\<lambda>row. rowValue row lcol), Option.bind (rowOf rt ralias) (\<lambda>row. rowValue row rcol)) of
        (Some l, Some r) \<Rightarrow> EqualValues l r
      | _ \<Rightarrow> False)"
| "matchOver rowOf (Some (And l r)) = (matchOver rowOf l \<and> matchOver rowOf r)"
| "matchOver rowOf (Some (Or l r)) = (matchOver rowOf l \<or> matchOver rowOf r)"
| "matchOver rowOf (Some (AllRows _)) = True"
| "matchOver rowOf (Some (NoRows _)) = False"
| "matchOver rowOf (Some (Join _)) = True"
| "matchOver rowOf (Some (CrossJoin _)) = True"
| "matchOver rowOf (Some (MultiJoin _)) = True"

definition MatchJoinPair ::
  "predicate option \<Rightarrow> tableID \<Rightarrow> byte \<Rightarrow> productValue \<Rightarrow> tableID \<Rightarrow> byte \<Rightarrow> productValue \<Rightarrow> bool" where
  "MatchJoinPair pred leftTable leftAlias leftRow rightTable rightAlias rightRow =
     matchOver (\<lambda>table alias. joinPredicateRow table alias leftTable leftAlias leftRow rightTable rightAlias rightRow) pred"

definition multiJoinPredicateRow ::
  "tableID \<Rightarrow> byte \<Rightarrow> multiJoinRelation list \<Rightarrow> productValue list \<Rightarrow> productValue option" where
  "multiJoinPredicateRow table alias relations tuple =
     (let matches = filter (\<lambda>i. mr_table (relations ! i) = table) [0..<length relations] in
      if length matches = 1
      then (if last matches < length tuple then Some (tuple ! last matches) else None)
      else case find (\<lambda>i. mr_table (relations ! i) = table \<and> mr_alias (relations ! i) = alias) [0..<length relations] of
        None \<Rightarrow> None
      | Some i \<Rightarrow> if i < length tuple then Some (tuple ! i) else None)"

definition matchMultiJoinTuple :: "predicate option \<Rightarrow> multiJoinRelation list \<Rightarrow> productValue list \<Rightarrow> bool" where
  "matchMultiJoinTuple pred relations tuple =
     matchOver (\<lambda>table alias. multiJoinPredicateRow table alias relations tuple) pred"

section \<open>Equal rows match alike\<close>

lemma rowValue_Equal:
  "productEqual r s \<Longrightarrow> rel_option EqualValues (rowValue r col) (rowValue s col)"
  by (auto simp: productEqual_def rowValue_def list_all2_conv_all_nth)

lemma compareV_Equal:
  assumes "EqualValues v w" "nanFree v" "nanFree w" "v_kind x = v_kind v"
  shows "compareV v x = compareV w x"
proof -
  have k: "v_kind v = v_kind w" using assms(1) by (rule EqualValues_kind)
  have "compareV v w = 0" using Compare_zero_iff_Equal [OF assms(2,3)] assms(1) Compare_same_kind [OF k] by simp
  then show ?thesis by (rule value_order.cmp_cong_left [OF refl k [symmetric] assms(4)])
qed

lemma matchBounds_Equal:
  assumes "EqualValues v w" "nanFree v" "nanFree w"
  shows "matchBounds v lower upper = matchBounds w lower upper"
  using compareV_Equal [OF assms] EqualValues_kind [OF assms(1)] by (simp add: matchBounds_def)

lemma EqualValues_left: "EqualValues v w \<Longrightarrow> EqualValues v x = EqualValues w x"
  using EqualValues_sym EqualValues_trans by blast

lemma EqualValues_both: "EqualValues v w \<Longrightarrow> EqualValues x y \<Longrightarrow> EqualValues v x = EqualValues w y"
  using EqualValues_sym EqualValues_trans by blast

text \<open>Rows that are equal and hold no NaN.\<close>

definition same_row :: "productValue \<Rightarrow> productValue \<Rightarrow> bool" where
  "same_row r s \<longleftrightarrow> productEqual r s \<and> values_ok r \<and> values_ok s"

lemma same_row_value:
  assumes "same_row r s"
  shows "rel_option (\<lambda>v w. EqualValues v w \<and> nanFree v \<and> nanFree w) (rowValue r col) (rowValue s col)"
proof -
  have "rowValue q col = Some v \<Longrightarrow> values_ok q \<Longrightarrow> nanFree v" for q v
    by (auto simp: rowValue_def values_ok_def list_all_length wf_value_nanFree split: if_splits)
  with rowValue_Equal [of r s col] assms show ?thesis
    by (auto simp: same_row_def option_rel_Some1 option_rel_Some2 elim!: option.rel_cases)
qed

text \<open>The leaves on a pair of values that are equal and hold no NaN, or are both absent.\<close>

definition same_value :: "go_value option \<Rightarrow> go_value option \<Rightarrow> bool" where
  "same_value = rel_option (\<lambda>v w. EqualValues v w \<and> nanFree v \<and> nanFree w)"

lemma same_rowValue: "same_row r s \<Longrightarrow> same_value (rowValue r col) (rowValue s col)"
  unfolding same_value_def by (rule same_row_value)

lemma leaf_eq:
  assumes "same_value x y"
  shows "(case x of None \<Rightarrow> False | Some x \<Rightarrow> EqualValues x v) = (case y of None \<Rightarrow> False | Some x \<Rightarrow> EqualValues x v)"
  using assms unfolding same_value_def by (cases rule: option.rel_cases) (auto dest: EqualValues_left [where x = v])

lemma leaf_ne:
  assumes "same_value x y"
  shows "(case x of None \<Rightarrow> False | Some x \<Rightarrow> \<not> EqualValues x v) = (case y of None \<Rightarrow> False | Some x \<Rightarrow> \<not> EqualValues x v)"
  using assms unfolding same_value_def by (cases rule: option.rel_cases) (auto dest: EqualValues_left [where x = v])

lemma leaf_range:
  assumes "same_value x y"
  shows "(case x of None \<Rightarrow> False | Some x \<Rightarrow> matchBounds x lo hi) = (case y of None \<Rightarrow> False | Some x \<Rightarrow> matchBounds x lo hi)"
  using assms unfolding same_value_def
  by (cases rule: option.rel_cases) (auto dest: matchBounds_Equal [where lower = lo and upper = hi])

lemma leaf_cols:
  assumes "same_value x y" "same_value x' y'"
  shows "(case (x, x') of (Some l, Some r) \<Rightarrow> EqualValues l r | _ \<Rightarrow> False) =
    (case (y, y') of (Some l, Some r) \<Rightarrow> EqualValues l r | _ \<Rightarrow> False)"
  using assms(1) unfolding same_value_def
proof (cases rule: option.rel_cases)
  case (Some v w)
  from assms(2) [unfolded same_value_def] Some show ?thesis
    by (cases rule: option.rel_cases) (auto dest: EqualValues_both)
qed simp

lemmas leaf_cong = leaf_eq leaf_ne leaf_range

lemma MatchRowSide_same:
  assumes "same_row r s"
  shows "MatchRowSide p t a r = MatchRowSide p t a s"
  using assms
proof (induction p t a r rule: MatchRowSide.induct)
  case (5 lt lcol lalias rt rcol ralias t a r)
  show ?case
    using leaf_cols [OF same_rowValue [OF 5, of lcol] same_rowValue [OF 5, of rcol]]
    by (simp only: MatchRowSide.simps Let_def)
qed (simp_all only: MatchRowSide.simps leaf_cong [OF same_rowValue])

lemma same_bind:
  assumes "rel_option same_row x y"
  shows "same_value (Option.bind x (\<lambda>row. rowValue row col)) (Option.bind y (\<lambda>row. rowValue row col))"
  using assms by (cases rule: option.rel_cases) (simp_all add: same_rowValue, simp add: same_value_def)

lemma matchOver_same:
  assumes "\<And>t a. rel_option same_row (f t a) (g t a)"
  shows "matchOver f p = matchOver g p"
  using assms
proof (induction f p rule: matchOver.induct)
  case (5 f lt lcol lalias rt rcol ralias)
  show ?case unfolding matchOver.simps by (rule leaf_cols [OF same_bind [OF 5] same_bind [OF 5]])
next
  case (2 f t col al v)
  show ?case unfolding matchOver.simps by (rule leaf_eq [OF same_bind [OF 2]])
next
  case (3 f t col al v)
  show ?case unfolding matchOver.simps by (rule leaf_ne [OF same_bind [OF 3]])
next
  case (4 f t col al lo hi)
  show ?case unfolding matchOver.simps by (rule leaf_range [OF same_bind [OF 4]])
qed (simp_all only: matchOver.simps)

lemma MatchJoinPair_same:
  assumes "same_row l l'" "same_row r r'"
  shows "MatchJoinPair p lt la l rt ra r = MatchJoinPair p lt la l' rt ra r'"
  unfolding MatchJoinPair_def by (rule matchOver_same) (use assms in \<open>simp add: joinPredicateRow_def\<close>)

lemma matchMultiJoinTuple_same:
  assumes "list_all2 same_row rs ss"
  shows "matchMultiJoinTuple p rels rs = matchMultiJoinTuple p rels ss"
  unfolding matchMultiJoinTuple_def
  by (rule matchOver_same)
    (use assms in \<open>auto simp: multiJoinPredicateRow_def Let_def list_all2_conv_all_nth split: option.split\<close>)

end
