(* ===== verification/DeltaView.thy ===== *)
theory DeltaView
  imports Predicates Snapshot Commit
begin

text \<open>
  The view of a commit that subscriptions are evaluated on (\<^verbatim>\<open>src/subscription/delta_view.go\<close>, the
  keys of \<^verbatim>\<open>value_index.go\<close>): the committed state after the commit, the rows the changeset
  inserts and deletes, and hash indexes over them. A view taken from the pool is empty. Shown
  here: the keys identify exactly the equal values, and a scan of a delta index finds exactly the
  rows whose column equals the value.
\<close>

section \<open>The committed read view\<close>

text \<open>What the calls of \<^verbatim>\<open>store.CommittedReadView\<close> return on an open snapshot of a state; an index seek may panic.\<close>

definition viewTableScan :: "committedState \<Rightarrow> tableID \<Rightarrow> (rowID \<times> productValue) list" where
  "viewTableScan cs tid = (case tableLocked cs tid of None \<Rightarrow> [] | Some t \<Rightarrow> tableScan t)"

definition viewGetRow :: "committedState \<Rightarrow> tableID \<Rightarrow> rowID \<Rightarrow> productValue option" where
  "viewGetRow cs tid rid = (case tableLocked cs tid of None \<Rightarrow> None | Some t \<Rightarrow> GetRow t rid)"

definition viewIndexSeek :: "committedState \<Rightarrow> tableID \<Rightarrow> indexID \<Rightarrow> indexKey \<Rightarrow> rowID list option" where
  "viewIndexSeek cs tid iid key = (case snLookupIndex cs tid iid of None \<Rightarrow> Some [] | Some (_, idx) \<Rightarrow> idxSeek idx key)"

definition viewRowCount :: "committedState \<Rightarrow> tableID \<Rightarrow> nat" where
  "viewRowCount cs tid = (case tableLocked cs tid of None \<Rightarrow> 0 | Some t \<Rightarrow> RowCount t)"

lemma view_reads:
  assumes "open_snap w"
  shows "snTableScan w tid = Some (w, visits (viewTableScan (sn_cs (fst w)) tid))"
    "snGetRow w tid rid = Some (w, viewGetRow (sn_cs (fst w)) tid rid)"
    "snRowCount w tid = Some (w, viewRowCount (sn_cs (fst w)) tid)"
    "viewIndexSeek (sn_cs (fst w)) tid iid key = Some ids \<Longrightarrow> snIndexSeek w tid iid key = Some (w, ids)"
  unfolding snTableScan_def snGetRow_def snRowCount_def snIndexSeek_def
  by (rule reading_open [OF assms];
      simp add: viewTableScan_def viewGetRow_def viewRowCount_def viewIndexSeek_def split: option.split)+

text \<open>The registry's map from single columns to the first index on them.\<close>

fun registerIndexes :: "tableID \<Rightarrow> indexSchema list \<Rightarrow> ((tableID \<times> int) \<times> indexID) list \<Rightarrow> ((tableID \<times> int) \<times> indexID) list" where
  "registerIndexes tid [] m = m"
| "registerIndexes tid (ix # ixs) m =
     registerIndexes tid ixs
       (if length (ix_columns ix) \<noteq> 1 then m
        else let key = (tid, int (hd (ix_columns ix))) in
          case map_of m key of None \<Rightarrow> AList.update key (ix_id ix) m | Some _ \<Rightarrow> m)"

definition indexByColumn :: "tableSchema list \<Rightarrow> ((tableID \<times> int) \<times> indexID) list" where
  "indexByColumn schemas = fold (\<lambda>ts. registerIndexes (ts_id ts) (ts_indexes ts)) schemas []"

type_synonym indexResolver = "tableID \<Rightarrow> colID \<Rightarrow> indexID option"

definition indexIDForColumn :: "tableSchema list \<Rightarrow> indexResolver" where
  "indexIDForColumn schemas table col = map_of (indexByColumn schemas) (table, col)"

section \<open>Keys of values\<close>

record valueKey =
  vk_kind :: value_kind
  vk_null :: bool
  vk_i64 :: u64
  vk_u64 :: u64
  vk_str :: bytes
  vk_bytes :: bytes
  vk_hi :: u64
  vk_lo :: u64
  vk_w256 :: "u64 \<times> u64 \<times> u64 \<times> u64"
  vk_uuid :: bytes

definition canonicalFloat32Bits :: "u32 \<Rightarrow> u32" where
  "canonicalFloat32Bits v = (if f32_eq v 0 then 0 else v)"

definition canonicalFloat64Bits :: "u64 \<Rightarrow> u64" where
  "canonicalFloat64Bits v = (if f64_eq v 0 then 0 else v)"

definition writeLen :: "nat \<Rightarrow> bytes option" where
  "writeLen n = (if n > 4294967295 then None else Some (put_be 4 (of_nat n :: u32)))"

definition writeString :: "bytes \<Rightarrow> bytes option" where
  "writeString s = do { n \<leftarrow> writeLen (length s); Some (n @ s) }"

fun writeStringList :: "bytes list \<Rightarrow> bytes option" where
  "writeStringList [] = Some []"
| "writeStringList (s # xs) = do { x \<leftarrow> writeString s; rest \<leftarrow> writeStringList xs; Some (x @ rest) }"

definition writeStringArray :: "bytes list \<Rightarrow> bytes option" where
  "writeStringArray xs = do { n \<leftarrow> writeLen (length xs); rest \<leftarrow> writeStringList xs; Some (n @ rest) }"

definition encodeValueKey :: "go_value \<Rightarrow> valueKey option" where
  "encodeValueKey v =
     (let k = \<lparr>vk_kind = v_kind v, vk_null = v_isNull v, vk_i64 = 0, vk_u64 = 0, vk_str = [], vk_bytes = [],
               vk_hi = 0, vk_lo = 0, vk_w256 = (0, 0, 0, 0), vk_uuid = replicate 16 0\<rparr> in
      if v_isNull v then Some k
      else case v_kind v of
        KindBool \<Rightarrow> do { b \<leftarrow> AsBool v; Some (if b then k\<lparr>vk_u64 := 1\<rparr> else k) }
      | KindInt8 \<Rightarrow> do { x \<leftarrow> AsInt8 v; Some (k\<lparr>vk_i64 := scast x\<rparr>) }
      | KindInt16 \<Rightarrow> do { x \<leftarrow> AsInt16 v; Some (k\<lparr>vk_i64 := scast x\<rparr>) }
      | KindInt32 \<Rightarrow> do { x \<leftarrow> AsInt32 v; Some (k\<lparr>vk_i64 := scast x\<rparr>) }
      | KindInt64 \<Rightarrow> do { x \<leftarrow> AsInt64 v; Some (k\<lparr>vk_i64 := x\<rparr>) }
      | KindUint8 \<Rightarrow> do { x \<leftarrow> AsUint8 v; Some (k\<lparr>vk_u64 := ucast x\<rparr>) }
      | KindUint16 \<Rightarrow> do { x \<leftarrow> AsUint16 v; Some (k\<lparr>vk_u64 := ucast x\<rparr>) }
      | KindUint32 \<Rightarrow> do { x \<leftarrow> AsUint32 v; Some (k\<lparr>vk_u64 := ucast x\<rparr>) }
      | KindUint64 \<Rightarrow> do { x \<leftarrow> AsUint64 v; Some (k\<lparr>vk_u64 := x\<rparr>) }
      | KindFloat32 \<Rightarrow> do { x \<leftarrow> AsFloat32 v; Some (k\<lparr>vk_u64 := ucast (canonicalFloat32Bits x)\<rparr>) }
      | KindFloat64 \<Rightarrow> do { x \<leftarrow> AsFloat64 v; Some (k\<lparr>vk_u64 := canonicalFloat64Bits x\<rparr>) }
      | KindString \<Rightarrow> do { s \<leftarrow> AsString v; Some (k\<lparr>vk_str := s\<rparr>) }
      | KindBytes \<Rightarrow> do { s \<leftarrow> BytesView v; Some (k\<lparr>vk_bytes := s\<rparr>) }
      | KindInt128 \<Rightarrow> do { (hi, lo) \<leftarrow> AsInt128 v; Some (k\<lparr>vk_hi := hi, vk_lo := lo\<rparr>) }
      | KindUint128 \<Rightarrow> do { (hi, lo) \<leftarrow> AsUint128 v; Some (k\<lparr>vk_hi := hi, vk_lo := lo\<rparr>) }
      | KindInt256 \<Rightarrow> do { w \<leftarrow> AsInt256 v; Some (k\<lparr>vk_w256 := w\<rparr>) }
      | KindUint256 \<Rightarrow> do { w \<leftarrow> AsUint256 v; Some (k\<lparr>vk_w256 := w\<rparr>) }
      | KindTimestamp \<Rightarrow> do { x \<leftarrow> AsTimestamp v; Some (k\<lparr>vk_i64 := x\<rparr>) }
      | KindDuration \<Rightarrow> do { x \<leftarrow> AsDurationMicros v; Some (k\<lparr>vk_i64 := x\<rparr>) }
      | KindArrayString \<Rightarrow> do { xs \<leftarrow> ArrayStringView v; s \<leftarrow> writeStringArray xs; Some (k\<lparr>vk_str := s\<rparr>) }
      | KindUUID \<Rightarrow> do { u \<leftarrow> AsUUID v; Some (k\<lparr>vk_uuid := u\<rparr>) }
      | KindJSON \<Rightarrow> do { s \<leftarrow> JSONView v; Some (k\<lparr>vk_bytes := s\<rparr>) })"

section \<open>The delta view\<close>

type_synonym valuePositions = "(valueKey \<times> nat list) list"
type_synonym tableDeltaIndex = "(colID \<times> valuePositions) list"

record deltaView =
  dv_committed :: "committedState option"
  dv_inserts :: "(tableID \<times> productValue list) list"
  dv_deletes :: "(tableID \<times> productValue list) list"
  dv_events :: "(tableID \<times> bool) list"
  dv_insertIdx :: "(tableID \<times> tableDeltaIndex) list"
  dv_deleteIdx :: "(tableID \<times> tableDeltaIndex) list"

fun indexRows :: "colID \<Rightarrow> nat \<Rightarrow> productValue list \<Rightarrow> valuePositions \<Rightarrow> valuePositions option" where
  "indexRows col i [] byVal = Some byVal"
| "indexRows col i (row # rows) byVal =
     (case rowValue row col of
        None \<Rightarrow> indexRows col (i + 1) rows byVal
      | Some v \<Rightarrow> do {
          key \<leftarrow> encodeValueKey v;
          let positions = (case map_of byVal key of None \<Rightarrow> [] | Some ps \<Rightarrow> ps);
          indexRows col (i + 1) rows (AList.update key (positions @ [i]) byVal)
        })"

fun buildDeltaIndexForRows :: "productValue list \<Rightarrow> colID list \<Rightarrow> tableDeltaIndex \<Rightarrow> tableDeltaIndex option" where
  "buildDeltaIndexForRows rows [] byCol = Some byCol"
| "buildDeltaIndexForRows rows (col # cols) byCol = do {
     byVal \<leftarrow> indexRows col 0 rows [];
     buildDeltaIndexForRows rows cols (AList.update col byVal byCol)
   }"

definition InsertedRows :: "deltaView \<Rightarrow> tableID \<Rightarrow> productValue list" where
  "InsertedRows dv table = (case map_of (dv_inserts dv) table of None \<Rightarrow> [] | Some rows \<Rightarrow> rows)"

definition DeletedRows :: "deltaView \<Rightarrow> tableID \<Rightarrow> productValue list" where
  "DeletedRows dv table = (case map_of (dv_deletes dv) table of None \<Rightarrow> [] | Some rows \<Rightarrow> rows)"

definition IsEventTable :: "deltaView \<Rightarrow> tableID \<Rightarrow> bool" where
  "IsEventTable dv table = (case map_of (dv_events dv) table of None \<Rightarrow> False | Some b \<Rightarrow> b)"

definition buildDeltaIndex :: "deltaView \<Rightarrow> tableID \<Rightarrow> colID list \<Rightarrow> deltaView option" where
  "buildDeltaIndex dv table cols = do {
     let ins = InsertedRows dv table;
     dv \<leftarrow> (if length ins > 0
            then do { idx \<leftarrow> buildDeltaIndexForRows ins cols []; Some (dv\<lparr>dv_insertIdx := AList.update table idx (dv_insertIdx dv)\<rparr>) }
            else Some dv);
     let del = DeletedRows dv table;
     if length del > 0
     then do { idx \<leftarrow> buildDeltaIndexForRows del cols []; Some (dv\<lparr>dv_deleteIdx := AList.update table idx (dv_deleteIdx dv)\<rparr>) }
     else Some dv
   }"

fun buildDeltaIndexes :: "deltaView \<Rightarrow> (tableID \<times> colID list) list \<Rightarrow> deltaView option" where
  "buildDeltaIndexes dv [] = Some dv"
| "buildDeltaIndexes dv ((table, cols) # rest) = do { dv \<leftarrow> buildDeltaIndex dv table cols; buildDeltaIndexes dv rest }"

fun addEvents :: "(tableID \<times> bool) list \<Rightarrow> (tableID \<times> bool) list \<Rightarrow> (tableID \<times> bool) list" where
  "addEvents [] events = events"
| "addEvents ((table, isEvent) # rest) events = addEvents rest (if isEvent then AList.update table True events else events)"

definition addTable :: "tableID \<Rightarrow> tableChangeset \<Rightarrow> deltaView \<Rightarrow> deltaView" where
  "addTable tid tc dv =
     (let dv = (if length (tc_inserts tc) > 0 then dv\<lparr>dv_inserts := AList.update tid (tc_inserts tc) (dv_inserts dv)\<rparr> else dv)
      in if length (tc_deletes tc) > 0 then dv\<lparr>dv_deletes := AList.update tid (tc_deletes tc) (dv_deletes dv)\<rparr> else dv)"

fun addTables :: "(tableID \<times> tableChangeset option) list \<Rightarrow> deltaView \<Rightarrow> deltaView" where
  "addTables [] dv = dv"
| "addTables ((tid, None) # rest) dv = addTables rest dv"
| "addTables ((tid, Some tc) # rest) dv = addTables rest (addTable tid tc dv)"

definition acquireDeltaView :: deltaView where
  "acquireDeltaView = \<lparr>dv_committed = None, dv_inserts = [], dv_deletes = [], dv_events = [], dv_insertIdx = [], dv_deleteIdx = []\<rparr>"

definition NewDeltaView ::
  "committedState option \<Rightarrow> changeset option \<Rightarrow> (tableID \<times> colID list) list \<Rightarrow> (tableID \<times> bool) list option \<Rightarrow> deltaView option" where
  "NewDeltaView committed ch deltaIndexColumns eventTables =
     (let dv = acquireDeltaView\<lparr>dv_committed := committed\<rparr>;
          dv = (case eventTables of None \<Rightarrow> dv | Some evs \<Rightarrow> dv\<lparr>dv_events := addEvents evs (dv_events dv)\<rparr>)
      in case ch of
        None \<Rightarrow> Some dv
      | Some ch \<Rightarrow> buildDeltaIndexes (addTables (ch_tables ch) dv) deltaIndexColumns)"

definition hasDeltaIndex :: "deltaView \<Rightarrow> tableID \<Rightarrow> colID \<Rightarrow> bool \<Rightarrow> bool" where
  "hasDeltaIndex dv table col inserted =
     (case map_of (if inserted then dv_insertIdx dv else dv_deleteIdx dv) table of
        None \<Rightarrow> False
      | Some byCol \<Rightarrow> map_of byCol col \<noteq> None)"

definition deltaIndexPositions :: "deltaView \<Rightarrow> tableID \<Rightarrow> colID \<Rightarrow> go_value \<Rightarrow> bool \<Rightarrow> nat list option" where
  "deltaIndexPositions dv table col v inserted =
     (case map_of (if inserted then dv_inserts dv else dv_deletes dv) table of
        None \<Rightarrow> Some []
      | Some _ \<Rightarrow> do {
          byCol \<leftarrow> map_of (if inserted then dv_insertIdx dv else dv_deleteIdx dv) table;
          byVal \<leftarrow> map_of byCol col;
          key \<leftarrow> encodeValueKey v;
          Some (case map_of byVal key of None \<Rightarrow> [] | Some ps \<Rightarrow> ps)
        })"

text \<open>A position out of range panics.\<close>

definition DeltaIndexScan :: "deltaView \<Rightarrow> tableID \<Rightarrow> colID \<Rightarrow> go_value \<Rightarrow> bool \<Rightarrow> productValue list option" where
  "DeltaIndexScan dv table col v inserted = do {
     positions \<leftarrow> deltaIndexPositions dv table col v inserted;
     let rows = (if inserted then InsertedRows dv table else DeletedRows dv table);
     those (map (\<lambda>pos. if pos < length rows then Some (rows ! pos) else None) positions)
   }"

definition CommittedScan :: "deltaView \<Rightarrow> tableID \<Rightarrow> (rowID \<times> productValue) list" where
  "CommittedScan dv table = (case dv_committed dv of None \<Rightarrow> [] | Some cs \<Rightarrow> viewTableScan cs table)"

section \<open>Keys identify equal values\<close>

lemma writeLen_eq: "writeLen n = map_option (put_be 4) (checkedPayloadLen n)"
  by (simp add: writeLen_def checkedPayloadLen_def)

lemma writeStringList_eq: "writeStringList xs = writeStrings xs"
proof (induction xs)
  case (Cons s xs)
  then show ?case by (cases "checkedPayloadLen (length s)") (simp_all add: writeString_def writeLen_eq)
qed simp

lemma writeStringArray_eq:
  "writeStringArray xs = do { n \<leftarrow> checkedPayloadLen (length xs); rest \<leftarrow> writeStrings xs; Some (put_be 4 n @ rest) }"
  by (cases "checkedPayloadLen (length xs)") (simp_all add: writeStringArray_def writeStringList_eq writeLen_eq)

lemma canonicalFloatBits_eq: "canonicalFloat32Bits = f32_hashBits" "canonicalFloat64Bits = f64_hashBits"
  by (auto simp: fun_eq_iff canonicalFloat32Bits_def f32_hashBits_def canonicalFloat64Bits_def f64_hashBits_def)

text \<open>A well-formed narrow integer is what its accessor returns.\<close>

lemma wf_narrow:
  assumes "wf_value v" "\<not> v_isNull v"
  shows "v_kind v = KindInt8 \<Longrightarrow> scast (ucast (v_i64 v) :: byte) = v_i64 v"
    "v_kind v = KindInt16 \<Longrightarrow> scast (ucast (v_i64 v) :: u16) = v_i64 v"
    "v_kind v = KindInt32 \<Longrightarrow> scast (ucast (v_i64 v) :: u32) = v_i64 v"
    "v_kind v = KindUint8 \<Longrightarrow> ucast (ucast (v_u64 v) :: byte) = v_u64 v"
    "v_kind v = KindUint16 \<Longrightarrow> ucast (ucast (v_u64 v) :: u16) = v_u64 v"
    "v_kind v = KindUint32 \<Longrightarrow> ucast (ucast (v_u64 v) :: u32) = v_u64 v"
proof -
  have i: "v = NewInt8 x \<Longrightarrow> v_i64 v = scast x" "v = NewInt16 y \<Longrightarrow> v_i64 v = scast y" "v = NewInt32 z \<Longrightarrow> v_i64 v = scast z"
    "v = NewUint8 x \<Longrightarrow> v_u64 v = ucast x" "v = NewUint16 y \<Longrightarrow> v_u64 v = ucast y" "v = NewUint32 z \<Longrightarrow> v_u64 v = ucast z" for x y z
    by (simp_all add: constructor_defs)
  show "v_kind v = KindInt8 \<Longrightarrow> scast (ucast (v_i64 v) :: byte) = v_i64 v"
    using assms i(1) [of "ucast (v_i64 v)"] by (simp add: wf_value_def)
  show "v_kind v = KindInt16 \<Longrightarrow> scast (ucast (v_i64 v) :: u16) = v_i64 v"
    using assms i(2) [of "ucast (v_i64 v)"] by (simp add: wf_value_def)
  show "v_kind v = KindInt32 \<Longrightarrow> scast (ucast (v_i64 v) :: u32) = v_i64 v"
    using assms i(3) [of "ucast (v_i64 v)"] by (simp add: wf_value_def)
  show "v_kind v = KindUint8 \<Longrightarrow> ucast (ucast (v_u64 v) :: byte) = v_u64 v"
    using assms i(4) [of "ucast (v_u64 v)"] by (simp add: wf_value_def)
  show "v_kind v = KindUint16 \<Longrightarrow> ucast (ucast (v_u64 v) :: u16) = v_u64 v"
    using assms i(5) [of "ucast (v_u64 v)"] by (simp add: wf_value_def)
  show "v_kind v = KindUint32 \<Longrightarrow> ucast (ucast (v_u64 v) :: u32) = v_u64 v"
    using assms i(6) [of "ucast (v_u64 v)"] by (simp add: wf_value_def)
qed

lemma stringsPayloadLen_writes:
  "stringsPayloadLen n xs \<noteq> None \<Longrightarrow> writeStrings xs \<noteq> None \<and> n + 4 * length xs \<le> max n 4294967295"
proof (induction xs arbitrary: n)
  case (Cons s xs)
  then obtain m where m: "checkedPayloadLen (length s) = Some m" "stringsPayloadLen (n + 4 + unat m) xs \<noteq> None"
    "n + 4 + unat m \<le> 4294967295"
    by (cases "checkedPayloadLen (length s)") (auto simp: Let_def split: if_splits)
  from Cons.IH [OF m(2)] m(1,3) show ?case by (auto simp: result_simps)
qed simp

lemma encodeValueKey_some:
  assumes "wf_value v" "payloadLen v \<noteq> None"
  shows "\<exists>k. encodeValueKey v = Some k"
proof (cases "v_kind v = KindArrayString \<and> \<not> v_isNull v")
  case True
  then have s: "stringsPayloadLen 4 (v_strArr v) \<noteq> None" using assms(2) by (simp add: payloadLen_def)
  then obtain rest where "writeStrings (v_strArr v) = Some rest" using stringsPayloadLen_writes by blast
  moreover have "length (v_strArr v) \<le> 4294967295" using stringsPayloadLen_writes [OF s] by simp
  then obtain n where "checkedPayloadLen (length (v_strArr v)) = Some n" by (simp add: checkedPayloadLen_def)
  ultimately show ?thesis using True by (simp add: encodeValueKey_def Let_def accessor_defs writeStringArray_eq)
next
  case False
  then show ?thesis
    by (cases "v_kind v"; cases "v_isNull v"; simp add: encodeValueKey_def accessor_defs case_prod_beta Let_def)
qed

lemma encodeValueKey_shape: "encodeValueKey v = Some k \<Longrightarrow> vk_kind k = v_kind v \<and> vk_null k = v_isNull v"
  by (cases "v_isNull v"; cases "v_kind v") (auto simp: encodeValueKey_def Let_def accessor_defs result_simps split: if_splits)

lemma ucast_u32_inj: "ucast (x :: u32) = (ucast y :: u64) \<longleftrightarrow> x = y"
  by (metis ucast_scast_narrow(6))

lemma encodeValueKey_iff:
  assumes "wf_value v" "wf_value w" "encodeValueKey v = Some k" "encodeValueKey w = Some l"
  shows "k = l \<longleftrightarrow> EqualValues v w"
proof -
  have nf: "nanFree v" "nanFree w" using assms(1,2) by (simp_all add: wf_value_nanFree)
  consider (shape) "v_kind v \<noteq> v_kind w \<or> v_isNull v \<noteq> v_isNull w"
    | (null) "v_kind v = v_kind w" "v_isNull v" "v_isNull w"
    | (array) "v_kind v = v_kind w" "\<not> v_isNull v" "\<not> v_isNull w" "v_kind v = KindArrayString"
    | (plain) "v_kind v = v_kind w" "\<not> v_isNull v" "\<not> v_isNull w" "v_kind v \<noteq> KindArrayString" by blast
  then show ?thesis
  proof cases
    case shape
    with encodeValueKey_shape [OF assms(3)] encodeValueKey_shape [OF assms(4)] show ?thesis by (auto simp: EqualValues_def)
  next
    case null
    then show ?thesis using assms(3,4) by (auto simp: encodeValueKey_def Let_def EqualValues_def)
  next
    case array
    obtain p q where p: "writeStringArray (v_strArr v) = Some p" "writeStringArray (v_strArr w) = Some q" "k = l \<longleftrightarrow> p = q"
      using assms(3,4) array by (auto simp: encodeValueKey_def Let_def accessor_defs result_simps)
    have "writePayload v = Some p" "writePayload w = Some q" using p array by (simp_all add: writePayload_def writeStringArray_eq)
    with writePayload_inj [of v p w] EqualValues_payload(1) [of v w] nf array p(3) show ?thesis by auto
  next
    case plain
    note inj = f32_hashBits_inj f64_hashBits_inj
    show ?thesis
      using assms plain nf f32_eq_bits f64_eq_bits wf_narrow [OF assms(1)] wf_narrow [OF assms(2)]
      by (cases "v_kind v")
        (auto simp: encodeValueKey_def Let_def accessor_defs EqualValues_def nanFree_def canonicalFloatBits_eq prod_eq_iff ucast_u32_inj
          case_prod_beta intro: inj split: if_splits)
  qed
qed

section \<open>Delta indexes\<close>

definition matchesAt :: "colID \<Rightarrow> go_value \<Rightarrow> productValue \<Rightarrow> bool" where
  "matchesAt col v row = (case rowValue row col of None \<Rightarrow> False | Some x \<Rightarrow> EqualValues x v)"

definition keyAt :: "colID \<Rightarrow> productValue \<Rightarrow> valueKey option" where
  "keyAt col row = Option.bind (rowValue row col) encodeValueKey"

definition posOf :: "valuePositions \<Rightarrow> valueKey \<Rightarrow> nat list" where
  "posOf byVal key = (case map_of byVal key of None \<Rightarrow> [] | Some ps \<Rightarrow> ps)"

definition positionsOf :: "colID \<Rightarrow> productValue list \<Rightarrow> valueKey \<Rightarrow> nat list" where
  "positionsOf col rows key = filter (\<lambda>j. keyAt col (rows ! j) = Some key) [0..<length rows]"

lemma rowValue_ok: "values_ok row \<Longrightarrow> rowValue row col = Some v \<Longrightarrow> wf_value v \<and> payloadLen v \<noteq> None"
  by (auto simp: rowValue_def values_ok_def list_all_length split: if_splits)

lemma posOf_update: "posOf (AList.update k ps m) k' = (if k' = k then ps else posOf m k')"
  by (simp add: posOf_def update_conv')

lemma indexRows_ok:
  assumes "list_all values_ok rows"
  shows "\<exists>byVal'. indexRows col i rows byVal = Some byVal' \<and>
    (\<forall>key. posOf byVal' key = posOf byVal key @ map (\<lambda>j. j + i) (positionsOf col rows key))"
  using assms
proof (induction rows arbitrary: i byVal)
  case Nil
  then show ?case by (simp add: positionsOf_def)
next
  case (Cons row rows)
  have split: "map (\<lambda>j. j + i) (positionsOf col (row # rows) key) =
      (if keyAt col row = Some key then [i] else []) @ map (\<lambda>j. j + (i + 1)) (positionsOf col rows key)" for key
    unfolding positionsOf_def
    by (simp add: upt_conv_Cons filter_map comp_def map_Suc_upt [symmetric] del: upt_Suc)
  show ?case
  proof (cases "rowValue row col")
    case None
    then have "keyAt col row = None" by (simp add: keyAt_def)
    with None Cons.IH [of "i + 1" byVal] Cons.prems show ?thesis by (simp add: split)
  next
    case (Some v)
    then obtain k where k: "encodeValueKey v = Some k"
      using encodeValueKey_some rowValue_ok [of row col v] Cons.prems by auto
    have key: "keyAt col row = Some k" using Some k by (simp add: keyAt_def)
    let ?m = "AList.update k (posOf byVal k @ [i]) byVal"
    obtain byVal' where b: "indexRows col (i + 1) rows ?m = Some byVal'"
      "\<forall>key. posOf byVal' key = posOf ?m key @ map (\<lambda>j. j + (i + 1)) (positionsOf col rows key)"
      using Cons.IH [of "i + 1" ?m] Cons.prems by auto
    from b(1) have "indexRows col i (row # rows) byVal = Some byVal'" using Some k by (simp add: posOf_def)
    moreover have "posOf byVal' key = posOf byVal key @ map (\<lambda>j. j + i) (positionsOf col (row # rows) key)" for key
      unfolding split using b(2) key by (simp add: posOf_update)
    ultimately show ?thesis by blast
  qed
qed

definition index_of :: "productValue list \<Rightarrow> tableDeltaIndex \<Rightarrow> bool" where
  "index_of rows byCol \<longleftrightarrow> (\<forall>col byVal. map_of byCol col = Some byVal \<longrightarrow> (\<forall>key. posOf byVal key = positionsOf col rows key))"

lemma buildDeltaIndexForRows_ok:
  assumes "list_all values_ok rows" "index_of rows byCol"
  shows "\<exists>byCol'. buildDeltaIndexForRows rows cols byCol = Some byCol' \<and> index_of rows byCol' \<and>
    (\<forall>col. map_of byCol' col \<noteq> None \<longleftrightarrow> col \<in> set cols \<or> map_of byCol col \<noteq> None)"
  using assms(2)
proof (induction cols arbitrary: byCol)
  case (Cons col cols)
  obtain byVal where b: "indexRows col 0 rows [] = Some byVal" "\<forall>key. posOf byVal key = positionsOf col rows key"
    using indexRows_ok [OF assms(1), of col 0 "[]"] by (auto simp: posOf_def)
  have "index_of rows (AList.update col byVal byCol)" using Cons.prems b(2) by (auto simp: index_of_def update_conv')
  from Cons.IH [OF this] b(1) show ?case by (auto simp: update_conv')
qed simp

definition sideRows :: "bool \<Rightarrow> deltaView \<Rightarrow> tableID \<Rightarrow> productValue list" where
  "sideRows inserted dv t = (if inserted then InsertedRows dv t else DeletedRows dv t)"

definition sideIdx :: "bool \<Rightarrow> deltaView \<Rightarrow> (tableID \<times> tableDeltaIndex) list" where
  "sideIdx inserted dv = (if inserted then dv_insertIdx dv else dv_deleteIdx dv)"

definition dv_wf :: "deltaView \<Rightarrow> bool" where
  "dv_wf dv \<longleftrightarrow>
     (\<forall>t rows. map_of (dv_inserts dv) t = Some rows \<longrightarrow> rows \<noteq> []) \<and>
     (\<forall>t rows. map_of (dv_deletes dv) t = Some rows \<longrightarrow> rows \<noteq> []) \<and>
     (\<forall>s t. list_all values_ok (sideRows s dv t)) \<and>
     (\<forall>s t byCol. map_of (sideIdx s dv) t = Some byCol \<longrightarrow> index_of (sideRows s dv t) byCol)"

definition indexed :: "deltaView \<Rightarrow> tableID \<Rightarrow> colID \<Rightarrow> bool" where
  "indexed dv t col \<longleftrightarrow> (\<forall>s. sideRows s dv t \<noteq> [] \<longrightarrow> hasDeltaIndex dv t col s)"

lemma hasDeltaIndex_side: "hasDeltaIndex dv t col s \<longleftrightarrow> (\<exists>byCol byVal. map_of (sideIdx s dv) t = Some byCol \<and> map_of byCol col = Some byVal)"
  by (auto simp: hasDeltaIndex_def sideIdx_def split: option.splits)

lemma keyAt_matches:
  assumes "values_ok row" "wf_value v" "encodeValueKey v = Some k"
  shows "keyAt col row = Some k \<longleftrightarrow> matchesAt col v row"
proof (cases "rowValue row col")
  case (Some x)
  have x: "wf_value x" "payloadLen x \<noteq> None" using rowValue_ok [OF assms(1) Some] by auto
  then obtain l where l: "encodeValueKey x = Some l" using encodeValueKey_some by blast
  show ?thesis using encodeValueKey_iff [OF x(1) assms(2) l assms(3)] Some l by (simp add: keyAt_def matchesAt_def)
qed (simp add: keyAt_def matchesAt_def)

lemma deltaIndexPositions_ok:
  assumes "dv_wf dv" "sideRows s dv t \<noteq> [] \<longrightarrow> hasDeltaIndex dv t col s" "wf_value v" "payloadLen v \<noteq> None"
  shows "deltaIndexPositions dv t col v s =
    Some (filter (\<lambda>j. matchesAt col v (sideRows s dv t ! j)) [0..<length (sideRows s dv t)])"
proof (cases "map_of (if s then dv_inserts dv else dv_deletes dv) t")
  case None
  then have "sideRows s dv t = []" by (cases s) (simp_all add: sideRows_def InsertedRows_def DeletedRows_def)
  with None show ?thesis by (simp add: deltaIndexPositions_def)
next
  case (Some rows)
  then have rows: "sideRows s dv t = rows" by (cases s) (simp_all add: sideRows_def InsertedRows_def DeletedRows_def)
  have "rows \<noteq> []" using Some assms(1) unfolding dv_wf_def by (cases s) auto
  then obtain byCol byVal where b: "map_of (sideIdx s dv) t = Some byCol" "map_of byCol col = Some byVal"
    using assms(2) rows by (auto simp: hasDeltaIndex_side)
  obtain k where k: "encodeValueKey v = Some k" using encodeValueKey_some [OF assms(3,4)] by blast
  have ok: "list_all values_ok rows" and io: "index_of rows byCol" using assms(1) rows b(1) by (auto simp: dv_wf_def)
  have "posOf byVal k = positionsOf col rows k" using io b(2) by (simp add: index_of_def)
  also have "\<dots> = filter (\<lambda>j. matchesAt col v (rows ! j)) [0..<length rows]"
    unfolding positionsOf_def using ok
    by (intro filter_cong) (simp_all add: keyAt_matches [OF _ assms(3) k] list_all_length)
  finally show ?thesis using Some b k unfolding rows deltaIndexPositions_def sideIdx_def posOf_def by simp
qed

lemma those_map_Some: "those (map (\<lambda>x. Some (f x)) xs) = Some (map f xs)"
  by (induction xs) simp_all

lemma DeltaIndexScan_ok:
  assumes "dv_wf dv" "sideRows s dv t \<noteq> [] \<longrightarrow> hasDeltaIndex dv t col s" "wf_value v" "payloadLen v \<noteq> None"
  shows "DeltaIndexScan dv t col v s = Some (filter (matchesAt col v) (sideRows s dv t))"
proof -
  let ?rows = "sideRows s dv t"
  let ?ps = "filter (\<lambda>j. matchesAt col v (?rows ! j)) [0..<length ?rows]"
  have e1: "map (\<lambda>pos. if pos < length ?rows then Some (?rows ! pos) else None) ?ps = map (\<lambda>pos. Some (?rows ! pos)) ?ps"
    by (rule map_cong) auto
  have e2: "map (\<lambda>pos. ?rows ! pos) ?ps = filter (matchesAt col v) ?rows"
    using filter_map [of "matchesAt col v" "(!) ?rows" "[0..<length ?rows]"] by (simp add: comp_def map_nth)
  have "those (map (\<lambda>pos. if pos < length ?rows then Some (?rows ! pos) else None) ?ps) = Some (filter (matchesAt col v) ?rows)"
    unfolding e1 those_map_Some e2 ..
  then show ?thesis
    unfolding DeltaIndexScan_def deltaIndexPositions_ok [OF assms] sideRows_def [symmetric] by (simp only: Let_def bind.bind_lunit)
qed

section \<open>The view of a changeset\<close>

lemma addTable_keeps [simp]:
  "dv_committed (addTable tid tc dv) = dv_committed dv" "dv_events (addTable tid tc dv) = dv_events dv"
  "dv_insertIdx (addTable tid tc dv) = dv_insertIdx dv" "dv_deleteIdx (addTable tid tc dv) = dv_deleteIdx dv"
  by (simp_all add: addTable_def Let_def)

lemma addTables_keeps [simp]:
  "dv_committed (addTables tabs dv) = dv_committed dv" "dv_events (addTables tabs dv) = dv_events dv"
  "dv_insertIdx (addTables tabs dv) = dv_insertIdx dv" "dv_deleteIdx (addTables tabs dv) = dv_deleteIdx dv"
  by (induction tabs dv rule: addTables.induct) simp_all

definition nonempty_rows :: "deltaView \<Rightarrow> bool" where
  "nonempty_rows dv \<longleftrightarrow> (\<forall>t rows. map_of (dv_inserts dv) t = Some rows \<longrightarrow> rows \<noteq> []) \<and>
     (\<forall>t rows. map_of (dv_deletes dv) t = Some rows \<longrightarrow> rows \<noteq> [])"

lemma nonempty_rows_update:
  assumes "nonempty_rows dv" "length rows > 0"
  shows "nonempty_rows (dv\<lparr>dv_inserts := AList.update t rows (dv_inserts dv)\<rparr>)"
    "nonempty_rows (dv\<lparr>dv_deletes := AList.update t rows (dv_deletes dv)\<rparr>)"
  using assms by (simp_all add: nonempty_rows_def update_conv')

lemma addTable_nonempty: "nonempty_rows dv \<Longrightarrow> nonempty_rows (addTable tid tc dv)"
  using nonempty_rows_update by (simp add: addTable_def Let_def)

lemma addTables_nonempty: "nonempty_rows dv \<Longrightarrow> nonempty_rows (addTables tabs dv)"
  by (induction tabs dv rule: addTables.induct) (simp_all add: addTable_nonempty)

lemma addTables_rows:
  assumes "distinct (map fst tabs)" "\<forall>t \<in> fst ` set tabs. InsertedRows dv t = [] \<and> DeletedRows dv t = []"
  shows "InsertedRows (addTables tabs dv) t =
      (case map_of tabs t of None \<Rightarrow> InsertedRows dv t | Some None \<Rightarrow> [] | Some (Some tc) \<Rightarrow> tc_inserts tc)"
    "DeletedRows (addTables tabs dv) t =
      (case map_of tabs t of None \<Rightarrow> DeletedRows dv t | Some None \<Rightarrow> [] | Some (Some tc) \<Rightarrow> tc_deletes tc)"
proof -
  have "InsertedRows (addTables tabs dv) t =
      (case map_of tabs t of None \<Rightarrow> InsertedRows dv t | Some None \<Rightarrow> [] | Some (Some tc) \<Rightarrow> tc_inserts tc) \<and>
    DeletedRows (addTables tabs dv) t =
      (case map_of tabs t of None \<Rightarrow> DeletedRows dv t | Some None \<Rightarrow> [] | Some (Some tc) \<Rightarrow> tc_deletes tc)"
    using assms
  proof (induction tabs dv rule: addTables.induct)
    case (2 tid rest dv)
    then have "map_of rest tid = None" by (simp add: map_of_eq_None_iff)
    with 2 show ?case by (cases "t = tid") simp_all
  next
    case (3 tid tc rest dv)
    let ?dv2 = "addTable tid tc dv"
    have rows: "InsertedRows ?dv2 u = (if u = tid then tc_inserts tc else InsertedRows dv u)"
      "DeletedRows ?dv2 u = (if u = tid then tc_deletes tc else DeletedRows dv u)" for u
      using 3(3) by (auto simp: addTable_def Let_def InsertedRows_def DeletedRows_def update_conv')
    have "\<forall>u \<in> fst ` set rest. InsertedRows ?dv2 u = [] \<and> DeletedRows ?dv2 u = []"
      using 3(2,3) unfolding rows by force
    moreover have "distinct (map fst rest)" "tid \<notin> fst ` set rest" using 3(2) by auto
    ultimately have "InsertedRows (addTables rest ?dv2) t =
        (case map_of rest t of None \<Rightarrow> InsertedRows ?dv2 t | Some None \<Rightarrow> [] | Some (Some tc) \<Rightarrow> tc_inserts tc) \<and>
      DeletedRows (addTables rest ?dv2) t =
        (case map_of rest t of None \<Rightarrow> DeletedRows ?dv2 t | Some None \<Rightarrow> [] | Some (Some tc) \<Rightarrow> tc_deletes tc)"
      using 3(1) by simp
    moreover have "map_of rest tid = None" using \<open>tid \<notin> fst ` set rest\<close> by (simp add: map_of_eq_None_iff)
    ultimately show ?case unfolding rows by (cases "t = tid") (simp_all add: Let_def)
  qed simp
  then show "InsertedRows (addTables tabs dv) t =
      (case map_of tabs t of None \<Rightarrow> InsertedRows dv t | Some None \<Rightarrow> [] | Some (Some tc) \<Rightarrow> tc_inserts tc)"
    "DeletedRows (addTables tabs dv) t =
      (case map_of tabs t of None \<Rightarrow> DeletedRows dv t | Some None \<Rightarrow> [] | Some (Some tc) \<Rightarrow> tc_deletes tc)" by simp_all
qed

lemma buildDeltaIndex_ok:
  assumes "dv_wf dv"
  shows "\<exists>dv'. buildDeltaIndex dv t cols = Some dv' \<and> dv_wf dv' \<and>
    dv_committed dv' = dv_committed dv \<and> dv_events dv' = dv_events dv \<and>
    dv_inserts dv' = dv_inserts dv \<and> dv_deletes dv' = dv_deletes dv \<and>
    (\<forall>u col. u \<noteq> t \<longrightarrow> indexed dv u col \<longrightarrow> indexed dv' u col) \<and> (\<forall>col \<in> set cols. indexed dv' t col)"
proof -
  have ok: "list_all values_ok (InsertedRows dv t)" "list_all values_ok (DeletedRows dv t)"
    using assms [unfolded dv_wf_def] unfolding sideRows_def by (metis (full_types))+
  obtain bi where bi: "buildDeltaIndexForRows (InsertedRows dv t) cols [] = Some bi" "index_of (InsertedRows dv t) bi"
    "\<forall>col. map_of bi col \<noteq> None \<longleftrightarrow> col \<in> set cols"
    using buildDeltaIndexForRows_ok [OF ok(1), of "[]" cols] by (auto simp: index_of_def)
  obtain bd where bd: "buildDeltaIndexForRows (DeletedRows dv t) cols [] = Some bd" "index_of (DeletedRows dv t) bd"
    "\<forall>col. map_of bd col \<noteq> None \<longleftrightarrow> col \<in> set cols"
    using buildDeltaIndexForRows_ok [OF ok(2), of "[]" cols] by (auto simp: index_of_def)
  let ?ii = "if InsertedRows dv t \<noteq> [] then AList.update t bi (dv_insertIdx dv) else dv_insertIdx dv"
  let ?di = "if DeletedRows dv t \<noteq> [] then AList.update t bd (dv_deleteIdx dv) else dv_deleteIdx dv"
  let ?dv = "dv\<lparr>dv_insertIdx := ?ii, dv_deleteIdx := ?di\<rparr>"
  have del: "DeletedRows (dv\<lparr>dv_insertIdx := i\<rparr>) t = DeletedRows dv t" for i by (simp add: DeletedRows_def)
  have r: "buildDeltaIndex dv t cols = Some ?dv"
    unfolding buildDeltaIndex_def using bi(1) bd(1) del by (cases "InsertedRows dv t = []"; cases "DeletedRows dv t = []") (simp_all add: Let_def)
  have rows: "sideRows s ?dv u = sideRows s dv u" for s u by (simp add: sideRows_def InsertedRows_def DeletedRows_def)
  have idx: "map_of (sideIdx s ?dv) u =
      (if u = t \<and> sideRows s dv t \<noteq> [] then Some (if s then bi else bd) else map_of (sideIdx s dv) u)" for s u
    by (cases s) (auto simp: sideIdx_def sideRows_def update_conv')
  have "dv_wf ?dv"
    unfolding dv_wf_def rows idx using assms bi(2) bd(2) by (auto simp: dv_wf_def sideRows_def split: if_splits)
  moreover have "u \<noteq> t \<Longrightarrow> indexed dv u col \<Longrightarrow> indexed ?dv u col" for u col
    by (simp add: indexed_def rows hasDeltaIndex_side idx)
  moreover have "col \<in> set cols \<Longrightarrow> indexed ?dv t col" for col
    using bi(3) bd(3) by (auto simp: indexed_def rows hasDeltaIndex_side idx)
  ultimately show ?thesis using r by simp
qed

lemma buildDeltaIndexes_ok:
  assumes "dv_wf dv" "distinct (map fst tcols)"
  shows "\<exists>dv'. buildDeltaIndexes dv tcols = Some dv' \<and> dv_wf dv' \<and>
    dv_committed dv' = dv_committed dv \<and> dv_events dv' = dv_events dv \<and>
    dv_inserts dv' = dv_inserts dv \<and> dv_deletes dv' = dv_deletes dv \<and>
    (\<forall>u col. u \<notin> fst ` set tcols \<longrightarrow> indexed dv u col \<longrightarrow> indexed dv' u col) \<and>
    (\<forall>(t, cols) \<in> set tcols. \<forall>col \<in> set cols. indexed dv' t col)"
  using assms
proof (induction tcols arbitrary: dv)
  case (Cons p tcols)
  obtain t cols where p: "p = (t, cols)" by (cases p)
  obtain d1 where d1: "buildDeltaIndex dv t cols = Some d1" "dv_wf d1" "dv_committed d1 = dv_committed dv"
    "dv_events d1 = dv_events dv" "dv_inserts d1 = dv_inserts dv" "dv_deletes d1 = dv_deletes dv"
    "\<forall>u col. u \<noteq> t \<longrightarrow> indexed dv u col \<longrightarrow> indexed d1 u col" "\<forall>col \<in> set cols. indexed d1 t col"
    using buildDeltaIndex_ok [OF Cons.prems(1), of t cols] by blast
  obtain d2 where d2: "buildDeltaIndexes d1 tcols = Some d2" "dv_wf d2" "dv_committed d2 = dv_committed d1"
    "dv_events d2 = dv_events d1" "dv_inserts d2 = dv_inserts d1" "dv_deletes d2 = dv_deletes d1"
    "\<forall>u col. u \<notin> fst ` set tcols \<longrightarrow> indexed d1 u col \<longrightarrow> indexed d2 u col"
    "\<forall>(t, cols) \<in> set tcols. \<forall>col \<in> set cols. indexed d2 t col"
    using Cons.IH [OF d1(2)] Cons.prems(2) by auto
  have "t \<notin> fst ` set tcols" using Cons.prems(2) p by simp
  with d1 d2 p show ?case by (intro exI [of _ d2]) auto
qed simp

lemma addEvents_ok: "map_of (addEvents evs m) t = (if (t, True) \<in> set evs then Some True else map_of m t)"
  by (induction evs m rule: addEvents.induct) (auto simp: update_conv')

text \<open>The tables a changeset and the columns of the view, as Go maps, have each key once.\<close>

lemma NewDeltaView_ok:
  assumes "distinct (map fst (ch_tables ch))" "distinct (map fst tcols)"
    and "\<And>t. list_all values_ok (changeInserts ch t)" "\<And>t. list_all values_ok (changeDeletes ch t)"
  shows "\<exists>dv. NewDeltaView committed (Some ch) tcols evs = Some dv \<and> dv_wf dv \<and> dv_committed dv = committed \<and>
    (\<forall>t. InsertedRows dv t = changeInserts ch t \<and> DeletedRows dv t = changeDeletes ch t \<and>
      (IsEventTable dv t \<longleftrightarrow> (case evs of None \<Rightarrow> False | Some es \<Rightarrow> (t, True) \<in> set es))) \<and>
    (\<forall>(t, cols) \<in> set tcols. \<forall>col \<in> set cols. indexed dv t col)"
proof -
  let ?d0 = "acquireDeltaView\<lparr>dv_committed := committed\<rparr>"
  let ?d1 = "case evs of None \<Rightarrow> ?d0 | Some es \<Rightarrow> ?d0\<lparr>dv_events := addEvents es (dv_events ?d0)\<rparr>"
  let ?d2 = "addTables (ch_tables ch) ?d1"
  have d1: "dv_inserts ?d1 = []" "dv_deletes ?d1 = []" "dv_insertIdx ?d1 = []" "dv_deleteIdx ?d1 = []" "dv_committed ?d1 = committed"
    by (simp_all add: acquireDeltaView_def split: option.split)
  have ev: "IsEventTable ?d1 t \<longleftrightarrow> (case evs of None \<Rightarrow> False | Some es \<Rightarrow> (t, True) \<in> set es)" for t
    by (simp add: IsEventTable_def acquireDeltaView_def addEvents_ok split: option.split)
  have rows: "InsertedRows ?d2 t = changeInserts ch t" "DeletedRows ?d2 t = changeDeletes ch t" for t
    unfolding addTables_rows [OF assms(1), of ?d1, unfolded InsertedRows_def [of ?d1] DeletedRows_def [of ?d1] d1, simplified]
    by (simp_all add: changeInserts_def changeDeletes_def TableChanges_def split: option.split)
  have "nonempty_rows ?d2" by (rule addTables_nonempty) (simp add: nonempty_rows_def d1)
  then have "dv_wf ?d2"
    using assms(3,4) unfolding dv_wf_def nonempty_rows_def sideRows_def rows by (simp add: sideIdx_def d1)
  from buildDeltaIndexes_ok [OF this assms(2)] obtain dv where dv: "buildDeltaIndexes ?d2 tcols = Some dv" "dv_wf dv"
    "dv_committed dv = committed" "dv_events dv = dv_events ?d1" "dv_inserts dv = dv_inserts ?d2" "dv_deletes dv = dv_deletes ?d2"
    "\<forall>(t, cols) \<in> set tcols. \<forall>col \<in> set cols. indexed dv t col"
    using d1(5) by auto
  have "InsertedRows dv t = changeInserts ch t" "DeletedRows dv t = changeDeletes ch t" for t
    using rows [of t] by (simp_all add: InsertedRows_def DeletedRows_def dv(5,6))
  moreover have "IsEventTable dv t \<longleftrightarrow> (case evs of None \<Rightarrow> False | Some es \<Rightarrow> (t, True) \<in> set es)" for t
    using ev [of t] by (simp add: IsEventTable_def dv(4))
  moreover have "NewDeltaView committed (Some ch) tcols evs = Some dv"
    unfolding NewDeltaView_def Let_def using dv(1) by simp
  ultimately show ?thesis using dv(2,3,7) by blast
qed

section \<open>Index seeks of the committed view\<close>

definition registered :: "tableSchema list \<Rightarrow> committedState \<Rightarrow> bool" where
  "registered schemas cs \<longleftrightarrow> distinct (map ts_id schemas) \<and>
     (\<forall>ts \<in> set schemas. distinct (map ix_id (ts_indexes ts))) \<and>
     (\<forall>tid t. csTable cs tid = Some t \<longrightarrow> t_schema t \<in> set schemas \<and> ts_id (t_schema t) = tid)"

lemma registerIndexes_ok:
  "map_of (registerIndexes tid ixs m) (t, c) = Some iid \<Longrightarrow>
   map_of m (t, c) = Some iid \<or> (t = tid \<and> (\<exists>ix \<in> set ixs. ix_id ix = iid \<and> map int (ix_columns ix) = [c]))"
proof (induction ixs arbitrary: m)
  case (Cons ix ixs)
  define m' where "m' = (if length (ix_columns ix) \<noteq> 1 then m
      else let key = (tid, int (hd (ix_columns ix))) in
        case map_of m key of None \<Rightarrow> AList.update key (ix_id ix) m | Some _ \<Rightarrow> m)"
  have m': "map_of m' (t, c) = Some iid \<Longrightarrow>
      map_of m (t, c) = Some iid \<or> (t = tid \<and> ix_id ix = iid \<and> map int (ix_columns ix) = [c])"
  proof (cases "length (ix_columns ix) = 1")
    case True
    then obtain n where n: "ix_columns ix = [n]" by (cases "ix_columns ix") auto
    assume "map_of m' (t, c) = Some iid"
    with n show ?thesis by (cases "map_of m (tid, int n)"; cases "(t, c) = (tid, int n)") (simp_all add: m'_def update_conv' split: if_splits)
  qed (simp add: m'_def)
  have "registerIndexes tid (ix # ixs) m = registerIndexes tid ixs m'" by (simp only: registerIndexes.simps m'_def)
  with Cons.IH [of m'] Cons.prems m' show ?case by auto
qed simp

lemma indexIDForColumn_ok:
  assumes "indexIDForColumn schemas t c = Some iid"
  shows "\<exists>ts \<in> set schemas. ts_id ts = t \<and> (\<exists>ix \<in> set (ts_indexes ts). ix_id ix = iid \<and> map int (ix_columns ix) = [c])"
proof -
  have "map_of (fold (\<lambda>ts. registerIndexes (ts_id ts) (ts_indexes ts)) schemas m) (t, c) = Some iid \<Longrightarrow>
    map_of m (t, c) = Some iid \<or>
    (\<exists>ts \<in> set schemas. ts_id ts = t \<and> (\<exists>ix \<in> set (ts_indexes ts). ix_id ix = iid \<and> map int (ix_columns ix) = [c]))" for m
    by (induction schemas arbitrary: m) (auto dest: registerIndexes_ok)
  from this [of "[]"] assms show ?thesis by (simp add: indexIDForColumn_def indexByColumn_def)
qed

lemma find_distinct:
  assumes "distinct (map f xs)" "x \<in> set xs"
  shows "List.find (\<lambda>y. f y = f x) xs = Some x"
  using assms by (induction xs) auto

lemma resolved_index:
  assumes "registered schemas cs" "csTable cs tid = Some t" "tbl_inv t" "indexIDForColumn schemas tid c = Some iid"
  shows "\<exists>idx. IndexByID t iid = Some idx \<and> idx \<in> set (t_indexes t) \<and> map int (ix_columns (idx_schema idx)) = [c]"
proof -
  obtain ts ix where ts: "ts \<in> set schemas" "ts_id ts = tid" "ix \<in> set (ts_indexes ts)" "ix_id ix = iid" "map int (ix_columns ix) = [c]"
    using indexIDForColumn_ok [OF assms(4)] by (elim bexE conjE)
  have reg: "t_schema t \<in> set schemas" "ts_id (t_schema t) = tid" "distinct (map ts_id schemas)"
    using assms(1,2) by (auto simp: registered_def)
  have eq: "ts = t_schema t" using reg ts(1,2) by (metis distinct_map inj_onD)
  have m: "map idx_schema (t_indexes t) = ts_indexes (t_schema t)" using assms(3) by (simp add: tbl_inv_def)
  obtain idx where idx: "idx \<in> set (t_indexes t)" "idx_schema idx = ix"
    using ts(3) eq m by (metis (no_types, lifting) imageE list.set_map)
  have "distinct (map (\<lambda>idx. ix_id (idx_schema idx)) (t_indexes t))"
    using assms(1) reg(1) arg_cong [OF m, of "map ix_id"] by (simp add: registered_def comp_def)
  from find_distinct [OF this idx(1)] have "IndexByID t iid = Some idx" by (simp add: IndexByID_def idx(2) ts(4))
  with idx ts(5) show ?thesis by auto
qed

lemma mset_map_filter_cong: "mset xs = mset ys \<Longrightarrow> mset (List.map_filter f xs) = mset (List.map_filter f ys)"
  by (simp add: List.map_filter_def mset_filter)

lemma map_filter_rows:
  assumes "distinct (map fst rows)" "distinct ids" "set ids = {r. \<exists>x. map_of rows r = Some x \<and> P x}"
  shows "mset (List.map_filter (map_of rows) ids) = mset (filter P (map snd rows))"
proof -
  let ?sel = "filter (\<lambda>p. P (snd p)) rows"
  have mem: "map_of rows r = Some x \<longleftrightarrow> (r, x) \<in> set rows" for r x using assms(1) by simp
  have "set (map fst ?sel) = set ids" unfolding assms(3) mem by force
  moreover have "distinct (map fst ?sel)" using assms(1) by (rule distinct_map_filter)
  ultimately have "mset ids = mset (map fst ?sel)" using assms(2) set_eq_iff_mset_eq_distinct by metis
  from mset_map_filter_cong [OF this]
  have "mset (List.map_filter (map_of rows) ids) = mset (List.map_filter (map_of rows) (map fst ?sel))" .
  also have "List.map_filter (map_of rows) (map fst ps) = map snd ps" if "set ps \<subseteq> set rows" for ps
    using that by (induction ps) (auto simp: List.map_filter_def mem [symmetric])
  then have "List.map_filter (map_of rows) (map fst ?sel) = map snd ?sel" by auto
  also have "map snd ?sel = filter P (map snd rows)" by (simp add: filter_map comp_def)
  finally show ?thesis .
qed

lemma viewIndexSeek_rows:
  assumes "cs_inv cs" "registered schemas cs" "indexIDForColumn schemas tid c = Some iid" "wf_value v" "payloadLen v \<noteq> None"
    and "\<And>t. csTable cs tid = Some t \<Longrightarrow> c_type (ts_columns (t_schema t) ! nat c) = v_kind v"
  shows "\<exists>ids. viewIndexSeek cs tid iid (NewIndexKey [v]) = Some ids \<and>
    mset (List.map_filter (viewGetRow cs tid) ids) = mset (filter (matchesAt c v) (map snd (viewTableScan cs tid)))"
proof (cases "csTable cs tid")
  case None
  then show ?thesis by (simp add: viewIndexSeek_def snLookupIndex_def viewTableScan_def csTable_def List.map_filter_def)
next
  case (Some t)
  have inv: "tbl_inv t" using assms(1) Some by (simp add: cs_inv_def)
  have lk: "tableLocked cs tid = Some t" using Some by (simp add: csTable_def)
  obtain idx where idx: "IndexByID t iid = Some idx" "idx \<in> set (t_indexes t)" "map int (ix_columns (idx_schema idx)) = [c]"
    using resolved_index [OF assms(2) Some inv assms(3)] by (elim exE conjE)
  then obtain n where n: "ix_columns (idx_schema idx) = [n]" "c = int n" by auto
  have key: "NewIndexKey [v] = [v]" using assms(4) by (simp add: NewIndexKey_def)
  have kinds: "map v_kind [v] = keyKinds (t_schema t) (idx_schema idx)" using assms(6) [OF Some] n by (simp add: keyKinds_def)
  obtain ids where ids: "idxSeek idx [v] = Some ids" "distinct ids"
    "set ids = {rid. \<exists>row. rowsOf t rid = Some row \<and> compareKey (keyOf (idx_schema idx) row) [v] = 0}"
    using idxSeek_rows [OF inv idx(2) kinds] by blast
  have inr: "n < length (ts_columns (t_schema t))"
  proof -
    have "map idx_schema (t_indexes t) = ts_indexes (t_schema t)" using inv by (simp add: tbl_inv_def)
    from arg_cong [OF this, of set] have "idx_schema idx \<in> set (ts_indexes (t_schema t))" using idx(2) by auto
    then show ?thesis using inv n(1) by (auto simp: tbl_inv_def schema_wf_def)
  qed
  have m: "compareKey (keyOf (idx_schema idx) row) [v] = 0 \<longleftrightarrow> matchesAt c v row" if "rowsOf t rid = Some row" for rid row
  proof -
    have w: "row_wf (t_schema t) row" by (rule tbl_inv_row [OF inv that])
    have l: "n < length row" using row_wf_length [OF w] inr by simp
    have "nanFree (row ! n)" using row_wf_values [OF w nth_mem [OF l]] wf_value_nanFree by blast
    then show ?thesis
      using compareKey_0_iff [of "[row ! n]" "[v]"] wf_value_nanFree [OF assms(4)] l
      by (simp add: keyOf_def n matchesAt_def rowValue_def productEqual_def)
  qed
  have "set ids = {r. \<exists>x. rowsOf t r = Some x \<and> matchesAt c v x}" unfolding ids(3) using m by blast
  then have "mset (List.map_filter (map_of (tableScan t)) ids) = mset (filter (matchesAt c v) (map snd (tableScan t)))"
    using inv ids(2) unfolding tableScan_eq [OF inv] by (intro map_filter_rows) (simp_all add: tbl_inv_def)
  moreover have "viewGetRow cs tid = map_of (tableScan t)"
    by (simp add: fun_eq_iff viewGetRow_def lk GetRow_eq [OF inv] tableScan_eq [OF inv])
  moreover have "viewIndexSeek cs tid iid [v] = Some ids"
    by (simp add: viewIndexSeek_def snLookupIndex_def lk idx(1) ids(1))
  ultimately show ?thesis unfolding key by (simp add: viewTableScan_def lk)
qed

end
