(* ===== verification/PairBags.thy ===== *)
theory PairBags
  imports Predicates
begin

text \<open>
  Bags of pairs. A delta evaluator combines rows of two relations pair by pair; what it owes its
  caller is a bag, and bags of pairs are additive in both relations. The interface \<open>pair_bag\<close> is
  what a pairing promises: equal rows contribute alike. From it follow the identities by which
  the fragments of a join, or the terms of a cross join, differ by exactly the change of the whole.
\<close>

lemma canons_concat: "canons (concat (map g xs)) = (\<Sum>x\<in>#mset xs. canons (g x))"
  by (induction xs) simp_all

lemma canons_mset: "mset xs = mset ys \<Longrightarrow> canons xs = canons ys"
  by (simp add: canons_def)

lemma same_rowI: "values_ok r \<Longrightarrow> values_ok s \<Longrightarrow> canon r = canon s \<Longrightarrow> same_row r s"
  by (simp add: same_row_def canon_iff)

lemma same_row_canon: "same_row r s \<Longrightarrow> canon r = canon s"
  by (simp add: same_row_def canon_iff)

lemma same_row_refl: "values_ok r \<Longrightarrow> same_row r r"
  by (rule same_rowI) simp_all

text \<open>A sum over rows depends only on the bag of their canonical bytes.\<close>

lemma sum_canon_cong:
  assumes "\<And>r s. same_row r s \<Longrightarrow> f r = (f s :: 'b multiset)"
    and "list_all values_ok X" "list_all values_ok Y" "canons X = canons Y"
  shows "(\<Sum>x\<in>#mset X. f x) = (\<Sum>y\<in>#mset Y. f y)"
  using assms(2-)
proof (induction X arbitrary: Y)
  case Nil
  then show ?case by (simp add: canons_def)
next
  case (Cons x X)
  have "canon x \<in># canons Y" using Cons.prems(3) by (metis canons_simps(2) union_single_eq_member)
  then obtain y where y: "y \<in> set Y" "canon y = canon x" by (auto simp: canons_def)
  have m: "mset Y = add_mset y (mset (remove1 y Y))" using y(1) by simp
  have ok: "values_ok x" "list_all values_ok X" "values_ok y" "list_all values_ok (remove1 y Y)"
    using Cons.prems(1,2) y(1) notin_set_remove1 by (auto simp: list_all_iff)
  have "canons Y = add_mset (canon y) (canons (remove1 y Y))" using arg_cong [OF m, of "image_mset canon"] by (simp add: canons_def)
  then have "canons X = canons (remove1 y Y)" using Cons.prems(3) y(2) by simp
  from Cons.IH [OF ok(2,4) this] have "(\<Sum>x\<in>#mset X. f x) = (\<Sum>y\<in>#mset (remove1 y Y). f y)" .
  moreover have "f x = f y" by (rule assms(1), rule same_rowI) (simp_all add: ok y(2))
  ultimately show ?case unfolding m by simp
qed

definition bagPairs :: "('l \<Rightarrow> 'r \<Rightarrow> 'b multiset) \<Rightarrow> 'l list \<Rightarrow> 'r list \<Rightarrow> 'b multiset" where
  "bagPairs f L R = (\<Sum>l\<in>#mset L. \<Sum>r\<in>#mset R. f l r)"

lemma bagPairs_append:
  "bagPairs f (L @ L') R = bagPairs f L R + bagPairs f L' R"
  "bagPairs f L (R @ R') = bagPairs f L R + bagPairs f L R'"
  by (simp_all add: bagPairs_def sum_mset.distrib)

lemma bagPairs_swap: "bagPairs f L R = bagPairs (\<lambda>r l. f l r) R L"
  unfolding bagPairs_def by (rule sum_mset.swap)

lemma bagPairs_Nil [simp]: "bagPairs f [] R = {#}" "bagPairs f L [] = {#}"
  by (simp_all add: bagPairs_def)

text \<open>The rows of a relation before and after a change that inserts some rows and deletes others.\<close>

definition balanced :: "productValue list \<Rightarrow> productValue list \<Rightarrow> productValue list \<Rightarrow> productValue list \<Rightarrow> bool" where
  "balanced B I A D \<longleftrightarrow> list_all values_ok B \<and> list_all values_ok I \<and> list_all values_ok A \<and> list_all values_ok D \<and>
     canons B + canons I = canons A + canons D"

locale pair_bag =
  fixes f :: "productValue \<Rightarrow> productValue \<Rightarrow> 'b multiset"
  assumes pair_cong: "same_row l l' \<Longrightarrow> same_row r r' \<Longrightarrow> f l r = f l' r'"
begin

lemma left_cong:
  assumes "list_all values_ok L" "list_all values_ok L'" "list_all values_ok R" "canons L = canons L'"
  shows "bagPairs f L R = bagPairs f L' R"
proof -
  have "(\<Sum>r\<in>#mset R. f l r) = (\<Sum>r\<in>#mset R. f l' r)" if "same_row l l'" for l l'
    using that assms(3) by (intro arg_cong [where f = sum_mset] image_mset_cong pair_cong) (simp_all add: same_row_refl list_all_iff)
  from sum_canon_cong [OF this assms(1,2,4)] show ?thesis by (simp add: bagPairs_def)
qed

lemma right_cong:
  assumes "list_all values_ok R" "list_all values_ok R'" "list_all values_ok L" "canons R = canons R'"
  shows "bagPairs f L R = bagPairs f L R'"
proof -
  have "(\<Sum>l\<in>#mset L. f l r) = (\<Sum>l\<in>#mset L. f l r')" if "same_row r r'" for r r'
    using that assms(3) by (intro arg_cong [where f = sum_mset] image_mset_cong pair_cong) (simp_all add: same_row_refl list_all_iff)
  from sum_canon_cong [OF this assms(1,2,4)] show ?thesis by (subst (1 2) bagPairs_swap) (simp add: bagPairs_def)
qed

lemma left_balance:
  assumes "balanced B I A D" "list_all values_ok R"
  shows "bagPairs f B R + bagPairs f I R = bagPairs f A R + bagPairs f D R"
  using left_cong [of "B @ I" "A @ D" R] assms by (simp add: balanced_def bagPairs_append)

lemma right_balance:
  assumes "balanced B I A D" "list_all values_ok L"
  shows "bagPairs f L B + bagPairs f L I = bagPairs f L A + bagPairs f L D"
  using right_cong [of "B @ I" "A @ D" L] assms by (simp add: balanced_def bagPairs_append)

text \<open>The four insert and four delete fragments.\<close>

lemma fragment_identity:
  assumes "balanced B1 I1 A1 D1" "balanced B2 I2 A2 D2"
  shows "bagPairs f B1 B2 + (bagPairs f I1 A2 + bagPairs f A1 I2 + bagPairs f I1 D2 + bagPairs f D1 I2) =
    bagPairs f A1 A2 + (bagPairs f D1 A2 + bagPairs f A1 D2 + bagPairs f I1 I2 + bagPairs f D1 D2)"
proof (rule multiset_eqI)
  fix x
  have ok: "list_all values_ok B1" "list_all values_ok A2" "list_all values_ok D2" "list_all values_ok I2"
    using assms by (simp_all add: balanced_def)
  note count_eq = arg_cong [where f = "\<lambda>m. count m x"]
  from count_eq [OF right_balance [OF assms(2) ok(1)]] count_eq [OF left_balance [OF assms(1) ok(2)]]
    count_eq [OF left_balance [OF assms(1) ok(3)]] count_eq [OF left_balance [OF assms(1) ok(4)]]
  show "count (bagPairs f B1 B2 + (bagPairs f I1 A2 + bagPairs f A1 I2 + bagPairs f I1 D2 + bagPairs f D1 I2)) x =
    count (bagPairs f A1 A2 + (bagPairs f D1 A2 + bagPairs f A1 D2 + bagPairs f I1 I2 + bagPairs f D1 D2)) x"
    by simp
qed

end

text \<open>The rows a subscriber has, with what it is told to insert, are the rows it should have with what it is told to delete.\<close>

lemma reconciled_balance:
  assumes "B + X = A + (Y :: 'a multiset)"
  shows "B + (X - Y) = A + (Y - X)"
proof (rule multiset_eqI)
  fix x
  from arg_cong [OF assms, of "\<lambda>m. count m x"] show "count (B + (X - Y)) x = count (A + (Y - X)) x" by simp
qed

text \<open>The contract of a delta evaluator: it computes the change of a bag of rows, and nothing is both inserted and deleted.\<close>

definition exact_delta :: "(productValue list \<times> productValue list) query \<Rightarrow> bytes multiset \<Rightarrow> bytes multiset \<Rightarrow> bool" where
  "exact_delta m before_bag after_bag \<longleftrightarrow>
     (\<exists>I D. computes m (I, D) \<and> list_all values_ok I \<and> list_all values_ok D \<and>
       before_bag + canons I = after_bag + canons D \<and> canons I \<inter># canons D = {#})"

lemma exact_deltaI:
  assumes "computes m (I, D)" "list_all values_ok I" "list_all values_ok D" "canons I = X - Y" "canons D = Y - X" "B + X = A + Y"
  shows "exact_delta m B A"
proof -
  have "canons I \<inter># canons D = {#}" unfolding assms(4,5) by (rule multiset_eqI) simp
  moreover have "B + canons I = A + canons D" unfolding assms(4,5) by (rule reconciled_balance [OF assms(6)])
  ultimately show ?thesis using assms(1-3) unfolding exact_delta_def by blast
qed

end
