(* ===== verification/JoinDelta.thy ===== *)
theory JoinDelta
  imports DeltaView PairBags
begin

text \<open>
  Delta evaluation of two-table joins (\<^verbatim>\<open>src/subscription/delta_join.go\<close>): the four insert and
  four delete fragments, each driven from one side's changed rows and probing the other side's
  rows after the commit or its changed rows. Shown here: whichever access path the indexes
  allow, a fragment is the join of its two sides, and the fragments differ by exactly the change
  of the join.
\<close>

section \<open>Fragments\<close>

record joinFragments =
  jf_inserts :: "productValue list list"
  jf_deletes :: "productValue list list"

definition joinPairMatches :: "productValue \<Rightarrow> tableID \<Rightarrow> productValue \<Rightarrow> tableID \<Rightarrow> predicate joinPred \<Rightarrow> bool" where
  "joinPairMatches lrow ltable rrow rtable join =
     (case jn_Filter join of
        None \<Rightarrow> True
      | Some p \<Rightarrow> MatchJoinPair (Some p) ltable (jn_LeftAlias join) lrow rtable (jn_RightAlias join) rrow)"

definition tryJoinFilter :: "productValue \<Rightarrow> tableID \<Rightarrow> productValue \<Rightarrow> tableID \<Rightarrow> predicate joinPred \<Rightarrow> productValue option" where
  "tryJoinFilter lrow ltable rrow rtable join =
     (if \<not> joinPairMatches lrow ltable rrow rtable join then None else Some (lrow @ rrow))"

definition tryJoinFilterFromDrive ::
  "productValue \<Rightarrow> tableID \<Rightarrow> productValue \<Rightarrow> tableID \<Rightarrow> bool \<Rightarrow> predicate joinPred \<Rightarrow> productValue option" where
  "tryJoinFilterFromDrive driveRow driveTable probeRow probeTable driveIsLeft join =
     (if driveIsLeft then tryJoinFilter driveRow driveTable probeRow probeTable join
      else tryJoinFilter probeRow probeTable driveRow driveTable join)"

text \<open>A joined row is charged for and appended.\<close>

definition emitJoined :: "productValue option \<Rightarrow> productValue list \<Rightarrow> productValue list query" where
  "emitJoined joined out =
     (case joined of None \<Rightarrow> ret out | Some row \<Rightarrow> bindQ (chargeDeltaRow row) (\<lambda>_. ret (out @ [row])))"

definition visitRowsAfter :: "deltaView \<Rightarrow> tableID \<Rightarrow> (productValue \<Rightarrow> 's \<Rightarrow> 's query) \<Rightarrow> 's \<Rightarrow> 's query" where
  "visitRowsAfter dv table visit st =
     bindQ (case dv_committed dv of None \<Rightarrow> ret st | Some cs \<Rightarrow> forQ (\<lambda>(rid, row). visit row) (viewTableScan cs table) st) (\<lambda>st.
     if IsEventTable dv table then forQ visit (InsertedRows dv table) st else ret st)"

definition joinDriveCommittedByNestedScan ::
  "deltaView \<Rightarrow> productValue list \<Rightarrow> tableID \<Rightarrow> colID \<Rightarrow> tableID \<Rightarrow> colID \<Rightarrow> bool \<Rightarrow> predicate joinPred \<Rightarrow> productValue list query" where
  "joinDriveCommittedByNestedScan dv driving driveTable driveCol probeTable probeCol driveIsLeft join =
     forQ (\<lambda>driveRow out.
       bindQ chargeSubscriptionWork (\<lambda>_.
       case rowValue driveRow driveCol of
         None \<Rightarrow> ret out
       | Some driveValue \<Rightarrow>
           visitRowsAfter dv probeTable (\<lambda>probeRow out.
             bindQ chargeSubscriptionWork (\<lambda>_.
             case rowValue probeRow probeCol of
               None \<Rightarrow> ret out
             | Some probeValue \<Rightarrow>
                 if \<not> EqualValues driveValue probeValue then ret out
                 else emitJoined (tryJoinFilterFromDrive driveRow driveTable probeRow probeTable driveIsLeft join) out))
             out))
     driving []"

text \<open>A driving row, by its position, that the delta index found for a probed row.\<close>

definition joinAtPosition ::
  "productValue list \<Rightarrow> tableID \<Rightarrow> colID \<Rightarrow> tableID \<Rightarrow> bool \<Rightarrow> predicate joinPred \<Rightarrow> productValue \<Rightarrow>
   nat \<Rightarrow> productValue list list \<times> nat \<Rightarrow> (productValue list list \<times> nat) query" where
  "joinAtPosition driving driveTable driveCol probeTable driveIsLeft join probeRow pos = (\<lambda>(matchesByDrive, pending).
     bindQ chargeSubscriptionWork (\<lambda>_.
     if pos \<ge> length driving then ret (matchesByDrive, pending)
     else case rowValue (driving ! pos) driveCol of
       None \<Rightarrow> ret (matchesByDrive, pending)
     | Some _ \<Rightarrow>
         (case tryJoinFilterFromDrive (driving ! pos) driveTable probeRow probeTable driveIsLeft join of
            None \<Rightarrow> ret (matchesByDrive, pending)
          | Some joined \<Rightarrow>
              bindQ (chargeDeltaRow joined) (\<lambda>_.
              ret (matchesByDrive[pos := matchesByDrive ! pos @ [joined]], pending + 1)))))"

definition joinDriveCommittedByDeltaIndex ::
  "deltaView \<Rightarrow> productValue list \<Rightarrow> bool \<Rightarrow> tableID \<Rightarrow> colID \<Rightarrow> tableID \<Rightarrow> colID \<Rightarrow> bool \<Rightarrow> predicate joinPred \<Rightarrow> productValue list query" where
  "joinDriveCommittedByDeltaIndex dv driving driveInserted driveTable driveCol probeTable probeCol driveIsLeft join =
     bindQ (visitRowsAfter dv probeTable (\<lambda>probeRow st.
       case rowValue probeRow probeCol of
         None \<Rightarrow> ret st
       | Some probeValue \<Rightarrow>
           bindQ (panicQ (deltaIndexPositions dv driveTable driveCol probeValue driveInserted)) (\<lambda>positions.
           forQ (joinAtPosition driving driveTable driveCol probeTable driveIsLeft join probeRow) positions st))
       (replicate (length driving) [], 0)) (\<lambda>(matchesByDrive, pending).
     ret (if pending = 0 then [] else concat matchesByDrive))"

definition joinDriveCommittedRows ::
  "deltaView \<Rightarrow> productValue list \<Rightarrow> bool \<Rightarrow> tableID \<Rightarrow> colID \<Rightarrow> tableID \<Rightarrow> colID \<Rightarrow> bool \<Rightarrow> predicate joinPred \<Rightarrow>
   indexResolver option \<Rightarrow> productValue list query" where
  "joinDriveCommittedRows dv driving driveInserted driveTable driveCol probeTable probeCol driveIsLeft join resolver =
     (if length driving = 0 then ret []
      else case resolver of
        None \<Rightarrow> ret []
      | Some IndexIDForColumn \<Rightarrow>
          (case dv_committed dv of
             None \<Rightarrow> ret []
           | Some cs \<Rightarrow>
               (case IndexIDForColumn probeTable probeCol of
                  Some probeIdx \<Rightarrow>
                    forQ (\<lambda>driveRow out.
                      bindQ chargeSubscriptionWork (\<lambda>_.
                      case rowValue driveRow driveCol of
                        None \<Rightarrow> ret out
                      | Some driveValue \<Rightarrow>
                          bindQ (panicQ (viewIndexSeek cs probeTable probeIdx (NewIndexKey [driveValue]))) (\<lambda>rowIDs.
                          bindQ (forQ (\<lambda>rid out.
                            bindQ chargeSubscriptionWork (\<lambda>_.
                            case viewGetRow cs probeTable rid of
                              None \<Rightarrow> ret out
                            | Some probeRow \<Rightarrow>
                                emitJoined (tryJoinFilterFromDrive driveRow driveTable probeRow probeTable driveIsLeft join) out))
                            rowIDs out) (\<lambda>out.
                          if IsEventTable dv probeTable
                          then forQ (\<lambda>probeRow out.
                            bindQ chargeSubscriptionWork (\<lambda>_.
                            case rowValue probeRow probeCol of
                              None \<Rightarrow> ret out
                            | Some probeValue \<Rightarrow>
                                if \<not> EqualValues driveValue probeValue then ret out
                                else emitJoined (tryJoinFilterFromDrive driveRow driveTable probeRow probeTable driveIsLeft join) out))
                            (InsertedRows dv probeTable) out
                          else ret out))))
                    driving []
                | None \<Rightarrow>
                    if hasDeltaIndex dv driveTable driveCol driveInserted
                    then joinDriveCommittedByDeltaIndex dv driving driveInserted driveTable driveCol probeTable probeCol driveIsLeft join
                    else joinDriveCommittedByNestedScan dv driving driveTable driveCol probeTable probeCol driveIsLeft join)))"

definition joinDriveCommitted where
  "joinDriveCommitted dv driving driveInserted lhsTable lhsCol rhsTable rhsCol join resolver =
     joinDriveCommittedRows dv driving driveInserted lhsTable lhsCol rhsTable rhsCol True join resolver"

definition joinDriveCommittedReversed where
  "joinDriveCommittedReversed dv driving driveInserted rhsTable rhsCol lhsTable lhsCol join resolver =
     joinDriveCommittedRows dv driving driveInserted rhsTable rhsCol lhsTable lhsCol False join resolver"

definition joinDriveDelta ::
  "deltaView \<Rightarrow> productValue list \<Rightarrow> tableID \<Rightarrow> colID \<Rightarrow> tableID \<Rightarrow> colID \<Rightarrow> bool \<Rightarrow> predicate joinPred \<Rightarrow> productValue list query" where
  "joinDriveDelta dv driving lhsTable lhsCol rhsTable rhsCol probeInserts join =
     (if length driving = 0 then ret []
      else forQ (\<lambda>lrow out.
        bindQ chargeSubscriptionWork (\<lambda>_.
        case rowValue lrow lhsCol of
          None \<Rightarrow> ret out
        | Some lhsValue \<Rightarrow>
            bindQ (panicQ (DeltaIndexScan dv rhsTable rhsCol lhsValue probeInserts)) (\<lambda>rhsRows.
            forQ (\<lambda>rrow out. bindQ chargeSubscriptionWork (\<lambda>_. emitJoined (tryJoinFilter lrow lhsTable rrow rhsTable join) out))
              rhsRows out)))
      driving [])"

definition evalJoinDeltaFragments :: "deltaView \<Rightarrow> predicate joinPred \<Rightarrow> indexResolver option \<Rightarrow> joinFragments query" where
  "evalJoinDeltaFragments dv join resolver =
     (let dInsT1 = InsertedRows dv (jn_Left join); dDelT1 = DeletedRows dv (jn_Left join);
          dInsT2 = InsertedRows dv (jn_Right join); dDelT2 = DeletedRows dv (jn_Right join) in
      bindQ (joinDriveCommitted dv dInsT1 True (jn_Left join) (jn_LeftCol join) (jn_Right join) (jn_RightCol join) join resolver) (\<lambda>i1.
      bindQ (joinDriveCommittedReversed dv dInsT2 True (jn_Right join) (jn_RightCol join) (jn_Left join) (jn_LeftCol join) join resolver) (\<lambda>i2.
      bindQ (joinDriveDelta dv dInsT1 (jn_Left join) (jn_LeftCol join) (jn_Right join) (jn_RightCol join) False join) (\<lambda>i3.
      bindQ (joinDriveDelta dv dDelT1 (jn_Left join) (jn_LeftCol join) (jn_Right join) (jn_RightCol join) True join) (\<lambda>i4.
      bindQ (joinDriveCommitted dv dDelT1 False (jn_Left join) (jn_LeftCol join) (jn_Right join) (jn_RightCol join) join resolver) (\<lambda>d1.
      bindQ (joinDriveCommittedReversed dv dDelT2 False (jn_Right join) (jn_RightCol join) (jn_Left join) (jn_LeftCol join) join resolver) (\<lambda>d2.
      bindQ (joinDriveDelta dv dInsT1 (jn_Left join) (jn_LeftCol join) (jn_Right join) (jn_RightCol join) True join) (\<lambda>d3.
      bindQ (joinDriveDelta dv dDelT1 (jn_Left join) (jn_LeftCol join) (jn_Right join) (jn_RightCol join) False join) (\<lambda>d4.
      ret \<lparr>jf_inserts = [i1, i2, i3, i4], jf_deletes = [d1, d2, d3, d4]\<rparr>)))))))))"

section \<open>Projection of joined rows\<close>

definition projectJoinedRows :: "productValue list \<Rightarrow> int \<Rightarrow> bool \<Rightarrow> productValue list" where
  "projectJoinedRows rows lhsWidth projectRight =
     (if length rows = 0 then rows
      else concat (map (\<lambda>row.
        if lhsWidth \<le> 0 \<or> int (length row) < lhsWidth then []
        else if projectRight then [drop (nat lhsWidth) row] else [take (nat lhsWidth) row]) rows))"

definition projectJoinFragments :: "productValue list list \<Rightarrow> int \<Rightarrow> bool \<Rightarrow> productValue list list" where
  "projectJoinFragments fragments lhsWidth projectRight = map (\<lambda>rows. projectJoinedRows rows lhsWidth projectRight) fragments"

section \<open>The rows a fragment probes\<close>

definition rowsAfter :: "deltaView \<Rightarrow> tableID \<Rightarrow> productValue list" where
  "rowsAfter dv t = map snd (CommittedScan dv t) @ (if IsEventTable dv t then InsertedRows dv t else [])"

lemma forQ_map: "forQ body (map f xs) = forQ (\<lambda>x. body (f x)) xs"
proof (induction xs)
  case (Cons x xs)
  show ?case by (rule ext) (simp add: Cons)
qed (simp add: fun_eq_iff)

lemma bindQ_ret_right [simp]: "bindQ m ret = m"
proof
  fix c show "bindQ m ret c = m c" by (cases "m c") (auto simp: bindQ_def ret_def)
qed

lemma forQ_Nil [simp]: "forQ body [] = ret"
  by (simp add: fun_eq_iff)

lemma visitRowsAfter_forQ: "visitRowsAfter dv t visit st = forQ visit (rowsAfter dv t) st"
proof -
  have "(case dv_committed dv of None \<Rightarrow> ret st | Some cs \<Rightarrow> forQ (\<lambda>(rid, row). visit row) (viewTableScan cs t) st) =
      forQ visit (map snd (CommittedScan dv t)) st"
    by (simp add: CommittedScan_def forQ_map case_prod_unfold split: option.split)
  then show ?thesis unfolding visitRowsAfter_def rowsAfter_def by (simp add: forQ_append)
qed

section \<open>What a loop computes under an invariant\<close>

lemma computes_forQ_inv:
  assumes "\<And>x st. x \<in> set xs \<Longrightarrow> Q st \<Longrightarrow> computes (body x st) (g x st) \<and> Q (g x st)" "Q st"
  shows "computes (forQ body xs st) (fold g xs st) \<and> Q (fold g xs st)"
  using assms
proof (induction xs arbitrary: st)
  case Nil
  then show ?case by (simp add: computes_ret)
next
  case (Cons x xs)
  have "computes (body x st) (g x st)" "Q (g x st)" using Cons.prems by auto
  moreover have "computes (forQ body xs (g x st)) (fold g xs (g x st)) \<and> Q (fold g xs (g x st))"
    using Cons.IH [of "g x st"] Cons.prems calculation(2) by auto
  ultimately show ?case by (auto intro: computes_bind)
qed

definition optList :: "'a option \<Rightarrow> 'a list" where
  "optList x = (case x of None \<Rightarrow> [] | Some y \<Rightarrow> [y])"

lemma optList_simps [simp]: "optList None = []" "optList (Some x) = [x]"
  by (simp_all add: optList_def)

lemma computes_emit: "computes (emitJoined j out) (out @ optList j)"
  by (cases j) (auto simp: emitJoined_def intro: computes_ret computes_bind computes_delta)

section \<open>A fragment is a join\<close>

text \<open>What one driving and one probed row contribute.\<close>

definition drivePair ::
  "predicate joinPred \<Rightarrow> bool \<Rightarrow> tableID \<Rightarrow> colID \<Rightarrow> tableID \<Rightarrow> colID \<Rightarrow> productValue \<Rightarrow> productValue \<Rightarrow> productValue list" where
  "drivePair join isLeft dT dC pT pC d p =
     (case rowValue d dC of
        None \<Rightarrow> []
      | Some x \<Rightarrow> if matchesAt pC x p then optList (tryJoinFilterFromDrive d dT p pT isLeft join) else [])"

definition driveRows ::
  "predicate joinPred \<Rightarrow> bool \<Rightarrow> tableID \<Rightarrow> colID \<Rightarrow> tableID \<Rightarrow> colID \<Rightarrow> productValue list \<Rightarrow> productValue list \<Rightarrow> productValue list" where
  "driveRows join isLeft dT dC pT pC ds ps = concat (map (\<lambda>d. concat (map (drivePair join isLeft dT dC pT pC d) ps)) ds)"

lemma drivePair_none: "rowValue d dC = None \<Longrightarrow> concat (map (drivePair join isLeft dT dC pT pC d) ps) = []"
  by (simp add: drivePair_def)

lemma EqualValues_commute: "EqualValues v w = EqualValues w v"
  using EqualValues_sym by blast

text \<open>The loop over probed rows whose values are compared one by one.\<close>

lemma computes_probe:
  assumes "rowValue d dC = Some x"
  shows "computes (forQ (\<lambda>p out.
      bindQ chargeSubscriptionWork (\<lambda>_.
      case rowValue p pC of None \<Rightarrow> ret out
      | Some y \<Rightarrow> if \<not> EqualValues x y then ret out else emitJoined (tryJoinFilterFromDrive d dT p pT isLeft join) out)) ps out)
    (out @ concat (map (drivePair join isLeft dT dC pT pC d) ps))"
proof (rule computes_collect)
  fix p out
  show "computes (bindQ chargeSubscriptionWork (\<lambda>_.
      case rowValue p pC of None \<Rightarrow> ret out
      | Some y \<Rightarrow> if \<not> EqualValues x y then ret out else emitJoined (tryJoinFilterFromDrive d dT p pT isLeft join) out))
    (out @ drivePair join isLeft dT dC pT pC d p)"
    using assms
    by (intro computes_bind [OF computes_work])
      (auto simp: drivePair_def matchesAt_def EqualValues_commute [of x] split: option.split intro: computes_ret computes_emit)
qed

lemma nestedScan_computes:
  "computes (joinDriveCommittedByNestedScan dv ds dT dC pT pC isLeft join) (driveRows join isLeft dT dC pT pC ds (rowsAfter dv pT))"
proof -
  have "computes (joinDriveCommittedByNestedScan dv ds dT dC pT pC isLeft join)
    ([] @ concat (map (\<lambda>d. concat (map (drivePair join isLeft dT dC pT pC d) (rowsAfter dv pT))) ds))"
    unfolding joinDriveCommittedByNestedScan_def visitRowsAfter_forQ
  proof (rule computes_collect, rule computes_bind [OF computes_work])
    fix d out
    show "computes (case rowValue d dC of None \<Rightarrow> ret out
      | Some x \<Rightarrow> forQ (\<lambda>p out. bindQ chargeSubscriptionWork (\<lambda>_.
          case rowValue p pC of None \<Rightarrow> ret out
          | Some y \<Rightarrow> if \<not> EqualValues x y then ret out else emitJoined (tryJoinFilterFromDrive d dT p pT isLeft join) out))
          (rowsAfter dv pT) out)
      (out @ concat (map (drivePair join isLeft dT dC pT pC d) (rowsAfter dv pT)))"
    proof (cases "rowValue d dC")
      case None
      show ?thesis unfolding drivePair_none [OF None] None by (simp add: computes_ret)
    next
      case (Some x)
      from computes_probe [OF this] show ?thesis by (simp add: Some)
    qed
  qed
  then show ?thesis by (simp add: driveRows_def)
qed

lemma viewTableScan_ok:
  assumes "cs_inv cs"
  shows "list_all values_ok (map snd (viewTableScan cs t))"
proof (cases "csTable cs t")
  case (Some tbl)
  then have inv: "tbl_inv tbl" using assms by (simp add: cs_inv_def)
  have "values_ok row" if "(r, row) \<in> set (t_rows tbl)" for r row
  proof -
    have "rowsOf tbl r = Some row" using that inv by (simp add: tbl_inv_def)
    from tbl_inv_row [OF inv this] show ?thesis by (auto simp: values_ok_def list_all_iff dest: row_wf_values)
  qed
  then show ?thesis using Some inv by (auto simp: viewTableScan_def csTable_def tableScan_eq list_all_iff)
qed (simp add: viewTableScan_def csTable_def)

lemma rowsAfter_ok:
  assumes "dv_wf dv" "\<And>cs. dv_committed dv = Some cs \<Longrightarrow> cs_inv cs"
  shows "list_all values_ok (rowsAfter dv t)"
proof -
  have "list_all values_ok (map snd (CommittedScan dv t))"
    using viewTableScan_ok assms(2) by (cases "dv_committed dv") (simp_all add: CommittedScan_def)
  moreover have "list_all values_ok (sideRows True dv t)" using assms(1) by (simp add: dv_wf_def)
  ultimately show ?thesis by (simp add: rowsAfter_def sideRows_def)
qed

section \<open>The path over a committed index\<close>

lemma concat_map_filter: "concat (map (\<lambda>x. case f x of None \<Rightarrow> [] | Some y \<Rightarrow> g y) xs) = concat (map g (List.map_filter f xs))"
  by (induction xs) (auto simp: List.map_filter_def)

lemma mset_concat_sum: "mset (concat (map g xs)) = (\<Sum>x\<in>#mset xs. mset (g x))"
  by (induction xs) simp_all

lemma mset_concat_cong: "mset xs = mset ys \<Longrightarrow> mset (concat (map g xs)) = mset (concat (map g ys))"
  by (simp only: mset_concat_sum)

lemma mset_concat_filter:
  "mset (concat (map g (filter P xs))) = mset (concat (map (\<lambda>x. if P x then g x else []) xs))"
  by (induction xs) simp_all

lemma mset_concat_map_eq: "(\<And>x. x \<in> set xs \<Longrightarrow> mset (f x) = mset (g x)) \<Longrightarrow> mset (concat (map f xs)) = mset (concat (map g xs))"
  by (induction xs) simp_all

text \<open>What the rows found in the index, and the event rows after them, contribute.\<close>

definition seekRows ::
  "deltaView \<Rightarrow> committedState \<Rightarrow> predicate joinPred \<Rightarrow> bool \<Rightarrow> tableID \<Rightarrow> colID \<Rightarrow> tableID \<Rightarrow> colID \<Rightarrow> indexID \<Rightarrow> productValue \<Rightarrow> productValue list" where
  "seekRows dv cs join isLeft dT dC pT pC iid d =
     (case rowValue d dC of None \<Rightarrow> []
      | Some x \<Rightarrow>
          concat (map (\<lambda>p. optList (tryJoinFilterFromDrive d dT p pT isLeft join))
            (List.map_filter (viewGetRow cs pT) (the (viewIndexSeek cs pT iid (NewIndexKey [x]))))) @
          (if IsEventTable dv pT then concat (map (drivePair join isLeft dT dC pT pC d) (InsertedRows dv pT)) else []))"

lemma seekPath_computes:
  assumes "\<And>d x. d \<in> set ds \<Longrightarrow> rowValue d dC = Some x \<Longrightarrow> viewIndexSeek cs pT iid (NewIndexKey [x]) \<noteq> None"
    and "dv_committed dv = Some cs" "resolver pT pC = Some iid"
  shows "computes (joinDriveCommittedRows dv ds ins dT dC pT pC isLeft join (Some resolver))
    (concat (map (seekRows dv cs join isLeft dT dC pT pC iid) ds))"
proof (cases "ds = []")
  case True
  then show ?thesis by (simp add: joinDriveCommittedRows_def computes_ret)
next
  case False
  let ?g = "\<lambda>d p. optList (tryJoinFilterFromDrive d dT p pT isLeft join)"
  have "computes (forQ (\<lambda>driveRow out.
      bindQ chargeSubscriptionWork (\<lambda>_.
      case rowValue driveRow dC of None \<Rightarrow> ret out
      | Some driveValue \<Rightarrow>
          bindQ (panicQ (viewIndexSeek cs pT iid (NewIndexKey [driveValue]))) (\<lambda>rowIDs.
          bindQ (forQ (\<lambda>rid out.
            bindQ chargeSubscriptionWork (\<lambda>_.
            case viewGetRow cs pT rid of None \<Rightarrow> ret out
            | Some probeRow \<Rightarrow> emitJoined (tryJoinFilterFromDrive driveRow dT probeRow pT isLeft join) out)) rowIDs out) (\<lambda>out.
          if IsEventTable dv pT
          then forQ (\<lambda>probeRow out.
            bindQ chargeSubscriptionWork (\<lambda>_.
            case rowValue probeRow pC of None \<Rightarrow> ret out
            | Some probeValue \<Rightarrow>
                if \<not> EqualValues driveValue probeValue then ret out
                else emitJoined (tryJoinFilterFromDrive driveRow dT probeRow pT isLeft join) out)) (InsertedRows dv pT) out
          else ret out)))) ds []) ([] @ concat (map (seekRows dv cs join isLeft dT dC pT pC iid) ds))"
  proof (rule computes_collect, rule computes_bind [OF computes_work])
    fix d out assume d: "d \<in> set ds"
    let ?probes = "\<lambda>x. forQ (\<lambda>probeRow out.
            bindQ chargeSubscriptionWork (\<lambda>_.
            case rowValue probeRow pC of None \<Rightarrow> ret out
            | Some probeValue \<Rightarrow>
                if \<not> EqualValues x probeValue then ret out
                else emitJoined (tryJoinFilterFromDrive d dT probeRow pT isLeft join) out)) (InsertedRows dv pT)"
    show "computes (case rowValue d dC of None \<Rightarrow> ret out
      | Some x \<Rightarrow>
          bindQ (panicQ (viewIndexSeek cs pT iid (NewIndexKey [x]))) (\<lambda>rowIDs.
          bindQ (forQ (\<lambda>rid out.
            bindQ chargeSubscriptionWork (\<lambda>_.
            case viewGetRow cs pT rid of None \<Rightarrow> ret out
            | Some probeRow \<Rightarrow> emitJoined (tryJoinFilterFromDrive d dT probeRow pT isLeft join) out)) rowIDs out) (\<lambda>out.
          if IsEventTable dv pT then ?probes x out else ret out)))
      (out @ seekRows dv cs join isLeft dT dC pT pC iid d)"
    proof (cases "rowValue d dC")
      case (Some x)
      then obtain ids where ids: "viewIndexSeek cs pT iid (NewIndexKey [x]) = Some ids" using assms(1) [OF d] by fastforce
      let ?found = "concat (map (?g d) (List.map_filter (viewGetRow cs pT) ids))"
      have l1: "computes (forQ (\<lambda>rid out.
            bindQ chargeSubscriptionWork (\<lambda>_.
            case viewGetRow cs pT rid of None \<Rightarrow> ret out
            | Some probeRow \<Rightarrow> emitJoined (tryJoinFilterFromDrive d dT probeRow pT isLeft join) out)) ids out) (out @ ?found)"
        unfolding concat_map_filter [symmetric]
        by (rule computes_collect, rule computes_bind [OF computes_work]) (auto split: option.split intro: computes_ret computes_emit)
      have l2: "computes (if IsEventTable dv pT then ?probes x (out @ ?found) else ret (out @ ?found))
          (out @ seekRows dv cs join isLeft dT dC pT pC iid d)"
        using computes_probe [OF Some, where pC = pC and dT = dT and pT = pT and isLeft = isLeft and join = join and
            ps = "InsertedRows dv pT" and out = "out @ ?found"]
        by (simp add: seekRows_def Some ids computes_ret)
      show ?thesis unfolding Some option.case
        by (rule computes_bind [OF computes_panicQ [OF ids]], rule computes_bind [OF l1], rule l2)
    qed (simp add: seekRows_def computes_ret)
  qed
  with False assms(2,3) show ?thesis unfolding joinDriveCommittedRows_def by simp
qed

lemma seekRows_mset:
  assumes "cs_inv cs" "registered schemas cs" "indexIDForColumn schemas pT pC = Some iid" "values_ok d"
    and "dv_committed dv = Some cs"
    and "\<And>x t. rowValue d dC = Some x \<Longrightarrow> csTable cs pT = Some t \<Longrightarrow> c_type (ts_columns (t_schema t) ! nat pC) = v_kind x"
  shows "(rowValue d dC = Some x \<longrightarrow> viewIndexSeek cs pT iid (NewIndexKey [x]) \<noteq> None) \<and>
    mset (seekRows dv cs join isLeft dT dC pT pC iid d) = mset (concat (map (drivePair join isLeft dT dC pT pC d) (rowsAfter dv pT)))"
proof (cases "rowValue d dC")
  case None
  then show ?thesis by (simp add: seekRows_def drivePair_def)
next
  case (Some y)
  let ?g = "\<lambda>p. optList (tryJoinFilterFromDrive d dT p pT isLeft join)"
  obtain ids where ids: "viewIndexSeek cs pT iid (NewIndexKey [y]) = Some ids"
    "mset (List.map_filter (viewGetRow cs pT) ids) = mset (filter (matchesAt pC y) (map snd (viewTableScan cs pT)))"
    using viewIndexSeek_rows [OF assms(1,2,3), of y] rowValue_ok [OF assms(4) Some] assms(6) [OF Some] by blast
  have "mset (concat (map ?g (List.map_filter (viewGetRow cs pT) ids))) =
      mset (concat (map ?g (filter (matchesAt pC y) (map snd (viewTableScan cs pT)))))"
    by (rule mset_concat_cong [OF ids(2)])
  also have "\<dots> = mset (concat (map (drivePair join isLeft dT dC pT pC d) (map snd (viewTableScan cs pT))))"
    unfolding mset_concat_filter drivePair_def Some by simp
  finally show ?thesis
    using Some ids(1) assms(5) by (auto simp: seekRows_def rowsAfter_def CommittedScan_def)
qed

section \<open>The path over a delta index\<close>

definition appendAt :: "(nat \<Rightarrow> 'a list) \<Rightarrow> nat \<Rightarrow> 'a list list \<times> nat \<Rightarrow> 'a list list \<times> nat" where
  "appendAt h pos st = (let m = (fst st)[pos := fst st ! pos @ h pos] in (m, snd st + length (h pos)))"

lemma length_concat_update: "p < length m \<Longrightarrow> length (concat (m[p := m ! p @ x])) = length (concat m) + length x"
  by (induction m arbitrary: p) (auto split: nat.split)

lemma fold_appendAt:
  assumes "distinct ps" "\<forall>p \<in> set ps. p < length m" "n = length (concat m)"
  shows "fold (appendAt h) ps (m, n) =
    (map (\<lambda>j. m ! j @ (if j \<in> set ps then h j else [])) [0..<length m],
     length (concat (map (\<lambda>j. m ! j @ (if j \<in> set ps then h j else [])) [0..<length m])))"
  using assms
proof (induction ps arbitrary: m n)
  case Nil
  then show ?case by (simp add: map_nth)
next
  case (Cons p ps)
  let ?m = "m[p := m ! p @ h p]"
  have p: "p < length m" using Cons.prems by simp
  have len: "length (concat ?m) = length (concat m) + length (h p)"
    by (rule length_concat_update [OF p])
  have eq: "map (\<lambda>j. ?m ! j @ (if j \<in> set ps then h j else [])) [0..<length m] =
      map (\<lambda>j. m ! j @ (if j \<in> set (p # ps) then h j else [])) [0..<length m]"
    using Cons.prems(1) by (intro map_cong [OF refl]) (auto simp: nth_list_update p)
  have "fold (appendAt h) (p # ps) (m, n) = fold (appendAt h) ps (?m, length (concat ?m))"
    using Cons.prems(3) len by (simp add: appendAt_def)
  also have "\<dots> = (map (\<lambda>j. ?m ! j @ (if j \<in> set ps then h j else [])) [0..<length m],
     length (concat (map (\<lambda>j. ?m ! j @ (if j \<in> set ps then h j else [])) [0..<length m])))"
    using Cons.IH [of ?m] Cons.prems(1,2) by simp
  finally show ?case unfolding eq .
qed

text \<open>The state after the rows probed so far: what each driving row has found among them.\<close>

definition foundBy :: "('d \<Rightarrow> 'p \<Rightarrow> 'a list) \<Rightarrow> 'd list \<Rightarrow> 'p list \<Rightarrow> 'a list list \<times> nat" where
  "foundBy h ds ps = (let m = map (\<lambda>d. concat (map (h d) ps)) ds in (m, length (concat m)))"

lemma foundBy_snoc:
  "foundBy h ds (ps @ [p]) =
    (let m = map (\<lambda>j. fst (foundBy h ds ps) ! j @ h (ds ! j) p) [0..<length ds] in (m, length (concat m)))"
proof -
  have "map (\<lambda>d. concat (map (h d) (ps @ [p]))) ds =
      map (\<lambda>j. map (\<lambda>d. concat (map (h d) ps)) ds ! j @ h (ds ! j) p) [0..<length ds]"
    by (rule nth_equalityI) simp_all
  then show ?thesis unfolding foundBy_def Let_def fst_conv by (simp only: )
qed

lemma computes_forQ_prefix:
  assumes "\<And>ps p qs. xs = ps @ p # qs \<Longrightarrow> computes (body p (g ps)) (g (ps @ [p]))"
  shows "computes (forQ body xs (g [])) (g xs)"
proof -
  have "xs = ps @ qs \<Longrightarrow> computes (forQ body qs (g ps)) (g xs)" for ps qs
  proof (induction qs arbitrary: ps)
    case Nil
    then show ?case by (simp add: computes_ret)
  next
    case (Cons p qs)
    have "computes (body p (g ps)) (g (ps @ [p]))" by (rule assms [OF Cons.prems])
    moreover have "computes (forQ body qs (g (ps @ [p]))) (g xs)" using Cons.IH [of "ps @ [p]"] Cons.prems by simp
    ultimately show ?case by (auto intro: computes_bind)
  qed
  from this [of "[]" xs] show ?thesis by simp
qed

lemma probe_found:
  assumes "rowValue p pC = Some y"
  shows "(if matchesAt dC y d then optList (tryJoinFilterFromDrive d dT p pT isLeft join) else []) =
    drivePair join isLeft dT dC pT pC d p"
  using assms by (simp add: drivePair_def matchesAt_def EqualValues_commute [of y] split: option.split)

lemma joinAtPosition_computes:
  assumes "pos < length ds" "rowValue (ds ! pos) dC = Some x"
  shows "computes (joinAtPosition ds dT dC pT isLeft join p pos st)
    (appendAt (\<lambda>j. optList (tryJoinFilterFromDrive (ds ! j) dT p pT isLeft join)) pos st)"
proof -
  obtain m n where st: "st = (m, n)" by (cases st)
  show ?thesis unfolding st joinAtPosition_def prod.case appendAt_def
    using assms by (intro computes_bind [OF computes_work])
      (auto simp: Let_def split: option.split intro: computes_ret computes_bind [OF computes_delta])
qed

lemma probeRow_computes:
  assumes "dv_wf dv" "ds = sideRows ins dv dT" "hasDeltaIndex dv dT dC ins" "values_ok p"
  shows "computes (case rowValue p pC of None \<Rightarrow> ret (foundBy (drivePair join isLeft dT dC pT pC) ds ps)
      | Some y \<Rightarrow>
          bindQ (panicQ (deltaIndexPositions dv dT dC y ins)) (\<lambda>positions.
          forQ (joinAtPosition ds dT dC pT isLeft join p) positions (foundBy (drivePair join isLeft dT dC pT pC) ds ps)))
      (foundBy (drivePair join isLeft dT dC pT pC) ds (ps @ [p]))"
proof (cases "rowValue p pC")
  case None
  then have "drivePair join isLeft dT dC pT pC d p = []" for d by (simp add: drivePair_def matchesAt_def split: option.split)
  then have "foundBy (drivePair join isLeft dT dC pT pC) ds (ps @ [p]) = foundBy (drivePair join isLeft dT dC pT pC) ds ps"
    by (simp add: foundBy_def)
  then show ?thesis using None by (simp add: computes_ret)
next
  case (Some y)
  let ?h = "drivePair join isLeft dT dC pT pC"
  let ?ps = "filter (\<lambda>j. matchesAt dC y (ds ! j)) [0..<length ds]"
  let ?e = "\<lambda>j. optList (tryJoinFilterFromDrive (ds ! j) dT p pT isLeft join)"
  let ?m = "fst (foundBy ?h ds ps)"
  have pos: "deltaIndexPositions dv dT dC y ins = Some ?ps"
    using deltaIndexPositions_ok [OF assms(1)] rowValue_ok [OF assms(4) Some] assms(2,3) by simp
  have m: "length ?m = length ds" "foundBy ?h ds ps = (?m, length (concat ?m))" by (simp_all add: foundBy_def Let_def)
  have eq: "map (\<lambda>j. ?m ! j @ (if j \<in> set ?ps then ?e j else [])) [0..<length ds] = map (\<lambda>j. ?m ! j @ ?h (ds ! j) p) [0..<length ds]"
    by (rule map_cong [OF refl]) (simp add: probe_found [OF Some, symmetric])
  have "fold (appendAt ?e) ?ps (?m, length (concat ?m)) =
     (map (\<lambda>j. ?m ! j @ (if j \<in> set ?ps then ?e j else [])) [0..<length ?m],
      length (concat (map (\<lambda>j. ?m ! j @ (if j \<in> set ?ps then ?e j else [])) [0..<length ?m])))"
    by (rule fold_appendAt) (auto simp: m(1))
  then have fold: "fold (appendAt ?e) ?ps (foundBy ?h ds ps) = foundBy ?h ds (ps @ [p])"
    unfolding m(1) eq foundBy_snoc Let_def m(2) [symmetric] .
  have body: "computes (joinAtPosition ds dT dC pT isLeft join p pos st) (appendAt ?e pos st)" if "pos \<in> set ?ps" for pos st
    using that joinAtPosition_computes by (auto simp: matchesAt_def split: option.splits)
  show ?thesis unfolding Some option.case
    by (rule computes_bind [OF computes_panicQ [OF pos]], subst fold [symmetric], rule computes_forQ) (rule body)
qed

lemma deltaIndexPath_computes:
  assumes "dv_wf dv" "ds = sideRows ins dv dT" "hasDeltaIndex dv dT dC ins" "list_all values_ok (rowsAfter dv pT)"
  shows "computes (joinDriveCommittedByDeltaIndex dv ds ins dT dC pT pC isLeft join)
    (driveRows join isLeft dT dC pT pC ds (rowsAfter dv pT))"
proof -
  let ?h = "drivePair join isLeft dT dC pT pC"
  have fin: "(if length xs = 0 then [] else xs) = xs" for xs :: "productValue list" by simp
  have start: "(replicate (length ds) [], 0) = foundBy ?h ds []"
    by (simp add: foundBy_def Let_def map_replicate_const concat_replicate_trivial)
  have loop: "computes (forQ (\<lambda>p st. case rowValue p pC of None \<Rightarrow> ret st
       | Some y \<Rightarrow> bindQ (panicQ (deltaIndexPositions dv dT dC y ins)) (\<lambda>positions.
           forQ (joinAtPosition ds dT dC pT isLeft join p) positions st))
       (rowsAfter dv pT) (foundBy ?h ds [])) (foundBy ?h ds (rowsAfter dv pT))"
    by (rule computes_forQ_prefix [where g = "foundBy ?h ds"], rule probeRow_computes [OF assms(1,2,3)]) (use assms(4) in simp)
  show ?thesis
    unfolding joinDriveCommittedByDeltaIndex_def visitRowsAfter_forQ start
    by (rule computes_bind [OF loop]) (simp only: foundBy_def Let_def prod.case fin driveRows_def computes_ret)
qed

section \<open>All fragments\<close>

text \<open>
  What the evaluation of a join relies on: the view, the state it reads, the registry of its
  indexes, and that joined columns have one kind.
\<close>

definition join_ready :: "tableSchema list \<Rightarrow> deltaView \<Rightarrow> committedState \<Rightarrow> predicate joinPred \<Rightarrow> bool" where
  "join_ready schemas dv cs join \<longleftrightarrow>
     dv_wf dv \<and> dv_committed dv = Some cs \<and> cs_inv cs \<and> registered schemas cs \<and>
     indexed dv (jn_Right join) (jn_RightCol join) \<and>
     (\<forall>s l x t. l \<in> set (sideRows s dv (jn_Left join)) \<longrightarrow> rowValue l (jn_LeftCol join) = Some x \<longrightarrow>
        csTable cs (jn_Right join) = Some t \<longrightarrow> c_type (ts_columns (t_schema t) ! nat (jn_RightCol join)) = v_kind x) \<and>
     (\<forall>s r x t. r \<in> set (sideRows s dv (jn_Right join)) \<longrightarrow> rowValue r (jn_RightCol join) = Some x \<longrightarrow>
        csTable cs (jn_Left join) = Some t \<longrightarrow> c_type (ts_columns (t_schema t) ! nat (jn_LeftCol join)) = v_kind x)"

lemma driveCommitted_computes:
  assumes "dv_wf dv" "ds = sideRows ins dv dT" "dv_committed dv = Some cs" "cs_inv cs" "registered schemas cs"
    and "\<And>d x t. d \<in> set ds \<Longrightarrow> rowValue d dC = Some x \<Longrightarrow> csTable cs pT = Some t \<Longrightarrow>
      c_type (ts_columns (t_schema t) ! nat pC) = v_kind x"
  shows "\<exists>out. computes (joinDriveCommittedRows dv ds ins dT dC pT pC isLeft join (Some (indexIDForColumn schemas))) out \<and>
    mset out = mset (driveRows join isLeft dT dC pT pC ds (rowsAfter dv pT))"
proof -
  have ok: "values_ok d" if "d \<in> set ds" for d using assms(1,2) that by (simp add: dv_wf_def list_all_iff)
  show ?thesis
  proof (cases "indexIDForColumn schemas pT pC")
    case (Some iid)
    have s: "(rowValue d dC = Some x \<longrightarrow> viewIndexSeek cs pT iid (NewIndexKey [x]) \<noteq> None) \<and>
        mset (seekRows dv cs join isLeft dT dC pT pC iid d) = mset (concat (map (drivePair join isLeft dT dC pT pC d) (rowsAfter dv pT)))"
      if "d \<in> set ds" for d x
      by (rule seekRows_mset [OF assms(4,5) Some ok [OF that] assms(3)]) (rule assms(6) [OF that])
    have c: "computes (joinDriveCommittedRows dv ds ins dT dC pT pC isLeft join (Some (indexIDForColumn schemas)))
        (concat (map (seekRows dv cs join isLeft dT dC pT pC iid) ds))"
      by (rule seekPath_computes) (use s assms(3) Some in auto)
    have "mset (concat (map (seekRows dv cs join isLeft dT dC pT pC iid) ds)) = mset (driveRows join isLeft dT dC pT pC ds (rowsAfter dv pT))"
      unfolding driveRows_def by (rule mset_concat_map_eq) (use s in blast)
    with c show ?thesis by blast
  next
    case None
    have after: "list_all values_ok (rowsAfter dv pT)" using rowsAfter_ok [OF assms(1)] assms(3,4) by simp
    have "computes (joinDriveCommittedRows dv ds ins dT dC pT pC isLeft join (Some (indexIDForColumn schemas)))
        (driveRows join isLeft dT dC pT pC ds (rowsAfter dv pT))"
    proof (cases "ds = []")
      case True
      then show ?thesis by (simp add: joinDriveCommittedRows_def driveRows_def computes_ret)
    next
      case False
      then show ?thesis
        using deltaIndexPath_computes [OF assms(1,2) _ after] nestedScan_computes None assms(3)
        by (simp add: joinDriveCommittedRows_def)
    qed
    then show ?thesis by blast
  qed
qed

lemma driveDelta_computes:
  assumes "dv_wf dv" "list_all values_ok ds" "indexed dv rT rC"
  shows "computes (joinDriveDelta dv ds lT lC rT rC s join) (driveRows join True lT lC rT rC ds (sideRows s dv rT))"
proof -
  have "computes (forQ (\<lambda>lrow out.
      bindQ chargeSubscriptionWork (\<lambda>_.
      case rowValue lrow lC of None \<Rightarrow> ret out
      | Some lhsValue \<Rightarrow>
          bindQ (panicQ (DeltaIndexScan dv rT rC lhsValue s)) (\<lambda>rhsRows.
          forQ (\<lambda>rrow out. bindQ chargeSubscriptionWork (\<lambda>_. emitJoined (tryJoinFilter lrow lT rrow rT join) out))
            rhsRows out))) ds [])
    ([] @ concat (map (\<lambda>d. concat (map (drivePair join True lT lC rT rC d) (sideRows s dv rT))) ds))"
  proof (rule computes_collect, rule computes_bind [OF computes_work])
    fix d out assume d: "d \<in> set ds"
    show "computes (case rowValue d lC of None \<Rightarrow> ret out
      | Some lhsValue \<Rightarrow>
          bindQ (panicQ (DeltaIndexScan dv rT rC lhsValue s)) (\<lambda>rhsRows.
          forQ (\<lambda>rrow out. bindQ chargeSubscriptionWork (\<lambda>_. emitJoined (tryJoinFilter d lT rrow rT join) out)) rhsRows out))
      (out @ concat (map (drivePair join True lT lC rT rC d) (sideRows s dv rT)))"
    proof (cases "rowValue d lC")
      case None
      show ?thesis unfolding drivePair_none [OF None] None by (simp add: computes_ret)
    next
      case (Some x)
      let ?g = "\<lambda>r. optList (tryJoinFilter d lT r rT join)"
      have scan: "DeltaIndexScan dv rT rC x s = Some (filter (matchesAt rC x) (sideRows s dv rT))"
        using DeltaIndexScan_ok [OF assms(1)] assms(2,3) d rowValue_ok [OF _ Some] by (auto simp: indexed_def list_all_iff)
      have "concat (map ?g (filter (matchesAt rC x) rs)) = concat (map (drivePair join True lT lC rT rC d) rs)" for rs
        by (induction rs) (simp_all add: drivePair_def Some tryJoinFilterFromDrive_def)
      moreover have "computes (forQ (\<lambda>rrow out. bindQ chargeSubscriptionWork (\<lambda>_. emitJoined (tryJoinFilter d lT rrow rT join) out))
          rs out) (out @ concat (map ?g rs))" for rs
        by (rule computes_collect, rule computes_bind [OF computes_work]) (rule computes_emit)
      ultimately show ?thesis unfolding Some option.case
        by (intro computes_bind [OF computes_panicQ [OF scan]]) metis
    qed
  qed
  then show ?thesis by (cases "ds = []") (simp_all add: joinDriveDelta_def driveRows_def computes_ret)
qed

text \<open>The pairs of a left and a right row.\<close>

definition joinPair :: "predicate joinPred \<Rightarrow> productValue \<Rightarrow> productValue \<Rightarrow> productValue list" where
  "joinPair join l r = drivePair join True (jn_Left join) (jn_LeftCol join) (jn_Right join) (jn_RightCol join) l r"

definition joinPairs :: "predicate joinPred \<Rightarrow> productValue list \<Rightarrow> productValue list \<Rightarrow> productValue list" where
  "joinPairs join L R = concat (map (\<lambda>l. concat (map (joinPair join l) R)) L)"

lemma joinPair_reversed:
  "drivePair join False (jn_Right join) (jn_RightCol join) (jn_Left join) (jn_LeftCol join) r l = joinPair join l r"
  by (auto simp: joinPair_def drivePair_def matchesAt_def tryJoinFilterFromDrive_def EqualValues_commute split: option.split)

lemma mset_pairs: "mset (concat (map (\<lambda>l. concat (map (g l) R)) L)) = bagPairs (\<lambda>l r. mset (g l r)) L R"
  by (simp add: mset_concat_sum bagPairs_def)

lemma mset_joinPairs: "mset (joinPairs join L R) = bagPairs (\<lambda>l r. mset (joinPair join l r)) L R"
  unfolding joinPairs_def by (rule mset_pairs)

lemma driveRows_left:
  "driveRows join True (jn_Left join) (jn_LeftCol join) (jn_Right join) (jn_RightCol join) L R = joinPairs join L R"
  by (simp add: driveRows_def joinPairs_def joinPair_def [abs_def])

lemma driveRows_right:
  "mset (driveRows join False (jn_Right join) (jn_RightCol join) (jn_Left join) (jn_LeftCol join) R L) = mset (joinPairs join L R)"
  unfolding driveRows_def mset_joinPairs mset_pairs joinPair_reversed by (rule bagPairs_swap)

lemma fragments_compute:
  assumes "join_ready schemas dv cs join"
  defines "L \<equiv> jn_Left join" and "R \<equiv> jn_Right join"
  shows "\<exists>f. computes (evalJoinDeltaFragments dv join (Some (indexIDForColumn schemas))) f \<and>
    map mset (jf_inserts f) = map mset [joinPairs join (InsertedRows dv L) (rowsAfter dv R), joinPairs join (rowsAfter dv L) (InsertedRows dv R),
      joinPairs join (InsertedRows dv L) (DeletedRows dv R), joinPairs join (DeletedRows dv L) (InsertedRows dv R)] \<and>
    map mset (jf_deletes f) = map mset [joinPairs join (DeletedRows dv L) (rowsAfter dv R), joinPairs join (rowsAfter dv L) (DeletedRows dv R),
      joinPairs join (InsertedRows dv L) (InsertedRows dv R), joinPairs join (DeletedRows dv L) (DeletedRows dv R)]"
proof -
  note r = assms(1) [unfolded join_ready_def]
  have left: "\<exists>out. computes (joinDriveCommittedRows dv (sideRows s dv L) s L (jn_LeftCol join) R (jn_RightCol join) True join
      (Some (indexIDForColumn schemas))) out \<and> mset out = mset (joinPairs join (sideRows s dv L) (rowsAfter dv R))" for s
    using driveCommitted_computes [of dv "sideRows s dv L" s L cs schemas "jn_LeftCol join" R "jn_RightCol join" True join] r
    unfolding L_def R_def driveRows_left by blast
  have right: "\<exists>out. computes (joinDriveCommittedRows dv (sideRows s dv R) s R (jn_RightCol join) L (jn_LeftCol join) False join
      (Some (indexIDForColumn schemas))) out \<and> mset out = mset (joinPairs join (rowsAfter dv L) (sideRows s dv R))" for s
    using driveCommitted_computes [of dv "sideRows s dv R" s R cs schemas "jn_RightCol join" L "jn_LeftCol join" False join] r
    unfolding L_def R_def driveRows_right by blast
  have delta: "computes (joinDriveDelta dv (sideRows s dv L) L (jn_LeftCol join) R (jn_RightCol join) s' join)
      (joinPairs join (sideRows s dv L) (sideRows s' dv R))" for s s'
    using driveDelta_computes [of dv "sideRows s dv L" R "jn_RightCol join"] r
    unfolding L_def R_def driveRows_left [symmetric] by (simp add: dv_wf_def)
  have side: "InsertedRows dv = sideRows True dv" "DeletedRows dv = sideRows False dv" by (simp_all add: fun_eq_iff sideRows_def)
  obtain i1 i2 d1 d2 where c:
    "computes (joinDriveCommittedRows dv (sideRows True dv L) True L (jn_LeftCol join) R (jn_RightCol join) True join (Some (indexIDForColumn schemas))) i1"
    "computes (joinDriveCommittedRows dv (sideRows True dv R) True R (jn_RightCol join) L (jn_LeftCol join) False join (Some (indexIDForColumn schemas))) i2"
    "computes (joinDriveCommittedRows dv (sideRows False dv L) False L (jn_LeftCol join) R (jn_RightCol join) True join (Some (indexIDForColumn schemas))) d1"
    "computes (joinDriveCommittedRows dv (sideRows False dv R) False R (jn_RightCol join) L (jn_LeftCol join) False join (Some (indexIDForColumn schemas))) d2"
    "mset i1 = mset (joinPairs join (sideRows True dv L) (rowsAfter dv R))" "mset i2 = mset (joinPairs join (rowsAfter dv L) (sideRows True dv R))"
    "mset d1 = mset (joinPairs join (sideRows False dv L) (rowsAfter dv R))" "mset d2 = mset (joinPairs join (rowsAfter dv L) (sideRows False dv R))"
    using left [of True] right [of True] left [of False] right [of False] by blast
  let ?f = "\<lparr>jf_inserts = [i1, i2, joinPairs join (sideRows True dv L) (sideRows False dv R), joinPairs join (sideRows False dv L) (sideRows True dv R)],
    jf_deletes = [d1, d2, joinPairs join (sideRows True dv L) (sideRows True dv R), joinPairs join (sideRows False dv L) (sideRows False dv R)]\<rparr>"
  have "computes (evalJoinDeltaFragments dv join (Some (indexIDForColumn schemas))) ?f"
    unfolding evalJoinDeltaFragments_def Let_def joinDriveCommitted_def joinDriveCommittedReversed_def
    unfolding side L_def [symmetric] R_def [symmetric]
    by (rule computes_bind [OF c(1)] computes_bind [OF c(2)] computes_bind [OF delta] computes_bind [OF c(3)] computes_bind [OF c(4)] computes_ret)+
  with c show ?thesis unfolding side by (intro exI [of _ ?f]) simp
qed

section \<open>The join as a pairing of rows\<close>

lemma values_ok_append [simp]: "values_ok (r @ s) \<longleftrightarrow> values_ok r \<and> values_ok s"
  by (simp add: values_ok_def)

lemma values_ok_take_drop: "values_ok r \<Longrightarrow> values_ok (take n r)" "values_ok r \<Longrightarrow> values_ok (drop n r)"
  by (auto simp: values_ok_def list_all_iff dest: in_set_takeD in_set_dropD)

lemma same_row_append: "same_row l l' \<Longrightarrow> same_row r r' \<Longrightarrow> same_row (l @ r) (l' @ r')"
  by (auto simp: same_row_def productEqual_def intro: list_all2_appendI)

lemma same_row_take_drop:
  "same_row r s \<Longrightarrow> same_row (take n r) (take n s)" "same_row r s \<Longrightarrow> same_row (drop n r) (drop n s)"
  by (auto simp: same_row_def productEqual_def values_ok_take_drop)

lemma same_row_length: "same_row r s \<Longrightarrow> length r = length s"
  by (auto simp: same_row_def productEqual_def dest: list_all2_lengthD)

definition joinsOn :: "predicate joinPred \<Rightarrow> productValue \<Rightarrow> productValue \<Rightarrow> bool" where
  "joinsOn join l r \<longleftrightarrow>
     (case (rowValue l (jn_LeftCol join), rowValue r (jn_RightCol join)) of (Some x, Some y) \<Rightarrow> EqualValues x y | _ \<Rightarrow> False) \<and>
     joinPairMatches l (jn_Left join) r (jn_Right join) join"

lemma joinPair_eq: "joinPair join l r = (if joinsOn join l r then [l @ r] else [])"
  by (auto simp: joinPair_def drivePair_def joinsOn_def matchesAt_def tryJoinFilterFromDrive_def tryJoinFilter_def
      EqualValues_commute split: option.split)

lemma joinsOn_same: "same_row l l' \<Longrightarrow> same_row r r' \<Longrightarrow> joinsOn join l r = joinsOn join l' r'"
  unfolding joinsOn_def leaf_cols [OF same_rowValue same_rowValue]
  by (simp add: joinPairMatches_def MatchJoinPair_same split: option.split)

lemma projectJoinedRows_concat: "projectJoinedRows rows w pr = concat (map (\<lambda>row. projectJoinedRows [row] w pr) rows)"
  by (auto simp: projectJoinedRows_def)

lemma projectJoinedRows_same:
  "same_row r s \<Longrightarrow> canons (projectJoinedRows [r] w pr) = canons (projectJoinedRows [s] w pr)"
  by (simp add: projectJoinedRows_def same_row_length same_row_canon [OF same_row_take_drop(1)] same_row_canon [OF same_row_take_drop(2)])

lemma projectJoinedRows_ok: "list_all values_ok rows \<Longrightarrow> list_all values_ok (projectJoinedRows rows w pr)"
  by (auto simp: projectJoinedRows_def list_all_iff values_ok_take_drop)

definition joinOut :: "predicate joinPred \<Rightarrow> int \<Rightarrow> bool \<Rightarrow> productValue \<Rightarrow> productValue \<Rightarrow> bytes multiset" where
  "joinOut join w pr l r = (if joinsOn join l r then canons (projectJoinedRows [l @ r] w pr) else {#})"

interpretation join_bag: pair_bag "joinOut join w pr" for join w pr
proof
  fix l l' r r' assume "same_row l l'" "same_row r r'"
  then show "joinOut join w pr l r = joinOut join w pr l' r'"
    using joinsOn_same [of l l' r r' join] projectJoinedRows_same [OF same_row_append [of l l' r r']] by (simp add: joinOut_def)
qed

lemma joinPairs_ok: "list_all values_ok L \<Longrightarrow> list_all values_ok R \<Longrightarrow> list_all values_ok (joinPairs join L R)"
  by (auto simp: joinPairs_def joinPair_eq list_all_iff split: if_splits)

lemma canons_project: "canons (projectJoinedRows rows w pr) = (\<Sum>x\<in>#mset rows. canons (projectJoinedRows [x] w pr))"
  by (subst projectJoinedRows_concat) (rule canons_concat)

lemma canons_joinPairs: "canons (projectJoinedRows (joinPairs join L R) w pr) = bagPairs (joinOut join w pr) L R"
proof -
  have "(\<Sum>x\<in>#mset (joinPair join l r). canons (projectJoinedRows [x] w pr)) = joinOut join w pr l r" for l r
    by (simp add: joinPair_eq joinOut_def)
  then have inner: "(\<Sum>x\<in>#mset (concat (map (joinPair join l) R)). canons (projectJoinedRows [x] w pr)) = (\<Sum>r\<in>#mset R. joinOut join w pr l r)" for l
    by (induction R) simp_all
  show ?thesis unfolding bagPairs_def by (subst canons_project, unfold joinPairs_def, induction L) (simp_all add: inner)
qed

section \<open>The delta of a join\<close>

text \<open>The evaluation of a join: its fragments, projected to one side and reconciled.\<close>

definition joinDelta ::
  "deltaView \<Rightarrow> predicate joinPred \<Rightarrow> indexResolver option \<Rightarrow> int \<Rightarrow> (productValue list \<times> productValue list) query" where
  "joinDelta dv join resolver lhsWidth =
     bindQ (evalJoinDeltaFragments dv join resolver) (\<lambda>frags.
     reconcileJoinDelta (projectJoinFragments (jf_inserts frags) lhsWidth (jn_ProjectRight join))
       (projectJoinFragments (jf_deletes frags) lhsWidth (jn_ProjectRight join)))"

lemma projected_fragments:
  assumes "map mset frags = map mset frags'"
  shows "canons (concat (projectJoinFragments frags w pr)) = canons (concat (projectJoinFragments frags' w pr))"
proof -
  have "list_all2 (\<lambda>x y. mset x = mset y) frags frags'" using assms by (simp add: list_all2_conv_all_nth list_eq_iff_nth_eq)
  then show ?thesis
  proof (induction rule: list_all2_induct)
    case (Cons x xs y ys)
    then show ?case using canons_project [of x w pr] canons_project [of y w pr] by (simp add: projectJoinFragments_def)
  qed (simp add: projectJoinFragments_def)
qed

lemma fragments_ok:
  assumes "map mset frags = map mset frags'" "list_all (list_all values_ok) frags'"
  shows "list_all values_ok (concat (projectJoinFragments frags w pr))"
proof -
  have sets: "map set frags = map set frags'" using arg_cong [OF assms(1), of "map set_mset"] by (simp add: comp_def)
  have "list_all (list_all values_ok) xs \<longleftrightarrow> (\<forall>S \<in> set (map set xs). \<forall>r \<in> S. values_ok r)" for xs by (simp add: list_all_iff)
  then have "list_all (list_all values_ok) frags" using assms(2) sets by metis
  then show ?thesis using projectJoinedRows_ok by (fastforce simp: projectJoinFragments_def list_all_iff)
qed

lemma joinDelta_exact:
  fixes w :: int
  assumes "join_ready schemas dv cs join"
    and "balanced B1 (InsertedRows dv (jn_Left join)) (rowsAfter dv (jn_Left join)) (DeletedRows dv (jn_Left join))"
    and "balanced B2 (InsertedRows dv (jn_Right join)) (rowsAfter dv (jn_Right join)) (DeletedRows dv (jn_Right join))"
  defines "bag \<equiv> bagPairs (joinOut join w (jn_ProjectRight join))"
  shows "exact_delta (joinDelta dv join (Some (indexIDForColumn schemas)) w) (bag B1 B2)
    (bag (rowsAfter dv (jn_Left join)) (rowsAfter dv (jn_Right join)))"
proof -
  let ?pr = "jn_ProjectRight join" and ?L = "jn_Left join" and ?R = "jn_Right join"
  let ?ins = "[joinPairs join (InsertedRows dv ?L) (rowsAfter dv ?R), joinPairs join (rowsAfter dv ?L) (InsertedRows dv ?R),
      joinPairs join (InsertedRows dv ?L) (DeletedRows dv ?R), joinPairs join (DeletedRows dv ?L) (InsertedRows dv ?R)]"
  let ?del = "[joinPairs join (DeletedRows dv ?L) (rowsAfter dv ?R), joinPairs join (rowsAfter dv ?L) (DeletedRows dv ?R),
      joinPairs join (InsertedRows dv ?L) (InsertedRows dv ?R), joinPairs join (DeletedRows dv ?L) (DeletedRows dv ?R)]"
  obtain f where f: "computes (evalJoinDeltaFragments dv join (Some (indexIDForColumn schemas))) f"
    "map mset (jf_inserts f) = map mset ?ins" "map mset (jf_deletes f) = map mset ?del"
    using fragments_compute [OF assms(1)] by blast
  have ok: "list_all (list_all values_ok) ?ins" "list_all (list_all values_ok) ?del"
    using assms(2,3) by (simp_all add: balanced_def joinPairs_ok)
  obtain I D where r: "computes (reconcileJoinDelta (projectJoinFragments (jf_inserts f) w ?pr) (projectJoinFragments (jf_deletes f) w ?pr)) (I, D)"
    "list_all values_ok I" "list_all values_ok D"
    "canons I = canons (concat (projectJoinFragments ?ins w ?pr)) - canons (concat (projectJoinFragments ?del w ?pr))"
    "canons D = canons (concat (projectJoinFragments ?del w ?pr)) - canons (concat (projectJoinFragments ?ins w ?pr))"
    using reconcile_computes [OF fragments_ok [OF f(2) ok(1)] fragments_ok [OF f(3) ok(2)], of w ?pr w ?pr]
    unfolding projected_fragments [OF f(2)] projected_fragments [OF f(3)] by blast
  have bal: "bag B1 B2 + canons (concat (projectJoinFragments ?ins w ?pr)) =
      bag (rowsAfter dv ?L) (rowsAfter dv ?R) + canons (concat (projectJoinFragments ?del w ?pr))"
    using join_bag.fragment_identity [OF assms(2,3), of join w ?pr]
    by (simp add: projectJoinFragments_def canons_joinPairs bag_def ac_simps)
  have "computes (joinDelta dv join (Some (indexIDForColumn schemas)) w) (I, D)"
    unfolding joinDelta_def by (rule computes_bind [OF f(1)], rule r(1))
  from exact_deltaI [OF this r(2-5) bal] show ?thesis .
qed

end
