(* ===== verification/RowDiffs.thy ===== *)
theory RowDiffs
  imports JoinDelta
begin

text \<open>
  Rows before and after a commit, and their difference as bags (\<^verbatim>\<open>src/subscription/eval.go\<close> from
  line 867, the row keys of \<^verbatim>\<open>delta_dedup.go\<close> and \<^verbatim>\<open>hash.go\<close>). Rows are counted under a key,
  with a 64-bit count. Shown here: keys identify exactly the equal rows, and as long as the counts
  do not wrap around, the difference is the difference of the bags.
\<close>

section \<open>Row keys\<close>

definition encodeValue :: "go_value \<Rightarrow> bytes option" where
  "encodeValue v =
     (if v_isNull v then Some [kindByte (v_kind v), 0]
      else map_option (\<lambda>p. [kindByte (v_kind v), 1] @ p)
       (case v_kind v of
          KindBool \<Rightarrow> do { b \<leftarrow> AsBool v; Some [if b then 1 else 0] }
        | KindInt8 \<Rightarrow> do { x \<leftarrow> AsInt8 v; Some (put_be 8 (scast x :: u64)) }
        | KindInt16 \<Rightarrow> do { x \<leftarrow> AsInt16 v; Some (put_be 8 (scast x :: u64)) }
        | KindInt32 \<Rightarrow> do { x \<leftarrow> AsInt32 v; Some (put_be 8 (scast x :: u64)) }
        | KindInt64 \<Rightarrow> do { x \<leftarrow> AsInt64 v; Some (put_be 8 x) }
        | KindUint8 \<Rightarrow> do { x \<leftarrow> AsUint8 v; Some (put_be 8 (ucast x :: u64)) }
        | KindUint16 \<Rightarrow> do { x \<leftarrow> AsUint16 v; Some (put_be 8 (ucast x :: u64)) }
        | KindUint32 \<Rightarrow> do { x \<leftarrow> AsUint32 v; Some (put_be 8 (ucast x :: u64)) }
        | KindUint64 \<Rightarrow> do { x \<leftarrow> AsUint64 v; Some (put_be 8 x) }
        | KindFloat32 \<Rightarrow> do { x \<leftarrow> AsFloat32 v; Some (put_be 4 (canonicalFloat32Bits x)) }
        | KindFloat64 \<Rightarrow> do { x \<leftarrow> AsFloat64 v; Some (put_be 8 (canonicalFloat64Bits x)) }
        | KindString \<Rightarrow> do { s \<leftarrow> AsString v; writeString s }
        | KindBytes \<Rightarrow> do { s \<leftarrow> BytesView v; writeString s }
        | KindInt128 \<Rightarrow> do { (hi, lo) \<leftarrow> AsInt128 v; Some (put_be 8 hi @ put_be 8 lo) }
        | KindUint128 \<Rightarrow> do { (hi, lo) \<leftarrow> AsUint128 v; Some (put_be 8 hi @ put_be 8 lo) }
        | KindInt256 \<Rightarrow> do { (w0, w1, w2, w3) \<leftarrow> AsInt256 v; Some (put_be 8 w0 @ put_be 8 w1 @ put_be 8 w2 @ put_be 8 w3) }
        | KindUint256 \<Rightarrow> do { (w0, w1, w2, w3) \<leftarrow> AsUint256 v; Some (put_be 8 w0 @ put_be 8 w1 @ put_be 8 w2 @ put_be 8 w3) }
        | KindTimestamp \<Rightarrow> do { x \<leftarrow> AsTimestamp v; Some (put_be 8 x) }
        | KindDuration \<Rightarrow> do { x \<leftarrow> AsDurationMicros v; Some (put_be 8 x) }
        | KindArrayString \<Rightarrow> do { xs \<leftarrow> ArrayStringView v; writeStringArray xs }
        | KindUUID \<Rightarrow> AsUUID v
        | KindJSON \<Rightarrow> do { s \<leftarrow> JSONView v; writeString s }))"

fun encodeValues :: "productValue \<Rightarrow> bytes option" where
  "encodeValues [] = Some []"
| "encodeValues (v # vs) = do { x \<leftarrow> encodeValue v; rest \<leftarrow> encodeValues vs; Some (x @ rest) }"

definition encodeRowKey :: "productValue \<Rightarrow> bytes option" where
  "encodeRowKey row = do { n \<leftarrow> writeLen (length row); rest \<leftarrow> encodeValues row; Some (n @ rest) }"

section \<open>Differences\<close>

record projectedCounts =
  pc_counts :: "(bytes \<times> u64) list"
  pc_values :: "(bytes \<times> productValue) list"
  pc_order :: "bytes list"

definition countAt :: "(bytes \<times> u64) list \<Rightarrow> bytes \<Rightarrow> u64" where
  "countAt counts key = (case map_of counts key of None \<Rightarrow> 0 | Some n \<Rightarrow> n)"

definition valueAt :: "(bytes \<times> productValue) list \<Rightarrow> bytes \<Rightarrow> productValue" where
  "valueAt rows key = (case map_of rows key of None \<Rightarrow> [] | Some row \<Rightarrow> row)"

fun countProjectedLoop :: "u64 \<Rightarrow> productValue list \<Rightarrow> projectedCounts \<Rightarrow> projectedCounts option" where
  "countProjectedLoop multiplier [] pc = Some pc"
| "countProjectedLoop multiplier (row # rows) pc = do {
     key \<leftarrow> encodeRowKey row;
     let pc = (if map_of (pc_values pc) key = None
               then pc\<lparr>pc_values := AList.update key row (pc_values pc), pc_order := pc_order pc @ [key]\<rparr> else pc);
     countProjectedLoop multiplier rows
       (pc\<lparr>pc_counts := AList.update key (countAt (pc_counts pc) key + multiplier) (pc_counts pc)\<rparr>)
   }"

definition countProjectedRowsWithMultiplier :: "productValue list \<Rightarrow> int \<Rightarrow> projectedCounts option" where
  "countProjectedRowsWithMultiplier rows multiplier =
     (let pc = \<lparr>pc_counts = [], pc_values = [], pc_order = []\<rparr> in
      if multiplier \<le> 0 then Some pc else countProjectedLoop (word_of_int multiplier) rows pc)"

text \<open>One of the two loops: the rows counted more often in \<open>x\<close> than in \<open>y\<close>.\<close>

definition diffLoop :: "projectedCounts \<Rightarrow> projectedCounts \<Rightarrow> productValue list query" where
  "diffLoop x y =
     forQ (\<lambda>key out.
       if countAt (pc_counts x) key \<le> countAt (pc_counts y) key then ret out
       else
         let n = countAt (pc_counts x) key - countAt (pc_counts y) key in
         bindQ (chargeSubscriptionWorkN n) (\<lambda>_.
         bindQ (chargeDeltaRowN (valueAt (pc_values x) key) n) (\<lambda>_.
         ret (out @ replicate (unat n) (valueAt (pc_values x) key)))))
     (pc_order x) []"

definition diffProjectedRowsWithMultiplicity ::
  "productValue list \<Rightarrow> int \<Rightarrow> productValue list \<Rightarrow> int \<Rightarrow> (productValue list \<times> productValue list) query" where
  "diffProjectedRowsWithMultiplicity beforeRows beforeMultiplier afterRows afterMultiplier =
     bindQ (panicQ (countProjectedRowsWithMultiplier beforeRows beforeMultiplier)) (\<lambda>beforeCounts.
     bindQ (panicQ (countProjectedRowsWithMultiplier afterRows afterMultiplier)) (\<lambda>afterCounts.
     bindQ (diffLoop afterCounts beforeCounts) (\<lambda>inserts.
     bindQ (diffLoop beforeCounts afterCounts) (\<lambda>deletes.
     ret (inserts, deletes)))))"

definition diffProjectedRowBagsWithBudget ::
  "productValue list \<Rightarrow> productValue list \<Rightarrow> (productValue list \<times> productValue list) query" where
  "diffProjectedRowBagsWithBudget beforeRows afterRows = diffProjectedRowsWithMultiplicity beforeRows 1 afterRows 1"

section \<open>Rows before and after\<close>

definition tableRowsFromView :: "committedState \<Rightarrow> tableID \<Rightarrow> productValue list query" where
  "tableRowsFromView cs table =
     forQ (\<lambda>(rid, row) rows. bindQ ctxErr (\<lambda>_. bindQ chargeSubscriptionWork (\<lambda>_. ret (rows @ [row])))) (viewTableScan cs table) []"

definition tableRowsAfter :: "deltaView \<Rightarrow> tableID \<Rightarrow> productValue list query" where
  "tableRowsAfter dv table =
     bindQ (case dv_committed dv of None \<Rightarrow> ret [] | Some cs \<Rightarrow> tableRowsFromView cs table) (\<lambda>rows.
     ret (if IsEventTable dv table then rows @ InsertedRows dv table else rows))"

definition projectedRowsBefore :: "deltaView \<Rightarrow> tableID \<Rightarrow> productValue list query" where
  "projectedRowsBefore dv table =
     bindQ (tableRowsAfter dv table) (\<lambda>current.
     bindQ (panicQ (subtractProjectedRowsByKey current (InsertedRows dv table))) (\<lambda>remaining.
     ret (remaining @ DeletedRows dv table)))"

definition rowCountAfter :: "deltaView \<Rightarrow> tableID \<Rightarrow> int" where
  "rowCountAfter dv table =
     (case dv_committed dv of None \<Rightarrow> 0 | Some cs \<Rightarrow> int (viewRowCount cs table)) +
     (if IsEventTable dv table then int (length (InsertedRows dv table)) else 0)"

definition rowCountBefore :: "deltaView \<Rightarrow> tableID \<Rightarrow> int" where
  "rowCountBefore dv table =
     (let n = rowCountAfter dv table - int (length (InsertedRows dv table)) + int (length (DeletedRows dv table))
      in if n < 0 then 0 else n)"

section \<open>Keys identify equal rows\<close>

definition lengthPrefixed :: "value_kind \<Rightarrow> bool" where
  "lengthPrefixed k \<longleftrightarrow> k \<in> {KindString, KindBytes, KindJSON}"

text \<open>The encoding of a value: its kind, and what the hash of the value writes, after a length where that is not fixed.\<close>

lemma encodeValue_payload:
  assumes "wf_value v" "payloadLen v \<noteq> None" "\<not> v_isNull v"
  shows "\<exists>p pre. writePayload v = Some p \<and> encodeValue v = Some (kindByte (v_kind v) # 1 # pre @ p) \<and>
    (if lengthPrefixed (v_kind v) then length p \<le> 4294967295 \<and> pre = put_be 4 (of_nat (length p) :: u32) else pre = [])"
proof (cases "v_kind v = KindArrayString")
  case True
  then have s: "stringsPayloadLen 4 (v_strArr v) \<noteq> None" using assms(2,3) by (simp add: payloadLen_def)
  then obtain rest where "writeStrings (v_strArr v) = Some rest" using stringsPayloadLen_writes by blast
  moreover have "length (v_strArr v) \<le> 4294967295" using stringsPayloadLen_writes [OF s] by simp
  then obtain n where "checkedPayloadLen (length (v_strArr v)) = Some n" by (simp add: checkedPayloadLen_def)
  ultimately show ?thesis using True assms(3)
    by (simp add: encodeValue_def accessor_defs writeStringArray_eq writePayload_def lengthPrefixed_def)
next
  case False
  then show ?thesis
    using assms wf_narrow [OF assms(1)]
    by (cases "v_kind v"; cases "v_w256 v")
      (auto simp: encodeValue_def accessor_defs writePayload_def lengthPrefixed_def writeString_def writeLen_def payloadLen_def
        checkedPayloadLen_def canonicalFloatBits_eq split: if_splits)
qed

lemma payload_length:
  assumes "writePayload v = Some p" "writePayload w = Some q" "wf_value v" "wf_value w" "v_kind v = v_kind w"
    and "\<not> v_isNull v" "\<not> v_isNull w" "\<not> lengthPrefixed (v_kind v)" "v_kind v \<noteq> KindArrayString"
  shows "length p = length q"
proof -
  have uuid: "v_kind x = KindUUID \<Longrightarrow> length (v_uuid x) = 16" if "wf_value x" "\<not> v_isNull x" for x
    using that by (simp add: wf_value_def)
  have pos: "p = (case writePayload v of Some p \<Rightarrow> p)" "q = (case writePayload w of Some p \<Rightarrow> p)" using assms(1,2) by simp_all
  show ?thesis unfolding pos
    using assms(5-) uuid [OF assms(3,6)] uuid [OF assms(4,7)]
    by (cases "v_kind v"; simp add: writePayload_def lengthPrefixed_def case_prod_beta)
qed

lemma payload_split:
  assumes "writePayload v = Some p" "writePayload w = Some q" "wf_value v" "wf_value w" "v_kind v = v_kind w"
    and "\<not> v_isNull v" "\<not> v_isNull w" "\<not> lengthPrefixed (v_kind v)" "p @ r = q @ s"
  shows "p = q \<and> r = s"
proof (cases "v_kind v = KindArrayString")
  case True
  obtain n x m y where n: "checkedPayloadLen (length (v_strArr v)) = Some n" "writeStrings (v_strArr v) = Some x" "p = put_be 4 n @ x"
    and m: "checkedPayloadLen (length (v_strArr w)) = Some m" "writeStrings (v_strArr w) = Some y" "q = put_be 4 m @ y"
    using assms(1,2,5,6,7) True by (auto simp: writePayload_def result_simps)
  have "put_be 4 n = put_be 4 m" and xy: "x @ r = y @ s" using assms(9) n(3) m(3) by auto
  then have "n = m" by (auto intro: put_be_inj)
  moreover from this have "length (v_strArr v) = length (v_strArr w)" using n(1) m(1) by (auto simp: checkedPayloadLen_Some)
  ultimately show ?thesis using writeStrings_inj [OF n(2) m(2) _ xy] n m by auto
next
  case False
  from payload_length [OF assms(1-8) False] assms(9) show ?thesis by simp
qed

lemma prefixed_split:
  assumes "put_be 4 (of_nat (length p) :: u32) @ p @ r = put_be 4 (of_nat (length q) :: u32) @ q @ s"
    and "length p \<le> 4294967295" "length q \<le> 4294967295"
  shows "p = q \<and> r = s"
proof -
  have pre: "put_be 4 (of_nat (length p) :: u32) = put_be 4 (of_nat (length q) :: u32)" "p @ r = q @ s" using assms(1) by auto
  from pre(1) have "(of_nat (length p) :: u32) = of_nat (length q)" by (rule put_be_inj [of 4, where 'a = 32, simplified])
  then have "unat (of_nat (length p) :: u32) = unat (of_nat (length q) :: u32)" by simp
  then have "length p = length q" using assms(2,3) by (simp add: unat_of_nat)
  with pre(2) show ?thesis by simp
qed

lemma encodeValue_inj:
  assumes "wf_value v" "payloadLen v \<noteq> None" "wf_value w" "payloadLen w \<noteq> None"
    and "encodeValue v = Some a" "encodeValue w = Some b" "a @ r = b @ s"
  shows "EqualValues v w \<and> r = s"
proof -
  have null: "v_isNull v \<longleftrightarrow> v_isNull w" and kind: "v_kind v = v_kind w"
    using assms(5-7) by (auto simp: encodeValue_def kindByte_inj split: if_splits)
  show ?thesis
  proof (cases "v_isNull v")
    case True
    with null kind assms(5-7) show ?thesis by (simp add: encodeValue_def EqualValues_def)
  next
    case False
    with null have w: "\<not> v_isNull w" by simp
    obtain p pre where p: "writePayload v = Some p" "encodeValue v = Some (kindByte (v_kind v) # 1 # pre @ p)"
      "if lengthPrefixed (v_kind v) then length p \<le> 4294967295 \<and> pre = put_be 4 (of_nat (length p) :: u32) else pre = []"
      using encodeValue_payload [OF assms(1,2) False] by blast
    obtain q pre' where q: "writePayload w = Some q" "encodeValue w = Some (kindByte (v_kind w) # 1 # pre' @ q)"
      "if lengthPrefixed (v_kind w) then length q \<le> 4294967295 \<and> pre' = put_be 4 (of_nat (length q) :: u32) else pre' = []"
      using encodeValue_payload [OF assms(3,4) w] by blast
    have eq: "pre @ p @ r = pre' @ q @ s" using assms(5-7) p(2) q(2) by auto
    have "p = q \<and> r = s"
      using prefixed_split [of p r q s] payload_split [OF p(1) q(1) assms(1,3) kind False w, of r s] eq p(3) q(3) kind
      by (cases "lengthPrefixed (v_kind v)") auto
    then show ?thesis
      using writePayload_inj [OF p(1) _ kind False w] q(1) assms(1,3) wf_value_nanFree by auto
  qed
qed

lemma encodeValue_Equal:
  assumes "EqualValues v w" "wf_value v" "payloadLen v \<noteq> None" "wf_value w" "payloadLen w \<noteq> None"
  shows "encodeValue v = encodeValue w"
proof (cases "v_isNull v")
  case True
  with EqualValues_payload [OF assms(1)] show ?thesis by (simp add: encodeValue_def)
next
  case False
  with EqualValues_payload(3) [OF assms(1)] have w: "\<not> v_isNull w" by simp
  from encodeValue_payload [OF assms(2,3) False] encodeValue_payload [OF assms(4,5) w] EqualValues_payload [OF assms(1)]
  show ?thesis by (auto split: if_splits)
qed

lemma encodeValue_some:
  assumes "wf_value v" "payloadLen v \<noteq> None"
  shows "\<exists>bs. encodeValue v = Some bs"
  using encodeValue_payload [OF assms] by (cases "v_isNull v") (auto simp: encodeValue_def)

text \<open>Rows that have a key: their number of columns fits the length field.\<close>

definition keyed :: "productValue \<Rightarrow> bool" where
  "keyed row \<longleftrightarrow> values_ok row \<and> length row \<le> 4294967295"

definition rowKey :: "productValue \<Rightarrow> bytes" where
  "rowKey row = the (encodeRowKey row)"

lemma encodeValues_some: "values_ok row \<Longrightarrow> \<exists>bs. encodeValues row = Some bs"
proof (induction row)
  case (Cons v row)
  then obtain a b where "encodeValue v = Some a" "encodeValues row = Some b"
    using encodeValue_some [of v] by (auto simp: values_ok_def)
  then show ?case by simp
qed simp

lemma encodeRowKey_some: "keyed row \<Longrightarrow> encodeRowKey row = Some (rowKey row)"
  using encodeValues_some [of row] by (auto simp: keyed_def rowKey_def encodeRowKey_def writeLen_def)

lemma encodeValues_inj:
  "values_ok r \<Longrightarrow> values_ok s \<Longrightarrow> length r = length s \<Longrightarrow> encodeValues r = Some a \<Longrightarrow> encodeValues s = Some a \<Longrightarrow> productEqual r s"
proof (induction r s arbitrary: a rule: list_induct2')
  case (4 v r w s)
  obtain x p where x: "encodeValue v = Some x" "encodeValues r = Some p" "a = x @ p" using 4(5) by (auto simp: result_simps)
  obtain y q where y: "encodeValue w = Some y" "encodeValues s = Some q" "a = y @ q" using 4(6) by (auto simp: result_simps)
  have "EqualValues v w \<and> p = q"
    by (rule encodeValue_inj [OF _ _ _ _ x(1) y(1)]) (use 4(2,3) x(3) y(3) in \<open>auto simp: values_ok_def\<close>)
  with 4(1) [of p] 4(2,3,4) x y show ?case by (simp add: values_ok_def productEqual_def)
qed (simp_all add: productEqual_def)

lemma encodeValues_Equal: "values_ok r \<Longrightarrow> values_ok s \<Longrightarrow> productEqual r s \<Longrightarrow> encodeValues r = encodeValues s"
  by (induction r s rule: list_induct2') (auto simp: productEqual_def values_ok_def encodeValue_Equal)

lemma rowKey_iff:
  assumes "keyed r" "keyed s"
  shows "rowKey r = rowKey s \<longleftrightarrow> canon r = canon s"
proof -
  have ok: "values_ok r" "values_ok s" "length r \<le> 4294967295" "length s \<le> 4294967295" using assms by (simp_all add: keyed_def)
  obtain a b where ab: "encodeValues r = Some a" "encodeValues s = Some b" using encodeValues_some ok by blast
  have k: "rowKey r = put_be 4 (of_nat (length r) :: u32) @ a" "rowKey s = put_be 4 (of_nat (length s) :: u32) @ b"
    using ab ok by (simp_all add: rowKey_def encodeRowKey_def writeLen_def)
  show ?thesis
  proof
    assume eq: "rowKey r = rowKey s"
    then have "put_be 4 (of_nat (length r) :: u32) = put_be 4 (of_nat (length s) :: u32)" "a = b" unfolding k by auto
    moreover from this(1) have "(of_nat (length r) :: u32) = of_nat (length s)" by (rule put_be_inj [of 4, where 'a = 32, simplified])
    then have "unat (of_nat (length r) :: u32) = unat (of_nat (length s) :: u32)" by simp
    then have "length r = length s" using ok(3,4) by (simp add: unat_of_nat)
    ultimately show "canon r = canon s" using encodeValues_inj [OF ok(1,2)] ab canon_iff [OF ok(1,2)] by simp
  next
    assume "canon r = canon s"
    then have "productEqual r s" using canon_iff [OF ok(1,2)] by simp
    then show "rowKey r = rowKey s"
      using encodeValues_Equal [OF ok(1,2)] list_all2_lengthD [of EqualValues r s] ab k by (simp add: productEqual_def)
  qed
qed

section \<open>The difference of two bags\<close>

definition keyCount :: "productValue list \<Rightarrow> bytes \<Rightarrow> nat" where
  "keyCount rows k = count (mset (map rowKey rows)) k"

lemma keyCount_simps [simp]:
  "keyCount [] k = 0" "keyCount (rows @ [row]) k = keyCount rows k + (if rowKey row = k then 1 else 0)"
  by (simp_all add: keyCount_def)

lemma keyCount_canon:
  assumes "list_all keyed rows" "keyed r"
  shows "keyCount rows (rowKey r) = count (canons rows) (canon r)"
  using assms(1) by (induction rows) (auto simp: keyCount_def canons_def rowKey_iff [OF _ assms(2)])

lemma keyCount_le: "keyCount rows k \<le> length rows"
  by (metis keyCount_def count_le_size length_map size_mset)

text \<open>The counts after some rows: each key with its number of rows, one of them, and its place in the order.\<close>

definition counts_of :: "u64 \<Rightarrow> productValue list \<Rightarrow> projectedCounts \<Rightarrow> bool" where
  "counts_of m rows pc \<longleftrightarrow>
     (\<forall>k. countAt (pc_counts pc) k = of_nat (keyCount rows k) * m) \<and>
     distinct (pc_order pc) \<and> set (pc_order pc) = rowKey ` set rows \<and>
     (\<forall>k. map_of (pc_values pc) k \<noteq> None \<longleftrightarrow> k \<in> rowKey ` set rows) \<and>
     (\<forall>k row. map_of (pc_values pc) k = Some row \<longrightarrow> row \<in> set rows \<and> rowKey row = k)"

lemma countAt_update: "countAt (AList.update k n m) k' = (if k' = k then n else countAt m k')"
  by (simp add: countAt_def update_conv')

lemma counts_of_step:
  assumes "counts_of m rows pc"
  shows "counts_of m (rows @ [row])
    ((if map_of (pc_values pc) (rowKey row) = None
      then pc\<lparr>pc_values := AList.update (rowKey row) row (pc_values pc), pc_order := pc_order pc @ [rowKey row]\<rparr> else pc)
     \<lparr>pc_counts := AList.update (rowKey row) (countAt (pc_counts pc) (rowKey row) + m) (pc_counts pc)\<rparr>)"
proof (cases "map_of (pc_values pc) (rowKey row) = None")
  case True
  then have "rowKey row \<notin> rowKey ` set rows" using assms unfolding counts_of_def by blast
  with True assms show ?thesis
    unfolding counts_of_def by (auto simp: countAt_update update_conv' algebra_simps)
next
  case False
  then have "rowKey row \<in> rowKey ` set rows" using assms by (simp add: counts_of_def)
  with False assms show ?thesis
    unfolding counts_of_def by (auto simp: countAt_update insert_absorb algebra_simps)
qed

lemma countProjectedLoop_ok:
  assumes "list_all keyed rows" "counts_of m done_rows pc"
  shows "\<exists>pc'. countProjectedLoop m rows pc = Some pc' \<and> counts_of m (done_rows @ rows) pc'"
  using assms
proof (induction rows arbitrary: done_rows pc)
  case (Cons row rows)
  let ?pc = "(if map_of (pc_values pc) (rowKey row) = None
      then pc\<lparr>pc_values := AList.update (rowKey row) row (pc_values pc), pc_order := pc_order pc @ [rowKey row]\<rparr> else pc)
     \<lparr>pc_counts := AList.update (rowKey row) (countAt (pc_counts pc) (rowKey row) + m) (pc_counts pc)\<rparr>"
  have "countProjectedLoop m (row # rows) pc = countProjectedLoop m rows ?pc"
    using Cons.prems(1) encodeRowKey_some [of row] by (simp add: Let_def)
  with Cons.IH [OF _ counts_of_step [OF Cons.prems(2)], of row] Cons.prems(1) show ?case by simp
qed simp

text \<open>A multiplier that is not positive counts nothing.\<close>

lemma countProjected_ok:
  assumes "list_all keyed rows"
  shows "\<exists>pc. countProjectedRowsWithMultiplier rows n = Some pc \<and>
    counts_of (of_nat (nat n)) (if n \<le> 0 then [] else rows) pc"
proof (cases "n \<le> 0")
  case True
  then show ?thesis by (simp add: countProjectedRowsWithMultiplier_def counts_of_def countAt_def)
next
  case False
  have w: "(word_of_int n :: u64) = of_nat (nat n)" using False by simp
  have "counts_of (of_nat (nat n)) [] \<lparr>pc_counts = [], pc_values = [], pc_order = []\<rparr>" by (simp add: counts_of_def countAt_def)
  from countProjectedLoop_ok [OF assms this] False show ?thesis
    unfolding countProjectedRowsWithMultiplier_def Let_def w by (simp only: if_False append_Nil)
qed

definition surplus :: "projectedCounts \<Rightarrow> projectedCounts \<Rightarrow> productValue list" where
  "surplus x y = concat (map (\<lambda>k. replicate (unat (countAt (pc_counts x) k) - unat (countAt (pc_counts y) k)) (valueAt (pc_values x) k))
     (pc_order x))"

lemma diffLoop_computes: "computes (diffLoop x y) (surplus x y)"
proof -
  have "computes (diffLoop x y) ([] @ surplus x y)"
    unfolding diffLoop_def surplus_def
  proof (rule computes_collect)
    fix k out
    let ?a = "countAt (pc_counts x) k" and ?b = "countAt (pc_counts y) k"
    show "computes (if ?a \<le> ?b then ret out
      else let n = ?a - ?b in
         bindQ (chargeSubscriptionWorkN n) (\<lambda>_.
         bindQ (chargeDeltaRowN (valueAt (pc_values x) k) n) (\<lambda>_.
         ret (out @ replicate (unat n) (valueAt (pc_values x) k)))))
      (out @ replicate (unat ?a - unat ?b) (valueAt (pc_values x) k))"
    proof (cases "?a \<le> ?b")
      case True
      then show ?thesis by (simp add: computes_ret word_le_nat_alt)
    next
      case False
      then have "unat (?a - ?b) = unat ?a - unat ?b" by (intro unat_sub) simp
      with False show ?thesis
        by (auto simp: Let_def intro: computes_bind computes_workN computes_deltaN computes_ret)
    qed
  qed
  then show ?thesis by simp
qed

lemma count_replicates:
  "distinct ks \<Longrightarrow> count (\<Sum>k\<in>#mset ks. replicate_mset (n k) (c k)) z = (\<Sum>k\<in>set ks. if c k = z then n k else 0)"
  by (induction ks) simp_all

lemma count_surplus:
  assumes "counts_of m X x" "list_all keyed X" "list_all keyed Y"
    and "\<And>k. unat (countAt (pc_counts x) k) = a * keyCount X k" "\<And>k. unat (countAt (pc_counts y) k) = b * keyCount Y k"
  shows "canons (surplus x y) = repeat_mset a (canons X) - repeat_mset b (canons Y)" "list_all values_ok (surplus x y)"
proof -
  let ?n = "\<lambda>k. a * keyCount X k - b * keyCount Y k" and ?v = "valueAt (pc_values x)"
  have v: "?v k \<in> set X \<and> rowKey (?v k) = k" if "k \<in> set (pc_order x)" for k
  proof -
    note c = assms(1) [unfolded counts_of_def]
    have "k \<in> rowKey ` set X" using c that by simp
    then have "map_of (pc_values x) k \<noteq> None" using c by blast
    then obtain row where row: "map_of (pc_values x) k = Some row" by blast
    then have "row \<in> set X \<and> rowKey row = k" using c by blast
    then show ?thesis by (simp add: valueAt_def row)
  qed
  have kd: "keyed r" if "r \<in> set X" for r using assms(2) that by (simp add: list_all_iff)
  have c: "canons (surplus x y) = (\<Sum>k\<in>#mset (pc_order x). replicate_mset (?n k) (canon (?v k)))"
    unfolding surplus_def canons_concat canons_replicate assms(4,5) ..
  show "canons (surplus x y) = repeat_mset a (canons X) - repeat_mset b (canons Y)"
  proof (rule multiset_eqI)
    fix z
    have "count (canons (surplus x y)) z = (\<Sum>k\<in>set (pc_order x). if canon (?v k) = z then ?n k else 0)"
      unfolding c using assms(1) by (intro count_replicates) (simp add: counts_of_def)
    also have "\<dots> = a * count (canons X) z - b * count (canons Y) z"
    proof (cases "z \<in># canons X")
      case True
      then obtain r where r: "r \<in> set X" "canon r = z" by (auto simp: canons_def)
      have eq: "canon (?v k) = z \<longleftrightarrow> k = rowKey r" if "k \<in> set (pc_order x)" for k
        using rowKey_iff [of "?v k" r] kd v [OF that] r by auto
      have mem: "rowKey r \<in> set (pc_order x)" using assms(1) r(1) by (auto simp: counts_of_def)
      have "(\<Sum>k\<in>set (pc_order x). if canon (?v k) = z then ?n k else 0) = (\<Sum>k\<in>set (pc_order x). if k = rowKey r then ?n k else 0)"
        by (rule sum.cong) (simp_all add: eq)
      also have "\<dots> = ?n (rowKey r)" using mem by simp
      finally show ?thesis
        using keyCount_canon [OF assms(2) kd [OF r(1)]] keyCount_canon [OF assms(3) kd [OF r(1)]] r(2) by simp
    next
      case False
      then have "canon (?v k) \<noteq> z" if "k \<in> set (pc_order x)" for k using v [OF that] by (auto simp: canons_def)
      with False show ?thesis by (simp add: not_in_iff)
    qed
    finally show "count (canons (surplus x y)) z = count (repeat_mset a (canons X) - repeat_mset b (canons Y)) z" by simp
  qed
  show "list_all values_ok (surplus x y)"
    using v kd by (auto simp: surplus_def list_all_iff keyed_def)
qed

lemma diffMultiplicity_computes:
  assumes "list_all keyed B" "list_all keyed A" "nat b * length B < 2 ^ 64" "nat a * length A < 2 ^ 64"
  shows "\<exists>I D. computes (diffProjectedRowsWithMultiplicity B b A a) (I, D) \<and> list_all values_ok I \<and> list_all values_ok D \<and>
    canons I = repeat_mset (nat a) (canons A) - repeat_mset (nat b) (canons B) \<and>
    canons D = repeat_mset (nat b) (canons B) - repeat_mset (nat a) (canons A)"
proof -
  let ?B = "if b \<le> 0 then [] else B" and ?A = "if a \<le> 0 then [] else A"
  obtain x y where x: "countProjectedRowsWithMultiplier B b = Some x" "counts_of (of_nat (nat b)) ?B x"
    and y: "countProjectedRowsWithMultiplier A a = Some y" "counts_of (of_nat (nat a)) ?A y"
    using countProjected_ok [OF assms(1), of b] countProjected_ok [OF assms(2), of a] by blast
  have u: "unat (countAt (pc_counts pc) k) = n * keyCount rows k"
    if "counts_of (of_nat n) rows pc" "n * length rows < 2 ^ 64" for n rows pc k
  proof -
    have "n * keyCount rows k \<le> n * length rows" using keyCount_le by simp
    then have "n * keyCount rows k < 2 ^ 64" using that(2) by (rule le_less_trans)
    then have "unat (of_nat (n * keyCount rows k) :: u64) = n * keyCount rows k" unfolding unat_of_nat by simp
    moreover have "countAt (pc_counts pc) k = of_nat (n * keyCount rows k)" using that(1) by (simp add: counts_of_def mult.commute)
    ultimately show ?thesis by (simp only:)
  qed
  have nb: "nat b * length ?B < 2 ^ 64" "nat a * length ?A < 2 ^ 64" using assms(3,4) by auto
  have ok: "list_all keyed ?B" "list_all keyed ?A" using assms(1,2) by auto
  have z: "repeat_mset (nat b) (canons ?B) = repeat_mset (nat b) (canons B)" "repeat_mset (nat a) (canons ?A) = repeat_mset (nat a) (canons A)"
    by auto
  note ins = count_surplus [OF y(2) ok(2,1) u [OF y(2) nb(2)] u [OF x(2) nb(1)], unfolded z]
  note del = count_surplus [OF x(2) ok u [OF x(2) nb(1)] u [OF y(2) nb(2)], unfolded z]
  have "computes (diffProjectedRowsWithMultiplicity B b A a) (surplus y x, surplus x y)"
    unfolding diffProjectedRowsWithMultiplicity_def
    by (rule computes_bind [OF computes_panicQ [OF x(1)]] computes_bind [OF computes_panicQ [OF y(1)]]
        computes_bind [OF diffLoop_computes] computes_ret)+
  with ins del show ?thesis by blast
qed

section \<open>Rows before a commit\<close>

lemma tableRowsAfter_computes: "computes (tableRowsAfter dv t) (rowsAfter dv t)"
proof -
  have view: "computes (tableRowsFromView cs t) (map snd (viewTableScan cs t))" for cs
  proof -
    have "computes (tableRowsFromView cs t) ([] @ concat (map (\<lambda>p. [snd p]) (viewTableScan cs t)))"
      unfolding tableRowsFromView_def case_prod_unfold
      by (rule computes_collect) (auto intro: computes_bind computes_ctxErr computes_work computes_ret)
    moreover have "concat (map (\<lambda>p. [snd p]) xs) = map snd xs" for xs :: "(rowID \<times> productValue) list" by (induction xs) simp_all
    ultimately show ?thesis by simp
  qed
  have "computes (case dv_committed dv of None \<Rightarrow> ret [] | Some cs \<Rightarrow> tableRowsFromView cs t) (map snd (CommittedScan dv t))"
    by (cases "dv_committed dv") (simp_all add: CommittedScan_def computes_ret view)
  then show ?thesis unfolding tableRowsAfter_def rowsAfter_def
    by (rule computes_bind) (simp add: computes_ret)
qed

lemma keyed_canon: "values_ok r \<Longrightarrow> keyed s \<Longrightarrow> canon r = canon s \<Longrightarrow> keyed r"
  using same_row_length [OF same_rowI, of r s] by (simp add: keyed_def)

lemma keyed_canons:
  assumes "list_all values_ok B" "list_all keyed X" "set_mset (canons B) \<subseteq> set_mset (canons X)"
  shows "list_all keyed B"
proof -
  have "keyed r" if "r \<in> set B" for r
  proof -
    have "canon r \<in># canons B" using that by (simp add: canons_def)
    then have "canon r \<in># canons X" using assms(3) by blast
    then obtain s where s: "s \<in> set X" "canon r = canon s" by (auto simp: canons_def)
    from s(1) assms(2) have "keyed s" by (simp add: list_all_iff)
    from keyed_canon [OF _ this s(2)] that assms(1) show ?thesis by (simp add: list_all_iff)
  qed
  then show ?thesis by (simp add: list_all_iff)
qed

lemma keyed_values_ok: "list_all keyed X \<Longrightarrow> list_all values_ok X"
  by (simp add: list_all_iff keyed_def)

text \<open>The rows of a table that a view knows all have a key.\<close>

definition table_keyed :: "deltaView \<Rightarrow> tableID \<Rightarrow> bool" where
  "table_keyed dv t \<longleftrightarrow> list_all keyed (rowsAfter dv t) \<and> list_all keyed (InsertedRows dv t) \<and> list_all keyed (DeletedRows dv t)"

lemma subtract_keyed:
  assumes "list_all keyed A" "list_all keyed I"
  shows "\<exists>K. subtractProjectedRowsByKey A I = Some K \<and> list_all keyed K \<and> canons K = canons A - canons I"
proof -
  obtain K where K: "subtractProjectedRowsByKey A I = Some K" "list_all values_ok K" "canons K = canons A - canons I"
    using subtract_bag [OF keyed_values_ok [OF assms(1)] keyed_values_ok [OF assms(2)]] by blast
  have "set_mset (canons K) \<subseteq> set_mset (canons A)" unfolding K(3) by (auto dest: in_diffD)
  from keyed_canons [OF K(2) assms(1) this] K show ?thesis by blast
qed

lemma projectedRowsBefore_computes:
  assumes "table_keyed dv t"
  shows "\<exists>B. computes (projectedRowsBefore dv t) B \<and> list_all keyed B \<and>
    canons B = canons (rowsAfter dv t) - canons (InsertedRows dv t) + canons (DeletedRows dv t)"
proof -
  obtain K where K: "subtractProjectedRowsByKey (rowsAfter dv t) (InsertedRows dv t) = Some K" "list_all keyed K"
    "canons K = canons (rowsAfter dv t) - canons (InsertedRows dv t)"
    using subtract_keyed assms by (auto simp: table_keyed_def)
  have "computes (projectedRowsBefore dv t) (K @ DeletedRows dv t)"
    unfolding projectedRowsBefore_def
    by (rule computes_bind [OF tableRowsAfter_computes], rule computes_bind [OF computes_panicQ [OF K(1)]], rule computes_ret)
  with K(2,3) assms show ?thesis by (intro exI [of _ "K @ DeletedRows dv t"]) (simp add: table_keyed_def)
qed

lemma rowCountAfter_eq:
  "rowCountAfter dv t = int (length (rowsAfter dv t))"
  by (auto simp: rowCountAfter_def rowsAfter_def CommittedScan_def viewRowCount_def viewTableScan_def RowCount_def tableScan_def
      split: option.split)

lemma size_canons: "size (canons X) = length X"
  by (simp add: canons_def)

lemma rowCountBefore_eq:
  assumes "balanced B (InsertedRows dv t) (rowsAfter dv t) (DeletedRows dv t)"
  shows "rowCountBefore dv t = int (length B)"
proof -
  from assms have "size (canons B + canons (InsertedRows dv t)) = size (canons (rowsAfter dv t) + canons (DeletedRows dv t))"
    by (simp add: balanced_def)
  then have "length B + length (InsertedRows dv t) = length (rowsAfter dv t) + length (DeletedRows dv t)"
    by (simp add: size_canons)
  then show ?thesis by (simp add: rowCountBefore_def rowCountAfter_eq)
qed

text \<open>A change whose inserted rows are there afterwards: what is left without them was there before.\<close>

definition applied :: "productValue list \<Rightarrow> deltaView \<Rightarrow> tableID \<Rightarrow> bool" where
  "applied B dv t \<longleftrightarrow> table_keyed dv t \<and> balanced B (InsertedRows dv t) (rowsAfter dv t) (DeletedRows dv t) \<and>
     canons (InsertedRows dv t) \<subseteq># canons (rowsAfter dv t)"

lemma applied_before:
  assumes "applied B dv t"
  shows "canons B = canons (rowsAfter dv t) - canons (InsertedRows dv t) + canons (DeletedRows dv t)"
proof -
  from assms have "canons B + canons (InsertedRows dv t) = canons (rowsAfter dv t) + canons (DeletedRows dv t)"
    "canons (InsertedRows dv t) \<subseteq># canons (rowsAfter dv t)" by (simp_all add: applied_def balanced_def)
  then show ?thesis by (metis add_diff_cancel_right' subset_mset.add_diff_assoc2)
qed

lemma applied_keyed: "applied B dv t \<Longrightarrow> list_all keyed B"
proof -
  assume a: "applied B dv t"
  have "set_mset (canons B) \<subseteq> set_mset (canons (rowsAfter dv t @ DeletedRows dv t))"
    unfolding applied_before [OF a] by (auto dest: in_diffD)
  from keyed_canons [OF _ _ this] a show ?thesis by (simp add: applied_def balanced_def table_keyed_def)
qed

lemma beforeRows_computes:
  assumes "applied B dv t"
  shows "\<exists>B'. computes (projectedRowsBefore dv t) B' \<and> list_all keyed B' \<and> canons B' = canons B"
  using projectedRowsBefore_computes [of dv t] assms applied_before [OF assms] by (simp add: applied_def)

end
