(* ===== verification/CrossDelta.thy ===== *)
theory CrossDelta
  imports RowDiffs
begin

text \<open>
  Delta evaluation of cross joins (\<^verbatim>\<open>src/subscription/eval.go\<close> from line 728). Without a filter every
  projected row appears once for each row of the other table, so the difference is one of
  multiplicities; with a filter on two tables it is built from fragments, and on one table from
  the products before and after. Shown here: each of the three is the change of the product.
\<close>

definition crossJoinProjectedRows :: "predicate crossJoinPred \<Rightarrow> productValue list \<Rightarrow> productValue list \<Rightarrow> productValue list query" where
  "crossJoinProjectedRows p leftRows rightRows =
     forQ (\<lambda>leftRow rows.
       bindQ ctxErr (\<lambda>_. bindQ chargeSubscriptionWork (\<lambda>_.
       forQ (\<lambda>rightRow rows.
         bindQ ctxErr (\<lambda>_. bindQ chargeSubscriptionWork (\<lambda>_.
         if \<not> MatchJoinPair (cj_Filter p) (cj_Left p) (cj_LeftAlias p) leftRow (cj_Right p) (cj_RightAlias p) rightRow then ret rows
         else
           let projected = (if cj_ProjectRight p then rightRow else leftRow) in
           bindQ (chargeDeltaRow projected) (\<lambda>_. ret (rows @ [projected])))))
         rightRows rows)))
     leftRows []"

definition crossJoinOtherTable :: "predicate crossJoinPred \<Rightarrow> tableID" where
  "crossJoinOtherTable p = (if crossProjectedTable p = cj_Left p then cj_Right p else cj_Left p)"

text \<open>A fragment that is only built when its changed rows are not empty.\<close>

definition fragmentIf :: "productValue list \<Rightarrow> productValue list query \<Rightarrow> productValue list list \<Rightarrow> productValue list list query" where
  "fragmentIf changed fragment fragments =
     (if length changed > 0 then bindQ fragment (\<lambda>rows. ret (fragments @ [rows])) else ret fragments)"

definition evalFilteredCrossJoinDelta :: "deltaView \<Rightarrow> predicate crossJoinPred \<Rightarrow> (productValue list \<times> productValue list) query" where
  "evalFilteredCrossJoinDelta dv p =
     (let leftInserts = InsertedRows dv (cj_Left p); rightInserts = InsertedRows dv (cj_Right p);
          leftDeletes = DeletedRows dv (cj_Left p); rightDeletes = DeletedRows dv (cj_Right p) in
      bindQ (fragmentIf leftInserts
        (bindQ (tableRowsAfter dv (cj_Right p)) (\<lambda>rightAfter. crossJoinProjectedRows p leftInserts rightAfter)) []) (\<lambda>insertFragments.
      bindQ (fragmentIf rightInserts
        (bindQ (tableRowsAfter dv (cj_Left p)) (\<lambda>leftAfter.
         bindQ (panicQ (subtractProjectedRowsByKey leftAfter leftInserts)) (\<lambda>leftAfterWithoutInserts.
         crossJoinProjectedRows p leftAfterWithoutInserts rightInserts))) insertFragments) (\<lambda>insertFragments.
      bindQ (fragmentIf leftDeletes
        (bindQ (projectedRowsBefore dv (cj_Right p)) (\<lambda>rightBefore. crossJoinProjectedRows p leftDeletes rightBefore)) []) (\<lambda>deleteFragments.
      bindQ (fragmentIf rightDeletes
        (bindQ (projectedRowsBefore dv (cj_Left p)) (\<lambda>leftBefore.
         bindQ (panicQ (subtractProjectedRowsByKey leftBefore leftDeletes)) (\<lambda>leftBeforeWithoutDeletes.
         crossJoinProjectedRows p leftBeforeWithoutDeletes rightDeletes))) deleteFragments) (\<lambda>deleteFragments.
      reconcileJoinDelta insertFragments deleteFragments)))))"

definition evalCrossJoinDelta :: "deltaView \<Rightarrow> predicate crossJoinPred \<Rightarrow> (productValue list \<times> productValue list) query" where
  "evalCrossJoinDelta dv p =
     (if cj_Filter p \<noteq> None then
        if cj_Left p \<noteq> cj_Right p then evalFilteredCrossJoinDelta dv p
        else
          bindQ (projectedRowsBefore dv (cj_Left p)) (\<lambda>leftBefore.
          bindQ (crossJoinProjectedRows p leftBefore leftBefore) (\<lambda>beforeRows.
          bindQ (tableRowsAfter dv (cj_Left p)) (\<lambda>leftAfter.
          bindQ (crossJoinProjectedRows p leftAfter leftAfter) (\<lambda>afterRows.
          diffProjectedRowBagsWithBudget beforeRows afterRows))))
      else
        bindQ (tableRowsAfter dv (crossProjectedTable p)) (\<lambda>afterProjectedRows.
        bindQ (projectedRowsBefore dv (crossProjectedTable p)) (\<lambda>beforeProjectedRows.
        diffProjectedRowsWithMultiplicity beforeProjectedRows (rowCountBefore dv (crossJoinOtherTable p))
          afterProjectedRows (rowCountAfter dv (crossJoinOtherTable p)))))"

section \<open>The product as a pairing of rows\<close>

definition crossPair :: "predicate crossJoinPred \<Rightarrow> productValue \<Rightarrow> productValue \<Rightarrow> productValue list" where
  "crossPair p l r =
     (if MatchJoinPair (cj_Filter p) (cj_Left p) (cj_LeftAlias p) l (cj_Right p) (cj_RightAlias p) r
      then [if cj_ProjectRight p then r else l] else [])"

definition crossRows :: "predicate crossJoinPred \<Rightarrow> productValue list \<Rightarrow> productValue list \<Rightarrow> productValue list" where
  "crossRows p L R = concat (map (\<lambda>l. concat (map (crossPair p l) R)) L)"

definition crossOut :: "predicate crossJoinPred \<Rightarrow> productValue \<Rightarrow> productValue \<Rightarrow> bytes multiset" where
  "crossOut p l r = canons (crossPair p l r)"

interpretation cross_bag: pair_bag "crossOut p" for p
proof
  fix l l' r r' assume s: "same_row l l'" "same_row r r'"
  then show "crossOut p l r = crossOut p l' r'"
    using MatchJoinPair_same [OF s] same_row_canon [OF s(1)] same_row_canon [OF s(2)] by (simp add: crossOut_def crossPair_def)
qed

lemma crossRows_computes: "computes (crossJoinProjectedRows p L R) (crossRows p L R)"
proof -
  have "computes (crossJoinProjectedRows p L R) ([] @ concat (map (\<lambda>l. concat (map (crossPair p l) R)) L))"
    unfolding crossJoinProjectedRows_def
    by (rule computes_collect, rule computes_bind [OF computes_ctxErr], rule computes_bind [OF computes_work],
        rule computes_collect, rule computes_bind [OF computes_ctxErr], rule computes_bind [OF computes_work])
      (auto simp: crossPair_def Let_def intro: computes_bind computes_delta computes_ret)
  then show ?thesis by (simp add: crossRows_def)
qed

lemma canons_crossRows: "canons (crossRows p L R) = bagPairs (crossOut p) L R"
  by (simp add: crossRows_def bagPairs_def canons_concat crossOut_def)

lemma crossRows_keyed: "list_all keyed L \<Longrightarrow> list_all keyed R \<Longrightarrow> list_all keyed (crossRows p L R)"
  by (auto simp: crossRows_def crossPair_def list_all_iff split: if_splits)

lemma length_crossRows: "length (crossRows p L R) \<le> length L * length R"
proof (induction L)
  case (Cons l L)
  have "length (concat (map (crossPair p l) R)) \<le> length R" by (induction R) (auto simp: crossPair_def)
  with Cons show ?case by (simp add: crossRows_def)
qed (simp add: crossRows_def)

section \<open>The delta of a cross join\<close>

context pair_bag
begin

text \<open>The fragments over the rows \<open>K1\<close> of the left relation that the change keeps.\<close>

lemma kept_identity:
  assumes "balanced B1 I1 A1 D1" "balanced B2 I2 A2 D2" "list_all values_ok K1"
    and "canons A1 = canons K1 + canons I1" "canons B1 = canons K1 + canons D1"
  shows "bagPairs f B1 B2 + (bagPairs f I1 A2 + bagPairs f K1 I2) = bagPairs f A1 A2 + (bagPairs f D1 B2 + bagPairs f K1 D2)"
proof -
  have ok: "list_all values_ok B1" "list_all values_ok I1" "list_all values_ok A1" "list_all values_ok D1" "list_all values_ok A2" "list_all values_ok B2"
    using assms(1,2) by (simp_all add: balanced_def)
  have "bagPairs f A1 A2 = bagPairs f (K1 @ I1) A2" by (rule left_cong) (use ok assms(3,4) in auto)
  moreover have "bagPairs f B1 B2 = bagPairs f (K1 @ D1) B2" by (rule left_cong) (use ok assms(3,5) in auto)
  moreover have "bagPairs f K1 B2 + bagPairs f K1 I2 = bagPairs f K1 A2 + bagPairs f K1 D2" by (rule right_balance [OF assms(2,3)])
  ultimately show ?thesis by (simp add: bagPairs_append ac_simps)
qed

end

lemma fragmentIf_computes:
  assumes "changed \<noteq> [] \<Longrightarrow> computes fragment rows" "changed = [] \<Longrightarrow> rows = []"
  shows "\<exists>out. computes (fragmentIf changed fragment fragments) out \<and> concat out = concat fragments @ rows"
proof (cases "changed = []")
  case True
  then show ?thesis using assms(2) by (intro exI [of _ fragments]) (simp add: fragmentIf_def computes_ret)
next
  case False
  have "computes (bindQ fragment (\<lambda>rows. ret (fragments @ [rows]))) (fragments @ [rows])"
    by (rule computes_bind [OF assms(1) [OF False] computes_ret])
  with False show ?thesis by (intro exI [of _ "fragments @ [rows]"]) (simp add: fragmentIf_def)
qed

lemma crossRows_Nil [simp]: "crossRows p [] R = []" "crossRows p L [] = []"
  by (induction L) (simp_all add: crossRows_def)

lemma filteredCross_computes:
  assumes "applied B1 dv (cj_Left p)" "applied B2 dv (cj_Right p)"
  shows "\<exists>I D. computes (evalFilteredCrossJoinDelta dv p) (I, D) \<and> list_all values_ok I \<and> list_all values_ok D \<and>
    (\<exists>X Y. canons I = X - Y \<and> canons D = Y - X \<and>
      bagPairs (crossOut p) B1 B2 + X = bagPairs (crossOut p) (rowsAfter dv (cj_Left p)) (rowsAfter dv (cj_Right p)) + Y)"
proof -
  let ?L = "cj_Left p" and ?R = "cj_Right p"
  let ?A1 = "rowsAfter dv ?L" and ?A2 = "rowsAfter dv ?R" and ?I1 = "InsertedRows dv ?L" and ?I2 = "InsertedRows dv ?R"
    and ?D1 = "DeletedRows dv ?L" and ?D2 = "DeletedRows dv ?R"
  note a1 = assms(1) [unfolded applied_def table_keyed_def] and a2 = assms(2) [unfolded applied_def table_keyed_def]
  obtain K where K: "subtractProjectedRowsByKey ?A1 ?I1 = Some K" "list_all keyed K" "canons K = canons ?A1 - canons ?I1"
    using subtract_keyed a1 by blast
  obtain C2 where C2: "computes (projectedRowsBefore dv ?R) C2" "list_all keyed C2" "canons C2 = canons B2"
    using beforeRows_computes [OF assms(2)] by blast
  obtain C1 where C1: "computes (projectedRowsBefore dv ?L) C1" "list_all keyed C1" "canons C1 = canons B1"
    using beforeRows_computes [OF assms(1)] by blast
  obtain K' where K': "subtractProjectedRowsByKey C1 ?D1 = Some K'" "list_all keyed K'" "canons K' = canons C1 - canons ?D1"
    using subtract_keyed C1(2) a1 by blast
  have kk: "canons K' = canons K" using K'(3) K(3) C1(3) applied_before [OF assms(1)] by simp
  have split: "canons ?A1 = canons K + canons ?I1" "canons B1 = canons K + canons ?D1"
    using a1 K(3) applied_before [OF assms(1)] by (simp_all add: subset_mset.add_diff_assoc2)
  have f: "computes (bindQ (tableRowsAfter dv ?R) (\<lambda>rightAfter. crossJoinProjectedRows p ?I1 rightAfter)) (crossRows p ?I1 ?A2)"
    "computes (bindQ (tableRowsAfter dv ?L) (\<lambda>leftAfter.
       bindQ (panicQ (subtractProjectedRowsByKey leftAfter ?I1)) (\<lambda>kept. crossJoinProjectedRows p kept ?I2))) (crossRows p K ?I2)"
    "computes (bindQ (projectedRowsBefore dv ?R) (\<lambda>rightBefore. crossJoinProjectedRows p ?D1 rightBefore)) (crossRows p ?D1 C2)"
    "computes (bindQ (projectedRowsBefore dv ?L) (\<lambda>leftBefore.
       bindQ (panicQ (subtractProjectedRowsByKey leftBefore ?D1)) (\<lambda>kept. crossJoinProjectedRows p kept ?D2))) (crossRows p K' ?D2)"
    by (rule computes_bind [OF tableRowsAfter_computes] computes_bind [OF C1(1)] computes_bind [OF C2(1)]
        computes_bind [OF computes_panicQ [OF K(1)]] computes_bind [OF computes_panicQ [OF K'(1)]] crossRows_computes)+
  obtain i1 where i1: "computes (fragmentIf ?I1 (bindQ (tableRowsAfter dv ?R) (\<lambda>rightAfter. crossJoinProjectedRows p ?I1 rightAfter)) []) i1"
    "concat i1 = crossRows p ?I1 ?A2"
    using fragmentIf_computes [OF f(1), of ?I1 "[]"] by auto
  obtain i2 where i2: "computes (fragmentIf ?I2 (bindQ (tableRowsAfter dv ?L) (\<lambda>leftAfter.
       bindQ (panicQ (subtractProjectedRowsByKey leftAfter ?I1)) (\<lambda>kept. crossJoinProjectedRows p kept ?I2))) i1) i2"
    "concat i2 = crossRows p ?I1 ?A2 @ crossRows p K ?I2"
    using fragmentIf_computes [OF f(2), of ?I2 i1] i1(2) by auto
  obtain d1 where d1: "computes (fragmentIf ?D1 (bindQ (projectedRowsBefore dv ?R) (\<lambda>rightBefore. crossJoinProjectedRows p ?D1 rightBefore)) []) d1"
    "concat d1 = crossRows p ?D1 C2"
    using fragmentIf_computes [OF f(3), of ?D1 "[]"] by auto
  obtain d2 where d2: "computes (fragmentIf ?D2 (bindQ (projectedRowsBefore dv ?L) (\<lambda>leftBefore.
       bindQ (panicQ (subtractProjectedRowsByKey leftBefore ?D1)) (\<lambda>kept. crossJoinProjectedRows p kept ?D2))) d1) d2"
    "concat d2 = crossRows p ?D1 C2 @ crossRows p K' ?D2"
    using fragmentIf_computes [OF f(4), of ?D2 d1] d1(2) by auto
  have ok: "list_all keyed (concat i2)" "list_all keyed (concat d2)"
    unfolding i2(2) d2(2) using a1 a2 K(2) K'(2) C2(2) by (simp_all add: crossRows_keyed)
  obtain I D where r: "computes (reconcileJoinDelta i2 d2) (I, D)" "list_all values_ok I" "list_all values_ok D"
    "canons I = canons (concat i2) - canons (concat d2)" "canons D = canons (concat d2) - canons (concat i2)"
    using reconcile_computes [OF keyed_values_ok [OF ok(1)] keyed_values_ok [OF ok(2)]] by blast
  have v: "list_all values_ok X" if "list_all keyed X" for X by (rule keyed_values_ok [OF that])
  have "bagPairs (crossOut p) ?D1 C2 = bagPairs (crossOut p) ?D1 B2"
    by (rule cross_bag.right_cong) (use a1 a2 C2 v applied_keyed [OF assms(2)] in auto)
  moreover have "bagPairs (crossOut p) K' ?D2 = bagPairs (crossOut p) K ?D2"
    by (rule cross_bag.left_cong) (use a2 K(2) K'(2) v kk in auto)
  ultimately have "bagPairs (crossOut p) B1 B2 + canons (concat i2) = bagPairs (crossOut p) ?A1 ?A2 + canons (concat d2)"
    using cross_bag.kept_identity [of B1 ?I1 ?A1 ?D1 B2 ?I2 ?A2 ?D2 K p] a1 a2 v [OF K(2)] split
    unfolding i2(2) d2(2) by (simp add: canons_crossRows)
  moreover have "computes (evalFilteredCrossJoinDelta dv p) (I, D)"
    unfolding evalFilteredCrossJoinDelta_def Let_def
    by (rule computes_bind [OF i1(1)], rule computes_bind [OF i2(1)], rule computes_bind [OF d1(1)], rule computes_bind [OF d2(1)]) (rule r(1))
  ultimately show ?thesis using r by blast
qed

lemma unfiltered_bag:
  assumes "cj_Filter p = None"
  shows "bagPairs (crossOut p) L R =
    (if cj_ProjectRight p then repeat_mset (length L) (canons R) else repeat_mset (length R) (canons L))"
proof -
  have out: "crossOut p l r = {#canon (if cj_ProjectRight p then r else l)#}" for l r
    using assms by (simp add: crossOut_def crossPair_def MatchJoinPair_def)
  have k: "(\<Sum>x\<in>#mset X. M) = repeat_mset (length X) M" for X :: "productValue list" and M :: "bytes multiset"
    by (induction X) simp_all
  show ?thesis
  proof (cases "cj_ProjectRight p")
    case True
    then show ?thesis unfolding bagPairs_def out by (simp add: canons_def k)
  next
    case False
    then have "bagPairs (crossOut p) L R = (\<Sum>l\<in>#mset L. repeat_mset (length R) {#canon l#})" unfolding bagPairs_def out by (simp only: if_False k)
    also have "\<dots> = repeat_mset (length R) (canons L)" by (induction L) (simp_all add: repeat_mset_distrib_add_mset)
    finally show ?thesis using False by simp
  qed
qed

lemma countedCross_exact:
  assumes "cj_Filter p = None" "applied BP dv (crossProjectedTable p)" "applied BO dv (crossJoinOtherTable p)"
    and "length BO * length BP < 2 ^ 64"
    and "length (rowsAfter dv (crossJoinOtherTable p)) * length (rowsAfter dv (crossProjectedTable p)) < 2 ^ 64"
  shows "exact_delta (evalCrossJoinDelta dv p) (repeat_mset (length BO) (canons BP))
    (repeat_mset (length (rowsAfter dv (crossJoinOtherTable p))) (canons (rowsAfter dv (crossProjectedTable p))))"
proof -
  let ?P = "crossProjectedTable p" and ?O = "crossJoinOtherTable p"
  obtain C where C: "computes (projectedRowsBefore dv ?P) C" "list_all keyed C" "canons C = canons BP"
    using beforeRows_computes [OF assms(2)] by blast
  have len: "length C = length BP" using C(3) size_canons by metis
  have n: "rowCountBefore dv ?O = int (length BO)" "rowCountAfter dv ?O = int (length (rowsAfter dv ?O))"
    using rowCountBefore_eq rowCountAfter_eq assms(3) by (simp_all add: applied_def)
  have A: "list_all keyed (rowsAfter dv ?P)" using assms(2) by (simp add: applied_def table_keyed_def)
  obtain I D where d: "computes (diffProjectedRowsWithMultiplicity C (int (length BO)) (rowsAfter dv ?P) (int (length (rowsAfter dv ?O)))) (I, D)"
    "list_all values_ok I" "list_all values_ok D"
    "canons I = repeat_mset (length (rowsAfter dv ?O)) (canons (rowsAfter dv ?P)) - repeat_mset (length BO) (canons BP)"
    "canons D = repeat_mset (length BO) (canons BP) - repeat_mset (length (rowsAfter dv ?O)) (canons (rowsAfter dv ?P))"
    using diffMultiplicity_computes [OF C(2) A, of "int (length BO)" "int (length (rowsAfter dv ?O))"] assms(4,5) len C(3) by auto
  have "computes (evalCrossJoinDelta dv p) (I, D)"
    unfolding evalCrossJoinDelta_def n using assms(1) d(1)
    by (auto intro!: computes_bind [OF C(1)] computes_bind [OF tableRowsAfter_computes])
  from exact_deltaI [OF this d(2-5)] show ?thesis by (simp add: ac_simps)
qed

lemma crossDelta_exact:
  assumes "applied B1 dv (cj_Left p)" "applied B2 dv (cj_Right p)"
    and "length B1 * length B2 < 2 ^ 64" "length (rowsAfter dv (cj_Left p)) * length (rowsAfter dv (cj_Right p)) < 2 ^ 64"
  shows "exact_delta (evalCrossJoinDelta dv p) (bagPairs (crossOut p) B1 B2)
    (bagPairs (crossOut p) (rowsAfter dv (cj_Left p)) (rowsAfter dv (cj_Right p)))"
proof -
  let ?A1 = "rowsAfter dv (cj_Left p)" and ?A2 = "rowsAfter dv (cj_Right p)"
  note a1 = assms(1) [unfolded applied_def table_keyed_def] and a2 = assms(2) [unfolded applied_def table_keyed_def]
  consider (fragments) "cj_Filter p \<noteq> None" "cj_Left p \<noteq> cj_Right p" | (one) "cj_Filter p \<noteq> None" "cj_Left p = cj_Right p"
    | (counted) "cj_Filter p = None" by blast
  then show ?thesis
  proof cases
    case fragments
    obtain I D X Y where "computes (evalFilteredCrossJoinDelta dv p) (I, D)" "list_all values_ok I" "list_all values_ok D"
      "canons I = X - Y" "canons D = Y - X" "bagPairs (crossOut p) B1 B2 + X = bagPairs (crossOut p) ?A1 ?A2 + Y"
      using filteredCross_computes [OF assms(1,2)] by blast
    then have "exact_delta (evalFilteredCrossJoinDelta dv p) (bagPairs (crossOut p) B1 B2) (bagPairs (crossOut p) ?A1 ?A2)"
      by (rule exact_deltaI)
    with fragments show ?thesis by (simp add: evalCrossJoinDelta_def)
  next
    case one
    obtain C where C: "computes (projectedRowsBefore dv (cj_Left p)) C" "list_all keyed C" "canons C = canons B1"
      using beforeRows_computes [OF assms(1)] by blast
    have b: "canons B2 = canons B1" using applied_before [OF assms(1)] applied_before [OF assms(2)] one(2) by simp
    have len: "length C = length B1" "length B2 = length B1" using C(3) b size_canons by metis+
    have "nat 1 * length (crossRows p C C) < 2 ^ 64" "nat 1 * length (crossRows p ?A1 ?A1) < 2 ^ 64"
      using length_crossRows [of p C C] length_crossRows [of p ?A1 ?A1] assms(3,4) len one(2) by simp_all
    then obtain I D where d: "computes (diffProjectedRowsWithMultiplicity (crossRows p C C) 1 (crossRows p ?A1 ?A1) 1) (I, D)"
      "list_all values_ok I" "list_all values_ok D" "canons I = canons (crossRows p ?A1 ?A1) - canons (crossRows p C C)"
      "canons D = canons (crossRows p C C) - canons (crossRows p ?A1 ?A1)"
      using diffMultiplicity_computes [OF crossRows_keyed [OF C(2) C(2)] crossRows_keyed, of ?A1 ?A1 1 p 1 p] a1 by auto
    have "bagPairs (crossOut p) C C = bagPairs (crossOut p) B1 C"
      by (rule cross_bag.left_cong) (use C applied_keyed [OF assms(1)] keyed_values_ok in auto)
    also have "\<dots> = bagPairs (crossOut p) B1 B2"
      by (rule cross_bag.right_cong) (use C b applied_keyed [OF assms(1)] applied_keyed [OF assms(2)] keyed_values_ok in auto)
    finally have "canons (crossRows p C C) = bagPairs (crossOut p) B1 B2" by (simp add: canons_crossRows)
    moreover have "canons (crossRows p ?A1 ?A1) = bagPairs (crossOut p) ?A1 ?A2" using one(2) by (simp add: canons_crossRows)
    moreover have "evalCrossJoinDelta dv p =
        bindQ (projectedRowsBefore dv (cj_Left p)) (\<lambda>leftBefore.
        bindQ (crossJoinProjectedRows p leftBefore leftBefore) (\<lambda>beforeRows.
        bindQ (tableRowsAfter dv (cj_Left p)) (\<lambda>leftAfter.
        bindQ (crossJoinProjectedRows p leftAfter leftAfter) (\<lambda>afterRows.
        diffProjectedRowsWithMultiplicity beforeRows 1 afterRows 1))))"
      using one by (simp add: evalCrossJoinDelta_def diffProjectedRowBagsWithBudget_def [abs_def])
    then have "computes (evalCrossJoinDelta dv p) (I, D)"
      by (simp only:) (rule computes_bind [OF C(1)] computes_bind [OF crossRows_computes] computes_bind [OF tableRowsAfter_computes] d(1))+
    ultimately show ?thesis using d by (intro exact_deltaI [of _ I D "canons (crossRows p ?A1 ?A1)" "canons (crossRows p C C)"]) (simp_all add: ac_simps)
  next
    case counted
    let ?P = "crossProjectedTable p" and ?O = "crossJoinOtherTable p"
    define BP where "BP = (if cj_ProjectRight p then B2 else B1)"
    define BO where "BO = (if cj_ProjectRight p then B1 else B2)"
    have P: "applied BP dv ?P" and O: "applied BO dv ?O"
      using assms(1,2) applied_before by (auto simp: BP_def BO_def crossProjectedTable_def crossJoinOtherTable_def)
    have bags: "bagPairs (crossOut p) B1 B2 = repeat_mset (length BO) (canons BP)"
      "bagPairs (crossOut p) ?A1 ?A2 = repeat_mset (length (rowsAfter dv ?O)) (canons (rowsAfter dv ?P))"
      unfolding unfiltered_bag [OF counted] by (auto simp: BP_def BO_def crossProjectedTable_def crossJoinOtherTable_def)
    have len: "length BO * length BP < 2 ^ 64" "length (rowsAfter dv ?O) * length (rowsAfter dv ?P) < 2 ^ 64"
      using assms(3,4) by (auto simp: BP_def BO_def crossProjectedTable_def crossJoinOtherTable_def mult.commute)
    from countedCross_exact [OF counted P O len] show ?thesis unfolding bags .
  qed
qed

end
