(* ===== verification/MultiJoinDelta.thy ===== *)
theory MultiJoinDelta
  imports CrossDelta
begin

text \<open>
  Delta evaluation of joins of many relations (\<^verbatim>\<open>src/subscription/multi_join.go\<close>). A walk extends a
  tuple relation by relation; the entries beyond the depth reached are not read, so the tuple is
  modelled as its prefix. Shown here: the walk finds exactly the matching tuples; with a
  projection the delta is the change of the join; without one the fragments are that change when a
  commit only inserts or only deletes, and are not in general.
\<close>

text \<open>The schema of a projected column names the columns of an update and takes no part in the evaluation.\<close>

record projectionColumn =
  pj_table :: tableID
  pj_column :: colID
  pj_alias :: byte

definition multiJoinConditionColumnValue :: "productValue list \<Rightarrow> multiJoinColumnRef \<Rightarrow> go_value option" where
  "multiJoinConditionColumnValue tuple ref =
     (if mc_relation ref < 0 \<or> mc_relation ref \<ge> int (length tuple) then None
      else rowValue (tuple ! nat (mc_relation ref)) (mc_column ref))"

definition multiJoinConditionValuesEqual :: "productValue list \<Rightarrow> multiJoinColumnRef \<Rightarrow> multiJoinColumnRef \<Rightarrow> bool" where
  "multiJoinConditionValuesEqual tuple left right =
     (case (multiJoinConditionColumnValue tuple left, multiJoinConditionColumnValue tuple right) of
        (Some l, Some r) \<Rightarrow> EqualValues l r
      | _ \<Rightarrow> False)"

definition multiJoinConditionsMatchPrefix :: "multiJoinCondition list \<Rightarrow> productValue list \<Rightarrow> int \<Rightarrow> bool" where
  "multiJoinConditionsMatchPrefix conditions tuple depth =
     list_all (\<lambda>c. mc_relation (mjc_left c) > depth \<or> mc_relation (mjc_right c) > depth \<or>
       multiJoinConditionValuesEqual tuple (mjc_left c) (mjc_right c)) conditions"

fun walkTuples ::
  "predicate multiJoinPred \<Rightarrow> (productValue list \<Rightarrow> 's \<Rightarrow> 's query) \<Rightarrow> productValue list list \<Rightarrow> productValue list \<Rightarrow> 's \<Rightarrow> 's query" where
  "walkTuples p visit [] tuple st =
     bindQ ctxErr (\<lambda>_.
     if length tuple = length (mj_Relations p)
     then (if matchMultiJoinTuple (mj_Filter p) (mj_Relations p) tuple then visit tuple st else ret st)
     else ret st)"
| "walkTuples p visit (rows # rest) tuple st =
     bindQ ctxErr (\<lambda>_.
     if length tuple = length (mj_Relations p)
     then (if matchMultiJoinTuple (mj_Filter p) (mj_Relations p) tuple then visit tuple st else ret st)
     else forQ (\<lambda>row st.
       bindQ chargeSubscriptionWork (\<lambda>_.
       if \<not> multiJoinConditionsMatchPrefix (mj_Conditions p) (tuple @ [row]) (int (length tuple)) then ret st
       else walkTuples p visit rest (tuple @ [row]) st)) rows st)"

definition visitMultiJoinTuples ::
  "predicate multiJoinPred \<Rightarrow> productValue list list \<Rightarrow> (productValue list \<Rightarrow> 's \<Rightarrow> 's query) \<Rightarrow> 's \<Rightarrow> 's query" where
  "visitMultiJoinTuples p rowsByRelation visit st =
     (if length (mj_Relations p) = 0 \<or> mj_ProjectedRelation p < 0 \<or> mj_ProjectedRelation p \<ge> int (length (mj_Relations p))
      then ret st else walkTuples p visit rowsByRelation [] st)"

definition multiJoinProjectionRelation :: "multiJoinRelation list \<Rightarrow> projectionColumn \<Rightarrow> nat option" where
  "multiJoinProjectionRelation relations col =
     find (\<lambda>i. pj_table col = mr_table (relations ! i) \<and> pj_alias col = mr_alias (relations ! i)) [0..<length relations]"

definition projectMultiJoinTuple :: "productValue list \<Rightarrow> predicate multiJoinPred \<Rightarrow> projectionColumn list \<Rightarrow> productValue" where
  "projectMultiJoinTuple tuple p projection =
     (if length projection = 0 then tuple ! nat (mj_ProjectedRelation p)
      else List.map_filter (\<lambda>col.
        case multiJoinProjectionRelation (mj_Relations p) col of
          None \<Rightarrow> None
        | Some relation \<Rightarrow> if relation \<ge> length tuple then None else rowValue (tuple ! relation) (pj_column col)) projection)"

definition collectMultiJoinProjectedRows ::
  "predicate multiJoinPred \<Rightarrow> productValue list list \<Rightarrow> projectionColumn list \<Rightarrow> int \<Rightarrow> productValue list query" where
  "collectMultiJoinProjectedRows p rowsByRelation projection limit =
     visitMultiJoinTuples p rowsByRelation (\<lambda>tuple out.
       if limit > 0 \<and> int (length out) \<ge> limit then failQ (ErrInitialRowLimit (int (length out) + 1) limit)
       else
         let row = projectMultiJoinTuple tuple p projection in
         bindQ (chargeDeltaRow row) (\<lambda>_. ret (out @ [row]))) []"

definition multiJoinRowsByRelationBefore :: "deltaView \<Rightarrow> predicate multiJoinPred \<Rightarrow> productValue list list query" where
  "multiJoinRowsByRelationBefore dv p =
     forQ (\<lambda>rel out. bindQ (projectedRowsBefore dv (mr_table rel)) (\<lambda>rows. ret (out @ [rows]))) (mj_Relations p) []"

definition multiJoinRowsByRelationAfter :: "deltaView \<Rightarrow> predicate multiJoinPred \<Rightarrow> productValue list list query" where
  "multiJoinRowsByRelationAfter dv p =
     forQ (\<lambda>rel out. bindQ ctxErr (\<lambda>_. bindQ (tableRowsAfter dv (mr_table rel)) (\<lambda>rows. ret (out @ [rows])))) (mj_Relations p) []"

definition multiJoinDeltaRowsByRelation ::
  "productValue list list \<Rightarrow> productValue list list \<Rightarrow> nat \<Rightarrow> productValue list \<Rightarrow> bool \<Rightarrow> productValue list list" where
  "multiJoinDeltaRowsByRelation beforeRows afterRows relation deltaRows isInsert =
     map (\<lambda>i.
       if i = relation then deltaRows
       else if isInsert \<and> i < relation then afterRows ! i
       else if isInsert then beforeRows ! i
       else if \<not> isInsert \<and> i < relation then beforeRows ! i
       else afterRows ! i) [0..<length beforeRows]"

definition evalMultiJoinDelta ::
  "deltaView \<Rightarrow> predicate multiJoinPred \<Rightarrow> projectionColumn list \<Rightarrow> (productValue list \<times> productValue list) query" where
  "evalMultiJoinDelta dv p projection =
     bindQ (multiJoinRowsByRelationBefore dv p) (\<lambda>beforeRows.
     bindQ (multiJoinRowsByRelationAfter dv p) (\<lambda>afterRows.
     if length projection > 0 then
       bindQ (collectMultiJoinProjectedRows p beforeRows projection 0) (\<lambda>beforeOut.
       bindQ (collectMultiJoinProjectedRows p afterRows projection 0) (\<lambda>afterOut.
       reconcileJoinDelta [afterOut] [beforeOut]))
     else
       bindQ (forQ (\<lambda>i (insertFragments, deleteFragments).
         let table = mr_table (mj_Relations p ! i) in
         bindQ ctxErr (\<lambda>_.
         bindQ (fragmentIf (InsertedRows dv table)
           (collectMultiJoinProjectedRows p
             (multiJoinDeltaRowsByRelation beforeRows afterRows i (InsertedRows dv table) True) projection 0) insertFragments) (\<lambda>insertFragments.
         bindQ (fragmentIf (DeletedRows dv table)
           (collectMultiJoinProjectedRows p
             (multiJoinDeltaRowsByRelation beforeRows afterRows i (DeletedRows dv table) False) projection 0) deleteFragments) (\<lambda>deleteFragments.
         ret (insertFragments, deleteFragments)))))
         [0..<length (mj_Relations p)] ([], [])) (\<lambda>(insertFragments, deleteFragments).
       reconcileJoinDelta insertFragments deleteFragments)))"

section \<open>The walk finds the matching tuples\<close>

definition tupleMatches :: "predicate multiJoinPred \<Rightarrow> productValue list \<Rightarrow> bool" where
  "tupleMatches p t \<longleftrightarrow> multiJoinConditionsMatchPrefix (mj_Conditions p) t (int (length t) - 1) \<and>
     matchMultiJoinTuple (mj_Filter p) (mj_Relations p) t"

definition matchingFrom :: "predicate multiJoinPred \<Rightarrow> productValue list list \<Rightarrow> productValue list \<Rightarrow> productValue list list" where
  "matchingFrom p rows tuple = filter (tupleMatches p) (map ((@) tuple) (product_lists rows))"

lemma prefix_conditions:
  assumes "multiJoinConditionsMatchPrefix conds (t @ ext) (int (length (t @ ext)) - 1)"
  shows "multiJoinConditionsMatchPrefix conds t (int (length t) - 1)"
  unfolding multiJoinConditionsMatchPrefix_def
proof (rule list.pred_mono_strong [OF assms [unfolded multiJoinConditionsMatchPrefix_def]])
  fix c
  have same: "multiJoinConditionColumnValue (t @ ext) ref = multiJoinConditionColumnValue t ref" if "mc_relation ref \<le> int (length t) - 1" for ref
    using that by (auto simp: multiJoinConditionColumnValue_def nth_append)
  assume "mc_relation (mjc_left c) > int (length (t @ ext)) - 1 \<or> mc_relation (mjc_right c) > int (length (t @ ext)) - 1 \<or>
    multiJoinConditionValuesEqual (t @ ext) (mjc_left c) (mjc_right c)"
  moreover have "multiJoinConditionValuesEqual (t @ ext) (mjc_left c) (mjc_right c) = multiJoinConditionValuesEqual t (mjc_left c) (mjc_right c)"
    if "mc_relation (mjc_left c) \<le> int (length t) - 1" "mc_relation (mjc_right c) \<le> int (length t) - 1"
    unfolding multiJoinConditionValuesEqual_def same [OF that(1)] same [OF that(2)] ..
  ultimately show "mc_relation (mjc_left c) > int (length t) - 1 \<or> mc_relation (mjc_right c) > int (length t) - 1 \<or>
    multiJoinConditionValuesEqual t (mjc_left c) (mjc_right c)"
    by (cases "mc_relation (mjc_left c) \<le> int (length t) - 1 \<and> mc_relation (mjc_right c) \<le> int (length t) - 1") auto
qed

lemma matchingFrom_Cons: "matchingFrom p (rows # rest) tuple = concat (map (\<lambda>row. matchingFrom p rest (tuple @ [row])) rows)"
proof -
  have "(@) (tuple @ [row]) = (\<lambda>t. tuple @ row # t)" for row by (simp add: fun_eq_iff)
  then show ?thesis by (simp add: matchingFrom_def filter_concat map_concat comp_def)
qed

lemma matchingFrom_none:
  assumes "\<not> multiJoinConditionsMatchPrefix (mj_Conditions p) tuple (int (length tuple) - 1)"
  shows "matchingFrom p rest tuple = []"
  using prefix_conditions assms by (auto simp: matchingFrom_def tupleMatches_def filter_empty_conv)

lemma walk_computes:
  assumes "\<And>t out. computes (visit t out) (out @ g t)"
    and "length tuple + length rows = length (mj_Relations p)"
    and "rows = [] \<Longrightarrow> multiJoinConditionsMatchPrefix (mj_Conditions p) tuple (int (length tuple) - 1)"
  shows "computes (walkTuples p visit rows tuple out) (out @ concat (map g (matchingFrom p rows tuple)))"
  using assms(2,3)
proof (induction rows arbitrary: tuple out)
  case Nil
  then show ?case using assms(1)
    by (auto simp: matchingFrom_def tupleMatches_def intro!: computes_bind [OF computes_ctxErr] intro: computes_ret)
next
  case (Cons rows rest)
  have "computes (forQ (\<lambda>row out.
       bindQ chargeSubscriptionWork (\<lambda>_.
       if \<not> multiJoinConditionsMatchPrefix (mj_Conditions p) (tuple @ [row]) (int (length tuple)) then ret out
       else walkTuples p visit rest (tuple @ [row]) out)) rows out)
     (out @ concat (map (\<lambda>row. concat (map g (matchingFrom p rest (tuple @ [row])))) rows))"
  proof (rule computes_collect, rule computes_bind [OF computes_work])
    fix row out
    show "computes (if \<not> multiJoinConditionsMatchPrefix (mj_Conditions p) (tuple @ [row]) (int (length tuple)) then ret out
       else walkTuples p visit rest (tuple @ [row]) out) (out @ concat (map g (matchingFrom p rest (tuple @ [row]))))"
    proof (cases "multiJoinConditionsMatchPrefix (mj_Conditions p) (tuple @ [row]) (int (length tuple))")
      case True
      then show ?thesis using Cons.IH [of "tuple @ [row]" out] Cons.prems(1) by simp
    next
      case False
      then show ?thesis using matchingFrom_none [of p "tuple @ [row]" rest] by (simp add: computes_ret)
    qed
  qed
  moreover have "concat (map g (matchingFrom p (rows # rest) tuple)) = concat (map (\<lambda>row. concat (map g (matchingFrom p rest (tuple @ [row])))) rows)"
    unfolding matchingFrom_Cons by (induction rows) simp_all
  ultimately show ?case using Cons.prems(1) by (auto intro!: computes_bind [OF computes_ctxErr])
qed

text \<open>The rows of a multi join over given rows of its relations.\<close>

definition projectsValid :: "predicate multiJoinPred \<Rightarrow> bool" where
  "projectsValid p \<longleftrightarrow> 0 \<le> mj_ProjectedRelation p \<and> mj_ProjectedRelation p < int (length (mj_Relations p))"

definition multiJoinRows :: "predicate multiJoinPred \<Rightarrow> projectionColumn list \<Rightarrow> productValue list list \<Rightarrow> productValue list" where
  "multiJoinRows p projection rows = map (\<lambda>t. projectMultiJoinTuple t p projection) (filter (tupleMatches p) (product_lists rows))"

lemma collect_computes:
  assumes "projectsValid p" "length rows = length (mj_Relations p)"
  shows "computes (collectMultiJoinProjectedRows p rows projection 0) (multiJoinRows p projection rows)"
proof -
  let ?visit = "\<lambda>tuple out. if (0 :: int) > 0 \<and> int (length out) \<ge> 0 then failQ (ErrInitialRowLimit (int (length out) + 1) 0)
       else let row = projectMultiJoinTuple tuple p projection in bindQ (chargeDeltaRow row) (\<lambda>_. ret (out @ [row]))"
  have v: "computes (?visit t out) (out @ [projectMultiJoinTuple t p projection])" for t out
    by (auto simp: Let_def intro: computes_bind computes_delta computes_ret)
  have "computes (walkTuples p ?visit rows [] []) ([] @ concat (map (\<lambda>t. [projectMultiJoinTuple t p projection]) (matchingFrom p rows [])))"
    by (rule walk_computes [OF v]) (use assms in \<open>auto simp: projectsValid_def\<close>)
  moreover have "concat (map (\<lambda>t. [f t]) ts) = map f ts" for f :: "productValue list \<Rightarrow> productValue" and ts by (induction ts) simp_all
  moreover have "map ((@) []) ts = ts" for ts :: "productValue list list" by (induction ts) simp_all
  ultimately show ?thesis
    using assms(1) unfolding collectMultiJoinProjectedRows_def visitMultiJoinTuples_def projectsValid_def multiJoinRows_def matchingFrom_def
    by auto
qed

section \<open>Bags of tuples\<close>

fun tupleBag :: "(productValue list \<Rightarrow> 'b multiset) \<Rightarrow> productValue list list \<Rightarrow> productValue list \<Rightarrow> 'b multiset" where
  "tupleBag f [] pre = f pre"
| "tupleBag f (R # Rs) pre = (\<Sum>r\<in>#mset R. tupleBag f Rs (pre @ [r]))"

lemma tupleBag_product: "tupleBag f rows pre = (\<Sum>t\<in>#mset (product_lists rows). f (pre @ t))"
proof (induction rows arbitrary: pre)
  case (Cons R Rs)
  have "(\<Sum>t\<in>#mset (concat (map (\<lambda>x. map ((#) x) ts) xs)). g t) = (\<Sum>x\<in>#mset xs. \<Sum>t\<in>#mset ts. g (x # t))"
    for g :: "productValue list \<Rightarrow> 'b multiset" and ts xs
    by (induction xs) (simp_all add: image_mset.compositionality comp_def)
  from this [of "\<lambda>t. f (pre @ t)" "product_lists Rs" R] show ?case by (simp add: Cons)
qed simp

definition same_rows :: "productValue list \<Rightarrow> productValue list \<Rightarrow> bool" where
  "same_rows R S \<longleftrightarrow> list_all values_ok R \<and> list_all values_ok S \<and> canons R = canons S"

lemma same_rows_refl: "list_all values_ok R \<Longrightarrow> same_rows R R"
  by (simp add: same_rows_def)

lemma sum_list_swap: "(\<Sum>i\<leftarrow>is. \<Sum>r\<in>#M. g i r) = (\<Sum>r\<in>#M. \<Sum>i\<leftarrow>is. (g i r :: 'b multiset))"
  by (induction "is") (simp_all add: sum_mset.distrib)

locale tuple_bag =
  fixes f :: "productValue list \<Rightarrow> 'b multiset"
  assumes tuple_cong: "list_all2 same_row t t' \<Longrightarrow> f t = f t'"
begin

lemma pre_cong:
  assumes "list_all (list_all values_ok) rows" "list_all2 same_row pre pre'"
  shows "tupleBag f rows pre = tupleBag f rows pre'"
  using assms
proof (induction rows arbitrary: pre pre')
  case (Cons R Rs)
  have "tupleBag f Rs (pre @ [r]) = tupleBag f Rs (pre' @ [r])" if "r \<in> set R" for r
    using Cons.IH [of "pre @ [r]" "pre' @ [r]"] Cons.prems that by (simp add: list_all2_appendI same_row_refl list_all_iff)
  then show ?case by (auto intro!: arg_cong [where f = sum_mset] image_mset_cong)
qed (simp add: tuple_cong)

lemma slot_cong:
  assumes "list_all (list_all values_ok) rows" "same_rows R S" "list_all values_ok pre"
  shows "tupleBag f (R # rows) pre = tupleBag f (S # rows) pre"
proof -
  have "list_all2 same_row pre pre" using assms(3) by (simp add: list_all2_same list_all_iff same_row_refl)
  then have "tupleBag f rows (pre @ [r]) = tupleBag f rows (pre @ [s])" if "same_row r s" for r s
    using pre_cong [OF assms(1), of "pre @ [r]" "pre @ [s]"] that by (simp add: list_all2_appendI)
  from sum_canon_cong [of "\<lambda>r. tupleBag f rows (pre @ [r])", OF this] assms(2) show ?thesis by (simp add: same_rows_def)
qed

lemma rows_cong:
  assumes "list_all2 same_rows rows rows'" "list_all values_ok pre"
  shows "tupleBag f rows pre = tupleBag f rows' pre"
  using assms
proof (induction rows rows' arbitrary: pre rule: list_all2_induct)
  case (Cons R Rs S Ss)
  have ok: "list_all (list_all values_ok) Ss" using Cons.hyps(2) by (auto simp: list_all2_conv_all_nth list_all_length same_rows_def)
  have "tupleBag f (R # Rs) pre = tupleBag f (R # Ss) pre"
    using Cons.IH Cons.hyps(1) Cons.prems
    by (auto simp: same_rows_def list_all_iff intro!: arg_cong [where f = sum_mset] image_mset_cong)
  also have "\<dots> = tupleBag f (S # Ss) pre" by (rule slot_cong [OF ok Cons.hyps(1) Cons.prems])
  finally show ?case .
qed simp

text \<open>Replacing the rows \<open>Y\<close> of each relation by \<open>X\<close>, which has \<open>Z\<close> more, one relation at a time.\<close>

lemma telescope:
  assumes "list_all (\<lambda>(X, Y, Z). list_all values_ok X \<and> list_all values_ok Y \<and> list_all values_ok Z \<and> canons X = canons Y + canons Z) xs"
    and "list_all values_ok pre"
  shows "tupleBag f (map fst xs) pre = tupleBag f (map (\<lambda>x. fst (snd x)) xs) pre +
    (\<Sum>i\<leftarrow>[0..<length xs]. tupleBag f (map fst (take i xs) @ snd (snd (xs ! i)) # map (\<lambda>x. fst (snd x)) (drop (Suc i) xs)) pre)"
  using assms
proof (induction xs arbitrary: pre)
  case (Cons x xs)
  obtain X Y Z where x: "x = (X, Y, Z)" by (cases x)
  have ok: "list_all values_ok X" "list_all values_ok Y" "list_all values_ok Z" "canons X = canons Y + canons Z"
    using Cons.prems(1) x by auto
  let ?B = "map (\<lambda>x. fst (snd x)) xs"
  let ?g = "\<lambda>i. map fst (take i xs) @ snd (snd (xs ! i)) # map (\<lambda>x. fst (snd x)) (drop (Suc i) xs)"
  have okB: "list_all (list_all values_ok) ?B" using Cons.prems(1) by (auto simp: list_all_iff)
  have step: "tupleBag f (map fst xs) (pre @ [r]) = tupleBag f ?B (pre @ [r]) + (\<Sum>i\<leftarrow>[0..<length xs]. tupleBag f (?g i) (pre @ [r]))"
    if "r \<in> set X" for r
    by (rule Cons.IH) (use Cons.prems that ok(1) in \<open>simp_all add: list_all_iff\<close>)
  have "tupleBag f (map fst (x # xs)) pre =
      (\<Sum>r\<in>#mset X. tupleBag f ?B (pre @ [r]) + (\<Sum>i\<leftarrow>[0..<length xs]. tupleBag f (?g i) (pre @ [r])))"
    using x step by (auto intro!: arg_cong [where f = sum_mset] image_mset_cong)
  also have "\<dots> = tupleBag f (X # ?B) pre + (\<Sum>i\<leftarrow>[0..<length xs]. tupleBag f (X # ?g i) pre)"
    by (simp only: sum_mset.distrib sum_list_swap tupleBag.simps)
  also have "tupleBag f (X # ?B) pre = tupleBag f ((Y @ Z) # ?B) pre"
    by (rule slot_cong [OF okB _ Cons.prems(2)]) (simp add: same_rows_def ok)
  also have "\<dots> = tupleBag f (Y # ?B) pre + tupleBag f (Z # ?B) pre" by simp
  finally show ?case
    using x by (simp add: upt_conv_Cons map_Suc_upt [symmetric] comp_def add.assoc del: upt_Suc)
qed simp

end

section \<open>The join as a bag of tuples\<close>

definition tupleOut :: "predicate multiJoinPred \<Rightarrow> projectionColumn list \<Rightarrow> productValue list \<Rightarrow> bytes multiset" where
  "tupleOut p projection t =
     (if projectsValid p \<and> length t = length (mj_Relations p) \<and> tupleMatches p t
      then {#canon (projectMultiJoinTuple t p projection)#} else {#})"

lemma tuple_value_same:
  assumes "list_all2 same_row t t'"
  shows "same_value (multiJoinConditionColumnValue t ref) (multiJoinConditionColumnValue t' ref)"
proof -
  have len: "length t = length t'" using assms by (rule list_all2_lengthD)
  show ?thesis
  proof (cases "mc_relation ref < 0 \<or> mc_relation ref \<ge> int (length t)")
    case True
    then show ?thesis using len by (simp add: multiJoinConditionColumnValue_def same_value_def)
  next
    case False
    then have "nat (mc_relation ref) < length t" by linarith
    from list_all2_nthD [OF assms this] have "same_row (t ! nat (mc_relation ref)) (t' ! nat (mc_relation ref))" .
    then show ?thesis using False len same_rowValue by (simp add: multiJoinConditionColumnValue_def)
  qed
qed

lemma tupleMatches_same:
  assumes "list_all2 same_row t t'"
  shows "tupleMatches p t = tupleMatches p t'"
proof -
  have "multiJoinConditionValuesEqual t l r = multiJoinConditionValuesEqual t' l r" for l r
    unfolding multiJoinConditionValuesEqual_def by (rule leaf_cols [OF tuple_value_same tuple_value_same]) (rule assms)+
  then have "multiJoinConditionsMatchPrefix conds t d = multiJoinConditionsMatchPrefix conds t' d" for conds d
    by (simp add: multiJoinConditionsMatchPrefix_def)
  then show ?thesis
    using matchMultiJoinTuple_same [OF assms] list_all2_lengthD [OF assms] by (simp add: tupleMatches_def)
qed

text \<open>Values that are equal and have a canonical encoding, or are both absent.\<close>

definition same_field :: "go_value option \<Rightarrow> go_value option \<Rightarrow> bool" where
  "same_field = rel_option (\<lambda>v w. EqualValues v w \<and> wf_value v \<and> wf_value w \<and> payloadLen v \<noteq> None \<and> payloadLen w \<noteq> None)"

lemma same_row_map_filter:
  assumes "\<And>c. c \<in> set cs \<Longrightarrow> same_field (f c) (g c)"
  shows "same_row (List.map_filter f cs) (List.map_filter g cs)"
  using assms
proof (induction cs)
  case (Cons c cs)
  have tail: "same_row (List.map_filter f cs) (List.map_filter g cs)" by (rule Cons.IH) (simp add: Cons.prems)
  have "same_field (f c) (g c)" by (rule Cons.prems) simp
  then show ?case unfolding same_field_def
    using tail by (cases rule: option.rel_cases) (auto simp: List.map_filter_def same_row_def productEqual_def values_ok_def)
qed (simp add: List.map_filter_def same_row_def productEqual_def values_ok_def)

lemma rowValue_same_field:
  assumes "same_row r s"
  shows "same_field (rowValue r c) (rowValue s c)"
proof -
  have "rel_option EqualValues (rowValue r c) (rowValue s c)" using assms rowValue_Equal by (simp add: same_row_def)
  then show ?thesis unfolding same_field_def
    using rowValue_ok [of r c] rowValue_ok [of s c] assms by (cases rule: option.rel_cases) (auto simp: same_row_def)
qed

lemma projectTuple_same:
  assumes "list_all2 same_row t t'" "projectsValid p" "length t = length (mj_Relations p)"
  shows "same_row (projectMultiJoinTuple t p projection) (projectMultiJoinTuple t' p projection)"
proof (cases "projection = []")
  case True
  have "nat (mj_ProjectedRelation p) < length t" using assms(2,3) by (auto simp: projectsValid_def)
  with True assms(1) show ?thesis by (simp add: projectMultiJoinTuple_def list_all2_conv_all_nth)
next
  case False
  have "same_field None None" by (simp add: same_field_def)
  with False show ?thesis unfolding projectMultiJoinTuple_def
    using assms(1) by (auto intro!: same_row_map_filter rowValue_same_field simp: list_all2_conv_all_nth split: option.split)
qed

interpretation multi_bag: tuple_bag "tupleOut p projection" for p projection
proof
  fix t t' assume s: "list_all2 same_row t t'"
  show "tupleOut p projection t = tupleOut p projection t'"
    using tupleMatches_same [OF s] list_all2_lengthD [OF s] same_row_canon [OF projectTuple_same [OF s]] by (simp add: tupleOut_def)
qed

definition multiBag :: "predicate multiJoinPred \<Rightarrow> projectionColumn list \<Rightarrow> productValue list list \<Rightarrow> bytes multiset" where
  "multiBag p projection rows = tupleBag (tupleOut p projection) rows []"

lemma canons_multiJoinRows:
  assumes "projectsValid p" "length rows = length (mj_Relations p)"
  shows "canons (multiJoinRows p projection rows) = multiBag p projection rows"
proof -
  have "canons (map (\<lambda>t. projectMultiJoinTuple t p projection) (filter (tupleMatches p) ts)) = (\<Sum>t\<in>#mset ts. tupleOut p projection t)"
    if "\<forall>t \<in> set ts. length t = length rows" for ts
    using that by (induction ts) (simp_all add: tupleOut_def assms)
  moreover have "\<forall>t \<in> set (product_lists rows). length t = length rows" using in_set_product_lists_length by blast
  ultimately show ?thesis unfolding multiJoinRows_def multiBag_def tupleBag_product by simp
qed

lemma multiJoinRows_ok:
  assumes "list_all (list_all values_ok) rows" "projectsValid p" "length rows = length (mj_Relations p)"
  shows "list_all values_ok (multiJoinRows p projection rows)"
proof -
  have "values_ok (projectMultiJoinTuple t p projection)" if "t \<in> set (product_lists rows)" for t
  proof -
    have in_rows: "list_all2 (\<lambda>x ys. x \<in> set ys) t rows" using that by (simp add: product_lists_set)
    then have len: "length t = length (mj_Relations p)" using assms(3) by (simp add: list_all2_lengthD)
    have "values_ok (t ! i)" if "i < length t" for i
      using list_all2_nthD [OF in_rows that] list_all2_lengthD [OF in_rows] assms(1) that by (auto simp: list_all_iff)
    then have "list_all2 same_row t t" by (simp add: list_all2_conv_all_nth same_row_refl)
    from projectTuple_same [OF this assms(2) len] show ?thesis by (simp add: same_row_def)
  qed
  then show ?thesis by (auto simp: multiJoinRows_def list_all_iff)
qed

section \<open>The delta of a multi join\<close>

lemma computes_forQ_ex:
  assumes "\<And>ps x qs st. xs = ps @ x # qs \<Longrightarrow> Q ps st \<Longrightarrow> \<exists>st'. computes (body x st) st' \<and> Q (ps @ [x]) st'" "Q [] st"
  shows "\<exists>st'. computes (forQ body xs st) st' \<and> Q xs st'"
proof -
  have "xs = ps @ qs \<Longrightarrow> Q ps st \<Longrightarrow> \<exists>st'. computes (forQ body qs st) st' \<and> Q xs st'" for ps qs st
  proof (induction qs arbitrary: ps st)
    case Nil
    then show ?case using computes_ret [of st] by (intro exI [of _ st]) simp
  next
    case (Cons x qs)
    obtain s1 where s1: "computes (body x st) s1" "Q (ps @ [x]) s1" using assms(1) [OF Cons.prems] by blast
    obtain s2 where s2: "computes (forQ body qs s1) s2" "Q xs s2" using Cons.IH [OF _ s1(2)] Cons.prems(1) by auto
    have "computes (forQ body (x # qs) st) s2" unfolding forQ.simps by (rule computes_bind [OF s1(1)]) (rule s2(1))
    with s2(2) show ?case by blast
  qed
  from this [of "[]" xs st] assms(2) show ?thesis by simp
qed

definition afterRowsOf :: "deltaView \<Rightarrow> predicate multiJoinPred \<Rightarrow> productValue list list" where
  "afterRowsOf dv p = map (\<lambda>rel. rowsAfter dv (mr_table rel)) (mj_Relations p)"

text \<open>The rows of each relation before the commit.\<close>

definition relations_applied :: "productValue list list \<Rightarrow> deltaView \<Rightarrow> predicate multiJoinPred \<Rightarrow> bool" where
  "relations_applied Bs dv p \<longleftrightarrow> projectsValid p \<and> list_all2 (\<lambda>B rel. applied B dv (mr_table rel)) Bs (mj_Relations p)"

lemma afterRows_computes: "computes (multiJoinRowsByRelationAfter dv p) (afterRowsOf dv p)"
proof -
  have "computes (multiJoinRowsByRelationAfter dv p) ([] @ concat (map (\<lambda>rel. [rowsAfter dv (mr_table rel)]) (mj_Relations p)))"
    unfolding multiJoinRowsByRelationAfter_def
    by (rule computes_collect) (auto intro: computes_bind computes_ctxErr tableRowsAfter_computes computes_ret)
  moreover have "concat (map (\<lambda>rel. [f rel]) rels) = map f rels" for f :: "multiJoinRelation \<Rightarrow> productValue list" and rels
    by (induction rels) simp_all
  ultimately show ?thesis by (simp add: afterRowsOf_def)
qed

lemma beforeRowsOf_computes:
  assumes "relations_applied Bs dv p"
  shows "\<exists>Cs. computes (multiJoinRowsByRelationBefore dv p) Cs \<and> list_all2 same_rows Bs Cs"
proof -
  let ?rels = "mj_Relations p"
  have "\<exists>Cs. computes (forQ (\<lambda>rel out. bindQ (projectedRowsBefore dv (mr_table rel)) (\<lambda>rows. ret (out @ [rows]))) ?rels []) Cs \<and>
      list_all2 same_rows (take (length ?rels) Bs) Cs"
  proof (rule computes_forQ_ex [where Q = "\<lambda>ps Cs. list_all2 same_rows (take (length ps) Bs) Cs"])
    fix ps rel qs Cs assume p: "?rels = ps @ rel # qs" "list_all2 same_rows (take (length ps) Bs) Cs"
    have len: "length ps < length Bs" and ap: "applied (Bs ! length ps) dv (mr_table rel)"
      using assms p(1) list_all2_nthD2 [of _ Bs "mj_Relations p" "length ps"] by (auto simp: relations_applied_def dest: list_all2_lengthD)
    obtain C where C: "computes (projectedRowsBefore dv (mr_table rel)) C" "list_all keyed C" "canons C = canons (Bs ! length ps)"
      using beforeRows_computes [OF ap] by blast
    have "same_rows (Bs ! length ps) C" using C(2,3) applied_keyed [OF ap] keyed_values_ok by (simp add: same_rows_def)
    then have "list_all2 same_rows (take (length (ps @ [rel])) Bs) (Cs @ [C])"
      using p(2) len by (simp add: take_Suc_conv_app_nth list_all2_appendI)
    moreover have "computes (bindQ (projectedRowsBefore dv (mr_table rel)) (\<lambda>rows. ret (Cs @ [rows]))) (Cs @ [C])"
      by (rule computes_bind [OF C(1) computes_ret])
    ultimately show "\<exists>st'. computes (bindQ (projectedRowsBefore dv (mr_table rel)) (\<lambda>rows. ret (Cs @ [rows]))) st' \<and>
        list_all2 same_rows (take (length (ps @ [rel])) Bs) st'" by blast
  qed simp
  moreover have "take (length ?rels) Bs = Bs" using assms by (auto simp: relations_applied_def dest: list_all2_lengthD)
  ultimately show ?thesis by (simp add: multiJoinRowsByRelationBefore_def)
qed

lemma applied_ok:
  assumes "relations_applied Bs dv p"
  shows "length Bs = length (mj_Relations p)" "list_all (list_all values_ok) Bs" "list_all (list_all values_ok) (afterRowsOf dv p)"
  using assms
  by (auto simp: relations_applied_def list_all2_conv_all_nth list_all_length afterRowsOf_def applied_def balanced_def)

lemma same_rows_ok: "list_all2 same_rows Bs Cs \<Longrightarrow> list_all (list_all values_ok) Cs"
  by (auto simp: list_all2_conv_all_nth list_all_length same_rows_def)

lemma projectedMultiJoin_exact:
  assumes "relations_applied Bs dv p" "projection \<noteq> []"
  shows "exact_delta (evalMultiJoinDelta dv p projection) (multiBag p projection Bs) (multiBag p projection (afterRowsOf dv p))"
proof -
  let ?As = "afterRowsOf dv p"
  have v: "projectsValid p" using assms(1) by (simp add: relations_applied_def)
  obtain Cs where Cs: "computes (multiJoinRowsByRelationBefore dv p) Cs" "list_all2 same_rows Bs Cs"
    using beforeRowsOf_computes [OF assms(1)] by blast
  have len: "length Cs = length (mj_Relations p)" "length ?As = length (mj_Relations p)"
    using Cs(2) applied_ok(1) [OF assms(1)] by (auto simp: afterRowsOf_def dest: list_all2_lengthD)
  have "multiBag p projection Cs = multiBag p projection Bs"
    unfolding multiBag_def by (rule multi_bag.rows_cong [OF Cs(2), symmetric]) simp
  then have b: "canons (multiJoinRows p projection Cs) = multiBag p projection Bs" using canons_multiJoinRows [OF v len(1)] by simp
  note a = canons_multiJoinRows [OF v len(2), of projection]
  have ok: "list_all values_ok (concat [multiJoinRows p projection ?As])" "list_all values_ok (concat [multiJoinRows p projection Cs])"
    using multiJoinRows_ok [OF applied_ok(3) [OF assms(1)] v len(2)] multiJoinRows_ok [OF same_rows_ok [OF Cs(2)] v len(1)] by simp_all
  obtain I D where r: "computes (reconcileJoinDelta [multiJoinRows p projection ?As] [multiJoinRows p projection Cs]) (I, D)"
    "list_all values_ok I" "list_all values_ok D"
    "canons I = multiBag p projection ?As - multiBag p projection Bs" "canons D = multiBag p projection Bs - multiBag p projection ?As"
    using reconcile_computes [OF ok] a b by auto
  have "computes (evalMultiJoinDelta dv p projection) (I, D)"
    unfolding evalMultiJoinDelta_def using assms(2)
    by (intro computes_bind [OF Cs(1)] computes_bind [OF afterRows_computes])
      (auto intro!: computes_bind [OF collect_computes [OF v len(1)]] computes_bind [OF collect_computes [OF v len(2)]] r(1))
  from exact_deltaI [OF this r(2-5)] show ?thesis by (simp add: add.commute)
qed

subsection \<open>Whole rows: one fragment for each changed relation\<close>

definition fragmentRows ::
  "predicate multiJoinPred \<Rightarrow> productValue list list \<Rightarrow> productValue list list \<Rightarrow> (tableID \<Rightarrow> productValue list) \<Rightarrow> bool \<Rightarrow> nat \<Rightarrow> productValue list" where
  "fragmentRows p Bs As changed isInsert i =
     multiJoinRows p [] (multiJoinDeltaRowsByRelation Bs As i (changed (mr_table (mj_Relations p ! i))) isInsert)"

lemma multiJoinRows_empty: "i < length rows \<Longrightarrow> rows ! i = [] \<Longrightarrow> multiJoinRows p projection rows = []"
proof -
  assume "i < length rows" "rows ! i = []"
  then have "product_lists rows = []" by (induction rows arbitrary: i) (auto simp: nth_Cons split: nat.splits)
  then show ?thesis by (simp add: multiJoinRows_def)
qed

lemma deltaRows_nth:
  "length (multiJoinDeltaRowsByRelation Bs As i R b) = length Bs"
  "i < length Bs \<Longrightarrow> multiJoinDeltaRowsByRelation Bs As i R b ! i = R"
  by (simp_all add: multiJoinDeltaRowsByRelation_def)

lemma fragment_computes:
  assumes "projectsValid p" "length Bs = length (mj_Relations p)" "i < length Bs"
  shows "\<exists>out. computes (fragmentIf (changed (mr_table (mj_Relations p ! i))) (collectMultiJoinProjectedRows p
      (multiJoinDeltaRowsByRelation Bs As i (changed (mr_table (mj_Relations p ! i))) b) [] 0) fragments) out \<and>
    concat out = concat fragments @ fragmentRows p Bs As changed b i"
  unfolding fragmentRows_def
proof (rule fragmentIf_computes)
  show "computes (collectMultiJoinProjectedRows p (multiJoinDeltaRowsByRelation Bs As i (changed (mr_table (mj_Relations p ! i))) b) [] 0)
      (multiJoinRows p [] (multiJoinDeltaRowsByRelation Bs As i (changed (mr_table (mj_Relations p ! i))) b))"
    by (rule collect_computes [OF assms(1)]) (simp add: deltaRows_nth assms)
  show "multiJoinRows p [] (multiJoinDeltaRowsByRelation Bs As i (changed (mr_table (mj_Relations p ! i))) b) = []"
    if "changed (mr_table (mj_Relations p ! i)) = []"
    by (rule multiJoinRows_empty [of i]) (use that assms(3) in \<open>simp_all add: deltaRows_nth\<close>)
qed

lemma unprojected_computes:
  assumes "relations_applied Bs dv p" "computes (multiJoinRowsByRelationBefore dv p) Cs" "list_all2 same_rows Bs Cs"
    and "list_all values_ok (concat (map (fragmentRows p Cs (afterRowsOf dv p) (InsertedRows dv) True) [0..<length Bs]))"
    and "list_all values_ok (concat (map (fragmentRows p Cs (afterRowsOf dv p) (DeletedRows dv) False) [0..<length Bs]))"
  shows "\<exists>I D. computes (evalMultiJoinDelta dv p []) (I, D) \<and> list_all values_ok I \<and> list_all values_ok D \<and>
    canons I = canons (concat (map (fragmentRows p Cs (afterRowsOf dv p) (InsertedRows dv) True) [0..<length Bs])) -
      canons (concat (map (fragmentRows p Cs (afterRowsOf dv p) (DeletedRows dv) False) [0..<length Bs])) \<and>
    canons D = canons (concat (map (fragmentRows p Cs (afterRowsOf dv p) (DeletedRows dv) False) [0..<length Bs])) -
      canons (concat (map (fragmentRows p Cs (afterRowsOf dv p) (InsertedRows dv) True) [0..<length Bs]))"
proof -
  let ?As = "afterRowsOf dv p"
  let ?I = "fragmentRows p Cs ?As (InsertedRows dv) True" and ?D = "fragmentRows p Cs ?As (DeletedRows dv) False"
  have v: "projectsValid p" using assms(1) by (simp add: relations_applied_def)
  have len: "length Cs = length (mj_Relations p)" "length Bs = length (mj_Relations p)"
    using assms(3) applied_ok(1) [OF assms(1)] by (auto dest: list_all2_lengthD)
  define body where "body = (\<lambda>i (insertFragments, deleteFragments).
         let table = mr_table (mj_Relations p ! i) in
         bindQ ctxErr (\<lambda>_.
         bindQ (fragmentIf (InsertedRows dv table)
           (collectMultiJoinProjectedRows p
             (multiJoinDeltaRowsByRelation Cs ?As i (InsertedRows dv table) True) [] 0) insertFragments) (\<lambda>insertFragments.
         bindQ (fragmentIf (DeletedRows dv table)
           (collectMultiJoinProjectedRows p
             (multiJoinDeltaRowsByRelation Cs ?As i (DeletedRows dv table) False) [] 0) deleteFragments) (\<lambda>deleteFragments.
         ret (insertFragments, deleteFragments)))))"
  have "\<exists>st. computes (forQ body [0..<length (mj_Relations p)] ([], [])) st \<and>
      (concat (fst st) = concat (map ?I [0..<length (mj_Relations p)]) \<and> concat (snd st) = concat (map ?D [0..<length (mj_Relations p)]))"
  proof (rule computes_forQ_ex [where Q = "\<lambda>ps st. concat (fst st) = concat (map ?I ps) \<and> concat (snd st) = concat (map ?D ps)"])
    fix ps i qs st assume p: "[0..<length (mj_Relations p)] = ps @ i # qs"
      "concat (fst st) = concat (map ?I ps) \<and> concat (snd st) = concat (map ?D ps)"
    have "i \<in> set [0..<length (mj_Relations p)]" unfolding p(1) by simp
    then have i: "i < length Cs" using len by simp
    obtain IF where IF: "computes (fragmentIf (InsertedRows dv (mr_table (mj_Relations p ! i))) (collectMultiJoinProjectedRows p
        (multiJoinDeltaRowsByRelation Cs ?As i (InsertedRows dv (mr_table (mj_Relations p ! i))) True) [] 0) (fst st)) IF"
      "concat IF = concat (fst st) @ ?I i" using fragment_computes [OF v len(1) i, of "InsertedRows dv"] by blast
    obtain DF where DF: "computes (fragmentIf (DeletedRows dv (mr_table (mj_Relations p ! i))) (collectMultiJoinProjectedRows p
        (multiJoinDeltaRowsByRelation Cs ?As i (DeletedRows dv (mr_table (mj_Relations p ! i))) False) [] 0) (snd st)) DF"
      "concat DF = concat (snd st) @ ?D i" using fragment_computes [OF v len(1) i, of "DeletedRows dv"] by blast
    have "computes (body i st) (IF, DF)" unfolding body_def Let_def split_beta
      by (rule computes_bind [OF computes_ctxErr], rule computes_bind [OF IF(1)], rule computes_bind [OF DF(1)], rule computes_ret)
    then show "\<exists>st'. computes (body i st) st' \<and>
        concat (fst st') = concat (map ?I (ps @ [i])) \<and> concat (snd st') = concat (map ?D (ps @ [i]))"
      using IF(2) DF(2) p(2) by (intro exI [of _ "(IF, DF)"]) simp
  qed simp
  then obtain IF DF where st: "computes (forQ body [0..<length (mj_Relations p)] ([], [])) (IF, DF)"
    "concat IF = concat (map ?I [0..<length Bs])" "concat DF = concat (map ?D [0..<length Bs])" unfolding len(2) by auto
  have ok: "list_all values_ok (concat IF)" "list_all values_ok (concat DF)" using st(2,3) assms(4,5) by simp_all
  obtain I D where r: "computes (reconcileJoinDelta IF DF) (I, D)" "list_all values_ok I" "list_all values_ok D"
    "canons I = canons (concat IF) - canons (concat DF)" "canons D = canons (concat DF) - canons (concat IF)"
    using reconcile_computes [OF ok] by blast
  have "computes (bindQ (forQ body [0..<length (mj_Relations p)] ([], [])) (\<lambda>(IF, DF). reconcileJoinDelta IF DF)) (I, D)"
    by (rule computes_bind [OF st(1)]) (simp add: r(1))
  then have "computes (evalMultiJoinDelta dv p []) (I, D)"
    unfolding evalMultiJoinDelta_def body_def
    by (intro computes_bind [OF assms(2)] computes_bind [OF afterRows_computes]) simp
  with r st show ?thesis by auto
qed

lemma fragmentRows_bag:
  assumes "projectsValid p" "length Cs = length (mj_Relations p)"
  shows "canons (fragmentRows p Cs As changed b i) =
    multiBag p [] (multiJoinDeltaRowsByRelation Cs As i (changed (mr_table (mj_Relations p ! i))) b)"
  unfolding fragmentRows_def by (rule canons_multiJoinRows [OF assms(1)]) (simp add: deltaRows_nth assms)

lemma fragmentRows_ok:
  assumes "projectsValid p" "length Cs = length (mj_Relations p)" "length As = length Cs"
    and "list_all (list_all values_ok) Cs" "list_all (list_all values_ok) As" "\<forall>i < length Cs. list_all values_ok (changed (mr_table (mj_Relations p ! i)))"
  shows "list_all values_ok (concat (map (fragmentRows p Cs As changed b) [0..<length Cs]))"
proof -
  have "list_all values_ok (fragmentRows p Cs As changed b i)" if "i < length Cs" for i
    unfolding fragmentRows_def
  proof (rule multiJoinRows_ok [OF _ assms(1)])
    show "list_all (list_all values_ok) (multiJoinDeltaRowsByRelation Cs As i (changed (mr_table (mj_Relations p ! i))) b)"
      using assms that by (auto simp: list_all_length multiJoinDeltaRowsByRelation_def)
  qed (simp add: deltaRows_nth assms)
  then show ?thesis by (simp add: list_all_iff)
qed

lemma canons_concat_map: "canons (concat (map f is)) = (\<Sum>i\<leftarrow>is. canons (f i))"
  by (induction "is") simp_all

text \<open>The rows a fragment joins: those after the replacement to the left of the relation, those before it to the right.\<close>

lemma fragments_telescope:
  assumes v: "projectsValid p" and len: "length Cs = length (mj_Relations p)" "length As = length Cs"
    and ok: "list_all (list_all values_ok) Cs" "list_all (list_all values_ok) As" "\<forall>i < length Cs. list_all values_ok (changed (mr_table (mj_Relations p ! i)))"
    and XY: "X = (if b then As else Cs)" "Y = (if b then Cs else As)"
    and grow: "\<forall>i < length Cs. canons (X ! i) = canons (Y ! i) + canons (changed (mr_table (mj_Relations p ! i)))"
  shows "multiBag p [] X = multiBag p [] Y + canons (concat (map (fragmentRows p Cs As changed b) [0..<length Cs]))"
proof -
  let ?xs = "map (\<lambda>i. (X ! i, Y ! i, changed (mr_table (mj_Relations p ! i)))) [0..<length Cs]"
  have l: "length X = length Cs" "length Y = length Cs" using XY len by auto
  have maps: "map fst ?xs = X" "map (\<lambda>x. fst (snd x)) ?xs = Y" using l by (auto intro!: nth_equalityI)
  have slots: "map fst (take i ?xs) @ snd (snd (?xs ! i)) # map (\<lambda>x. fst (snd x)) (drop (Suc i) ?xs) =
      multiJoinDeltaRowsByRelation Cs As i (changed (mr_table (mj_Relations p ! i))) b" if "i < length Cs" for i
    using that XY by (intro nth_equalityI) (auto simp: multiJoinDeltaRowsByRelation_def nth_append nth_Cons')
  have "list_all (\<lambda>(X, Y, Z). list_all values_ok X \<and> list_all values_ok Y \<and> list_all values_ok Z \<and> canons X = canons Y + canons Z) ?xs"
    using ok grow XY len by (auto simp: list_all_length)
  from multi_bag.telescope [OF this, of "[]" p "[]"]
  have "multiBag p [] X = multiBag p [] Y + (\<Sum>i\<leftarrow>[0..<length Cs]. multiBag p []
      (map fst (take i ?xs) @ snd (snd (?xs ! i)) # map (\<lambda>x. fst (snd x)) (drop (Suc i) ?xs)))"
    unfolding maps multiBag_def by simp
  also have "(\<Sum>i\<leftarrow>[0..<length Cs]. multiBag p [] (map fst (take i ?xs) @ snd (snd (?xs ! i)) # map (\<lambda>x. fst (snd x)) (drop (Suc i) ?xs))) =
      (\<Sum>i\<leftarrow>[0..<length Cs]. canons (fragmentRows p Cs As changed b i))"
    by (intro arg_cong [where f = sum_list] map_cong refl) (simp only: fragmentRows_bag [OF v len(1)] slots set_upt atLeastLessThan_iff)
  finally show ?thesis by (simp only: canons_concat_map)
qed

lemma fragments_none:
  assumes "\<forall>i < length Cs. changed (mr_table (mj_Relations p ! i)) = []"
  shows "concat (map (fragmentRows p Cs As changed b) [0..<length Cs]) = []"
proof -
  have "fragmentRows p Cs As changed b i = []" if "i < length Cs" for i
    unfolding fragmentRows_def by (rule multiJoinRows_empty [of i]) (use assms that in \<open>simp_all add: deltaRows_nth\<close>)
  then show ?thesis by simp
qed

text \<open>A commit that does not both insert and delete in the joined tables.\<close>

definition one_way :: "deltaView \<Rightarrow> predicate multiJoinPred \<Rightarrow> bool" where
  "one_way dv p \<longleftrightarrow> list_all (\<lambda>rel. DeletedRows dv (mr_table rel) = []) (mj_Relations p) \<or>
     list_all (\<lambda>rel. InsertedRows dv (mr_table rel) = []) (mj_Relations p)"

lemma oneWayMultiJoin_exact:
  assumes ap: "relations_applied Bs dv p" and "one_way dv p"
  shows "exact_delta (evalMultiJoinDelta dv p []) (multiBag p [] Bs) (multiBag p [] (afterRowsOf dv p))"
proof -
  let ?As = "afterRowsOf dv p"
  obtain Cs where Cs: "computes (multiJoinRowsByRelationBefore dv p) Cs" "list_all2 same_rows Bs Cs"
    using beforeRowsOf_computes [OF ap] by blast
  let ?I = "concat (map (fragmentRows p Cs ?As (InsertedRows dv) True) [0..<length Cs])"
  let ?D = "concat (map (fragmentRows p Cs ?As (DeletedRows dv) False) [0..<length Cs])"
  have v: "projectsValid p" using ap by (simp add: relations_applied_def)
  have len: "length Cs = length (mj_Relations p)" "length ?As = length Cs" "length Bs = length Cs"
    using Cs(2) applied_ok(1) [OF ap] by (auto simp: afterRowsOf_def dest: list_all2_lengthD)
  have bal: "balanced (Cs ! i) (InsertedRows dv (mr_table (mj_Relations p ! i))) (?As ! i) (DeletedRows dv (mr_table (mj_Relations p ! i)))"
    if "i < length Cs" for i
    using ap list_all2_nthD2 [OF Cs(2) that] that len
    by (auto simp: relations_applied_def list_all2_conv_all_nth applied_def balanced_def afterRowsOf_def same_rows_def)
  note ok = same_rows_ok [OF Cs(2)] applied_ok(3) [OF ap]
  have okI: "\<forall>i < length Cs. list_all values_ok (InsertedRows dv (mr_table (mj_Relations p ! i)))"
    and okD: "\<forall>i < length Cs. list_all values_ok (DeletedRows dv (mr_table (mj_Relations p ! i)))"
    using bal by (simp_all add: balanced_def)
  have same: "multiBag p [] Cs = multiBag p [] Bs" unfolding multiBag_def by (rule multi_bag.rows_cong [OF Cs(2), symmetric]) simp
  obtain I D where r: "computes (evalMultiJoinDelta dv p []) (I, D)" "list_all values_ok I" "list_all values_ok D"
    "canons I = canons ?I - canons ?D" "canons D = canons ?D - canons ?I"
    using unprojected_computes [OF ap Cs] fragmentRows_ok [OF v len(1,2) ok okI] fragmentRows_ok [OF v len(1,2) ok okD]
    unfolding len(3) by blast
  from assms(2) have "multiBag p [] Cs + canons ?I = multiBag p [] ?As + canons ?D"
    unfolding one_way_def
  proof
    assume "list_all (\<lambda>rel. DeletedRows dv (mr_table rel) = []) (mj_Relations p)"
    then have none: "\<forall>i < length Cs. DeletedRows dv (mr_table (mj_Relations p ! i)) = []" by (simp add: list_all_length len)
    have "multiBag p [] ?As = multiBag p [] Cs + canons ?I"
      by (rule fragments_telescope [OF v len(1,2) ok okI]) (use bal none in \<open>simp_all add: balanced_def\<close>)
    then show ?thesis unfolding fragments_none [OF none] by simp
  next
    assume "list_all (\<lambda>rel. InsertedRows dv (mr_table rel) = []) (mj_Relations p)"
    then have none: "\<forall>i < length Cs. InsertedRows dv (mr_table (mj_Relations p ! i)) = []" by (simp add: list_all_length len)
    have "multiBag p [] Cs = multiBag p [] ?As + canons ?D"
      by (rule fragments_telescope [OF v len(1,2) ok okD]) (use bal none in \<open>simp_all add: balanced_def\<close>)
    then show ?thesis unfolding fragments_none [OF none] by simp
  qed
  with same show ?thesis using exact_deltaI [OF r] by simp
qed

lemma multiJoinDelta_exact:
  assumes "relations_applied Bs dv p" "projection \<noteq> [] \<or> one_way dv p"
  shows "exact_delta (evalMultiJoinDelta dv p projection) (multiBag p projection Bs) (multiBag p projection (afterRowsOf dv p))"
  using assms projectedMultiJoin_exact oneWayMultiJoin_exact by (cases "projection = []") auto

end
