(* ===== verification/QueryDelta.thy ===== *)
theory QueryDelta
  imports MultiJoinDelta
begin

text \<open>
  Delta evaluation of single-table queries (\<^verbatim>\<open>src/subscription/delta_single.go\<close>), the projection
  of a delta (\<^verbatim>\<open>src/subscription/eval.go\<close>), and the deltas of a commit. The view that the
  evaluator builds from the changeset of a commit and the committed state after it accounts for the
  rows of every table, so each evaluator tells a subscriber exactly how the answer to its query
  changed.
\<close>

text \<open>The tables of a changeset that are event tables; the schema is the registry of the engine.\<close>

definition collectEventTables :: "tableSchema list \<Rightarrow> changeset option \<Rightarrow> (tableID \<times> bool) list" where
  "collectEventTables schemas ch = (case ch of None \<Rightarrow> []
     | Some ch \<Rightarrow> List.map_filter (\<lambda>(table, _).
         case find (\<lambda>ts. ts_id ts = table) schemas of None \<Rightarrow> None
         | Some ts \<Rightarrow> if \<not> ts_isEvent ts then None else Some (table, True)) (ch_tables ch))"

definition evalSingleTableDelta :: "deltaView \<Rightarrow> predicate option \<Rightarrow> tableID \<Rightarrow> (productValue list \<times> productValue list) query" where
  "evalSingleTableDelta dv pred table =
     (let matching = forQ (\<lambda>row out.
            bindQ chargeSubscriptionWork (\<lambda>_.
            if MatchRow pred table row then bindQ (chargeDeltaRow row) (\<lambda>_. ret (out @ [row])) else ret out))
      in bindQ (matching (InsertedRows dv table) []) (\<lambda>ins.
         bindQ (matching (DeletedRows dv table) []) (\<lambda>dels. ret (ins, dels))))"

definition projectRow :: "projectionColumn list \<Rightarrow> productValue \<Rightarrow> productValue" where
  "projectRow projection row = List.map_filter (\<lambda>col. rowValue row (pj_column col)) projection"

definition projectDeltaBatch :: "productValue list \<Rightarrow> projectionColumn list \<Rightarrow> productValue list query" where
  "projectDeltaBatch rows projection =
     (if length rows = 0 \<or> length projection = 0 then ret rows
      else forQ (\<lambda>row out. let projected = projectRow projection row in
        bindQ (chargeDeltaRow projected) (\<lambda>_. ret (out @ [projected]))) rows [])"

definition projectDeltaRows ::
  "productValue list \<Rightarrow> productValue list \<Rightarrow> projectionColumn list \<Rightarrow> bool \<Rightarrow> (productValue list \<times> productValue list) query" where
  "projectDeltaRows ins dels projection reconcile =
     bindQ (projectDeltaBatch ins projection) (\<lambda>ins.
     bindQ (projectDeltaBatch dels projection) (\<lambda>dels.
     if \<not> reconcile \<or> length ins = 0 \<or> length dels = 0 then ret (ins, dels)
     else reconcileJoinDelta [ins] [dels]))"

text \<open>What \<open>evalQuery\<close> computes for a table of a single-table query without a window.\<close>

definition singleTableDelta ::
  "deltaView \<Rightarrow> predicate option \<Rightarrow> tableID \<Rightarrow> projectionColumn list \<Rightarrow> (productValue list \<times> productValue list) query" where
  "singleTableDelta dv pred table projection =
     bindQ (evalSingleTableDelta dv pred table) (\<lambda>(ins, dels). projectDeltaRows ins dels projection True)"

text \<open>What \<open>evalQuery\<close> computes for a join and for a cross join.\<close>

definition joinQueryDelta ::
  "deltaView \<Rightarrow> predicate joinPred \<Rightarrow> indexResolver option \<Rightarrow> int \<Rightarrow> projectionColumn list \<Rightarrow> (productValue list \<times> productValue list) query" where
  "joinQueryDelta dv join resolver lhsWidth projection =
     bindQ (joinDelta dv join resolver lhsWidth) (\<lambda>(ins, dels). projectDeltaRows ins dels projection (length projection > 0))"

definition crossQueryDelta ::
  "deltaView \<Rightarrow> predicate crossJoinPred \<Rightarrow> projectionColumn list \<Rightarrow> (productValue list \<times> productValue list) query" where
  "crossQueryDelta dv p projection =
     bindQ (evalCrossJoinDelta dv p) (\<lambda>(ins, dels). projectDeltaRows ins dels projection (length projection > 0))"

section \<open>Single-table queries\<close>

definition outRow :: "projectionColumn list \<Rightarrow> productValue \<Rightarrow> productValue" where
  "outRow projection row = (if projection = [] then row else projectRow projection row)"

text \<open>The answer to a single-table query over the rows of its table.\<close>

definition singleRows :: "predicate option \<Rightarrow> tableID \<Rightarrow> projectionColumn list \<Rightarrow> productValue list \<Rightarrow> productValue list" where
  "singleRows pred table projection rows = map (outRow projection) (filter (MatchRow pred table) rows)"

lemma outRow_same: "same_row r s \<Longrightarrow> same_row (outRow projection r) (outRow projection s)"
  by (simp add: outRow_def projectRow_def same_row_map_filter rowValue_same_field)

lemma singleRows_ok: "list_all values_ok rows \<Longrightarrow> list_all values_ok (singleRows pred table projection rows)"
  using outRow_same [of r r projection for r] by (auto simp: singleRows_def list_all_iff same_row_refl same_row_def [of "outRow _ _"])

lemma singleRows_bag:
  "canons (singleRows pred table projection rows) =
    (\<Sum>r\<in>#mset rows. if MatchRow pred table r then {#canon (outRow projection r)#} else {#})"
  by (induction rows) (simp_all add: singleRows_def)

lemma singleRows_cong:
  assumes "list_all values_ok X" "list_all values_ok Y" "canons X = canons Y"
  shows "canons (singleRows pred table projection X) = canons (singleRows pred table projection Y)"
  unfolding singleRows_bag
proof (rule sum_canon_cong [OF _ assms])
  fix r s assume s: "same_row r s"
  have "MatchRow pred table r = MatchRow pred table s" unfolding MatchRow_def by (rule MatchRowSide_same [OF s])
  then show "(if MatchRow pred table r then {#canon (outRow projection r)#} else {#}) =
      (if MatchRow pred table s then {#canon (outRow projection s)#} else {#})"
    using same_row_canon [OF outRow_same [OF s]] by simp
qed

lemma singleTable_computes:
  "computes (evalSingleTableDelta dv pred table)
    (filter (MatchRow pred table) (InsertedRows dv table), filter (MatchRow pred table) (DeletedRows dv table))"
proof -
  let ?f = "\<lambda>row out. bindQ chargeSubscriptionWork (\<lambda>_.
    if MatchRow pred table row then bindQ (chargeDeltaRow row) (\<lambda>_. ret (out @ [row])) else ret out)"
  have step: "computes (?f row out) (out @ (if MatchRow pred table row then [row] else []))" for row out
    by (auto intro!: computes_bind [OF computes_work] computes_bind [OF computes_delta] computes_ret)
  have "concat (map (\<lambda>row. if MatchRow pred table row then [row] else []) rows) = filter (MatchRow pred table) rows" for rows
    by (induction rows) simp_all
  then have loop: "computes (forQ ?f rows []) (filter (MatchRow pred table) rows)" for rows
    using computes_collect [of rows ?f "\<lambda>row. if MatchRow pred table row then [row] else []" "[]"] step by simp
  show ?thesis unfolding evalSingleTableDelta_def Let_def
    by (rule computes_bind [OF loop], rule computes_bind [OF loop], rule computes_ret)
qed

lemma projectBatch_computes: "computes (projectDeltaBatch rows projection) (map (outRow projection) rows)"
proof (cases "rows = [] \<or> projection = []")
  case True
  then have "map (outRow projection) rows = rows" by (auto simp: outRow_def [abs_def])
  with True show ?thesis by (auto simp: projectDeltaBatch_def computes_ret)
next
  case False
  have "concat (map (\<lambda>r. [g r]) rs) = map g rs" for g :: "productValue \<Rightarrow> productValue" and rs by (induction rs) simp_all
  then show ?thesis using False computes_collect [of rows "\<lambda>row out. bindQ (chargeDeltaRow (projectRow projection row))
      (\<lambda>_. ret (out @ [projectRow projection row]))" "\<lambda>r. [projectRow projection r]" "[]"]
    by (auto simp: projectDeltaBatch_def Let_def outRow_def [abs_def] intro!: computes_bind [OF computes_delta] computes_ret)
qed

lemma projectRows_computes:
  assumes "list_all values_ok (map (outRow projection) X)" "list_all values_ok (map (outRow projection) Y)"
  shows "\<exists>I D. computes (projectDeltaRows X Y projection True) (I, D) \<and> list_all values_ok I \<and> list_all values_ok D \<and>
    canons I = canons (map (outRow projection) X) - canons (map (outRow projection) Y) \<and>
    canons D = canons (map (outRow projection) Y) - canons (map (outRow projection) X)"
proof -
  let ?X = "map (outRow projection) X" and ?Y = "map (outRow projection) Y"
  have b: "computes m r \<Longrightarrow> (if \<not> True \<or> length ?X = 0 \<or> length ?Y = 0 then ret (?X, ?Y) else reconcileJoinDelta [?X] [?Y]) = m \<Longrightarrow>
      computes (projectDeltaRows X Y projection True) r" for m r
    unfolding projectDeltaRows_def
    by (rule computes_bind [OF projectBatch_computes], rule computes_bind [OF projectBatch_computes]) simp
  show ?thesis
  proof (cases "X = [] \<or> Y = []")
    case True
    with b [OF computes_ret, of "(?X, ?Y)"] assms show ?thesis by (intro exI [of _ ?X] exI [of _ ?Y]) auto
  next
    case False
    obtain I D where r: "computes (reconcileJoinDelta [?X] [?Y]) (I, D)" "list_all values_ok I" "list_all values_ok D"
      "canons I = canons ?X - canons ?Y" "canons D = canons ?Y - canons ?X"
      using reconcile_computes [of "[?X]" "[?Y]"] assms by auto
    from b [OF r(1)] False r(2-) show ?thesis by auto
  qed
qed

lemma singleTableDelta_exact:
  assumes "balanced B (InsertedRows dv t) (rowsAfter dv t) (DeletedRows dv t)"
  shows "exact_delta (singleTableDelta dv pred t projection) (canons (singleRows pred t projection B))
    (canons (singleRows pred t projection (rowsAfter dv t)))"
proof -
  let ?S = "singleRows pred t projection" and ?I = "InsertedRows dv t" and ?D = "DeletedRows dv t" and ?A = "rowsAfter dv t"
  have ok: "list_all values_ok B" "list_all values_ok ?I" "list_all values_ok ?A" "list_all values_ok ?D"
    "canons B + canons ?I = canons ?A + canons ?D" using assms by (simp_all add: balanced_def)
  have "canons (?S (B @ ?I)) = canons (?S (?A @ ?D))" by (rule singleRows_cong) (use ok in simp_all)
  then have bal: "canons (?S B) + canons (?S ?I) = canons (?S ?A) + canons (?S ?D)" by (simp add: singleRows_def)
  obtain I D where r: "computes (projectDeltaRows (filter (MatchRow pred t) ?I) (filter (MatchRow pred t) ?D) projection True) (I, D)"
    "list_all values_ok I" "list_all values_ok D" "canons I = canons (?S ?I) - canons (?S ?D)" "canons D = canons (?S ?D) - canons (?S ?I)"
    using projectRows_computes singleRows_ok [OF ok(2)] singleRows_ok [OF ok(4)] unfolding singleRows_def by blast
  have "computes (singleTableDelta dv pred t projection) (I, D)"
    unfolding singleTableDelta_def by (rule computes_bind [OF singleTable_computes]) (simp add: r(1))
  from exact_deltaI [OF this r(2-5) bal] show ?thesis .
qed

section \<open>Projecting a delta\<close>

lemma outRows_ok: "list_all values_ok rows \<Longrightarrow> list_all values_ok (map (outRow projection) rows)"
  using outRow_same [of r r projection for r] by (auto simp: list_all_iff same_row_refl same_row_def [of "outRow _ _"])

lemma outRows_cong:
  assumes "list_all values_ok X" "list_all values_ok Y" "canons X = canons Y"
  shows "canons (map (outRow projection) X) = canons (map (outRow projection) Y)"
proof -
  have "canons (map (outRow projection) rows) = (\<Sum>r\<in>#mset rows. {#canon (outRow projection r)#})" for rows
    by (induction rows) simp_all
  then show ?thesis using sum_canon_cong [OF _ assms, of "\<lambda>r. {#canon (outRow projection r)#}"] same_row_canon [OF outRow_same] by simp
qed

lemma projected_exact:
  assumes "exact_delta m (canons B) (canons A)" "list_all values_ok B" "list_all values_ok A"
  shows "exact_delta (bindQ m (\<lambda>(ins, dels). projectDeltaRows ins dels projection (length projection > 0)))
    (canons (map (outRow projection) B)) (canons (map (outRow projection) A))"
proof -
  let ?out = "map (outRow projection)"
  obtain I D where m: "computes m (I, D)" "list_all values_ok I" "list_all values_ok D" "canons B + canons I = canons A + canons D"
    "canons I \<inter># canons D = {#}" using assms(1) unfolding exact_delta_def by blast
  show ?thesis
  proof (cases "projection = []")
    case True
    then have id: "?out rows = rows" for rows by (simp add: outRow_def [abs_def])
    have "computes (projectDeltaRows I D projection (length projection > 0)) (I, D)"
      unfolding projectDeltaRows_def
      by (rule computes_bind [OF projectBatch_computes [of I projection, unfolded id]],
          rule computes_bind [OF projectBatch_computes [of D projection, unfolded id]]) (simp add: True computes_ret)
    then have "computes (bindQ m (\<lambda>(ins, dels). projectDeltaRows ins dels projection (length projection > 0))) (I, D)"
      by (intro computes_bind [OF m(1)]) simp
    with m(2-) show ?thesis unfolding exact_delta_def id by blast
  next
    case False
    have bal: "canons (?out B) + canons (?out I) = canons (?out A) + canons (?out D)"
      using outRows_cong [of "B @ I" "A @ D" projection] m(2-4) assms(2,3) by simp
    obtain X Y where r: "computes (projectDeltaRows I D projection True) (X, Y)" "list_all values_ok X" "list_all values_ok Y"
      "canons X = canons (?out I) - canons (?out D)" "canons Y = canons (?out D) - canons (?out I)"
      using projectRows_computes [OF outRows_ok [OF m(2)] outRows_ok [OF m(3)]] by blast
    have "computes (bindQ m (\<lambda>(ins, dels). projectDeltaRows ins dels projection (length projection > 0))) (X, Y)"
      by (intro computes_bind [OF m(1)]) (use r(1) False in simp)
    from exact_deltaI [OF this r(2-5) bal] show ?thesis .
  qed
qed

section \<open>The view of a commit\<close>

lemma insertedOf_set: "x \<in> set (insertedOf tx tid) \<Longrightarrow> x \<in> ran (insOf tx tid)"
  using rowAt_ran by (fastforce simp: insertedOf_def insOf_def)

lemma deletedOf_set: "delsOf tx tid \<subseteq> dom (rowsOf t) \<Longrightarrow> x \<in> set (deletedOf t tx tid) \<Longrightarrow> x \<in> ran (rowsOf t)"
  unfolding deletedOf_def set_map deletes_keys by (force intro: ranI)

text \<open>What a commit does to a table and lists in its changeset.\<close>

definition table_step :: "tableID \<Rightarrow> changeset \<Rightarrow> table \<Rightarrow> table \<Rightarrow> bool" where
  "table_step tid ch t t' \<longleftrightarrow> tbl_inv t' \<and> t_schema t' = t_schema t \<and>
     list_all (row_wf (t_schema t)) (changeInserts ch tid) \<and> list_all (row_wf (t_schema t)) (changeDeletes ch tid) \<and>
     (if ts_isEvent (t_schema t) then changeDeletes ch tid = [] \<and> t_rows t = [] \<and> t_rows t' = []
      else mset (changeDeletes ch tid) \<subseteq># tableBag t \<and>
        tableBag t' + mset (changeDeletes ch tid) = tableBag t + mset (changeInserts ch tid))"

lemma commit_table_step:
  assumes inv: "tx_inv cs tr" and c: "commit_done cs tr n adv cs' tr' ch" and t: "csTable cs tid = Some t"
  shows "\<exists>t'. csTable cs' tid = Some t' \<and> table_step tid ch t t'"
proof -
  let ?tx = "tr_tx tr"
  have rel: "rel_option (post_commit tr tid) (csTable cs tid) (csTable cs' tid)" and ch: "TableChanges (Some ch) = netChange cs ?tx"
    using c by (simp_all add: commit_done_def)
  obtain t' where t': "csTable cs' tid = Some t'" "post_commit tr tid t t'" using rel t by (auto simp: option_rel_Some1)
  have rows: "changeInserts ch tid = insertedOf ?tx tid" "changeDeletes ch tid = deletedOf t ?tx tid"
    by (simp_all add: changeInserts_def changeDeletes_def ch netChange_rows [OF t])
  note ok = tx_inv_table [OF inv t] and p = post_commit_inv [OF inv t t'(2)]
  have sub: "delsOf ?tx tid \<subseteq> dom (rowsOf t)" and ins: "\<forall>x \<in> ran (insOf ?tx tid). row_wf (t_schema t) x"
    using ok(5) by (simp_all add: tx_table_ok_def)
  have wf: "list_all (row_wf (t_schema t)) (insertedOf ?tx tid)" "list_all (row_wf (t_schema t)) (deletedOf t ?tx tid)"
    using ins insertedOf_set deletedOf_set [OF sub] ok(1) by (auto simp: list_all_iff tbl_inv_def)
  have sch: "t_schema t' = t_schema t" using t'(2) by (simp add: post_commit_def)
  have "deletedOf t ?tx tid = []" if "t_rows t = []" using sub that deletedOf_set [OF sub] by (cases "deletedOf t ?tx tid") auto
  moreover have "mset (deletedOf t ?tx tid) \<subseteq># tableBag t"
  proof -
    have "buffers_ok ?tx" using inv by (simp add: tx_inv_def)
    moreover have "rowBag (rowsOf t) = tableBag t"
      unfolding tableBag_def tableScan_eq [OF ok(1)] by (rule rowBag_list) (use ok(1) in \<open>simp add: tbl_inv_def\<close>)
    ultimately show ?thesis
      using deletedOf_bag [OF _ sub] rowBag_split [of "rowsOf t" "delsOf ?tx tid"] by (simp add: finite_dom_map_of) (metis mset_subset_eq_add_right)
  qed
  ultimately have "table_step tid ch t t'"
    using p ok(4) wf sch commit_bag [OF inv t t'(2)] by (simp add: table_step_def rows tableBag_def)
  with t'(1) show ?thesis by blast
qed

lemma db_step_tables:
  assumes "db_step cs ch cs'" "cs_inv cs"
  shows "cs_inv cs' \<and> changeset_wf ch \<and> (\<forall>tid. case csTable cs tid of
      None \<Rightarrow> csTable cs' tid = None \<and> changeInserts ch tid = [] \<and> changeDeletes ch tid = []
    | Some t \<Rightarrow> \<exists>t'. csTable cs' tid = Some t' \<and> table_step tid ch t t')"
proof -
  obtain ops tr oks txID validate tr' where r: "list_all tx_op_ok ops" "tx_run cs NewTransaction ops = Some (tr, oks)"
    "CommitWithValidationAtTxID cs (Seal tr) txID validate = Some (cs', tr', Inr ch)"
    using assms(1) by (auto elim: db_step.cases)
  have inv: "tx_inv cs (Seal tr)" "tx_open (Seal tr)" using run_committable [OF assms(2) r(1)] r(2) by auto
  have c: "commit_done cs (Seal tr) txID True cs' tr' ch" "cs_inv cs'"
    using commit_result [OF inv] r(3) by (simp_all add: CommitWithValidationAtTxID_def)
  have "csTable cs' tid = None \<and> changeInserts ch tid = [] \<and> changeDeletes ch tid = []" if "csTable cs tid = None" for tid
  proof -
    have "rel_option (post_commit (Seal tr) tid) (csTable cs tid) (csTable cs' tid)"
      "TableChanges (Some ch) = netChange cs (tr_tx (Seal tr))" using c(1) by (simp_all add: commit_done_def)
    with that show ?thesis by (simp add: changeInserts_def changeDeletes_def netChange_def)
  qed
  moreover have "changeset_wf ch" using c(1) by (simp add: commit_done_def)
  ultimately show ?thesis using c(2) commit_table_step [OF inv(1) c(1)] by (auto split: option.split)
qed

text \<open>The registry describes the tables, and a row key can count the columns of a row.\<close>

definition schema_ready :: "tableSchema list \<Rightarrow> committedState \<Rightarrow> bool" where
  "schema_ready schemas cs \<longleftrightarrow> registered schemas cs \<and> list_all (\<lambda>ts. length (ts_columns ts) \<le> 4294967295) schemas"

definition tableRows :: "committedState \<Rightarrow> tableID \<Rightarrow> productValue list" where
  "tableRows cs t = map snd (viewTableScan cs t)"

text \<open>A commit and the view the evaluator builds of it.\<close>

definition commit_view ::
  "tableSchema list \<Rightarrow> (tableID \<times> colID list) list \<Rightarrow> committedState \<Rightarrow> changeset \<Rightarrow> committedState \<Rightarrow> deltaView \<Rightarrow> bool" where
  "commit_view schemas cols cs ch cs' dv \<longleftrightarrow> cs_inv cs \<and> schema_ready schemas cs \<and> db_step cs ch cs' \<and> distinct (map fst cols) \<and>
     NewDeltaView (Some cs') (Some ch) cols (Some (collectEventTables schemas (Some ch))) = Some dv"

lemma rows_values_ok: "list_all (row_wf ts) rows \<Longrightarrow> list_all values_ok rows"
  by (induction rows) (auto intro: row_wf_values_ok)

lemma commit_changes_wf:
  assumes "db_step cs ch cs'" "cs_inv cs"
  shows "list_all values_ok (changeInserts ch t)" "list_all values_ok (changeDeletes ch t)"
  using db_step_tables [OF assms] by (auto simp: table_step_def split: option.splits dest!: spec [of _ t] intro: rows_values_ok)

text \<open>Every commit has such a view.\<close>

lemma commit_view_exists:
  assumes "cs_inv cs" "schema_ready schemas cs" "db_step cs ch cs'" "distinct (map fst cols)"
  shows "\<exists>dv. commit_view schemas cols cs ch cs' dv"
proof -
  have "changeset_wf ch" using db_step_tables [OF assms(3,1)] by simp
  then show ?thesis
    using NewDeltaView_ok [OF _ assms(4) commit_changes_wf [OF assms(3,1)]] assms unfolding commit_view_def changeset_wf_def by blast
qed

lemma commit_view_rows:
  assumes "commit_view schemas cols cs ch cs' dv"
  shows "dv_wf dv" "dv_committed dv = Some cs'" "InsertedRows dv t = changeInserts ch t" "DeletedRows dv t = changeDeletes ch t"
    "IsEventTable dv t \<longleftrightarrow> (t, True) \<in> set (collectEventTables schemas (Some ch))"
    "(t, cs1) \<in> set cols \<Longrightarrow> col \<in> set cs1 \<Longrightarrow> indexed dv t col"
proof -
  note a = assms [unfolded commit_view_def]
  have "changeset_wf ch" using db_step_tables [of cs ch cs'] a by simp
  then obtain dv' where "NewDeltaView (Some cs') (Some ch) cols (Some (collectEventTables schemas (Some ch))) = Some dv'"
    "dv_wf dv'" "dv_committed dv' = Some cs'"
    "\<forall>t. InsertedRows dv' t = changeInserts ch t \<and> DeletedRows dv' t = changeDeletes ch t \<and>
      (IsEventTable dv' t \<longleftrightarrow> (t, True) \<in> set (collectEventTables schemas (Some ch)))"
    "\<forall>(t, cols) \<in> set cols. \<forall>col \<in> set cols. indexed dv' t col"
    using NewDeltaView_ok [OF _ _ commit_changes_wf [of cs ch cs'], of cols "Some cs'" "Some (collectEventTables schemas (Some ch))"] a
    unfolding changeset_wf_def by fastforce
  moreover from this(1) a have "dv' = dv" by simp
  ultimately show "dv_wf dv" "dv_committed dv = Some cs'" "InsertedRows dv t = changeInserts ch t" "DeletedRows dv t = changeDeletes ch t"
    "IsEventTable dv t \<longleftrightarrow> (t, True) \<in> set (collectEventTables schemas (Some ch))"
    "(t, cs1) \<in> set cols \<Longrightarrow> col \<in> set cs1 \<Longrightarrow> indexed dv t col" by auto
qed

lemma tableRows_table:
  "csTable cs t = None \<Longrightarrow> tableRows cs t = []" "csTable cs t = Some u \<Longrightarrow> tableRows cs t = map snd (tableScan u)"
  by (simp_all add: tableRows_def viewTableScan_def csTable_def)

lemma map_find_distinct: "distinct (map g xs) \<Longrightarrow> x \<in> set xs \<Longrightarrow> find (\<lambda>y. g y = g x) xs = Some x"
  by (induction xs) auto

lemma collectEvents_iff:
  assumes "registered schemas cs" "csTable cs t = Some u" "TableChanges (Some ch) t \<noteq> None"
  shows "(t, True) \<in> set (collectEventTables schemas (Some ch)) \<longleftrightarrow> ts_isEvent (t_schema u)"
proof -
  have s: "distinct (map ts_id schemas)" "t_schema u \<in> set schemas" "ts_id (t_schema u) = t"
    using assms(1,2) by (simp_all add: registered_def)
  have f: "find (\<lambda>ts. ts_id ts = t) schemas = Some (t_schema u)" using map_find_distinct [OF s(1,2)] s(3) by simp
  obtain c where "(t, c) \<in> set (ch_tables ch)"
    using assms(3) by (auto simp: TableChanges_def split: option.splits dest: map_of_SomeD)
  then show ?thesis using f
    by (auto simp: collectEventTables_def List.map_filter_def split: option.splits if_splits) force+
qed

lemma commit_view_after:
  assumes v: "commit_view schemas cols cs ch cs' dv" and u: "csTable cs t = Some u"
  shows "rowsAfter dv t = tableRows cs' t @ (if ts_isEvent (t_schema u) then changeInserts ch t else [])"
proof -
  note r = commit_view_rows [OF v]
  have reg: "registered schemas cs" using v by (simp add: commit_view_def schema_ready_def)
  have "changeInserts ch t = []" if "TableChanges (Some ch) t = None" using that by (simp add: changeInserts_def)
  then have "(if IsEventTable dv t then InsertedRows dv t else []) = (if ts_isEvent (t_schema u) then changeInserts ch t else [])"
    using collectEvents_iff [OF reg u, of ch] r(3,5) [of t] by (cases "TableChanges (Some ch) t = None") auto
  then show ?thesis by (simp add: rowsAfter_def CommittedScan_def r(2) tableRows_def)
qed

lemma wf_rows_keyed:
  assumes "list_all (row_wf ts) rows" "length (ts_columns ts) \<le> 4294967295"
  shows "list_all keyed rows"
  using assms row_wf_values_ok row_wf_length by (auto simp: list_all_iff keyed_def)

lemma table_rows_wf: "tbl_inv u \<Longrightarrow> list_all (row_wf (t_schema u)) (map snd (tableScan u))"
proof -
  assume inv: "tbl_inv u"
  then have "distinct (map fst (t_rows u))" by (simp add: tbl_inv_def)
  then have "rowsOf u (fst x) = Some (snd x)" if "x \<in> set (t_rows u)" for x using that by simp
  then show ?thesis unfolding tableScan_eq [OF inv] using tbl_inv_row [OF inv] by (auto simp: list_all_iff)
qed

lemma mset_canons: "mset xs + mset ys = mset us + mset vs \<Longrightarrow> canons xs + canons ys = canons us + canons vs"
  using canons_mset [of "xs @ ys" "us @ vs"] by simp

text \<open>The view of a commit accounts for the rows of every table.\<close>

lemma commit_applied:
  assumes v: "commit_view schemas cols cs ch cs' dv"
  shows "applied (tableRows cs t) dv t"
proof -
  note r = commit_view_rows [OF v] and a = v [unfolded commit_view_def]
  note st = db_step_tables [of cs ch cs', THEN conjunct2, THEN conjunct2, rule_format, of t]
  show ?thesis
  proof (cases "csTable cs t")
    case None
    have n: "csTable cs' t = None" "InsertedRows dv t = []" "DeletedRows dv t = []" using st None a r(3,4) by simp_all
    then have "rowsAfter dv t = []" using tableRows_table(1) [of cs' t] by (simp add: rowsAfter_def CommittedScan_def r(2) tableRows_def)
    then show ?thesis by (simp add: applied_def table_keyed_def balanced_def n tableRows_table(1) [OF None])
  next
    case (Some u)
    obtain u' where u': "csTable cs' t = Some u'" "table_step t ch u u'" using st Some a by auto
    have inv: "tbl_inv u" using a Some by (simp add: cs_inv_def)
    have small: "length (ts_columns (t_schema u)) \<le> 4294967295"
      using a Some by (auto simp: schema_ready_def registered_def list_all_iff)
    note s = u'(2) [unfolded table_step_def]
    have B: "list_all (row_wf (t_schema u)) (tableRows cs t)" and A: "list_all (row_wf (t_schema u)) (tableRows cs' t)"
      using table_rows_wf [OF inv] table_rows_wf [of u'] s tableRows_table(2) [OF Some] tableRows_table(2) [OF u'(1)] by simp_all
    have after_wf: "list_all (row_wf (t_schema u)) (rowsAfter dv t)" using commit_view_after [OF v Some] A s by simp
    have bags: "mset (rowsAfter dv t) + mset (changeDeletes ch t) = mset (tableRows cs t) + mset (changeInserts ch t)"
      "mset (changeInserts ch t) \<subseteq># mset (rowsAfter dv t)"
    proof -
      have bag: "mset (tableRows cs t) = tableBag u" "mset (tableRows cs' t) = tableBag u'"
        by (simp_all add: tableBag_def tableRows_table(2) [OF Some] tableRows_table(2) [OF u'(1)])
      show "mset (rowsAfter dv t) + mset (changeDeletes ch t) = mset (tableRows cs t) + mset (changeInserts ch t)"
        using s by (auto simp: commit_view_after [OF v Some] bag tableBag_def tableScan_def)
      show "mset (changeInserts ch t) \<subseteq># mset (rowsAfter dv t)"
      proof (cases "ts_isEvent (t_schema u)")
        case False
        then have e: "tableBag u' + mset (changeDeletes ch t) = tableBag u + mset (changeInserts ch t)"
          and d: "mset (changeDeletes ch t) \<subseteq># tableBag u" using s by simp_all
        have "tableBag u' = tableBag u - mset (changeDeletes ch t) + mset (changeInserts ch t)"
          using e d by (metis add_diff_cancel_right' subset_mset.add_diff_assoc2)
        with False show ?thesis by (simp add: commit_view_after [OF v Some] bag)
      qed (simp add: commit_view_after [OF v Some])
    qed
    have "canons (changeInserts ch t) \<subseteq># canons (rowsAfter dv t)"
      unfolding canons_def mset_map by (rule image_mset_subseteq_mono [OF bags(2)])
    moreover have "canons (tableRows cs t) + canons (changeInserts ch t) = canons (rowsAfter dv t) + canons (changeDeletes ch t)"
      using mset_canons [OF bags(1)] by simp
    ultimately show ?thesis
      using s B after_wf wf_rows_keyed [OF _ small] rows_values_ok
      by (auto simp: applied_def table_keyed_def balanced_def r(3,4))
  qed
qed

section \<open>The answers of joins\<close>

definition ColumnCount :: "tableSchema list \<Rightarrow> tableID \<Rightarrow> int" where
  "ColumnCount schemas table = (case find (\<lambda>ts. ts_id ts = table) schemas of None \<Rightarrow> 0 | Some ts \<Rightarrow> int (length (ts_columns ts)))"

text \<open>The projected side of the pairs that join, and of the pairs of a cross join.\<close>

definition joinAnswer :: "predicate joinPred \<Rightarrow> productValue list \<Rightarrow> productValue list \<Rightarrow> productValue list" where
  "joinAnswer join L R = map (\<lambda>(l, r). if jn_ProjectRight join then r else l) (filter (\<lambda>(l, r). joinsOn join l r) (List.product L R))"

definition crossAnswer :: "predicate crossJoinPred \<Rightarrow> productValue list \<Rightarrow> productValue list \<Rightarrow> productValue list" where
  "crossAnswer p L R = concat (map (\<lambda>(l, r). crossPair p l r) (List.product L R))"

lemma bagPairs_product: "bagPairs f L R = (\<Sum>(l, r)\<in>#mset (List.product L R). f l r)"
  by (induction L) (simp_all add: bagPairs_def image_mset.compositionality comp_def)

lemma joinAnswer_bag:
  assumes "\<forall>l \<in> set L. int (length l) = w"
  shows "canons (joinAnswer join L R) = bagPairs (joinOut join w (jn_ProjectRight join)) L R"
proof -
  have out: "joinOut join w (jn_ProjectRight join) l r = (if joinsOn join l r then {#canon (if jn_ProjectRight join then r else l)#} else {#})"
    if "l \<in> set L" for l r
  proof -
    have w: "int (length l) = w" using assms that by blast
    have "joinsOn join l r \<Longrightarrow> l \<noteq> []" by (auto simp: joinsOn_def rowValue_def)
    then show ?thesis using w by (auto simp: joinOut_def projectJoinedRows_def)
  qed
  have "canons (map (\<lambda>(l, r). if jn_ProjectRight join then r else l) (filter (\<lambda>(l, r). joinsOn join l r) ps)) =
      (\<Sum>(l, r)\<in>#mset ps. joinOut join w (jn_ProjectRight join) l r)" if "fst ` set ps \<subseteq> set L" for ps
    using that by (induction ps) (auto simp: out)
  then show ?thesis unfolding joinAnswer_def bagPairs_product by force
qed

lemma crossAnswer_bag: "canons (crossAnswer p L R) = bagPairs (crossOut p) L R"
  unfolding crossAnswer_def bagPairs_product canons_concat by (simp add: crossOut_def case_prod_unfold)

lemma joinAnswer_ok: "list_all values_ok L \<Longrightarrow> list_all values_ok R \<Longrightarrow> list_all values_ok (joinAnswer join L R)"
  by (auto simp: joinAnswer_def list_all_iff)

lemma crossAnswer_ok: "list_all values_ok L \<Longrightarrow> list_all values_ok R \<Longrightarrow> list_all values_ok (crossAnswer p L R)"
  by (auto simp: crossAnswer_def crossPair_def list_all_iff)

section \<open>The deltas of a commit\<close>

lemma view_rows_wf:
  assumes v: "commit_view schemas cols cs ch cs' dv" and u: "csTable cs t = Some u"
  shows "list_all (row_wf (t_schema u)) (tableRows cs t)" "list_all (row_wf (t_schema u)) (rowsAfter dv t)"
    "list_all (row_wf (t_schema u)) (sideRows s dv t)"
proof -
  note a = v [unfolded commit_view_def]
  obtain u' where u': "csTable cs' t = Some u'" "table_step t ch u u'" using db_step_tables [of cs ch cs'] a u by (auto dest!: spec [of _ t])
  have "tbl_inv u" using a u by (simp add: cs_inv_def)
  then show "list_all (row_wf (t_schema u)) (tableRows cs t)" using table_rows_wf tableRows_table(2) [OF u] by simp
  show "list_all (row_wf (t_schema u)) (rowsAfter dv t)"
    using commit_view_after [OF v u] table_rows_wf [of u'] tableRows_table(2) [OF u'(1)] u'(2) by (simp add: table_step_def)
  show "list_all (row_wf (t_schema u)) (sideRows s dv t)"
    using u'(2) commit_view_rows(3,4) [OF v] by (simp add: table_step_def sideRows_def)
qed

lemma view_no_table:
  assumes v: "commit_view schemas cols cs ch cs' dv" and n: "csTable cs t = None"
  shows "csTable cs' t = None" "tableRows cs t = []" "rowsAfter dv t = []" "sideRows s dv t = []"
proof -
  note a = v [unfolded commit_view_def]
  have c: "csTable cs' t = None" "changeInserts ch t = []" "changeDeletes ch t = []"
    using db_step_tables [of cs ch cs'] a n by (auto dest!: spec [of _ t])
  then show "csTable cs' t = None" "tableRows cs t = []" "sideRows s dv t = []"
    using commit_view_rows(3,4) [OF v] tableRows_table(1) [OF n] by (simp_all add: sideRows_def)
  show "rowsAfter dv t = []" using c commit_view_rows [OF v] tableRows_table(1) [of cs' t]
    by (simp add: rowsAfter_def CommittedScan_def tableRows_def)
qed

lemma view_registered:
  assumes v: "commit_view schemas cols cs ch cs' dv"
  shows "registered schemas cs'"
proof -
  note a = v [unfolded commit_view_def]
  have "t_schema u' \<in> set schemas \<and> ts_id (t_schema u') = t" if u': "csTable cs' t = Some u'" for t u'
  proof -
    obtain u where u: "csTable cs t = Some u" using view_no_table(1) [OF v, of t] u' by (cases "csTable cs t") auto
    then have "t_schema u' = t_schema u" using db_step_tables [of cs ch cs'] a u' by (auto simp: table_step_def dest!: spec [of _ t])
    with a u show ?thesis by (simp add: schema_ready_def registered_def)
  qed
  with a show ?thesis by (simp add: schema_ready_def registered_def)
qed

text \<open>The columns of a registered join have the same kind.\<close>

definition join_typed :: "tableSchema list \<Rightarrow> predicate joinPred \<Rightarrow> bool" where
  "join_typed schemas join \<longleftrightarrow> list_all (\<lambda>ls. list_all (\<lambda>rs.
     ts_id ls = jn_Left join \<longrightarrow> ts_id rs = jn_Right join \<longrightarrow>
       c_type (ts_columns ls ! nat (jn_LeftCol join)) = c_type (ts_columns rs ! nat (jn_RightCol join))) schemas) schemas"

lemma view_kind:
  assumes v: "commit_view schemas cols cs ch cs' dv" and "row \<in> set (sideRows s dv t)" "rowValue row c = Some x"
  shows "\<exists>u. csTable cs t = Some u \<and> v_kind x = c_type (ts_columns (t_schema u) ! nat c)"
proof -
  obtain u where u: "csTable cs t = Some u" using view_no_table(4) [OF v] assms(2) by (cases "csTable cs t") auto
  have "row_wf (t_schema u) row" using view_rows_wf(3) [OF v u] assms(2) by (auto simp: list_all_iff)
  from row_wf_nth [OF this, of "nat c"] assms(3) u show ?thesis by (auto simp: rowValue_def value_fits_def split: if_splits)
qed

lemma view_join_ready:
  assumes v: "commit_view schemas cols cs ch cs' dv" and "join_typed schemas join"
    and "(jn_Right join, rightCols) \<in> set cols" "jn_RightCol join \<in> set rightCols"
  shows "join_ready schemas dv cs' join"
proof -
  note a = v [unfolded commit_view_def] and r = view_registered [OF v]
  have ty: "c_type (ts_columns (t_schema ul) ! nat (jn_LeftCol join)) = c_type (ts_columns (t_schema ur) ! nat (jn_RightCol join))"
    if "registered schemas x" "csTable x (jn_Left join) = Some ul" "registered schemas y" "csTable y (jn_Right join) = Some ur" for ul ur x y
    using that assms(2) by (auto simp: join_typed_def list_all_iff registered_def)
  have reg: "registered schemas cs" using a by (simp add: schema_ready_def)
  have "cs_inv cs'" using db_step_tables [of cs ch cs'] a by simp
  moreover have "c_type (ts_columns (t_schema t) ! nat (jn_RightCol join)) = v_kind x"
    if "l \<in> set (sideRows s dv (jn_Left join))" "rowValue l (jn_LeftCol join) = Some x" "csTable cs' (jn_Right join) = Some t" for s l x t
    using view_kind [OF v that(1,2)] ty [OF reg _ r that(3)] by auto
  moreover have "c_type (ts_columns (t_schema t) ! nat (jn_LeftCol join)) = v_kind x"
    if "l \<in> set (sideRows s dv (jn_Right join))" "rowValue l (jn_RightCol join) = Some x" "csTable cs' (jn_Left join) = Some t" for s l x t
    using view_kind [OF v that(1,2)] ty [OF r that(3) reg] by auto
  ultimately show ?thesis unfolding join_ready_def using commit_view_rows(1,2,6) [OF v] r assms(3,4) by blast
qed

lemma view_width:
  assumes v: "commit_view schemas cols cs ch cs' dv"
  shows "\<forall>l \<in> set (tableRows cs t). int (length l) = ColumnCount schemas t" "\<forall>l \<in> set (rowsAfter dv t). int (length l) = ColumnCount schemas t"
proof -
  have "(\<forall>l \<in> set (tableRows cs t). int (length l) = ColumnCount schemas t) \<and> (\<forall>l \<in> set (rowsAfter dv t). int (length l) = ColumnCount schemas t)"
  proof (cases "csTable cs t")
    case None
    then show ?thesis using view_no_table [OF v None] by simp
  next
    case (Some u)
    have s: "distinct (map ts_id schemas)" "t_schema u \<in> set schemas" "ts_id (t_schema u) = t"
      using v Some by (simp_all add: commit_view_def schema_ready_def registered_def)
    have "ColumnCount schemas t = int (length (ts_columns (t_schema u)))" using map_find_distinct [OF s(1,2)] s(3) by (simp add: ColumnCount_def)
    then show ?thesis using view_rows_wf(1,2) [OF v Some] row_wf_length by (auto simp: list_all_iff)
  qed
  then show "\<forall>l \<in> set (tableRows cs t). int (length l) = ColumnCount schemas t" "\<forall>l \<in> set (rowsAfter dv t). int (length l) = ColumnCount schemas t"
    by simp_all
qed

lemma commit_balanced: "commit_view schemas cols cs ch cs' dv \<Longrightarrow> balanced (tableRows cs t) (InsertedRows dv t) (rowsAfter dv t) (DeletedRows dv t)"
  using commit_applied by (auto simp: applied_def)

subsection \<open>A spurious deletion\<close>

lemma spurious_delete:
  assumes ap: "relations_applied [[r1], [], [r3]] dv p" and "tupleMatches p [r1, r2, r3]"
    and "map (\<lambda>rel. (InsertedRows dv (mr_table rel), DeletedRows dv (mr_table rel), rowsAfter dv (mr_table rel))) (mj_Relations p) =
      [([], [r1], []), ([r2], [], [r2]), ([], [], [r3])]"
  shows "\<exists>D. computes (evalMultiJoinDelta dv p []) ([], D) \<and> canons D = {#canon (projectMultiJoinTuple [r1, r2, r3] p [])#}"
proof -
  obtain a b c where rels: "mj_Relations p = [a, b, c]" using assms(3) by (auto simp: map_eq_Cons_conv)
  note rows = assms(3) [unfolded rels, simplified]
  have As: "afterRowsOf dv p = [[], [r2], [r3]]" using rows by (simp add: afterRowsOf_def rels)
  obtain Cs where Cs: "computes (multiJoinRowsByRelationBefore dv p) Cs" "list_all2 same_rows [[r1], [], [r3]] Cs"
    using beforeRowsOf_computes [OF ap] by blast
  then have len: "length Cs = 3" by (auto dest: list_all2_lengthD)
  have upt: "[0..<length [[r1], [], [r3]]] = [0, 1, 2]" by (simp add: upt_rec)
  have I: "concat (map (fragmentRows p Cs (afterRowsOf dv p) (InsertedRows dv) True) [0, 1, 2]) = []"
    using rows len by (simp add: fragmentRows_def As rels multiJoinDeltaRowsByRelation_def upt_rec multiJoinRows_def)
  have D: "concat (map (fragmentRows p Cs (afterRowsOf dv p) (DeletedRows dv) False) [0, 1, 2]) = [projectMultiJoinTuple [r1, r2, r3] p []]"
    using rows len assms(2) by (simp add: fragmentRows_def As rels multiJoinDeltaRowsByRelation_def upt_rec multiJoinRows_def)
  have v: "projectsValid p" using ap by (simp add: relations_applied_def)
  have "values_ok r1" "values_ok r2" "values_ok r3" using applied_ok(2,3) [OF ap] by (simp_all add: As)
  then have "list_all values_ok (multiJoinRows p [] [[r1], [r2], [r3]])" by (intro multiJoinRows_ok [OF _ v]) (simp_all add: rels)
  then have ok: "values_ok (projectMultiJoinTuple [r1, r2, r3] p [])" using assms(2) by (simp add: multiJoinRows_def)
  have "\<exists>I D. computes (evalMultiJoinDelta dv p []) (I, D) \<and> list_all values_ok I \<and> list_all values_ok D \<and>
      canons I = {#} \<and> canons D = {#canon (projectMultiJoinTuple [r1, r2, r3] p [])#}"
    using unprojected_computes [OF ap Cs] ok unfolding upt I D by simp
  then show ?thesis by (auto simp: canons_def)
qed

section \<open>A commit over three tables\<close>

text \<open>The history the witnesses use: the first commit fills the tables 1 and 3, the second moves the row of table 1 to table 2.\<close>

definition triSchema :: "tableID \<Rightarrow> tableSchema" where
  "triSchema n = exampleSchema\<lparr>ts_id := n\<rparr>"

definition triState :: committedState where
  "triState = RegisterTable (RegisterTable (RegisterTable NewCommittedState
     1 (NewTable (triSchema 1))) 2 (NewTable (triSchema 2))) 3 (NewTable (triSchema 3))"

definition triFill :: "tx_op list" where
  "triFill = [TxInsert 1 (tagRow 5 1), TxInsert 3 (tagRow 5 3)]"

definition triMove :: "tx_op list" where
  "triMove = [TxDelete 1 1, TxInsert 2 (tagRow 5 2)]"

definition runCommit :: "committedState \<Rightarrow> tx_op list \<Rightarrow> txID \<Rightarrow> (changeset \<times> committedState) option" where
  "runCommit cs ops n = (case tx_run cs NewTransaction ops of None \<Rightarrow> None
     | Some (tr, _) \<Rightarrow> (case CommitWithValidationAtTxID cs (Seal tr) n None of
         Some (cs', _, Inr ch) \<Rightarrow> Some (ch, cs') | _ \<Rightarrow> None))"

lemma runCommit_step: "list_all tx_op_ok ops \<Longrightarrow> runCommit cs ops n = Some (ch, cs') \<Longrightarrow> db_step cs ch cs'"
  by (auto simp: runCommit_def split: option.splits sum.splits prod.splits intro: db_step.commit)

lemma triState_table: "csTable triState tid = (if tid = 3 then Some (NewTable (triSchema 3)) else if tid = 2 then Some (NewTable (triSchema 2))
    else if tid = 1 then Some (NewTable (triSchema 1)) else None)"
  by (simp add: triState_def csTable_def tableLocked_def RegisterTable_def NewCommittedState_def)

lemma triState_inv: "cs_inv triState"
proof -
  have "schema_wf exampleSchema" by (simp add: schema_wf_def exampleSchema_def NewIndexSchema_def)
  then have "schema_wf (triSchema n)" for n by (simp add: schema_wf_def triSchema_def)
  then have "tbl_inv (NewTable (triSchema n))" for n by (rule tbl_inv_NewTable)
  moreover have "alloc_ok (NewTable (triSchema n))" "seq_wf (NewTable (triSchema n))" "t_rows (NewTable (triSchema n)) = []" for n
    by (simp_all add: alloc_ok_def seq_wf_def NewTable_def exampleSchema_def triSchema_def)
  moreover have "distinct (map fst (cs_tables triState))" by (simp add: triState_def RegisterTable_def NewCommittedState_def)
  ultimately show ?thesis by (simp add: cs_inv_def triState_table)
qed

lemma triRun:
  "case runCommit triState triFill 1 of None \<Rightarrow> False | Some (_, cs) \<Rightarrow>
    map (tableRows cs) [1, 2, 3] = [[tagRow 5 1], [], [tagRow 5 3]] \<and>
    (case runCommit cs triMove 2 of None \<Rightarrow> False | Some (ch, cs') \<Rightarrow>
      map (tableRows cs') [1, 2, 3] = [[], [tagRow 5 2], [tagRow 5 3]] \<and>
      map (changeInserts ch) [1, 2, 3] = [[], [tagRow 5 2], []] \<and> map (changeDeletes ch) [1, 2, 3] = [[tagRow 5 1], [], []])"
  by code_simp

abbreviation triSchemas :: "tableSchema list" where
  "triSchemas \<equiv> map triSchema [1, 2, 3]"

abbreviation triColumns :: "(tableID \<times> colID list) list" where
  "triColumns \<equiv> [(1, [0]), (2, [0]), (3, [0])]"

lemma triState_ready: "schema_ready triSchemas triState"
  by (auto simp: schema_ready_def registered_def triState_table NewTable_def triSchema_def exampleSchema_def split: if_splits)

lemma tri_view:
  "\<exists>cs ch cs' dv. commit_view triSchemas triColumns cs ch cs' dv \<and>
    tableRows cs 1 = [tagRow 5 1] \<and> tableRows cs 2 = [] \<and> tableRows cs 3 = [tagRow 5 3] \<and>
    rowsAfter dv 1 = [] \<and> rowsAfter dv 2 = [tagRow 5 2] \<and> rowsAfter dv 3 = [tagRow 5 3] \<and>
    InsertedRows dv 1 = [] \<and> InsertedRows dv 2 = [tagRow 5 2] \<and> InsertedRows dv 3 = [] \<and>
    DeletedRows dv 1 = [tagRow 5 1] \<and> DeletedRows dv 2 = [] \<and> DeletedRows dv 3 = []"
proof -
  obtain ch1 cs ch cs' where r: "runCommit triState triFill 1 = Some (ch1, cs)" "runCommit cs triMove 2 = Some (ch, cs')"
    and rows: "tableRows cs 1 = [tagRow 5 1]" "tableRows cs 2 = []" "tableRows cs 3 = [tagRow 5 3]"
      "tableRows cs' 1 = []" "tableRows cs' 2 = [tagRow 5 2]" "tableRows cs' 3 = [tagRow 5 3]"
      "changeInserts ch 1 = []" "changeInserts ch 2 = [tagRow 5 2]" "changeInserts ch 3 = []"
      "changeDeletes ch 1 = [tagRow 5 1]" "changeDeletes ch 2 = []" "changeDeletes ch 3 = []"
    using triRun by (auto split: option.splits)
  have ops: "list_all tx_op_ok triFill" "list_all tx_op_ok triMove" by (simp_all add: triFill_def triMove_def tagRow_values_ok)
  have d: "distinct (map fst triColumns)" by simp
  have s1: "db_step triState ch1 cs" and s2: "db_step cs ch cs'" using runCommit_step r ops by blast+
  obtain dv1 where v1: "commit_view triSchemas triColumns triState ch1 cs dv1" using commit_view_exists [OF triState_inv triState_ready s1 d] by blast
  have "schema_ready triSchemas cs" using triState_ready view_registered [OF v1] by (simp add: schema_ready_def)
  moreover have "cs_inv cs" using db_step_tables [OF s1 triState_inv] by simp
  ultimately obtain dv where v: "commit_view triSchemas triColumns cs ch cs' dv" using commit_view_exists [OF _ _ s2 d] by blast
  have plain: "\<not> ts_isEvent (t_schema u)" if "csTable cs t = Some u" for t u
  proof -
    have "t_schema u \<in> set triSchemas" using v that unfolding commit_view_def schema_ready_def registered_def by blast
    then show ?thesis by (auto simp: triSchema_def exampleSchema_def)
  qed
  have "rowsAfter dv t = tableRows cs' t" for t
  proof (cases "csTable cs t")
    case None
    then show ?thesis using view_no_table(1,3) [OF v None] tableRows_table(1) by simp
  next
    case (Some u)
    then show ?thesis using commit_view_after [OF v Some] plain [OF Some] by simp
  qed
  then show ?thesis using v rows commit_view_rows(3,4) [OF v] by (intro exI [of _ cs] exI [of _ ch] exI [of _ cs'] exI [of _ dv]) simp
qed

section \<open>Properties\<close>

text \<open>
  C9. Single-table subscriptions see every change. For any commit and the view built of it, any
  predicate and projection, the evaluator returns, unless a work or size quota stops it, a delta
  that has no row on both sides and turns the answer before the commit into the answer after it,
  as bags of equal rows.
\<close>

theorem single_table_delta_exact:
  assumes "commit_view schemas cols cs ch cs' dv"
  shows "exact_delta (singleTableDelta dv pred t projection) (canons (singleRows pred t projection (tableRows cs t)))
    (canons (singleRows pred t projection (rowsAfter dv t)))"
  by (rule singleTableDelta_exact [OF commit_balanced [OF assms]])

theorem single_table_delta_exact_witness:
  "\<exists>cs ch cs' dv. commit_view triSchemas triColumns cs ch cs' dv \<and>
    exact_delta (singleTableDelta dv (Some (ColEq 2 0 0 (NewUint64 5))) 2 []) (canons []) (canons [tagRow 5 2])"
proof -
  obtain cs ch cs' dv where v: "commit_view triSchemas triColumns cs ch cs' dv" "tableRows cs 2 = []" "rowsAfter dv 2 = [tagRow 5 2]"
    using tri_view by blast
  have "MatchRow (Some (ColEq 2 0 0 (NewUint64 5))) 2 (tagRow 5 2)" by code_simp
  with v single_table_delta_exact [OF v(1), of "Some (ColEq 2 0 0 (NewUint64 5))" 2 "[]"] show ?thesis
    by (auto simp: singleRows_def outRow_def)
qed

text \<open>
  C4. Join subscriptions see every change. For any commit, the four insert and four delete
  fragments of a join, through committed indexes, the indexes of the delta or nested scans, are
  cut to one side, reconciled and projected to a delta that turns the answer over the tables
  before the commit into the answer after it, also for self joins and event tables.
\<close>

theorem join_delta_exact:
  assumes "commit_view schemas cols cs ch cs' dv" "join_typed schemas join"
    and "(jn_Right join, rightCols) \<in> set cols" "jn_RightCol join \<in> set rightCols"
  shows "exact_delta (joinQueryDelta dv join (Some (indexIDForColumn schemas)) (ColumnCount schemas (jn_Left join)) projection)
    (canons (map (outRow projection) (joinAnswer join (tableRows cs (jn_Left join)) (tableRows cs (jn_Right join)))))
    (canons (map (outRow projection) (joinAnswer join (rowsAfter dv (jn_Left join)) (rowsAfter dv (jn_Right join)))))"
  unfolding joinQueryDelta_def
proof (rule projected_exact)
  show "exact_delta (joinDelta dv join (Some (indexIDForColumn schemas)) (ColumnCount schemas (jn_Left join)))
      (canons (joinAnswer join (tableRows cs (jn_Left join)) (tableRows cs (jn_Right join))))
      (canons (joinAnswer join (rowsAfter dv (jn_Left join)) (rowsAfter dv (jn_Right join))))"
    using joinDelta_exact [OF view_join_ready [OF assms] commit_balanced [OF assms(1)] commit_balanced [OF assms(1)]]
    by (simp add: joinAnswer_bag [OF view_width(1) [OF assms(1)]] joinAnswer_bag [OF view_width(2) [OF assms(1)]])
qed (rule joinAnswer_ok; use commit_balanced [OF assms(1)] in \<open>simp add: balanced_def\<close>)+

theorem join_delta_exact_witness:
  "\<exists>cs ch cs' dv. commit_view triSchemas triColumns cs ch cs' dv \<and>
    exact_delta (joinQueryDelta dv (JoinPred 2 3 0 0 0 1 True None) (Some (indexIDForColumn triSchemas)) (ColumnCount triSchemas 2) [])
      (canons []) (canons [tagRow 5 3])"
proof -
  let ?j = "JoinPred 2 3 0 0 0 1 True None"
  obtain cs ch cs' dv where v: "commit_view triSchemas triColumns cs ch cs' dv" "tableRows cs 2 = []" "tableRows cs 3 = [tagRow 5 3]"
    "rowsAfter dv 2 = [tagRow 5 2]" "rowsAfter dv 3 = [tagRow 5 3]" using tri_view by blast
  have "join_typed triSchemas ?j" by (simp add: join_typed_def triSchema_def exampleSchema_def)
  note e = join_delta_exact [OF v(1) this, of "[0]" "[]"]
  have "joinAnswer ?j [] [tagRow 5 3] = []" "joinAnswer ?j [tagRow 5 2] [tagRow 5 3] = [tagRow 5 3]" by code_simp+
  with e v show ?thesis by (auto simp: outRow_def)
qed

text \<open>
  C7. Cross join subscriptions see every change. While the products of the table sizes fit a
  64-bit count, the counted evaluation, the filtered fragments and the re-evaluation of a
  filtered self product each give a delta that turns the product before the commit into the
  product after it.
\<close>

theorem cross_join_delta_exact:
  assumes "commit_view schemas cols cs ch cs' dv"
    and "length (tableRows cs (cj_Left p)) * length (tableRows cs (cj_Right p)) < 2 ^ 64"
    and "length (rowsAfter dv (cj_Left p)) * length (rowsAfter dv (cj_Right p)) < 2 ^ 64"
  shows "exact_delta (crossQueryDelta dv p projection)
    (canons (map (outRow projection) (crossAnswer p (tableRows cs (cj_Left p)) (tableRows cs (cj_Right p)))))
    (canons (map (outRow projection) (crossAnswer p (rowsAfter dv (cj_Left p)) (rowsAfter dv (cj_Right p)))))"
  unfolding crossQueryDelta_def
proof (rule projected_exact)
  show "exact_delta (evalCrossJoinDelta dv p)
      (canons (crossAnswer p (tableRows cs (cj_Left p)) (tableRows cs (cj_Right p))))
      (canons (crossAnswer p (rowsAfter dv (cj_Left p)) (rowsAfter dv (cj_Right p))))"
    using crossDelta_exact [OF commit_applied [OF assms(1)] commit_applied [OF assms(1)] assms(2,3)] by (simp add: crossAnswer_bag)
qed (rule crossAnswer_ok; use commit_balanced [OF assms(1)] in \<open>simp add: balanced_def\<close>)+

theorem cross_join_delta_exact_witness:
  "\<exists>cs ch cs' dv. commit_view triSchemas triColumns cs ch cs' dv \<and>
    exact_delta (crossQueryDelta dv (CrossJoinPred 2 3 0 1 False None) []) (canons []) (canons [tagRow 5 2])"
proof -
  let ?p = "CrossJoinPred 2 3 0 1 False None"
  obtain cs ch cs' dv where v: "commit_view triSchemas triColumns cs ch cs' dv" "tableRows cs 2 = []" "tableRows cs 3 = [tagRow 5 3]"
    "rowsAfter dv 2 = [tagRow 5 2]" "rowsAfter dv 3 = [tagRow 5 3]" using tri_view by blast
  have "crossAnswer ?p [] [tagRow 5 3] = []" "crossAnswer ?p [tagRow 5 2] [tagRow 5 3] = [tagRow 5 2]" by code_simp+
  with cross_join_delta_exact [OF v(1), of ?p "[]"] v show ?thesis by (auto simp: outRow_def)
qed

text \<open>
  C8. Multi-way join subscriptions with a projection, and those whose tables a commit only inserts
  into or only deletes from, see every change: the delta turns the join of the relations before
  the commit into their join after it.
\<close>

theorem multi_join_delta_exact:
  assumes "commit_view schemas cols cs ch cs' dv" "projectsValid p" "projection \<noteq> [] \<or> one_way dv p"
  shows "exact_delta (evalMultiJoinDelta dv p projection)
    (canons (multiJoinRows p projection (map (\<lambda>rel. tableRows cs (mr_table rel)) (mj_Relations p))))
    (canons (multiJoinRows p projection (map (\<lambda>rel. rowsAfter dv (mr_table rel)) (mj_Relations p))))"
proof -
  let ?Bs = "map (\<lambda>rel. tableRows cs (mr_table rel)) (mj_Relations p)"
  have "relations_applied ?Bs dv p"
    using assms(2) commit_applied [OF assms(1)] by (simp add: relations_applied_def list_all2_conv_all_nth)
  from multiJoinDelta_exact [OF this assms(3)] show ?thesis by (simp add: canons_multiJoinRows [OF assms(2)] afterRowsOf_def)
qed

text \<open>Three relations joined on their first columns.\<close>

definition exampleMulti :: "tableID \<Rightarrow> tableID \<Rightarrow> tableID \<Rightarrow> predicate multiJoinPred" where
  "exampleMulti a b c = MultiJoinPred
     [\<lparr>mr_table = a, mr_alias = 0\<rparr>, \<lparr>mr_table = b, mr_alias = 1\<rparr>, \<lparr>mr_table = c, mr_alias = 2\<rparr>]
     [\<lparr>mjc_left = \<lparr>mc_relation = 0, mc_table = a, mc_column = 0, mc_alias = 0\<rparr>,
       mjc_right = \<lparr>mc_relation = 1, mc_table = b, mc_column = 0, mc_alias = 1\<rparr>\<rparr>,
      \<lparr>mjc_left = \<lparr>mc_relation = 1, mc_table = b, mc_column = 0, mc_alias = 1\<rparr>,
       mjc_right = \<lparr>mc_relation = 2, mc_table = c, mc_column = 0, mc_alias = 2\<rparr>\<rparr>] 0 None"

theorem multi_join_delta_exact_witness:
  "\<exists>cs ch cs' dv. commit_view triSchemas triColumns cs ch cs' dv \<and>
    exact_delta (evalMultiJoinDelta dv (exampleMulti 2 3 2) [\<lparr>pj_table = 3, pj_column = 1, pj_alias = 1\<rparr>]) (canons []) (canons [[NewInt16 3]])"
proof -
  let ?p = "exampleMulti 2 3 2" and ?c = "[\<lparr>pj_table = 3, pj_column = 1, pj_alias = 1\<rparr>]"
  obtain cs ch cs' dv where v: "commit_view triSchemas triColumns cs ch cs' dv" "tableRows cs 2 = []" "tableRows cs 3 = [tagRow 5 3]"
    "rowsAfter dv 2 = [tagRow 5 2]" "rowsAfter dv 3 = [tagRow 5 3]" using tri_view by blast
  have p: "projectsValid ?p" by (simp add: projectsValid_def exampleMulti_def)
  have r: "map (\<lambda>rel. f (mr_table rel)) (mj_Relations ?p) = [f 2, f 3, f 2]" for f :: "tableID \<Rightarrow> productValue list"
    by (simp add: exampleMulti_def)
  have "multiJoinRows ?p ?c [[], [tagRow 5 3], []] = []" "multiJoinRows ?p ?c [[tagRow 5 2], [tagRow 5 3], [tagRow 5 2]] = [[NewInt16 3]]"
    by code_simp+
  with multi_join_delta_exact [OF v(1) p, of ?c, unfolded r] v show ?thesis by auto
qed

text \<open>
  C31. Without a projection the fragments of a multi-way join are wrong for a commit that deletes a
  row of one relation and inserts a row of another. When the deleted row, the inserted row and an
  unchanged row match, the join is empty before and after the commit, and yet the evaluator
  reports the deletion of a row the subscriber never had.
\<close>

theorem multi_join_spurious_delete:
  assumes "commit_view schemas cols cs ch cs' dv" "projectsValid p" "tupleMatches p [r1, r2, r3]"
    and "map (\<lambda>rel. (tableRows cs (mr_table rel), rowsAfter dv (mr_table rel))) (mj_Relations p) = [([r1], []), ([], [r2]), ([r3], [r3])]"
    and "map (\<lambda>rel. (InsertedRows dv (mr_table rel), DeletedRows dv (mr_table rel))) (mj_Relations p) = [([], [r1]), ([r2], []), ([], [])]"
  shows "multiJoinRows p [] (map (\<lambda>rel. tableRows cs (mr_table rel)) (mj_Relations p)) = [] \<and>
    multiJoinRows p [] (map (\<lambda>rel. rowsAfter dv (mr_table rel)) (mj_Relations p)) = [] \<and>
    (\<exists>D. computes (evalMultiJoinDelta dv p []) ([], D) \<and> canons D = {#canon (projectMultiJoinTuple [r1, r2, r3] p [])#})"
proof -
  obtain a b c where rels: "mj_Relations p = [a, b, c]" using assms(4) by (auto simp: map_eq_Cons_conv)
  note rows = assms(4,5) [unfolded rels, simplified]
  have "relations_applied (map (\<lambda>rel. tableRows cs (mr_table rel)) (mj_Relations p)) dv p"
    using assms(2) commit_applied [OF assms(1)] by (simp add: relations_applied_def list_all2_conv_all_nth)
  then have "relations_applied [[r1], [], [r3]] dv p" using rows by (simp add: rels)
  from spurious_delete [OF this assms(3)] rows show ?thesis by (simp add: rels multiJoinRows_def)
qed

theorem multi_join_spurious_delete_witness:
  "\<exists>cs ch cs' dv. commit_view triSchemas triColumns cs ch cs' dv \<and>
    multiJoinRows (exampleMulti 1 2 3) [] [tableRows cs 1, tableRows cs 2, tableRows cs 3] = [] \<and>
    multiJoinRows (exampleMulti 1 2 3) [] [rowsAfter dv 1, rowsAfter dv 2, rowsAfter dv 3] = [] \<and>
    (\<exists>D. computes (evalMultiJoinDelta dv (exampleMulti 1 2 3) []) ([], D) \<and> canons D = {#canon (tagRow 5 1)#})"
proof -
  let ?p = "exampleMulti 1 2 3"
  obtain cs ch cs' dv where v: "commit_view triSchemas triColumns cs ch cs' dv"
    and rows: "tableRows cs 1 = [tagRow 5 1]" "tableRows cs 2 = []" "tableRows cs 3 = [tagRow 5 3]"
      "rowsAfter dv 1 = []" "rowsAfter dv 2 = [tagRow 5 2]" "rowsAfter dv 3 = [tagRow 5 3]"
      "InsertedRows dv 1 = []" "InsertedRows dv 2 = [tagRow 5 2]" "InsertedRows dv 3 = []"
      "DeletedRows dv 1 = [tagRow 5 1]" "DeletedRows dv 2 = []" "DeletedRows dv 3 = []" using tri_view by blast
  have p: "projectsValid ?p" by (simp add: projectsValid_def exampleMulti_def)
  have m: "tupleMatches ?p [tagRow 5 1, tagRow 5 2, tagRow 5 3]" by code_simp
  have r: "map (\<lambda>rel. f (mr_table rel)) (mj_Relations ?p) = [f 1, f 2, f 3]" for f :: "tableID \<Rightarrow> productValue list"
    by (simp add: exampleMulti_def)
  have c: "map (\<lambda>rel. (tableRows cs (mr_table rel), rowsAfter dv (mr_table rel))) (mj_Relations ?p) =
      [([tagRow 5 1], []), ([], [tagRow 5 2]), ([tagRow 5 3], [tagRow 5 3])]"
    "map (\<lambda>rel. (InsertedRows dv (mr_table rel), DeletedRows dv (mr_table rel))) (mj_Relations ?p) =
      [([], [tagRow 5 1]), ([tagRow 5 2], []), ([], [])]" by (simp_all add: exampleMulti_def rows)
  have out: "projectMultiJoinTuple [tagRow 5 1, tagRow 5 2, tagRow 5 3] ?p [] = tagRow 5 1" by code_simp
  from multi_join_spurious_delete [OF v p m c, unfolded r out] v show ?thesis by blast
qed

end
