(* ===== verification/Spec2Isabelle.thy ===== *)
theory Spec2Isabelle
  imports ValueText Bsatn Recovery Snapshot LogReplay QueryDelta
begin

text \<open>
  Shunter is a Go runtime for small stateful services: reducers run as serial transactions over
  typed in-memory tables, every commit yields a changeset, changesets are written to a
  segmented log, and after a crash the log is replayed onto the last state. Clients subscribe to
  queries and are sent how the answers change. This development models the data path from a
  column value to a recovered database, and the evaluation of subscriptions on a commit.

  \<^bold>\<open>How the parts interact.\<close> Values (\<open>types\<close>) are rows' columns; rows are encoded by the codec
  (\<open>bsatn\<close>) and stored in tables with B-tree indexes (\<open>store\<close>). A transaction buffers its
  inserts and deletes over the committed state, reads through a state view, and is committed by
  revalidating, building a changeset and applying it. The changeset is encoded and appended to a
  log segment, with a sparse offset index beside it (\<open>commitlog\<close>). Recovery scans the segments,
  replays the changesets through a batch and plans where appending resumes. Snapshots give
  concurrent readers a stable view under the read lock. After a commit the subscription manager
  builds a delta view from the changeset and a snapshot of the new state, and evaluates each
  query to the rows its answer gained and lost (\<open>subscription\<close>).

  \<^bold>\<open>Conventions.\<close> A Go struct is a record, an enum or interface a datatype, a map an association
  list with distinct keys (iteration order is the list's, and results that depend on it are
  stated up to it), a slice a list, a file a byte list, a directory an association list from names
  to entries. A result with an error is \<open>'e + 'a\<close>, threaded by \<open>bindE\<close>; a panic is the value
  \<open>None\<close> around it. Fixed-width integers are words. Iterators are the lists they yield, except in
  \<^theory_text>\<open>Snapshot\<close>, where the consumer's steps are visible. Loops that do not recurse structurally are
  functions with termination proofs; fuel appears only in the JSON canonicaliser, where the
  length of the text is proved to be enough. A query evaluation is a function of its context,
  which carries the budgets and may be seen cancelled; that it \<open>computes\<close> a value means that it
  returns this value or stops for a quota or a cancellation, and returns when there is no limit.
  The rows of an answer are compared as a bag of canonical bytes, in which equal rows, and only
  they, agree.

  \<^bold>\<open>Theories and the code they model.\<close>

  \<^item> \<^theory_text>\<open>Prelude\<close>: results, words, little-endian bytes, shared list and map lemmas.
  \<^item> \<^theory_text>\<open>Json\<close> (\<open>types/json.go\<close>): the JSON canonicaliser over a model of Go's token decoder.
  \<^item> \<^theory_text>\<open>Value\<close>, \<^theory_text>\<open>ValueHash\<close>, \<^theory_text>\<open>ValueText\<close> (\<open>types/value.go\<close>, \<open>types/product_value.go\<close>): constructors,
    order, equality, both hashes, UUID and duration text.
  \<^item> \<^theory_text>\<open>SchemaTypes\<close> (\<open>schema/types.go\<close>, \<open>schema/valuekind_export.go\<close>,
    \<open>internal/autoincrement/value.go\<close>): table, column and index records, kind names.
  \<^item> \<^theory_text>\<open>Decoders\<close>, \<^theory_text>\<open>Bsatn\<close> (\<open>bsatn\<close>): encoders, size functions and decoders of values and rows.
    Shown: round trips, exactness of the accepted bytes, errors on every truncation.
  \<^item> \<^theory_text>\<open>IndexKeys\<close>, \<^theory_text>\<open>BTree\<close> (\<open>store/index_key.go\<close>, \<open>store/btree_index.go\<close>, \<open>store/index.go\<close>): the paged index
    refines a sorted association list; seeks and bounded scans are filters of it.
  \<^item> \<^theory_text>\<open>Table\<close> (\<open>store/table.go\<close>, \<open>store/sequence.go\<close>, \<open>store/validate.go\<close>): a table with its indexes and row hashes
    refines a map of rows under key and set constraints.
  \<^item> \<^theory_text>\<open>TxState\<close>, \<^theory_text>\<open>Transaction\<close> (\<open>store/tx_state.go\<close>, \<open>store/state_view.go\<close>, \<open>store/transaction.go\<close>,
    \<open>store/committed_state.go\<close>): buffers, reads, insert, delete, update. Shown: reads agree with
    one map, constraints hold in the view, operations refine a constrained map, failed
    updates leave no trace.
  \<^item> \<^theory_text>\<open>Commit\<close> (\<open>store/commit.go\<close>, \<open>store/changeset.go\<close>): atomicity, progress, and the balance of rows and
    changesets along a history.
  \<^item> \<^theory_text>\<open>Recovery\<close> (\<open>store/recovery.go\<close>): replay reproduces the state, all or nothing.
  \<^item> \<^theory_text>\<open>Snapshot\<close> (\<open>store/snapshot.go\<close>): the lock protocol as a step relation, reads, iterators.
  \<^item> \<^theory_text>\<open>Segment\<close> (\<open>commitlog/segment.go\<close>, \<open>commitlog/segment_scan.go\<close>): record framing with CRC-32C, writer,
    reader and scanner. Shown: round trip, detection of single bit errors, contiguity of
    accepted logs, survival of synchronised records when the file is cut.
  \<^item> \<^theory_text>\<open>ChangesetCodec\<close> (\<open>commitlog/changeset_codec.go\<close>): the changeset payload of a record.
  \<^item> \<^theory_text>\<open>OffsetIndex\<close> (\<open>commitlog/offset_index.go\<close>): the index file refines a strictly increasing list.
  \<^item> \<^theory_text>\<open>LogReplay\<close> (\<open>commitlog/replay.go\<close> and the resume planning of \<open>commitlog/recovery.go\<close>): replay
    through the index equals application of the records in order; the end-to-end theorem that
    synchronised commits survive a crash.
  \<^item> \<^theory_text>\<open>Budget\<close> (\<open>internal/querywork/budget.go\<close>, \<open>subscription/delta_budget.go\<close>): evaluation under budgets.
  \<^item> \<^theory_text>\<open>RowBags\<close>, \<^theory_text>\<open>RowDiffs\<close> (\<open>subscription/delta_dedup.go\<close>, the counting part of \<open>subscription/eval.go\<close>,
    the value encoding of \<open>subscription/hash.go\<close>): rows counted in hash buckets and under keys;
    reconciliation and differences are differences of bags.
  \<^item> \<^theory_text>\<open>Predicates\<close> (\<open>subscription/predicate.go\<close>, \<open>subscription/delta_single.go\<close>): predicates and their matching.
  \<^item> \<^theory_text>\<open>PairBags\<close>: the algebra of bags of pairs the fragments of a join obey.
  \<^item> \<^theory_text>\<open>DeltaView\<close> (\<open>subscription/delta_view.go\<close>, \<open>subscription/value_index.go\<close>, the column indexes of
    \<open>schema/registry.go\<close>): the view of a commit; its hash indexes find exactly the equal values.
  \<^item> \<^theory_text>\<open>JoinDelta\<close> (\<open>subscription/delta_join.go\<close>), \<^theory_text>\<open>CrossDelta\<close> (cross joins of \<open>subscription/eval.go\<close>),
    \<^theory_text>\<open>MultiJoinDelta\<close> (\<open>subscription/multi_join.go\<close>): each evaluator yields the change of its join;
    for multi-way joins without a projection only when a commit does not mix inserts and deletes.
  \<^item> \<^theory_text>\<open>QueryDelta\<close> (\<open>subscription/delta_single.go\<close>, \<open>subscription/eval.go\<close>): single-table queries, projections,
    and the theorems on the deltas of a commit, with the counterexample for multi-way joins.

  \<^bold>\<open>Interfaces.\<close> Locales state the contracts clients rely on and are interpreted on the code's own
  definitions: record readers over framed streams (\<open>record_stream\<close>, for both readers), offset
  lookups (\<open>offset_lookup\<close>, for the mutable and the read-only index), pairings of rows
  (\<open>pair_bag\<close>, for joins and cross joins), contributions of tuples (\<open>tuple_bag\<close>, for multi-way
  joins), and those of the store theories.

  \<^bold>\<open>Not modelled.\<close> Goroutines, mutexes other than the snapshot's read lock, metrics and tracing,
  memory accounting, aliasing of slices, failures of single system calls other than a cut file,
  snapshot files and compaction, schema reflection, the executor's queue, the registration of
  subscriptions, their candidate pruning, aggregates, windows, size limits checked ahead of a
  multi-way join and fan-out, SQL, the network protocol, authentication, code generation and the
  command line.
\<close>

end
